(* ===== verification/Prelude.thy ===== *)
theory Prelude
  imports Complex_Main "HOL-Library.AList" "HOL-Library.Char_ord" "HOL-Library.Multiset"
begin

text \<open>
  What every component shares: the names of the basic types, the reading of Python's
  truthiness on optional strings, dictionaries that remember insertion order, and
  generic facts about lists that the component proofs use through collections.

  \<^item> A Python \<open>str\<close> that carries document text is a list of Unicode code points
    (\<open>text\<close>), because the program indexes, slices and compares it by code point.
  \<^item> Identifiers (line, block, page and file names) are opaque strings that are compared,
    tested for emptiness and concatenated only.
  \<^item> A Python \<open>float\<close> is an exact rational: the thresholds of the policies are decimal
    literals and the ratios are quotients of small integers, which a double keeps in order.
  \<^item> A Python \<open>dict\<close> is an association list in insertion order; \<open>AList.update\<close> overwrites
    in place and appends a new key at the end, as the dictionary does.
\<close>

section \<open>Types\<close>

type_synonym cp = int

type_synonym ptext = "cp list"

type_synonym ident = string

type_synonym ('k, 'v) dict = "('k \<times> 'v) list"

text \<open>A text literal, for the constants of the program and the witnesses.\<close>

definition tx :: "string \<Rightarrow> ptext" where
  "tx s = map of_char s"

text \<open>Python's truth value of an optional string: both \<open>None\<close> and the empty string are false.\<close>

fun truthy :: "'a list option \<Rightarrow> bool" where
  "truthy None = False"
| "truthy (Some s) = (s \<noteq> [])"

text \<open>Python's \<open>x or y\<close> on optional strings.\<close>

definition py_or :: "'a list option \<Rightarrow> 'a list option \<Rightarrow> 'a list option" where
  "py_or x y = (if truthy x then x else y)"

named_theorems frame_simps "what an operation leaves untouched"

named_theorems policy_defs "the default values of the policies"

lemma truthy_iff: "truthy x \<longleftrightarrow> (\<exists>s. x = Some s \<and> s \<noteq> [])"
  by (cases x) auto

lemma truthyE [elim]:
  assumes "truthy x" obtains s where "x = Some s" "s \<noteq> []"
  using assms by (auto simp: truthy_iff)

section \<open>Ordered dictionaries\<close>

definition dict_set :: "'k \<Rightarrow> 'v \<Rightarrow> ('k, 'v) dict \<Rightarrow> ('k, 'v) dict" where
  "dict_set = AList.update"

text \<open>\<open>d.setdefault(k, []).append(v)\<close>\<close>

definition dict_append :: "'k \<Rightarrow> 'v \<Rightarrow> ('k, 'v list) dict \<Rightarrow> ('k, 'v list) dict" where
  "dict_append k v d =
     (case map_of d k of None \<Rightarrow> d @ [(k, [v])] | Some vs \<Rightarrow> dict_set k (vs @ [v]) d)"

definition dict_of :: "('a \<Rightarrow> 'k) \<Rightarrow> 'a list \<Rightarrow> ('k, 'a) dict" where
  "dict_of key xs = foldl (\<lambda>d x. dict_set (key x) x d) [] xs"

lemma map_of_dict_set [simp]: "map_of (dict_set k v d) = (map_of d)(k \<mapsto> v)"
  by (simp add: dict_set_def update_conv')

lemma dom_dict_set [simp]: "fst ` set (dict_set k v d) = insert k (fst ` set d)"
  by (simp add: dict_set_def dom_update)

lemma distinct_dict_set [simp]:
  "distinct (map fst d) \<Longrightarrow> distinct (map fst (dict_set k v d))"
  by (simp add: dict_set_def distinct_update)

lemma dict_set_new: "k \<notin> fst ` set d \<Longrightarrow> dict_set k v d = d @ [(k, v)]"
  by (induction d) (auto simp: dict_set_def)

lemma keys_dict_set:
  "map fst (dict_set k v d) = (if k \<in> fst ` set d then map fst d else map fst d @ [k])"
  by (induction d) (auto simp: dict_set_def)

lemma keys_dict_set_insert [simp]: "fst ` set (dict_set k v d) = insert k (fst ` set d)"
  using arg_cong [OF keys_dict_set [of k v d], of set] by (auto split: if_splits)

lemma vals_dict_set: "snd ` set (dict_set k v d) \<subseteq> insert v (snd ` set d)"
  by (induction d) (auto simp: dict_set_def split: if_splits)

lemma fold_dict_set:
  "fst ` set (foldl (\<lambda>d x. dict_set (key x) (val x) d) [] xs) = key ` set xs"
  "snd ` set (foldl (\<lambda>d x. dict_set (key x) (val x) d) [] xs) \<subseteq> val ` set xs"
proof (induction xs rule: rev_induct)
  case (snoc x xs)
  {
    case 1
    from snoc(1) show ?case by simp
  next
    case 2
    from snoc(2) vals_dict_set [of "key x" "val x" "foldl (\<lambda>d x. dict_set (key x) (val x) d) [] xs"]
    show ?case unfolding foldl_append foldl_Cons foldl_Nil set_append list.set image_insert image_Un by blast
  }
qed simp_all

lemma map_of_append_None: "map_of d k = None \<Longrightarrow> map_of (d @ e) k = map_of e k"
  by (simp add: map_add_def)

lemma dict_of_Nil [simp]: "dict_of key [] = []"
  by (simp add: dict_of_def)

lemma dict_of_snoc: "dict_of key (xs @ [x]) = dict_set (key x) x (dict_of key xs)"
  by (simp add: dict_of_def)

lemma keys_dict_of [simp]: "fst ` set (dict_of key xs) = key ` set xs"
  by (induction xs rule: rev_induct) (auto simp: dict_of_snoc)

lemma distinct_keys_dict_of [simp]: "distinct (map fst (dict_of key xs))"
  by (induction xs rule: rev_induct) (simp_all add: dict_of_snoc)

lemma dict_of_distinct:
  "distinct (map key xs) \<Longrightarrow> dict_of key xs = map (\<lambda>x. (key x, x)) xs"
proof (induction xs rule: rev_induct)
  case Nil
  then show ?case by (simp add: dict_of_def)
next
  case (snoc x xs)
  then have "key x \<notin> fst ` set (dict_of key xs)" by auto
  with snoc show ?case by (simp add: dict_of_snoc dict_set_new)
qed

lemma map_of_dict_of_Some:
  "map_of (dict_of key xs) k = Some x \<Longrightarrow> x \<in> set xs \<and> key x = k"
proof (induction xs rule: rev_induct)
  case (snoc y ys)
  then show ?case by (cases "k = key y") (simp_all add: dict_of_snoc)
qed simp

lemma map_of_dict_of_None: "map_of (dict_of key xs) k = None \<longleftrightarrow> k \<notin> key ` set xs"
  by (simp add: map_of_eq_None_iff)

lemma map_of_dict_of_distinct:
  assumes "distinct (map key xs)" "x \<in> set xs"
  shows "map_of (dict_of key xs) (key x) = Some x"
proof -
  have "map_of (dict_of key xs) (key x) \<noteq> None"
    using assms(2) by (simp add: map_of_dict_of_None)
  then obtain y where y: "map_of (dict_of key xs) (key x) = Some y" by auto
  have "y \<in> set xs \<and> key y = key x" by (rule map_of_dict_of_Some [OF y])
  with assms have "y = x" by (metis distinct_map inj_on_def)
  with y show ?thesis by simp
qed

text \<open>Lookup and insertion of a Python dictionary, as a contract its users rely on.\<close>

locale ordered_map =
  fixes lookup :: "'m \<Rightarrow> 'k \<Rightarrow> 'v option"
    and insert_at :: "'k \<Rightarrow> 'v \<Rightarrow> 'm \<Rightarrow> 'm"
    and keys :: "'m \<Rightarrow> 'k list"
    and invar :: "'m \<Rightarrow> bool"
  assumes lookup_insert: "lookup (insert_at k v m) = (lookup m)(k \<mapsto> v)"
    and keys_insert: "invar m \<Longrightarrow>
      keys (insert_at k v m) = (if k \<in> set (keys m) then keys m else keys m @ [k])"
    and keys_lookup: "invar m \<Longrightarrow> k \<in> set (keys m) \<longleftrightarrow> lookup m k \<noteq> None"
    and invar_insert: "invar m \<Longrightarrow> invar (insert_at k v m)"
begin

definition insert_all :: "('k \<times> 'v) list \<Rightarrow> 'm \<Rightarrow> 'm" where
  "insert_all kvs m = foldl (\<lambda>d (k, v). insert_at k v d) m kvs"

lemma invar_insert_all: "invar m \<Longrightarrow> invar (insert_all kvs m)"
  by (induction kvs arbitrary: m) (auto simp: insert_all_def invar_insert)

lemma lookup_insert_all_other:
  "k \<notin> fst ` set kvs \<Longrightarrow> lookup (insert_all kvs m) k = lookup m k"
  by (induction kvs arbitrary: m) (auto simp: insert_all_def lookup_insert)

lemma keys_insert_all_prefix:
  "invar m \<Longrightarrow> \<exists>ks. keys (insert_all kvs m) = keys m @ ks"
proof (induction kvs arbitrary: m)
  case Nil
  then show ?case by (simp add: insert_all_def)
next
  case (Cons kv kvs)
  obtain k v where kv: "kv = (k, v)" by fastforce
  from Cons.prems have "invar (insert_at k v m)" by (rule invar_insert)
  then obtain ks where "keys (insert_all kvs (insert_at k v m)) = keys (insert_at k v m) @ ks"
    using Cons.IH by blast
  with Cons.prems kv show ?case by (auto simp: insert_all_def keys_insert)
qed

end

interpretation pydict: ordered_map
  "map_of :: ('k, 'v) dict \<Rightarrow> 'k \<Rightarrow> 'v option" dict_set "map fst" "\<lambda>d. distinct (map fst d)"
proof unfold_locales
  fix m :: "('k, 'v) dict" and k :: 'k
  show "k \<in> set (map fst m) \<longleftrightarrow> map_of m k \<noteq> None"
    by (metis map_of_eq_None_iff set_map)
qed (auto simp: keys_dict_set)

section \<open>Lists\<close>

lemma take_drop_split: "i \<le> j \<Longrightarrow> take i xs @ take (j - i) (drop i xs) = take j xs"
  by (metis add.commute append_take_drop_id le_add_diff_inverse take_add)

lemma sorted_wrt_less_nat_distinct: "sorted_wrt (<) (xs :: nat list) \<Longrightarrow> distinct xs"
  by (simp add: strict_sorted_iff)

lemma zip_tl_nth:
  "i + 1 < length xs \<Longrightarrow> zip xs (tl xs) ! i = (xs ! i, xs ! (i + 1))"
  by (cases xs) auto

lemma in_set_zip_tl:
  assumes "(a, b) \<in> set (zip xs (tl xs))"
  obtains i where "i + 1 < length xs" "a = xs ! i" "b = xs ! (i + 1)"
proof -
  from assms obtain i where "i < length (zip xs (tl xs))" "zip xs (tl xs) ! i = (a, b)"
    by (metis in_set_conv_nth)
  moreover from this have "i + 1 < length xs" by auto
  ultimately show thesis using that zip_tl_nth by (metis prod.inject)
qed

lemma set_tl_subset: "set (tl xs) \<subseteq> set xs"
  by (cases xs) auto

lemma filter_partition_length: "length (filter P xs) + length (filter (\<lambda>x. \<not> P x) xs) = length xs"
  by (rule sum_length_filter_compl)

lemma distinct_concat_filter:
  "distinct (concat xss) \<Longrightarrow> distinct (concat (filter P xss))"
  by (induction xss) auto

lemma mset_concat_map_cong:
  "\<forall>x \<in> set xs. mset (f x) = mset (g x) \<Longrightarrow> mset (concat (map f xs)) = mset (concat (map g xs))"
  by (induction xs) simp_all

lemma mset_concat_map_perm:
  "mset ys = mset xs \<Longrightarrow> mset (concat (map f ys)) = mset (concat (map f xs))"
  by (simp add: mset_concat flip: sum_mset_sum_list)

lemma concat_map_unique:
  "\<lbrakk>distinct (concat (map f xs)); x \<in> set xs; y \<in> set xs; z \<in> set (f x); z \<in> set (f y)\<rbrakk> \<Longrightarrow> x = y"
  by (induction xs) auto

lemma filter_set_mem: "x \<in> set (filter P xs) \<longleftrightarrow> x \<in> set xs \<and> P x"
  by simp

lemma find_SomeD: "List.find P xs = Some x \<Longrightarrow> x \<in> set xs \<and> P x"
  by (induction xs) (auto split: if_splits)

lemma find_upt_filter:
  "List.find P [i..<n] = Some j \<Longrightarrow> filter P [i..<n] = j # filter P [Suc j..<n]"
proof (induction "n - i" arbitrary: i)
  case (Suc d)
  then have "i < n" by simp
  then have upt: "[i..<n] = i # [Suc i..<n]" by (rule upt_conv_Cons)
  show ?case
  proof (cases "P i")
    case True
    with Suc.prems upt show ?thesis by simp
  next
    case False
    with Suc.prems upt have "List.find P [Suc i..<n] = Some j" by simp
    from Suc.hyps(1) [OF _ this] Suc.hyps(2) False upt show ?thesis by simp
  qed
qed simp

text \<open>Grouping with \<open>setdefault(...).append(...)\<close>: keys in order of first occurrence, values in
  order.\<close>

definition group_by :: "('a \<Rightarrow> 'k) \<Rightarrow> 'a list \<Rightarrow> ('k, 'a list) dict" where
  "group_by key xs = foldl (\<lambda>d x. dict_append (key x) x d) [] xs"

lemma group_by_snoc: "group_by key (xs @ [x]) = dict_append (key x) x (group_by key xs)"
  by (simp add: group_by_def)

lemma distinct_dict_append:
  "distinct (map fst d) \<Longrightarrow> distinct (map fst (dict_append k v d))"
  by (auto simp: dict_append_def map_of_eq_None_iff split: option.split)

lemma map_of_dict_append:
  "map_of (dict_append k v d) j =
     (if j = k then Some ((case map_of d k of None \<Rightarrow> [] | Some vs \<Rightarrow> vs) @ [v]) else map_of d j)"
  by (auto simp: dict_append_def map_add_def split: option.split)

lemma distinct_group_by: "distinct (map fst (group_by key xs))"
  by (induction xs rule: rev_induct) (simp_all add: group_by_def distinct_dict_append)

lemma map_of_group_by:
  "map_of (group_by key xs) k =
     (let ms = filter (\<lambda>x. key x = k) xs in if ms = [] then None else Some ms)"
proof (induction xs rule: rev_induct)
  case Nil
  then show ?case by (simp add: group_by_def)
next
  case (snoc x xs)
  then show ?case by (auto simp: group_by_snoc map_of_dict_append Let_def)
qed

lemma group_by_keys: "fst ` set (group_by key xs) = key ` set xs"
proof -
  have "k \<in> fst ` set (group_by key xs) \<longleftrightarrow> k \<in> key ` set xs" for k
  proof -
    have "k \<in> fst ` set (group_by key xs) \<longleftrightarrow> map_of (group_by key xs) k \<noteq> None"
      by (simp add: map_of_eq_None_iff)
    then show ?thesis by (auto simp: map_of_group_by Let_def filter_empty_conv)
  qed
  then show ?thesis by blast
qed

lemma group_by_distinct:
  "distinct (map key xs) \<Longrightarrow> group_by key xs = map (\<lambda>x. (key x, [x])) xs"
proof (induction xs rule: rev_induct)
  case Nil
  then show ?case by (simp add: group_by_def)
next
  case (snoc x xs)
  then have "key x \<notin> key ` set xs" by simp
  then have "map_of (group_by key xs) (key x) = None"
    by (simp only: map_of_eq_None_iff group_by_keys not_False_eq_True)
  with snoc show ?case by (simp add: group_by_snoc dict_append_def)
qed

end
