(* ===== verification/Py_Text.thy ===== *)
theory Py_Text
  imports Prelude
begin

text \<open>
  The operations of Python's \<open>str\<close> that the program uses, on code-point lists, and the
  text normalisation helpers of \<open>core/_norm.py\<close>.

  Whitespace is written out in full: the code points for which \<open>str.isspace\<close> holds, on
  which \<open>str.split\<close> and \<open>str.strip\<close> without an argument act. What depends on the Unicode
  character database (NFC, case folding, the letter, digit and alphanumeric classes) is data of the
  interpreter, not of this repository, and is a parameter, the record \<open>unicode\<close>. The last section
  holds Python's rounding and the decimal rendering of integers.
\<close>

section \<open>The Unicode character database, a parameter\<close>

record unicode =
  uc_nfc :: "ptext \<Rightarrow> ptext"
  uc_casefold :: "ptext \<Rightarrow> ptext"
  uc_isalpha :: "cp \<Rightarrow> bool"
  uc_isdigit :: "cp \<Rightarrow> bool"
  uc_isalnum :: "cp \<Rightarrow> bool"

text \<open>The database restricted to ASCII, on which every function of it is known: the instance
  the witnesses evaluate with.\<close>

definition ascii_upper :: "cp \<Rightarrow> bool" where
  "ascii_upper c \<longleftrightarrow> 65 \<le> c \<and> c \<le> 90"

definition ascii_lower :: "cp \<Rightarrow> bool" where
  "ascii_lower c \<longleftrightarrow> 97 \<le> c \<and> c \<le> 122"

definition ascii_digit :: "cp \<Rightarrow> bool" where
  "ascii_digit c \<longleftrightarrow> 48 \<le> c \<and> c \<le> 57"

definition ascii_unicode :: unicode where
  "ascii_unicode =
     \<lparr>uc_nfc = (\<lambda>s. s),
      uc_casefold = map (\<lambda>c. if ascii_upper c then c + 32 else c),
      uc_isalpha = (\<lambda>c. ascii_upper c \<or> ascii_lower c),
      uc_isdigit = ascii_digit,
      uc_isalnum = (\<lambda>c. ascii_upper c \<or> ascii_lower c \<or> ascii_digit c)\<rparr>"

section \<open>Python string operations\<close>

definition is_space :: "cp \<Rightarrow> bool" where
  "is_space c \<longleftrightarrow>
     9 \<le> c \<and> c \<le> 13 \<or> 28 \<le> c \<and> c \<le> 32 \<or> c = 133 \<or> c = 160 \<or> c = 5760 \<or>
     8192 \<le> c \<and> c \<le> 8202 \<or> c = 8232 \<or> c = 8233 \<or> c = 8239 \<or> c = 8287 \<or> c = 12288"

text \<open>\<open>s.split()\<close>: the maximal runs of non-space characters.\<close>

fun split_go :: "ptext \<Rightarrow> ptext \<Rightarrow> ptext list" where
  "split_go cur [] = (if cur = [] then [] else [cur])"
| "split_go cur (c # cs) =
     (if is_space c then (if cur = [] then split_go [] cs else cur # split_go [] cs)
      else split_go (cur @ [c]) cs)"

definition py_split :: "ptext \<Rightarrow> ptext list" where
  "py_split s = split_go [] s"

definition rstrip_of :: "(cp \<Rightarrow> bool) \<Rightarrow> ptext \<Rightarrow> ptext" where
  "rstrip_of p s = rev (dropWhile p (rev s))"

definition py_rstrip :: "ptext \<Rightarrow> ptext" where
  "py_rstrip s = rstrip_of is_space s"

definition strip_of :: "(cp \<Rightarrow> bool) \<Rightarrow> ptext \<Rightarrow> ptext" where
  "strip_of p s = dropWhile p (rstrip_of p s)"

definition py_strip :: "ptext \<Rightarrow> ptext" where
  "py_strip s = strip_of is_space s"

text \<open>\<open>s.endswith((c1, c2, ...))\<close> for single characters.\<close>

definition ends_in :: "cp set \<Rightarrow> ptext \<Rightarrow> bool" where
  "ends_in cs s \<longleftrightarrow> s \<noteq> [] \<and> last s \<in> cs"

text \<open>\<open>s[a:b]\<close> for \<open>0 \<le> a\<close> and \<open>0 \<le> b\<close>.\<close>

definition slice :: "nat \<Rightarrow> nat \<Rightarrow> 'a list \<Rightarrow> 'a list" where
  "slice a b s = take (b - a) (drop a s)"

definition starts_at :: "ptext \<Rightarrow> ptext \<Rightarrow> nat \<Rightarrow> bool" where
  "starts_at sub s i \<longleftrightarrow> i \<le> length s \<and> take (length sub) (drop i s) = sub"

text \<open>\<open>s.find(sub, i)\<close>, \<open>None\<close> for \<open>-1\<close>.\<close>

definition py_find :: "ptext \<Rightarrow> ptext \<Rightarrow> nat \<Rightarrow> nat option" where
  "py_find sub s i = List.find (starts_at sub s) [i ..< Suc (length s)]"

lemma py_find_range: "py_find sub s i = Some j \<Longrightarrow> i \<le> j \<and> j \<le> length s \<and> starts_at sub s j"
proof -
  assume "py_find sub s i = Some j"
  then obtain k where k: "k < length [i ..< Suc (length s)]" "j = [i ..< Suc (length s)] ! k" "starts_at sub s j"
    unfolding py_find_def find_Some_iff by blast
  from nth_mem [OF k(1)] have "j \<in> set [i ..< Suc (length s)]" unfolding k(2) .
  then have "i \<le> j" "j < Suc (length s)" by (simp_all only: set_upt atLeastLessThan_iff)
  with k(3) show ?thesis by simp
qed

section \<open>Facts about splitting and stripping\<close>

lemma split_go_nonempty: "w \<in> set (split_go cur s) \<Longrightarrow> w \<noteq> []"
  by (induction cur s rule: split_go.induct) (auto split: if_splits)

lemma split_go_no_space:
  "\<lbrakk>w \<in> set (split_go cur s); c \<in> set w; \<forall>x \<in> set cur. \<not> is_space x\<rbrakk> \<Longrightarrow> \<not> is_space c"
  by (induction cur s rule: split_go.induct) (auto split: if_splits)

lemma py_split_word: "w \<in> set (py_split s) \<Longrightarrow> w \<noteq> [] \<and> (\<forall>c \<in> set w. \<not> is_space c)"
  using split_go_nonempty split_go_no_space by (fastforce simp: py_split_def)

lemma concat_split_go:
  "\<forall>x \<in> set cur. \<not> is_space x \<Longrightarrow>
   concat (split_go cur s) = cur @ filter (\<lambda>c. \<not> is_space c) s"
  by (induction cur s rule: split_go.induct) auto

text \<open>Splitting loses the white space and nothing else.\<close>

lemma concat_py_split: "concat (py_split s) = filter (\<lambda>c. \<not> is_space c) s"
  by (simp add: py_split_def concat_split_go)

lemma split_go_Nil_iff: "split_go cur s = [] \<longleftrightarrow> cur = [] \<and> (\<forall>c \<in> set s. is_space c)"
  by (induction cur s rule: split_go.induct) auto

lemma py_split_Nil_iff: "py_split s = [] \<longleftrightarrow> (\<forall>c \<in> set s. is_space c)"
  by (simp add: py_split_def split_go_Nil_iff)

lemma rstrip_of_Nil_iff: "rstrip_of p s = [] \<longleftrightarrow> (\<forall>c \<in> set s. p c)"
  by (auto simp: rstrip_of_def dropWhile_eq_Nil_conv)

lemma strip_of_Nil_iff: "strip_of p s = [] \<longleftrightarrow> (\<forall>c \<in> set s. p c)"
proof -
  have "strip_of p s = [] \<longleftrightarrow> (\<forall>c \<in> set (rstrip_of p s). p c)"
    by (simp add: strip_of_def dropWhile_eq_Nil_conv)
  also have "\<dots> \<longleftrightarrow> rstrip_of p s = []"
  proof
    assume all: "\<forall>c \<in> set (rstrip_of p s). p c"
    show "rstrip_of p s = []"
    proof (rule ccontr)
      assume ne: "rstrip_of p s \<noteq> []"
      then have "\<not> p (hd (dropWhile p (rev s)))"
        by (simp add: rstrip_of_def hd_dropWhile)
      moreover have "hd (dropWhile p (rev s)) \<in> set (rstrip_of p s)"
        using ne by (auto simp: rstrip_of_def intro: hd_in_set)
      ultimately show False using all by blast
    qed
  qed simp
  finally show ?thesis by (simp add: rstrip_of_Nil_iff)
qed

lemma py_strip_Nil_iff: "py_strip s = [] \<longleftrightarrow> (\<forall>c \<in> set s. is_space c)"
  by (simp add: py_strip_def strip_of_Nil_iff)

lemma py_split_Nil_strip: "py_split s = [] \<longleftrightarrow> py_strip s = []"
  by (simp add: py_split_Nil_iff py_strip_Nil_iff)

lemma rstrip_of_decomp: "\<exists>t. s = rstrip_of p s @ t \<and> (\<forall>c \<in> set t. p c)"
proof -
  have "rev s = takeWhile p (rev s) @ dropWhile p (rev s)" by simp
  then have "s = rev (dropWhile p (rev s)) @ rev (takeWhile p (rev s))"
    by (metis rev_append rev_rev_ident)
  then show ?thesis
    by (metis rstrip_of_def set_rev set_takeWhileD)
qed

lemma rstrip_of_last: "rstrip_of p s \<noteq> [] \<Longrightarrow> \<not> p (last (rstrip_of p s))"
  by (auto simp: rstrip_of_def last_rev hd_dropWhile)

lemma rstrip_of_idem [simp]: "rstrip_of p (rstrip_of p s) = rstrip_of p s"
  by (simp add: rstrip_of_def)

lemma rstrip_of_append_last: "\<not> p c \<Longrightarrow> rstrip_of p (s @ [c]) = s @ [c]"
  by (simp add: rstrip_of_def)

lemma rstrip_of_append_all: "\<forall>c \<in> set t. p c \<Longrightarrow> rstrip_of p (s @ t) = rstrip_of p s"
  by (induction t rule: rev_induct) (simp_all add: rstrip_of_def)

lemma last_dropWhile: "dropWhile p xs \<noteq> [] \<Longrightarrow> last (dropWhile p xs) = last xs"
  by (metis last_appendR takeWhile_dropWhile_id)

lemma py_strip_idem: "py_strip (py_strip s) = py_strip s"
proof (cases "py_strip s = []")
  case True
  then show ?thesis by (simp only: True) (simp add: py_strip_def strip_of_def rstrip_of_def)
next
  case False
  let ?r = "rstrip_of is_space s" and ?d = "py_strip s"
  have d: "?d = dropWhile is_space ?r" by (simp add: py_strip_def strip_of_def)
  then have "last ?d = last ?r" using False last_dropWhile [of is_space ?r] by simp
  moreover have "?r \<noteq> []" using False d by auto
  ultimately have "\<not> is_space (last ?d)" using rstrip_of_last [of is_space s] by simp
  then have "rstrip_of is_space ?d = ?d"
    using rstrip_of_append_last [of is_space "last ?d" "butlast ?d"] False by simp
  then have "py_strip ?d = dropWhile is_space ?d" by (simp add: py_strip_def strip_of_def)
  also have "\<dots> = ?d" unfolding d by simp
  finally show ?thesis .
qed

lemma strip_last: "py_strip s = s \<Longrightarrow> s \<noteq> [] \<Longrightarrow> \<not> is_space (last s)"
proof -
  assume s: "py_strip s = s" "s \<noteq> []"
  then have ne: "dropWhile is_space (rstrip_of is_space s) \<noteq> []" by (simp add: py_strip_def strip_of_def)
  then have "rstrip_of is_space s \<noteq> []" by auto
  then have "\<not> is_space (last (rstrip_of is_space s))" by (rule rstrip_of_last)
  with last_dropWhile [OF ne] s show ?thesis by (simp add: py_strip_def strip_of_def)
qed

lemma strip_clean_idem: "py_strip (filter (\<lambda>c. c \<noteq> 13) (py_strip (filter (\<lambda>c. c \<noteq> (13 :: cp)) s))) = py_strip (filter (\<lambda>c. c \<noteq> 13) s)"
proof -
  have "set (py_strip s) \<subseteq> set s" for s
    by (auto simp: py_strip_def strip_of_def rstrip_of_def dest!: set_dropWhileD)
  from this [of "filter (\<lambda>c. c \<noteq> 13) s"]
  have "filter (\<lambda>c. c \<noteq> 13) (py_strip (filter (\<lambda>c. c \<noteq> (13 :: cp)) s)) = py_strip (filter (\<lambda>c. c \<noteq> 13) s)"
    by (intro filter_True) auto
  then show ?thesis by (simp only: py_strip_idem)
qed

section \<open>Text normalisation (core/\_norm.py)\<close>

definition LINE_SEPARATORS :: "cp list" where
  "LINE_SEPARATORS = [10, 13, 11, 12, 28, 29, 30, 133, 8232, 8233]"

definition has_line_separator :: "ptext \<Rightarrow> bool" where
  "has_line_separator t \<longleftrightarrow> list_ex (\<lambda>c. c \<in> set LINE_SEPARATORS) t"

definition INVISIBLE_CHARS :: "cp list" where
  "INVISIBLE_CHARS = [173, 8203, 8204, 8205, 65279, 10, 13, 9]"

definition nfc :: "unicode \<Rightarrow> ptext \<Rightarrow> ptext" where
  "nfc u s = uc_nfc u s"

definition ncfold :: "unicode \<Rightarrow> ptext \<Rightarrow> ptext" where
  "ncfold u s = uc_casefold u (uc_nfc u s)"

definition strip_invisibles :: "ptext \<Rightarrow> ptext" where
  "strip_invisibles s = filter (\<lambda>c. c \<notin> set INVISIBLE_CHARS) s"

definition clean_content :: "unicode \<Rightarrow> ptext \<Rightarrow> ptext" where
  "clean_content u s =
     (let s1 = nfc u s;
          s2 = strip_invisibles s1
      in filter (\<lambda>c. \<not> (c < 32 \<or> 127 \<le> c \<and> c \<le> 159)) s2)"

lemma has_line_separator_append [simp]:
  "has_line_separator (a @ b) \<longleftrightarrow> has_line_separator a \<or> has_line_separator b"
  by (simp add: has_line_separator_def)

lemma has_line_separator_set:
  "has_line_separator t \<longleftrightarrow> (\<exists>c \<in> set t. c \<in> set LINE_SEPARATORS)"
  by (simp add: has_line_separator_def list_ex_iff)

lemma has_line_separator_take [simp]:
  "\<not> has_line_separator t \<Longrightarrow> \<not> has_line_separator (take n t)"
  by (auto simp: has_line_separator_set dest: in_set_takeD)

lemma has_line_separator_drop [simp]:
  "\<not> has_line_separator t \<Longrightarrow> \<not> has_line_separator (drop n t)"
  by (auto simp: has_line_separator_set dest: in_set_dropD)

text \<open>What the writer may put in a content attribute.\<close>

definition content_char :: "cp \<Rightarrow> bool" where
  "content_char c \<longleftrightarrow> c \<notin> set INVISIBLE_CHARS \<and> \<not> (c < 32 \<or> 127 \<le> c \<and> c \<le> 159)"

lemma clean_content_eq: "clean_content u s = filter content_char (nfc u s)"
  by (auto simp: clean_content_def strip_invisibles_def Let_def content_char_def intro!: filter_cong)

lemma clean_content_chars: "c \<in> set (clean_content u s) \<Longrightarrow> content_char c"
  by (simp add: clean_content_eq)

section \<open>Numbers and identifiers as text\<close>

text \<open>\<open>round(x)\<close>: to the nearest integer, ties to even.\<close>

definition py_round :: "rat \<Rightarrow> int" where
  "py_round x =
     (let f = \<lfloor>x\<rfloor>; r = x - of_int f in
      if r < 1/2 then f else if r > 1/2 then f + 1 else if even f then f else f + 1)"

lemma py_round_bounds: "x - 1/2 \<le> of_int (py_round x) \<and> of_int (py_round x) \<le> x + 1/2"
proof -
  have f: "of_int \<lfloor>x\<rfloor> \<le> x" "x < of_int \<lfloor>x\<rfloor> + 1" by linarith+
  consider "x - of_int \<lfloor>x\<rfloor> < 1/2" | "x - of_int \<lfloor>x\<rfloor> > 1/2" | "x - of_int \<lfloor>x\<rfloor> = 1/2" by linarith
  then show ?thesis
  proof cases
    case 1
    then have "py_round x = \<lfloor>x\<rfloor>" by (simp add: py_round_def Let_def)
    then show ?thesis using f 1 by linarith
  next
    case 2
    then have "py_round x = \<lfloor>x\<rfloor> + 1" by (simp add: py_round_def Let_def)
    then show ?thesis using f 2 by simp
  next
    case 3
    then have "py_round x = \<lfloor>x\<rfloor> \<or> py_round x = \<lfloor>x\<rfloor> + 1" by (simp add: py_round_def Let_def)
    then show ?thesis using 3 by auto
  qed
qed

lemma py_round_of_nat [simp]: "py_round (of_nat k) = int k"
  by (simp add: py_round_def)

lemma py_round_zero [simp]: "py_round 0 = 0"
  by (simp add: py_round_def)

lemma py_round_mono: "x \<le> y \<Longrightarrow> py_round x \<le> py_round y"
proof -
  assume le: "x \<le> y"
  show "py_round x \<le> py_round y"
  proof (rule ccontr)
    assume "\<not> py_round x \<le> py_round y"
    then have "of_int (py_round y) + 1 \<le> (of_int (py_round x) :: rat)" by linarith
    with py_round_bounds [of x] py_round_bounds [of y] le
    have eq: "x = y" by linarith
    with \<open>\<not> py_round x \<le> py_round y\<close> show False by simp
  qed
qed

lemma py_round_nonneg: "0 \<le> x \<Longrightarrow> 0 \<le> py_round x"
  using py_round_mono [of 0 x] py_round_of_nat [of 0] by simp

text \<open>The decimal digits of an integer.\<close>

fun dec :: "nat \<Rightarrow> string" where
  "dec n = (if n < 10 then [char_of (48 + n)] else dec (n div 10) @ [char_of (48 + n mod 10)])"

declare dec.simps [simp del]

definition dec_int :: "int \<Rightarrow> string" where
  "dec_int k = (if k < 0 then ''-'' @ dec (nat (- k)) else dec (nat k))"

text \<open>\<open>s.strip()\<close> of an identifier.\<close>

definition char_strip :: "string \<Rightarrow> string" where
  "char_strip s =
     (let sp = (\<lambda>c. is_space (of_char c)) in dropWhile sp (rev (dropWhile sp (rev s))))"

end
