(* ===== verification/Manifest.thy ===== *)
theory Manifest
  imports Py_Text
begin

text \<open>
  The data the engine works on (\<open>core/schemas/manifest.py\<close>), the qualified identity of a
  line and the uniqueness gates of \<open>core/identity.py\<close>, and the exception families of
  \<open>errors.py\<close> and \<open>core/protocols.py\<close> as values.

  A pydantic model is a record with the source's fields. Where two models share a field
  name the field of the outer one carries a prefix (\<open>blk_\<close>, \<open>pg_\<close>, \<open>doc_\<close>). The
  messages of exceptions are their leading words only: no code under \<open>src/\<close> reads more.
\<close>

section \<open>Enumerations\<close>

datatype line_status = PENDING | CORRECTED | FALLBACK | FAILED

datatype chunk_granularity = PAGE | BLOCK | WINDOW | LINE

datatype hyphen_role = NONE | PART1 | PART2 | BOTH

text \<open>The wire value of a role, as the payload carries it.\<close>

fun role_value :: "hyphen_role \<Rightarrow> string" where
  "role_value NONE = ''none''"
| "role_value PART1 = ''HypPart1''"
| "role_value PART2 = ''HypPart2''"
| "role_value BOTH = ''HypBoth''"

definition opens_unit :: "hyphen_role \<Rightarrow> bool" where
  "opens_unit r \<longleftrightarrow> r = PART1 \<or> r = BOTH"

definition closes_unit :: "hyphen_role \<Rightarrow> bool" where
  "closes_unit r \<longleftrightarrow> r = PART2 \<or> r = BOTH"

lemma opens_unit_simps [simp]:
  "opens_unit PART1" "opens_unit BOTH" "\<not> opens_unit NONE" "\<not> opens_unit PART2"
  by (simp_all add: opens_unit_def)

lemma closes_unit_simps [simp]:
  "closes_unit PART2" "closes_unit BOTH" "\<not> closes_unit NONE" "\<not> closes_unit PART1"
  by (simp_all add: closes_unit_def)

section \<open>Geometry, lines, blocks, pages, documents\<close>

record coords =
  hpos :: int
  vpos :: int
  width :: int
  height :: int
  polygon :: "ptext option"

record line_manifest =
  line_id :: ident
  page_id :: ident
  block_id :: ident
  line_order_global :: int
  line_order_in_block :: int
  coords_of :: coords
  ocr_text :: ptext
  word_count :: "int option"
  ocr_confidence :: "rat option"
  prev_line_id :: "ident option"
  next_line_id :: "ident option"
  corrected_text :: "ptext option"
  status :: line_status
  hyphen_role :: hyphen_role
  hyphen_pair_line_id :: "ident option"
  hyphen_pair_page_id :: "ident option"
  hyphen_subs_content :: "ptext option"
  hyphen_source_explicit :: bool
  hyphen_forward_pair_id :: "ident option"
  hyphen_forward_pair_page_id :: "ident option"
  hyphen_forward_subs_content :: "ptext option"
  hyphen_forward_explicit :: bool

record block_manifest =
  blk_id :: ident
  blk_page_id :: ident
  blk_order :: int
  blk_coords :: coords
  blk_line_ids :: "ident list"

record page_manifest =
  pg_id :: ident
  pg_source_file :: ident
  pg_index :: int
  pg_width :: int
  pg_height :: int
  pg_blocks :: "block_manifest list"
  pg_lines :: "line_manifest list"

record document_manifest =
  doc_id :: ident
  doc_source_files :: "ident list"
  doc_pages :: "page_manifest list"
  doc_source_format :: "ident option"
  doc_source_encodings :: "(ident, ptext) dict"
  doc_source_digests :: "(ident, ident) dict"

definition total_pages :: "document_manifest \<Rightarrow> nat" where
  "total_pages d = length (doc_pages d)"

definition total_blocks :: "document_manifest \<Rightarrow> nat" where
  "total_blocks d = sum_list (map (\<lambda>p. length (pg_blocks p)) (doc_pages d))"

definition total_lines :: "document_manifest \<Rightarrow> nat" where
  "total_lines d = sum_list (map (\<lambda>p. length (pg_lines p)) (doc_pages d))"

text \<open>A line as a parser leaves it, for the witnesses.\<close>

definition plain_coords :: coords where
  "plain_coords = \<lparr>hpos = 0, vpos = 0, width = 0, height = 0, polygon = None\<rparr>"

definition plain_line :: "ident \<Rightarrow> ident \<Rightarrow> int \<Rightarrow> ptext \<Rightarrow> line_manifest" where
  "plain_line p l n t =
     \<lparr>line_id = l, page_id = p, block_id = ''b'', line_order_global = n,
      line_order_in_block = n, coords_of = plain_coords, ocr_text = t, word_count = None,
      ocr_confidence = None, prev_line_id = None, next_line_id = None, corrected_text = None,
      status = PENDING, hyphen_role = NONE, hyphen_pair_line_id = None,
      hyphen_pair_page_id = None, hyphen_subs_content = None, hyphen_source_explicit = False,
      hyphen_forward_pair_id = None, hyphen_forward_pair_page_id = None,
      hyphen_forward_subs_content = None, hyphen_forward_explicit = False\<rparr>"

section \<open>Exceptions\<close>

datatype exn_class =
    C_ParseError
  | C_DuplicateIdError
  | C_ProposalValidationError
  | C_HyphenIntegrityError
  | C_ProviderTransientError
  | C_ProviderPermanentError
  | C_ConfigurationError
  | C_ProjectionError
  | C_CorrectionAborted
  | C_ValueError
  | C_RuntimeError
  | C_OtherException

datatype exn = Exn (exn_class: exn_class) (exn_msg: string)

text \<open>\<open>isinstance(exc, SaknussemmError)\<close>\<close>

fun is_saknussemm_error :: "exn_class \<Rightarrow> bool" where
  "is_saknussemm_error C_ValueError = False"
| "is_saknussemm_error C_RuntimeError = False"
| "is_saknussemm_error C_OtherException = False"
| "is_saknussemm_error _ = True"

text \<open>\<open>isinstance(exc, ValueError)\<close>: the library's value-shaped errors and the built-in one,
  which \<open>json.JSONDecodeError\<close> inherits.\<close>

fun is_value_error :: "exn_class \<Rightarrow> bool" where
  "is_value_error C_ParseError = True"
| "is_value_error C_DuplicateIdError = True"
| "is_value_error C_ProposalValidationError = True"
| "is_value_error C_HyphenIntegrityError = True"
| "is_value_error C_ValueError = True"
| "is_value_error _ = False"

text \<open>\<open>if a check fails, its exception; otherwise the next one\<close>.\<close>

definition and_then :: "exn + unit \<Rightarrow> exn + 'a \<Rightarrow> exn + 'a" where
  "and_then check rest = (case check of Inl e \<Rightarrow> Inl e | Inr _ \<Rightarrow> rest)"

section \<open>Line identity (core/identity.py)\<close>

datatype lref = LineRef (ref_page_id: ident) (ref_line_id: ident)

definition line_ref :: "line_manifest \<Rightarrow> lref" where
  "line_ref lm = LineRef (page_id lm) (line_id lm)"

lemma line_ref_sel [simp]:
  "ref_page_id (line_ref lm) = page_id lm" "ref_line_id (line_ref lm) = line_id lm"
  by (simp_all add: line_ref_def)

lemma line_ref_eq_iff:
  "line_ref a = line_ref b \<longleftrightarrow> page_id a = page_id b \<and> line_id a = line_id b"
  by (simp add: line_ref_def)

text \<open>\<open>collections.Counter\<close>\<close>

definition counter :: "'a list \<Rightarrow> ('a, nat) dict" where
  "counter xs =
     foldl (\<lambda>d x. dict_set x (case map_of d x of None \<Rightarrow> 1 | Some n \<Rightarrow> Suc n) d) [] xs"

datatype dup_kind = PageIds | BlockIdsOn ident | LineIds | ElementIds string

text \<open>One formatted problem: its kind, the first five repeated ids with their counts, and how
  many more there are.\<close>

datatype dup_problem = DupProblem dup_kind "(ident \<times> nat) list" nat

definition MAX_REPORTED :: nat where
  "MAX_REPORTED = 5"

definition format_duplicates :: "dup_kind \<Rightarrow> (ident, nat) dict \<Rightarrow> dup_problem option" where
  "format_duplicates kind counts =
     (let dups = filter (\<lambda>(i, n). n > 1) counts in
      if dups = [] then None
      else Some (DupProblem kind (take MAX_REPORTED dups) (length dups - MAX_REPORTED)))"

text \<open>\<open>Inl\<close> is the \<open>DuplicateIdError\<close> with its problems.\<close>

definition raise_if_duplicates :: "dup_problem option list \<Rightarrow> dup_problem list + unit" where
  "raise_if_duplicates problems =
     (let real = List.map_filter id problems in if real \<noteq> [] then Inl real else Inr ())"

definition ensure_unique_identities :: "page_manifest list \<Rightarrow> dup_problem list + unit" where
  "ensure_unique_identities pages =
     raise_if_duplicates
       ([format_duplicates PageIds (counter (map pg_id pages))] @
        map (\<lambda>p. format_duplicates (BlockIdsOn (pg_id p)) (counter (map blk_id (pg_blocks p)))) pages @
        [format_duplicates LineIds
           (counter (concat (map (\<lambda>p. map line_id (pg_lines p)) pages)))])"

definition ensure_unique_element_ids ::
  "string \<Rightarrow> ident option list \<Rightarrow> dup_problem list + unit" where
  "ensure_unique_element_ids kind raw_ids =
     raise_if_duplicates
       [format_duplicates (ElementIds kind) (counter (map the (filter truthy raw_ids)))]"

definition ensure_element_ids_present :: "ident option list \<Rightarrow> exn + unit" where
  "ensure_element_ids_present raw_ids =
     (if length (filter (\<lambda>i. \<not> truthy i) raw_ids) > 0
      then Inl (Exn C_ParseError ''element without an id'') else Inr ())"

text \<open>\<open>seen.setdefault(page.page_id, page.source_file)\<close> walked over the pages.\<close>

fun page_ids_across :: "(ident, ident) dict \<Rightarrow> page_manifest list \<Rightarrow> exn + unit" where
  "page_ids_across seen [] = Inr ()"
| "page_ids_across seen (p # ps) =
     (case map_of seen (pg_id p) of
        None \<Rightarrow> page_ids_across (dict_set (pg_id p) (pg_source_file p) seen) ps
      | Some first \<Rightarrow>
          if first \<noteq> pg_source_file p
          then Inl (Exn C_DuplicateIdError ''page_id appears in two files'')
          else page_ids_across seen ps)"

definition ensure_unique_page_ids_across_files :: "page_manifest list \<Rightarrow> exn + unit" where
  "ensure_unique_page_ids_across_files pages = page_ids_across [] pages"

definition duplicates_as_exn :: "dup_problem list + unit \<Rightarrow> exn + unit" where
  "duplicates_as_exn res =
     (case res of Inl ps \<Rightarrow> Inl (Exn C_DuplicateIdError ''duplicate identities'') | Inr u \<Rightarrow> Inr u)"

lemma and_then_Inr [simp]: "and_then check rest = Inr x \<longleftrightarrow> check = Inr () \<and> rest = Inr x"
  by (cases check) (simp_all add: and_then_def)

lemma duplicates_Inr [simp]: "duplicates_as_exn res = Inr () \<longleftrightarrow> res = Inr ()"
  by (cases res) (simp_all add: duplicates_as_exn_def)

section \<open>What the gates guarantee\<close>

lemma counter_snoc:
  "counter (xs @ [x]) =
     dict_set x (case map_of (counter xs) x of None \<Rightarrow> 1 | Some n \<Rightarrow> Suc n) (counter xs)"
  by (simp add: counter_def)

lemma counter_props:
  "distinct (map fst (counter xs)) \<and>
   (\<forall>k. map_of (counter xs) k =
        (if k \<in> set xs then Some (count_list xs k) else None))"
proof (induction xs rule: rev_induct)
  case Nil
  then show ?case by (simp add: counter_def)
next
  case (snoc x xs)
  then show ?case by (auto simp: counter_snoc split: option.splits)
qed

lemma counter_mem: "(k, n) \<in> set (counter xs) \<longleftrightarrow> k \<in> set xs \<and> n = count_list xs k"
proof -
  have "(k, n) \<in> set (counter xs) \<longleftrightarrow> map_of (counter xs) k = Some n"
    using counter_props [of xs] by (metis map_of_eq_Some_iff)
  also have "\<dots> \<longleftrightarrow> k \<in> set xs \<and> n = count_list xs k"
    using counter_props [of xs] by (auto split: if_splits)
  finally show ?thesis .
qed

lemma count_list_gt1: "distinct xs \<longleftrightarrow> (\<forall>k \<in> set xs. \<not> count_list xs k > 1)"
proof (induction xs)
  case (Cons x xs)
  show ?case
  proof (cases "x \<in> set xs")
    case True
    then have "count_list xs x \<noteq> 0" by (simp add: count_list_0_iff)
    then have "count_list (x # xs) x > 1" by simp
    with True show ?thesis by (meson distinct.simps(2) list.set_intros(1))
  next
    case False
    then have "\<And>k. k \<in> set xs \<Longrightarrow> count_list (x # xs) k = count_list xs k" by auto
    moreover from False have "count_list (x # xs) x = 1" by (simp add: count_list_0_iff)
    ultimately show ?thesis using False Cons by simp
  qed
qed simp

lemma format_duplicates_None: "format_duplicates kind (counter xs) = None \<longleftrightarrow> distinct xs"
proof -
  have "format_duplicates kind (counter xs) = None \<longleftrightarrow> (\<forall>(i, n) \<in> set (counter xs). \<not> n > 1)"
    by (auto simp: format_duplicates_def Let_def filter_empty_conv)
  also have "\<dots> \<longleftrightarrow> (\<forall>k \<in> set xs. \<not> count_list xs k > 1)"
    by (auto simp: counter_mem)
  finally show ?thesis by (simp add: count_list_gt1)
qed

lemma raise_if_duplicates_Inr:
  "raise_if_duplicates ps = Inr () \<longleftrightarrow> (\<forall>p \<in> set ps. p = None)"
  by (induction ps) (auto simp: raise_if_duplicates_def Let_def List.map_filter_simps split: option.splits if_splits)

lemma page_ids_across_ok:
  "page_ids_across seen ps = Inr () \<Longrightarrow>
   (\<forall>p \<in> set ps. \<forall>f. map_of seen (pg_id p) = Some f \<longrightarrow> pg_source_file p = f) \<and>
   (\<forall>p \<in> set ps. \<forall>q \<in> set ps. pg_id p = pg_id q \<longrightarrow> pg_source_file p = pg_source_file q)"
proof (induction ps arbitrary: seen)
  case (Cons p ps)
  show ?case
  proof (cases "map_of seen (pg_id p)")
    case None
    with Cons.prems have
      step: "page_ids_across (dict_set (pg_id p) (pg_source_file p) seen) ps = Inr ()" by simp
    note ih = Cons.IH [OF step]
    from ih None have same: "\<forall>q \<in> set ps. pg_id q = pg_id p \<longrightarrow> pg_source_file q = pg_source_file p"
      by simp
    from ih None have old: "\<forall>q \<in> set ps. \<forall>f. map_of seen (pg_id q) = Some f \<longrightarrow> pg_source_file q = f"
      by (metis fun_upd_other map_of_dict_set option.distinct(1))
    from ih same old None show ?thesis by (metis option.distinct(1) set_ConsD)
  next
    case (Some f)
    with Cons.prems have step: "page_ids_across seen ps = Inr ()" "f = pg_source_file p"
      by (simp_all split: if_splits)
    note ih = Cons.IH [OF step(1)]
    from ih Some step(2) show ?thesis by (metis option.inject set_ConsD)
  qed
qed simp

lemma unique_identities_iff:
  "ensure_unique_identities pages = Inr () \<longleftrightarrow>
     distinct (map pg_id pages) \<and>
     list_all (\<lambda>p. distinct (map blk_id (pg_blocks p))) pages \<and>
     distinct (concat (map (\<lambda>p. map line_id (pg_lines p)) pages))"
proof -
  have "ensure_unique_identities pages = Inr () \<longleftrightarrow>
      format_duplicates PageIds (counter (map pg_id pages)) = None \<and>
      (\<forall>p \<in> set pages. format_duplicates (BlockIdsOn (pg_id p))
          (counter (map blk_id (pg_blocks p))) = None) \<and>
      format_duplicates LineIds (counter (concat (map (\<lambda>p. map line_id (pg_lines p)) pages))) = None"
    unfolding ensure_unique_identities_def raise_if_duplicates_Inr by auto
  then show ?thesis by (simp add: format_duplicates_None list_all_iff)
qed

section \<open>Properties\<close>

text \<open>The identity gate accepts a file exactly when its page ids are pairwise distinct, the
  block ids of every page are, and the line ids of the whole file are.\<close>

theorem ensure_unique_identities_iff:
  "ensure_unique_identities pages = Inr () \<longleftrightarrow>
     distinct (map pg_id pages) \<and>
     list_all (\<lambda>p. distinct (map blk_id (pg_blocks p))) pages \<and>
     distinct (concat (map (\<lambda>p. map line_id (pg_lines p)) pages))"
  by (rule unique_identities_iff)

text \<open>Pages that pass the cross-file gate and share a page id come from the same file.\<close>

theorem page_ids_name_one_file:
  assumes "ensure_unique_page_ids_across_files pages = Inr ()"
    and "p \<in> set pages" "q \<in> set pages" "pg_id p = pg_id q"
  shows "pg_source_file p = pg_source_file q"
proof -
  have "page_ids_across [] pages = Inr ()"
    using assms(1) by (simp add: ensure_unique_page_ids_across_files_def)
  from conjunct2 [OF page_ids_across_ok [OF this]] assms(2-4) show ?thesis by blast
qed

lemma page_ids_name_one_file_witness:
  "let p = \<lparr>pg_id = ''P1'', pg_source_file = ''a.xml'', pg_index = 0, pg_width = 1, pg_height = 1,
            pg_blocks = [], pg_lines = []\<rparr>
   in pg_source_file p = pg_source_file (p\<lparr>pg_index := 1\<rparr>)"
  unfolding Let_def
  by (rule page_ids_name_one_file [of "[\<lparr>pg_id = ''P1'', pg_source_file = ''a.xml'', pg_index = 0,
      pg_width = 1, pg_height = 1, pg_blocks = [], pg_lines = []\<rparr>, \<lparr>pg_id = ''P1'',
      pg_source_file = ''a.xml'', pg_index = 1, pg_width = 1, pg_height = 1, pg_blocks = [],
      pg_lines = []\<rparr>]"])
    (simp_all add: ensure_unique_page_ids_across_files_def)

end
