(* ===== verification/Policies.thy ===== *)
theory Policies
  imports Manifest
begin

text \<open>
  The frozen policies of \<open>core/schemas/policies.py\<close> with their defaults and validators, the
  pairing verdict \<open>PairingPolicy.can_pair\<close>, the retry ramp, and the chunk types the
  planner produces. A validator that raises is a predicate that the accepted values satisfy.
\<close>

section \<open>Chunk planner configuration\<close>

record chunk_planner_config =
  max_input_chars_per_request :: int
  max_lines_per_request :: int
  line_window_size :: int
  line_window_overlap :: int

definition DEFAULT_PLANNER_CONFIG :: chunk_planner_config where
  "DEFAULT_PLANNER_CONFIG =
     \<lparr>max_input_chars_per_request = 12000, max_lines_per_request = 80,
      line_window_size = 12, line_window_overlap = 1\<rparr>"

definition valid_planner_config :: "chunk_planner_config \<Rightarrow> bool" where
  "valid_planner_config c \<longleftrightarrow>
     max_input_chars_per_request c > 0 \<and> max_lines_per_request c > 0 \<and>
     line_window_size c > 0 \<and> line_window_overlap c \<ge> 0 \<and>
     \<not> line_window_overlap c \<ge> line_window_size c"

section \<open>Guard thresholds\<close>

record guard_config =
  min_source_similarity :: rat
  neighbour_margin :: rat
  duplicate_threshold :: rat
  duplicate_source_min_diff :: rat
  absorption_length_ratio :: rat
  absorption_concat_similarity :: rat
  part1_max_word_growth :: int
  part1_last_word_char_growth :: int
  part1_char_growth_ratio :: rat
  part1_char_growth_slack :: int
  part2_collapse_ratio :: rat
  part2_expansion_floor :: int
  part2_expansion_ratio :: rat
  boundary_prefix_len :: int
  boundary_len_ratio_min :: rat
  boundary_len_ratio_max :: rat
  pair_drift_part1_word_growth :: int
  pair_drift_part2_min_words :: int
  pair_drift_part2_collapse_ratio :: rat
  edit_span_max_growth_ratio :: rat
  edit_line_max_changed_chars :: int

definition DEFAULT_GUARD_CONFIG :: guard_config where
  "DEFAULT_GUARD_CONFIG =
     \<lparr>min_source_similarity = 35/100, neighbour_margin = 15/100,
      duplicate_threshold = 85/100, duplicate_source_min_diff = 70/100,
      absorption_length_ratio = 12/10, absorption_concat_similarity = 8/10,
      part1_max_word_growth = 1, part1_last_word_char_growth = 3,
      part1_char_growth_ratio = 14/10, part1_char_growth_slack = 8,
      part2_collapse_ratio = 4/10, part2_expansion_floor = 3, part2_expansion_ratio = 4/10,
      boundary_prefix_len = 2, boundary_len_ratio_min = 5/10, boundary_len_ratio_max = 2,
      pair_drift_part1_word_growth = 2, pair_drift_part2_min_words = 2,
      pair_drift_part2_collapse_ratio = 4/10,
      edit_span_max_growth_ratio = 4, edit_line_max_changed_chars = 200\<rparr>"

definition unit_interval :: "rat \<Rightarrow> bool" where
  "unit_interval x \<longleftrightarrow> 0 \<le> x \<and> x \<le> 1"

definition valid_guard_config :: "guard_config \<Rightarrow> bool" where
  "valid_guard_config g \<longleftrightarrow>
     unit_interval (min_source_similarity g) \<and> unit_interval (neighbour_margin g) \<and>
     unit_interval (duplicate_threshold g) \<and> unit_interval (duplicate_source_min_diff g) \<and>
     0 < absorption_length_ratio g \<and> unit_interval (absorption_concat_similarity g) \<and>
     0 \<le> part1_max_word_growth g \<and> 0 \<le> part1_last_word_char_growth g \<and>
     0 < part1_char_growth_ratio g \<and> 0 \<le> part1_char_growth_slack g \<and>
     unit_interval (part2_collapse_ratio g) \<and> 0 \<le> part2_expansion_floor g \<and>
     0 \<le> part2_expansion_ratio g \<and> 0 \<le> boundary_prefix_len g \<and>
     0 < boundary_len_ratio_min g \<and> 0 < boundary_len_ratio_max g \<and>
     \<not> boundary_len_ratio_min g > boundary_len_ratio_max g \<and>
     0 \<le> pair_drift_part1_word_growth g \<and> 0 \<le> pair_drift_part2_min_words g \<and>
     unit_interval (pair_drift_part2_collapse_ratio g) \<and>
     0 < edit_span_max_growth_ratio g \<and> 0 \<le> edit_line_max_changed_chars g"

definition VISION_MIN_SOURCE_SIMILARITY :: rat where
  "VISION_MIN_SOURCE_SIMILARITY = 15/100"

text \<open>\<open>GuardConfig.vision()\<close> without overrides.\<close>

definition vision_guard_config :: guard_config where
  "vision_guard_config =
     DEFAULT_GUARD_CONFIG\<lparr>min_source_similarity := VISION_MIN_SOURCE_SIMILARITY\<rparr>"

section \<open>Pairing policy\<close>

record pairing_policy =
  max_vertical_gap :: "int option"
  same_block_only :: bool
  geometric_checks :: bool
  max_gap_line_heights :: rat
  max_rise_line_heights :: rat

definition DEFAULT_PAIRING_POLICY :: pairing_policy where
  "DEFAULT_PAIRING_POLICY =
     \<lparr>max_vertical_gap = None, same_block_only = False, geometric_checks = True,
      max_gap_line_heights = 3, max_rise_line_heights = 5/10\<rparr>"

definition pair_explicit :: "line_manifest \<Rightarrow> line_manifest \<Rightarrow> bool" where
  "pair_explicit part1 candidate =
     (let forward_explicit =
            (if hyphen_role part1 = BOTH then hyphen_forward_explicit part1
             else hyphen_source_explicit part1);
          backward_explicit =
            (closes_unit (hyphen_role candidate) \<and> hyphen_source_explicit candidate)
      in forward_explicit \<or> backward_explicit)"

definition degenerate :: "coords \<Rightarrow> bool" where
  "degenerate c \<longleftrightarrow> height c \<le> 0 \<or> width c \<le> 0"

definition can_pair :: "pairing_policy \<Rightarrow> line_manifest \<Rightarrow> line_manifest \<Rightarrow> bool" where
  "can_pair pol part1 candidate =
     (let a = coords_of part1; b = coords_of candidate;
          gap = vpos b - (vpos a + height a)
      in
      if same_block_only pol \<and>
         (page_id part1 \<noteq> page_id candidate \<or> block_id part1 \<noteq> block_id candidate) then False
      else if (case max_vertical_gap pol of
                 None \<Rightarrow> False
               | Some g \<Rightarrow> page_id part1 = page_id candidate \<and> gap > g) then False
      else if \<not> geometric_checks pol then True
      else if page_id part1 \<noteq> page_id candidate then True
      else if pair_explicit part1 candidate then True
      else if degenerate a \<or> degenerate b then True
      else if (hpos a, vpos a, width a, height a) = (hpos b, vpos b, width b, height b) then True
      else
        (let below_ok = of_int gap \<le> max_gap_line_heights pol * of_int (height a);
             rise_ok = of_int gap \<ge> - max_rise_line_heights pol * of_int (height a);
             h_overlap = hpos b < hpos a + width a \<and> hpos a < hpos b + width b
         in
         if block_id part1 = block_id candidate then below_ok \<and> rise_ok
         else if rise_ok then below_ok \<and> h_overlap
         else \<not> h_overlap \<and> vpos b + height b \<le> vpos a))"

section \<open>Loss policy, retry policy\<close>

record loss_policy =
  lp_strict :: bool
  min_alignment_score :: "rat option"

definition DEFAULT_LOSS_POLICY :: loss_policy where
  "DEFAULT_LOSS_POLICY = \<lparr>lp_strict = False, min_alignment_score = None\<rparr>"

record retry_policy =
  max_attempts :: int
  temperatures :: "rat list"
  transient_backoff_base :: rat
  output_backoff_base :: rat
  per_chunk_budget :: int

definition DEFAULT_RETRY_POLICY :: retry_policy where
  "DEFAULT_RETRY_POLICY =
     \<lparr>max_attempts = 3, temperatures = [0, 3/10, 5/10], transient_backoff_base = 2,
      output_backoff_base = 1, per_chunk_budget = 6\<rparr>"

definition deterministic_retry_policy :: retry_policy where
  "deterministic_retry_policy = DEFAULT_RETRY_POLICY\<lparr>temperatures := [0]\<rparr>"

definition valid_retry_policy :: "retry_policy \<Rightarrow> bool" where
  "valid_retry_policy p \<longleftrightarrow>
     1 \<le> max_attempts p \<and> 0 \<le> transient_backoff_base p \<and> 0 \<le> output_backoff_base p \<and>
     1 \<le> per_chunk_budget p \<and> list_all (\<lambda>t. 0 \<le> t \<and> t \<le> 2) (temperatures p)"

definition temperature_for :: "retry_policy \<Rightarrow> int \<Rightarrow> rat" where
  "temperature_for p attempt =
     (if temperatures p = [] then 0
      else temperatures p ! nat (min (max attempt 1 - 1) (int (length (temperatures p)) - 1)))"

lemma temperature_for_range:
  assumes "valid_retry_policy p"
  shows "0 \<le> temperature_for p n \<and> temperature_for p n \<le> 2"
proof (cases "temperatures p = []")
  case False
  let ?i = "nat (min (max n 1 - 1) (int (length (temperatures p)) - 1))"
  from False have "?i < length (temperatures p)" by (cases "temperatures p") auto
  with assms have "0 \<le> temperatures p ! ?i \<and> temperatures p ! ?i \<le> 2"
    by (auto simp: valid_retry_policy_def list_all_length)
  with False show ?thesis by (simp add: temperature_for_def)
qed (simp add: temperature_for_def)

section \<open>Chunks and plans\<close>

record chunk_request =
  chunk_id :: ident
  ch_document_id :: ident
  ch_page_id :: ident
  ch_block_id :: "ident option"
  granularity :: chunk_granularity
  line_ids :: "ident list"
  target_line_ids :: "ident list option"

definition targets :: "chunk_request \<Rightarrow> ident list" where
  "targets c = (case target_line_ids c of None \<Rightarrow> line_ids c | Some ts \<Rightarrow> ts)"

definition valid_chunk :: "chunk_request \<Rightarrow> bool" where
  "valid_chunk c \<longleftrightarrow>
     (case target_line_ids c of None \<Rightarrow> True | Some ts \<Rightarrow> set ts - set (line_ids c) = {})"

record hyphen_split =
  hs_page_id :: ident
  hs_tail_line_id :: ident
  hs_head_line_id :: ident

record refused_edit =
  re_page_id :: ident
  re_line_id :: ident
  re_op :: string
  re_reason :: string

record chunk_plan =
  plan_page_id :: ident
  chunks :: "chunk_request list"
  plan_granularity :: chunk_granularity
  hyphen_splits :: "hyphen_split list"

lemma targets_subset: "valid_chunk c \<Longrightarrow> set (targets c) \<subseteq> set (line_ids c)"
  by (auto simp: valid_chunk_def targets_def split: option.splits)

declare DEFAULT_PLANNER_CONFIG_def [policy_defs] DEFAULT_GUARD_CONFIG_def [policy_defs]
  DEFAULT_PAIRING_POLICY_def [policy_defs] DEFAULT_LOSS_POLICY_def [policy_defs]
  DEFAULT_RETRY_POLICY_def [policy_defs]

lemma default_guard_config_valid: "valid_guard_config DEFAULT_GUARD_CONFIG"
  by (simp add: valid_guard_config_def policy_defs unit_interval_def)

lemma vision_guard_config_valid: "valid_guard_config vision_guard_config"
  by (simp add: valid_guard_config_def policy_defs unit_interval_def vision_guard_config_def
      VISION_MIN_SOURCE_SIMILARITY_def)

end
