(* ===== verification/Pairing.thy ===== *)
theory Pairing
  imports Policies
begin

text \<open>
  \<open>core/pairing.py\<close>: the repertoire of word-break marks, the directed hyphen link read off a
  line's two slots, and the passes that establish links inside a page and across pages.

  The passes of the source mutate the manifests in place. Here a pass takes the lines and
  returns them updated; \<open>link_chain\<close> is the loop over the substantive lines, in which a
  candidate updated by one turn is the line of the next, and \<open>write_back\<close> puts the updated
  lines back where the list of all lines holds them.
\<close>

section \<open>Break marks\<close>

definition HYPHEN_CHARS :: "cp list" where
  "HYPHEN_CHARS = [45, 172, 11799, 173, 8208, 8209]"

definition ends_with_break_mark :: "ptext \<Rightarrow> bool" where
  "ends_with_break_mark t \<longleftrightarrow> ends_in (set HYPHEN_CHARS) (py_rstrip t)"

definition strip_trailing_break_marks :: "ptext \<Rightarrow> ptext" where
  "strip_trailing_break_marks t = rstrip_of (\<lambda>c. c \<in> set HYPHEN_CHARS) t"

text \<open>The loop over the marks: the first one the token ends in, after a letter.\<close>

fun first_break :: "unicode \<Rightarrow> ptext \<Rightarrow> cp list \<Rightarrow> cp option" where
  "first_break u tok [] = None"
| "first_break u tok (ch # chs) =
     (if ends_in {ch} tok \<and> butlast tok \<noteq> [] \<and> uc_isalpha u (last (butlast tok))
      then Some ch else first_break u tok chs)"

definition trailing_hyphen_char :: "unicode \<Rightarrow> ptext \<Rightarrow> cp list \<Rightarrow> cp option" where
  "trailing_hyphen_char u t chs =
     (let tokens = py_split t in
      if tokens = [] then None else first_break u (last tokens) chs)"

definition preserve_break_char :: "unicode \<Rightarrow> ptext \<Rightarrow> ptext \<Rightarrow> ptext" where
  "preserve_break_char u source corrected =
     (case trailing_hyphen_char u source HYPHEN_CHARS of
        None \<Rightarrow> corrected
      | Some src_h \<Rightarrow>
          (let stripped = py_rstrip corrected;
               trailing_ws = drop (length stripped) corrected
           in case List.find (\<lambda>ch. ends_in {ch} stripped) HYPHEN_CHARS of
                None \<Rightarrow> stripped @ trailing_ws
              | Some ch \<Rightarrow>
                  (if ch \<noteq> src_h then butlast stripped @ [src_h] else stripped) @ trailing_ws))"

section \<open>The directed link\<close>

definition pair_ref :: "line_manifest \<Rightarrow> lref option" where
  "pair_ref lm =
     (if \<not> truthy (hyphen_pair_line_id lm) then None
      else Some (LineRef (the (py_or (hyphen_pair_page_id lm) (Some (page_id lm))))
                         (the (hyphen_pair_line_id lm))))"

definition forward_ref :: "line_manifest \<Rightarrow> lref option" where
  "forward_ref lm =
     (if \<not> truthy (hyphen_forward_pair_id lm) then None
      else Some (LineRef (the (py_or (hyphen_forward_pair_page_id lm) (Some (page_id lm))))
                         (the (hyphen_forward_pair_id lm))))"

definition forward_partner_ref :: "line_manifest \<Rightarrow> lref option" where
  "forward_partner_ref lm =
     (case hyphen_role lm of PART1 \<Rightarrow> pair_ref lm | BOTH \<Rightarrow> forward_ref lm | _ \<Rightarrow> None)"

definition forward_break_is_explicit :: "line_manifest \<Rightarrow> bool" where
  "forward_break_is_explicit lm =
     (if hyphen_role lm = BOTH then hyphen_forward_explicit lm else hyphen_source_explicit lm)"

definition backward_partner_ref :: "line_manifest \<Rightarrow> lref option" where
  "backward_partner_ref lm = (if closes_unit (hyphen_role lm) then pair_ref lm else None)"

definition forward_partner_id :: "line_manifest \<Rightarrow> ident option" where
  "forward_partner_id lm = map_option ref_line_id (forward_partner_ref lm)"

definition unpaired_break_refs :: "page_manifest list \<Rightarrow> lref list" where
  "unpaired_break_refs pages =
     (let lines = concat (map pg_lines pages); known = set (map line_ref lines);
          missing = (\<lambda>r. case r of None \<Rightarrow> True | Some x \<Rightarrow> x \<notin> known)
      in map line_ref
           (filter (\<lambda>lm.
              opens_unit (hyphen_role lm) \<and> missing (forward_partner_ref lm) \<or>
              closes_unit (hyphen_role lm) \<and> missing (backward_partner_ref lm)) lines))"

section \<open>Linking\<close>

text \<open>A PART1 candidate is the middle of a chain: its own forward half moves to the forward
  slot before the backward link claims the pair slot.\<close>

definition promote_part1 :: "line_manifest \<Rightarrow> line_manifest \<Rightarrow> line_manifest" where
  "promote_part1 line c =
     (if hyphen_role c = PART1 then
        c\<lparr>hyphen_forward_explicit := hyphen_source_explicit c,
          hyphen_forward_subs_content := hyphen_subs_content c,
          hyphen_subs_content := None,
          hyphen_role := BOTH,
          hyphen_source_explicit :=
            (if hyphen_role line = BOTH then hyphen_forward_explicit line
             else hyphen_source_explicit line)\<rparr>
      else c)"

definition mark_part2 :: "line_manifest \<Rightarrow> line_manifest \<Rightarrow> line_manifest" where
  "mark_part2 line c =
     (if hyphen_role c = NONE then
        c\<lparr>hyphen_role := PART2,
          hyphen_source_explicit :=
            (if hyphen_role line = BOTH then hyphen_forward_explicit line
             else hyphen_source_explicit line)\<rparr>
      else c)"

definition set_links ::
  "line_manifest \<Rightarrow> line_manifest \<Rightarrow> line_manifest \<times> line_manifest" where
  "set_links line c =
     (if hyphen_role line = BOTH then
        (let subs = py_or (hyphen_forward_subs_content line)
                          (py_or (hyphen_subs_content c) None);
             line1 = line\<lparr>hyphen_forward_pair_id := Some (line_id c),
                          hyphen_forward_pair_page_id := Some (page_id c)\<rparr>;
             c1 = c\<lparr>hyphen_pair_line_id := Some (line_id line),
                    hyphen_pair_page_id := Some (page_id line)\<rparr>
         in if truthy subs
            then (line1\<lparr>hyphen_forward_subs_content := subs\<rparr>, c1\<lparr>hyphen_subs_content := subs\<rparr>)
            else (line1, c1))
      else
        (let subs = py_or (hyphen_subs_content line) (hyphen_subs_content c);
             line1 = line\<lparr>hyphen_pair_line_id := Some (line_id c),
                          hyphen_pair_page_id := Some (page_id c)\<rparr>;
             c1 = c\<lparr>hyphen_pair_line_id := Some (line_id line),
                    hyphen_pair_page_id := Some (page_id line)\<rparr>
         in if truthy subs
            then (line1\<lparr>hyphen_subs_content := subs\<rparr>, c1\<lparr>hyphen_subs_content := subs\<rparr>)
            else (line1, c1)))"

text \<open>One turn of the loop.\<close>

definition link_one ::
  "pairing_policy \<Rightarrow> line_manifest \<Rightarrow> line_manifest \<Rightarrow> line_manifest \<times> line_manifest" where
  "link_one pol line c =
     (if \<not> opens_unit (hyphen_role line) then (line, c)
      else if \<not> can_pair pol line c then (line, c)
      else set_links line (mark_part2 line (promote_part1 line c)))"

fun link_chain :: "pairing_policy \<Rightarrow> line_manifest list \<Rightarrow> line_manifest list" where
  "link_chain pol (line # c # rest) =
     (let (line', c') = link_one pol line c in line' # link_chain pol (c' # rest))"
| "link_chain pol ls = ls"

definition is_substantive :: "line_manifest \<Rightarrow> bool" where
  "is_substantive lm \<longleftrightarrow> py_strip (ocr_text lm) \<noteq> []"

fun write_back :: "line_manifest list \<Rightarrow> line_manifest list \<Rightarrow> line_manifest list" where
  "write_back [] new = []"
| "write_back (l # ls) new =
     (if is_substantive l then
        (case new of [] \<Rightarrow> l # write_back ls [] | n # ns \<Rightarrow> n # write_back ls ns)
      else l # write_back ls new)"

definition link_hyphen_pairs ::
  "pairing_policy \<Rightarrow> line_manifest list \<Rightarrow> line_manifest list" where
  "link_hyphen_pairs pol lines =
     write_back lines (link_chain pol (filter is_substantive lines))"

section \<open>Qualifying page ids\<close>

definition rename_line :: "ident \<Rightarrow> ident \<Rightarrow> line_manifest \<Rightarrow> line_manifest" where
  "rename_line old new lm =
     lm\<lparr>page_id := new,
        hyphen_pair_page_id :=
          (if hyphen_pair_page_id lm = Some old then Some new else hyphen_pair_page_id lm),
        hyphen_forward_pair_page_id :=
          (if hyphen_forward_pair_page_id lm = Some old then Some new
           else hyphen_forward_pair_page_id lm)\<rparr>"

definition rename_page :: "ident \<Rightarrow> page_manifest \<Rightarrow> page_manifest" where
  "rename_page new p =
     p\<lparr>pg_id := new,
       pg_blocks := map (\<lambda>b. b\<lparr>blk_page_id := new\<rparr>) (pg_blocks p),
       pg_lines := map (rename_line (pg_id p) new) (pg_lines p)\<rparr>"

definition disambiguate_page_ids ::
  "(ident \<times> page_manifest list) list \<Rightarrow> (ident \<times> page_manifest list) list" where
  "disambiguate_page_ids parsed =
     (let counts = counter (concat (map (\<lambda>(_, ps). map pg_id ps) parsed));
          colliding = map fst (filter (\<lambda>(pid, n). n > 1) counts)
      in map (\<lambda>(src, ps).
           (src, map (\<lambda>p. if pg_id p \<in> set colliding
                          then rename_page (src @ ''::'' @ pg_id p) p else p) ps)) parsed)"

section \<open>Linking across pages\<close>

definition needs_forward_link :: "line_manifest \<Rightarrow> bool" where
  "needs_forward_link lm \<longleftrightarrow>
     hyphen_role lm = PART1 \<and> \<not> truthy (hyphen_pair_line_id lm) \<or>
     hyphen_role lm = BOTH \<and> \<not> truthy (hyphen_forward_pair_id lm)"

text \<open>The last or first substantive line of a page, replaced.\<close>

fun set_first :: "line_manifest \<Rightarrow> line_manifest list \<Rightarrow> line_manifest list" where
  "set_first x [] = []"
| "set_first x (l # ls) = (if is_substantive l then x # ls else l # set_first x ls)"

definition set_last :: "line_manifest \<Rightarrow> line_manifest list \<Rightarrow> line_manifest list" where
  "set_last x ls = rev (set_first x (rev ls))"

definition link_seam ::
  "pairing_policy \<Rightarrow> page_manifest \<Rightarrow> page_manifest \<Rightarrow> page_manifest \<times> page_manifest" where
  "link_seam pol earlier later =
     (let last_line = last (filter is_substantive (pg_lines earlier));
          first_line = hd (filter is_substantive (pg_lines later))
      in if needs_forward_link last_line then
           (case link_hyphen_pairs pol [last_line, first_line] of
              [l, f] \<Rightarrow> (earlier\<lparr>pg_lines := set_last l (pg_lines earlier)\<rparr>,
                         later\<lparr>pg_lines := set_first f (pg_lines later)\<rparr>)
            | _ \<Rightarrow> (earlier, later))
         else (earlier, later))"

text \<open>Pages without text are stepped over: the pending page is the last one that had some.\<close>

fun link_pages :: "pairing_policy \<Rightarrow> page_manifest list \<Rightarrow> page_manifest list" where
  "link_pages pol (p # q # rest) =
     (let (p', q') = link_seam pol p q in p' # link_pages pol (q' # rest))"
| "link_pages pol ps = ps"

definition has_lines :: "page_manifest \<Rightarrow> bool" where
  "has_lines p \<longleftrightarrow> filter is_substantive (pg_lines p) \<noteq> []"

fun write_back_pages :: "page_manifest list \<Rightarrow> page_manifest list \<Rightarrow> page_manifest list" where
  "write_back_pages [] new = []"
| "write_back_pages (p # ps) new =
     (if has_lines p then
        (case new of [] \<Rightarrow> p # write_back_pages ps [] | n # ns \<Rightarrow> n # write_back_pages ps ns)
      else p # write_back_pages ps new)"

definition link_cross_page_hyphens ::
  "pairing_policy \<Rightarrow> page_manifest list \<Rightarrow> page_manifest list" where
  "link_cross_page_hyphens pol pages =
     write_back_pages pages (link_pages pol (filter has_lines pages))"

section \<open>Break marks survive: facts\<close>

lemma hyphen_char_not_space: "c \<in> set HYPHEN_CHARS \<Longrightarrow> \<not> is_space c"
  by (auto simp: HYPHEN_CHARS_def is_space_def)

lemma first_break_Some:
  "first_break u tok chs = Some h \<Longrightarrow> h \<in> set chs \<and> ends_in {h} tok"
  by (induction u tok chs rule: first_break.induct) (auto split: if_splits)

lemma trailing_hyphen_char_Some:
  "trailing_hyphen_char u t chs = Some h \<Longrightarrow> h \<in> set chs"
  by (auto simp: trailing_hyphen_char_def Let_def dest: first_break_Some split: if_splits)

lemma find_mark:
  "List.find (\<lambda>ch. ends_in {ch} s) chs =
     (if s \<noteq> [] \<and> last s \<in> set chs then Some (last s) else None)"
  by (induction chs) (auto simp: ends_in_def)

lemma py_rstrip_split: "corrected = py_rstrip corrected @ drop (length (py_rstrip corrected)) corrected"
  by (metis append_eq_conv_conj py_rstrip_def rstrip_of_decomp)

lemma py_rstrip_tail_space: "c \<in> set (drop (length (py_rstrip s)) s) \<Longrightarrow> is_space c"
  by (metis append_eq_conv_conj py_rstrip_def rstrip_of_decomp)

text \<open>The closed form: the last visible character is replaced where both sides carry a mark.\<close>

lemma preserve_break_char_eq:
  "preserve_break_char u source corrected =
     (case trailing_hyphen_char u source HYPHEN_CHARS of
        None \<Rightarrow> corrected
      | Some h \<Rightarrow>
          (if ends_with_break_mark corrected
           then butlast (py_rstrip corrected) @ [h] @ drop (length (py_rstrip corrected)) corrected
           else corrected))"
proof (cases "trailing_hyphen_char u source HYPHEN_CHARS")
  case None
  then show ?thesis by (simp add: preserve_break_char_def)
next
  case (Some h)
  let ?s = "py_rstrip corrected"
  let ?w = "drop (length ?s) corrected"
  have whole: "?s @ ?w = corrected" by (rule py_rstrip_split [symmetric])
  have mark: "ends_with_break_mark corrected \<longleftrightarrow> ?s \<noteq> [] \<and> last ?s \<in> set HYPHEN_CHARS"
    by (simp add: ends_with_break_mark_def ends_in_def)
  show ?thesis
  proof (cases "?s \<noteq> [] \<and> last ?s \<in> set HYPHEN_CHARS")
    case True
    then have "butlast ?s @ [last ?s] = ?s" by simp
    with Some True mark show ?thesis
      unfolding preserve_break_char_def Let_def find_mark by auto
  next
    case False
    with Some mark whole show ?thesis
      unfolding preserve_break_char_def Let_def find_mark by auto
  qed
qed

lemma py_rstrip_respelled:
  assumes "h \<in> set HYPHEN_CHARS" "\<forall>c \<in> set ws. is_space c"
  shows "py_rstrip (body @ [h] @ ws) = body @ [h]"
proof -
  have "py_rstrip ((body @ [h]) @ ws) = py_rstrip (body @ [h])"
    unfolding py_rstrip_def by (rule rstrip_of_append_all [OF assms(2)])
  also have "\<dots> = body @ [h]"
    unfolding py_rstrip_def using assms(1) by (intro rstrip_of_append_last hyphen_char_not_space)
  finally show ?thesis by simp
qed

lemma respelled_mark:
  assumes "trailing_hyphen_char u source HYPHEN_CHARS = Some h" "ends_with_break_mark corrected"
  shows "py_rstrip (preserve_break_char u source corrected) = butlast (py_rstrip corrected) @ [h]"
    and "ends_with_break_mark (preserve_break_char u source corrected)"
proof -
  have h: "h \<in> set HYPHEN_CHARS" using assms(1) by (rule trailing_hyphen_char_Some)
  show strip: "py_rstrip (preserve_break_char u source corrected)
      = butlast (py_rstrip corrected) @ [h]"
    unfolding preserve_break_char_eq using assms h
    by (simp add: py_rstrip_respelled [OF h, simplified] py_rstrip_tail_space)
  show "ends_with_break_mark (preserve_break_char u source corrected)"
    by (simp add: ends_with_break_mark_def strip ends_in_def h)
qed

lemma preserve_break_char_idem:
  "preserve_break_char u source (preserve_break_char u source corrected)
     = preserve_break_char u source corrected"
proof (cases "trailing_hyphen_char u source HYPHEN_CHARS")
  case None
  then show ?thesis by (simp add: preserve_break_char_eq)
next
  case (Some h)
  show ?thesis
  proof (cases "ends_with_break_mark corrected")
    case False
    with Some show ?thesis by (simp add: preserve_break_char_eq)
  next
    case True
    let ?r = "preserve_break_char u source corrected"
    note m = respelled_mark [OF Some True]
    have "drop (length (py_rstrip ?r)) ?r = drop (length (py_rstrip corrected)) corrected"
    proof -
      have "?r = (butlast (py_rstrip corrected) @ [h]) @ drop (length (py_rstrip corrected)) corrected"
        using Some True by (simp add: preserve_break_char_eq)
      then show ?thesis by (metis m(1) append_eq_conv_conj)
    qed
    then have "preserve_break_char u source ?r
        = butlast (py_rstrip corrected) @ [h] @ drop (length (py_rstrip corrected)) corrected"
      using Some m by (simp add: preserve_break_char_eq [of u source ?r])
    with Some True show ?thesis by (simp add: preserve_break_char_eq [of u source corrected])
  qed
qed

section \<open>What linking leaves alone\<close>

text \<open>A line without its hyphen fields.\<close>

definition strip_links :: "line_manifest \<Rightarrow> line_manifest" where
  "strip_links lm =
     lm\<lparr>hyphen_role := NONE, hyphen_pair_line_id := None, hyphen_pair_page_id := None,
        hyphen_subs_content := None, hyphen_source_explicit := False,
        hyphen_forward_pair_id := None, hyphen_forward_pair_page_id := None,
        hyphen_forward_subs_content := None, hyphen_forward_explicit := False\<rparr>"

lemma strip_links_fields:
  assumes "strip_links a = strip_links b"
  shows "line_id a = line_id b" "page_id a = page_id b" "ocr_text a = ocr_text b"
    "corrected_text a = corrected_text b" "status a = status b" "block_id a = block_id b"
    "line_order_global a = line_order_global b"
  using assms by (cases a; cases b; simp add: strip_links_def)+

lemma link_one_frame [frame_simps]:
  "strip_links (fst (link_one pol l c)) = strip_links l"
  "strip_links (snd (link_one pol l c)) = strip_links c"
  by (simp_all add: link_one_def set_links_def mark_part2_def promote_part1_def strip_links_def
      Let_def)

lemma link_chain_frame: "map strip_links (link_chain pol ls) = map strip_links ls"
proof (induction pol ls rule: link_chain.induct)
  case (1 pol line c rest)
  obtain l' c' where lc: "link_one pol line c = (l', c')" by fastforce
  with link_one_frame [of pol line c] 1 show ?case by simp
qed simp_all

lemma length_link_chain [simp]: "length (link_chain pol ls) = length ls"
  using arg_cong [OF link_chain_frame, of length] by simp

lemma is_substantive_strip: "strip_links a = strip_links b \<Longrightarrow> is_substantive a = is_substantive b"
  by (auto simp: is_substantive_def dest: strip_links_fields)

lemma write_back_frame:
  "map strip_links new = map strip_links (filter is_substantive ls) \<Longrightarrow>
   map strip_links (write_back ls new) = map strip_links ls \<and>
   filter is_substantive (write_back ls new) = new"
proof (induction ls arbitrary: new)
  case (Cons l ls)
  show ?case
  proof (cases "is_substantive l")
    case True
    with Cons.prems obtain n ns where new: "new = n # ns" "strip_links n = strip_links l"
      "map strip_links ns = map strip_links (filter is_substantive ls)"
      by (auto simp: map_eq_Cons_conv)
    from Cons.IH [OF new(3)] new True is_substantive_strip [OF new(2)] show ?thesis by simp
  next
    case False
    with Cons show ?thesis by simp
  qed
qed simp

lemma link_hyphen_pairs_frame:
  "map strip_links (link_hyphen_pairs pol lines) = map strip_links lines"
  unfolding link_hyphen_pairs_def by (intro conjunct1 [OF write_back_frame] link_chain_frame)

lemma link_hyphen_pairs_substantive:
  "filter is_substantive (link_hyphen_pairs pol lines)
     = link_chain pol (filter is_substantive lines)"
  unfolding link_hyphen_pairs_def by (intro conjunct2 [OF write_back_frame] link_chain_frame)

section \<open>Links are symmetric\<close>

definition fresh_links :: "line_manifest \<Rightarrow> bool" where
  "fresh_links lm \<longleftrightarrow> \<not> truthy (hyphen_pair_line_id lm) \<and> \<not> truthy (hyphen_forward_pair_id lm)"

definition named :: "line_manifest \<Rightarrow> bool" where
  "named lm \<longleftrightarrow> line_id lm \<noteq> [] \<and> page_id lm \<noteq> []"

text \<open>Two neighbours that either name each other or have no link between them.\<close>

definition seam_ok :: "line_manifest \<Rightarrow> line_manifest \<Rightarrow> bool" where
  "seam_ok a b \<longleftrightarrow>
     forward_partner_ref a = None \<and> backward_partner_ref b = None \<or>
     forward_partner_ref a = Some (line_ref b) \<and> backward_partner_ref b = Some (line_ref a)"

text \<open>A line whose forward side is still open to a link.\<close>

definition open_forward :: "line_manifest \<Rightarrow> bool" where
  "open_forward lm \<longleftrightarrow> forward_partner_ref lm = None \<and> \<not> truthy (hyphen_forward_pair_id lm)"

lemma fresh_no_refs:
  assumes "fresh_links lm"
  shows "forward_partner_ref lm = None" "backward_partner_ref lm = None" "open_forward lm"
  using assms
  by (auto simp: fresh_links_def forward_partner_ref_def backward_partner_ref_def open_forward_def
      pair_ref_def forward_ref_def split: hyphen_role.splits)

text \<open>The link slots after one turn, field by field.\<close>

lemma set_links_slots:
  "hyphen_role (fst (set_links l c)) = hyphen_role l"
  "hyphen_role (snd (set_links l c)) = hyphen_role c"
  "hyphen_pair_line_id (snd (set_links l c)) = Some (line_id l)"
  "hyphen_pair_page_id (snd (set_links l c)) = Some (page_id l)"
  "hyphen_forward_pair_id (snd (set_links l c)) = hyphen_forward_pair_id c"
  "hyphen_forward_pair_page_id (snd (set_links l c)) = hyphen_forward_pair_page_id c"
  "hyphen_pair_line_id (fst (set_links l c)) =
     (if hyphen_role l = BOTH then hyphen_pair_line_id l else Some (line_id c))"
  "hyphen_pair_page_id (fst (set_links l c)) =
     (if hyphen_role l = BOTH then hyphen_pair_page_id l else Some (page_id c))"
  "hyphen_forward_pair_id (fst (set_links l c)) =
     (if hyphen_role l = BOTH then Some (line_id c) else hyphen_forward_pair_id l)"
  "hyphen_forward_pair_page_id (fst (set_links l c)) =
     (if hyphen_role l = BOTH then Some (page_id c) else hyphen_forward_pair_page_id l)"
  "line_id (fst (set_links l c)) = line_id l" "page_id (fst (set_links l c)) = page_id l"
  "line_id (snd (set_links l c)) = line_id c" "page_id (snd (set_links l c)) = page_id c"
  by (simp_all add: set_links_def Let_def)

lemma mark_promote_slots:
  "hyphen_role (mark_part2 l (promote_part1 l c)) =
     (case hyphen_role c of PART1 \<Rightarrow> BOTH | NONE \<Rightarrow> PART2 | r \<Rightarrow> r)"
  "hyphen_forward_pair_id (mark_part2 l (promote_part1 l c)) = hyphen_forward_pair_id c"
  "line_id (mark_part2 l (promote_part1 l c)) = line_id c"
  "page_id (mark_part2 l (promote_part1 l c)) = page_id c"
  by (simp_all add: mark_part2_def promote_part1_def split: hyphen_role.splits)

lemma pair_ref_Some:
  "\<lbrakk>hyphen_pair_line_id lm = Some i; hyphen_pair_page_id lm = Some p; i \<noteq> []; p \<noteq> []\<rbrakk>
     \<Longrightarrow> pair_ref lm = Some (LineRef p i)"
  by (simp add: pair_ref_def py_or_def)

lemma forward_ref_Some:
  "\<lbrakk>hyphen_forward_pair_id lm = Some i; hyphen_forward_pair_page_id lm = Some p; i \<noteq> []; p \<noteq> []\<rbrakk>
     \<Longrightarrow> forward_ref lm = Some (LineRef p i)"
  by (simp add: forward_ref_def py_or_def)

text \<open>A turn that makes no link, and one that does.\<close>

lemma link_one_cases:
  assumes "link_one pol l c = (l', c')"
  obtains (none) "l' = l" "c' = c"
  | (link) "opens_unit (hyphen_role l)" "can_pair pol l c"
      "l' = fst (set_links l (mark_part2 l (promote_part1 l c)))"
      "c' = snd (set_links l (mark_part2 l (promote_part1 l c)))"
proof (cases "opens_unit (hyphen_role l) \<and> can_pair pol l c")
  case True
  then have "link_one pol l c = set_links l (mark_part2 l (promote_part1 l c))"
    by (simp add: link_one_def)
  with assms True show thesis by (intro link) simp_all
next
  case False
  then have "link_one pol l c = (l, c)" by (auto simp only: link_one_def if_True if_False simp_thms split: if_split)
  with assms show thesis by (intro none) simp_all
qed

lemma link_one_link:
  assumes open_l: "opens_unit (hyphen_role l)" and named: "named l" "named c"
    and l': "l' = fst (set_links l (mark_part2 l (promote_part1 l c)))"
    and c': "c' = snd (set_links l (mark_part2 l (promote_part1 l c)))"
    and fresh: "\<not> truthy (hyphen_forward_pair_id c)"
  shows "forward_partner_ref l' = Some (line_ref c)" "backward_partner_ref c' = Some (line_ref l)"
    "backward_partner_ref l' = backward_partner_ref l" "open_forward c'"
proof -
  have ids: "line_id c \<noteq> []" "page_id c \<noteq> []" "line_id l \<noteq> []" "page_id l \<noteq> []"
    using named by (simp_all add: named_def)
  have role_c: "closes_unit (hyphen_role c')" "hyphen_role c' \<noteq> PART1"
    by (simp_all add: c' set_links_slots mark_promote_slots split: hyphen_role.splits)
  have pair_c: "pair_ref c' = Some (line_ref l)"
    unfolding line_ref_def
    by (rule pair_ref_Some) (simp_all add: c' set_links_slots ids)
  show "backward_partner_ref c' = Some (line_ref l)"
    by (simp add: backward_partner_ref_def role_c pair_c)
  have "forward_ref c' = None"
    using fresh by (simp add: forward_ref_def c' set_links_slots mark_promote_slots)
  with role_c show "open_forward c'"
    using fresh by (simp add: open_forward_def forward_partner_ref_def c' set_links_slots
        mark_promote_slots split: hyphen_role.splits)
  consider "hyphen_role l = PART1" | "hyphen_role l = BOTH"
    using open_l by (auto simp: opens_unit_def)
  then have "forward_partner_ref l' = Some (line_ref c) \<and>
      backward_partner_ref l' = backward_partner_ref l"
  proof cases
    case 1
    have "pair_ref l' = Some (line_ref c)"
      unfolding line_ref_def
      by (rule pair_ref_Some) (simp_all add: l' set_links_slots mark_promote_slots ids 1)
    with 1 show ?thesis
      by (simp add: forward_partner_ref_def backward_partner_ref_def l' set_links_slots)
  next
    case 2
    have "forward_ref l' = Some (line_ref c)"
      unfolding line_ref_def
      by (rule forward_ref_Some) (simp_all add: l' set_links_slots mark_promote_slots ids 2)
    moreover have "pair_ref l' = pair_ref l"
      by (simp add: pair_ref_def l' set_links_slots 2)
    ultimately show ?thesis using 2
      by (simp add: forward_partner_ref_def backward_partner_ref_def l' set_links_slots)
  qed
  then show "forward_partner_ref l' = Some (line_ref c)"
    "backward_partner_ref l' = backward_partner_ref l" by auto
qed

lemma link_one_seam:
  assumes lc: "link_one pol l c = (l', c')"
    and l: "open_forward l" "named l" and c: "fresh_links c" "named c"
  shows "seam_ok l' c'" "backward_partner_ref l' = backward_partner_ref l"
    "line_ref l' = line_ref l" "line_ref c' = line_ref c" "open_forward c'"
proof -
  have frame: "strip_links l' = strip_links l" "strip_links c' = strip_links c"
    using link_one_frame [of pol l c] lc by simp_all
  show ref: "line_ref l' = line_ref l" "line_ref c' = line_ref c"
    using strip_links_fields [OF frame(1)] strip_links_fields [OF frame(2)]
    by (simp_all add: line_ref_def)
  from lc have "seam_ok l' c' \<and> backward_partner_ref l' = backward_partner_ref l \<and> open_forward c'"
  proof (cases rule: link_one_cases)
    case none
    with l c fresh_no_refs [OF c(1)] show ?thesis by (simp add: seam_ok_def open_forward_def)
  next
    case link
    have "\<not> truthy (hyphen_forward_pair_id c)" using c(1) by (simp add: fresh_links_def)
    note linked = link_one_link [OF link(1) l(2) c(2) link(3,4) this]
    from linked ref show ?thesis by (simp add: seam_ok_def)
  qed
  then show "seam_ok l' c'" "backward_partner_ref l' = backward_partner_ref l" "open_forward c'"
    by auto
qed

lemma link_chain_seams:
  assumes "open_forward l" "named l" "\<forall>c \<in> set rest. fresh_links c \<and> named c"
  shows "successively seam_ok (link_chain pol (l # rest)) \<and>
    backward_partner_ref (hd (link_chain pol (l # rest))) = backward_partner_ref l \<and>
    line_ref (hd (link_chain pol (l # rest))) = line_ref l \<and>
    forward_partner_ref (last (link_chain pol (l # rest))) = None"
  using assms
proof (induction rest arbitrary: l)
  case Nil
  then show ?case by (simp add: open_forward_def)
next
  case (Cons c rest)
  obtain l' c' where lc: "link_one pol l c = (l', c')" by fastforce
  from Cons.prems have c: "fresh_links c" "named c" by auto
  note s = link_one_seam [OF lc Cons.prems(1,2) c]
  have "named c'" using s(4) c(2) by (simp add: named_def line_ref_eq_iff)
  with Cons s(5) have ih: "successively seam_ok (link_chain pol (c' # rest))"
    "backward_partner_ref (hd (link_chain pol (c' # rest))) = backward_partner_ref c'"
    "line_ref (hd (link_chain pol (c' # rest))) = line_ref c'"
    "forward_partner_ref (last (link_chain pol (c' # rest))) = None"
    by auto
  obtain x xs where x: "link_chain pol (c' # rest) = x # xs"
    by (metis length_link_chain length_Suc_conv)
  have "seam_ok l' x" using s(1) ih(2,3) x by (simp add: seam_ok_def)
  with ih x s(2,3) lc show ?case by simp
qed

lemma successively_nth: "\<lbrakk>successively P xs; Suc i < length xs\<rbrakk> \<Longrightarrow> P (xs ! i) (xs ! Suc i)"
  by (simp add: successively_conv_nth)

text \<open>A line of the result is a line of the chain or a blank line as it was.\<close>

lemma write_back_set:
  "length new = length (filter is_substantive ls) \<Longrightarrow>
   a \<in> set (write_back ls new) \<Longrightarrow> a \<in> set new \<or> a \<in> set ls \<and> \<not> is_substantive a"
  by (induction ls new rule: write_back.induct) (auto split: if_splits list.splits)

lemma link_hyphen_pairs_blank:
  assumes "a \<in> set (link_hyphen_pairs pol lines)" "\<not> is_substantive a"
  shows "a \<in> set lines"
proof -
  have "a \<notin> set (link_chain pol (filter is_substantive lines))"
    using assms(2) link_hyphen_pairs_substantive [of pol lines] by (metis filter_set_mem)
  then show ?thesis
    using write_back_set [of "link_chain pol (filter is_substantive lines)" lines a] assms(1)
    by (auto simp: link_hyphen_pairs_def)
qed

lemma link_hyphen_pairs_seams:
  assumes "\<forall>lm \<in> set lines. fresh_links lm \<and> named lm"
  shows "successively seam_ok (filter is_substantive (link_hyphen_pairs pol lines))"
    "filter is_substantive (link_hyphen_pairs pol lines) \<noteq> [] \<Longrightarrow>
      backward_partner_ref (hd (filter is_substantive (link_hyphen_pairs pol lines))) = None \<and>
      forward_partner_ref (last (filter is_substantive (link_hyphen_pairs pol lines))) = None"
proof -
  have "successively seam_ok (link_chain pol (filter is_substantive lines)) \<and>
      (filter is_substantive lines \<noteq> [] \<longrightarrow>
        backward_partner_ref (hd (link_chain pol (filter is_substantive lines))) = None \<and>
        forward_partner_ref (last (link_chain pol (filter is_substantive lines))) = None)"
  proof (cases "filter is_substantive lines")
    case Nil
    then show ?thesis by simp
  next
    case (Cons l rest)
    have mem: "l \<in> set lines" "set rest \<subseteq> set lines"
      using Cons by (metis filter_is_subset list.set_intros(1) subsetD,
          metis filter_is_subset set_subset_Cons subset_trans)
    have l: "open_forward l" "named l" "backward_partner_ref l = None"
      using assms mem(1) fresh_no_refs [of l] by auto
    have "\<forall>c \<in> set rest. fresh_links c \<and> named c" using assms mem(2) by blast
    from link_chain_seams [OF l(1,2) this, of pol] l(3) show ?thesis unfolding Cons by simp
  qed
  then show "successively seam_ok (filter is_substantive (link_hyphen_pairs pol lines))"
    "filter is_substantive (link_hyphen_pairs pol lines) \<noteq> [] \<Longrightarrow>
      backward_partner_ref (hd (filter is_substantive (link_hyphen_pairs pol lines))) = None \<and>
      forward_partner_ref (last (filter is_substantive (link_hyphen_pairs pol lines))) = None"
    unfolding link_hyphen_pairs_substantive
    by (blast, metis length_0_conv length_link_chain)
qed

lemma link_hyphen_pairs_answered:
  assumes fresh: "\<forall>lm \<in> set lines. fresh_links lm \<and> named lm"
    and a: "a \<in> set (link_hyphen_pairs pol lines)"
  shows "forward_partner_ref a = Some r \<Longrightarrow> \<exists>b \<in> set (link_hyphen_pairs pol lines).
      line_ref b = r \<and> backward_partner_ref b = Some (line_ref a)"
    and "backward_partner_ref a = Some r \<Longrightarrow> \<exists>b \<in> set (link_hyphen_pairs pol lines).
      line_ref b = r \<and> forward_partner_ref b = Some (line_ref a)"
proof -
  let ?rs = "link_hyphen_pairs pol lines"
  define s where "s = filter is_substantive ?rs"
  note seams = link_hyphen_pairs_seams [OF fresh, of pol, folded s_def]
  have blank: "forward_partner_ref a = None \<and> backward_partner_ref a = None" if "\<not> is_substantive a"
    using link_hyphen_pairs_blank [OF a that] fresh fresh_no_refs by blast
  have idx: "\<exists>i < length s. s ! i = a" if "is_substantive a"
    using a that by (simp add: s_def in_set_conv_nth [symmetric])
  have mem: "s ! i \<in> set ?rs" if "i < length s" for i
    using that nth_mem s_def by force
  show "\<exists>b \<in> set ?rs. line_ref b = r \<and> backward_partner_ref b = Some (line_ref a)"
    if r: "forward_partner_ref a = Some r"
  proof -
    obtain i where i: "i < length s" "s ! i = a" using blank idx r by fastforce
    have "Suc i < length s"
    proof (rule ccontr)
      assume "\<not> Suc i < length s"
      with i have "a = last s" by (metis Suc_lessI diff_Suc_1 last_conv_nth list.size(3) not_less_zero)
      with seams(2) i r show False by force
    qed
    with successively_nth [OF seams(1) this] i r mem show ?thesis
      by (auto simp: seam_ok_def intro!: bexI [of _ "s ! Suc i"])
  qed
  show "\<exists>b \<in> set ?rs. line_ref b = r \<and> forward_partner_ref b = Some (line_ref a)"
    if r: "backward_partner_ref a = Some r"
  proof -
    obtain i where i: "i < length s" "s ! i = a" using blank idx r by fastforce
    have "i \<noteq> 0"
    proof
      assume "i = 0"
      with i have "s \<noteq> []" "a = hd s" by (auto simp: hd_conv_nth)
      with seams(2) r show False by simp
    qed
    then obtain j where j: "i = Suc j" by (cases i) auto
    with successively_nth [OF seams(1), of j] i r mem show ?thesis
      by (auto simp: seam_ok_def intro!: bexI [of _ "s ! j"])
  qed
qed

section \<open>What linking across pages leaves alone\<close>

text \<open>A page whose lines carry no hyphen fields.\<close>

definition strip_page :: "page_manifest \<Rightarrow> page_manifest" where
  "strip_page p = p\<lparr>pg_lines := map strip_links (pg_lines p)\<rparr>"

lemma set_first_frame:
  "\<lbrakk>filter is_substantive ls \<noteq> []; strip_links x = strip_links (hd (filter is_substantive ls))\<rbrakk> \<Longrightarrow>
   map strip_links (set_first x ls) = map strip_links ls"
  by (induction ls) auto

lemma set_last_frame:
  assumes "filter is_substantive ls \<noteq> []" "strip_links x = strip_links (last (filter is_substantive ls))"
  shows "map strip_links (set_last x ls) = map strip_links ls"
proof -
  have "map strip_links (set_first x (rev ls)) = map strip_links (rev ls)"
    using assms by (intro set_first_frame) (simp_all add: rev_filter [symmetric] hd_rev)
  then show ?thesis by (metis rev_map rev_rev_ident set_last_def)
qed

lemma strip_page_pg_lines:
  "map strip_links ls = map strip_links (pg_lines p) \<Longrightarrow> strip_page (p\<lparr>pg_lines := ls\<rparr>) = strip_page p"
  by (simp add: strip_page_def)

lemma link_seam_frame:
  assumes "has_lines p" "has_lines q" "link_seam pol p q = (p', q')"
  shows "strip_page p' = strip_page p" "strip_page q' = strip_page q"
proof -
  let ?l = "last (filter is_substantive (pg_lines p))"
  let ?f = "hd (filter is_substantive (pg_lines q))"
  have "strip_page p' = strip_page p \<and> strip_page q' = strip_page q"
  proof (cases "needs_forward_link ?l")
    case True
    have frame: "map strip_links (link_hyphen_pairs pol [?l, ?f]) = [strip_links ?l, strip_links ?f]"
      by (simp add: link_hyphen_pairs_frame)
    then obtain l f where lf: "link_hyphen_pairs pol [?l, ?f] = [l, f]"
      by (auto simp: map_eq_Cons_conv)
    with frame have "strip_links l = strip_links ?l" "strip_links f = strip_links ?f" by simp_all
    then have "map strip_links (set_last l (pg_lines p)) = map strip_links (pg_lines p)"
      "map strip_links (set_first f (pg_lines q)) = map strip_links (pg_lines q)"
      using assms(1,2) by (simp_all add: has_lines_def set_last_frame set_first_frame)
    moreover have "p' = p\<lparr>pg_lines := set_last l (pg_lines p)\<rparr>"
      "q' = q\<lparr>pg_lines := set_first f (pg_lines q)\<rparr>"
      using assms(3) True lf by (simp_all add: link_seam_def Let_def)
    ultimately show ?thesis by (simp add: strip_page_pg_lines)
  next
    case False
    with assms(3) show ?thesis by (simp add: link_seam_def Let_def)
  qed
  then show "strip_page p' = strip_page p" "strip_page q' = strip_page q" by auto
qed

lemma strip_page_lines: "strip_page p = strip_page q \<Longrightarrow> map strip_links (pg_lines p) = map strip_links (pg_lines q)"
  by (metis page_manifest.select_convs(7) page_manifest.surjective page_manifest.update_convs(7) strip_page_def)

lemma has_lines_strip: "strip_page p = strip_page q \<Longrightarrow> has_lines p = has_lines q"
proof -
  assume "strip_page p = strip_page q"
  then have "map strip_links (pg_lines p) = map strip_links (pg_lines q)" by (rule strip_page_lines)
  then have "list_all2 (\<lambda>a b. strip_links a = strip_links b) (pg_lines p) (pg_lines q)"
    by (simp add: list_all2_conv_all_nth list_eq_iff_nth_eq)
  then have "(\<exists>x \<in> set (pg_lines p). is_substantive x) = (\<exists>x \<in> set (pg_lines q). is_substantive x)"
    by (induction rule: list_all2_induct) (auto dest: is_substantive_strip)
  then show "has_lines p = has_lines q" by (auto simp: has_lines_def filter_empty_conv)
qed

lemma link_pages_frame:
  "\<forall>p \<in> set ps. has_lines p \<Longrightarrow> map strip_page (link_pages pol ps) = map strip_page ps"
proof (induction pol ps rule: link_pages.induct)
  case (1 pol p q rest)
  obtain p' q' where pq: "link_seam pol p q = (p', q')" by fastforce
  from 1(2) have "has_lines p" "has_lines q" by auto
  note f = link_seam_frame [OF this pq]
  have "\<forall>r \<in> set (q' # rest). has_lines r" using 1(2) has_lines_strip [OF f(2)] by auto
  from 1(1) [OF pq [symmetric] refl this] f show ?case by (simp add: pq)
qed simp_all

lemma write_back_pages_frame:
  "map strip_page new = map strip_page (filter has_lines ps) \<Longrightarrow>
   map strip_page (write_back_pages ps new) = map strip_page ps"
  by (induction ps new rule: write_back_pages.induct) (auto split: list.split if_splits)

lemma link_cross_page_frame:
  "map strip_page (link_cross_page_hyphens pol pages) = map strip_page pages"
  unfolding link_cross_page_hyphens_def
  by (intro write_back_pages_frame link_pages_frame) auto

section \<open>Renaming a page\<close>

definition requalify :: "ident \<Rightarrow> ident \<Rightarrow> lref \<Rightarrow> lref" where
  "requalify old new r = (if ref_page_id r = old then LineRef new (ref_line_id r) else r)"

lemma rename_line_refs:
  assumes "page_id lm = old" "old \<noteq> []" "new \<noteq> []"
  shows "pair_ref (rename_line old new lm) = map_option (requalify old new) (pair_ref lm)"
    "forward_ref (rename_line old new lm) = map_option (requalify old new) (forward_ref lm)"
    "line_ref (rename_line old new lm) = requalify old new (line_ref lm)"
  using assms
  by (cases "hyphen_pair_page_id lm"; cases "hyphen_forward_pair_page_id lm";
      simp add: pair_ref_def forward_ref_def py_or_def rename_line_def requalify_def line_ref_def)+

section \<open>Properties\<close>

text \<open>C24: \<open>link_hyphen_pairs\<close> on lines that have an id and carry no link yet, as the parsers call it on the
  lines of a page, leaves symmetric links: the line a word continues onto names this line as the one it
  continues from, and conversely. \<open>link_cross_page_hyphens\<close> calls it again on lines that are linked
  already; there symmetry can be lost (where a linked head opens the later page).\<close>

theorem link_hyphen_pairs_symmetric:
  assumes "\<forall>lm \<in> set lines. fresh_links lm \<and> named lm"
  shows "\<forall>a \<in> set (link_hyphen_pairs pol lines). \<forall>r.
    (forward_partner_ref a = Some r \<longrightarrow>
       (\<exists>b \<in> set (link_hyphen_pairs pol lines). line_ref b = r \<and>
          backward_partner_ref b = Some (line_ref a))) \<and>
    (backward_partner_ref a = Some r \<longrightarrow>
       (\<exists>b \<in> set (link_hyphen_pairs pol lines). line_ref b = r \<and>
          forward_partner_ref b = Some (line_ref a)))"
  using link_hyphen_pairs_answered [OF assms] by blast

lemma link_hyphen_pairs_symmetric_witness:
  "let ls = [(plain_line ''P'' ''a'' 1 (tx ''Ber-''))\<lparr>hyphen_role := PART1\<rparr>,
             plain_line ''P'' ''b'' 2 (tx ''lin'')];
       rs = link_hyphen_pairs DEFAULT_PAIRING_POLICY ls
   in forward_partner_ref (hd rs) = Some (line_ref (last rs)) \<and>
      (\<exists>b \<in> set rs. line_ref b = line_ref (last rs) \<and>
          backward_partner_ref b = Some (line_ref (hd rs)))"
proof -
  define ls where "ls = [(plain_line ''P'' ''a'' 1 (tx ''Ber-''))\<lparr>hyphen_role := PART1\<rparr>,
             plain_line ''P'' ''b'' 2 (tx ''lin'')]"
  have fresh: "\<forall>lm \<in> set ls. fresh_links lm \<and> named lm"
    by (simp add: ls_def plain_line_def fresh_links_def named_def)
  have fwd: "forward_partner_ref (hd (link_hyphen_pairs DEFAULT_PAIRING_POLICY ls))
      = Some (line_ref (last (link_hyphen_pairs DEFAULT_PAIRING_POLICY ls)))"
    and ne: "link_hyphen_pairs DEFAULT_PAIRING_POLICY ls \<noteq> []"
    unfolding ls_def by code_simp+
  from link_hyphen_pairs_symmetric [OF fresh, of DEFAULT_PAIRING_POLICY] fwd ne
  have "\<exists>b \<in> set (link_hyphen_pairs DEFAULT_PAIRING_POLICY ls).
      line_ref b = line_ref (last (link_hyphen_pairs DEFAULT_PAIRING_POLICY ls)) \<and>
      backward_partner_ref b = Some (line_ref (hd (link_hyphen_pairs DEFAULT_PAIRING_POLICY ls)))"
    by (meson hd_in_set)
  with fwd show ?thesis by (simp add: Let_def ls_def)
qed



text \<open>Linking inside a page and across pages changes the hyphen fields of lines and nothing
  else: no line is lost, reordered or rewritten, and no page is.\<close>

theorem linking_frame:
  "map strip_links (link_hyphen_pairs pol lines) = map strip_links lines \<and>
   map strip_page (link_cross_page_hyphens pol pages) = map strip_page pages"
  by (simp add: link_hyphen_pairs_frame link_cross_page_frame)

text \<open>Restoring the break mark is idempotent; where the source breaks a word with a mark
  and the correction ends in one, the result is the correction with its last visible
  character replaced by the source's mark, and otherwise it is the correction.\<close>

theorem preserve_break_char_spec:
  "preserve_break_char u source (preserve_break_char u source corrected)
     = preserve_break_char u source corrected \<and>
   preserve_break_char u source corrected =
     (case trailing_hyphen_char u source HYPHEN_CHARS of
        None \<Rightarrow> corrected
      | Some h \<Rightarrow>
          (if ends_with_break_mark corrected
           then butlast (py_rstrip corrected) @ [h] @ drop (length (py_rstrip corrected)) corrected
           else corrected))"
  by (rule conjI [OF preserve_break_char_idem preserve_break_char_eq])

text \<open>Renaming a page whose id collides requalifies the line's own reference and both of
  its link pointers in the same way, so a link inside the page still names its partner.\<close>

theorem rename_line_keeps_links:
  assumes "page_id lm = old" "old \<noteq> []" "new \<noteq> []"
  shows "pair_ref (rename_line old new lm) = map_option (requalify old new) (pair_ref lm) \<and>
    forward_ref (rename_line old new lm) = map_option (requalify old new) (forward_ref lm) \<and>
    line_ref (rename_line old new lm) = requalify old new (line_ref lm)"
  using rename_line_refs [OF assms] by simp

lemma rename_line_keeps_links_witness:
  "let lm = (plain_line ''P'' ''a'' 1 (tx ''Ber-''))\<lparr>hyphen_role := PART1,
             hyphen_pair_line_id := Some ''b'', hyphen_pair_page_id := Some ''P''\<rparr>
   in pair_ref (rename_line ''P'' ''f::P'' lm) = map_option (requalify ''P'' ''f::P'') (pair_ref lm)"
  unfolding Let_def by (rule conjunct1 [OF rename_line_keeps_links]) (simp_all add: plain_line_def)

end
