(* ===== verification/Union_Find.thy ===== *)
theory Union_Find
  imports Prelude
begin

text \<open>
  The union-find that two components carry as local closures: \<open>derive_hyphen_groups\<close> of
  \<open>core/units.py\<close> and \<open>_try_block\<close> of \<open>core/planner.py\<close>. The parent pointers are a
  dictionary, \<open>find\<close> halves the paths it walks, and the two \<open>union\<close>s differ in which root
  survives. The contract both clients rely on is the locale \<open>union_find\<close>; it is interpreted
  on either operation.

  The \<open>while\<close> loop of \<open>find\<close> runs on fuel, the number of keys: a chain of parents in an
  acyclic dictionary is shorter than that (\<open>find_root_spec\<close>), so the fuel never ends first.
\<close>

section \<open>The operations\<close>

text \<open>A missing key is a \<open>KeyError\<close> in the source; the invariant excludes it.\<close>

fun find_root :: "nat \<Rightarrow> ('a, 'a) dict \<Rightarrow> 'a \<Rightarrow> 'a \<times> ('a, 'a) dict" where
  "find_root 0 p x = (x, p)"
| "find_root (Suc n) p x =
     (case map_of p x of
        None \<Rightarrow> (x, p)
      | Some y \<Rightarrow>
          if y = x then (x, p)
          else (case map_of p y of
                  None \<Rightarrow> (y, p)
                | Some z \<Rightarrow> find_root n (dict_set x z p) z))"

definition uf_find :: "('a, 'a) dict \<Rightarrow> 'a \<Rightarrow> 'a \<times> ('a, 'a) dict" where
  "uf_find p x = find_root (length p) p x"

text \<open>\<open>parent[find(a)] = find(b)\<close>: Python evaluates the right-hand side first.\<close>

definition units_union :: "'a \<Rightarrow> 'a \<Rightarrow> ('a, 'a) dict \<Rightarrow> ('a, 'a) dict" where
  "units_union a b p =
     (let (rb, p1) = uf_find p b; (ra, p2) = uf_find p1 a in dict_set ra rb p2)"

definition planner_union :: "'a \<Rightarrow> 'a \<Rightarrow> ('a, 'a) dict \<Rightarrow> ('a, 'a) dict" where
  "planner_union a b p =
     (let (ra, p1) = uf_find p a; (rb, p2) = uf_find p1 b
      in if ra \<noteq> rb then dict_set rb ra p2 else p2)"

definition uf_singletons :: "'a list \<Rightarrow> ('a, 'a) dict" where
  "uf_singletons xs = map (\<lambda>x. (x, x)) xs"

section \<open>The interface\<close>

locale union_find =
  fixes find :: "'u \<Rightarrow> 'a \<Rightarrow> 'a \<times> 'u"
    and union :: "'a \<Rightarrow> 'a \<Rightarrow> 'u \<Rightarrow> 'u"
    and invar :: "'u \<Rightarrow> bool"
    and carrier :: "'u \<Rightarrow> 'a set"
  assumes find_invar: "\<lbrakk>invar u; x \<in> carrier u\<rbrakk> \<Longrightarrow>
      invar (snd (find u x)) \<and> carrier (snd (find u x)) = carrier u"
    and find_stable: "\<lbrakk>invar u; x \<in> carrier u; y \<in> carrier u\<rbrakk> \<Longrightarrow>
      fst (find (snd (find u x)) y) = fst (find u y)"
    and union_invar: "\<lbrakk>invar u; a \<in> carrier u; b \<in> carrier u\<rbrakk> \<Longrightarrow>
      invar (union a b u) \<and> carrier (union a b u) = carrier u"
    and union_same: "\<lbrakk>invar u; a \<in> carrier u; b \<in> carrier u; x \<in> carrier u; y \<in> carrier u\<rbrakk> \<Longrightarrow>
      fst (find (union a b u) x) = fst (find (union a b u) y) \<longleftrightarrow>
        fst (find u x) = fst (find u y) \<or>
        fst (find u x) = fst (find u a) \<and> fst (find u y) = fst (find u b) \<or>
        fst (find u x) = fst (find u b) \<and> fst (find u y) = fst (find u a)"
begin

definition rep :: "'u \<Rightarrow> 'a \<Rightarrow> 'a" where
  "rep u x = fst (find u x)"

definition unions :: "('a \<times> 'a) list \<Rightarrow> 'u \<Rightarrow> 'u" where
  "unions es u = foldl (\<lambda>u (a, b). union a b u) u es"

definition collect :: "'a list \<Rightarrow> 'u \<Rightarrow> 'u \<times> ('a, 'a list) dict" where
  "collect xs u =
     foldl (\<lambda>(u, d) x. let (r, u') = find u x in (u', dict_append r x d)) (u, []) xs"

lemma unions_snoc: "unions (es @ [(a, b)]) u = union a b (unions es u)"
  by (simp add: unions_def)

lemma unions_invar:
  "\<lbrakk>invar u; set es \<subseteq> carrier u \<times> carrier u\<rbrakk> \<Longrightarrow>
   invar (unions es u) \<and> carrier (unions es u) = carrier u"
proof (induction es rule: rev_induct)
  case Nil
  then show ?case by (simp add: unions_def)
next
  case (snoc e es)
  obtain a b where e: "e = (a, b)" by fastforce
  with snoc have "invar (unions es u)" "carrier (unions es u) = carrier u"
    "a \<in> carrier u" "b \<in> carrier u" by auto
  with union_invar [of "unions es u" a b] e show ?case by (simp add: unions_snoc)
qed

lemma rep_unions_connected:
  assumes "invar u" "set es \<subseteq> carrier u \<times> carrier u"
    and single: "\<forall>x \<in> carrier u. \<forall>y \<in> carrier u. rep u x = rep u y \<longleftrightarrow> x = y"
    and "x \<in> carrier u" "y \<in> carrier u"
  shows "rep (unions es u) x = rep (unions es u) y \<longleftrightarrow> (x, y) \<in> (set es \<union> (set es)\<inverse>)\<^sup>*"
  using assms(2,4,5)
proof (induction es arbitrary: x y rule: rev_induct)
  case Nil
  then show ?case using single by (simp add: unions_def)
next
  case (snoc e es)
  obtain a b where e: "e = (a, b)" by fastforce
  let ?u = "unions es u" and ?R = "set es \<union> (set es)\<inverse>"
  from snoc.prems e have sub: "set es \<subseteq> carrier u \<times> carrier u" and ab: "a \<in> carrier u" "b \<in> carrier u"
    by auto
  from unions_invar [OF assms(1) sub] have inv: "invar ?u" "carrier ?u = carrier u" by auto
  have sym: "sym (?R\<^sup>*)" by (intro sym_rtrancl symI) auto
  have "?R \<union> {(a, b), (b, a)} = set (es @ [e]) \<union> (set (es @ [e]))\<inverse>" using e by auto
  moreover have "(x, y) \<in> (?R \<union> {(a, b), (b, a)})\<^sup>* \<longleftrightarrow>
      (x, y) \<in> ?R\<^sup>* \<or> (x, a) \<in> ?R\<^sup>* \<and> (y, b) \<in> ?R\<^sup>* \<or> (x, b) \<in> ?R\<^sup>* \<and> (y, a) \<in> ?R\<^sup>*"
    (is "?L = ?M")
  proof -
    have "?R \<union> {(a, b), (b, a)} = insert (a, b) (insert (b, a) ?R)" by auto
    then have "?L \<longleftrightarrow> (x, y) \<in> (insert (a, b) (insert (b, a) ?R))\<^sup>*" by simp
    also have "\<dots> \<longleftrightarrow> ?M"
      unfolding rtrancl_insert
      using sym by (auto simp: rtrancl_insert dest: symD intro: rtrancl_trans)
    finally show ?thesis .
  qed
  moreover have "rep (unions (es @ [e]) u) x = rep (unions (es @ [e]) u) y \<longleftrightarrow>
      rep ?u x = rep ?u y \<or> rep ?u x = rep ?u a \<and> rep ?u y = rep ?u b \<or>
      rep ?u x = rep ?u b \<and> rep ?u y = rep ?u a"
    using union_same [OF inv(1), of a b x y] inv(2) ab snoc.prems e
    by (simp add: unions_snoc rep_def)
  ultimately show ?case
    using snoc.IH [OF sub] ab snoc.prems by simp
qed

lemma collect_snoc:
  "collect (xs @ [x]) u =
     (let (u1, d) = collect xs u; (r, u2) = find u1 x in (u2, dict_append r x d))"
  by (simp add: collect_def split: prod.splits)

text \<open>Every key of the collected dictionary holds the elements it represents, in order.\<close>

lemma collect_spec:
  assumes "invar u" "set xs \<subseteq> carrier u" "collect xs u = (u', d)"
  shows "invar u' \<and> carrier u' = carrier u \<and> (\<forall>x \<in> carrier u. rep u' x = rep u x) \<and>
    distinct (map fst d) \<and>
    (\<forall>r. map_of d r = (let ms = filter (\<lambda>x. rep u x = r) xs in if ms = [] then None else Some ms))"
  using assms(2,3)
proof (induction xs arbitrary: u' d rule: rev_induct)
  case Nil
  with assms(1) show ?case by (auto simp: collect_def)
next
  case (snoc x xs)
  obtain u1 d1 where c: "collect xs u = (u1, d1)" by fastforce
  obtain r u2 where f: "find u1 x = (r, u2)" by fastforce
  from snoc.prems c f have new: "u' = u2" "d = dict_append r x d1" by (auto simp: collect_snoc)
  from snoc.prems have x: "x \<in> carrier u" "set xs \<subseteq> carrier u" by auto
  note ih = snoc.IH [OF x(2) c]
  have r: "r = rep u x" using ih x f by (metis fst_conv rep_def)
  from ih x find_invar [of u1 x] find_stable [of u1 x] f
  have 1: "invar u2" "carrier u2 = carrier u" "\<forall>y \<in> carrier u. rep u2 y = rep u y"
    by (auto simp: rep_def)
  have 2: "map_of d k = (if k = r then Some (filter (\<lambda>y. rep u y = r) xs @ [x]) else map_of d1 k)" for k
  proof -
    have "map_of d1 r = (let ms = filter (\<lambda>y. rep u y = r) xs in if ms = [] then None else Some ms)"
      using ih by blast
    then show ?thesis
      by (auto simp: new dict_append_def Let_def map_add_def split: option.splits if_splits)
  qed
  have "r \<notin> fst ` set d1" if "map_of d1 r = None"
    using that by (simp add: map_of_eq_None_iff)
  with ih have 3: "distinct (map fst d)"
    by (auto simp: new dict_append_def split: option.splits)
  from 1 2 3 ih r new show ?case by (auto simp: Let_def)
qed

end

section \<open>The parent forest\<close>

definition uf_arcs :: "('a, 'a) dict \<Rightarrow> ('a \<times> 'a) set" where
  "uf_arcs p = {(x, y). map_of p x = Some y \<and> x \<noteq> y}"

definition uf_carrier :: "('a, 'a) dict \<Rightarrow> 'a set" where
  "uf_carrier p = fst ` set p"

definition uf_invar :: "('a, 'a) dict \<Rightarrow> bool" where
  "uf_invar p \<longleftrightarrow>
     (\<forall>x y. map_of p x = Some y \<longrightarrow> y \<in> uf_carrier p) \<and> acyclic (uf_arcs p)"

definition root_at :: "('a, 'a) dict \<Rightarrow> 'a \<Rightarrow> 'a \<Rightarrow> bool" where
  "root_at p x r \<longleftrightarrow> (x, r) \<in> (uf_arcs p)\<^sup>* \<and> map_of p r = Some r"

definition above :: "('a, 'a) dict \<Rightarrow> 'a \<Rightarrow> 'a set" where
  "above p x = {y. (x, y) \<in> (uf_arcs p)\<^sup>+}"

lemma in_carrier: "x \<in> uf_carrier p \<longleftrightarrow> (\<exists>y. map_of p x = Some y)"
  by (metis map_of_eq_None_iff not_None_eq uf_carrier_def)

lemma carrier_dict_set [simp]:
  "x \<in> uf_carrier p \<Longrightarrow> uf_carrier (dict_set x z p) = uf_carrier p"
  by (auto simp: uf_carrier_def)

lemma length_dict_set: "x \<in> uf_carrier p \<Longrightarrow> length (dict_set x z p) = length p"
  using keys_dict_set [of x z p] by (metis length_map uf_carrier_def)

lemma arcs_subset: "uf_invar p \<Longrightarrow> uf_arcs p \<subseteq> uf_carrier p \<times> uf_carrier p"
  by (auto simp: uf_invar_def uf_arcs_def in_carrier)

lemma above_subset: "uf_invar p \<Longrightarrow> above p x \<subseteq> uf_carrier p - {x}"
proof
  fix y assume inv: "uf_invar p" and "y \<in> above p x"
  then have y: "(x, y) \<in> (uf_arcs p)\<^sup>+" by (simp add: above_def)
  then have "y \<in> uf_carrier p" by (rule tranclE) (use arcs_subset [OF inv] in auto)
  moreover have "y \<noteq> x" using y inv by (auto simp: uf_invar_def acyclic_def)
  ultimately show "y \<in> uf_carrier p - {x}" by simp
qed

lemma finite_carrier [simp]: "finite (uf_carrier p)"
  by (simp add: uf_carrier_def)

lemma finite_above: "uf_invar p \<Longrightarrow> finite (above p x)"
  using above_subset finite_subset by fastforce

lemma above_less:
  assumes "uf_invar p" "(x, z) \<in> (uf_arcs p)\<^sup>+"
  shows "card (above p z) < card (above p x)"
proof (rule psubset_card_mono)
  show "above p z \<subset> above p x"
    using assms above_subset [OF assms(1), of z] by (auto simp: above_def)
qed (rule finite_above [OF assms(1)])

lemma card_above_less_length:
  assumes "uf_invar p" "x \<in> uf_carrier p" shows "card (above p x) < length p"
proof -
  have "card (above p x) \<le> card (uf_carrier p - {x})"
    using above_subset [OF assms(1)] by (intro card_mono) auto
  also have "\<dots> < card (uf_carrier p)" using assms(2) by (intro psubset_card_mono) auto
  also have "\<dots> \<le> length p" by (metis uf_carrier_def card_length length_map set_map)
  finally show ?thesis .
qed

lemma root_exists:
  assumes "uf_invar p" "x \<in> uf_carrier p" shows "\<exists>r. root_at p x r"
  using assms(2)
proof (induction "card (above p x)" arbitrary: x rule: less_induct)
  case less
  then obtain y where y: "map_of p x = Some y" by (auto simp: in_carrier)
  show ?case
  proof (cases "y = x")
    case True
    with y show ?thesis by (auto simp: root_at_def)
  next
    case False
    with y have arc: "(x, y) \<in> uf_arcs p" by (simp add: uf_arcs_def)
    then have "y \<in> uf_carrier p" using arcs_subset [OF assms(1)] by auto
    then obtain r where "root_at p y r"
      using less.hyps [of y] above_less [OF assms(1)] arc by blast
    with arc have "root_at p x r"
      by (auto simp: root_at_def intro: converse_rtrancl_into_rtrancl)
    then show ?thesis by blast
  qed
qed

lemma root_no_arc: "map_of p r = Some r \<Longrightarrow> (r, y) \<in> (uf_arcs p)\<^sup>* \<Longrightarrow> y = r"
  by (erule converse_rtranclE) (auto simp: uf_arcs_def)

lemma root_unique:
  assumes "root_at p x r" "root_at p x s" shows "r = s"
proof -
  have "(x, r) \<in> (uf_arcs p)\<^sup>*" using assms(1) by (simp add: root_at_def)
  then show ?thesis using assms
  proof (induction rule: converse_rtrancl_induct)
    case base
    then show ?case by (auto simp: root_at_def dest: root_no_arc)
  next
    case (step x y)
    have "root_at p y s"
    proof -
      have "x \<noteq> s" using step.hyps(1) step.prems(2) by (auto simp: uf_arcs_def root_at_def)
      then obtain y' where "(x, y') \<in> uf_arcs p" "(y', s) \<in> (uf_arcs p)\<^sup>*"
        using step.prems(2) by (auto simp: root_at_def elim: converse_rtranclE)
      with step show ?thesis by (auto simp: uf_arcs_def root_at_def)
    qed
    moreover have "root_at p y r" using step by (simp add: root_at_def)
    ultimately show ?case using step.IH by simp
  qed
qed

text \<open>Two forests on the same keys agree on the roots when one's roots are roots of the other.\<close>

lemma roots_agree:
  assumes "uf_invar p'" "v \<in> uf_carrier p'" "\<And>s. root_at p' v s \<Longrightarrow> root_at p v s"
  shows "root_at p' v s \<longleftrightarrow> root_at p v s"
  using assms root_exists root_unique by metis

section \<open>Path halving\<close>

lemma halving:
  assumes inv: "uf_invar p" and y: "map_of p x = Some y" "x \<noteq> y" and z: "map_of p y = Some z"
  shows "uf_invar (dict_set x z p)" "uf_carrier (dict_set x z p) = uf_carrier p"
    "uf_arcs (dict_set x z p) \<subseteq> (uf_arcs p)\<^sup>+"
    "v \<in> uf_carrier p \<Longrightarrow> root_at (dict_set x z p) v s \<longleftrightarrow> root_at p v s"
proof -
  have x: "x \<in> uf_carrier p" using y by (simp add: in_carrier)
  then show carrier: "uf_carrier (dict_set x z p) = uf_carrier p" by simp
  have xy: "(x, y) \<in> uf_arcs p" using y by (simp add: uf_arcs_def)
  have xz: "(x, z) \<in> (uf_arcs p)\<^sup>+"
  proof (cases "z = y")
    case False
    with z have "(y, z) \<in> uf_arcs p" by (simp add: uf_arcs_def)
    with xy show ?thesis by (meson r_into_trancl' trancl_into_trancl)
  qed (use xy in auto)
  then show sub: "uf_arcs (dict_set x z p) \<subseteq> (uf_arcs p)\<^sup>+"
    by (auto simp: uf_arcs_def split: if_splits)
  have ac: "acyclic (uf_arcs p)" using inv by (simp add: uf_invar_def)
  then have zx: "z \<noteq> x" using xz by (auto simp: acyclic_def)
  have "acyclic ((uf_arcs p)\<^sup>+)" using ac by (simp add: acyclic_def)
  then have "acyclic (uf_arcs (dict_set x z p))" using sub by (rule acyclic_subset)
  moreover have "z \<in> uf_carrier p" using inv z by (auto simp: uf_invar_def)
  ultimately show inv': "uf_invar (dict_set x z p)"
    using inv carrier by (auto simp: uf_invar_def)
  have "root_at p w t" if "root_at (dict_set x z p) w t" for w t
  proof -
    from that have w: "(w, t) \<in> (uf_arcs (dict_set x z p))\<^sup>*"
      "map_of (dict_set x z p) t = Some t" by (auto simp: root_at_def)
    have "(uf_arcs (dict_set x z p))\<^sup>* \<subseteq> (uf_arcs p)\<^sup>*"
      using sub by (metis rtrancl_mono trancl_rtrancl_absorb rtrancl_trancl_absorb)
    with w zx show ?thesis by (auto simp: root_at_def split: if_splits)
  qed
  then show "v \<in> uf_carrier p \<Longrightarrow> root_at (dict_set x z p) v s \<longleftrightarrow> root_at p v s"
    using roots_agree [OF inv', of v p s] carrier by blast
qed

text \<open>Enough fuel reaches the root, and only paths change.\<close>

lemma find_root_spec:
  assumes "uf_invar p" "x \<in> uf_carrier p" "card (above p x) < n" "find_root n p x = (r, p')"
  shows "root_at p x r \<and> uf_invar p' \<and> uf_carrier p' = uf_carrier p \<and>
    (\<forall>v \<in> uf_carrier p. \<forall>s. root_at p' v s \<longleftrightarrow> root_at p v s)"
  using assms
proof (induction n arbitrary: p x)
  case (Suc n)
  obtain y where y: "map_of p x = Some y" using Suc.prems(2) by (auto simp: in_carrier)
  show ?case
  proof (cases "y = x")
    case True
    with Suc.prems y show ?thesis by (auto simp: root_at_def)
  next
    case False
    then have arc: "(x, y) \<in> uf_arcs p" using y by (simp add: uf_arcs_def)
    then have "y \<in> uf_carrier p" using arcs_subset [OF Suc.prems(1)] by auto
    then obtain z where z: "map_of p y = Some z" by (auto simp: in_carrier)
    note h = halving [OF Suc.prems(1) y False [symmetric] z]
    have zc: "z \<in> uf_carrier (dict_set x z p)" "z \<in> uf_carrier p"
      using z Suc.prems(1) h(2) by (auto simp: uf_invar_def)
    have xz: "(x, z) \<in> (uf_arcs p)\<^sup>+"
      using arc z by (cases "y = z") (auto simp: uf_arcs_def intro: trancl_into_trancl r_into_trancl)
    have "(uf_arcs (dict_set x z p))\<^sup>+ \<subseteq> (uf_arcs p)\<^sup>+"
      using trancl_mono [OF _ h(3)] by (auto simp: trancl_id [OF trans_trancl])
    then have "above (dict_set x z p) z \<subseteq> above p z" by (auto simp: above_def)
    then have "card (above (dict_set x z p) z) \<le> card (above p z)"
      by (intro card_mono finite_above Suc.prems(1))
    also have "\<dots> < card (above p x)" by (rule above_less [OF Suc.prems(1) xz])
    finally have fuel: "card (above (dict_set x z p) z) < n" using Suc.prems(3) by simp
    have "find_root n (dict_set x z p) z = (r, p')" using Suc.prems(4) y z False by simp
    from Suc.IH [OF h(1) zc(1) fuel this] h(2,4) zc(2)
    have "root_at p z r" "uf_invar p'" "uf_carrier p' = uf_carrier p"
      "\<forall>v \<in> uf_carrier p. \<forall>s. root_at p' v s \<longleftrightarrow> root_at p v s" by auto
    with xz show ?thesis by (auto simp: root_at_def dest: trancl_into_rtrancl)
  qed
qed simp

lemma uf_find_spec:
  assumes "uf_invar p" "x \<in> uf_carrier p"
  shows "root_at p x (fst (uf_find p x))" "uf_invar (snd (uf_find p x))"
    "uf_carrier (snd (uf_find p x)) = uf_carrier p"
    "v \<in> uf_carrier p \<Longrightarrow> root_at (snd (uf_find p x)) v s \<longleftrightarrow> root_at p v s"
  using find_root_spec [OF assms card_above_less_length [OF assms], of "fst (uf_find p x)"
      "snd (uf_find p x)"]
  by (auto simp: uf_find_def)

lemma uf_find_eq:
  assumes "uf_invar p" "x \<in> uf_carrier p"
  shows "fst (uf_find p x) = r \<longleftrightarrow> root_at p x r"
  using uf_find_spec(1) [OF assms] root_unique by metis

section \<open>Linking two roots\<close>

lemma link_roots:
  assumes inv: "uf_invar p" and r: "map_of p r = Some r" and s: "map_of p s = Some s"
  shows "uf_invar (dict_set r s p)" "uf_carrier (dict_set r s p) = uf_carrier p"
    "v \<in> uf_carrier p \<Longrightarrow>
      root_at (dict_set r s p) v t \<longleftrightarrow> (if root_at p v r then t = s else root_at p v t)"
proof -
  have rc: "r \<in> uf_carrier p" "s \<in> uf_carrier p" using r s by (auto simp: in_carrier)
  then show carrier: "uf_carrier (dict_set r s p) = uf_carrier p" by simp
  have arcs: "uf_arcs (dict_set r s p) = (if r = s then uf_arcs p else insert (r, s) (uf_arcs p))"
    using r by (auto simp: uf_arcs_def split: if_splits)
  have "(s, r) \<notin> (uf_arcs p)\<^sup>*" if "r \<noteq> s" using root_no_arc [OF s] that by blast
  then have "acyclic (uf_arcs (dict_set r s p))"
    using inv by (simp add: arcs uf_invar_def)
  with inv carrier rc show inv': "uf_invar (dict_set r s p)" by (auto simp: uf_invar_def)
  have mono: "(uf_arcs p)\<^sup>* \<subseteq> (uf_arcs (dict_set r s p))\<^sup>*"
    by (rule rtrancl_mono) (auto simp: arcs)
  have s': "map_of (dict_set r s p) s = Some s" using s by auto
  show "root_at (dict_set r s p) v t \<longleftrightarrow> (if root_at p v r then t = s else root_at p v t)"
    if v: "v \<in> uf_carrier p"
  proof (cases "root_at p v r")
    case True
    then have "(v, r) \<in> (uf_arcs (dict_set r s p))\<^sup>*" using mono by (auto simp: root_at_def)
    moreover have "(r, s) \<in> (uf_arcs (dict_set r s p))\<^sup>*" by (auto simp: arcs)
    ultimately have "root_at (dict_set r s p) v s" using s' by (auto simp: root_at_def)
    with True show ?thesis using root_unique by metis
  next
    case False
    have "root_at (dict_set r s p) v w" if "root_at p v w" for w
      using that False mono by (auto simp: root_at_def)
    then have "root_at p v t \<longleftrightarrow> root_at (dict_set r s p) v t"
      using roots_agree [OF inv v] by blast
    with False show ?thesis by simp
  qed
qed

text \<open>What either union does: the elements of one root move to the other.\<close>

lemma linked_law:
  assumes p: "uf_invar p" and q: "uf_invar q" "uf_carrier q = uf_carrier p"
    and same: "\<forall>v \<in> uf_carrier p. \<forall>s. root_at q v s \<longleftrightarrow> root_at p v s"
    and ab: "a \<in> uf_carrier p" "b \<in> uf_carrier p"
    and r: "r = fst (uf_find p a)" and s: "s = fst (uf_find p b)"
  shows "uf_invar (dict_set r s q)" "uf_carrier (dict_set r s q) = uf_carrier p"
    "x \<in> uf_carrier p \<Longrightarrow>
      fst (uf_find (dict_set r s q) x) = (if fst (uf_find p x) = r then s else fst (uf_find p x))"
proof -
  have "root_at q a r" "root_at q b s"
    using uf_find_spec(1) [OF p] ab same r s by auto
  then have roots: "map_of q r = Some r" "map_of q s = Some s" by (auto simp: root_at_def)
  note l = link_roots [OF q(1) roots]
  show 1: "uf_invar (dict_set r s q)" by (rule l(1))
  show 2: "uf_carrier (dict_set r s q) = uf_carrier p" using l(2) q(2) by simp
  show "fst (uf_find (dict_set r s q) x) = (if fst (uf_find p x) = r then s else fst (uf_find p x))"
    if x: "x \<in> uf_carrier p"
  proof -
    have "root_at p x (fst (uf_find p x))" by (rule uf_find_spec(1) [OF p x])
    moreover from this have "root_at p x r \<longleftrightarrow> fst (uf_find p x) = r" using root_unique by metis
    ultimately have
      "root_at (dict_set r s q) x (if fst (uf_find p x) = r then s else fst (uf_find p x))"
      using l(3) [of x] x q(2) same by auto
    then show ?thesis using uf_find_eq [OF 1] 2 x by blast
  qed
qed

lemma two_finds:
  assumes p: "uf_invar p" "a \<in> uf_carrier p" "b \<in> uf_carrier p"
    and 1: "uf_find p a = (ra, p1)" and 2: "uf_find p1 b = (rb, p2)"
  shows "ra = fst (uf_find p a)" "rb = fst (uf_find p b)" "uf_invar p2"
    "uf_carrier p2 = uf_carrier p" "\<forall>v \<in> uf_carrier p. \<forall>s. root_at p2 v s \<longleftrightarrow> root_at p v s"
proof -
  note f = uf_find_spec [OF p(1,2), unfolded 1 fst_conv snd_conv]
  have b: "b \<in> uf_carrier p1" using f(3) p(3) by simp
  note g = uf_find_spec [OF f(2) b, unfolded 2 fst_conv snd_conv]
  show "ra = fst (uf_find p a)" using 1 by simp
  show "uf_invar p2" "uf_carrier p2 = uf_carrier p" using f g by auto
  show all: "\<forall>v \<in> uf_carrier p. \<forall>s. root_at p2 v s \<longleftrightarrow> root_at p v s" using f g by auto
  have "root_at p b rb" using g(1) f(4) p(3) by auto
  then show "rb = fst (uf_find p b)" using uf_find_eq [OF p(1,3), of rb] by simp
qed

lemma units_union_spec:
  assumes "uf_invar p" "a \<in> uf_carrier p" "b \<in> uf_carrier p"
  shows "uf_invar (units_union a b p)" "uf_carrier (units_union a b p) = uf_carrier p"
    "x \<in> uf_carrier p \<Longrightarrow> fst (uf_find (units_union a b p) x) =
      (if fst (uf_find p x) = fst (uf_find p a) then fst (uf_find p b) else fst (uf_find p x))"
proof -
  obtain rb p1 where 1: "uf_find p b = (rb, p1)" by fastforce
  obtain ra p2 where 2: "uf_find p1 a = (ra, p2)" by fastforce
  note f = two_finds [OF assms(1,3,2) 1 2]
  have u: "units_union a b p = dict_set ra rb p2" by (simp add: units_union_def 1 2)
  note l = linked_law [OF assms(1) f(3,4,5) assms(2,3) f(2,1)]
  show "uf_invar (units_union a b p)" "uf_carrier (units_union a b p) = uf_carrier p"
    using l(1,2) by (simp_all add: u)
  show "x \<in> uf_carrier p \<Longrightarrow> fst (uf_find (units_union a b p) x) =
      (if fst (uf_find p x) = fst (uf_find p a) then fst (uf_find p b) else fst (uf_find p x))"
    using l(3) f(1,2) by (simp add: u)
qed

lemma planner_union_spec:
  assumes "uf_invar p" "a \<in> uf_carrier p" "b \<in> uf_carrier p"
  shows "uf_invar (planner_union a b p)" "uf_carrier (planner_union a b p) = uf_carrier p"
    "x \<in> uf_carrier p \<Longrightarrow> fst (uf_find (planner_union a b p) x) =
      (if fst (uf_find p x) = fst (uf_find p b) then fst (uf_find p a) else fst (uf_find p x))"
proof -
  obtain ra p1 where 1: "uf_find p a = (ra, p1)" by fastforce
  obtain rb p2 where 2: "uf_find p1 b = (rb, p2)" by fastforce
  note f = two_finds [OF assms 1 2]
  have u: "planner_union a b p = (if ra \<noteq> rb then dict_set rb ra p2 else p2)"
    by (simp add: planner_union_def 1 2)
  note l = linked_law [OF assms(1) f(3,4,5) assms(3,2) f(2,1)]
  show "uf_invar (planner_union a b p)" "uf_carrier (planner_union a b p) = uf_carrier p"
    using l(1,2) f(3,4) by (simp_all add: u)
  have stay: "fst (uf_find p2 x) = fst (uf_find p x)" if "x \<in> uf_carrier p"
    using uf_find_eq [OF f(3)] uf_find_spec(1) [OF assms(1) that] f(4,5) that by auto
  show "x \<in> uf_carrier p \<Longrightarrow> fst (uf_find (planner_union a b p) x) =
      (if fst (uf_find p x) = fst (uf_find p b) then fst (uf_find p a) else fst (uf_find p x))"
    using l(3) f(1,2) stay by (auto simp: u)
qed

lemma uf_find_kept:
  assumes "uf_invar p" "x \<in> uf_carrier p" "y \<in> uf_carrier p"
  shows "fst (uf_find (snd (uf_find p x)) y) = fst (uf_find p y)"
  using uf_find_spec(2-4) [OF assms(1,2)] uf_find_spec(1) [OF assms(1,3)] uf_find_eq assms(3)
  by metis

interpretation units_uf: union_find uf_find units_union uf_invar uf_carrier
proof unfold_locales
  fix p :: "('a, 'a) dict" and a b x y
  assume inv: "uf_invar p" and ab: "a \<in> uf_carrier p" "b \<in> uf_carrier p"
    and xy: "x \<in> uf_carrier p" "y \<in> uf_carrier p"
  show "fst (uf_find (units_union a b p) x) = fst (uf_find (units_union a b p) y) \<longleftrightarrow>
      fst (uf_find p x) = fst (uf_find p y) \<or>
      fst (uf_find p x) = fst (uf_find p a) \<and> fst (uf_find p y) = fst (uf_find p b) \<or>
      fst (uf_find p x) = fst (uf_find p b) \<and> fst (uf_find p y) = fst (uf_find p a)"
    using units_union_spec(3) [OF inv ab] xy by auto
qed (simp_all add: uf_find_spec uf_find_kept units_union_spec)

interpretation planner_uf: union_find uf_find planner_union uf_invar uf_carrier
proof unfold_locales
  fix p :: "('a, 'a) dict" and a b x y
  assume inv: "uf_invar p" and ab: "a \<in> uf_carrier p" "b \<in> uf_carrier p"
    and xy: "x \<in> uf_carrier p" "y \<in> uf_carrier p"
  show "fst (uf_find (planner_union a b p) x) = fst (uf_find (planner_union a b p) y) \<longleftrightarrow>
      fst (uf_find p x) = fst (uf_find p y) \<or>
      fst (uf_find p x) = fst (uf_find p a) \<and> fst (uf_find p y) = fst (uf_find p b) \<or>
      fst (uf_find p x) = fst (uf_find p b) \<and> fst (uf_find p y) = fst (uf_find p a)"
    using planner_union_spec(3) [OF inv ab] xy by auto
qed (simp_all add: uf_find_spec uf_find_kept planner_union_spec)

lemma map_of_singletons: "map_of (uf_singletons xs) x = (if x \<in> set xs then Some x else None)"
  by (induction xs) (auto simp: uf_singletons_def)

lemma singletons_invar: "uf_invar (uf_singletons xs)" "uf_carrier (uf_singletons xs) = set xs"
proof -
  have "uf_arcs (uf_singletons xs) = {}"
    by (auto simp: uf_arcs_def map_of_singletons split: if_splits)
  then show "uf_invar (uf_singletons xs)"
    by (auto simp: uf_invar_def in_carrier map_of_singletons acyclic_def split: if_splits)
  show "uf_carrier (uf_singletons xs) = set xs"
    by (auto simp: uf_carrier_def uf_singletons_def image_image)
qed

lemma singletons_find: "x \<in> set xs \<Longrightarrow> fst (uf_find (uf_singletons xs) x) = x"
  using uf_find_eq [OF singletons_invar(1), of x xs x]
  by (simp add: singletons_invar(2) root_at_def map_of_singletons)

end
