(* ===== verification/Units.thy ===== *)
theory Units
  imports Pairing Union_Find
begin

text \<open>
  \<open>core/units.py\<close>: the hyphen units, the sets of lines one broken word holds together.
  \<open>derive_hyphen_groups\<close> reads both link slots of every line, merges the linked lines in a
  union-find and returns the components of two lines or more in reading order;
  \<open>units_containing\<close> closes a set of seed lines under them, and \<open>split_forward_link\<close> is
  the one operation that severs a link.

  The facts: the groups are exactly the connected components of the link relation, they are
  disjoint and in reading order, \<open>hg_complete\<close> says that no link leaves the group's lines,
  and a split leaves every other link as it was.
\<close>

section \<open>Groups\<close>

record hyphen_group =
  hg_members :: "lref list"
  hg_spans_pages :: bool
  hg_explicit :: bool
  hg_complete :: bool

definition member_ids_on_page :: "hyphen_group \<Rightarrow> ident \<Rightarrow> ident list" where
  "member_ids_on_page g p = map ref_line_id (filter (\<lambda>m. ref_page_id m = p) (hg_members g))"

definition links_explicit :: "line_manifest \<Rightarrow> bool" where
  "links_explicit lm =
     (if truthy (hyphen_pair_line_id lm) \<and> \<not> hyphen_source_explicit lm then False
      else if truthy (hyphen_forward_pair_id lm) \<and> \<not> hyphen_forward_explicit lm then False
      else True)"

text \<open>One pointer of one line: merged when it resolves, remembered when it does not.\<close>

fun link_partner ::
  "lref \<Rightarrow> lref option \<Rightarrow> (lref, lref) dict \<times> lref list \<Rightarrow> (lref, lref) dict \<times> lref list" where
  "link_partner r None st = st"
| "link_partner r (Some q) (parent, unresolved) =
     (if q \<in> fst ` set parent then (units_union r q parent, unresolved)
      else (parent, unresolved @ [r]))"

definition walk_links :: "(lref, line_manifest) dict \<Rightarrow> (lref, lref) dict \<times> lref list" where
  "walk_links by_ref =
     foldl (\<lambda>st (r, lm). link_partner r (forward_ref lm) (link_partner r (pair_ref lm) st))
       (uf_singletons (map fst by_ref), []) by_ref"

definition collect_components ::
  "lref list \<Rightarrow> (lref, lref) dict \<Rightarrow> (lref, lref) dict \<times> (lref, lref list) dict" where
  "collect_components refs parent =
     foldl (\<lambda>(p, d) x. let (r, p') = uf_find p x in (p', dict_append r x d)) (parent, []) refs"

definition order_of :: "(lref, line_manifest) dict \<Rightarrow> lref \<Rightarrow> int" where
  "order_of by_ref r = (case map_of by_ref r of None \<Rightarrow> 0 | Some lm \<Rightarrow> line_order_global lm)"

definition make_group ::
  "(lref, line_manifest) dict \<Rightarrow> lref list \<Rightarrow> lref list \<Rightarrow> hyphen_group" where
  "make_group by_ref unresolved ms =
     (let ordered = sort_key (order_of by_ref) ms in
      \<lparr>hg_members = ordered,
       hg_spans_pages = length (remdups (map ref_page_id ordered)) > 1,
       hg_explicit = list_all (\<lambda>r. case map_of by_ref r of None \<Rightarrow> True
                                     | Some lm \<Rightarrow> links_explicit lm) ordered,
       hg_complete = \<not> list_ex (\<lambda>r. r \<in> set unresolved) ordered\<rparr>)"

definition derive_hyphen_groups :: "line_manifest list \<Rightarrow> hyphen_group list" where
  "derive_hyphen_groups lines =
     (let by_ref = dict_of line_ref lines;
          (parent, unresolved) = walk_links by_ref;
          (parent', components) = collect_components (map fst by_ref) parent;
          groups = map (make_group by_ref unresolved)
                     (filter (\<lambda>ms. \<not> length ms < 2) (map snd components))
      in sort_key (\<lambda>g. order_of by_ref (hd (hg_members g))) groups)"

definition hyphen_group_by_line :: "hyphen_group list \<Rightarrow> (lref, hyphen_group) dict" where
  "hyphen_group_by_line groups =
     foldl (\<lambda>idx g. foldl (\<lambda>idx m. dict_set m g idx) idx (hg_members g)) [] groups"

text \<open>The pool's lines after the seeds, \<open>by_ref.setdefault\<close>.\<close>

definition set_default :: "'k \<Rightarrow> 'v \<Rightarrow> ('k, 'v) dict \<Rightarrow> ('k, 'v) dict" where
  "set_default k v d = (if map_of d k = None then d @ [(k, v)] else d)"

definition units_containing ::
  "line_manifest list \<Rightarrow> line_manifest list \<Rightarrow> line_manifest list" where
  "units_containing seeds pool =
     (let seed_refs = map line_ref seeds;
          index = hyphen_group_by_line (derive_hyphen_groups pool);
          wanted = seed_refs @
            concat (map (\<lambda>r. case map_of index r of None \<Rightarrow> [] | Some g \<Rightarrow> hg_members g) seed_refs);
          by_ref = foldl (\<lambda>d lm. set_default (line_ref lm) lm d) (dict_of line_ref seeds) pool
      in map snd (filter (\<lambda>(r, lm). r \<in> set wanted) by_ref))"

section \<open>Severing a link\<close>

definition split_tail :: "line_manifest \<Rightarrow> line_manifest" where
  "split_tail tail =
     (if hyphen_role tail = BOTH then
        tail\<lparr>hyphen_role := PART2, hyphen_forward_pair_id := None,
             hyphen_forward_pair_page_id := None, hyphen_forward_subs_content := None\<rparr>
      else
        tail\<lparr>hyphen_role := NONE, hyphen_pair_line_id := None,
             hyphen_pair_page_id := None, hyphen_subs_content := None\<rparr>)"

definition split_head :: "line_manifest \<Rightarrow> line_manifest" where
  "split_head head =
     (if hyphen_role head = BOTH then
        head\<lparr>hyphen_role := PART1, hyphen_pair_line_id := hyphen_forward_pair_id head,
             hyphen_pair_page_id := hyphen_forward_pair_page_id head,
             hyphen_subs_content := hyphen_forward_subs_content head,
             hyphen_source_explicit := hyphen_forward_explicit head,
             hyphen_forward_pair_id := None, hyphen_forward_pair_page_id := None,
             hyphen_forward_subs_content := None\<rparr>
      else
        head\<lparr>hyphen_role := NONE, hyphen_pair_line_id := None,
             hyphen_pair_page_id := None, hyphen_subs_content := None\<rparr>)"

definition split_forward_link ::
  "line_manifest \<Rightarrow> line_manifest \<Rightarrow> exn + (line_manifest \<times> line_manifest \<times> hyphen_split)" where
  "split_forward_link tail head =
     (if forward_partner_id tail \<noteq> Some (line_id head)
      then Inl (Exn C_RuntimeError ''split_forward_link: no such link'')
      else Inr (split_tail tail, split_head head,
                \<lparr>hs_page_id = page_id tail, hs_tail_line_id = line_id tail,
                 hs_head_line_id = line_id head\<rparr>))"

section \<open>The link relation\<close>

definition partners :: "line_manifest \<Rightarrow> lref list" where
  "partners lm = List.map_filter id [pair_ref lm, forward_ref lm]"

definition link_edges :: "(lref, line_manifest) dict \<Rightarrow> (lref \<times> lref) list" where
  "link_edges by_ref =
     concat (map (\<lambda>(r, lm). map (Pair r) (filter (\<lambda>q. q \<in> fst ` set by_ref) (partners lm))) by_ref)"

definition unit_links :: "line_manifest list \<Rightarrow> (lref \<times> lref) set" where
  "unit_links lines =
     {(line_ref a, q) | a q. a \<in> set lines \<and> q \<in> set (partners a) \<and> q \<in> line_ref ` set lines}"

text \<open>Two lines one broken word, or a chain of them, holds together.\<close>

definition same_unit :: "line_manifest list \<Rightarrow> lref \<Rightarrow> lref \<Rightarrow> bool" where
  "same_unit lines x y \<longleftrightarrow> (x, y) \<in> (unit_links lines \<union> (unit_links lines)\<inverse>)\<^sup>*"

lemma in_partners: "q \<in> set (partners lm) \<longleftrightarrow> pair_ref lm = Some q \<or> forward_ref lm = Some q"
  by (auto simp: partners_def List.map_filter_simps split: option.splits)

lemma link_partner_eq:
  assumes "uf_carrier p = K" "r \<in> K" "uf_invar p"
  shows "link_partner r po (p, un) =
    (units_uf.unions (case po of None \<Rightarrow> [] | Some q \<Rightarrow> if q \<in> K then [(r, q)] else []) p,
     un @ (case po of None \<Rightarrow> [] | Some q \<Rightarrow> if q \<in> K then [] else [r]))"
  using assms by (cases po) (auto simp: units_uf.unions_def uf_carrier_def)

lemma unions_append: "units_uf.unions (es @ fs) p = units_uf.unions fs (units_uf.unions es p)"
  by (simp add: units_uf.unions_def)

lemma walk_links_eq:
  "walk_links d =
     (units_uf.unions (link_edges d) (uf_singletons (map fst d)),
      concat (map (\<lambda>(r, lm). map (\<lambda>_. r) (filter (\<lambda>q. q \<notin> fst ` set d) (partners lm))) d))"
proof -
  let ?K = "fst ` set d"
  let ?start = "uf_singletons (map fst d)"
  let ?edges = "\<lambda>e. concat (map (\<lambda>(r, lm). map (Pair r) (filter (\<lambda>q. q \<in> ?K) (partners lm))) e)"
  let ?un = "\<lambda>e. concat (map (\<lambda>(r, lm). map (\<lambda>_. r) (filter (\<lambda>q. q \<notin> ?K) (partners lm))) e)"
  have "foldl (\<lambda>st (r, lm). link_partner r (forward_ref lm) (link_partner r (pair_ref lm) st))
          (?start, []) e = (units_uf.unions (?edges e) ?start, ?un e)"
    if "set e \<subseteq> set d" for e
    using that
  proof (induction e rule: rev_induct)
    case Nil
    then show ?case by (simp add: units_uf.unions_def)
  next
    case (snoc rl e)
    obtain r lm where rl: "rl = (r, lm)" by fastforce
    let ?p = "units_uf.unions (?edges e) ?start"
    have r: "r \<in> ?K" using snoc.prems rl by force
    have "set (?edges e) \<subseteq> uf_carrier ?start \<times> uf_carrier ?start"
      using snoc.prems by (force simp: singletons_invar)
    from units_uf.unions_invar [OF singletons_invar(1) this]
    have p: "uf_invar ?p" "uf_carrier ?p = ?K" by (auto simp: singletons_invar)
    define e1 where "e1 = (case pair_ref lm of None \<Rightarrow> [] | Some q \<Rightarrow> if q \<in> ?K then [(r, q)] else [])"
    define e2 where "e2 = (case forward_ref lm of None \<Rightarrow> [] | Some q \<Rightarrow> if q \<in> ?K then [(r, q)] else [])"
    have "set e1 \<subseteq> uf_carrier ?p \<times> uf_carrier ?p"
      using r p by (auto simp: e1_def split: option.splits)
    then have p1: "uf_invar (units_uf.unions e1 ?p)" "uf_carrier (units_uf.unions e1 ?p) = ?K"
      using units_uf.unions_invar [OF p(1)] p(2) by auto
    have e12: "map (Pair r) (filter (\<lambda>q. q \<in> ?K) (partners lm)) = e1 @ e2"
      by (auto simp: partners_def List.map_filter_simps e1_def e2_def split: option.splits)
    have un: "map (\<lambda>_. r) (filter (\<lambda>q. q \<notin> ?K) (partners lm)) =
        (case pair_ref lm of None \<Rightarrow> [] | Some q \<Rightarrow> if q \<in> ?K then [] else [r]) @
        (case forward_ref lm of None \<Rightarrow> [] | Some q \<Rightarrow> if q \<in> ?K then [] else [r])"
      by (auto simp: partners_def List.map_filter_simps split: option.splits)
    have "?edges (e @ [rl]) = ?edges e @ e1 @ e2" using e12 rl by simp
    moreover have "?un (e @ [rl]) = ?un e @
        (case pair_ref lm of None \<Rightarrow> [] | Some q \<Rightarrow> if q \<in> ?K then [] else [r]) @
        (case forward_ref lm of None \<Rightarrow> [] | Some q \<Rightarrow> if q \<in> ?K then [] else [r])"
      using un rl by simp
    moreover have ih: "foldl (\<lambda>st (r, lm). link_partner r (forward_ref lm)
          (link_partner r (pair_ref lm) st)) (?start, []) e = (?p, ?un e)"
      using snoc by simp
    ultimately show ?case
      using link_partner_eq [OF p(2) r p(1), of "pair_ref lm" "?un e"]
        link_partner_eq [OF p1(2) r p1(1), of "forward_ref lm"]
      by (simp add: rl unions_append e1_def [symmetric] e2_def [symmetric])
  qed
  from this [of d] show ?thesis by (simp add: walk_links_def link_edges_def)
qed

section \<open>Groups are the connected components\<close>

text \<open>The raw components, before sorting.\<close>

definition raw_components :: "(lref, line_manifest) dict \<Rightarrow> lref list list" where
  "raw_components d =
     map snd (snd (collect_components (map fst d) (fst (walk_links d))))"

lemma collect_components_eq: "collect_components xs p = units_uf.collect xs p"
  by (simp add: collect_components_def units_uf.collect_def)

lemma link_edges_carrier: "set (link_edges d) \<subseteq> fst ` set d \<times> fst ` set d"
  by (force simp: link_edges_def)

lemma walk_links_invar:
  "uf_invar (fst (walk_links d))" "uf_carrier (fst (walk_links d)) = fst ` set d"
  using units_uf.unions_invar [OF singletons_invar(1), of "link_edges d" "map fst d"]
    link_edges_carrier [of d]
  by (auto simp: walk_links_eq singletons_invar)

lemma walk_links_same:
  assumes "x \<in> fst ` set d" "y \<in> fst ` set d"
  shows "fst (uf_find (fst (walk_links d)) x) = fst (uf_find (fst (walk_links d)) y) \<longleftrightarrow>
    (x, y) \<in> (set (link_edges d) \<union> (set (link_edges d))\<inverse>)\<^sup>*"
  using units_uf.rep_unions_connected [OF singletons_invar(1), of "link_edges d" "map fst d" x y]
    link_edges_carrier [of d] assms
  by (simp add: walk_links_eq singletons_invar units_uf.rep_def singletons_find)

lemma raw_components_spec:
  assumes "distinct (map fst d)"
  shows "ms \<in> set (raw_components d) \<longleftrightarrow>
      (\<exists>x \<in> fst ` set d. ms = filter (\<lambda>y. (x, y) \<in> (set (link_edges d) \<union> (set (link_edges d))\<inverse>)\<^sup>*)
                                 (map fst d))"
    and "distinct (concat (raw_components d))"
proof -
  let ?p = "fst (walk_links d)"
  let ?rep = "\<lambda>x. fst (uf_find ?p x)"
  obtain p' c where c: "collect_components (map fst d) ?p = (p', c)" by fastforce
  note spec = units_uf.collect_spec [OF walk_links_invar(1) [of d], of "map fst d",
      folded collect_components_eq, OF _ c, unfolded units_uf.rep_def]
  have dc: "distinct (map fst c)" and
    lookup: "\<And>r. map_of c r = (let ms = filter (\<lambda>x. ?rep x = r) (map fst d) in
                if ms = [] then None else Some ms)"
    using spec by (auto simp: walk_links_invar(2))
  have mem: "(r, ms) \<in> set c \<longleftrightarrow> ms \<noteq> [] \<and> ms = filter (\<lambda>x. ?rep x = r) (map fst d)" for r ms
  proof -
    have "(r, ms) \<in> set c \<longleftrightarrow> map_of c r = Some ms" using dc by simp
    then show ?thesis unfolding lookup Let_def by (cases "filter (\<lambda>x. ?rep x = r) (map fst d) = []") auto
  qed
  have same: "filter (\<lambda>y. ?rep y = ?rep x) (map fst d) =
      filter (\<lambda>y. (x, y) \<in> (set (link_edges d) \<union> (set (link_edges d))\<inverse>)\<^sup>*) (map fst d)"
    if "x \<in> fst ` set d" for x
  proof (rule filter_cong [OF refl])
    fix y assume "y \<in> set (map fst d)"
    then have "y \<in> fst ` set d" by simp
    from walk_links_same [OF that this] show "?rep y = ?rep x \<longleftrightarrow>
        (x, y) \<in> (set (link_edges d) \<union> (set (link_edges d))\<inverse>)\<^sup>*" by metis
  qed
  show "ms \<in> set (raw_components d) \<longleftrightarrow>
      (\<exists>x \<in> fst ` set d. ms = filter (\<lambda>y. (x, y) \<in> (set (link_edges d) \<union> (set (link_edges d))\<inverse>)\<^sup>*)
                                 (map fst d))" (is "?L \<longleftrightarrow> ?R")
  proof
    assume ?L
    then obtain r where r: "(r, ms) \<in> set c" by (auto simp: raw_components_def c)
    then have ms: "ms = filter (\<lambda>x. ?rep x = r) (map fst d)" and "ms \<noteq> []" using mem by auto
    then obtain x where x: "x \<in> set ms" by (metis list.set_sel(1))
    with ms have "x \<in> fst ` set d" "?rep x = r" by auto
    with ms same show ?R by blast
  next
    assume ?R
    then obtain x where x: "x \<in> fst ` set d" "ms = filter (\<lambda>y. ?rep y = ?rep x) (map fst d)"
      using same by auto
    then have "x \<in> set ms" by auto
    then have "ms \<noteq> []" by auto
    with x have "(?rep x, ms) \<in> set c" unfolding mem by simp
    then show ?L by (force simp: raw_components_def c)
  qed
  have "distinct (map snd c)"
  proof (rule distinct_map [THEN iffD2], intro conjI inj_onI)
    fix a b assume ab: "a \<in> set c" "b \<in> set c" "snd a = snd b"
    obtain r ms s where a: "a = (r, ms)" and b: "b = (s, ms)" using ab(3) by (metis prod.collapse)
    with ab mem have "ms \<noteq> []" "ms = filter (\<lambda>x. ?rep x = r) (map fst d)"
      "ms = filter (\<lambda>x. ?rep x = s) (map fst d)" by auto
    then obtain x where "x \<in> set ms" by (meson list.set_sel(1))
    then have "x \<in> set (filter (\<lambda>x. ?rep x = r) (map fst d))"
      "x \<in> set (filter (\<lambda>x. ?rep x = s) (map fst d))"
      using \<open>ms = filter (\<lambda>x. ?rep x = r) (map fst d)\<close> \<open>ms = filter (\<lambda>x. ?rep x = s) (map fst d)\<close>
      by metis+
    then have "r = s" by auto
    with a b show "a = b" by simp
  qed (use dc in \<open>simp add: distinct_map\<close>)
  moreover have "set ms \<inter> set ns = {}" if "ms \<in> set (map snd c)" "ns \<in> set (map snd c)" "ms \<noteq> ns" for ms ns
  proof -
    from that obtain r s where "(r, ms) \<in> set c" "(s, ns) \<in> set c" by auto
    then have "ms = filter (\<lambda>x. ?rep x = r) (map fst d)" "ns = filter (\<lambda>x. ?rep x = s) (map fst d)"
      using mem by auto
    with that(3) show ?thesis by auto
  qed
  moreover have "distinct ms" if "ms \<in> set (map snd c)" for ms
    using that mem assms by auto
  ultimately show "distinct (concat (raw_components d))"
    unfolding raw_components_def c snd_conv by (intro distinct_concat) blast+
qed

text \<open>With distinct identities the dictionary is the list of lines.\<close>

lemma link_edges_lines:
  assumes "distinct (map line_ref lines)"
  shows "set (link_edges (dict_of line_ref lines)) = unit_links lines"
  by (auto simp: link_edges_def unit_links_def dict_of_distinct [OF assms] image_image)

lemma derive_hyphen_groups_eq:
  "derive_hyphen_groups lines =
     (let d = dict_of line_ref lines in
      sort_key (\<lambda>g. order_of d (hd (hg_members g)))
        (map (make_group d (snd (walk_links d)))
          (filter (\<lambda>ms. \<not> length ms < 2) (raw_components d))))"
  by (simp add: derive_hyphen_groups_def Let_def raw_components_def split_beta)

lemma groups_members:
  "g \<in> set (derive_hyphen_groups lines) \<longleftrightarrow>
    (\<exists>ms \<in> set (raw_components (dict_of line_ref lines)).
       \<not> length ms < 2 \<and>
       g = make_group (dict_of line_ref lines) (snd (walk_links (dict_of line_ref lines))) ms)"
  by (auto simp: derive_hyphen_groups_eq Let_def)

lemma set_group_members [simp]: "set (hg_members (make_group d un ms)) = set ms"
  by (simp add: make_group_def Let_def)

lemma length_group_members [simp]: "length (hg_members (make_group d un ms)) = length ms"
  by (simp add: make_group_def Let_def)

lemma distinct_group_members [simp]:
  "distinct (hg_members (make_group d un ms)) = distinct ms"
  by (simp add: make_group_def Let_def)

lemma fst_dict_of_refs [simp]:
  "distinct (map line_ref lines) \<Longrightarrow> map fst (dict_of line_ref lines) = map line_ref lines"
  by (simp add: dict_of_distinct)

lemma component_members:
  assumes "distinct (map line_ref lines)"
  shows "ms \<in> set (raw_components (dict_of line_ref lines)) \<longleftrightarrow>
    (\<exists>x \<in> line_ref ` set lines. ms = filter (same_unit lines x) (map line_ref lines))"
proof -
  have "distinct (map fst (dict_of line_ref lines))" by simp
  from raw_components_spec(1) [OF this, of ms] show ?thesis
    by (simp add: link_edges_lines [OF assms] same_unit_def [abs_def] assms)
qed

lemma same_unit_sym: "same_unit lines x y \<Longrightarrow> same_unit lines y x"
proof -
  have "sym ((unit_links lines \<union> (unit_links lines)\<inverse>)\<^sup>*)" by (intro sym_rtrancl symI) auto
  then show "same_unit lines x y \<Longrightarrow> same_unit lines y x" by (auto simp: same_unit_def dest: symD)
qed

lemma same_unit_trans: "\<lbrakk>same_unit lines x y; same_unit lines y z\<rbrakk> \<Longrightarrow> same_unit lines x z"
  by (auto simp: same_unit_def)

lemma same_unit_refl [simp]: "same_unit lines x x"
  by (simp add: same_unit_def)

lemma group_iff_same_unit:
  assumes "distinct (map line_ref lines)" "x \<in> line_ref ` set lines" "y \<in> line_ref ` set lines" "x \<noteq> y"
  shows "(\<exists>g \<in> set (derive_hyphen_groups lines). x \<in> set (hg_members g) \<and> y \<in> set (hg_members g))
    \<longleftrightarrow> same_unit lines x y"
proof
  assume "\<exists>g \<in> set (derive_hyphen_groups lines). x \<in> set (hg_members g) \<and> y \<in> set (hg_members g)"
  then obtain z where "same_unit lines z x" "same_unit lines z y"
    by (auto simp: groups_members component_members [OF assms(1)])
  then show "same_unit lines x y" by (meson same_unit_sym same_unit_trans)
next
  assume same: "same_unit lines x y"
  define ms where "ms = filter (same_unit lines x) (map line_ref lines)"
  have mem: "x \<in> set ms" "y \<in> set ms" using assms same by (auto simp: ms_def)
  then have "{x, y} \<subseteq> set ms" by simp
  then have "card {x, y} \<le> length ms" by (meson card_length card_mono finite_set le_trans)
  with assms(4) have "\<not> length ms < 2" by simp
  moreover have "ms \<in> set (raw_components (dict_of line_ref lines))"
    using component_members [OF assms(1)] assms(2) ms_def by blast
  ultimately show "\<exists>g \<in> set (derive_hyphen_groups lines). x \<in> set (hg_members g) \<and> y \<in> set (hg_members g)"
    using mem groups_members by (metis set_group_members)
qed

lemma groups_disjoint_aux:
  "distinct (concat (map hg_members (derive_hyphen_groups lines)))"
proof -
  let ?d = "dict_of line_ref lines"
  let ?mk = "make_group ?d (snd (walk_links ?d))"
  let ?mss = "filter (\<lambda>ms. \<not> length ms < 2) (raw_components ?d)"
  have "mset (concat (map hg_members (derive_hyphen_groups lines)))
      = mset (concat (map hg_members (map ?mk ?mss)))"
    unfolding derive_hyphen_groups_eq Let_def by (rule mset_concat_map_perm) simp
  also have "\<dots> = mset (concat (map (\<lambda>ms. hg_members (?mk ms)) ?mss))"
    by (simp add: comp_def)
  also have "\<dots> = mset (concat (map (\<lambda>ms. ms) ?mss))"
    by (rule mset_concat_map_cong) (simp add: make_group_def Let_def)
  finally have "mset (concat (map hg_members (derive_hyphen_groups lines))) = mset (concat ?mss)"
    by simp
  moreover have "distinct (concat ?mss)"
    by (intro distinct_concat_filter raw_components_spec(2)) simp
  ultimately show ?thesis using mset_eq_imp_distinct_iff by blast
qed

section \<open>Order and completeness of a group\<close>

lemma group_sorted:
  assumes "g \<in> set (derive_hyphen_groups lines)"
  shows "sorted (map (order_of (dict_of line_ref lines)) (hg_members g))"
    "2 \<le> length (hg_members g)"
  using assms by (auto simp: groups_members make_group_def Let_def)

lemma groups_sorted:
  "sorted (map (\<lambda>g. order_of (dict_of line_ref lines) (hd (hg_members g)))
            (derive_hyphen_groups lines))"
  unfolding derive_hyphen_groups_eq Let_def by (rule sorted_sort_key)

lemma group_member_line:
  assumes "distinct (map line_ref lines)" "g \<in> set (derive_hyphen_groups lines)"
  shows "set (hg_members g) \<subseteq> line_ref ` set lines"
  using assms by (auto simp: groups_members component_members [OF assms(1)])

lemma group_complete_iff:
  assumes "distinct (map line_ref lines)" "g \<in> set (derive_hyphen_groups lines)"
  shows "hg_complete g \<longleftrightarrow>
    (\<forall>lm \<in> set lines. line_ref lm \<in> set (hg_members g) \<longrightarrow>
       set (partners lm) \<subseteq> line_ref ` set lines)"
proof -
  let ?d = "dict_of line_ref lines"
  obtain ms where g: "g = make_group ?d (snd (walk_links ?d)) ms"
    using assms(2) by (auto simp: groups_members)
  have un: "r \<in> set (snd (walk_links ?d)) \<longleftrightarrow>
      (\<exists>lm \<in> set lines. line_ref lm = r \<and> \<not> set (partners lm) \<subseteq> line_ref ` set lines)" for r
    by (auto simp: walk_links_eq dict_of_distinct [OF assms(1)] image_image)
  have "hg_complete g \<longleftrightarrow> (\<forall>r \<in> set (hg_members g). r \<notin> set (snd (walk_links ?d)))"
    by (auto simp: g make_group_def Let_def list_ex_iff)
  then show ?thesis unfolding un by blast
qed

section \<open>Closing a set of lines under their units\<close>

lemma foldl_dict_set_members:
  "map_of (foldl (\<lambda>idx m. dict_set m g idx) idx ms) r
     = (if r \<in> set ms then Some g else map_of idx r)"
  by (induction ms arbitrary: idx) auto

lemma group_index_lookup:
  assumes "distinct (concat (map hg_members gs))"
  shows "map_of (hyphen_group_by_line gs) r = Some g \<longleftrightarrow> g \<in> set gs \<and> r \<in> set (hg_members g)"
proof -
  have "map_of (foldl (\<lambda>idx g. foldl (\<lambda>idx m. dict_set m g idx) idx (hg_members g)) idx gs) r =
      (case List.find (\<lambda>g. r \<in> set (hg_members g)) gs of None \<Rightarrow> map_of idx r | Some g \<Rightarrow> Some g)"
    for idx
    using assms
  proof (induction gs arbitrary: idx)
    case (Cons h gs)
    have "List.find (\<lambda>g. r \<in> set (hg_members g)) gs = None" if "r \<in> set (hg_members h)"
      using Cons.prems that by (auto simp: find_None_iff)
    with Cons show ?case by (simp add: foldl_dict_set_members split: option.splits)
  qed simp
  then have *: "map_of (hyphen_group_by_line gs) r = List.find (\<lambda>g. r \<in> set (hg_members g)) gs"
    by (simp add: hyphen_group_by_line_def split: option.splits)
  show ?thesis
  proof
    assume "map_of (hyphen_group_by_line gs) r = Some g"
    then show "g \<in> set gs \<and> r \<in> set (hg_members g)"
      unfolding * by (metis find_Some_iff nth_mem)
  next
    assume g: "g \<in> set gs \<and> r \<in> set (hg_members g)"
    then obtain h where h: "List.find (\<lambda>g. r \<in> set (hg_members g)) gs = Some h"
      by (metis find_None_iff option.exhaust)
    then have "h \<in> set gs" "r \<in> set (hg_members h)" by (metis find_Some_iff nth_mem)+
    then have "h = g" using g assms
      by (metis (no_types, lifting) concat_map_unique)
    with h * show "map_of (hyphen_group_by_line gs) r = Some g" by simp
  qed
qed

lemma set_default_refs:
  "\<forall>(r, lm) \<in> set d. line_ref lm = r \<Longrightarrow>
   fst ` set (foldl (\<lambda>d lm. set_default (line_ref lm) lm d) d pool)
     = fst ` set d \<union> line_ref ` set pool \<and>
   (\<forall>(r, lm) \<in> set (foldl (\<lambda>d lm. set_default (line_ref lm) lm d) d pool). line_ref lm = r)"
proof (induction pool arbitrary: d)
  case (Cons lm pool)
  have "\<forall>(r, l) \<in> set (set_default (line_ref lm) lm d). line_ref l = r"
    using Cons.prems by (auto simp: set_default_def)
  moreover have "fst ` set (set_default (line_ref lm) lm d) = insert (line_ref lm) (fst ` set d)"
    by (auto simp: set_default_def map_of_eq_None_iff)
  ultimately show ?case using Cons.IH by auto
qed simp

lemma dict_of_refs: "(r, lm) \<in> set (dict_of key xs) \<Longrightarrow> key lm = r"
  using map_of_dict_of_Some [of key xs r lm] by simp

lemma same_unit_outside:
  assumes "same_unit pool x y" "x \<notin> line_ref ` set pool" shows "y = x"
  using assms(1) unfolding same_unit_def
  by (cases rule: converse_rtranclE) (use assms(2) in \<open>auto simp: unit_links_def\<close>)

lemma same_unit_inside:
  assumes "same_unit pool x y" "x \<in> line_ref ` set pool" shows "y \<in> line_ref ` set pool"
  using assms(1) unfolding same_unit_def
  by (cases rule: rtranclE) (use assms(2) in \<open>auto simp: unit_links_def\<close>)

lemma case_option_members:
  "q \<in> set (case x of None \<Rightarrow> [] | Some g \<Rightarrow> f g) \<longleftrightarrow> (\<exists>g. x = Some g \<and> q \<in> set (f g))"
  by (cases x) auto

lemma seed_group_members:
  assumes "distinct (map line_ref pool)"
  shows "q \<in> set (case map_of (hyphen_group_by_line (derive_hyphen_groups pool)) s of
             None \<Rightarrow> [] | Some g \<Rightarrow> hg_members g) \<or> q = s \<longleftrightarrow> same_unit pool s q"
proof -
  have case_eq: "q \<in> set (case map_of (hyphen_group_by_line (derive_hyphen_groups pool)) s of
             None \<Rightarrow> [] | Some g \<Rightarrow> hg_members g) \<longleftrightarrow>
      (\<exists>g \<in> set (derive_hyphen_groups pool). s \<in> set (hg_members g) \<and> q \<in> set (hg_members g))"
    (is "?A \<longleftrightarrow> ?B")
    unfolding case_option_members group_index_lookup [OF groups_disjoint_aux] by blast
  consider "q = s" | "s \<notin> line_ref ` set pool" "q \<noteq> s" | "q \<notin> line_ref ` set pool" "q \<noteq> s"
    | "q \<noteq> s" "s \<in> line_ref ` set pool" "q \<in> line_ref ` set pool" by blast
  then show ?thesis
  proof cases
    case 2
    have "\<not> ?B" using 2(1) group_member_line [OF assms] by blast
    with 2 case_eq same_unit_outside show ?thesis by blast
  next
    case 3
    have "\<not> ?B" using 3(1) group_member_line [OF assms] by blast
    with 3 case_eq same_unit_outside same_unit_sym show ?thesis by metis
  next
    case 4
    with case_eq group_iff_same_unit [OF assms, of s q] show ?thesis by blast
  qed simp
qed

lemma filtered_refs:
  "\<forall>(r, lm) \<in> set d. key lm = r \<Longrightarrow>
   key ` set (map snd (filter (\<lambda>(r, lm). r \<in> W) d)) = fst ` set d \<inter> W"
  by (induction d) auto

lemma closure_image:
  assumes "X = K \<inter> W" "\<And>q. q \<in> W \<longleftrightarrow> (\<exists>s \<in> S. R s q)" "\<And>s q. \<lbrakk>s \<in> S; R s q\<rbrakk> \<Longrightarrow> q \<in> K"
  shows "X = {q. \<exists>s \<in> S. R s q}"
  using assms by blast

lemma units_containing_refs:
  assumes "distinct (map line_ref pool)"
  shows "line_ref ` set (units_containing seeds pool)
     = {q. \<exists>s \<in> set seeds. same_unit pool (line_ref s) q}"
proof -
  let ?idx = "hyphen_group_by_line (derive_hyphen_groups pool)"
  let ?W = "\<lambda>s. case map_of ?idx s of None \<Rightarrow> [] | Some g \<Rightarrow> hg_members g"
  let ?wanted = "map line_ref seeds @ concat (map ?W (map line_ref seeds))"
  let ?by = "foldl (\<lambda>d lm. set_default (line_ref lm) lm d) (dict_of line_ref seeds) pool"
  have "\<forall>(r, lm) \<in> set (dict_of line_ref seeds). line_ref lm = r" by (auto dest: dict_of_refs)
  from set_default_refs [OF this] have by_ref:
    "fst ` set ?by = line_ref ` set seeds \<union> line_ref ` set pool"
    "\<forall>(r, lm) \<in> set ?by. line_ref lm = r" by auto
  have "units_containing seeds pool = map snd (filter (\<lambda>(r, lm). r \<in> set ?wanted) ?by)"
    by (simp add: units_containing_def Let_def)
  then have "line_ref ` set (units_containing seeds pool) = fst ` set ?by \<inter> set ?wanted"
    by (simp only: filtered_refs [OF by_ref(2)])
  moreover have "q \<in> set ?wanted \<longleftrightarrow> (\<exists>s \<in> set seeds. same_unit pool (line_ref s) q)" for q
  proof -
    have "q \<in> set ?wanted \<longleftrightarrow> (\<exists>s \<in> set seeds. q = line_ref s \<or> q \<in> set (?W (line_ref s)))"
      by (simp only: set_append set_map set_concat) blast
    then show ?thesis using seed_group_members [OF assms] by blast
  qed
  moreover have "q \<in> fst ` set ?by" if "s \<in> set seeds" "same_unit pool (line_ref s) q" for s q
    unfolding by_ref(1) using that same_unit_inside same_unit_outside by blast
  ultimately show ?thesis by (rule closure_image)
qed

lemma units_containing_seeds: "s \<in> set seeds \<Longrightarrow> line_ref s \<in> line_ref ` set (units_containing seeds pool)"
proof -
  let ?idx = "hyphen_group_by_line (derive_hyphen_groups pool)"
  let ?W = "\<lambda>s. case map_of ?idx s of None \<Rightarrow> [] | Some g \<Rightarrow> hg_members g"
  let ?wanted = "map line_ref seeds @ concat (map ?W (map line_ref seeds))"
  let ?by = "foldl (\<lambda>d lm. set_default (line_ref lm) lm d) (dict_of line_ref seeds) pool"
  assume s: "s \<in> set seeds"
  have "\<forall>(r, lm) \<in> set (dict_of line_ref seeds). line_ref lm = r" by (auto dest: dict_of_refs)
  from set_default_refs [OF this] have by_ref:
    "fst ` set ?by = line_ref ` set seeds \<union> line_ref ` set pool"
    "\<forall>(r, lm) \<in> set ?by. line_ref lm = r" by auto
  have "units_containing seeds pool = map snd (filter (\<lambda>(r, lm). r \<in> set ?wanted) ?by)"
    by (simp add: units_containing_def Let_def)
  then have "line_ref ` set (units_containing seeds pool) = fst ` set ?by \<inter> set ?wanted"
    by (simp only: filtered_refs [OF by_ref(2)])
  with s show ?thesis by (simp add: by_ref(1))
qed

section \<open>What a split changes\<close>

lemma split_strip_links [frame_simps]:
  "strip_links (split_tail lm) = strip_links lm"
  "strip_links (split_head lm) = strip_links lm"
  by (simp_all add: split_tail_def split_head_def strip_links_def)

lemma split_refs:
  "forward_partner_ref (split_tail lm) = None"
  "opens_unit (hyphen_role lm) \<Longrightarrow> backward_partner_ref (split_tail lm) = backward_partner_ref lm"
  "backward_partner_ref (split_head lm) = None"
  "closes_unit (hyphen_role lm) \<Longrightarrow> forward_partner_ref (split_head lm) = forward_partner_ref lm"
  by (auto simp: split_tail_def split_head_def forward_partner_ref_def backward_partner_ref_def
      pair_ref_def forward_ref_def opens_unit_def closes_unit_def)

section \<open>Properties\<close>

text \<open>A word broken over two lines, and a line outside it.\<close>

definition demo_tail :: line_manifest where
  "demo_tail = (plain_line ''P'' ''a'' 1 (tx ''a Ber-''))
     \<lparr>hyphen_role := PART1, hyphen_pair_line_id := Some ''b'', hyphen_pair_page_id := Some ''P''\<rparr>"

definition demo_head :: line_manifest where
  "demo_head = (plain_line ''P'' ''b'' 2 (tx ''lin now''))
     \<lparr>hyphen_role := PART2, hyphen_pair_line_id := Some ''a'', hyphen_pair_page_id := Some ''P''\<rparr>"

definition demo_other :: line_manifest where
  "demo_other = plain_line ''P'' ''c'' 3 (tx ''end'')"

text \<open>C5: two different lines are in one derived hyphen group exactly when a chain of link
  pointers, each resolving inside the given lines, joins them.\<close>

theorem hyphen_groups_are_components:
  assumes "distinct (map line_ref lines)"
    and "x \<in> line_ref ` set lines" "y \<in> line_ref ` set lines" "x \<noteq> y"
  shows "(\<exists>g \<in> set (derive_hyphen_groups lines). x \<in> set (hg_members g) \<and> y \<in> set (hg_members g))
    \<longleftrightarrow> same_unit lines x y"
  by (rule group_iff_same_unit [OF assms])

lemma hyphen_groups_are_components_witness:
  "(\<exists>g \<in> set (derive_hyphen_groups [demo_tail, demo_head, demo_other]).
      line_ref demo_tail \<in> set (hg_members g) \<and> line_ref demo_head \<in> set (hg_members g))
    \<longleftrightarrow> same_unit [demo_tail, demo_head, demo_other] (line_ref demo_tail) (line_ref demo_head)"
  by (rule hyphen_groups_are_components)
    (simp_all add: demo_tail_def demo_head_def demo_other_def plain_line_def line_ref_def)

text \<open>Every line is in at most one derived group, a group has at least two members in
  reading order, and the groups follow in the reading order of their first members.\<close>

theorem hyphen_groups_partition:
  "distinct (concat (map hg_members (derive_hyphen_groups lines))) \<and>
   list_all (\<lambda>g. 2 \<le> length (hg_members g) \<and>
       sorted (map (order_of (dict_of line_ref lines)) (hg_members g)))
     (derive_hyphen_groups lines) \<and>
   sorted (map (\<lambda>g. order_of (dict_of line_ref lines) (hd (hg_members g)))
     (derive_hyphen_groups lines))"
  using groups_disjoint_aux groups_sorted group_sorted by (auto simp: list_all_iff)

text \<open>A derived group is marked complete exactly when every link pointer of every member
  line resolves inside the given lines.\<close>

theorem hyphen_group_complete:
  assumes "distinct (map line_ref lines)" "g \<in> set (derive_hyphen_groups lines)"
  shows "hg_complete g \<longleftrightarrow>
    (\<forall>lm \<in> set lines. line_ref lm \<in> set (hg_members g) \<longrightarrow>
       set (partners lm) \<subseteq> line_ref ` set lines)"
  by (rule group_complete_iff [OF assms])

lemma hyphen_group_complete_witness:
  "hg_complete (hd (derive_hyphen_groups [demo_tail, demo_head])) \<longleftrightarrow>
    (\<forall>lm \<in> set [demo_tail, demo_head].
       line_ref lm \<in> set (hg_members (hd (derive_hyphen_groups [demo_tail, demo_head]))) \<longrightarrow>
       set (partners lm) \<subseteq> line_ref ` set [demo_tail, demo_head])"
proof (rule hyphen_group_complete)
  show "distinct (map line_ref [demo_tail, demo_head])" by code_simp
  have "derive_hyphen_groups [demo_tail, demo_head] \<noteq> []" by code_simp
  then show "hd (derive_hyphen_groups [demo_tail, demo_head])
      \<in> set (derive_hyphen_groups [demo_tail, demo_head])" by simp
qed

text \<open>C33: \<open>units_containing\<close> returns the lines of exactly the references that a chain of
  resolving links joins to a seed, the seeds included, whatever the pool.\<close>

theorem units_containing_closure:
  assumes "distinct (map line_ref pool)"
  shows "line_ref ` set (units_containing seeds pool)
     = {q. \<exists>s \<in> set seeds. same_unit pool (line_ref s) q}"
  by (rule units_containing_refs [OF assms])

lemma units_containing_closure_witness:
  "line_ref ` set (units_containing [demo_head] [demo_tail, demo_head, demo_other])
     = {q. \<exists>s \<in> set [demo_head]. same_unit [demo_tail, demo_head, demo_other] (line_ref s) q}"
  by (rule units_containing_closure) code_simp

text \<open>Severing a link that is not there is refused; severing one that is leaves everything
  but the hyphen fields of the two lines, removes the link from both sides, and keeps the
  tail's own backward link and the head's own forward link.\<close>

theorem split_forward_link_spec:
  "case split_forward_link tail head of
     Inl e \<Rightarrow> exn_class e = C_RuntimeError \<and> forward_partner_id tail \<noteq> Some (line_id head)
   | Inr (t, h, s) \<Rightarrow>
       strip_links t = strip_links tail \<and> strip_links h = strip_links head \<and>
       forward_partner_ref t = None \<and> backward_partner_ref h = None \<and>
       backward_partner_ref t = backward_partner_ref tail \<and>
       (closes_unit (hyphen_role head) \<longrightarrow> forward_partner_ref h = forward_partner_ref head) \<and>
       s = \<lparr>hs_page_id = page_id tail, hs_tail_line_id = line_id tail,
            hs_head_line_id = line_id head\<rparr>"
proof (cases "forward_partner_id tail = Some (line_id head)")
  case True
  then have "opens_unit (hyphen_role tail)"
    by (auto simp: forward_partner_id_def forward_partner_ref_def opens_unit_def
        split: hyphen_role.splits)
  with True show ?thesis by (simp add: split_forward_link_def split_refs frame_simps)
qed (simp add: split_forward_link_def)

lemma split_forward_link_spec_witness:
  "case split_forward_link demo_tail demo_head of
     Inl e \<Rightarrow> False
   | Inr (t, h, s) \<Rightarrow> forward_partner_ref t = None \<and> backward_partner_ref h = None"
  using split_forward_link_spec [of demo_tail demo_head]
  by (simp add: split_forward_link_def forward_partner_id_def forward_partner_ref_def
      pair_ref_def py_or_def demo_tail_def demo_head_def plain_line_def)

text \<open>The order of the result is not the pool's reading order: the seeds come first.\<close>

theorem units_containing_seeds_first:
  "map line_id (units_containing [demo_head] [demo_tail, demo_head, demo_other]) = [''b'', ''a'']"
  by code_simp

end

