(* ===== verification/Difflib.thy ===== *)
theory Difflib
  imports Py_Text "HOL-Library.Sublist"
begin

text \<open>
  Python's \<open>difflib.SequenceMatcher(None, a, b, autojunk=False).ratio()\<close>, the measure behind
  every similarity guard of \<open>core/guards.py\<close>: the longest common block, earliest in \<open>a\<close> and
  then earliest in \<open>b\<close>, is matched first, and the parts left and right of it are matched
  recursively. The ratio is twice the matched characters over the total length.
\<close>

section \<open>The longest matching block\<close>

fun common_prefix :: "'a list \<Rightarrow> 'a list \<Rightarrow> nat" where
  "common_prefix (x # xs) (y # ys) = (if x = y then Suc (common_prefix xs ys) else 0)"
| "common_prefix _ _ = 0"

definition better_match ::
  "'a list \<Rightarrow> 'a list \<Rightarrow> nat \<times> nat \<times> nat \<Rightarrow> nat \<times> nat \<Rightarrow> nat \<times> nat \<times> nat" where
  "better_match a b best ij =
     (let (bi, bj, bk) = best; (i, j) = ij; k = common_prefix (drop i a) (drop j b)
      in if k > bk then (i, j, k) else (bi, bj, bk))"

definition longest_match :: "'a list \<Rightarrow> 'a list \<Rightarrow> nat \<times> nat \<times> nat" where
  "longest_match a b =
     foldl (better_match a b) (0, 0, 0) (List.product [0 ..< length a] [0 ..< length b])"

definition block_at :: "'a list \<Rightarrow> 'a list \<Rightarrow> nat \<times> nat \<times> nat \<Rightarrow> bool" where
  "block_at a b m =
     (let (i, j, k) = m in
      k > 0 \<longrightarrow> i + k \<le> length a \<and> j + k \<le> length b \<and> take k (drop i a) = take k (drop j b))"

lemma common_prefix_le: "common_prefix a b \<le> length a \<and> common_prefix a b \<le> length b"
  by (induction a b rule: common_prefix.induct) auto

lemma common_prefix_take: "take (common_prefix a b) a = take (common_prefix a b) b"
  by (induction a b rule: common_prefix.induct) auto

lemma common_prefix_self [simp]: "common_prefix a a = length a"
  by (induction a) auto

lemma better_match_block:
  assumes "block_at a b best" "i < length a" "j < length b"
  shows "block_at a b (better_match a b best (i, j))"
proof -
  have "common_prefix (drop i a) (drop j b) \<le> length a - i"
       "common_prefix (drop i a) (drop j b) \<le> length b - j"
    using common_prefix_le [of "drop i a" "drop j b"] by auto
  with assms common_prefix_take [of "drop i a" "drop j b"] show ?thesis
    by (auto simp: better_match_def block_at_def Let_def split: prod.splits)
qed

lemma foldl_better_match_block:
  "\<lbrakk>block_at a b best; set ps \<subseteq> {..<length a} \<times> {..<length b}\<rbrakk> \<Longrightarrow>
   block_at a b (foldl (better_match a b) best ps)"
proof (induction ps arbitrary: best)
  case (Cons p ps)
  obtain i j where p: "p = (i, j)" by fastforce
  with Cons.prems have "block_at a b (better_match a b best p)"
    by (auto intro: better_match_block)
  then have "block_at a b (foldl (better_match a b) (better_match a b best p) ps)"
    using Cons.prems(2) by (intro Cons.IH) auto
  then show ?case by simp
qed simp

lemma longest_match_block: "block_at a b (longest_match a b)"
  unfolding longest_match_def
  by (rule foldl_better_match_block) (auto simp: block_at_def)

lemma better_match_mono: "snd (snd best) \<le> snd (snd (better_match a b best ij))"
  by (auto simp: better_match_def Let_def split: prod.splits)

lemma foldl_better_match_mono: "snd (snd best) \<le> snd (snd (foldl (better_match a b) best ps))"
proof (induction ps arbitrary: best)
  case (Cons p ps)
  have "snd (snd best) \<le> snd (snd (better_match a b best p))" by (rule better_match_mono)
  also have "\<dots> \<le> snd (snd (foldl (better_match a b) (better_match a b best p) ps))"
    by (rule Cons.IH)
  finally show ?case by simp
qed simp

lemma foldl_better_match_ge:
  "(i, j) \<in> set ps \<Longrightarrow>
   common_prefix (drop i a) (drop j b) \<le> snd (snd (foldl (better_match a b) best ps))"
proof (induction ps arbitrary: best)
  case (Cons p ps)
  show ?case
  proof (cases "p = (i, j)")
    case True
    have "common_prefix (drop i a) (drop j b) \<le> snd (snd (better_match a b best p))"
      by (auto simp: True better_match_def Let_def split: prod.splits)
    also have "\<dots> \<le> snd (snd (foldl (better_match a b) (better_match a b best p) ps))"
      by (rule foldl_better_match_mono)
    finally show ?thesis by simp
  next
    case False
    with Cons show ?thesis by simp
  qed
qed simp

text \<open>No common block is longer than the one found.\<close>

lemma longest_match_maximal:
  assumes "i < length a" "j < length b"
  shows "common_prefix (drop i a) (drop j b) \<le> snd (snd (longest_match a b))"
  unfolding longest_match_def using assms by (intro foldl_better_match_ge) auto

section \<open>Matched characters and the ratio\<close>

function match_count :: "'a list \<Rightarrow> 'a list \<Rightarrow> nat" where
  "match_count a b =
     (let (i, j, k) = longest_match a b in
      if k = 0 then 0
      else k + match_count (take i a) (take j b) + match_count (drop (i + k) a) (drop (j + k) b))"
  by pat_completeness auto
termination
proof (relation "measure (\<lambda>(a, b). length a)")
  fix a b :: "'a list" and x i y j k
  assume x: "x = longest_match a b" "(i, y) = x" "(j, k) = y" and k: "k \<noteq> 0"
  from x have "longest_match a b = (i, j, k)" by simp
  with k longest_match_block [of a b] have "i + k \<le> length a" by (simp add: block_at_def)
  with k show "((take i a, take j b), (a, b)) \<in> measure (\<lambda>(a, b). length a)"
    and "((drop (i + k) a, drop (j + k) b), (a, b)) \<in> measure (\<lambda>(a, b). length a)"
    by auto
qed simp

declare match_count.simps [simp del]

definition ratio :: "'a list \<Rightarrow> 'a list \<Rightarrow> rat" where
  "ratio a b =
     (let n = length a + length b in
      if n = 0 then 1 else 2 * of_nat (match_count a b) / of_nat n)"

text \<open>The matched characters are a common subsequence of both texts.\<close>

lemma subseq_three:
  assumes "subseq c1 (take i a)" "subseq c2 (drop (i + k) a)"
  shows "subseq (c1 @ take k (drop i a) @ c2) a"
proof -
  have "a = take i a @ take k (drop i a) @ drop (i + k) a"
    by (metis append_take_drop_id drop_drop add.commute)
  with assms show ?thesis
    by (metis list_emb_append_mono subseq_order.refl)
qed

lemma match_count_subseq: "\<exists>c. subseq c a \<and> subseq c b \<and> length c = match_count a b"
proof (induction a b rule: match_count.induct)
  case (1 a b)
  obtain i j k where m: "longest_match a b = (i, j, k)" by (metis prod_cases3)
  show ?case
  proof (cases "k = 0")
    case True
    with m show ?thesis by (auto simp: match_count.simps [of a b] intro!: exI [of _ "[]"])
  next
    case False
    with m longest_match_block [of a b]
    have blk: "i + k \<le> length a" "j + k \<le> length b" "take k (drop i a) = take k (drop j b)"
      by (auto simp: block_at_def)
    from 1 m False obtain c1 c2 where
      c1: "subseq c1 (take i a)" "subseq c1 (take j b)"
          "length c1 = match_count (take i a) (take j b)" and
      c2: "subseq c2 (drop (i + k) a)" "subseq c2 (drop (j + k) b)"
          "length c2 = match_count (drop (i + k) a) (drop (j + k) b)"
      by (metis prod.inject)
    let ?c = "c1 @ take k (drop i a) @ c2"
    have "subseq ?c a" using c1(1) c2(1) by (rule subseq_three)
    moreover have "subseq ?c b" using subseq_three [OF c1(2) c2(2)] blk(3) by simp
    moreover have "length ?c = match_count a b"
      using False m c1(3) c2(3) blk(1) by (simp add: match_count.simps [of a b])
    ultimately show ?thesis by blast
  qed
qed

lemma match_count_le: "match_count a b \<le> length a \<and> match_count a b \<le> length b"
  using match_count_subseq [of a b] by (metis list_emb_length)

lemma ratio_nonneg [simp]: "0 \<le> ratio a b"
  by (simp add: ratio_def Let_def)

lemma ratio_le_1 [simp]: "ratio a b \<le> 1"
proof (cases "length a + length b = 0")
  case False
  have "2 * match_count a b \<le> length a + length b"
    using match_count_le [of a b] by linarith
  then have "(of_nat (2 * match_count a b) :: rat) \<le> of_nat (length a + length b)"
    by (simp only: of_nat_le_iff)
  with False show ?thesis by (simp add: ratio_def Let_def divide_simps)
qed (simp add: ratio_def)

lemma longest_match_self:
  assumes "a \<noteq> []" shows "longest_match a a = (0, 0, length a)"
proof -
  obtain n where n: "length a = Suc n" using assms by (cases a) auto
  have prod: "List.product [0 ..< length a] [0 ..< length a]
      = (0, 0) # tl (List.product [0 ..< length a] [0 ..< length a])"
    by (simp add: n upt_conv_Cons del: upt_Suc)
  have keep: "foldl (better_match a a) (0, 0, length a) ps = (0, 0, length a)"
    if "set ps \<subseteq> {..<length a} \<times> {..<length a}" for ps
    using that
  proof (induction ps)
    case (Cons p ps)
    obtain i j where p: "p = (i, j)" by fastforce
    have "common_prefix (drop i a) (drop j a) \<le> length a"
      using common_prefix_le [of "drop i a" "drop j a"] by simp linarith
    then have "better_match a a (0, 0, length a) p = (0, 0, length a)"
      by (simp add: p better_match_def)
    with Cons show ?case by simp
  qed simp
  have "longest_match a a = foldl (better_match a a) (better_match a a (0, 0, 0) (0, 0))
      (tl (List.product [0 ..< length a] [0 ..< length a]))"
    unfolding longest_match_def by (subst prod) simp
  also have "better_match a a (0, 0, 0) (0, 0) = (0, 0, length a)"
    using assms by (simp add: better_match_def)
  also have "foldl (better_match a a) \<dots> (tl (List.product [0 ..< length a] [0 ..< length a]))
      = (0, 0, length a)"
  proof (rule keep)
    show "set (tl (List.product [0..<length a] [0..<length a])) \<subseteq> {..<length a} \<times> {..<length a}"
      using set_tl_subset [of "List.product [0..<length a] [0..<length a]"] by auto
  qed
  finally show ?thesis .
qed

lemma match_count_Nil [simp]: "match_count [] b = 0" "match_count a [] = 0"
  using match_count_le [of "[]" b] match_count_le [of a "[]"] by auto

lemma match_count_self [simp]: "match_count a a = length a"
  by (cases "a = []") (simp_all add: match_count.simps [of a a] longest_match_self)

lemma ratio_self [simp]: "ratio a a = 1"
  by (simp add: ratio_def Let_def)

text \<open>A ratio of one means equality.\<close>

lemma ratio_eq_1_iff: "ratio a b = 1 \<longleftrightarrow> a = b"
proof
  assume r: "ratio a b = 1"
  show "a = b"
  proof (cases "length a + length b = 0")
    case False
    with r have "(of_nat (2 * match_count a b) :: rat) = of_nat (length a + length b)"
      by (simp add: ratio_def Let_def divide_simps split: if_splits)
    then have "2 * match_count a b = length a + length b" by (simp only: of_nat_eq_iff)
    with match_count_le [of a b] have eq: "match_count a b = length a" "match_count a b = length b"
      by linarith+
    obtain c where "subseq c a" "subseq c b" "length c = match_count a b"
      using match_count_subseq by blast
    with eq have "c = a" "c = b" by (auto intro: subseq_same_length)
    then show ?thesis by simp
  qed simp
qed simp

lemma ratio_Nil: "b \<noteq> [] \<Longrightarrow> ratio [] b = 0" "a \<noteq> [] \<Longrightarrow> ratio a [] = 0"
  by (simp_all add: ratio_def)

end
