(* ===== verification/Guards.thy ===== *)
theory Guards
  imports Policies Difflib
begin

text \<open>
  \<open>core/guards.py\<close>, the line-level guards: a correction is compared with its own source and
  its neighbours' (\<open>check_line\<close>), and two passes over adjacent accepted lines revert
  duplicated corrections and words that crossed a line seam.

  Facts: \<open>check_line\<close> returns the correction or the source and nothing else, with the exact
  condition for each; both seam passes flag exactly the two lines of every seam their verdict
  hits. The contract of a seam pass is the locale \<open>seam_pass\<close>, interpreted on both.
\<close>

section \<open>Similarity\<close>

definition similarity :: "ptext \<Rightarrow> ptext \<Rightarrow> rat" where
  "similarity a b =
     (if a = [] \<and> b = [] then 1
      else if a = [] \<or> b = [] then 0
      else ratio a b)"

text \<open>\<open>round(x, 4)\<close>: half to even.\<close>

definition round4 :: "rat \<Rightarrow> rat" where
  "round4 x =
     (let y = x * 10000; f = \<lfloor>y\<rfloor>; r = y - of_int f;
          n = (if r < 1/2 then f else if r > 1/2 then f + 1 else if even f then f else f + 1)
      in of_int n / 10000)"

section \<open>One line against its source and its neighbours\<close>

record proposal_features =
  source_similarity :: "rat option"
  prev_similarity :: "rat option"
  next_similarity :: "rat option"
  length_ratio :: "rat option"

record acceptance_result =
  accepted :: bool
  accepted_text :: ptext
  reason :: "string option"
  features :: "proposal_features option"

definition reject :: "ptext \<Rightarrow> string \<Rightarrow> proposal_features \<Rightarrow> acceptance_result" where
  "reject source why f =
     \<lparr>accepted = False, accepted_text = source, reason = Some why, features = Some f\<rparr>"

text \<open>Guard 3, for the two orders of the concatenation.\<close>

definition absorbs :: "guard_config \<Rightarrow> ptext \<Rightarrow> ptext \<Rightarrow> ptext \<Rightarrow> bool" where
  "absorbs cfg source corrected concat_text \<longleftrightarrow>
     of_nat (length corrected) > of_nat (max (length source) 1) * absorption_length_ratio cfg \<and>
     similarity corrected concat_text > absorption_concat_similarity cfg"

definition check_line ::
  "guard_config \<Rightarrow> ptext \<Rightarrow> ptext \<Rightarrow> ptext option \<Rightarrow> ptext option \<Rightarrow> acceptance_result" where
  "check_line cfg source corrected prev nxt =
     (if corrected = source then
        \<lparr>accepted = True, accepted_text = corrected, reason = None,
         features = Some \<lparr>source_similarity = Some 1, prev_similarity = None,
                          next_similarity = None, length_ratio = Some 1\<rparr>\<rparr>
      else
      let src_len = max (length source) 1;
          f0 = \<lparr>source_similarity = None, prev_similarity = None, next_similarity = None,
                length_ratio = Some (round4 (of_nat (length corrected) / of_nat src_len))\<rparr>;
          sim_source = similarity source corrected;
          f1 = f0\<lparr>source_similarity := Some (round4 sim_source)\<rparr>
      in
      if sim_source < min_source_similarity cfg then reject source ''too_different_from_source'' f1
      else
      let f2 = (case prev of None \<Rightarrow> f1
                | Some p \<Rightarrow> f1\<lparr>prev_similarity := Some (round4 (similarity p corrected))\<rparr>)
      in
      if (case prev of None \<Rightarrow> False
          | Some p \<Rightarrow> similarity p corrected > sim_source + neighbour_margin cfg)
      then reject source ''closer_to_previous_line'' f2
      else
      let f3 = (case nxt of None \<Rightarrow> f2
                | Some n \<Rightarrow> f2\<lparr>next_similarity := Some (round4 (similarity n corrected))\<rparr>)
      in
      if (case nxt of None \<Rightarrow> False
          | Some n \<Rightarrow> similarity n corrected > sim_source + neighbour_margin cfg)
      then reject source ''closer_to_next_line'' f3
      else if truthy nxt \<and> absorbs cfg source corrected (source @ [32] @ the nxt)
      then reject source ''absorbs_next_line'' f3
      else if truthy prev \<and> absorbs cfg source corrected (the prev @ [32] @ source)
      then reject source ''absorbs_previous_line'' f3
      else \<lparr>accepted = True, accepted_text = corrected, reason = None, features = Some f3\<rparr>)"

section \<open>Adjacent duplicates\<close>

type_synonym 'k seam_entry = "'k \<times> ptext \<times> ptext"

definition duplicated :: "guard_config \<Rightarrow> 'k seam_entry \<Rightarrow> 'k seam_entry \<Rightarrow> bool" where
  "duplicated cfg a b =
     (let (id_a, src_a, cor_a) = a; (id_b, src_b, cor_b) = b in
      if similarity cor_a cor_b < duplicate_threshold cfg then False
      else if similarity src_a src_b \<ge> duplicate_source_min_diff cfg then False
      else True)"

fun duplicates_from ::
  "guard_config \<Rightarrow> ('k, string) dict \<Rightarrow> 'k seam_entry list \<Rightarrow> ('k, string) dict" where
  "duplicates_from cfg revert (a # b # rest) =
     (if fst b \<in> fst ` set revert then duplicates_from cfg revert (b # rest)
      else if duplicated cfg a b
      then duplicates_from cfg
             (dict_set (fst b) ''adjacent_duplicate_detected''
               (dict_set (fst a) ''adjacent_duplicate_detected'' revert)) (b # rest)
      else duplicates_from cfg revert (b # rest))"
| "duplicates_from cfg revert _ = revert"

definition check_adjacent_duplicates ::
  "guard_config \<Rightarrow> 'k seam_entry list \<Rightarrow> ('k, string) dict" where
  "check_adjacent_duplicates cfg lines = duplicates_from cfg [] lines"

section \<open>Words that cross a seam\<close>

definition word_migrated_across_seam ::
  "guard_config \<Rightarrow> ptext \<Rightarrow> ptext \<Rightarrow> ptext \<Rightarrow> bool \<Rightarrow> bool" where
  "word_migrated_across_seam cfg cor_word own_src neighbour neighbour_first =
     (if cor_word = [] \<or> own_src = [] \<or> neighbour = [] then False
      else if cor_word = own_src then False
      else
        (let joined = (if neighbour_first then neighbour @ own_src else own_src @ neighbour);
             sim_joined = similarity cor_word joined
         in if sim_joined \<le> absorption_concat_similarity cfg then False
            else sim_joined > similarity cor_word own_src + neighbour_margin cfg))"

definition whole_word_crossed_the_seam ::
  "unicode \<Rightarrow> ptext list \<Rightarrow> ptext list \<Rightarrow> ptext list \<Rightarrow> ptext list \<Rightarrow> bool" where
  "whole_word_crossed_the_seam u wa_src wa_cor wb_src wb_cor =
     (if wa_cor = [] \<or> wb_cor = [] then False
      else
        (let a_last_src = ncfold u (last wa_src); a_last_cor = ncfold u (last wa_cor);
             b_first_src = ncfold u (hd wb_src); b_first_cor = ncfold u (hd wb_cor)
         in if a_last_cor = b_first_src \<and> a_last_cor \<noteq> a_last_src \<and> b_first_cor \<noteq> b_first_src
            then True
            else b_first_cor = a_last_src \<and> b_first_cor \<noteq> b_first_src \<and> a_last_cor \<noteq> a_last_src))"

text \<open>One turn of the loop: the reason to revert both sides, if any.\<close>

definition seam_migration ::
  "unicode \<Rightarrow> guard_config \<Rightarrow> 'k seam_entry \<Rightarrow> 'k seam_entry \<Rightarrow> string option" where
  "seam_migration u cfg a b =
     (let (id_a, src_a, cor_a) = a; (id_b, src_b, cor_b) = b;
          wa_src = py_split src_a; wa_cor = py_split cor_a;
          wb_src = py_split src_b; wb_cor = py_split cor_b
      in
      if wa_src = [] \<or> wb_src = [] then None
      else
        (let forward = (wa_cor \<noteq> [] \<and>
               word_migrated_across_seam cfg (last wa_cor) (last wa_src) (hd wb_src) False);
             backward = (wb_cor \<noteq> [] \<and>
               word_migrated_across_seam cfg (hd wb_cor) (hd wb_src) (last wa_src) True);
             moved = whole_word_crossed_the_seam u wa_src wa_cor wb_src wb_cor
         in if forward \<or> backward \<or> moved
            then Some (if forward \<or> moved then ''boundary_migration_forward''
                       else ''boundary_migration_backward'')
            else None))"

fun migrations_from ::
  "unicode \<Rightarrow> guard_config \<Rightarrow> ('k, string) dict \<Rightarrow> 'k seam_entry list \<Rightarrow> ('k, string) dict" where
  "migrations_from u cfg revert (a # b # rest) =
     (case seam_migration u cfg a b of
        None \<Rightarrow> migrations_from u cfg revert (b # rest)
      | Some why \<Rightarrow>
          migrations_from u cfg (dict_set (fst b) why (dict_set (fst a) why revert)) (b # rest))"
| "migrations_from u cfg revert _ = revert"

definition check_boundary_migration ::
  "unicode \<Rightarrow> guard_config \<Rightarrow> 'k seam_entry list \<Rightarrow> ('k, string) dict" where
  "check_boundary_migration u cfg lines = migrations_from u cfg [] lines"

section \<open>Facts: similarity\<close>

lemma similarity_range: "0 \<le> similarity a b" "similarity a b \<le> 1"
  by (simp_all add: similarity_def)

lemma similarity_eq_ratio: "similarity a b = ratio a b"
  by (auto simp: similarity_def ratio_Nil)

lemma similarity_eq_1: "similarity a b = 1 \<longleftrightarrow> a = b"
  by (simp add: similarity_eq_ratio ratio_eq_1_iff)

section \<open>Facts: one line\<close>

lemma check_line_rejects:
  assumes "\<not> accepted (check_line cfg source corrected prev nxt)"
  shows "accepted_text (check_line cfg source corrected prev nxt) = source"
    "reason (check_line cfg source corrected prev nxt) \<noteq> None"
  using assms by (auto simp: check_line_def Let_def reject_def split: if_splits)

lemma check_line_accepted_iff:
  "accepted (check_line cfg source corrected prev nxt) \<longleftrightarrow>
     corrected = source \<or>
     min_source_similarity cfg \<le> similarity source corrected \<and>
     (\<forall>p. prev = Some p \<longrightarrow>
        similarity p corrected \<le> similarity source corrected + neighbour_margin cfg) \<and>
     (\<forall>n. nxt = Some n \<longrightarrow>
        similarity n corrected \<le> similarity source corrected + neighbour_margin cfg) \<and>
     (\<forall>n. nxt = Some n \<and> n \<noteq> [] \<longrightarrow> \<not> absorbs cfg source corrected (source @ [32] @ n)) \<and>
     (\<forall>p. prev = Some p \<and> p \<noteq> [] \<longrightarrow> \<not> absorbs cfg source corrected (p @ [32] @ source))"
proof (cases "corrected = source")
  case True
  then show ?thesis by (simp add: check_line_def)
next
  case False
  then show ?thesis
    by (cases prev; cases nxt) (auto simp: check_line_def Let_def reject_def)
qed

lemma check_line_accepts:
  assumes "accepted (check_line cfg source corrected prev nxt)"
  shows "accepted_text (check_line cfg source corrected prev nxt) = corrected"
    "reason (check_line cfg source corrected prev nxt) = None"
  using assms by (auto simp: check_line_def Let_def reject_def split: if_splits)

section \<open>The contract of a seam pass\<close>

definition seams :: "'a list \<Rightarrow> ('a \<times> 'a) list" where
  "seams xs = zip xs (tl xs)"

locale seam_pass =
  fixes pass :: "'k seam_entry list \<Rightarrow> ('k, string) dict"
    and hit :: "'k seam_entry \<Rightarrow> 'k seam_entry \<Rightarrow> bool"
  assumes flagged_iff: "distinct (map fst ls) \<Longrightarrow>
    k \<in> fst ` set (pass ls) \<longleftrightarrow>
      (\<exists>a b. (a, b) \<in> set (seams ls) \<and> hit a b \<and> (k = fst a \<or> k = fst b))"
begin

lemma both_sides:
  assumes "distinct (map fst ls)" "(a, b) \<in> set (seams ls)" "hit a b"
  shows "fst a \<in> fst ` set (pass ls)" "fst b \<in> fst ` set (pass ls)"
  using assms flagged_iff by blast+

lemma survivor_seams_clean:
  assumes "distinct (map fst ls)" "(a, b) \<in> set (seams ls)"
    and "fst a \<notin> fst ` set (pass ls) \<or> fst b \<notin> fst ` set (pass ls)"
  shows "\<not> hit a b"
  using assms both_sides by blast

lemma flags_are_lines:
  assumes "distinct (map fst ls)" shows "fst ` set (pass ls) \<subseteq> fst ` set ls"
proof
  fix k assume "k \<in> fst ` set (pass ls)"
  with flagged_iff [OF assms] obtain a b where
    "(a, b) \<in> set (seams ls)" "k = fst a \<or> k = fst b" by blast
  then show "k \<in> fst ` set ls"
    by (auto simp: seams_def dest: set_zip_leftD set_zip_rightD subsetD [OF set_tl_subset])
qed

lemma no_seams: "length ls < 2 \<Longrightarrow> fst ` set (pass ls) = {}"
proof -
  assume "length ls < 2"
  then have "ls = [] \<or> (\<exists>x. ls = [x])" by (cases ls rule: remdups_adj.cases) auto
  then have d: "distinct (map fst ls)" and s: "seams ls = []" by (auto simp: seams_def)
  show ?thesis using flagged_iff [OF d] s by (intro equals0I) simp
qed

end

lemma seams_simps [simp]:
  "seams [] = []" "seams [x] = []" "seams (x # y # zs) = (x, y) # seams (y # zs)"
  by (simp_all add: seams_def)

definition flagged_by :: "('e \<Rightarrow> 'k) \<Rightarrow> ('e \<Rightarrow> 'e \<Rightarrow> bool) \<Rightarrow> 'e list \<Rightarrow> 'k set" where
  "flagged_by key hit ls =
     {k. \<exists>a b. (a, b) \<in> set (seams ls) \<and> hit a b \<and> (k = key a \<or> k = key b)}"

lemma flagged_by_simps [simp]:
  "flagged_by key hit [] = {}" "flagged_by key hit [x] = {}"
  "flagged_by key hit (a # b # rest) =
     (if hit a b then {key a, key b} else {}) \<union> flagged_by key hit (b # rest)"
  by (auto simp: flagged_by_def)

lemma duplicates_from_keys:
  "\<lbrakk>distinct (map fst ls); fst ` set revert \<inter> fst ` set (tl ls) = {}\<rbrakk> \<Longrightarrow>
   fst ` set (duplicates_from cfg revert ls) = fst ` set revert \<union> flagged_by fst (duplicated cfg) ls"
proof (induction cfg revert ls rule: duplicates_from.induct)
  case (1 cfg revert a b rest)
  have fresh: "fst b \<notin> fst ` set revert" using 1(5) by auto
  show ?case
  proof (cases "duplicated cfg a b")
    case True
    let ?r = "dict_set (fst b) ''adjacent_duplicate_detected''
               (dict_set (fst a) ''adjacent_duplicate_detected'' revert)"
    have "fst ` set ?r \<inter> fst ` set (tl (b # rest)) = {}" using 1(4,5) by auto
    then have "fst ` set (duplicates_from cfg ?r (b # rest))
        = fst ` set ?r \<union> flagged_by fst (duplicated cfg) (b # rest)"
      using 1(2) [OF fresh True] 1(4) by simp
    with fresh True show ?thesis by auto
  next
    case False
    have "fst ` set revert \<inter> fst ` set (tl (b # rest)) = {}" using 1(5) by auto
    then have "fst ` set (duplicates_from cfg revert (b # rest))
        = fst ` set revert \<union> flagged_by fst (duplicated cfg) (b # rest)"
      using 1(3) [OF fresh False] 1(4) by simp
    with fresh False show ?thesis by simp
  qed
qed simp_all

lemma migrations_from_keys:
  "fst ` set (migrations_from u cfg revert ls)
     = fst ` set revert \<union> flagged_by fst (\<lambda>a b. seam_migration u cfg a b \<noteq> None) ls"
  by (induction u cfg revert ls rule: migrations_from.induct) (auto split: option.splits)

interpretation duplicates: seam_pass "check_adjacent_duplicates cfg" "duplicated cfg"
proof unfold_locales
  fix ls :: "'a seam_entry list" and k
  assume d: "distinct (map fst ls)"
  have "fst ` set (check_adjacent_duplicates cfg ls) = flagged_by fst (duplicated cfg) ls"
    using duplicates_from_keys [OF d, of "[]" cfg] by (simp add: check_adjacent_duplicates_def)
  then show "k \<in> fst ` set (check_adjacent_duplicates cfg ls) \<longleftrightarrow>
      (\<exists>a b. (a, b) \<in> set (seams ls) \<and> duplicated cfg a b \<and> (k = fst a \<or> k = fst b))"
    by (simp add: flagged_by_def)
qed

interpretation migrations: seam_pass
  "check_boundary_migration u cfg" "\<lambda>a b. seam_migration u cfg a b \<noteq> None"
proof unfold_locales
  fix ls :: "'a seam_entry list" and k
  have "fst ` set (check_boundary_migration u cfg ls)
      = flagged_by fst (\<lambda>a b. seam_migration u cfg a b \<noteq> None) ls"
    using migrations_from_keys [of u cfg "[]" ls] by (simp add: check_boundary_migration_def)
  then show "k \<in> fst ` set (check_boundary_migration u cfg ls) \<longleftrightarrow>
      (\<exists>a b. (a, b) \<in> set (seams ls) \<and> seam_migration u cfg a b \<noteq> None \<and>
         (k = fst a \<or> k = fst b))"
    by (simp add: flagged_by_def)
qed

section \<open>A word that moves whole\<close>

text \<open>Either verdict of a seam, spelled on the boundary words of the two lines.\<close>

lemma seam_migration_moved:
  assumes "py_split src_a \<noteq> []" "py_split src_b \<noteq> []"
    and "whole_word_crossed_the_seam u (py_split src_a) (py_split cor_a)
           (py_split src_b) (py_split cor_b)"
  shows "seam_migration u cfg (ka, src_a, cor_a) (kb, src_b, cor_b)
     = Some ''boundary_migration_forward''"
  using assms by (simp add: seam_migration_def Let_def)

lemma seam_migration_untouched:
  assumes "cor_a = src_a" "cor_b = src_b"
  shows "seam_migration u cfg (ka, src_a, cor_a) (kb, src_b, cor_b) = None"
  using assms
  by (auto simp: seam_migration_def Let_def word_migrated_across_seam_def
      whole_word_crossed_the_seam_def)

section \<open>Properties\<close>

text \<open>A line check keeps the correction or returns the source, never a third text; a
  rejection names its reason; and acceptance holds exactly when the correction equals the
  source, or it is close enough to the source, no closer to a neighbour by the margin, and not
  the source run together with a neighbour.\<close>

theorem check_line_spec:
  "let r = check_line cfg source corrected prev nxt in
   accepted_text r = (if accepted r then corrected else source) \<and>
   (reason r = None) = accepted r \<and>
   accepted r =
     (corrected = source \<or>
      min_source_similarity cfg \<le> similarity source corrected \<and>
      (case prev of None \<Rightarrow> True | Some p \<Rightarrow>
         similarity p corrected \<le> similarity source corrected + neighbour_margin cfg \<and>
         \<not> (p \<noteq> [] \<and> absorbs cfg source corrected (p @ [32] @ source))) \<and>
      (case nxt of None \<Rightarrow> True | Some n \<Rightarrow>
         similarity n corrected \<le> similarity source corrected + neighbour_margin cfg \<and>
         \<not> (n \<noteq> [] \<and> absorbs cfg source corrected (source @ [32] @ n))))"
proof -
  let ?r = "check_line cfg source corrected prev nxt"
  have "accepted_text ?r = (if accepted ?r then corrected else source)"
    "(reason ?r = None) = accepted ?r"
    using check_line_accepts check_line_rejects by (cases "accepted ?r"; metis)+
  then show ?thesis
    unfolding Let_def check_line_accepted_iff by (auto split: option.split)
qed

text \<open>The duplicate pass flags exactly the two lines of every seam whose corrections are
  near copies of each other while their sources are not, in runs of any length.\<close>

theorem adjacent_duplicates_exact:
  assumes "distinct (map fst ls)"
  shows "k \<in> fst ` set (check_adjacent_duplicates cfg ls) \<longleftrightarrow>
    (\<exists>a b. (a, b) \<in> set (seams ls) \<and> duplicated cfg a b \<and> (k = fst a \<or> k = fst b))"
  by (rule duplicates.flagged_iff [OF assms])

text \<open>Three equal corrections of three different sources: the third is reverted too.\<close>

lemma adjacent_duplicates_exact_witness:
  "let ls = [(1::int, tx ''alpha'', tx ''same''), (2, tx ''beta'', tx ''same''),
             (3, tx ''gamma'', tx ''same'')]
   in 3 \<in> fst ` set (check_adjacent_duplicates DEFAULT_GUARD_CONFIG ls)"
proof -
  define ls where "ls = [(1::int, tx ''alpha'', tx ''same''), (2, tx ''beta'', tx ''same''),
             (3, tx ''gamma'', tx ''same'')]"
  have "distinct (map fst ls)" by (simp add: ls_def)
  note iff = adjacent_duplicates_exact [OF this, of 3 DEFAULT_GUARD_CONFIG]
  have "((2, tx ''beta'', tx ''same''), (3, tx ''gamma'', tx ''same'')) \<in> set (seams ls)"
    by (simp add: ls_def)
  moreover have "duplicated DEFAULT_GUARD_CONFIG (2::int, tx ''beta'', tx ''same'')
      (3, tx ''gamma'', tx ''same'')" by code_simp
  ultimately have "3 \<in> fst ` set (check_adjacent_duplicates DEFAULT_GUARD_CONFIG ls)"
    unfolding iff by force
  then show ?thesis by (simp add: Let_def ls_def)
qed

text \<open>The seam pass flags exactly the two lines of every seam the migration verdict hits, and
  the verdict never hits a seam whose two lines are as they were.\<close>

theorem boundary_migration_exact:
  assumes "distinct (map fst ls)"
  shows "k \<in> fst ` set (check_boundary_migration u cfg ls) \<longleftrightarrow>
    (\<exists>a b. (a, b) \<in> set (seams ls) \<and> (k = fst a \<or> k = fst b) \<and>
       seam_migration u cfg a b \<noteq> None \<and>
       (fst (snd a), fst (snd b)) \<noteq> (snd (snd a), snd (snd b)))"
proof -
  have changed: "(fst (snd a), fst (snd b)) \<noteq> (snd (snd a), snd (snd b))"
    if "seam_migration u cfg a b \<noteq> None" for a b :: "'a seam_entry"
    using that seam_migration_untouched by (metis prod.collapse prod.inject)
  show ?thesis using migrations.flagged_iff [OF assms, of k u cfg] changed by blast
qed

lemma boundary_migration_exact_witness:
  "let ls = [(1::int, tx ''to re'', tx ''to resound''), (2, tx ''sound on'', tx ''on'')]
   in 1 \<in> fst ` set (check_boundary_migration ascii_unicode DEFAULT_GUARD_CONFIG ls)"
proof -
  define ls where "ls = [(1::int, tx ''to re'', tx ''to resound''), (2, tx ''sound on'', tx ''on'')]"
  have "distinct (map fst ls)" by (simp add: ls_def)
  note iff = boundary_migration_exact [OF this, of 1 ascii_unicode DEFAULT_GUARD_CONFIG]
  have "seam_migration ascii_unicode DEFAULT_GUARD_CONFIG
      (1::int, tx ''to re'', tx ''to resound'') (2, tx ''sound on'', tx ''on'') \<noteq> None" by code_simp
  then have "1 \<in> fst ` set (check_boundary_migration ascii_unicode DEFAULT_GUARD_CONFIG ls)"
    unfolding iff by (force simp: ls_def tx_def)
  then show ?thesis by (simp add: Let_def ls_def)
qed

text \<open>A word moved whole across a seam reverts both lines: the upper line now ends in the
  lower line's first word, it did not before, and the lower line no longer begins with it.\<close>

theorem moved_word_reverts_both:
  assumes "distinct (map fst ls)" "((ka, src_a, cor_a), (kb, src_b, cor_b)) \<in> set (seams ls)"
    and words: "py_split src_a \<noteq> []" "py_split cor_a \<noteq> []" "py_split src_b \<noteq> []" "py_split cor_b \<noteq> []"
    and "ncfold u (last (py_split cor_a)) = ncfold u (hd (py_split src_b))"
    and "ncfold u (last (py_split cor_a)) \<noteq> ncfold u (last (py_split src_a))"
    and "ncfold u (hd (py_split cor_b)) \<noteq> ncfold u (hd (py_split src_b))"
  shows "{ka, kb} \<subseteq> fst ` set (check_boundary_migration u cfg ls)"
proof -
  have "whole_word_crossed_the_seam u (py_split src_a) (py_split cor_a) (py_split src_b) (py_split cor_b)"
    using assms by (simp add: whole_word_crossed_the_seam_def Let_def)
  from seam_migration_moved [OF words(1,3) this, of cfg ka kb]
  have "seam_migration u cfg (ka, src_a, cor_a) (kb, src_b, cor_b) \<noteq> None" by simp
  from migrations.both_sides [OF assms(1,2) this] show ?thesis by simp
qed

lemma moved_word_reverts_both_witness:
  "{1, 2} \<subseteq> fst ` set (check_boundary_migration ascii_unicode DEFAULT_GUARD_CONFIG
     [(1::int, tx ''to wait'', tx ''to wait long''), (2, tx ''long now'', tx ''now'')])"
  by (rule moved_word_reverts_both [of _ _ "tx ''to wait''" "tx ''to wait long''" _
        "tx ''long now''" "tx ''now''"]) (simp, simp, code_simp+)

text \<open>The similarity of two texts lies between 0 and 1 and is 1 exactly for equal texts,
  but it is not symmetric.\<close>

theorem similarity_spec:
  "0 \<le> similarity a b \<and> similarity a b \<le> 1 \<and> (similarity a b = 1) = (a = b) \<and>
   similarity (tx ''tide'') (tx ''diet'') = 1/4 \<and> similarity (tx ''diet'') (tx ''tide'') = 1/2"
proof -
  have "similarity (tx ''tide'') (tx ''diet'') = 1/4" "similarity (tx ''diet'') (tx ''tide'') = 1/2"
    by code_simp+
  then show ?thesis by (simp add: similarity_range similarity_eq_1)
qed

end
