(* ===== verification/Edit_Distance.thy ===== *)
theory Edit_Distance
  imports Difflib
begin

text \<open>
  The edit distance (Levenshtein), the abstract measure that two components are held against:
  the two-row table of \<open>char_similarity\<close> (\<open>core/alignment.py\<close>) computes it, and the
  changed-character budget of \<open>core/editing.py\<close> bounds it.
\<close>

fun ed :: "'a list \<Rightarrow> 'a list \<Rightarrow> nat" where
  "ed [] ys = length ys"
| "ed (x # xs) [] = Suc (length xs)"
| "ed (x # xs) (y # ys) =
     min (min (Suc (ed xs (y # ys))) (Suc (ed (x # xs) ys))) (ed xs ys + (if x = y then 0 else 1))"

lemma ed_Nil2 [simp]: "ed xs [] = length xs"
  by (cases xs) auto

lemma ed_self [simp]: "ed xs xs = 0"
  by (induction xs) auto

lemma ed_sym: "ed xs ys = ed ys xs"
  by (induction xs ys rule: ed.induct) (auto simp: min.commute min.left_commute)

lemma ed_insert: "ed xs (y # ys) \<le> Suc (ed xs ys)"
  by (cases xs) auto

lemma ed_delete: "ed (x # xs) ys \<le> Suc (ed xs ys)"
  by (metis ed_insert ed_sym)

lemma ed_same: "ed (x # xs) (y # ys) \<le> ed xs ys + (if x = y then 0 else 1)"
  by simp

lemma ed_prepend: "ed xs (zs @ ys) \<le> length zs + ed xs ys"
proof (induction zs)
  case (Cons z zs)
  have "ed xs (z # (zs @ ys)) \<le> Suc (ed xs (zs @ ys))" by (rule ed_insert)
  with Cons show ?case by simp
qed simp

text \<open>The distance of two concatenations is at most the sum of the distances.\<close>

lemma ed_append: "ed (a @ c) (b @ d) \<le> ed a b + ed c d"
proof (induction a b rule: ed.induct)
  case (1 ys)
  then show ?case using ed_prepend [of c ys d] by simp
next
  case (2 x xs)
  then show ?case using ed_prepend [of d "x # xs" c] by (simp add: ed_sym [of _ d])
next
  case (3 x xs y ys)
  have "ed (x # (xs @ c)) (y # (ys @ d)) \<le> Suc (ed (xs @ c) (y # (ys @ d)))"
    "ed (x # (xs @ c)) (y # (ys @ d)) \<le> Suc (ed (x # (xs @ c)) (ys @ d))"
    "ed (x # (xs @ c)) (y # (ys @ d)) \<le> ed (xs @ c) (ys @ d) + (if x = y then 0 else 1)"
    by (rule ed_delete, rule ed_insert, rule ed_same)
  with 3 show ?case by (auto simp: min_def split: if_splits)
qed

lemma ed_rev_le: "ed (rev a) (rev b) \<le> ed a b"
proof (induction a b rule: ed.induct)
  case (3 x xs y ys)
  have "ed (rev xs @ [x]) (rev (y # ys)) \<le> ed (rev xs) (rev (y # ys)) + 1"
    using ed_append [of "rev xs" "[x]" "rev (y # ys)" "[]"] by simp
  moreover have "ed (rev (x # xs)) (rev ys @ [y]) \<le> ed (rev (x # xs)) (rev ys) + 1"
    using ed_append [of "rev (x # xs)" "[]" "rev ys" "[y]"] by simp
  moreover have "ed (rev xs @ [x]) (rev ys @ [y]) \<le> ed (rev xs) (rev ys) + (if x = y then 0 else 1)"
    using ed_append [of "rev xs" "[x]" "rev ys" "[y]"] by simp
  ultimately show ?case using 3 by (auto simp: min_def split: if_splits)
qed auto

lemma ed_rev [simp]: "ed (rev a) (rev b) = ed a b"
  using ed_rev_le [of a b] ed_rev_le [of "rev a" "rev b"] by simp

text \<open>The recurrence at the end of the lists, which the table follows.\<close>

lemma ed_snoc:
  "ed (xs @ [x]) (ys @ [y]) =
     min (min (Suc (ed xs (ys @ [y]))) (Suc (ed (xs @ [x]) ys))) (ed xs ys + (if x = y then 0 else 1))"
proof -
  have "ed (xs @ [x]) (ys @ [y]) = ed (x # rev xs) (y # rev ys)"
    using ed_rev [of "xs @ [x]" "ys @ [y]"] by simp
  moreover have "ed (rev xs) (y # rev ys) = ed xs (ys @ [y])"
    using ed_rev [of xs "ys @ [y]"] by simp
  moreover have "ed (x # rev xs) (rev ys) = ed (xs @ [x]) ys"
    using ed_rev [of "xs @ [x]" ys] by simp
  ultimately show ?thesis by simp
qed

lemma ed_le_max: "ed xs ys \<le> max (length xs) (length ys)"
proof (induction xs ys rule: ed.induct)
  case (3 x xs y ys)
  then show ?case using ed_same [of x xs y ys] by (auto simp del: ed.simps split: if_splits)
qed auto

lemma ed_0_iff: "ed xs ys = 0 \<longleftrightarrow> xs = ys"
  by (induction xs ys rule: ed.induct) (auto simp: min_def split: if_splits)

text \<open>A common prefix and a common suffix cost nothing.\<close>

lemma ed_common_ends: "ed (p @ a @ s) (p @ b @ s) \<le> ed a b"
proof -
  have "ed (p @ (a @ s)) (p @ (b @ s)) \<le> ed p p + ed (a @ s) (b @ s)" by (rule ed_append)
  also have "ed (a @ s) (b @ s) \<le> ed a b + ed s s" by (rule ed_append)
  finally show ?thesis by simp
qed

end
