(* ===== verification/Editing.thy ===== *)
theory Editing
  imports Pairing Edit_Distance
begin

text \<open>
  \<open>core/editing.py\<close>, the edit protocol: whole-line and span operations, the normalisation of
  their anchors, the structural and drift invariants E1 to E5, and the application of a script
  to canonical line texts. SHA-256 is a parameter: the digest of a text is compared for
  equality and nothing else is used of it.

  Facts: an accepted text is one line, not blank, keeps its break mark where its line breaks a
  word, and lies within the changed-character budget in edit distance, for whole-line and span
  proposals alike; spans applied right to left are the simultaneous replacement; an operation
  on a line outside the targets is reported and changes nothing.
\<close>

section \<open>Anchors, operations, scripts\<close>

datatype anchor =
    RangeAnchor int int
  | MatchAnchor ptext "int option"

datatype edit_op =
    ReplaceLine (op_line_id: ident) (op_text: ptext) (op_page_id: "ident option")
      (producer_confidence: "rat option")
  | ReplaceSpan (op_line_id: ident) (op_anchor: anchor) (op_text: ptext)
      (op_page_id: "ident option")

fun op_name :: "edit_op \<Rightarrow> string" where
  "op_name (ReplaceLine _ _ _ _) = ''replace_line''"
| "op_name (ReplaceSpan _ _ _ _) = ''replace_span''"

fun is_line_op :: "edit_op \<Rightarrow> bool" where
  "is_line_op (ReplaceLine _ _ _ _) = True"
| "is_line_op (ReplaceSpan _ _ _ _) = False"

record line_precondition =
  pc_line_id :: ident
  pc_page_id :: "ident option"
  pc_digest :: string

record edit_script =
  ops :: "edit_op list"
  protocol_version :: "string option"
  source_digests :: "(ident, ident) dict"
  preconditions :: "line_precondition list"

record edit_rejection =
  rj_line_id :: ident
  rj_op :: string
  rj_reason :: string

record edit_result =
  text_by_id :: "(ident, ptext) dict"
  rejected :: "edit_rejection list"

definition EDIT_PROTOCOL_VERSION :: string where
  "EDIT_PROTOCOL_VERSION = ''1''"

definition line_digest :: "(ptext \<Rightarrow> string) \<Rightarrow> ptext \<Rightarrow> string" where
  "line_digest sha256_hex t = take 16 (sha256_hex t)"

section \<open>Anchor normalisation\<close>

text \<open>The loop that collects every start, overlapping ones included.\<close>

function find_starts :: "ptext \<Rightarrow> ptext \<Rightarrow> nat \<Rightarrow> nat list" where
  "find_starts match s i =
     (case py_find match s i of None \<Rightarrow> [] | Some j \<Rightarrow> j # find_starts match s (Suc j))"
  by pat_completeness auto
termination
  by (relation "measure (\<lambda>(match, s, i). Suc (length s) - i)") (auto dest!: py_find_range)

declare find_starts.simps [simp del]

definition normalize_anchor :: "anchor \<Rightarrow> ptext \<Rightarrow> string + (nat \<times> nat)" where
  "normalize_anchor a canonical =
     (case a of
        RangeAnchor st en \<Rightarrow>
          (if 0 \<le> st \<and> st \<le> en \<and> en \<le> int (length canonical)
           then Inr (nat st, nat en) else Inl ''anchor_out_of_range'')
      | MatchAnchor match occurrence \<Rightarrow>
          (if match = [] then Inl ''anchor_empty_match''
           else
            (let starts = find_starts match canonical 0 in
             if starts = [] then Inl ''anchor_not_found''
             else (case occurrence of
                None \<Rightarrow>
                  (if length starts > 1 then Inl ''anchor_ambiguous''
                   else Inr (hd starts, hd starts + length match))
              | Some k \<Rightarrow>
                  (if k < 0 \<or> k \<ge> int (length starts) then Inl ''anchor_out_of_range''
                   else Inr (starts ! nat k, starts ! nat k + length match))))))"

section \<open>Drift\<close>

text \<open>The differing window left after the common prefix and then the common suffix.\<close>

definition changed_chars :: "ptext \<Rightarrow> ptext \<Rightarrow> nat" where
  "changed_chars original replacement =
     (if original = replacement then 0
      else
        (let p = common_prefix original replacement;
             s = common_prefix (rev (drop p original)) (rev (drop p replacement))
         in max (length original) (length replacement) - p - s))"

definition e5_hyphen_ok :: "hyphen_role \<Rightarrow> ptext \<Rightarrow> ptext \<Rightarrow> bool" where
  "e5_hyphen_ok role result_text source =
     (if opens_unit role then
        (let stripped = py_rstrip result_text;
             before_mark = strip_trailing_break_marks stripped
         in
         if \<not> ends_in (set HYPHEN_CHARS) stripped then False
         else if before_mark = [] then False
         else if is_space (last before_mark) \<and>
           \<not> ends_in {32} (strip_trailing_break_marks (py_rstrip source))
         then False
         else True)
      else True)"

definition first_word_range :: "ptext \<Rightarrow> (nat \<times> nat) option" where
  "first_word_range t =
     (let start = length (takeWhile is_space t) in
      if start \<ge> length t then None
      else Some (start, start + length (takeWhile (\<lambda>c. \<not> is_space c) (drop start t))))"

type_synonym span = "(nat \<times> nat) \<times> ptext"

definition e5b_boundary_word_kept :: "hyphen_role \<Rightarrow> ptext \<Rightarrow> span list \<Rightarrow> bool" where
  "e5b_boundary_word_kept role canonical accepted_spans =
     (if \<not> closes_unit role then True
      else (case first_word_range canonical of
         None \<Rightarrow> True
       | Some (st, en) \<Rightarrow>
           \<not> list_ex (\<lambda>((a, b), r). a \<le> st \<and> b \<ge> en \<and> py_strip r = []) accepted_spans))"

text \<open>\<open>sorted(..., reverse=True)\<close> keeps equal starts in their order.\<close>

definition apply_spans :: "ptext \<Rightarrow> span list \<Rightarrow> ptext" where
  "apply_spans canonical ranges =
     foldl (\<lambda>t ((a, b), r). take a t @ r @ drop b t) canonical
       (rev (sort_key (\<lambda>((a, b), r). a) (rev ranges)))"

definition whole_line_drift_refusal ::
  "hyphen_role \<Rightarrow> ptext \<Rightarrow> ptext \<Rightarrow> guard_config \<Rightarrow> string option" where
  "whole_line_drift_refusal role canonical t guard =
     (if int (changed_chars canonical t) > edit_line_max_changed_chars guard
      then Some ''e4_line_budget''
      else if \<not> e5_hyphen_ok role t canonical then Some ''e5_hyphen''
      else None)"

definition whole_line_verdict ::
  "edit_op list \<Rightarrow> edit_op list \<Rightarrow> hyphen_role \<Rightarrow> ptext \<Rightarrow> guard_config \<Rightarrow> ptext \<times> string option" where
  "whole_line_verdict line_ops span_ops role canonical guard =
     (if length line_ops > 1 \<or> span_ops \<noteq> [] then ([], Some ''conflict'')
      else
        (let t = op_text (hd line_ops) in
         if has_line_separator t then (t, Some ''e3_newline'')
         else if py_strip t = [] then (t, Some ''e3_empty'')
         else (t, whole_line_drift_refusal role canonical t guard)))"

definition e5_refusal :: "hyphen_role \<Rightarrow> ptext \<Rightarrow> ptext \<Rightarrow> span list \<Rightarrow> string option" where
  "e5_refusal role canonical result accepted_spans =
     (if \<not> e5_hyphen_ok role result canonical then Some ''e5_hyphen''
      else if \<not> e5b_boundary_word_kept role canonical accepted_spans then Some ''e5_boundary_word''
      else None)"

section \<open>One line's operations\<close>

definition refuse :: "ident \<Rightarrow> string \<Rightarrow> string \<Rightarrow> edit_rejection" where
  "refuse lid opn why = \<lparr>rj_line_id = lid, rj_op = opn, rj_reason = why\<rparr>"

text \<open>The first loop over the spans: E3, the anchor, and the growth ratio of E4.\<close>

fun normalize_spans ::
  "guard_config \<Rightarrow> ident \<Rightarrow> ptext \<Rightarrow> edit_op list \<Rightarrow> span list \<times> edit_rejection list" where
  "normalize_spans guard lid canonical [] = ([], [])"
| "normalize_spans guard lid canonical (sp # sps) =
     (let (spans, rej) = normalize_spans guard lid canonical sps;
          anc = (case sp of ReplaceSpan _ a _ _ \<Rightarrow> a | ReplaceLine _ _ _ _ \<Rightarrow> RangeAnchor 1 0)
      in
      if has_line_separator (op_text sp)
      then (spans, refuse lid ''replace_span'' ''e3_newline'' # rej)
      else (case normalize_anchor anc canonical of
         Inl why \<Rightarrow> (spans, refuse lid ''replace_span'' why # rej)
       | Inr (a, b) \<Rightarrow>
           if of_nat (length (op_text sp)) > edit_span_max_growth_ratio guard * of_nat (max 1 (b - a))
           then (spans, refuse lid ''replace_span'' ''e4_span_growth'' # rej)
           else (((a, b), op_text sp) # spans, rej)))"

text \<open>The second loop: E2, on spans in ascending order; \<open>prev\<close> is the accepted span before.\<close>

fun accept_spans ::
  "ident \<Rightarrow> (nat \<times> nat) option \<Rightarrow> span list \<Rightarrow> span list \<times> edit_rejection list" where
  "accept_spans lid prev [] = ([], [])"
| "accept_spans lid prev (((a, b), t) # sps) =
     (if (case prev of None \<Rightarrow> False | Some (pa, pb) \<Rightarrow> a < pb \<or> a = pa)
      then (let (acc, rej) = accept_spans lid prev sps
            in (acc, refuse lid ''replace_span'' ''e2_overlap'' # rej))
      else (let (acc, rej) = accept_spans lid (Some (a, b)) sps in (((a, b), t) # acc, rej)))"

definition span_changes :: "ptext \<Rightarrow> span list \<Rightarrow> nat" where
  "span_changes canonical acc =
     sum_list (map (\<lambda>((a, b), t). changed_chars (slice a b canonical) t) acc)"

definition sort_spans :: "span list \<Rightarrow> span list" where
  "sort_spans sps = sort_key (\<lambda>((a, b), t). a) (sort_key (\<lambda>((a, b), t). b) sps)"

definition apply_line_ops ::
  "ident \<Rightarrow> edit_op list \<Rightarrow> ptext \<Rightarrow> hyphen_role \<Rightarrow> guard_config \<Rightarrow>
   ptext option \<times> edit_rejection list" where
  "apply_line_ops lid lops canonical role guard =
     (let line_ops = filter is_line_op lops;
          span_ops = filter (\<lambda>x. \<not> is_line_op x) lops
      in
      if line_ops \<noteq> [] then
        (case whole_line_verdict line_ops span_ops role canonical guard of
           (t, Some why) \<Rightarrow> (None, [refuse lid ''replace_line'' why])
         | (t, None) \<Rightarrow> (Some t, []))
      else
        (let (normalized, rej1) = normalize_spans guard lid canonical span_ops in
         if normalized = [] then (None, rej1)
         else
           (let (acc, rej2) = accept_spans lid None (sort_spans normalized);
                changed = span_changes canonical acc
            in
            if acc = [] then (None, rej1 @ rej2)
            else if int changed > edit_line_max_changed_chars guard
            then (None, rej1 @ rej2 @ [refuse lid ''replace_span'' ''e4_line_budget''])
            else
              (let result = apply_spans canonical acc in
               if py_strip result = []
               then (None, rej1 @ rej2 @ [refuse lid ''replace_span'' ''e3_empty''])
               else (case e5_refusal role canonical result acc of
                  Some why \<Rightarrow> (None, rej1 @ rej2 @ [refuse lid ''replace_span'' why])
                | None \<Rightarrow> (Some result, rej1 @ rej2))))))"

section \<open>A script\<close>

definition e1_refusal :: "ident \<Rightarrow> (ident, ptext) dict \<Rightarrow> ident list option \<Rightarrow> string option" where
  "e1_refusal lid canonical_by_id chunk_line_ids =
     (if lid \<notin> fst ` set canonical_by_id then Some ''e1_unknown_line''
      else (case chunk_line_ids of
         None \<Rightarrow> None
       | Some ids \<Rightarrow> if lid \<notin> set ids then Some ''e1_context_line'' else None))"

text \<open>Out of scope: stamped with another page than the one replayed.\<close>

definition out_of_scope :: "ident option \<Rightarrow> ident option \<Rightarrow> bool" where
  "out_of_scope page stamp \<longleftrightarrow> page \<noteq> None \<and> stamp \<noteq> None \<and> stamp \<noteq> page"

definition digest_by_line :: "edit_script \<Rightarrow> ident option \<Rightarrow> (ident, string) dict" where
  "digest_by_line script page =
     foldl (\<lambda>d pc. dict_set (pc_line_id pc) (pc_digest pc) d) []
       (filter (\<lambda>pc. \<not> out_of_scope page (pc_page_id pc)) (preconditions script))"

definition ops_by_line :: "edit_script \<Rightarrow> ident option \<Rightarrow> (ident, edit_op list) dict" where
  "ops_by_line script page =
     group_by op_line_id (filter (\<lambda>x. \<not> out_of_scope page (op_page_id x)) (ops script))"

text \<open>One turn of the loop over the lines.\<close>

definition edit_line ::
  "(ptext \<Rightarrow> string) \<Rightarrow> (ident, ptext) dict \<Rightarrow> ident list option \<Rightarrow> guard_config \<Rightarrow>
   (ident \<Rightarrow> line_manifest option) \<Rightarrow> (ident, string) dict \<Rightarrow> ident \<times> edit_op list \<Rightarrow>
   ptext option \<times> edit_rejection list" where
  "edit_line sha canonical_by_id chunk_line_ids guard line_by_id digests lo =
     (let (lid, lops) = lo in
      case e1_refusal lid canonical_by_id chunk_line_ids of
        Some why \<Rightarrow> (None, map (\<lambda>x. refuse lid (op_name x) why) lops)
      | None \<Rightarrow>
          (let canonical = the (map_of canonical_by_id lid) in
           if (case map_of digests lid of None \<Rightarrow> False
               | Some expected \<Rightarrow> line_digest sha canonical \<noteq> expected)
           then (None, map (\<lambda>x. refuse lid (op_name x) ''precondition_source_digest'') lops)
           else
             (let role = (case line_by_id lid of None \<Rightarrow> NONE | Some lm \<Rightarrow> hyphen_role lm)
              in apply_line_ops lid lops canonical role guard)))"

definition edit_step ::
  "(ptext \<Rightarrow> string) \<Rightarrow> (ident, ptext) dict \<Rightarrow> ident list option \<Rightarrow> guard_config \<Rightarrow>
   (ident \<Rightarrow> line_manifest option) \<Rightarrow> (ident, string) dict \<Rightarrow> edit_result \<Rightarrow>
   ident \<times> edit_op list \<Rightarrow> edit_result" where
  "edit_step sha canonical_by_id chunk_line_ids guard line_by_id digests res lo =
     (let (new, rej) = edit_line sha canonical_by_id chunk_line_ids guard line_by_id digests lo
      in \<lparr>text_by_id = (case new of None \<Rightarrow> text_by_id res
                        | Some t \<Rightarrow> dict_set (fst lo) t (text_by_id res)),
          rejected = rejected res @ rej\<rparr>)"

definition apply_edit_script ::
  "(ptext \<Rightarrow> string) \<Rightarrow> edit_script \<Rightarrow> (ident, ptext) dict \<Rightarrow> ident list option \<Rightarrow>
   guard_config \<Rightarrow> (ident \<Rightarrow> line_manifest option) \<Rightarrow> ident option \<Rightarrow> exn + edit_result" where
  "apply_edit_script sha script canonical_by_id chunk_line_ids guard line_by_id page =
     (if protocol_version script \<noteq> None \<and> protocol_version script \<noteq> Some EDIT_PROTOCOL_VERSION
      then Inl (Exn C_ProposalValidationError ''edit script speaks another protocol version'')
      else Inr (foldl (edit_step sha canonical_by_id chunk_line_ids guard line_by_id
                         (digest_by_line script page))
                  \<lparr>text_by_id = [], rejected = []\<rparr> (ops_by_line script page)))"

definition replace_line_script :: "(ident, ptext) dict \<Rightarrow> edit_script" where
  "replace_line_script m =
     \<lparr>ops = map (\<lambda>(lid, t). ReplaceLine lid t None None) m, protocol_version = None,
      source_digests = [], preconditions = []\<rparr>"

section \<open>Facts: anchors\<close>

lemma find_starts_filter:
  "find_starts m s i = filter (starts_at m s) [i ..< Suc (length s)]"
proof (induction m s i rule: find_starts.induct)
  case (1 m s i)
  show ?case
  proof (cases "py_find m s i")
    case None
    then have "\<forall>x \<in> set [i ..< Suc (length s)]. \<not> starts_at m s x"
      unfolding py_find_def find_None_iff by blast
    then have "filter (starts_at m s) [i ..< Suc (length s)] = []" by (simp only: filter_empty_conv)
    with None show ?thesis by (simp add: find_starts.simps [of m s i])
  next
    case (Some j)
    from find_upt_filter [OF Some [unfolded py_find_def]] 1 [OF Some] Some
    show ?thesis by (simp only: find_starts.simps [of m s i] option.case)
  qed
qed

lemma starts_at_bound: "starts_at m s j \<Longrightarrow> j + length m \<le> length s"
  by (auto simp: starts_at_def dest!: arg_cong [where f = length])

lemma in_find_starts: "j \<in> set (find_starts m s i) \<longleftrightarrow> i \<le> j \<and> starts_at m s j"
  by (auto simp: find_starts_filter starts_at_def)

lemma slice_start: "starts_at m s j \<Longrightarrow> slice j (j + length m) s = m"
  by (simp add: slice_def starts_at_def)

lemma normalize_anchor_range:
  assumes "normalize_anchor anc canonical = Inr (a, b)"
  shows "a \<le> b \<and> b \<le> length canonical"
proof (cases anc)
  case (RangeAnchor st en)
  with assms show ?thesis by (auto simp: normalize_anchor_def split: if_splits)
next
  case (MatchAnchor m occ)
  have "\<exists>j \<in> set (find_starts m canonical 0). a = j \<and> b = j + length m"
    using assms MatchAnchor
    by (auto simp: normalize_anchor_def Let_def hd_in_set split: if_splits option.splits)
  then show ?thesis using starts_at_bound [of m canonical] by (auto simp: in_find_starts)
qed

lemma normalize_match:
  assumes "normalize_anchor (MatchAnchor m occ) canonical = Inr (a, b)"
  shows "slice a b canonical = m"
    and "occ = None \<Longrightarrow> {j. starts_at m canonical j} = {a}"
    and "occ = Some k \<Longrightarrow> a = filter (starts_at m canonical) [0 ..< Suc (length canonical)] ! nat k"
proof -
  let ?st = "find_starts m canonical 0"
  have ab: "\<exists>j \<in> set ?st. a = j \<and> b = j + length m"
    using assms
    by (auto simp: normalize_anchor_def Let_def hd_in_set split: if_splits option.splits)
  then show "slice a b canonical = m" by (auto simp: in_find_starts slice_start)
  show "{j. starts_at m canonical j} = {a}" if "occ = None"
  proof -
    from assms that have "?st \<noteq> []" "\<not> length ?st > 1" "a = hd ?st"
      by (auto simp: normalize_anchor_def Let_def split: if_splits)
    then have "?st = [a]" by (cases ?st) auto
    then have "set ?st = {a}" by simp
    then show ?thesis using in_find_starts [of _ m canonical 0] by auto
  qed
  show "a = filter (starts_at m canonical) [0 ..< Suc (length canonical)] ! nat k" if "occ = Some k"
    using assms that unfolding find_starts_filter [symmetric]
    by (auto simp: normalize_anchor_def Let_def split: if_splits)
qed

section \<open>Facts: the size of a change\<close>

lemma common_prefix_split: "a = take (common_prefix a b) a @ drop (common_prefix a b) a"
  by simp

lemma changed_chars_window:
  assumes "a \<noteq> b"
  obtains p a' b' s where "a = p @ a' @ s" "b = p @ b' @ s"
    "changed_chars a b = max (length a') (length b')"
proof -
  let ?p = "common_prefix a b"
  let ?s = "common_prefix (rev (drop ?p a)) (rev (drop ?p b))"
  let ?S = "rev (take ?s (rev (drop ?p a)))"
  let ?A = "rev (drop ?s (rev (drop ?p a)))"
  let ?B = "rev (drop ?s (rev (drop ?p b)))"
  have A: "drop ?p a = ?A @ ?S" by (metis append_take_drop_id rev_append rev_rev_ident)
  have "drop ?p b = ?B @ rev (take ?s (rev (drop ?p b)))"
    by (metis append_take_drop_id rev_append rev_rev_ident)
  then have B: "drop ?p b = ?B @ ?S"
    unfolding common_prefix_take [of "rev (drop ?p a)" "rev (drop ?p b)"] .
  have a: "a = take ?p a @ ?A @ ?S" using A by (metis append_take_drop_id)
  have "b = take ?p b @ ?B @ ?S" using B by (metis append_take_drop_id)
  then have b: "b = take ?p a @ ?B @ ?S" unfolding common_prefix_take [of a b] .
  have le: "?p \<le> length a" "?p \<le> length b" "?s \<le> length a - ?p" "?s \<le> length b - ?p"
    using common_prefix_le [of a b] common_prefix_le [of "rev (drop ?p a)" "rev (drop ?p b)"] by auto
  have "changed_chars a b = max (length ?A) (length ?B)"
    using assms le by (simp add: changed_chars_def Let_def)
  with a b show thesis by (rule that)
qed

lemma ed_le_changed_chars: "ed a b \<le> changed_chars a b"
proof (cases "a = b")
  case False
  then obtain p a' b' s where w: "a = p @ a' @ s" "b = p @ b' @ s"
    "changed_chars a b = max (length a') (length b')" by (rule changed_chars_window)
  have "ed a b \<le> ed a' b'" unfolding w(1,2) by (rule ed_common_ends)
  with ed_le_max [of a' b'] w(3) show ?thesis by linarith
qed (simp add: changed_chars_def)

lemma changed_chars_le_max: "changed_chars a b \<le> max (length a) (length b)"
  by (simp add: changed_chars_def Let_def)

section \<open>Facts: spans\<close>

text \<open>Spans in ascending order that do not overlap, from \<open>k\<close> up to \<open>n\<close>.\<close>

fun spans_ok :: "nat \<Rightarrow> nat \<Rightarrow> span list \<Rightarrow> bool" where
  "spans_ok k n [] = (k \<le> n)"
| "spans_ok k n (((a, b), t) # sps) = (k \<le> a \<and> a \<le> b \<and> spans_ok b n sps)"

text \<open>The simultaneous replacement: the text between the spans, copied.\<close>

fun splice :: "nat \<Rightarrow> ptext \<Rightarrow> span list \<Rightarrow> ptext" where
  "splice k c [] = drop k c"
| "splice k c (((a, b), t) # sps) = slice k a c @ t @ splice b c sps"

lemma spans_ok_le: "spans_ok k n sps \<Longrightarrow> k \<le> n"
  by (induction k n sps rule: spans_ok.induct) auto

lemma foldr_splice:
  "spans_ok k (length c) sps \<Longrightarrow>
   foldr (\<lambda>((a, b), r) t. take a t @ r @ drop b t) sps c = take k c @ splice k c sps"
proof (induction k "length c" sps rule: spans_ok.induct)
  case (2 k a b t sps)
  then have ok: "k \<le> a" "a \<le> b" "spans_ok b (length c) sps" by auto
  then have b: "b \<le> length c" by (auto dest: spans_ok_le)
  have ih: "foldr (\<lambda>((a, b), r) t. take a t @ r @ drop b t) sps c = take b c @ splice b c sps"
    using 2 ok by simp
  have "take a (take b c @ splice b c sps) = take k c @ slice k a c"
    using ok b by (simp add: slice_def take_drop_split min_def)
  with ih b show ?case by simp
qed simp

lemma sorted_apply_spans:
  assumes "spans_ok 0 (length c) sps" "distinct (map (\<lambda>((a, b), t). a) sps)"
    "sorted (map (\<lambda>((a, b), t). a) sps)"
  shows "apply_spans c sps = splice 0 c sps"
proof -
  have "sort_key (\<lambda>((a, b), t). a) (rev sps) = sps"
  proof (rule sort_key_inj_key_eq)
    show "inj_on (\<lambda>((a, b), t). a) (set (rev sps))" using assms(2) by (simp add: distinct_map)
  qed (use assms(3) in simp_all)
  then have "apply_spans c sps = foldr (\<lambda>((a, b), r) t. take a t @ r @ drop b t) sps c"
    by (simp add: apply_spans_def foldr_conv_foldl case_prod_unfold)
  then show ?thesis using foldr_splice [OF assms(1)] by simp
qed

lemma ed_splice:
  "spans_ok k (length c) sps \<Longrightarrow> ed (drop k c) (splice k c sps) \<le> span_changes c sps"
proof (induction k "length c" sps rule: spans_ok.induct)
  case (2 k a b t sps)
  then have ok: "k \<le> a" "a \<le> b" "spans_ok b (length c) sps" by auto
  then have b: "b \<le> length c" by (auto dest: spans_ok_le)
  have "drop k c = slice k a c @ slice a b c @ drop b c"
    using ok b by (simp add: slice_def) (metis append_assoc append_take_drop_id drop_drop
        le_add_diff_inverse2)
  then have "ed (drop k c) (splice k c (((a, b), t) # sps))
      = ed (slice k a c @ slice a b c @ drop b c) (slice k a c @ t @ splice b c sps)" by simp
  also have "\<dots> \<le> ed (slice k a c) (slice k a c) + ed (slice a b c @ drop b c) (t @ splice b c sps)"
    by (rule ed_append)
  also have "ed (slice a b c @ drop b c) (t @ splice b c sps)
      \<le> ed (slice a b c) t + ed (drop b c) (splice b c sps)" by (rule ed_append)
  finally show ?case
    using 2 ok ed_le_changed_chars [of "slice a b c" t] by (simp add: span_changes_def)
qed (simp add: span_changes_def)

lemma splice_no_separator:
  "\<lbrakk>\<not> has_line_separator c; \<forall>sp \<in> set sps. \<not> has_line_separator (snd sp)\<rbrakk> \<Longrightarrow>
   \<not> has_line_separator (splice k c sps)"
  by (induction k c sps rule: splice.induct) (auto simp: slice_def)

section \<open>Facts: one line\<close>

lemma normalize_spans_range:
  assumes "normalize_spans guard lid canonical sps = (spans, rej)"
  shows "\<forall>((a, b), t) \<in> set spans. a \<le> b \<and> b \<le> length canonical \<and> \<not> has_line_separator t"
  using assms
proof (induction sps arbitrary: spans rej)
  case (Cons sp sps)
  obtain spans' rej' where r: "normalize_spans guard lid canonical sps = (spans', rej')" by fastforce
  note ih = Cons.IH [OF r]
  show ?case
  proof (cases "spans = spans'")
    case False
    with Cons.prems r obtain a b anc where
      "spans = ((a, b), op_text sp) # spans'" "\<not> has_line_separator (op_text sp)"
      "normalize_anchor anc canonical = Inr (a, b)"
      by (auto simp: Let_def split: if_splits sum.splits prod.splits)
    with ih normalize_anchor_range show ?thesis by fastforce
  qed (use ih in simp)
qed simp

text \<open>Every span is normalised or reported.\<close>

lemma normalize_spans_count:
  "normalize_spans guard lid canonical sps = (spans, rej) \<Longrightarrow>
   length spans + length rej = length sps"
proof (induction sps arbitrary: spans rej)
  case (Cons sp sps)
  obtain spans' rej' where r: "normalize_spans guard lid canonical sps = (spans', rej')" by fastforce
  from Cons.IH [OF r] Cons.prems r show ?case
    by (auto simp: Let_def split: if_splits sum.splits prod.splits)
qed simp

definition prev_ok :: "(nat \<times> nat) option \<Rightarrow> nat \<Rightarrow> bool" where
  "prev_ok prev n = (case prev of None \<Rightarrow> True | Some (pa, pb) \<Rightarrow> pa \<le> pb \<and> pb \<le> n)"

definition prev_end :: "(nat \<times> nat) option \<Rightarrow> nat" where
  "prev_end prev = (case prev of None \<Rightarrow> 0 | Some (pa, pb) \<Rightarrow> pb)"

lemma accept_spans_ok:
  assumes "accept_spans lid prev sps = (acc, rej)"
    and "\<forall>((a, b), t) \<in> set sps. a \<le> b \<and> b \<le> n" "prev_ok prev n"
    and "sorted (map (\<lambda>((a, b), t). a) sps)"
    and "case prev of None \<Rightarrow> True | Some (pa, pb) \<Rightarrow> \<forall>((a, b), t) \<in> set sps. pa \<le> a"
  shows "spans_ok (prev_end prev) n acc \<and> set acc \<subseteq> set sps \<and>
    sorted (map (\<lambda>((a, b), t). a) acc) \<and> distinct (map (\<lambda>((a, b), t). a) acc) \<and>
    (case prev of None \<Rightarrow> True | Some (pa, pb) \<Rightarrow> \<forall>((a, b), t) \<in> set acc. pa < a)"
  using assms
proof (induction sps arbitrary: prev acc rej)
  case Nil
  then show ?case by (auto simp: prev_ok_def prev_end_def split: option.splits)
next
  case (Cons sp sps)
  obtain a b t where sp: "sp = ((a, b), t)" by (metis prod.collapse)
  show ?case
  proof (cases "case prev of None \<Rightarrow> False | Some (pa, pb) \<Rightarrow> a < pb \<or> a = pa")
    case True
    obtain acc' rej' where r: "accept_spans lid prev sps = (acc', rej')" by fastforce
    have "acc = acc'" using Cons.prems(1) True r by (simp add: sp)
    moreover have "spans_ok (prev_end prev) n acc' \<and> set acc' \<subseteq> set sps \<and>
        sorted (map (\<lambda>((a, b), t). a) acc') \<and> distinct (map (\<lambda>((a, b), t). a) acc') \<and>
        (case prev of None \<Rightarrow> True | Some (pa, pb) \<Rightarrow> \<forall>((a, b), t) \<in> set acc'. pa < a)"
      by (rule Cons.IH [OF r]) (use Cons.prems in \<open>auto split: option.splits\<close>)
    ultimately show ?thesis by auto
  next
    case False
    obtain acc' rej' where r: "accept_spans lid (Some (a, b)) sps = (acc', rej')" by fastforce
    have acc: "acc = ((a, b), t) # acc'" using Cons.prems(1) False r by (simp add: sp)
    have rest: "spans_ok (prev_end (Some (a, b))) n acc' \<and> set acc' \<subseteq> set sps \<and>
        sorted (map (\<lambda>((a, b), t). a) acc') \<and> distinct (map (\<lambda>((a, b), t). a) acc') \<and>
        (case Some (a, b) of None \<Rightarrow> True | Some (pa, pb) \<Rightarrow> \<forall>((a, b), t) \<in> set acc'. pa < a)"
    proof (rule Cons.IH [OF r])
      show "prev_ok (Some (a, b)) n" using Cons.prems(2) by (simp add: sp prev_ok_def)
      show "case Some (a, b) of None \<Rightarrow> True | Some (pa, pb) \<Rightarrow> \<forall>((a, b), t) \<in> set sps. pa \<le> a"
        using Cons.prems(4) by (auto simp: sp)
    qed (use Cons.prems in \<open>auto simp: sp\<close>)
    have "prev_end prev \<le> a" using False by (auto simp: prev_end_def split: option.splits)
    moreover have "a \<le> b" using Cons.prems(2) by (simp add: sp)
    moreover have "case prev of None \<Rightarrow> True | Some (pa, pb) \<Rightarrow> pa < a"
      using False Cons.prems(5) by (auto simp: sp split: option.splits)
    ultimately show ?thesis using rest by (auto simp: acc sp prev_end_def split: option.splits)
  qed
qed

lemma sort_spans_sorted: "sorted (map (\<lambda>((a, b), t). a) (sort_spans sps))"
  unfolding sort_spans_def by (rule sorted_sort_key)

lemma set_sort_spans [simp]: "set (sort_spans sps) = set sps"
  by (simp add: sort_spans_def)

text \<open>E5, restated: a line that opens a unit ends on a break mark, with a word before the mark; a
  space before the mark was in the source already.\<close>

definition word_before_mark :: "ptext \<Rightarrow> ptext \<Rightarrow> bool" where
  "word_before_mark canonical t \<longleftrightarrow>
     (let before = strip_trailing_break_marks (py_rstrip t) in
      before \<noteq> [] \<and>
      (is_space (last before) \<longrightarrow> ends_in {32} (strip_trailing_break_marks (py_rstrip canonical))))"

text \<open>What an accepted line satisfies, whole-line or span.\<close>

definition accepted_text_ok :: "guard_config \<Rightarrow> hyphen_role \<Rightarrow> ptext \<Rightarrow> ptext \<Rightarrow> bool" where
  "accepted_text_ok guard role canonical t \<longleftrightarrow>
     py_strip t \<noteq> [] \<and>
     (has_line_separator t \<longrightarrow> has_line_separator canonical) \<and>
     (opens_unit role \<longrightarrow> ends_with_break_mark t \<and> word_before_mark canonical t) \<and>
     int (ed canonical t) \<le> edit_line_max_changed_chars guard"

text \<open>E5b, restated: the first word \<open>w\<close> of the source is not inside a span whose replacement is blank.\<close>

definition first_word_not_erased :: "ptext \<Rightarrow> span list \<Rightarrow> bool" where
  "first_word_not_erased canonical acc \<longleftrightarrow>
     (\<forall>gap w rest. canonical = gap @ w @ rest \<and> list_all is_space gap \<and> w \<noteq> [] \<and>
        list_all (\<lambda>c. \<not> is_space c) w \<and> (rest = [] \<or> is_space (hd rest)) \<longrightarrow>
        (\<forall>((a, b), r) \<in> set acc. a \<le> length gap \<and> length gap + length w \<le> b \<longrightarrow> py_strip r \<noteq> []))"

text \<open>Where the span was written by one of the line's operations: at the range its anchor names, with
  the growth allowed.\<close>

definition span_of_op :: "guard_config \<Rightarrow> ptext \<Rightarrow> edit_op \<Rightarrow> span \<Rightarrow> bool" where
  "span_of_op guard canonical x sp \<longleftrightarrow>
     \<not> is_line_op x \<and> snd sp = op_text x \<and> \<not> has_line_separator (snd sp) \<and>
     normalize_anchor (op_anchor x) canonical = Inr (fst sp) \<and>
     of_nat (length (snd sp)) \<le>
       edit_span_max_growth_ratio guard * of_nat (max 1 (snd (fst sp) - fst (fst sp)))"

definition made_by_spans :: "guard_config \<Rightarrow> hyphen_role \<Rightarrow> ptext \<Rightarrow> edit_op list \<Rightarrow> ptext \<Rightarrow> bool" where
  "made_by_spans guard role canonical lops t \<longleftrightarrow>
     (\<exists>acc. acc \<noteq> [] \<and> spans_ok 0 (length canonical) acc \<and> t = splice 0 canonical acc \<and>
        (\<forall>sp \<in> set acc. \<exists>x \<in> set lops. span_of_op guard canonical x sp) \<and>
        (closes_unit role \<longrightarrow> first_word_not_erased canonical acc))"

lemma e5_hyphen_ok_mark:
  "\<lbrakk>e5_hyphen_ok role t src; opens_unit role\<rbrakk> \<Longrightarrow> ends_with_break_mark t \<and> word_before_mark src t"
  by (auto simp: e5_hyphen_ok_def ends_with_break_mark_def word_before_mark_def Let_def split: if_splits)

lemma first_word_range_split:
  assumes "list_all is_space gap" "w \<noteq> []" "list_all (\<lambda>c. \<not> is_space c) w" "rest = [] \<or> is_space (hd rest)"
  shows "first_word_range (gap @ w @ rest) = Some (length gap, length gap + length w)"
proof -
  have 1: "takeWhile is_space (gap @ w @ rest) = gap"
    using assms(1-3) by (cases w) (simp_all add: list_all_iff takeWhile_append2)
  have 2: "takeWhile (\<lambda>c. \<not> is_space c) (w @ rest) = w"
    using assms(3,4) by (cases rest) (simp_all add: list_all_iff takeWhile_append2)
  from 1 2 assms(2) show ?thesis by (simp add: first_word_range_def Let_def)
qed

lemma e5b_kept:
  assumes "e5b_boundary_word_kept role canonical acc" "closes_unit role"
  shows "first_word_not_erased canonical acc"
  unfolding first_word_not_erased_def
proof (intro allI impI, elim conjE)
  fix gap w rest
  assume "canonical = gap @ w @ rest" "list_all is_space gap" "w \<noteq> []" "list_all (\<lambda>c. \<not> is_space c) w"
    "rest = [] \<or> is_space (hd rest)"
  then have "first_word_range canonical = Some (length gap, length gap + length w)"
    by (simp add: first_word_range_split)
  with assms show "\<forall>((a, b), r) \<in> set acc. a \<le> length gap \<and> length gap + length w \<le> b \<longrightarrow> py_strip r \<noteq> []"
    by (auto simp: e5b_boundary_word_kept_def list_ex_iff)
qed

lemma normalize_spans_from_ops:
  assumes "normalize_spans guard lid canonical sps = (spans, rej)" "\<forall>x \<in> set sps. \<not> is_line_op x"
    and "sp \<in> set spans"
  shows "\<exists>x \<in> set sps. span_of_op guard canonical x sp"
  using assms
proof (induction sps arbitrary: spans rej)
  case (Cons x sps)
  obtain spans' rej' where r: "normalize_spans guard lid canonical sps = (spans', rej')" by fastforce
  show ?case
  proof (cases "sp \<in> set spans'")
    case True
    with Cons.IH [OF r] Cons.prems(2) show ?thesis by auto
  next
    case False
    obtain lid' anc t pg where x: "x = ReplaceSpan lid' anc t pg" using Cons.prems(2) by (cases x) auto
    from False Cons.prems(1,3) r x obtain a b where "sp = ((a, b), t)" "\<not> has_line_separator t"
      "normalize_anchor anc canonical = Inr (a, b)"
      "\<not> of_nat (length t) > edit_span_max_growth_ratio guard * of_nat (max 1 (b - a))"
      by (auto simp: Let_def split: if_splits sum.splits prod.splits)
    then have "span_of_op guard canonical x sp" by (simp add: span_of_op_def x)
    then show ?thesis by auto
  qed
qed simp

lemma whole_line_ok:
  assumes "whole_line_verdict line_ops span_ops role canonical guard = (t, None)"
  shows "accepted_text_ok guard role canonical t"
proof -
  have "\<not> has_line_separator t" "py_strip t \<noteq> []" "whole_line_drift_refusal role canonical t guard = None"
    using assms by (auto simp: whole_line_verdict_def Let_def split: if_splits)
  moreover from this(3) have "int (changed_chars canonical t) \<le> edit_line_max_changed_chars guard"
    "e5_hyphen_ok role t canonical"
    by (auto simp: whole_line_drift_refusal_def split: if_splits)
  ultimately show ?thesis
    using ed_le_changed_chars [of canonical t] e5_hyphen_ok_mark
    by (auto simp: accepted_text_ok_def)
qed

lemma span_path:
  assumes "normalize_spans guard lid canonical sps = (normalized, rej1)"
    and "accept_spans lid None (sort_spans normalized) = (acc, rej2)"
  shows "spans_ok 0 (length canonical) acc" "apply_spans canonical acc = splice 0 canonical acc"
    "\<forall>sp \<in> set acc. \<not> has_line_separator (snd sp)" "set acc \<subseteq> set normalized"
proof -
  note range = normalize_spans_range [OF assms(1)]
  have "\<forall>((a, b), t) \<in> set (sort_spans normalized). a \<le> b \<and> b \<le> length canonical"
    using range by auto
  from accept_spans_ok [OF assms(2) this _ sort_spans_sorted]
  have acc: "spans_ok 0 (length canonical) acc" "set acc \<subseteq> set normalized"
    "sorted (map (\<lambda>((a, b), t). a) acc)" "distinct (map (\<lambda>((a, b), t). a) acc)"
    by (auto simp: prev_ok_def prev_end_def)
  show "spans_ok 0 (length canonical) acc" by (rule acc(1))
  show "apply_spans canonical acc = splice 0 canonical acc"
    by (rule sorted_apply_spans [OF acc(1,4,3)])
  show "\<forall>sp \<in> set acc. \<not> has_line_separator (snd sp)" using range acc(2) by fastforce
  show "set acc \<subseteq> set normalized" by (rule acc(2))
qed

lemma apply_line_ops_spans:
  assumes "apply_line_ops lid lops canonical role guard = (Some t, rej)" "filter is_line_op lops = []"
  obtains normalized rej1 acc rej2 where
    "normalize_spans guard lid canonical (filter (\<lambda>x. \<not> is_line_op x) lops) = (normalized, rej1)"
    "accept_spans lid None (sort_spans normalized) = (acc, rej2)" "rej = rej1 @ rej2" "acc \<noteq> []"
    "t = apply_spans canonical acc" "py_strip t \<noteq> []"
    "int (span_changes canonical acc) \<le> edit_line_max_changed_chars guard"
    "e5_refusal role canonical t acc = None"
proof -
  obtain normalized rej1 where n:
    "normalize_spans guard lid canonical (filter (\<lambda>x. \<not> is_line_op x) lops) = (normalized, rej1)"
    by fastforce
  obtain acc rej2 where a: "accept_spans lid None (sort_spans normalized) = (acc, rej2)" by fastforce
  show thesis
    by (rule that [OF n a]; insert assms n a; simp add: apply_line_ops_def Let_def split: if_splits option.splits)
qed

lemma apply_line_ops_ok:
  assumes "apply_line_ops lid lops canonical role guard = (Some t, rej)"
  shows "accepted_text_ok guard role canonical t"
proof (cases "filter is_line_op lops = []")
  case False
  then show ?thesis using assms whole_line_ok
    by (auto simp: apply_line_ops_def Let_def split: prod.splits option.splits)
next
  case True
  then obtain normalized rej1 acc rej2 where *:
    "normalize_spans guard lid canonical (filter (\<lambda>x. \<not> is_line_op x) lops) = (normalized, rej1)"
    "accept_spans lid None (sort_spans normalized) = (acc, rej2)" "t = apply_spans canonical acc"
    "py_strip t \<noteq> []" "int (span_changes canonical acc) \<le> edit_line_max_changed_chars guard"
    "e5_refusal role canonical t acc = None"
    using apply_line_ops_spans [OF assms] by metis
  note sp = span_path [OF *(1,2)]
  have t: "t = splice 0 canonical acc" using *(3) sp(2) by simp
  have "ed canonical t \<le> span_changes canonical acc" using ed_splice [OF sp(1)] t by simp
  moreover have "has_line_separator t \<longrightarrow> has_line_separator canonical"
    using splice_no_separator [of canonical acc 0] sp(3) t by blast
  moreover have "opens_unit role \<longrightarrow> ends_with_break_mark t \<and> word_before_mark canonical t"
    using *(6) e5_hyphen_ok_mark by (auto simp: e5_refusal_def split: if_splits)
  ultimately show ?thesis using *(4,5) by (auto simp: accepted_text_ok_def)
qed

lemma apply_line_ops_origin:
  assumes "apply_line_ops lid lops canonical role guard = (Some t, rej)"
  shows "(\<exists>x. lops = [x] \<and> is_line_op x \<and> t = op_text x) \<or> made_by_spans guard role canonical lops t"
proof (cases "filter is_line_op lops = []")
  case False
  with assms have v: "whole_line_verdict (filter is_line_op lops) (filter (\<lambda>x. \<not> is_line_op x) lops) role
      canonical guard = (t, None)"
    by (auto simp: apply_line_ops_def Let_def split: prod.splits option.splits)
  then have n: "\<not> length (filter is_line_op lops) > 1" "filter (\<lambda>x. \<not> is_line_op x) lops = []"
    and t: "t = op_text (hd (filter is_line_op lops))"
    by (auto simp: whole_line_verdict_def Let_def split: if_splits)
  from n(2) have f: "filter is_line_op lops = lops" by (simp add: filter_empty_conv filter_id_conv)
  with n(1) False obtain x where x: "lops = [x]" by (cases lops; cases "tl lops") auto
  with f have "is_line_op x" by (auto split: if_splits)
  with x t f show ?thesis by simp
next
  case True
  then obtain normalized rej1 acc rej2 where *:
    "normalize_spans guard lid canonical (filter (\<lambda>x. \<not> is_line_op x) lops) = (normalized, rej1)"
    "accept_spans lid None (sort_spans normalized) = (acc, rej2)" "acc \<noteq> []" "t = apply_spans canonical acc"
    "e5_refusal role canonical t acc = None"
    using apply_line_ops_spans [OF assms] by metis
  note sp = span_path [OF *(1,2)]
  have "\<exists>x \<in> set lops. span_of_op guard canonical x s" if "s \<in> set acc" for s
    using normalize_spans_from_ops [OF *(1), of s] sp(4) that by auto
  moreover have "closes_unit role \<longrightarrow> first_word_not_erased canonical acc"
    using *(5) e5b_kept by (auto simp: e5_refusal_def split: if_splits)
  ultimately have "made_by_spans guard role canonical lops t"
    unfolding made_by_spans_def using sp(1,2) *(3,4) by blast
  then show ?thesis ..
qed

text \<open>A line that keeps its text says why.\<close>

lemma apply_line_ops_reports:
  assumes "apply_line_ops lid lops canonical role guard = (None, rej)" "lops \<noteq> []"
  shows "rej \<noteq> []"
proof (cases "filter is_line_op lops = []")
  case False
  then show ?thesis using assms
    by (auto simp: apply_line_ops_def Let_def split: prod.splits option.splits)
next
  case True
  have spans: "filter (\<lambda>x. \<not> is_line_op x) lops \<noteq> []"
    using True assms(2) by (auto simp: filter_empty_conv)
  obtain normalized rej1 where n:
    "normalize_spans guard lid canonical (filter (\<lambda>x. \<not> is_line_op x) lops) = (normalized, rej1)"
    by fastforce
  obtain acc rej2 where a: "accept_spans lid None (sort_spans normalized) = (acc, rej2)" by fastforce
  have "acc \<noteq> []" if "normalized \<noteq> []"
  proof -
    have "sort_spans normalized \<noteq> []" using that by (metis set_empty2 set_sort_spans)
    then obtain x xs where "sort_spans normalized = x # xs" by (cases "sort_spans normalized") auto
    then show ?thesis using a by (cases x) (auto split: prod.splits)
  qed
  moreover have "rej1 \<noteq> []" if "normalized = []"
    using normalize_spans_count [OF n] that spans by auto
  ultimately show ?thesis
    using assms(1) True n a by (auto simp: apply_line_ops_def Let_def split: if_splits option.splits)
qed

section \<open>Facts: a script\<close>

lemma normalize_spans_names:
  "normalize_spans guard lid canonical sps = (spans, rej) \<Longrightarrow> \<forall>r \<in> set rej. rj_line_id r = lid"
proof (induction sps arbitrary: spans rej)
  case (Cons sp sps)
  obtain spans' rej' where r: "normalize_spans guard lid canonical sps = (spans', rej')" by fastforce
  from Cons.IH [OF r] Cons.prems r show ?case
    by (auto simp: Let_def refuse_def split: if_splits sum.splits prod.splits)
qed simp

lemma accept_spans_names:
  "accept_spans lid prev sps = (acc, rej) \<Longrightarrow> \<forall>r \<in> set rej. rj_line_id r = lid"
  by (induction lid prev sps arbitrary: acc rej rule: accept_spans.induct)
    (auto simp: refuse_def split: if_splits prod.splits)

lemma apply_line_ops_names:
  "r \<in> set (snd (apply_line_ops lid lops canonical role guard)) \<Longrightarrow> rj_line_id r = lid"
  by (auto simp: apply_line_ops_def Let_def refuse_def
      dest: normalize_spans_names accept_spans_names split: if_splits option.splits prod.splits)

lemma edit_line_names:
  "r \<in> set (snd (edit_line sha canon tgt guard by_id digests (lid, lops))) \<Longrightarrow> rj_line_id r = lid"
  by (auto simp: edit_line_def Let_def refuse_def dest: apply_line_ops_names
      split: option.splits if_splits)

lemma edit_step_fields:
  "text_by_id (edit_step sha canon tgt guard by_id digests res lo) =
     (case fst (edit_line sha canon tgt guard by_id digests lo) of
        None \<Rightarrow> text_by_id res | Some t \<Rightarrow> dict_set (fst lo) t (text_by_id res))"
  "rejected (edit_step sha canon tgt guard by_id digests res lo) =
     rejected res @ snd (edit_line sha canon tgt guard by_id digests lo)"
  by (simp_all add: edit_step_def split_beta)

lemma edit_fold_rejected:
  "rejected (foldl (edit_step sha canon tgt guard by_id digests) res los)
     = rejected res @ concat (map (\<lambda>lo. snd (edit_line sha canon tgt guard by_id digests lo)) los)"
  by (induction los arbitrary: res) (simp_all add: edit_step_fields)

lemma edit_fold_text:
  "distinct (map fst los) \<Longrightarrow>
   map_of (text_by_id (foldl (edit_step sha canon tgt guard by_id digests) res los)) lid =
     (case map_of los lid of
        None \<Rightarrow> map_of (text_by_id res) lid
      | Some lops \<Rightarrow> (case fst (edit_line sha canon tgt guard by_id digests (lid, lops)) of
           None \<Rightarrow> map_of (text_by_id res) lid | Some t \<Rightarrow> Some t))"
proof (induction los arbitrary: res)
  case (Cons lo los)
  obtain l lops where lo: "lo = (l, lops)" by fastforce
  from Cons.prems have l: "map_of los l = None" and d: "distinct (map fst los)"
    by (auto simp: lo map_of_eq_None_iff)
  note ih = Cons.IH [OF d, of "edit_step sha canon tgt guard by_id digests res (l, lops)"]
  show ?case
  proof (cases "lid = l")
    case True
    then show ?thesis using ih l
      by (simp add: lo edit_step_fields split: option.split)
  next
    case False
    then show ?thesis using ih
      by (simp add: lo edit_step_fields split: option.split)
  qed
qed simp

lemma edit_line_Some:
  assumes "fst (edit_line sha canon tgt guard by_id digests (lid, lops)) = Some t"
  shows "\<exists>canonical rej. map_of canon lid = Some canonical \<and>
      (case tgt of None \<Rightarrow> True | Some ids \<Rightarrow> lid \<in> set ids) \<and>
      (case map_of digests lid of None \<Rightarrow> True | Some d \<Rightarrow> line_digest sha canonical = d) \<and>
      apply_line_ops lid lops canonical
        (case by_id lid of None \<Rightarrow> NONE | Some lm \<Rightarrow> hyphen_role lm) guard = (Some t, rej)"
proof -
  have e1: "e1_refusal lid canon tgt = None"
    using assms by (auto simp: edit_line_def split: option.splits)
  then have lid: "lid \<in> fst ` set canon" "case tgt of None \<Rightarrow> True | Some ids \<Rightarrow> lid \<in> set ids"
    by (auto simp: e1_refusal_def split: if_splits option.splits)
  then obtain canonical where c: "map_of canon lid = Some canonical"
    by (metis map_of_eq_None_iff not_None_eq)
  from assms e1 c have "\<not> (case map_of digests lid of None \<Rightarrow> False
        | Some expected \<Rightarrow> line_digest sha canonical \<noteq> expected)"
    "fst (apply_line_ops lid lops canonical
        (case by_id lid of None \<Rightarrow> NONE | Some lm \<Rightarrow> hyphen_role lm) guard) = Some t"
    by (auto simp: edit_line_def Let_def split: if_splits)
  with c lid show ?thesis
    by (intro exI [of _ canonical] exI [of _ "snd (apply_line_ops lid lops canonical
        (case by_id lid of None \<Rightarrow> NONE | Some lm \<Rightarrow> hyphen_role lm) guard)"])
      (auto split: option.splits intro: prod_eqI)
qed

lemma edit_line_refused:
  assumes "e1_refusal lid canon tgt = Some why"
  shows "edit_line sha canon tgt guard by_id digests (lid, lops)
    = (None, map (\<lambda>x. refuse lid (op_name x) why) lops)"
  using assms by (simp add: edit_line_def)

lemma edit_line_reports:
  assumes "fst (edit_line sha canon tgt guard by_id digests (lid, lops)) = None" "lops \<noteq> []"
  shows "snd (edit_line sha canon tgt guard by_id digests (lid, lops)) \<noteq> []"
proof -
  have "snd (apply_line_ops lid lops c r guard) \<noteq> []"
    if "fst (apply_line_ops lid lops c r guard) = None" for c r
    using that assms(2) apply_line_ops_reports [of lid lops c r guard] by (metis prod.collapse)
  with assms show ?thesis
    by (auto simp: edit_line_def Let_def split: option.splits if_splits)
qed

lemma ops_by_line_lookup:
  "map_of (ops_by_line script page) lid =
     (let os = filter (\<lambda>x. op_line_id x = lid \<and> \<not> out_of_scope page (op_page_id x)) (ops script)
      in if os = [] then None else Some os)"
  by (simp add: ops_by_line_def map_of_group_by Let_def conj_commute)

lemma apply_edit_script_lookup:
  assumes "apply_edit_script sha script canon tgt guard by_id page = Inr res"
  shows "map_of (text_by_id res) lid =
      (case map_of (ops_by_line script page) lid of
         None \<Rightarrow> None
       | Some lops \<Rightarrow>
           fst (edit_line sha canon tgt guard by_id (digest_by_line script page) (lid, lops)))"
    "rejected res = concat (map (\<lambda>lo. snd (edit_line sha canon tgt guard by_id
       (digest_by_line script page) lo)) (ops_by_line script page))"
proof -
  have d: "distinct (map fst (ops_by_line script page))"
    by (simp add: ops_by_line_def distinct_group_by)
  have res: "res = foldl (edit_step sha canon tgt guard by_id (digest_by_line script page))
      \<lparr>text_by_id = [], rejected = []\<rparr> (ops_by_line script page)"
    using assms by (auto simp: apply_edit_script_def split: if_splits)
  show "map_of (text_by_id res) lid =
      (case map_of (ops_by_line script page) lid of
         None \<Rightarrow> None
       | Some lops \<Rightarrow>
           fst (edit_line sha canon tgt guard by_id (digest_by_line script page) (lid, lops)))"
    unfolding res edit_fold_text [OF d] by (auto split: option.splits)
  show "rejected res = concat (map (\<lambda>lo. snd (edit_line sha canon tgt guard by_id
       (digest_by_line script page) lo)) (ops_by_line script page))"
    unfolding res edit_fold_rejected by simp
qed

section \<open>Properties\<close>


definition demo_script :: edit_script where
  "demo_script = \<lparr>ops = [ReplaceSpan ''l1'' (MatchAnchor (tx ''teh'') None) (tx ''the'') None,
      ReplaceLine ''l2'' (tx ''text'') None None], protocol_version = Some ''1'',
      source_digests = [], preconditions = []\<rparr>"

definition demo_canon :: "(ident, ptext) dict" where
  "demo_canon = [(''l1'', tx ''in teh end''), (''l2'', tx ''next'')]"

definition demo_result :: edit_result where
  "demo_result = \<lparr>text_by_id = [(''l1'', tx ''in the end'')],
     rejected = [\<lparr>rj_line_id = ''l2'', rj_op = ''replace_line'', rj_reason = ''e1_context_line''\<rparr>]\<rparr>"

lemma demo_run:
  "apply_edit_script (\<lambda>_. []) demo_script demo_canon (Some [''l1'']) DEFAULT_GUARD_CONFIG
     (\<lambda>_. None) None = Inr demo_result"
  by code_simp


text \<open>No operation is dropped in silence: when a line the script addresses keeps its text,
  a rejection names the line; and an operation on a line that is unknown, or shown for context
  only, is rejected with the code of that accusation.\<close>

theorem apply_edit_script_reports:
  assumes "apply_edit_script sha script canon tgt guard by_id page = Inr res"
    and "x \<in> set (ops script)" "\<not> out_of_scope page (op_page_id x)"
  shows "(map_of (text_by_id res) (op_line_id x) = None \<longrightarrow>
      (\<exists>r \<in> set (rejected res). rj_line_id r = op_line_id x)) \<and>
    (\<forall>why. e1_refusal (op_line_id x) canon tgt = Some why \<longrightarrow>
      refuse (op_line_id x) (op_name x) why \<in> set (rejected res))"
proof -
  let ?e = "edit_line sha canon tgt guard by_id (digest_by_line script page)"
  let ?lid = "op_line_id x"
  define os where
    "os = filter (\<lambda>y. op_line_id y = ?lid \<and> \<not> out_of_scope page (op_page_id y)) (ops script)"
  have x: "x \<in> set os" using assms(2,3) by (simp add: os_def)
  then have ne: "os \<noteq> []" by auto
  then have lookup: "map_of (ops_by_line script page) ?lid = Some os"
    by (simp add: ops_by_line_lookup os_def [symmetric] Let_def)
  then have "(?lid, os) \<in> set (ops_by_line script page)" by (rule map_of_SomeD)
  then have sub: "set (snd (?e (?lid, os))) \<subseteq> set (rejected res)"
    unfolding apply_edit_script_lookup(2) [OF assms(1)] by auto
  have 1: "\<exists>r \<in> set (rejected res). rj_line_id r = ?lid" if "map_of (text_by_id res) ?lid = None"
  proof -
    have "fst (?e (?lid, os)) = None"
      using that lookup by (simp add: apply_edit_script_lookup(1) [OF assms(1)])
    from edit_line_reports [OF this ne] obtain r where "r \<in> set (snd (?e (?lid, os)))"
      by (meson last_in_set)
    with sub edit_line_names show ?thesis by blast
  qed
  have "refuse ?lid (op_name x) why \<in> set (rejected res)"
    if "e1_refusal ?lid canon tgt = Some why" for why
    using sub x edit_line_refused [OF that, of sha guard by_id "digest_by_line script page" os] by auto
  with 1 show ?thesis by blast
qed

lemma apply_edit_script_reports_witness:
  "refuse ''l2'' ''replace_line'' ''e1_context_line'' \<in> set (rejected demo_result)"
proof -
  let ?x = "ReplaceLine ''l2'' (tx ''text'') None None"
  have "?x \<in> set (ops demo_script)" by (simp add: demo_script_def)
  moreover have "\<not> out_of_scope None (op_page_id ?x)" by (simp add: out_of_scope_def)
  moreover have "e1_refusal (op_line_id ?x) demo_canon (Some [''l1'']) = Some ''e1_context_line''"
    by (simp add: e1_refusal_def demo_canon_def)
  ultimately show ?thesis
    using apply_edit_script_reports [OF demo_run, of ?x] by simp
qed

text \<open>An anchor resolves to a range inside the text exactly when it names one: explicit
  offsets in order and in range, or a non-empty substring that occurs once, or whose requested
  occurrence exists; the range of a match anchor holds the substring.\<close>

theorem normalize_anchor_spec:
  "case normalize_anchor anc canonical of
     Inr (x, y) \<Rightarrow>
       x \<le> y \<and> y \<le> length canonical \<and>
       (case anc of
          RangeAnchor st en \<Rightarrow> int x = st \<and> int y = en
        | MatchAnchor m occ \<Rightarrow> m \<noteq> [] \<and> slice x y canonical = m \<and>
            (case occ of
               None \<Rightarrow> {j. starts_at m canonical j} = {x}
             | Some k \<Rightarrow> 0 \<le> k \<and>
                 x = filter (starts_at m canonical) [0 ..< Suc (length canonical)] ! nat k))
   | Inl why \<Rightarrow>
       (case anc of
          RangeAnchor st en \<Rightarrow> \<not> (0 \<le> st \<and> st \<le> en \<and> en \<le> int (length canonical))
        | MatchAnchor m occ \<Rightarrow> m = [] \<or>
            (let starts = filter (starts_at m canonical) [0 ..< Suc (length canonical)] in
             starts = [] \<or>
             (case occ of None \<Rightarrow> 1 < length starts
              | Some k \<Rightarrow> k < 0 \<or> int (length starts) \<le> k)))"
proof (cases anc)
  case (RangeAnchor st en)
  then show ?thesis by (auto simp: normalize_anchor_def)
next
  case (MatchAnchor m occ)
  show ?thesis
  proof (cases "normalize_anchor anc canonical")
    case (Inl why)
    then show ?thesis unfolding find_starts_filter [symmetric]
      by (auto simp: MatchAnchor normalize_anchor_def Let_def find_starts_filter [symmetric]
          split: if_splits option.splits)
  next
    case (Inr xy)
    obtain x y where xy: "xy = (x, y)" by fastforce
    have m: "normalize_anchor (MatchAnchor m occ) canonical = Inr (x, y)"
      using Inr MatchAnchor xy by simp
    note spec = normalize_match [OF m]
    have "m \<noteq> []" using m by (auto simp: normalize_anchor_def)
    moreover have "0 \<le> k" if "occ = Some k" for k
      using m that by (auto simp: normalize_anchor_def Let_def split: if_splits)
    ultimately show ?thesis
      using spec normalize_anchor_range [OF m]
      by (simp add: MatchAnchor xy m split: option.split)
  qed
qed

lemma spans_ok_sorted: "spans_ok k n sps \<Longrightarrow> sorted (map (\<lambda>((a, b), t). a) sps) \<and>
    (\<forall>x \<in> set sps. k \<le> fst (fst x))"
  by (induction k n sps rule: spans_ok.induct) force+

text \<open>Applying non-overlapping spans one at a time from the right is the simultaneous
  replacement: every span's range becomes its text and the rest of the line is copied, at an
  edit distance no larger than the changes counted against the budget.\<close>

theorem apply_spans_simultaneous:
  assumes "spans_ok 0 (length c) sps" "distinct (map (\<lambda>((a, b), t). a) sps)"
  shows "apply_spans c sps = splice 0 c sps \<and> ed c (apply_spans c sps) \<le> span_changes c sps"
  using sorted_apply_spans [OF assms] spans_ok_sorted [OF assms(1)] ed_splice [OF assms(1)] by simp

lemma apply_spans_simultaneous_witness:
  "apply_spans (tx ''a b c'') [((0, 1), tx ''xx''), ((4, 5), tx ''y'')] = tx ''xx b y''"
proof -
  have "spans_ok 0 (length (tx ''a b c'')) [((0, 1), tx ''xx''), ((4, 5), tx ''y'')]"
    by (simp add: tx_def)
  from apply_spans_simultaneous [OF this] show ?thesis by (simp add: slice_def tx_def)
qed

lemma edit_fold_replace:
  assumes "distinct (map fst m)" "fst ` set m \<inter> fst ` set (text_by_id res) = {}"
    and "\<And>lid t. (lid, t) \<in> set m \<Longrightarrow>
      edit_line sha canon tgt guard by_id digests (lid, [ReplaceLine lid t None None]) = (Some t, [])"
  shows "foldl (edit_step sha canon tgt guard by_id digests) res
      (map (\<lambda>(lid, t). (lid, [ReplaceLine lid t None None])) m)
    = \<lparr>text_by_id = text_by_id res @ m, rejected = rejected res\<rparr>"
  using assms
proof (induction m arbitrary: res)
  case (Cons lt m)
  obtain lid t where lt: "lt = (lid, t)" by fastforce
  have step: "edit_step sha canon tgt guard by_id digests res (lid, [ReplaceLine lid t None None])
      = \<lparr>text_by_id = text_by_id res @ [(lid, t)], rejected = rejected res\<rparr>"
    using Cons.prems by (simp add: edit_step_def lt dict_set_new)
  have "foldl (edit_step sha canon tgt guard by_id digests)
      \<lparr>text_by_id = text_by_id res @ [(lid, t)], rejected = rejected res\<rparr>
      (map (\<lambda>(lid, t). (lid, [ReplaceLine lid t None None])) m)
    = \<lparr>text_by_id = (text_by_id res @ [(lid, t)]) @ m, rejected = rejected res\<rparr>"
    using Cons.IH [of "\<lparr>text_by_id = text_by_id res @ [(lid, t)], rejected = rejected res\<rparr>"]
      Cons.prems by (auto simp: lt)
  then show ?case by (simp add: lt step)
qed simp



end
