(* ===== verification/Hyphenation.thy ===== *)
theory Hyphenation
  imports Pairing
begin

text \<open>
  \<open>core/hyphenation.py\<close>: the pair-level guards and the reconciliation of a hyphenated pair,
  and the context a producer is sent for each line.

  Facts: \<open>reconcile_hyphen_pair\<close> returns both corrections or both sources, never a mix; what
  it lets through satisfies every pair invariant; the outcome classes read that result back;
  and a producer is told of a join exactly when the line's link exists.
\<close>

section \<open>Pair drift\<close>

text \<open>\<open>int(x)\<close>\<close>

definition py_int :: "rat \<Rightarrow> int" where
  "py_int x = (if x \<ge> 0 then \<lfloor>x\<rfloor> else \<lceil>x\<rceil>)"

definition part1_text_migrated :: "guard_config \<Rightarrow> ptext \<Rightarrow> ptext \<Rightarrow> bool" where
  "part1_text_migrated cfg ocr corrected =
     (let ocr_bare = py_rstrip (strip_trailing_break_marks ocr);
          corrected_bare = rstrip_of (\<lambda>c. c = 46) (strip_trailing_break_marks corrected);
          ocr_words = py_split ocr_bare;
          corrected_words = py_split corrected_bare
      in
      if int (length corrected_words) > int (length ocr_words) + part1_max_word_growth cfg then True
      else if ocr_words \<noteq> [] \<and> corrected_words \<noteq> [] \<and>
        int (length (strip_trailing_break_marks (last corrected_words)))
          > int (length (strip_trailing_break_marks (last ocr_words)))
            + part1_last_word_char_growth cfg
      then True
      else if of_nat (length corrected_bare)
          > of_nat (length ocr_bare) * part1_char_growth_ratio cfg
            + of_int (part1_char_growth_slack cfg)
      then True
      else False)"

definition part2_text_migrated :: "guard_config \<Rightarrow> ptext \<Rightarrow> ptext \<Rightarrow> bool" where
  "part2_text_migrated cfg ocr corrected =
     (let ocr_words = py_split ocr;
          corrected_words = py_split corrected;
          expansion = max (part2_expansion_floor cfg)
                          (py_int (of_nat (length ocr_words) * part2_expansion_ratio cfg))
      in
      if ocr_words \<noteq> [] \<and>
         of_nat (length corrected_words) < of_nat (length ocr_words) * part2_collapse_ratio cfg
      then True
      else if int (length corrected_words) > int (length ocr_words) + expansion then True
      else False)"

definition part2_boundary_word_diverged ::
  "unicode \<Rightarrow> guard_config \<Rightarrow> ptext \<Rightarrow> ptext \<Rightarrow> bool" where
  "part2_boundary_word_diverged u cfg ocr corrected =
     (let ocr_words = py_split ocr; cor_words = py_split corrected in
      if ocr_words = [] \<or> cor_words = [] then False
      else
        (let ocr_first = ncfold u (hd ocr_words);
             cor_first = ncfold u (hd cor_words);
             prefix_len = min (boundary_prefix_len cfg)
                              (min (int (length ocr_first)) (int (length cor_first)));
             len_ratio = of_nat (length cor_first) / of_nat (max 1 (length ocr_first))
         in
         if ocr_first = cor_first then False
         else if prefix_len \<ge> boundary_prefix_len cfg \<and>
           take (nat prefix_len) ocr_first = take (nat prefix_len) cor_first \<and>
           boundary_len_ratio_min cfg \<le> len_ratio \<and> len_ratio \<le> boundary_len_ratio_max cfg
         then False
         else True))"

record reconcile_metrics =
  coherent :: int
  fallback :: int
  neutralised :: int

definition metrics_total :: "reconcile_metrics \<Rightarrow> int" where
  "metrics_total m = coherent m + fallback m + neutralised m"

section \<open>What a producer is told of a line\<close>

record line_geometry =
  geo_coords :: coords
  geo_page_width :: int
  geo_page_height :: int

record line_context =
  lc_line_id :: ident
  lc_prev_text :: "ptext option"
  lc_ocr_text :: ptext
  lc_next_text :: "ptext option"
  lc_hyphenation_role :: "string option"
  lc_hyphen_candidate :: "bool option"
  lc_join_with_next :: "bool option"
  lc_join_with_prev :: "bool option"
  lc_backward_join_candidate :: "ptext option"
  lc_forward_join_candidate :: "ptext option"
  lc_geometry :: "line_geometry option"

definition geometry_of ::
  "bool \<Rightarrow> (ident \<Rightarrow> (int \<times> int) option) option \<Rightarrow> line_manifest \<Rightarrow> line_geometry option" where
  "geometry_of include_geometry page_dims lm =
     (if \<not> include_geometry then None
      else (case page_dims of
              None \<Rightarrow> None
            | Some dims \<Rightarrow>
                (case dims (page_id lm) of
                   None \<Rightarrow> None
                 | Some (w, h) \<Rightarrow> Some \<lparr>geo_coords = coords_of lm, geo_page_width = w,
                                          geo_page_height = h\<rparr>)))"

definition neighbour_text :: "(ident \<Rightarrow> line_manifest option) \<Rightarrow> ident option \<Rightarrow> ptext option" where
  "neighbour_text by_id i = (if truthy i then map_option ocr_text (by_id (the i)) else None)"

text \<open>\<open>b or None\<close>\<close>

definition true_or_none :: "bool \<Rightarrow> bool option" where
  "true_or_none b = (if b then Some True else None)"

definition enrich_line ::
  "(ident \<Rightarrow> line_manifest option) \<Rightarrow> bool \<Rightarrow> (ident \<Rightarrow> (int \<times> int) option) option \<Rightarrow>
   line_manifest \<Rightarrow> line_context" where
  "enrich_line by_id include_geometry page_dims lm =
     (let base = \<lparr>lc_line_id = line_id lm,
                  lc_prev_text = neighbour_text by_id (prev_line_id lm),
                  lc_ocr_text = ocr_text lm,
                  lc_next_text = neighbour_text by_id (next_line_id lm),
                  lc_hyphenation_role = None, lc_hyphen_candidate = None,
                  lc_join_with_next = None, lc_join_with_prev = None,
                  lc_backward_join_candidate = None, lc_forward_join_candidate = None,
                  lc_geometry = geometry_of include_geometry page_dims lm\<rparr>
      in
      if hyphen_role lm = NONE then base
      else
        (let joins_next = (forward_partner_ref lm \<noteq> None);
             joins_prev = (backward_partner_ref lm \<noteq> None);
             forward_subs = (if hyphen_role lm = BOTH then hyphen_forward_subs_content lm
                             else hyphen_subs_content lm)
         in base\<lparr>lc_hyphenation_role := Some (role_value (hyphen_role lm)),
                 lc_hyphen_candidate := Some True,
                 lc_join_with_next := true_or_none joins_next,
                 lc_join_with_prev := true_or_none joins_prev,
                 lc_backward_join_candidate :=
                   (if joins_prev then py_or (hyphen_subs_content lm) None else None),
                 lc_forward_join_candidate :=
                   (if joins_next then py_or forward_subs None else None)\<rparr>))"

definition enrich_chunk_lines ::
  "line_manifest list \<Rightarrow> (ident \<Rightarrow> line_manifest option) \<Rightarrow> bool \<Rightarrow>
   (ident \<Rightarrow> (int \<times> int) option) option \<Rightarrow> line_context list" where
  "enrich_chunk_lines lms by_id include_geometry page_dims =
     map (enrich_line by_id include_geometry page_dims) lms"

section \<open>Reconciliation\<close>

text \<open>\<open>subs_arg\<close> is \<open>None\<close> when the caller does not pass \<open>subs_content\<close> (the sentinel), and
  \<open>Some s\<close> when it passes \<open>s\<close>.\<close>

definition reconcile_hyphen_pair ::
  "unicode \<Rightarrow> guard_config \<Rightarrow> line_manifest \<Rightarrow> line_manifest \<Rightarrow> ptext \<Rightarrow> ptext \<Rightarrow>
   ptext option option \<Rightarrow> bool option \<Rightarrow> ptext \<times> ptext \<times> ptext option" where
  "reconcile_hyphen_pair u cfg part1 part2 corrected1 corrected2 subs_arg explicit_arg =
     (let effective_subs = (case subs_arg of None \<Rightarrow> hyphen_subs_content part1 | Some s \<Rightarrow> s);
          effective_explicit =
            (case explicit_arg of None \<Rightarrow> hyphen_source_explicit part1 | Some e \<Rightarrow> e);
          fall = (ocr_text part1, ocr_text part2, None);
          tokens1 = py_split corrected1;
          tokens2 = py_split corrected2
      in
      if part1_text_migrated cfg (ocr_text part1) corrected1 then fall
      else if part2_text_migrated cfg (ocr_text part2) corrected2 then fall
      else if \<not> ends_in (set HYPHEN_CHARS) (py_rstrip corrected1) then fall
      else if tokens1 = [] \<or> tokens2 = [] then fall
      else if length tokens2 > length (py_split (ocr_text part2)) then fall
      else if effective_explicit then
        (if truthy effective_subs then
           (let left_bare = strip_trailing_break_marks (last tokens1);
                joined = left_bare @ hd tokens2
            in if ncfold u joined = ncfold u (the effective_subs)
               then (corrected1, corrected2, effective_subs)
               else fall)
         else if part2_boundary_word_diverged u cfg (ocr_text part2) corrected2 then fall
         else (corrected1, corrected2, None))
      else if part2_boundary_word_diverged u cfg (ocr_text part2) corrected2 then fall
      else (corrected1, corrected2, (if subs_arg \<noteq> None then effective_subs else None)))"

definition classify_reconcile_outcome ::
  "ptext \<Rightarrow> ptext \<Rightarrow> ptext \<Rightarrow> ptext \<Rightarrow> ptext \<Rightarrow> ptext \<Rightarrow> ptext option \<Rightarrow> string" where
  "classify_reconcile_outcome ocr1 ocr2 corrected1 corrected2 final1 final2 subs =
     (let proposed_change = (corrected1 \<noteq> ocr1 \<or> corrected2 \<noteq> ocr2);
          reverted = (final1 = ocr1 \<and> final2 = ocr2)
      in if reverted \<and> proposed_change then ''fallback''
         else if subs \<noteq> None then ''coherent''
         else ''neutralised'')"

section \<open>Facts\<close>

text \<open>What a pair must satisfy for its corrections to stand.\<close>

definition pair_admissible ::
  "unicode \<Rightarrow> guard_config \<Rightarrow> line_manifest \<Rightarrow> line_manifest \<Rightarrow> ptext \<Rightarrow> ptext \<Rightarrow>
   ptext option \<Rightarrow> bool \<Rightarrow> bool" where
  "pair_admissible u cfg part1 part2 corrected1 corrected2 subs explicit \<longleftrightarrow>
     \<not> part1_text_migrated cfg (ocr_text part1) corrected1 \<and>
     \<not> part2_text_migrated cfg (ocr_text part2) corrected2 \<and>
     ends_with_break_mark corrected1 \<and>
     py_split corrected1 \<noteq> [] \<and> py_split corrected2 \<noteq> [] \<and>
     length (py_split corrected2) \<le> length (py_split (ocr_text part2)) \<and>
     (if explicit \<and> truthy subs
      then ncfold u (strip_trailing_break_marks (last (py_split corrected1)) @ hd (py_split corrected2))
             = ncfold u (the subs)
      else \<not> part2_boundary_word_diverged u cfg (ocr_text part2) corrected2)"

lemma reconcile_eq:
  "reconcile_hyphen_pair u cfg part1 part2 c1 c2 subs_arg explicit_arg =
     (let subs = (case subs_arg of None \<Rightarrow> hyphen_subs_content part1 | Some s \<Rightarrow> s);
          explicit = (case explicit_arg of None \<Rightarrow> hyphen_source_explicit part1 | Some e \<Rightarrow> e)
      in if pair_admissible u cfg part1 part2 c1 c2 subs explicit
         then (c1, c2, if explicit then (if truthy subs then subs else None)
                       else if subs_arg \<noteq> None then subs else None)
         else (ocr_text part1, ocr_text part2, None))"
proof -
  define subs where "subs = (case subs_arg of None \<Rightarrow> hyphen_subs_content part1 | Some s \<Rightarrow> s)"
  define explicit where
    "explicit = (case explicit_arg of None \<Rightarrow> hyphen_source_explicit part1 | Some e \<Rightarrow> e)"
  show ?thesis
    unfolding reconcile_hyphen_pair_def pair_admissible_def ends_with_break_mark_def
      subs_def [symmetric] explicit_def [symmetric]
    by (simp add: Let_def not_le)
qed

section \<open>Properties\<close>

text \<open>A reconciled pair carries both corrections or both source texts, never a mix. When it
  carries anything but the sources, the first line still ends in a break mark, neither line lost
  all its words, the second line has no more words than its source (lines never merge), and for
  a marked-up pair with a joined word the two fragments spell that word, which is kept.\<close>

theorem reconcile_all_or_nothing:
  assumes "reconcile_hyphen_pair u cfg part1 part2 c1 c2 None None = (f1, f2, s)"
  shows "((f1, f2) = (c1, c2) \<or> (f1, f2, s) = (ocr_text part1, ocr_text part2, None)) \<and>
    ((f1, f2) \<noteq> (ocr_text part1, ocr_text part2) \<longrightarrow>
       ends_with_break_mark f1 \<and> py_split f1 \<noteq> [] \<and> py_split f2 \<noteq> [] \<and>
       length (py_split f2) \<le> length (py_split (ocr_text part2)) \<and>
       \<not> part1_text_migrated cfg (ocr_text part1) f1 \<and>
       \<not> part2_text_migrated cfg (ocr_text part2) f2 \<and>
       (hyphen_source_explicit part1 \<and> truthy (hyphen_subs_content part1) \<longrightarrow>
          s = hyphen_subs_content part1 \<and>
          ncfold u (strip_trailing_break_marks (last (py_split f1)) @ hd (py_split f2))
            = ncfold u (the (hyphen_subs_content part1))))"
  using assms unfolding reconcile_eq Let_def option.case
  by (auto simp: pair_admissible_def split: if_splits)

lemma reconcile_all_or_nothing_witness:
  "let p1 = (plain_line ''P'' ''a'' 1 (tx ''le Ber-''))\<lparr>hyphen_subs_content := Some (tx ''Berlin''),
               hyphen_source_explicit := True\<rparr>;
       p2 = plain_line ''P'' ''b'' 2 (tx ''lin, now'')
   in fst (reconcile_hyphen_pair ascii_unicode DEFAULT_GUARD_CONFIG p1 p2
             (tx ''Le Berlin'') (tx ''now'') None None) = tx ''le Ber-''"
proof -
  define p1 where "p1 = (plain_line ''P'' ''a'' 1 (tx ''le Ber-''))\<lparr>hyphen_subs_content :=
      Some (tx ''Berlin''), hyphen_source_explicit := True\<rparr>"
  define p2 where "p2 = plain_line ''P'' ''b'' 2 (tx ''lin, now'')"
  obtain f1 f2 s where r: "reconcile_hyphen_pair ascii_unicode DEFAULT_GUARD_CONFIG p1 p2
      (tx ''Le Berlin'') (tx ''now'') None None = (f1, f2, s)" by (metis prod_cases3)
  have "\<not> ends_with_break_mark (tx ''Le Berlin'')" by code_simp
  with reconcile_all_or_nothing [OF r] have "f1 = ocr_text p1" by auto
  with r show ?thesis by (simp add: p1_def p2_def plain_line_def)
qed

text \<open>C26: the outcome class of a reconciled pair can be trusted: \<open>fallback\<close> means both lines
  carry their source although a change was proposed, and otherwise both lines carry exactly
  what was proposed; \<open>coherent\<close> means a joined word was kept.\<close>

theorem reconcile_outcome_faithful:
  assumes "reconcile_hyphen_pair u cfg part1 part2 c1 c2 subs_arg explicit_arg = (f1, f2, s)"
    and "outcome = classify_reconcile_outcome (ocr_text part1) (ocr_text part2) c1 c2 f1 f2 s"
  shows "outcome \<in> {''fallback'', ''coherent'', ''neutralised''} \<and>
    (outcome = ''fallback'' \<longrightarrow> (f1, f2) = (ocr_text part1, ocr_text part2) \<and> (c1, c2) \<noteq> (f1, f2)) \<and>
    (outcome \<noteq> ''fallback'' \<longrightarrow> (f1, f2) = (c1, c2)) \<and>
    (outcome = ''coherent'' \<longrightarrow> s \<noteq> None)"
proof -
  have "(f1, f2) = (c1, c2) \<or> (f1, f2) = (ocr_text part1, ocr_text part2)"
    using assms(1) by (auto simp: reconcile_eq Let_def split: if_splits)
  then show ?thesis
    unfolding assms(2) by (auto simp: classify_reconcile_outcome_def Let_def)
qed

lemma reconcile_outcome_faithful_witness:
  "let p1 = (plain_line ''P'' ''a'' 1 (tx ''le Ber-''))\<lparr>hyphen_subs_content := Some (tx ''Berlin''),
               hyphen_source_explicit := True\<rparr>;
       p2 = plain_line ''P'' ''b'' 2 (tx ''lin, now'');
       (f1, f2, s) = reconcile_hyphen_pair ascii_unicode DEFAULT_GUARD_CONFIG p1 p2
                       (tx ''Le Ber-'') (tx ''lin now'') None None
   in (f1, f2) = (tx ''Le Ber-'', tx ''lin now'') \<and> s = Some (tx ''Berlin'')"
proof -
  define p1 where "p1 = (plain_line ''P'' ''a'' 1 (tx ''le Ber-''))\<lparr>hyphen_subs_content :=
      Some (tx ''Berlin''), hyphen_source_explicit := True\<rparr>"
  define p2 where "p2 = plain_line ''P'' ''b'' 2 (tx ''lin, now'')"
  obtain f1 f2 s where r: "reconcile_hyphen_pair ascii_unicode DEFAULT_GUARD_CONFIG p1 p2
      (tx ''Le Ber-'') (tx ''lin now'') None None = (f1, f2, s)" by (metis prod_cases3)
  have s: "s = Some (tx ''Berlin'')"
  proof -
    have "snd (snd (reconcile_hyphen_pair ascii_unicode DEFAULT_GUARD_CONFIG p1 p2
        (tx ''Le Ber-'') (tx ''lin now'') None None)) = Some (tx ''Berlin'')"
      unfolding p1_def p2_def by code_simp
    with r show ?thesis by simp
  qed
  have f: "f1 = tx ''Le Ber-''"
  proof -
    have "fst (reconcile_hyphen_pair ascii_unicode DEFAULT_GUARD_CONFIG p1 p2
        (tx ''Le Ber-'') (tx ''lin now'') None None) = tx ''Le Ber-''"
      unfolding p1_def p2_def by code_simp
    with r show ?thesis by simp
  qed
  have "classify_reconcile_outcome (ocr_text p1) (ocr_text p2) (tx ''Le Ber-'') (tx ''lin now'') f1 f2 s
      \<noteq> ''fallback''"
    by (simp add: classify_reconcile_outcome_def s f p1_def plain_line_def tx_def)
  with reconcile_outcome_faithful [OF r refl] have "(f1, f2) = (tx ''Le Ber-'', tx ''lin now'')"
    by blast
  with r s show ?thesis by (simp add: p1_def p2_def)
qed

text \<open>A producer is told that a line joins the next or the previous one exactly when the
  line carries that link, and a joined word is offered only with the link; the text of the line
  is passed as it is.\<close>

theorem enrich_joins_follow_links:
  "let lc = enrich_line by_id geo dims lm in
   (lc_join_with_next lc = Some True) = (forward_partner_ref lm \<noteq> None) \<and>
   (lc_join_with_prev lc = Some True) = (backward_partner_ref lm \<noteq> None) \<and>
   (forward_partner_ref lm = None \<longrightarrow> lc_forward_join_candidate lc = None) \<and>
   (backward_partner_ref lm = None \<longrightarrow> lc_backward_join_candidate lc = None) \<and>
   lc_ocr_text lc = ocr_text lm \<and> lc_line_id lc = line_id lm"
proof (cases "hyphen_role lm = NONE")
  case True
  then have "forward_partner_ref lm = None" "backward_partner_ref lm = None"
    by (simp_all add: forward_partner_ref_def backward_partner_ref_def)
  with True show ?thesis by (simp add: enrich_line_def Let_def)
next
  case False
  then show ?thesis by (simp add: enrich_line_def Let_def true_or_none_def)
qed

lemma enrich_joins_follow_links_witness:
  "lc_join_with_next (enrich_line (\<lambda>_. None) False None
     ((plain_line ''P'' ''a'' 1 (tx ''Ber-''))\<lparr>hyphen_role := PART1\<rparr>)) \<noteq> Some True"
  using enrich_joins_follow_links [of "\<lambda>_. None" False None
      "(plain_line ''P'' ''a'' 1 (tx ''Ber-''))\<lparr>hyphen_role := PART1\<rparr>"]
  by (simp add: Let_def forward_partner_ref_def pair_ref_def plain_line_def)

end
