(* ===== verification/Fidelity.thy ===== *)
theory Fidelity
  imports Manifest Py_Text
begin

text \<open>
  \<open>core/fidelity.py\<close>: how faithfully a rewritten line carries its decided text.

  Facts: two texts with the same words have as many gaps, so the strict \<open>zip\<close> of the source never
  raises; no level is given exactly when the words differ by more than the declared removal; and
  the weakest level of a run is its worst.
\<close>

datatype projection_fidelity = EXACT | SOURCE_SPELLING | TOKEN_EQUIVALENT | NORMALIZED

definition FIDELITY_ORDER :: "projection_fidelity list" where
  "FIDELITY_ORDER = [EXACT, SOURCE_SPELLING, TOKEN_EQUIVALENT, NORMALIZED]"

text \<open>\<open>re.split(r"\S+", s)\<close>: the white space before, between and after the words.\<close>

fun gap_go :: "bool \<Rightarrow> ptext \<Rightarrow> ptext \<Rightarrow> ptext list" where
  "gap_go in_word gap [] = [gap]"
| "gap_go False gap (c # cs) =
     (if is_space c then gap_go False (gap @ [c]) cs else gap # gap_go True [] cs)"
| "gap_go True gap (c # cs) =
     (if is_space c then gap_go False [c] cs else gap_go True [] cs)"

definition word_gaps :: "ptext \<Rightarrow> ptext list" where
  "word_gaps s = gap_go False [] s"

definition interior_gaps :: "ptext \<Rightarrow> ptext list" where
  "interior_gaps s =
     (let parts = word_gaps (py_strip s) in if length parts > 2 then butlast (tl parts) else [])"

definition weakest :: "projection_fidelity option list \<Rightarrow> projection_fidelity option" where
  "weakest levels =
     List.find (\<lambda>l. Some l \<in> set levels) (rev FIDELITY_ORDER)"

text \<open>\<open>zip(..., strict=True)\<close> raises on lists of different lengths.\<close>

definition classify_projection_fidelity ::
  "ptext \<Rightarrow> ptext \<Rightarrow> ptext option \<Rightarrow> exn + projection_fidelity option" where
  "classify_projection_fidelity decided extracted verbatim =
     (let floor_level = (if verbatim \<noteq> None \<and> verbatim \<noteq> Some extracted
                         then SOURCE_SPELLING else EXACT)
      in
      if decided = extracted then Inr (Some floor_level)
      else if py_split decided \<noteq> py_split extracted then
        (if strip_invisibles decided = extracted then Inr (Some NORMALIZED) else Inr None)
      else
        (let ds = interior_gaps decided; es = interior_gaps extracted in
         if list_ex (\<lambda>(d, e). set d - set e \<noteq> {}) (zip ds es)
         then Inr (weakest [Some NORMALIZED, Some floor_level])
         else if length ds \<noteq> length es then Inl (Exn C_ValueError ''zip'')
         else Inr (weakest [Some TOKEN_EQUIVALENT, Some floor_level])))"

section \<open>Words and gaps\<close>

lemma gap_count:
  "length (gap_go False gap s) = Suc (length (split_go [] s))"
  "cur \<noteq> [] \<Longrightarrow> length (gap_go True gap s) = length (split_go cur s)"
proof (induction s arbitrary: gap cur)
  case (Cons c s)
  {
    case 1
    then show ?case using Cons(1) [of "gap @ [c]"] Cons(2) [of "[c]" "[]"] by simp
  next
    case 2
    then show ?case using Cons(1) [of "[c]"] Cons(2) [of "cur @ [c]" "[]"] by simp
  }
qed simp_all

lemma word_gaps_length: "length (word_gaps s) = Suc (length (py_split s))"
  by (simp add: word_gaps_def py_split_def gap_count)

lemma split_go_lstrip: "split_go [] (dropWhile is_space s) = split_go [] s"
  by (induction s) simp_all

lemma split_go_snoc_space: "is_space c \<Longrightarrow> split_go cur (s @ [c]) = split_go cur s"
  by (induction cur s rule: split_go.induct) auto

lemma split_go_rstrip: "split_go cur (rstrip_of is_space s) = split_go cur s"
proof (induction s arbitrary: cur rule: rev_induct)
  case (snoc c s)
  then show ?case by (simp add: rstrip_of_def split_go_snoc_space)
qed (simp add: rstrip_of_def)

lemma py_split_strip [simp]: "py_split (py_strip s) = py_split s"
  by (simp add: py_split_def py_strip_def strip_of_def split_go_lstrip split_go_rstrip)

lemma interior_gaps_length: "length (interior_gaps s) = length (py_split s) - 1"
  by (auto simp: interior_gaps_def Let_def word_gaps_length)

section \<open>Levels\<close>

fun fidelity_rank :: "projection_fidelity \<Rightarrow> nat" where
  "fidelity_rank EXACT = 0"
| "fidelity_rank SOURCE_SPELLING = 1"
| "fidelity_rank TOKEN_EQUIVALENT = 2"
| "fidelity_rank NORMALIZED = 3"

instantiation projection_fidelity :: linorder
begin

definition less_eq_projection_fidelity :: "projection_fidelity \<Rightarrow> projection_fidelity \<Rightarrow> bool" where
  "less_eq_projection_fidelity a b \<longleftrightarrow> fidelity_rank a \<le> fidelity_rank b"

definition less_projection_fidelity :: "projection_fidelity \<Rightarrow> projection_fidelity \<Rightarrow> bool" where
  "less_projection_fidelity a b \<longleftrightarrow> fidelity_rank a < fidelity_rank b"

instance
proof
  fix x y :: projection_fidelity
  show "x = y" if "x \<le> y" "y \<le> x"
    using that by (cases x; cases y) (simp_all add: less_eq_projection_fidelity_def)
qed (auto simp: less_eq_projection_fidelity_def less_projection_fidelity_def)

end

lemma weakest_None: "weakest levels = None \<longleftrightarrow> (\<forall>l. Some l \<notin> set levels)"
proof -
  have "(\<forall>l. Some l \<notin> set levels) \<longleftrightarrow> (\<forall>l \<in> set FIDELITY_ORDER. Some l \<notin> set levels)"
    unfolding FIDELITY_ORDER_def using projection_fidelity.exhaust by (simp; metis)
  then show ?thesis by (auto simp: weakest_def find_None_iff)
qed

lemma weakest_Some:
  assumes "weakest levels = Some m"
  shows "Some m \<in> set levels \<and> (Some l \<in> set levels \<longrightarrow> l \<le> m)"
  using assms unfolding weakest_def FIDELITY_ORDER_def
  by (cases l) (auto simp: less_eq_projection_fidelity_def split: if_splits)

lemma weakest_max: "weakest [Some a, Some b] = Some (max a b)"
  by (cases a; cases b) (simp_all add: weakest_def FIDELITY_ORDER_def max_def less_eq_projection_fidelity_def)

section \<open>Properties\<close>

text \<open>Grading a rewritten line never raises; it gives no level exactly when the words differ
  and stripping the invisible characters does not explain the difference, and the exact level
  exactly when the artefact says the decided text character for character, read verbatim too.\<close>

theorem classify_projection_fidelity_spec:
  "\<exists>g. classify_projection_fidelity decided extracted verbatim = Inr g \<and>
     (g = None) = (py_split decided \<noteq> py_split extracted \<and> strip_invisibles decided \<noteq> extracted) \<and>
     (g = Some EXACT) = (decided = extracted \<and> verbatim \<in> {None, Some extracted})"
proof -
  have len: "length (interior_gaps decided) = length (interior_gaps extracted)"
    if "py_split decided = py_split extracted"
    using that by (simp add: interior_gaps_length)
  have mx: "max NORMALIZED l \<noteq> EXACT \<and> max TOKEN_EQUIVALENT l \<noteq> EXACT" for l
    by (cases l) (simp_all add: max_def less_eq_projection_fidelity_def)
  show ?thesis
    unfolding classify_projection_fidelity_def Let_def weakest_max
    using len mx by (cases verbatim) auto
qed

text \<open>The weakest of the levels of a run is one of them and no level of the run is worse;
  there is none exactly when no line was graded.\<close>

theorem weakest_is_worst:
  "case weakest levels of
     None \<Rightarrow> {l. Some l \<in> set levels} = {}
   | Some m \<Rightarrow> Some m \<in> set levels \<and> Max {l. Some l \<in> set levels} = m"
proof (cases "weakest levels")
  case None
  then have "{l. Some l \<in> set levels} = {}" by (simp add: weakest_None)
  with None show ?thesis by simp
next
  case (Some m)
  have "finite {l. Some l \<in> set levels}"
    by (rule finite_subset [of _ "the ` set levels"]) force+
  then have "Max {l. Some l \<in> set levels} = m"
    using weakest_Some [OF Some] by (intro Max_eqI) auto
  with weakest_Some [OF Some] Some show ?thesis by simp
qed

end
