(* ===== verification/Run_State.thy ===== *)
theory Run_State
  imports Units Guards Editing Hyphenation Fidelity
begin

text \<open>
  What a run keeps and how it decides: \<open>core/context.py\<close>, \<open>core/workspace.py\<close>,
  \<open>core/traces.py\<close>, \<open>core/decide.py\<close> and \<open>core/indexing.py\<close>.

  The source shares mutable manifest objects between its indices. Here the objects live in one
  store keyed by line reference (\<open>rn_lines\<close>), the indices hold references, and a write goes
  through \<open>update_line\<close>, so aliasing is kept: whoever looks the reference up next sees it.
  The state of a run is the store, the traces (\<open>None\<close> when the host keeps none) and the
  accumulated counters.

  The locale \<open>run_pass\<close> states what every step of a run promises: a line's source never
  changes, a decision is never undone (\<open>PENDING\<close> may become \<open>CORRECTED\<close>, both may become
  \<open>FALLBACK\<close>, and nothing leaves \<open>FALLBACK\<close>), and the coherence of text, status and reason is
  kept. Its facts are proved once for any sequence of steps.
\<close>

section \<open>Traces\<close>

record line_trace =
  tr_line_id :: ident
  tr_page_id :: ident
  tr_source_ocr_text :: ptext
  tr_model_input_text :: "ptext option"
  tr_model_corrected_text :: "ptext option"
  tr_projected_text :: "ptext option"
  tr_output_alto_text :: "ptext option"
  tr_proposal_features :: "proposal_features option"
  tr_hyphen_role :: "string option"
  tr_rewriter_path :: "string option"
  tr_projection_losses :: "(string, int) dict option"
  tr_projection_fidelity :: "projection_fidelity option"
  tr_word_order_suspected :: "bool option"
  tr_validation_status :: "string option"
  tr_fallback_reason :: "string option"

section \<open>The run\<close>

record usage =
  input_tokens :: int
  output_tokens :: int
  response_ids :: "ident list"

definition no_usage :: usage where
  "no_usage = \<lparr>input_tokens = 0, output_tokens = 0, response_ids = []\<rparr>"

definition total_tokens :: "usage \<Rightarrow> int" where
  "total_tokens u = input_tokens u + output_tokens u"

definition usage_add :: "usage \<Rightarrow> usage \<Rightarrow> usage" where
  "usage_add a b = \<lparr>input_tokens = input_tokens a + input_tokens b,
                    output_tokens = output_tokens a + output_tokens b,
                    response_ids = response_ids a @ response_ids b\<rparr>"

record run_context =
  retry_count :: int
  fallback_chunks :: int
  lines_skipped :: int
  escalated_lines :: int
  producer_calls :: int
  ctx_metrics :: reconcile_metrics
  ctx_usage :: usage
  producer_ops :: "(lref, edit_op list \<times> ptext) dict"
  ctx_hyphen_splits :: "hyphen_split list"
  edit_rejections :: "refused_edit list"

definition new_context :: run_context where
  "new_context =
     \<lparr>retry_count = 0, fallback_chunks = 0, lines_skipped = 0, escalated_lines = 0,
      producer_calls = 0, ctx_metrics = \<lparr>coherent = 0, fallback = 0, neutralised = 0\<rparr>,
      ctx_usage = no_usage, producer_ops = [], ctx_hyphen_splits = [], edit_rejections = []\<rparr>"

record run =
  rn_lines :: "(lref, line_manifest) dict"
  rn_traces :: "(lref, line_trace) dict option"
  rn_ctx :: run_context

definition line_at :: "run \<Rightarrow> lref \<Rightarrow> line_manifest option" where
  "line_at r ref = map_of (rn_lines r) ref"

definition trace_at :: "run \<Rightarrow> lref \<Rightarrow> line_trace option" where
  "trace_at r ref = (case rn_traces r of None \<Rightarrow> None | Some ts \<Rightarrow> map_of ts ref)"

definition update_line :: "(line_manifest \<Rightarrow> line_manifest) \<Rightarrow> lref \<Rightarrow> run \<Rightarrow> run" where
  "update_line f ref r =
     (case line_at r ref of None \<Rightarrow> r
      | Some lm \<Rightarrow> r\<lparr>rn_lines := dict_set ref (f lm) (rn_lines r)\<rparr>)"

definition update_ctx :: "(run_context \<Rightarrow> run_context) \<Rightarrow> run \<Rightarrow> run" where
  "update_ctx f r = r\<lparr>rn_ctx := f (rn_ctx r)\<rparr>"

text \<open>\<open>_set_trace\<close>: a line without a trace, and a run without traces, is left alone.\<close>

definition set_trace :: "(line_trace \<Rightarrow> line_trace) \<Rightarrow> lref \<Rightarrow> run \<Rightarrow> run" where
  "set_trace f ref r =
     (case rn_traces r of None \<Rightarrow> r
      | Some ts \<Rightarrow> (case map_of ts ref of None \<Rightarrow> r
          | Some t \<Rightarrow> r\<lparr>rn_traces := Some (dict_set ref (f t) ts)\<rparr>))"

fun status_value :: "line_status \<Rightarrow> string" where
  "status_value PENDING = ''pending''"
| "status_value CORRECTED = ''corrected''"
| "status_value FALLBACK = ''fallback''"
| "status_value FAILED = ''failed''"

definition finalize_chunk_traces :: "lref list \<Rightarrow> run \<Rightarrow> run" where
  "finalize_chunk_traces refs r =
     foldl (\<lambda>r ref. case line_at r ref of None \<Rightarrow> r
        | Some lm \<Rightarrow>
            set_trace (\<lambda>t. t\<lparr>tr_projected_text := Some (case corrected_text lm of
                               None \<Rightarrow> ocr_text lm | Some x \<Rightarrow> x),
                             tr_validation_status := Some (status_value (status lm))\<rparr>) ref r) r refs"

section \<open>The three verbs\<close>

definition accept :: "ptext \<Rightarrow> lref \<Rightarrow> run \<Rightarrow> run" where
  "accept new ref r =
     set_trace (\<lambda>t. t\<lparr>tr_projected_text := Some new,
                      tr_validation_status := Some (status_value CORRECTED)\<rparr>) ref
       (update_line (\<lambda>lm. lm\<lparr>corrected_text := Some new, status := CORRECTED\<rparr>) ref r)"

definition fall_back :: "string \<Rightarrow> lref \<Rightarrow> run \<Rightarrow> run" where
  "fall_back why ref r =
     (case line_at r ref of None \<Rightarrow> r
      | Some lm \<Rightarrow>
          set_trace (\<lambda>t. if truthy (tr_fallback_reason t) then t
                         else t\<lparr>tr_fallback_reason := Some why\<rparr>) ref
            (set_trace (\<lambda>t. t\<lparr>tr_projected_text := Some (ocr_text lm),
                              tr_validation_status := Some (status_value FALLBACK)\<rparr>) ref
              (update_line (\<lambda>lm. lm\<lparr>corrected_text := Some (ocr_text lm), status := FALLBACK\<rparr>)
                 ref r)))"

definition renormalise :: "ptext \<Rightarrow> lref \<Rightarrow> run \<Rightarrow> run" where
  "renormalise new ref r = update_line (\<lambda>lm. lm\<lparr>corrected_text := Some new\<rparr>) ref r"

definition fall_back_all :: "string \<Rightarrow> lref list \<Rightarrow> run \<Rightarrow> run" where
  "fall_back_all why refs r = foldl (\<lambda>r ref. fall_back why ref r) r refs"

section \<open>Indices\<close>

record document_index =
  ix_traces :: "(lref, line_trace) dict"
  ix_lines :: "(lref, line_manifest) dict"
  ix_hyphen_pairs :: nat

definition new_trace :: "line_manifest \<Rightarrow> line_trace" where
  "new_trace lm =
     \<lparr>tr_line_id = line_id lm, tr_page_id = page_id lm, tr_source_ocr_text = ocr_text lm,
      tr_model_input_text = None, tr_model_corrected_text = None, tr_projected_text = None,
      tr_output_alto_text = None, tr_proposal_features = None,
      tr_hyphen_role = Some (role_value (hyphen_role lm)), tr_rewriter_path = None,
      tr_projection_losses = None, tr_projection_fidelity = None, tr_word_order_suspected = None,
      tr_validation_status = None, tr_fallback_reason = None\<rparr>"

definition document_lines :: "document_manifest \<Rightarrow> line_manifest list" where
  "document_lines d = concat (map pg_lines (doc_pages d))"

definition index_document :: "document_manifest \<Rightarrow> document_index" where
  "index_document d =
     \<lparr>ix_traces = foldl (\<lambda>ts lm. dict_set (line_ref lm) (new_trace lm) ts) [] (document_lines d),
      ix_lines = dict_of line_ref (document_lines d),
      ix_hyphen_pairs = length (filter (\<lambda>lm. opens_unit (hyphen_role lm)) (document_lines d))\<rparr>"

text \<open>The page's partners on other pages, as references into the store.\<close>

definition partner_slots :: "line_manifest \<Rightarrow> (ident option \<times> ident option) list" where
  "partner_slots lm =
     [(hyphen_pair_line_id lm, hyphen_pair_page_id lm),
      (hyphen_forward_pair_id lm, hyphen_forward_pair_page_id lm)]"

definition cross_page_partners ::
  "ident \<Rightarrow> line_manifest list \<Rightarrow> (lref, line_manifest) dict \<Rightarrow> lref list option" where
  "cross_page_partners pid lines store =
     (let wanted = concat (map (\<lambda>lm. List.map_filter (\<lambda>(l, p).
              if \<not> truthy l \<or> \<not> truthy p then None
              else if the p = pid then None
              else (let ref = LineRef (the p) (the l) in
                    if ref \<in> fst ` set store then Some ref else None)) (partner_slots lm)) lines);
          refs = map fst (dict_of id wanted)
      in if refs = [] then None else Some refs)"

text \<open>\<open>PageWorkspace\<close>: \<open>line_by_id\<close> as the page and its line ids, and the partners. The traces
  are the run's.\<close>

record page_workspace =
  ws_page :: ident
  ws_lines :: "(ident, lref) dict"
  ws_partners :: "lref list option"

definition new_run :: "document_manifest \<Rightarrow> run" where
  "new_run d =
     (let ix = index_document d in
      \<lparr>rn_lines = ix_lines ix, rn_traces = Some (ix_traces ix), rn_ctx = new_context\<rparr>)"

section \<open>What every step keeps\<close>

lemma map_of_set_at [simp]: "line_at (r\<lparr>rn_lines := ls\<rparr>) ref = map_of ls ref"
  by (simp add: line_at_def)

lemma line_at_update:
  "line_at (update_line f ref r) x = (if x = ref then map_option f (line_at r ref) else line_at r x)"
  by (auto simp: update_line_def line_at_def split: option.splits)

lemma line_at_set_trace [simp]: "line_at (set_trace f ref r) x = line_at r x"
  by (auto simp: set_trace_def line_at_def split: option.splits)

lemma line_at_ctx [simp]: "line_at (update_ctx f r) x = line_at r x"
  by (simp add: update_ctx_def line_at_def)

lemma trace_at_update [simp]: "trace_at (update_line f ref r) x = trace_at r x"
  by (auto simp: update_line_def trace_at_def split: option.splits)

lemma trace_at_ctx [simp]: "trace_at (update_ctx f r) x = trace_at r x"
  by (simp add: update_ctx_def trace_at_def)

lemma trace_at_set_trace:
  "trace_at (set_trace f ref r) x = (if x = ref then map_option f (trace_at r ref) else trace_at r x)"
  by (auto simp: set_trace_def trace_at_def split: option.splits)

lemma keys_update [simp]: "fst ` set (rn_lines (update_line f ref r)) = fst ` set (rn_lines r)"
  by (auto simp: update_line_def line_at_def split: option.splits)
    (metis domI dom_map_of_conv_image_fst imageE fst_conv image_eqI)+

text \<open>A line's decision fields fit its status.\<close>

definition settled :: "line_manifest \<Rightarrow> bool" where
  "settled lm \<longleftrightarrow>
     (case status lm of
        PENDING \<Rightarrow> corrected_text lm = None
      | CORRECTED \<Rightarrow> corrected_text lm \<noteq> None
      | FALLBACK \<Rightarrow> corrected_text lm = Some (ocr_text lm)
      | FAILED \<Rightarrow> False)"

text \<open>Invariant I-1 with the rest of what makes a run readable: a recorded fallback reason means
  a line that is at its source text.\<close>

definition coherent_run :: "run \<Rightarrow> bool" where
  "coherent_run r \<longleftrightarrow>
     (\<forall>ref lm. line_at r ref = Some lm \<longrightarrow> line_ref lm = ref \<and> settled lm \<and>
        (\<forall>t. trace_at r ref = Some t \<and> truthy (tr_fallback_reason t) \<longrightarrow> status lm = FALLBACK))"

text \<open>What no step may touch, and how far a decision has come.\<close>

definition fixed_part :: "line_manifest \<Rightarrow> line_manifest" where
  "fixed_part lm = (strip_links lm)\<lparr>corrected_text := None, status := PENDING\<rparr>"

fun decided_rank :: "line_status \<Rightarrow> nat" where
  "decided_rank PENDING = 0"
| "decided_rank CORRECTED = 1"
| "decided_rank FALLBACK = 2"
| "decided_rank FAILED = 2"

definition line_progress :: "line_manifest \<Rightarrow> line_manifest \<Rightarrow> bool" where
  "line_progress a b \<longleftrightarrow> fixed_part b = fixed_part a \<and> decided_rank (status a) \<le> decided_rank (status b)"

definition store_keys :: "run \<Rightarrow> lref list" where
  "store_keys r = map fst (rn_lines r)"

lemma store_keys_simps [simp]:
  "store_keys (update_line f ref r) = store_keys r" "store_keys (set_trace g ref r) = store_keys r"
  "store_keys (update_ctx h r) = store_keys r"
proof -
  have "line_at r ref = Some lm \<Longrightarrow> ref \<in> fst ` set (rn_lines r)" for lm
    by (force simp: line_at_def dest: map_of_SomeD)
  then show "store_keys (update_line f ref r) = store_keys r"
    by (auto simp: store_keys_def update_line_def keys_dict_set split: option.split)
qed (simp_all add: store_keys_def set_trace_def update_ctx_def split: option.split)

definition progress :: "run \<Rightarrow> run \<Rightarrow> bool" where
  "progress r r' \<longleftrightarrow>
     store_keys r' = store_keys r \<and> (\<forall>ref. rel_option line_progress (line_at r ref) (line_at r' ref))"

lemma line_progress_refl [simp]: "line_progress a a"
  by (simp add: line_progress_def)

lemma progress_same: "\<lbrakk>store_keys r' = store_keys r; \<And>ref. line_at r' ref = line_at r ref\<rbrakk> \<Longrightarrow> progress r r'"
  by (simp add: progress_def option.rel_refl)

lemma progress_refl [simp]: "progress r r"
  by (rule progress_same) simp_all

lemma progress_trans:
  assumes "progress a b" "progress b c"
  shows "progress a c"
  unfolding progress_def
proof (intro conjI allI)
  show "store_keys c = store_keys a" using assms by (simp add: progress_def)
  fix ref
  from assms have "rel_option line_progress (line_at a ref) (line_at b ref)"
    "rel_option line_progress (line_at b ref) (line_at c ref)" by (auto simp: progress_def)
  then show "rel_option line_progress (line_at a ref) (line_at c ref)"
    by (auto simp: line_progress_def rel_option_iff split: option.splits)
qed

lemma progress_None: "progress r r' \<Longrightarrow> line_at r' ref = None \<longleftrightarrow> line_at r ref = None"
  unfolding progress_def by (metis option.rel_distinct(1) option.rel_distinct(2) not_None_eq)

lemma progress_Some:
  assumes "progress r r'" "line_at r ref = Some a"
  obtains b where "line_at r' ref = Some b" "line_progress a b"
  using assms unfolding progress_def by (metis option_rel_Some1)

lemma fixed_part_fields:
  assumes "fixed_part a = fixed_part b"
  shows "ocr_text a = ocr_text b" "line_id a = line_id b" "page_id a = page_id b"
    "line_ref a = line_ref b" "word_count a = word_count b" "block_id a = block_id b"
proof -
  show "ocr_text a = ocr_text b" using arg_cong [OF assms, of ocr_text]
    by (simp add: fixed_part_def strip_links_def)
  show 2: "line_id a = line_id b" using arg_cong [OF assms, of line_id]
    by (simp add: fixed_part_def strip_links_def)
  show 3: "page_id a = page_id b" using arg_cong [OF assms, of page_id]
    by (simp add: fixed_part_def strip_links_def)
  show "line_ref a = line_ref b" by (simp add: line_ref_def 2 3)
  show "word_count a = word_count b" using arg_cong [OF assms, of word_count]
    by (simp add: fixed_part_def strip_links_def)
  show "block_id a = block_id b" using arg_cong [OF assms, of block_id]
    by (simp add: fixed_part_def strip_links_def)
qed

text \<open>The interface of a step.\<close>

locale run_pass =
  fixes step :: "'a \<Rightarrow> run \<Rightarrow> run"
    and ok :: "'a \<Rightarrow> run \<Rightarrow> bool"
  assumes keeps: "\<lbrakk>coherent_run r; ok a r\<rbrakk> \<Longrightarrow> coherent_run (step a r)"
    and advances: "\<lbrakk>coherent_run r; ok a r\<rbrakk> \<Longrightarrow> progress r (step a r)"
begin

lemma fold_keeps:
  assumes "coherent_run r" "\<And>r' a. \<lbrakk>coherent_run r'; progress r r'; a \<in> set as\<rbrakk> \<Longrightarrow> ok a r'"
  shows "coherent_run (foldl (\<lambda>r a. step a r) r as) \<and> progress r (foldl (\<lambda>r a. step a r) r as)"
  using assms(2)
proof (induction as rule: rev_induct)
  case Nil
  then show ?case using assms(1) by simp
next
  case (snoc a as)
  let ?r = "foldl (\<lambda>r a. step a r) r as"
  have ih: "coherent_run ?r" "progress r ?r" using snoc by auto
  with snoc.prems have "ok a ?r" by simp
  with keeps advances ih show ?case using progress_trans by auto
qed

end

text \<open>A step that rewrites one line and its trace.\<close>

lemma coherent_write:
  assumes "coherent_run r" and keys: "store_keys r' = store_keys r"
    and line: "\<And>x. line_at r' x = (if x = ref then map_option f (line_at r ref) else line_at r x)"
    and trace: "\<And>x t'. \<lbrakk>trace_at r' x = Some t'; truthy (tr_fallback_reason t')\<rbrakk> \<Longrightarrow>
      x = ref \<and> stamps \<or> (\<exists>t. trace_at r x = Some t \<and> truthy (tr_fallback_reason t))"
    and ok: "\<And>lm. line_at r ref = Some lm \<Longrightarrow> settled lm \<Longrightarrow> fixed_part (f lm) = fixed_part lm \<and>
      settled (f lm) \<and> decided_rank (status lm) \<le> decided_rank (status (f lm)) \<and>
      (stamps \<longrightarrow> status (f lm) = FALLBACK)"
  shows "coherent_run r' \<and> progress r r'"
proof
  show "coherent_run r'"
    unfolding coherent_run_def
  proof (intro allI impI)
    fix x lm'
    assume l: "line_at r' x = Some lm'"
    show "line_ref lm' = x \<and> settled lm' \<and>
        (\<forall>t. trace_at r' x = Some t \<and> truthy (tr_fallback_reason t) \<longrightarrow> status lm' = FALLBACK)"
    proof (cases "x = ref")
      case True
      with l line obtain lm where lm: "line_at r ref = Some lm" "lm' = f lm" by auto
      with assms(1) have c: "line_ref lm = ref" "settled lm"
        "\<And>t. trace_at r ref = Some t \<Longrightarrow> truthy (tr_fallback_reason t) \<Longrightarrow> status lm = FALLBACK"
        by (auto simp: coherent_run_def)
      note o = ok [OF lm(1) c(2)]
      have "status lm = FALLBACK \<Longrightarrow> status (f lm) = FALLBACK"
        using o by (cases "status (f lm)") (auto simp: settled_def)
      with c o trace True lm fixed_part_fields(4) show ?thesis by metis
    next
      case False
      with l line assms(1) trace show ?thesis unfolding coherent_run_def by (metis (no_types))
    qed
  qed
  show "progress r r'"
    unfolding progress_def
  proof (intro conjI allI)
    show "store_keys r' = store_keys r" by (rule keys)
    fix x
    show "rel_option line_progress (line_at r x) (line_at r' x)"
    proof (cases "line_at r x")
      case (Some lm)
      with assms(1) have "settled lm" by (auto simp: coherent_run_def)
      with Some ok show ?thesis by (auto simp: line line_progress_def)
    qed (auto simp: line)
  qed
qed

section \<open>The verbs as steps\<close>

lemma store_keys_verbs [simp]:
  "store_keys (accept new ref r) = store_keys r" "store_keys (fall_back why ref r) = store_keys r"
  "store_keys (renormalise new ref r) = store_keys r"
  by (simp_all add: accept_def fall_back_def renormalise_def split: option.split)

text \<open>Accepting is for a line that has not fallen.\<close>

definition not_fallen :: "lref \<Rightarrow> run \<Rightarrow> bool" where
  "not_fallen ref r \<longleftrightarrow> (\<forall>lm. line_at r ref = Some lm \<longrightarrow> status lm \<noteq> FALLBACK)"

lemma line_at_accept:
  "line_at (accept new ref r) x =
     (if x = ref then map_option (\<lambda>lm. lm\<lparr>corrected_text := Some new, status := CORRECTED\<rparr>) (line_at r ref)
      else line_at r x)"
  by (simp add: accept_def line_at_update)

lemma line_at_fall_back:
  "line_at (fall_back why ref r) x =
     (if x = ref then map_option (\<lambda>lm. lm\<lparr>corrected_text := Some (ocr_text lm), status := FALLBACK\<rparr>)
        (line_at r ref)
      else line_at r x)"
  by (simp add: fall_back_def line_at_update split: option.split)

interpretation accepting: run_pass
  "\<lambda>(ref, new). accept new ref" "\<lambda>(ref, new). not_fallen ref"
proof unfold_locales
  fix r :: run and a :: "lref \<times> ptext"
  obtain ref new where a: "a = (ref, new)" by fastforce
  assume c: "coherent_run r" and "(case a of (ref, new) \<Rightarrow> not_fallen ref) r"
  then have nf: "not_fallen ref r" by (simp add: a)
  let ?f = "\<lambda>lm. lm\<lparr>corrected_text := Some new, status := CORRECTED\<rparr>"
  have t: "\<exists>t. trace_at r x = Some t \<and> truthy (tr_fallback_reason t)"
    if "trace_at (accept new ref r) x = Some t'" "truthy (tr_fallback_reason t')" for x t'
    using that by (auto simp: accept_def trace_at_set_trace split: if_splits)
  have "coherent_run (accept new ref r) \<and> progress r (accept new ref r)"
  proof (rule coherent_write [where f = ?f and stamps = False, OF c store_keys_verbs(1) line_at_accept])
    fix lm
    assume "line_at r ref = Some lm" "settled lm"
    with nf show "fixed_part (?f lm) = fixed_part lm \<and> settled (?f lm) \<and>
        decided_rank (status lm) \<le> decided_rank (status (?f lm)) \<and> (False \<longrightarrow> status (?f lm) = FALLBACK)"
      by (cases "status lm") (simp_all add: fixed_part_def strip_links_def settled_def not_fallen_def)
  qed (use t in blast)
  then show "coherent_run ((case a of (ref, new) \<Rightarrow> accept new ref) r)"
    "progress r ((case a of (ref, new) \<Rightarrow> accept new ref) r)" by (simp_all add: a)
qed

interpretation falling: run_pass "\<lambda>(ref, why). fall_back why ref" "\<lambda>_ _. True"
proof unfold_locales
  fix r :: run and a :: "lref \<times> string"
  obtain ref why where a: "a = (ref, why)" by fastforce
  assume c: "coherent_run r"
  let ?f = "\<lambda>lm. lm\<lparr>corrected_text := Some (ocr_text lm), status := FALLBACK\<rparr>"
  have t: "x = ref \<and> True \<or> (\<exists>t. trace_at r x = Some t \<and> truthy (tr_fallback_reason t))"
    if "trace_at (fall_back why ref r) x = Some t'" "truthy (tr_fallback_reason t')" for x t'
    using that by (auto simp: fall_back_def trace_at_set_trace split: if_splits option.splits)
  have "coherent_run (fall_back why ref r) \<and> progress r (fall_back why ref r)"
  proof (rule coherent_write [where f = ?f and stamps = True, OF c store_keys_verbs(2) line_at_fall_back])
    fix lm
    assume "line_at r ref = Some lm" "settled lm"
    then show "fixed_part (?f lm) = fixed_part lm \<and> settled (?f lm) \<and>
        decided_rank (status lm) \<le> decided_rank (status (?f lm)) \<and> (True \<longrightarrow> status (?f lm) = FALLBACK)"
      by (cases "status lm") (simp_all add: fixed_part_def strip_links_def settled_def)
  qed (use t in blast)
  then show "coherent_run ((case a of (ref, why) \<Rightarrow> fall_back why ref) r)"
    "progress r ((case a of (ref, why) \<Rightarrow> fall_back why ref) r)" by (simp_all add: a)
qed

lemma fall_back_all_eq: "fall_back_all why refs r = foldl (\<lambda>r (ref, why). fall_back why ref r) r (map (\<lambda>x. (x, why)) refs)"
  by (simp add: fall_back_all_def foldl_map)

lemma fall_back_all_keeps:
  assumes "coherent_run r"
  shows "coherent_run (fall_back_all why refs r)" "progress r (fall_back_all why refs r)"
  using falling.fold_keeps [OF assms, of "map (\<lambda>x. (x, why)) refs"]
  by (auto simp: fall_back_all_eq split_def)

lemma line_at_fall_back_all:
  "line_at (fall_back_all why refs r) x =
     (if x \<in> set refs then map_option (\<lambda>lm. lm\<lparr>corrected_text := Some (ocr_text lm), status := FALLBACK\<rparr>)
        (line_at r x)
      else line_at r x)"
proof (induction refs arbitrary: r)
  case (Cons y refs)
  have "fall_back_all why (y # refs) r = fall_back_all why refs (fall_back why y r)"
    by (simp add: fall_back_all_def)
  with Cons [of "fall_back why y r"] show ?case
    by (cases "line_at r x") (auto simp: line_at_fall_back)
qed (simp add: fall_back_all_def)

text \<open>Writing a trace field other than the reason changes no decision.\<close>

lemma trace_write_keeps:
  assumes "coherent_run r" "\<And>t. tr_fallback_reason (f t) = tr_fallback_reason t"
  shows "coherent_run (set_trace f ref r)" "progress r (set_trace f ref r)"
proof -
  have "trace_at (set_trace f ref r) x = Some t' \<Longrightarrow> truthy (tr_fallback_reason t') \<Longrightarrow>
      \<exists>t. trace_at r x = Some t \<and> truthy (tr_fallback_reason t)" for x t'
    using assms(2) by (auto simp: trace_at_set_trace split: if_splits)
  with assms(1) show "coherent_run (set_trace f ref r)"
    unfolding coherent_run_def line_at_set_trace by blast
  show "progress r (set_trace f ref r)" by (rule progress_same) simp_all
qed

lemma ctx_write_keeps:
  "coherent_run r \<Longrightarrow> coherent_run (update_ctx f r)" "progress r (update_ctx f r)"
  by (simp_all add: coherent_run_def progress_same)

interpretation closing: run_pass "\<lambda>ref. finalize_chunk_traces [ref]" "\<lambda>_ _. True"
proof unfold_locales
  fix r :: run and ref
  assume c: "coherent_run r"
  show "coherent_run (finalize_chunk_traces [ref] r)" "progress r (finalize_chunk_traces [ref] r)"
    using trace_write_keeps [OF c] c by (simp_all add: finalize_chunk_traces_def split: option.split)
qed

lemma finalize_chunk_traces_keeps:
  assumes "coherent_run r"
  shows "coherent_run (finalize_chunk_traces refs r)" "progress r (finalize_chunk_traces refs r)"
proof -
  have "finalize_chunk_traces refs r = foldl (\<lambda>r ref. finalize_chunk_traces [ref] r) r refs"
    by (induction refs arbitrary: r) (simp_all add: finalize_chunk_traces_def)
  with closing.fold_keeps [OF assms, of refs]
  show "coherent_run (finalize_chunk_traces refs r)" "progress r (finalize_chunk_traces refs r)" by auto
qed

lemma line_at_finalize [simp]: "line_at (finalize_chunk_traces refs r) x = line_at r x"
  by (induction refs arbitrary: r) (auto simp: finalize_chunk_traces_def split: option.splits)

text \<open>Respelling is for a line whose correction stands.\<close>

definition stands :: "lref \<Rightarrow> run \<Rightarrow> bool" where
  "stands ref r \<longleftrightarrow> (\<forall>lm. line_at r ref = Some lm \<longrightarrow> status lm = CORRECTED)"

interpretation respelling: run_pass
  "\<lambda>(ref, new). renormalise new ref" "\<lambda>(ref, new). stands ref"
proof unfold_locales
  fix r :: run and a :: "lref \<times> ptext"
  obtain ref new where a: "a = (ref, new)" by fastforce
  assume c: "coherent_run r" and "(case a of (ref, new) \<Rightarrow> stands ref) r"
  then have st: "stands ref r" by (simp add: a)
  let ?f = "\<lambda>lm. lm\<lparr>corrected_text := Some new\<rparr>"
  have t: "\<exists>t. trace_at r x = Some t \<and> truthy (tr_fallback_reason t)"
    if "trace_at (renormalise new ref r) x = Some t'" "truthy (tr_fallback_reason t')" for x t'
    using that by (auto simp: renormalise_def)
  have "coherent_run (renormalise new ref r) \<and> progress r (renormalise new ref r)"
  proof (rule coherent_write [where f = ?f and stamps = False, OF c store_keys_verbs(3)])
    fix lm
    assume "line_at r ref = Some lm" "settled lm"
    with st show "fixed_part (?f lm) = fixed_part lm \<and> settled (?f lm) \<and>
        decided_rank (status lm) \<le> decided_rank (status (?f lm)) \<and> (False \<longrightarrow> status (?f lm) = FALLBACK)"
      by (simp add: fixed_part_def strip_links_def settled_def stands_def)
  qed (use t in \<open>auto simp: renormalise_def line_at_update\<close>)
  then show "coherent_run ((case a of (ref, new) \<Rightarrow> renormalise new ref) r)"
    "progress r ((case a of (ref, new) \<Rightarrow> renormalise new ref) r)" by (simp_all add: a)
qed

text \<open>A write to the hyphen fields only.\<close>

definition link_write :: "(line_manifest \<Rightarrow> line_manifest) \<Rightarrow> bool" where
  "link_write f \<longleftrightarrow>
     (\<forall>lm. strip_links (f lm) = strip_links lm)"

lemma strip_links_decision:
  assumes "strip_links a = strip_links b"
  shows "corrected_text a = corrected_text b" "status a = status b" "fixed_part a = fixed_part b"
  using arg_cong [OF assms, of corrected_text] arg_cong [OF assms, of status] assms
  by (simp_all add: strip_links_def fixed_part_def)

lemma settled_strip:
  assumes "strip_links a = strip_links b"
  shows "settled a = settled b"
  using strip_links_decision [OF assms] fixed_part_fields(1) [OF strip_links_decision(3) [OF assms]]
  unfolding settled_def by (cases "status b") simp_all

lemma link_write_keeps:
  assumes "coherent_run r" "link_write f"
  shows "coherent_run (update_line f ref r)" "progress r (update_line f ref r)"
proof -
  have "coherent_run (update_line f ref r) \<and> progress r (update_line f ref r)"
  proof (rule coherent_write [where f = f and stamps = False, OF assms(1) store_keys_simps(1) line_at_update])
    fix lm
    assume "settled lm"
    moreover have s: "strip_links (f lm) = strip_links lm" using assms(2) by (simp add: link_write_def)
    ultimately show "fixed_part (f lm) = fixed_part lm \<and> settled (f lm) \<and>
        decided_rank (status lm) \<le> decided_rank (status (f lm)) \<and> (False \<longrightarrow> status (f lm) = FALLBACK)"
      using strip_links_decision(2,3) [OF s] settled_strip [OF s] by simp
  qed auto
  then show "coherent_run (update_line f ref r)" "progress r (update_line f ref r)" by blast+
qed

text \<open>A run starts coherent.\<close>

lemma traces_fresh:
  "map_of (foldl (\<lambda>ts lm. dict_set (line_ref lm) (new_trace lm) ts) [] lines) ref = Some t \<Longrightarrow>
   tr_fallback_reason t = None"
  by (induction lines arbitrary: t rule: rev_induct) (auto simp: new_trace_def split: if_splits)

definition fresh_document :: "document_manifest \<Rightarrow> bool" where
  "fresh_document d \<longleftrightarrow> list_all (\<lambda>lm. status lm = PENDING \<and> corrected_text lm = None) (document_lines d)"

lemma new_run_coherent:
  assumes "fresh_document d"
  shows "coherent_run (new_run d)"
  unfolding coherent_run_def
proof (intro allI impI conjI)
  fix ref lm
  assume "line_at (new_run d) ref = Some lm"
  then have "map_of (dict_of line_ref (document_lines d)) ref = Some lm"
    by (simp add: line_at_def new_run_def Let_def index_document_def)
  then have lm: "lm \<in> set (document_lines d)" "line_ref lm = ref"
    using map_of_dict_of_Some by fast+
  then show "line_ref lm = ref" by simp
  show "settled lm" using lm(1) assms by (simp add: fresh_document_def list_all_iff settled_def)
  fix t
  assume "trace_at (new_run d) ref = Some t \<and> truthy (tr_fallback_reason t)"
  then show "status lm = FALLBACK"
    using traces_fresh by (fastforce simp: trace_at_def new_run_def Let_def index_document_def)
qed

section \<open>Pages as the run sees them\<close>

definition lines_at :: "run \<Rightarrow> lref list \<Rightarrow> line_manifest list" where
  "lines_at r refs = List.map_filter (line_at r) refs"

definition page_now :: "run \<Rightarrow> page_manifest \<Rightarrow> page_manifest" where
  "page_now r page = page\<lparr>pg_lines := lines_at r (map line_ref (pg_lines page))\<rparr>"

definition document_now :: "run \<Rightarrow> document_manifest \<Rightarrow> document_manifest" where
  "document_now r d = d\<lparr>doc_pages := map (page_now r) (doc_pages d)\<rparr>"

end
