(* ===== verification/Reconcile.thy ===== *)
theory Reconcile
  imports Run_State
begin

text \<open>
  \<open>core/reconcile.py\<close>: which lines travel together, where a partner is, and the reconciliation
  of a chunk's hyphen units. Events (\<open>hyphen_partner_missing\<close>) have no effect on a run and are
  left out.

  Facts: every join a chunk claims is claimed by the side that can see both lines; reconciling a
  pair leaves both lines at their source or both with what was proposed, and never lifts a fallen
  line; the walk is a run pass. A chain of three lines shows what the walk does not give: its
  second join may fall after its first was accepted.
\<close>

section \<open>Pages and units\<close>

definition subpage_for_lines :: "page_manifest \<Rightarrow> line_manifest list \<Rightarrow> page_manifest" where
  "subpage_for_lines page lines =
     (let kept = map line_id lines;
          sub_blocks = map (\<lambda>b. b\<lparr>blk_line_ids := filter (\<lambda>l. l \<in> set kept) (blk_line_ids b)\<rparr>)
            (filter (\<lambda>b. list_ex (\<lambda>l. l \<in> set kept) (blk_line_ids b)) (pg_blocks page))
      in page\<lparr>pg_blocks := sub_blocks, pg_lines := lines\<rparr>)"

definition build_hyphen_pairs :: "line_manifest list \<Rightarrow> (ident, ident) dict" where
  "build_hyphen_pairs lines =
     foldl (\<lambda>pairs lm.
         if hyphen_role lm = PART1 \<and> truthy (hyphen_pair_line_id lm) then
           dict_set (the (hyphen_pair_line_id lm)) (line_id lm)
             (dict_set (line_id lm) (the (hyphen_pair_line_id lm)) pairs)
         else if hyphen_role lm = BOTH \<and> truthy (hyphen_forward_pair_id lm) then
           dict_set (the (hyphen_forward_pair_id lm)) (line_id lm)
             (dict_set (line_id lm) (the (hyphen_forward_pair_id lm)) pairs)
         else pairs) [] lines"

definition lookup_ref :: "page_workspace \<Rightarrow> ident \<Rightarrow> lref option \<Rightarrow> lref option" where
  "lookup_ref ws pid ref =
     (case ref of None \<Rightarrow> None
      | Some r \<Rightarrow>
          if ref_page_id r = pid then map_of (ws_lines ws) (ref_line_id r)
          else (case ws_partners ws of None \<Rightarrow> None
                | Some ps \<Rightarrow> if r \<in> set ps then Some r else None))"

definition ws_manifests :: "run \<Rightarrow> page_workspace \<Rightarrow> line_manifest list" where
  "ws_manifests r ws = lines_at r (map snd (ws_lines ws))"

definition spread_unit :: "ident list \<Rightarrow> (ident, ident list) dict \<Rightarrow> (ident, ident list) dict" where
  "spread_unit members units = foldl (\<lambda>d l. dict_set l members d) units members"

definition page_local_units :: "line_manifest list \<Rightarrow> (ident, ident list) dict" where
  "page_local_units lines =
     foldl (\<lambda>units g.
         if \<not> hg_complete g \<or> hg_spans_pages g then units
         else spread_unit (map ref_line_id (hg_members g)) units) []
       (derive_hyphen_groups lines)"

definition units_visible_on_page :: "line_manifest list \<Rightarrow> (ident, ident list) dict" where
  "units_visible_on_page lines =
     foldl (\<lambda>units g.
         (let members = remdups (filter (\<lambda>l. l \<in> line_id ` set lines) (map ref_line_id (hg_members g)))
          in if length members < 2 then units else spread_unit members units)) []
       (derive_hyphen_groups lines)"

definition unit_pool :: "run \<Rightarrow> page_workspace \<Rightarrow> line_manifest list" where
  "unit_pool r ws =
     ws_manifests r ws @ (case ws_partners ws of None \<Rightarrow> [] | Some ps \<Rightarrow> lines_at r ps)"

section \<open>One pair\<close>

definition dict_get :: "('k, 'v) dict \<Rightarrow> 'k \<Rightarrow> 'v \<Rightarrow> 'v" where
  "dict_get d k otherwise = (case map_of d k of None \<Rightarrow> otherwise | Some v \<Rightarrow> v)"

definition proposed_tail :: "(ident, ptext) dict \<Rightarrow> line_manifest \<Rightarrow> ptext" where
  "proposed_tail texts lm =
     (if truthy (corrected_text lm) then the (corrected_text lm)
      else dict_get texts (line_id lm) (ocr_text lm))"

definition pair_result ::
  "unicode \<Rightarrow> guard_config \<Rightarrow> (ident, ptext) dict \<Rightarrow> bool \<Rightarrow> line_manifest \<Rightarrow> line_manifest \<Rightarrow>
   ptext \<times> ptext \<times> ptext option" where
  "pair_result u cfg texts is_forward lm part2 =
     (let c1 = proposed_tail texts lm;
          c2 = dict_get texts (line_id part2) (ocr_text part2)
      in if is_forward
         then reconcile_hyphen_pair u cfg lm part2 c1 c2 (Some (hyphen_forward_subs_content lm))
                (Some (hyphen_forward_explicit lm))
         else reconcile_hyphen_pair u cfg lm part2 c1 c2 None None)"

definition reconcile_one_pair ::
  "unicode \<Rightarrow> guard_config \<Rightarrow> (ident, ptext) dict \<Rightarrow> bool \<Rightarrow> lref \<Rightarrow> lref \<Rightarrow> run \<Rightarrow> string \<times> run" where
  "reconcile_one_pair u cfg texts is_forward tail head r =
     (case (line_at r tail, line_at r head) of
        (Some lm, Some part2) \<Rightarrow>
          if status lm = FALLBACK \<or> status part2 = FALLBACK then
            (''fallback'', fall_back_all ''hyphen_pair_fallback'' [tail, head] r)
          else
            (let (final1, final2, subs) = pair_result u cfg texts is_forward lm part2;
                 outcome = classify_reconcile_outcome (ocr_text lm) (ocr_text part2)
                   (proposed_tail texts lm) (dict_get texts (line_id part2) (ocr_text part2))
                   final1 final2 subs;
                 decided = (if outcome = ''fallback''
                            then fall_back_all ''hyphen_pair_fallback'' [tail, head] r
                            else accept final2 head (accept final1 tail r));
                 with_head = update_line (\<lambda>l. l\<lparr>hyphen_subs_content := subs\<rparr>) head decided;
                 with_tail = (if is_forward
                   then update_line (\<lambda>l. l\<lparr>hyphen_forward_subs_content := subs\<rparr>) tail with_head
                   else update_line (\<lambda>l. l\<lparr>hyphen_subs_content := subs\<rparr>) tail with_head)
             in (outcome, with_tail))
      | _ \<Rightarrow> (''fallback'', r))"

definition record_reconcile_outcome :: "string \<Rightarrow> run_context \<Rightarrow> run_context" where
  "record_reconcile_outcome outcome ctx =
     (let m = ctx_metrics ctx in
      if outcome = ''coherent'' then ctx\<lparr>ctx_metrics := m\<lparr>coherent := coherent m + 1\<rparr>\<rparr>
      else if outcome = ''fallback'' then ctx\<lparr>ctx_metrics := m\<lparr>fallback := fallback m + 1\<rparr>\<rparr>
      else if outcome = ''neutralised'' then ctx\<lparr>ctx_metrics := m\<lparr>neutralised := neutralised m + 1\<rparr>\<rparr>
      else ctx)"

definition refresh_side :: "string \<Rightarrow> lref \<Rightarrow> run \<Rightarrow> run" where
  "refresh_side outcome side r =
     (case line_at r side of None \<Rightarrow> r
      | Some lm \<Rightarrow>
          (let fell = (status lm = FALLBACK);
               r1 = set_trace (\<lambda>t. t\<lparr>tr_projected_text := corrected_text lm,
                      tr_validation_status := Some (if fell then ''fallback'' else ''corrected'')\<rparr>) side r
           in if \<not> fell then r1
              else set_trace (\<lambda>t. if truthy (tr_fallback_reason t) then t
                     else t\<lparr>tr_fallback_reason := Some (''hyphen_pair_'' @ outcome)\<rparr>) side r1))"

definition refresh_pair_traces :: "string \<Rightarrow> lref \<Rightarrow> lref \<Rightarrow> run \<Rightarrow> run" where
  "refresh_pair_traces outcome tail head r = refresh_side outcome head (refresh_side outcome tail r)"

section \<open>The joins of a chunk\<close>

type_synonym join = "lref \<times> lref \<times> bool"

text \<open>The pool keeps the order in which references first entered it, as the dictionary does.\<close>

definition pool_add :: "lref \<Rightarrow> lref list \<Rightarrow> lref list" where
  "pool_add x pool = (if x \<in> set pool then pool else pool @ [x])"

definition claim ::
  "run \<Rightarrow> lref \<Rightarrow> lref \<Rightarrow> (lref, join) dict \<times> lref list \<Rightarrow> (lref, join) dict \<times> lref list" where
  "claim r tail head st =
     (let (joins, pool) = st;
          is_both = (case line_at r tail of None \<Rightarrow> False | Some lm \<Rightarrow> hyphen_role lm = BOTH)
      in (dict_set tail (tail, head, is_both) joins,
          pool_add head (pool_add tail pool)))"

definition claim_line ::
  "run \<Rightarrow> page_workspace \<Rightarrow> (lref, join) dict \<times> lref list \<Rightarrow> line_manifest \<Rightarrow>
   (lref, join) dict \<times> lref list" where
  "claim_line r ws st lm =
     (let st1 = (case forward_partner_ref lm of
                   None \<Rightarrow> st
                 | Some out \<Rightarrow>
                     if ref_page_id out = page_id lm then
                       (case lookup_ref ws (page_id lm) (Some out) of
                          None \<Rightarrow> st | Some head \<Rightarrow> claim r (line_ref lm) head st)
                     else st)
      in (case backward_partner_ref lm of
            None \<Rightarrow> st1
          | Some inc \<Rightarrow>
              if ref_page_id inc \<noteq> page_id lm then
                (case lookup_ref ws (page_id lm) (Some inc) of
                   None \<Rightarrow> st1 | Some tail \<Rightarrow> claim r tail (line_ref lm) st1)
              else st1))"

definition claim_joins ::
  "run \<Rightarrow> page_workspace \<Rightarrow> line_manifest list \<Rightarrow> (lref, join) dict \<times> lref list" where
  "claim_joins r ws chunk_lines =
     foldl (claim_line r ws) ([], map fst (dict_of line_ref chunk_lines)) chunk_lines"

definition walk_member ::
  "unicode \<Rightarrow> guard_config \<Rightarrow> (ident, ptext) dict \<Rightarrow> (lref, join) dict \<Rightarrow>
   nat \<times> lref list \<times> run \<Rightarrow> lref \<Rightarrow> nat \<times> lref list \<times> run" where
  "walk_member u cfg texts joins st member =
     (let (count, written, r) = st in
      case map_of joins member of
        None \<Rightarrow> st
      | Some (tail, head, is_forward) \<Rightarrow>
          if head \<in> set written then st
          else
            (let (outcome, r1) = reconcile_one_pair u cfg texts is_forward tail head r;
                 r2 = update_ctx (record_reconcile_outcome outcome) r1;
                 r3 = refresh_pair_traces outcome tail head r2
             in (Suc count, head # written, r3)))"

definition walk_units_reconciling ::
  "unicode \<Rightarrow> guard_config \<Rightarrow> (ident, ptext) dict \<Rightarrow> (lref, join) dict \<Rightarrow> lref list \<Rightarrow> run \<Rightarrow>
   nat \<times> run" where
  "walk_units_reconciling u cfg texts joins pool r =
     (let members = concat (map hg_members (derive_hyphen_groups (lines_at r pool)));
          (count, written, r') = foldl (walk_member u cfg texts joins) (0, [], r) members
      in (count, r'))"

definition reconcile_chunk_hyphens ::
  "unicode \<Rightarrow> guard_config \<Rightarrow> page_workspace \<Rightarrow> line_manifest list \<Rightarrow> (ident, ptext) dict \<Rightarrow> run \<Rightarrow>
   nat \<times> run" where
  "reconcile_chunk_hyphens u cfg ws chunk_lines texts r =
     (let (joins, pool) = claim_joins r ws chunk_lines
      in walk_units_reconciling u cfg texts joins pool r)"

section \<open>Reconciling keeps the run coherent\<close>

lemma subs_writes:
  "link_write (\<lambda>l. l\<lparr>hyphen_subs_content := s\<rparr>)"
  "link_write (\<lambda>l. l\<lparr>hyphen_forward_subs_content := s\<rparr>)"
  by (simp_all add: link_write_def strip_links_def)

lemma accept_keeps:
  assumes "coherent_run r" "not_fallen ref r"
  shows "coherent_run (accept new ref r)" "progress r (accept new ref r)"
  using accepting.keeps [OF assms(1), of "(ref, new)"] accepting.advances [OF assms(1), of "(ref, new)"]
    assms(2) by simp_all

lemma not_fallen_accept: "not_fallen x r \<Longrightarrow> not_fallen x (accept new ref r)"
  by (auto simp: not_fallen_def line_at_accept split: if_splits)

definition subs_step :: "bool \<Rightarrow> ptext option \<Rightarrow> lref \<Rightarrow> lref \<Rightarrow> run \<Rightarrow> run" where
  "subs_step is_forward subs tail head r =
     (let r1 = update_line (\<lambda>l. l\<lparr>hyphen_subs_content := subs\<rparr>) head r
      in if is_forward then update_line (\<lambda>l. l\<lparr>hyphen_forward_subs_content := subs\<rparr>) tail r1
         else update_line (\<lambda>l. l\<lparr>hyphen_subs_content := subs\<rparr>) tail r1)"

lemma subs_step_keeps:
  assumes "coherent_run r"
  shows "coherent_run (subs_step f subs tail head r)" "progress r (subs_step f subs tail head r)"
proof -
  let ?r1 = "update_line (\<lambda>l. l\<lparr>hyphen_subs_content := subs\<rparr>) head r"
  have 1: "coherent_run ?r1" "progress r ?r1" by (rule link_write_keeps [OF assms subs_writes(1)])+
  note 2 = link_write_keeps [OF 1(1) subs_writes(1)] link_write_keeps [OF 1(1) subs_writes(2)]
  show "coherent_run (subs_step f subs tail head r)"
    using 2 by (simp add: subs_step_def Let_def)
  show "progress r (subs_step f subs tail head r)"
    using 2 1(2) progress_trans by (auto simp: subs_step_def Let_def)
qed

lemma subs_step_decision:
  assumes "line_at (subs_step f subs tail head r) x = Some b"
  shows "\<exists>a. line_at r x = Some a \<and> status b = status a \<and> corrected_text b = corrected_text a"
  using assms by (auto simp: subs_step_def Let_def line_at_update split: if_splits)

lemma reconcile_one_pair_eq:
  assumes "line_at r tail = Some lm" "line_at r head = Some p2"
  shows "reconcile_one_pair u cfg texts f tail head r =
    (if status lm = FALLBACK \<or> status p2 = FALLBACK
     then (''fallback'', fall_back_all ''hyphen_pair_fallback'' [tail, head] r)
     else (let (final1, final2, subs) = pair_result u cfg texts f lm p2;
               outcome = classify_reconcile_outcome (ocr_text lm) (ocr_text p2)
                 (proposed_tail texts lm) (dict_get texts (line_id p2) (ocr_text p2)) final1 final2 subs
           in (outcome, subs_step f subs tail head
                (if outcome = ''fallback'' then fall_back_all ''hyphen_pair_fallback'' [tail, head] r
                 else accept final2 head (accept final1 tail r)))))"
  using assms by (simp add: reconcile_one_pair_def subs_step_def Let_def split: prod.splits)

interpretation pair_pass: run_pass
  "\<lambda>(u, cfg, texts, f, tail, head) r. snd (reconcile_one_pair u cfg texts f tail head r)" "\<lambda>_ _. True"
proof unfold_locales
  fix r :: run and a :: "unicode \<times> guard_config \<times> (ident, ptext) dict \<times> bool \<times> lref \<times> lref"
  obtain u cfg texts f tail head where a: "a = (u, cfg, texts, f, tail, head)" by (metis prod_cases6)
  assume c: "coherent_run r"
  let ?r = "snd (reconcile_one_pair u cfg texts f tail head r)"
  have "coherent_run ?r \<and> progress r ?r"
  proof (cases "line_at r tail = None \<or> line_at r head = None")
    case True
    then have "?r = r" by (auto simp: reconcile_one_pair_def split: option.splits)
    with c show ?thesis by simp
  next
    case False
    then obtain lm p2 where l: "line_at r tail = Some lm" "line_at r head = Some p2" by auto
    note fall = fall_back_all_keeps [OF c, of "''hyphen_pair_fallback''" "[tail, head]"]
    show ?thesis
    proof (cases "status lm = FALLBACK \<or> status p2 = FALLBACK")
      case True
      with fall show ?thesis by (simp add: reconcile_one_pair_eq [OF l])
    next
      case nf: False
      obtain f1 f2 s where p: "pair_result u cfg texts f lm p2 = (f1, f2, s)" by (metis prod_cases3)
      have "not_fallen tail r" "not_fallen head r" using nf l by (simp_all add: not_fallen_def)
      then have acc: "coherent_run (accept f2 head (accept f1 tail r))"
        "progress r (accept f2 head (accept f1 tail r))"
        using accept_keeps [OF c] accept_keeps [OF accept_keeps(1) [OF c]] not_fallen_accept progress_trans
        by meson+
      have "\<exists>r1. ?r = subs_step f s tail head r1 \<and> coherent_run r1 \<and> progress r r1"
        using nf acc fall by (auto simp: reconcile_one_pair_eq [OF l] p Let_def)
      then obtain r1 where r1: "?r = subs_step f s tail head r1" "coherent_run r1" "progress r r1" by blast
      show ?thesis
        unfolding r1(1) using subs_step_keeps [OF r1(2)] progress_trans [OF r1(3)] by blast
    qed
  qed
  then show "coherent_run ((case a of (u, cfg, texts, f, tail, head) \<Rightarrow>
      \<lambda>r. snd (reconcile_one_pair u cfg texts f tail head r)) r)"
    "progress r ((case a of (u, cfg, texts, f, tail, head) \<Rightarrow>
      \<lambda>r. snd (reconcile_one_pair u cfg texts f tail head r)) r)" by (simp_all add: a)
qed

lemma stamp_keeps:
  assumes "coherent_run r"
    and "\<And>x t'. \<lbrakk>trace_at (set_trace f ref r) x = Some t'; truthy (tr_fallback_reason t')\<rbrakk> \<Longrightarrow>
      x = ref \<or> (\<exists>t. trace_at r x = Some t \<and> truthy (tr_fallback_reason t))"
    and "\<And>lm. line_at r ref = Some lm \<Longrightarrow> status lm = FALLBACK"
  shows "coherent_run (set_trace f ref r)"
  unfolding coherent_run_def line_at_set_trace
proof (intro allI impI conjI)
  fix x lm
  assume l: "line_at r x = Some lm"
  with assms(1) show "line_ref lm = x" "settled lm" by (simp_all add: coherent_run_def)
  fix t
  assume t: "trace_at (set_trace f ref r) x = Some t \<and> truthy (tr_fallback_reason t)"
  show "status lm = FALLBACK"
  proof (cases "x = ref")
    case True
    with assms(3) l show ?thesis by simp
  next
    case False
    with assms(2) t obtain t0 where "trace_at r x = Some t0" "truthy (tr_fallback_reason t0)" by blast
    with assms(1) l show ?thesis by (simp add: coherent_run_def)
  qed
qed

lemma refresh_side_keeps:
  assumes "coherent_run r"
  shows "coherent_run (refresh_side outcome side r)" "progress r (refresh_side outcome side r)"
proof -
  show "progress r (refresh_side outcome side r)"
    by (rule progress_same) (simp_all add: refresh_side_def Let_def split: option.split)
  show "coherent_run (refresh_side outcome side r)"
  proof (cases "line_at r side")
    case (Some lm)
    define r1 where "r1 = set_trace (\<lambda>t. t\<lparr>tr_projected_text := corrected_text lm,
        tr_validation_status := Some (if status lm = FALLBACK then ''fallback'' else ''corrected'')\<rparr>) side r"
    have c1: "coherent_run r1" unfolding r1_def by (rule trace_write_keeps [OF assms]) simp
    show ?thesis
    proof (cases "status lm = FALLBACK")
      case False
      with c1 Some show ?thesis by (simp add: refresh_side_def Let_def r1_def)
    next
      case True
      let ?f = "\<lambda>t. if truthy (tr_fallback_reason t) then t
        else t\<lparr>tr_fallback_reason := Some (''hyphen_pair_'' @ outcome)\<rparr>"
      have "trace_at (set_trace ?f side r1) x = Some t' \<Longrightarrow> truthy (tr_fallback_reason t') \<Longrightarrow>
          x = side \<or> (\<exists>t. trace_at r1 x = Some t \<and> truthy (tr_fallback_reason t))" for x t'
        by (cases "x = side") (simp_all add: trace_at_set_trace)
      moreover have "line_at r1 side = Some lm" using Some by (simp add: r1_def)
      ultimately have "coherent_run (set_trace ?f side r1)"
        by (intro stamp_keeps [OF c1]) (auto simp: True)
      with True Some show ?thesis by (simp add: refresh_side_def Let_def r1_def)
    qed
  qed (use assms in \<open>simp add: refresh_side_def\<close>)
qed

lemma line_at_refresh [simp]: "line_at (refresh_pair_traces outcome tail head r) x = line_at r x"
  by (simp add: refresh_pair_traces_def refresh_side_def Let_def split: option.split)

definition run_of :: "nat \<times> lref list \<times> run \<Rightarrow> run" where
  "run_of st = snd (snd st)"

lemma walk_member_keeps:
  assumes "coherent_run (run_of st)"
  shows "coherent_run (run_of (walk_member u cfg texts joins st m)) \<and>
    progress (run_of st) (run_of (walk_member u cfg texts joins st m))"
proof -
  obtain n w r where st: "st = (n, w, r)" by (metis prod_cases3)
  show ?thesis
  proof (cases "map_of joins m")
    case (Some j)
    obtain tail head f where j: "j = (tail, head, f)" by (metis prod_cases3)
    obtain outcome r1 where p: "reconcile_one_pair u cfg texts f tail head r = (outcome, r1)" by fastforce
    have c: "coherent_run r" using assms by (simp add: st run_of_def)
    have 1: "coherent_run r1" "progress r r1"
      using pair_pass.keeps [OF c, of "(u, cfg, texts, f, tail, head)"]
        pair_pass.advances [OF c, of "(u, cfg, texts, f, tail, head)"] p by simp_all
    let ?r2 = "update_ctx (record_reconcile_outcome outcome) r1"
    have 2: "coherent_run ?r2" "progress r1 ?r2" by (rule ctx_write_keeps(1) [OF 1(1)], rule ctx_write_keeps(2))
    have 3: "coherent_run (refresh_pair_traces outcome tail head ?r2)"
      unfolding refresh_pair_traces_def by (intro refresh_side_keeps 2)
    have "progress ?r2 (refresh_pair_traces outcome tail head ?r2)"
      unfolding refresh_pair_traces_def
      by (rule progress_trans [OF refresh_side_keeps(2) [OF 2(1)] refresh_side_keeps(2) [OF refresh_side_keeps(1) [OF 2(1)]]])
    with 1 2 have "progress r (refresh_pair_traces outcome tail head ?r2)" using progress_trans by blast
    with 3 c Some j p show ?thesis by (simp add: walk_member_def st run_of_def)
  qed (use assms in \<open>simp add: walk_member_def st run_of_def\<close>)
qed

lemma reconcile_chunk_keeps:
  assumes "coherent_run r"
  shows "coherent_run (snd (reconcile_chunk_hyphens u cfg ws lines texts r))"
    "progress r (snd (reconcile_chunk_hyphens u cfg ws lines texts r))"
proof -
  have fold: "coherent_run (run_of (foldl (walk_member u cfg texts joins) st ms)) \<and>
      progress (run_of st) (run_of (foldl (walk_member u cfg texts joins) st ms))"
    if "coherent_run (run_of st)" for joins st ms
    using that
  proof (induction ms arbitrary: st)
    case (Cons m ms)
    from walk_member_keeps [OF Cons.prems, of u cfg texts joins m] Cons.IH
    show ?case using progress_trans by (metis foldl_Cons)
  qed simp
  have "snd (reconcile_chunk_hyphens u cfg ws lines texts r) =
      run_of (foldl (walk_member u cfg texts (fst (claim_joins r ws lines))) (0, [], r)
        (concat (map hg_members (derive_hyphen_groups (lines_at r (snd (claim_joins r ws lines)))))))"
    by (simp add: reconcile_chunk_hyphens_def walk_units_reconciling_def run_of_def Let_def split_beta)
  with fold [of "(0, [], r)"] assms
  show "coherent_run (snd (reconcile_chunk_hyphens u cfg ws lines texts r))"
    "progress r (snd (reconcile_chunk_hyphens u cfg ws lines texts r))"
    by (simp_all add: run_of_def [of "(0, [], r)"])
qed

section \<open>Pairs and claims\<close>

lemma pair_decided:
  assumes "line_at r tail = Some lm" "line_at r head = Some p2" "tail \<noteq> head"
    and "reconcile_one_pair u cfg texts f tail head r = (outcome, r')"
  shows "\<exists>t h. line_at r' tail = Some t \<and> line_at r' head = Some h \<and>
    (status t = FALLBACK \<and> status h = FALLBACK \<and> outcome = ''fallback'' \<and>
       corrected_text t = Some (ocr_text lm) \<and> corrected_text h = Some (ocr_text p2) \<or>
     status t = CORRECTED \<and> status h = CORRECTED \<and> outcome \<noteq> ''fallback'' \<and>
       status lm \<noteq> FALLBACK \<and> status p2 \<noteq> FALLBACK \<and>
       corrected_text t = Some (proposed_tail texts lm) \<and>
       corrected_text h = Some (dict_get texts (line_id p2) (ocr_text p2)))"
proof -
  let ?fb = "fall_back_all ''hyphen_pair_fallback'' [tail, head] r"
  have ft: "line_at ?fb tail = Some (lm\<lparr>corrected_text := Some (ocr_text lm), status := FALLBACK\<rparr>)"
    "line_at ?fb head = Some (p2\<lparr>corrected_text := Some (ocr_text p2), status := FALLBACK\<rparr>)"
    using assms(1,2) by (simp_all add: line_at_fall_back_all)
  show ?thesis
  proof (cases "status lm = FALLBACK \<or> status p2 = FALLBACK")
    case True
    then have "(outcome, r') = (''fallback'', ?fb)"
      using assms(4) unfolding reconcile_one_pair_eq [OF assms(1,2)] by (simp only: if_True)
    then have "outcome = ''fallback''" "r' = ?fb" by blast+
    with ft show ?thesis by simp
  next
    case False
    obtain f1 f2 s where p: "pair_result u cfg texts f lm p2 = (f1, f2, s)" by (metis prod_cases3)
    let ?c1 = "proposed_tail texts lm" and ?c2 = "dict_get texts (line_id p2) (ocr_text p2)"
    let ?o = "classify_reconcile_outcome (ocr_text lm) (ocr_text p2) ?c1 ?c2 f1 f2 s"
    let ?dec = "if ?o = ''fallback'' then ?fb else accept f2 head (accept f1 tail r)"
    from assms(4) False have "(?o, subs_step f s tail head ?dec) = (outcome, r')"
      unfolding reconcile_one_pair_eq [OF assms(1,2)] p Let_def prod.case by (simp only: if_False)
    then have o: "outcome = ?o" and r': "r' = subs_step f s tail head ?dec" by blast+
    have fr: "?o \<noteq> ''fallback'' \<Longrightarrow> (f1, f2) = (?c1, ?c2)"
      using p by (auto simp: pair_result_def Let_def reconcile_eq classify_reconcile_outcome_def
          split: if_splits)
    have "line_at r' tail \<noteq> None" "line_at r' head \<noteq> None"
      using assms(1,2) ft by (auto simp: r' subs_step_def Let_def line_at_update line_at_accept)
    then obtain t h where th: "line_at r' tail = Some t" "line_at r' head = Some h" by auto
    from subs_step_decision [OF th(1) [unfolded r']] subs_step_decision [OF th(2) [unfolded r']]
    obtain t0 h0 where t0: "line_at ?dec tail = Some t0" "status t = status t0" "corrected_text t = corrected_text t0"
      and h0: "line_at ?dec head = Some h0" "status h = status h0" "corrected_text h = corrected_text h0"
      by blast
    show ?thesis
    proof (cases "?o = ''fallback''")
      case True
      with t0 h0 ft th o show ?thesis by auto
    next
      case ne: False
      have "line_at ?dec tail = Some (lm\<lparr>corrected_text := Some f1, status := CORRECTED\<rparr>)"
        "line_at ?dec head = Some (p2\<lparr>corrected_text := Some f2, status := CORRECTED\<rparr>)"
        using ne assms(1-3) by (simp_all add: line_at_accept)
      with t0 h0 th o ne fr [OF ne] False show ?thesis by auto
    qed
  qed
qed

text \<open>Who owns a join: the tail on its own page, the head where the link crosses pages.\<close>

definition owned :: "page_workspace \<Rightarrow> line_manifest list \<Rightarrow> lref \<Rightarrow> lref \<Rightarrow> bool" where
  "owned ws chunk_lines tail head \<longleftrightarrow>
     list_ex (\<lambda>lm.
        line_ref lm = tail \<and>
          (case forward_partner_ref lm of None \<Rightarrow> False
           | Some out \<Rightarrow> ref_page_id out = page_id lm \<and> lookup_ref ws (page_id lm) (Some out) = Some head) \<or>
        line_ref lm = head \<and>
          (case backward_partner_ref lm of None \<Rightarrow> False
           | Some inc \<Rightarrow> ref_page_id inc \<noteq> page_id lm \<and> lookup_ref ws (page_id lm) (Some inc) = Some tail))
       chunk_lines"

definition claims_of :: "page_workspace \<Rightarrow> line_manifest \<Rightarrow> (lref \<times> lref) list" where
  "claims_of ws lm =
     (case forward_partner_ref lm of None \<Rightarrow> []
      | Some out \<Rightarrow>
          if ref_page_id out = page_id lm then
            (case lookup_ref ws (page_id lm) (Some out) of None \<Rightarrow> [] | Some h \<Rightarrow> [(line_ref lm, h)])
          else []) @
     (case backward_partner_ref lm of None \<Rightarrow> []
      | Some inc \<Rightarrow>
          if ref_page_id inc \<noteq> page_id lm then
            (case lookup_ref ws (page_id lm) (Some inc) of None \<Rightarrow> [] | Some t \<Rightarrow> [(t, line_ref lm)])
          else [])"

definition opt_list :: "'a option \<Rightarrow> 'a list" where
  "opt_list x = (case x of None \<Rightarrow> [] | Some y \<Rightarrow> [y])"

lemma in_opt_list: "z \<in> set (opt_list x) \<longleftrightarrow> x = Some z"
  by (cases x) (auto simp: opt_list_def)

lemma claim_case:
  "(case x of None \<Rightarrow> []
    | Some y \<Rightarrow> if P y then (case f y of None \<Rightarrow> [] | Some h \<Rightarrow> [g h]) else []) =
   opt_list (Option.bind x (\<lambda>y. if P y then map_option g (f y) else None))"
  by (cases x; cases "f (the x)") (simp_all add: opt_list_def)

lemma bind_case:
  "(Option.bind x (\<lambda>y. if P y then map_option g (f y) else None) = Some z) =
   (case x of None \<Rightarrow> False | Some y \<Rightarrow> P y \<and> (\<exists>h. f y = Some h \<and> g h = z))"
  by (cases x) auto

lemma owned_claims:
  "owned ws ls tail head \<longleftrightarrow> (tail, head) \<in> set (concat (map (claims_of ws) ls))"
proof -
  have "(tail, head) \<in> set (claims_of ws lm) \<longleftrightarrow>
      line_ref lm = tail \<and>
          (case forward_partner_ref lm of None \<Rightarrow> False
           | Some out \<Rightarrow> ref_page_id out = page_id lm \<and> lookup_ref ws (page_id lm) (Some out) = Some head) \<or>
        line_ref lm = head \<and>
          (case backward_partner_ref lm of None \<Rightarrow> False
           | Some inc \<Rightarrow> ref_page_id inc \<noteq> page_id lm \<and> lookup_ref ws (page_id lm) (Some inc) = Some tail)" for lm
    unfolding claims_of_def claim_case set_append Un_iff in_opt_list bind_case
    by (cases "forward_partner_ref lm"; cases "backward_partner_ref lm") auto
  then show ?thesis by (simp add: owned_def list_ex_iff)
qed

lemma claim_line_eq: "claim_line r ws st lm = foldl (\<lambda>st (t, h). claim r t h st) st (claims_of ws lm)"
proof -
  have 1: "(case forward_partner_ref lm of None \<Rightarrow> st
      | Some out \<Rightarrow> if ref_page_id out = page_id lm then
          (case lookup_ref ws (page_id lm) (Some out) of None \<Rightarrow> st | Some head \<Rightarrow> claim r (line_ref lm) head st)
        else st) = foldl (\<lambda>st (t, h). claim r t h st) st
     (case forward_partner_ref lm of None \<Rightarrow> []
      | Some out \<Rightarrow> if ref_page_id out = page_id lm then
          (case lookup_ref ws (page_id lm) (Some out) of None \<Rightarrow> [] | Some h \<Rightarrow> [(line_ref lm, h)])
        else [])"
    by (simp split: option.split)
  show ?thesis
    unfolding claim_line_def claims_of_def foldl_append Let_def 1 by (simp split: option.split)
qed

lemma claim_joins_eq:
  "claim_joins r ws ls =
     foldl (\<lambda>st (t, h). claim r t h st) ([], map fst (dict_of line_ref ls)) (concat (map (claims_of ws) ls))"
proof -
  have "foldl (claim_line r ws) st ls = foldl (\<lambda>st (t, h). claim r t h st) st (concat (map (claims_of ws) ls))" for st
    by (induction ls arbitrary: st) (simp_all add: claim_line_eq)
  then show ?thesis by (simp add: claim_joins_def)
qed

lemma claim_lookup:
  "map_of (fst (claim r t h st)) x = (if x = t then Some (t, h,
     case line_at r t of None \<Rightarrow> False | Some lm \<Rightarrow> hyphen_role lm = BOTH) else map_of (fst st) x)"
  by (simp add: claim_def Let_def split_beta)

lemma claims_fold:
  "map_of (fst (foldl (\<lambda>st (t, h). claim r t h st) st cs)) x = Some (tail, head, both) \<Longrightarrow>
     map_of (fst st) x = Some (tail, head, both) \<or> tail = x \<and> (tail, head) \<in> set cs"
  "x \<in> fst ` set cs \<or> map_of (fst st) x \<noteq> None \<Longrightarrow>
     map_of (fst (foldl (\<lambda>st (t, h). claim r t h st) st cs)) x \<noteq> None"
proof (induction cs arbitrary: st)
  case (Cons c cs)
  obtain t h where c: "c = (t, h)" by fastforce
  {
    case 1
    with Cons.IH(1) [of "claim r t h st"] show ?case by (auto simp: c claim_lookup split: if_splits)
  next
    case 2
    have "x \<in> fst ` set cs \<or> map_of (fst (claim r t h st)) x \<noteq> None"
      using 2 by (auto simp: c claim_lookup)
    with Cons.IH(2) show ?case by (simp add: c)
  }
qed auto

lemma claim_joins_owned:
  assumes "map_of (fst (claim_joins r ws chunk_lines)) t = Some (tail, head, both)"
  shows "tail = t \<and> owned ws chunk_lines tail head"
  using claims_fold(1) [OF assms [unfolded claim_joins_eq]] by (auto simp: owned_claims)

lemma claim_joins_complete:
  assumes "owned ws chunk_lines tail head"
  shows "map_of (fst (claim_joins r ws chunk_lines)) tail \<noteq> None"
  unfolding claim_joins_eq
  by (rule claims_fold(2)) (use assms in \<open>force simp: owned_claims\<close>)

section \<open>Properties\<close>

text \<open>C25: a reconciled pair is decided as a whole. Either both lines fall back to their source and the
  outcome says so, or both are accepted with exactly the texts proposed for them; and no pair with a
  fallen member is ever accepted.\<close>

theorem reconciled_pair_is_whole:
  assumes "line_at r tail = Some lm" "line_at r head = Some p2" "tail \<noteq> head"
    and "reconcile_one_pair u cfg texts f tail head r = (outcome, r')"
  shows "\<exists>t h. line_at r' tail = Some t \<and> line_at r' head = Some h \<and>
    (status t = FALLBACK \<and> status h = FALLBACK \<and> outcome = ''fallback'' \<and>
       corrected_text t = Some (ocr_text lm) \<and> corrected_text h = Some (ocr_text p2) \<or>
     status t = CORRECTED \<and> status h = CORRECTED \<and> outcome \<noteq> ''fallback'' \<and>
       status lm \<noteq> FALLBACK \<and> status p2 \<noteq> FALLBACK \<and>
       corrected_text t = Some (proposed_tail texts lm) \<and>
       corrected_text h = Some (dict_get texts (line_id p2) (ocr_text p2)))"
  by (rule pair_decided [OF assms])

lemma reconciled_pair_is_whole_witness:
  "\<exists>t h. let r' = snd (reconcile_one_pair ascii_unicode DEFAULT_GUARD_CONFIG [(''a'', tx ''x-'')] False
       (LineRef ''P'' ''a'') (LineRef ''P'' ''b'')
       \<lparr>rn_lines = [(LineRef ''P'' ''a'', plain_line ''P'' ''a'' 0 (tx ''x-'')),
                    (LineRef ''P'' ''b'', plain_line ''P'' ''b'' 1 (tx ''z''))],
        rn_traces = None, rn_ctx = new_context\<rparr>) in
     line_at r' (LineRef ''P'' ''a'') = Some t \<and> line_at r' (LineRef ''P'' ''b'') = Some h \<and> status t = status h"
proof -
  let ?r = "\<lparr>rn_lines = [(LineRef ''P'' ''a'', plain_line ''P'' ''a'' 0 (tx ''x-'')),
                    (LineRef ''P'' ''b'', plain_line ''P'' ''b'' 1 (tx ''z''))],
        rn_traces = None, rn_ctx = new_context\<rparr>"
  obtain outcome r' where run: "reconcile_one_pair ascii_unicode DEFAULT_GUARD_CONFIG [(''a'', tx ''x-'')] False
       (LineRef ''P'' ''a'') (LineRef ''P'' ''b'') ?r = (outcome, r')" by fastforce
  have at: "line_at ?r (LineRef ''P'' ''a'') = Some (plain_line ''P'' ''a'' 0 (tx ''x-''))"
    "line_at ?r (LineRef ''P'' ''b'') = Some (plain_line ''P'' ''b'' 1 (tx ''z''))"
    by (simp_all add: line_at_def)
  from reconciled_pair_is_whole [OF at _ run] obtain t h where
    "line_at r' (LineRef ''P'' ''a'') = Some t" "line_at r' (LineRef ''P'' ''b'') = Some h" "status t = status h" by auto
  with run show ?thesis by auto
qed

text \<open>Every join a chunk reconciles is owned by one of its lines: the tail's on its own page, the
  head's where the link crosses pages; and every join so owned is claimed.\<close>

theorem claims_are_exactly_owned:
  "(case map_of (fst (claim_joins r ws chunk_lines)) t of
      None \<Rightarrow> list_all (\<lambda>head. \<not> owned ws chunk_lines t head) heads
    | Some (tail, head, both) \<Rightarrow> tail = t \<and> owned ws chunk_lines tail head)"
proof (cases "map_of (fst (claim_joins r ws chunk_lines)) t")
  case None
  then have "\<not> owned ws chunk_lines t head" for head using claim_joins_complete by blast
  with None show ?thesis by (simp add: list_all_iff)
next
  case (Some j)
  obtain tail head both where "j = (tail, head, both)" by (metis prod_cases3)
  with Some claim_joins_owned show ?thesis by fastforce
qed

lemma pair_frame:
  assumes "x \<noteq> tail" "x \<noteq> head"
  shows "line_at (snd (reconcile_one_pair u cfg texts f tail head r)) x = line_at r x"
  using assms
  by (auto simp: reconcile_one_pair_def Let_def line_at_fall_back_all line_at_accept line_at_update
      split: option.split prod.split)

lemma walk_member_pair:
  assumes "map_of joins m = Some (tail, head, f)" "head \<notin> set w"
    and "reconcile_one_pair u cfg texts f tail head r = (outcome, r1)"
  shows "\<exists>r'. walk_member u cfg texts joins (n, w, r) m = (Suc n, head # w, r') \<and> (\<forall>x. line_at r' x = line_at r1 x)"
  using assms by (simp add: walk_member_def)

text \<open>C34: A unit of three lines is not decided as a whole. Take any three lines linked in a chain, in a
  coherent run, as the walk over a unit meets them (the last two not yet walked): when it accepts the first join and then refuses the
  second, the second refusal puts the middle and the last line back to their source and leaves the first line
  as the first join left it, corrected: the word that runs over the first break ends up with its first half
  corrected and its second half at the source.\<close>

theorem chain_left_half_corrected:
  assumes "coherent_run r" "distinct [a, b, c]"
    and lines: "line_at r a = Some la" "line_at r b = Some lb" "line_at r c = Some lc"
    and joins: "map_of joins a = Some (a, b, fa)" "map_of joins b = Some (b, c, fb)" "map_of joins c = None"
    and fresh: "b \<notin> set w" "c \<notin> set w"
    and accepted: "fst (reconcile_one_pair u cfg texts fa a b r) \<noteq> ''fallback''"
    and refused: "fst (reconcile_one_pair u cfg texts fb b c
      (run_of (walk_member u cfg texts joins (n, w, r) a))) = ''fallback''"
  shows "\<exists>la' lb' lc'. let r' = run_of (foldl (walk_member u cfg texts joins) (n, w, r) [a, b, c]) in
    line_at r' a = Some la' \<and> status la' = CORRECTED \<and> corrected_text la' = Some (proposed_tail texts la) \<and>
    line_at r' b = Some lb' \<and> status lb' = FALLBACK \<and> corrected_text lb' = Some (ocr_text lb) \<and>
    line_at r' c = Some lc' \<and> status lc' = FALLBACK \<and> corrected_text lc' = Some (ocr_text lc)"
proof -
  let ?walk = "walk_member u cfg texts joins"
  have ne: "a \<noteq> b" "a \<noteq> c" "b \<noteq> c" using assms(2) by auto
  obtain o1 r1 where p1: "reconcile_one_pair u cfg texts fa a b r = (o1, r1)" by fastforce
  obtain r2 where w1: "?walk (n, w, r) a = (Suc n, b # w, r2)" and same1: "\<And>x. line_at r2 x = line_at r1 x"
    using walk_member_pair [OF joins(1) fresh(1) p1, of n] by blast
  obtain o2 r3 where p2: "reconcile_one_pair u cfg texts fb b c r2 = (o2, r3)" by fastforce
  have "c \<notin> set (b # w)" using fresh(2) ne by simp
  from walk_member_pair [OF joins(2) this p2, of "Suc n"] obtain r4 where
    w2: "?walk (Suc n, b # w, r2) b = (Suc (Suc n), c # b # w, r4)" and same2: "\<And>x. line_at r4 x = line_at r3 x" by blast
  have end_run: "run_of (foldl ?walk (n, w, r) [a, b, c]) = r4"
    using joins(3) by (simp add: w1 w2) (simp add: walk_member_def run_of_def)
  have o: "o1 \<noteq> ''fallback''" "o2 = ''fallback''" using accepted refused p1 p2 w1 by (simp_all add: run_of_def)
  from pair_decided [OF lines(1,2) ne(1) p1] o(1) obtain la1 lb1 where
    first: "line_at r1 a = Some la1" "status la1 = CORRECTED" "corrected_text la1 = Some (proposed_tail texts la)"
      "line_at r1 b = Some lb1" by blast
  have "progress r r2"
    using walk_member_keeps [of "(n, w, r)" u cfg texts joins a] assms(1) by (simp add: run_of_def w1)
  then have kept: "\<exists>y. line_at r2 ref = Some y \<and> ocr_text y = ocr_text x" if "line_at r ref = Some x" for ref x
    by (rule progress_Some [OF _ that]) (auto simp: line_progress_def dest: fixed_part_fields)
  from kept [OF lines(2)] kept [OF lines(3)] obtain lb2 lc2 where
    l2: "line_at r2 b = Some lb2" "line_at r2 c = Some lc2" "ocr_text lb2 = ocr_text lb"
    "ocr_text lc2 = ocr_text lc" by blast
  from pair_decided [OF l2(1,2) ne(3) p2] o(2) l2(3,4) obtain lb3 lc3 where
    second: "line_at r3 b = Some lb3" "status lb3 = FALLBACK" "corrected_text lb3 = Some (ocr_text lb)"
      "line_at r3 c = Some lc3" "status lc3 = FALLBACK" "corrected_text lc3 = Some (ocr_text lc)" by auto
  have "line_at r3 a = line_at r2 a" using pair_frame [OF ne(1,2), of u cfg texts fb r2] by (simp add: p2)
  with first(1) same1 same2 have "line_at r4 a = Some la1" by simp
  with first(2,3) second same2 show ?thesis unfolding end_run Let_def by (intro exI [of _ la1] exI [of _ lb3] exI [of _ lc3]) simp
qed

definition half_run :: run where
  "half_run =
     (let line = \<lambda>i t r. (plain_line ''P'' i 0 (tx t))\<lparr>hyphen_role := r\<rparr>;
          ls = [line ''a'' ''le Bcr-'' PART1, line ''b'' ''liu nou-'' BOTH, line ''c'' ''veau'' PART2]
      in \<lparr>rn_lines = map (\<lambda>lm. (line_ref lm, lm)) ls, rn_traces = None, rn_ctx = new_context\<rparr>)"

definition half_texts :: "(ident, ptext) dict" where
  "half_texts = [(''a'', tx ''le Ber-''), (''b'', tx ''lin nou-''), (''c'', tx ''beau'')]"

definition half_joins :: "(lref, join) dict" where
  "half_joins = [(LineRef ''P'' ''a'', (LineRef ''P'' ''a'', LineRef ''P'' ''b'', False)),
                 (LineRef ''P'' ''b'', (LineRef ''P'' ''b'', LineRef ''P'' ''c'', True))]"

lemma chain_left_half_corrected_witness:
  "\<exists>la' lb'. let r' = run_of (foldl (walk_member ascii_unicode DEFAULT_GUARD_CONFIG half_texts half_joins) (0, [], half_run)
      [LineRef ''P'' ''a'', LineRef ''P'' ''b'', LineRef ''P'' ''c'']) in
     line_at r' (LineRef ''P'' ''a'') = Some la' \<and> corrected_text la' = Some (tx ''le Ber-'') \<and>
     line_at r' (LineRef ''P'' ''b'') = Some lb' \<and> corrected_text lb' = Some (tx ''liu nou-'')"
proof -
  let ?a = "LineRef ''P'' ''a''" and ?b = "LineRef ''P'' ''b''" and ?c = "LineRef ''P'' ''c''"
  have lines: "line_at half_run ?a = Some ((plain_line ''P'' ''a'' 0 (tx ''le Bcr-''))\<lparr>hyphen_role := PART1\<rparr>)"
    "line_at half_run ?b = Some ((plain_line ''P'' ''b'' 0 (tx ''liu nou-''))\<lparr>hyphen_role := BOTH\<rparr>)"
    "line_at half_run ?c = Some ((plain_line ''P'' ''c'' 0 (tx ''veau''))\<lparr>hyphen_role := PART2\<rparr>)"
    by (simp_all add: half_run_def line_at_def plain_line_def line_ref_def Let_def)
  have coherent: "coherent_run half_run"
    by (auto simp: coherent_run_def half_run_def line_at_def trace_at_def Let_def plain_line_def line_ref_def settled_def
        split: if_splits)
  have joins: "map_of half_joins ?a = Some (?a, ?b, False)" "map_of half_joins ?b = Some (?b, ?c, True)"
    "map_of half_joins ?c = None" by (simp_all add: half_joins_def)
  have pairs: "fst (reconcile_one_pair ascii_unicode DEFAULT_GUARD_CONFIG half_texts False ?a ?b half_run) \<noteq> ''fallback''"
    "fst (reconcile_one_pair ascii_unicode DEFAULT_GUARD_CONFIG half_texts True ?b ?c
      (run_of (walk_member ascii_unicode DEFAULT_GUARD_CONFIG half_texts half_joins (0, [], half_run) ?a))) = ''fallback''"
    "proposed_tail half_texts ((plain_line ''P'' ''a'' 0 (tx ''le Bcr-''))\<lparr>hyphen_role := PART1\<rparr>) = tx ''le Ber-''"
    by code_simp+
  have "distinct [?a, ?b, ?c]" "?b \<notin> set []" "?c \<notin> set []" by simp_all
  from chain_left_half_corrected [OF coherent this(1) lines joins this(2,3) pairs(1,2)] pairs(3)
  show ?thesis by (simp add: Let_def plain_line_def) blast
qed

end
