(* ===== verification/Alignment.thy ===== *)
theory Alignment
  imports Edit_Distance Py_Text
begin

text \<open>
  \<open>core/alignment.py\<close>: the alignment of a source token list with its correction, exact or inside
  a diagonal corridor. \<open>float("inf")\<close> is \<open>None\<close>; costs and similarities are exact rationals, the
  backtrack's tolerance of \<open>1e-9\<close> is kept. Negative indices end the Python loop's progress, so a
  backtrack that would leave the table is \<open>None\<close>: it does not return.

  Facts: the two-row loop of \<open>char_similarity\<close> computes the edit distance; every cell of the
  corridor is finite, whatever the band, so the backtrack always returns; an alignment names every
  source and every target token once, in order, and pairs two tokens only on evidence; without a
  band the table is the reference recursion \<open>align_cost\<close>.
\<close>

section \<open>Character similarity\<close>

fun lev_row :: "'a \<Rightarrow> 'a list \<Rightarrow> nat list \<Rightarrow> nat \<Rightarrow> nat list" where
  "lev_row ca (cb # bs) (p # q # ps) left =
     (let v = min (q + 1) (min (left + 1) (p + (if ca = cb then 0 else 1)))
      in v # lev_row ca bs (q # ps) v)"
| "lev_row ca _ _ left = []"

fun lev_rows :: "nat \<Rightarrow> 'a list \<Rightarrow> 'a list \<Rightarrow> nat list \<Rightarrow> nat list" where
  "lev_rows i [] b previous = previous"
| "lev_rows i (ca # a) b previous = lev_rows (Suc i) a b (i # lev_row ca b previous i)"

definition char_similarity :: "'a list \<Rightarrow> 'a list \<Rightarrow> rat" where
  "char_similarity a b =
     (if a = b then 1
      else if a = [] \<or> b = [] then 0
      else 1 - of_nat (last (lev_rows 1 a b [0 ..< Suc (length b)])) / of_nat (max (length a) (length b)))"

section \<open>Alignments\<close>

record aligned_pair =
  source_index :: "nat option"
  target_index :: "nat option"
  pair_similarity :: rat

record token_alignment =
  pairs :: "aligned_pair list"
  score :: rat
  move_suspected :: bool
  band_exhausted :: bool

definition source_for_target :: "token_alignment \<Rightarrow> nat \<Rightarrow> nat option" where
  "source_for_target al j =
     (case map_of (foldl (\<lambda>d p. case target_index p of None \<Rightarrow> d
              | Some t \<Rightarrow> dict_set t (source_index p) d) [] (pairs al)) j of
        None \<Rightarrow> None | Some s \<Rightarrow> s)"

definition MOVE_SIMILARITY :: rat where
  "MOVE_SIMILARITY = 8/10"

definition WEAK_MATCH :: rat where
  "WEAK_MATCH = 5/10"

definition banded_range :: "nat \<Rightarrow> nat \<Rightarrow> nat \<Rightarrow> nat \<Rightarrow> nat \<times> nat" where
  "banded_range i n m band =
     (let centre = (if n = m then i
                    else if n \<noteq> 0 then nat (py_round (of_nat (i * m) / of_nat n)) else 0)
      in (centre - band, min m (centre + band + 1)))"

text \<open>A row of the table: its first column, its end, its cells.\<close>

type_synonym cost_row = "nat \<times> nat \<times> rat option list"

definition cell :: "cost_row \<Rightarrow> nat \<Rightarrow> rat option" where
  "cell row j = (let (lo, hi, cells) = row in if lo \<le> j \<and> j < hi then cells ! (j - lo) else None)"

definition row_bounds :: "nat \<Rightarrow> nat \<Rightarrow> nat \<Rightarrow> nat \<Rightarrow> nat \<times> nat" where
  "row_bounds n m effective i =
     (let (lo, hi) = banded_range i n m effective in (lo - 1, min (m + 1) (hi + 1)))"

definition opt_add :: "rat option \<Rightarrow> rat \<Rightarrow> rat option" where
  "opt_add x c = map_option (\<lambda>v. v + c) x"

fun opt_min :: "rat option \<Rightarrow> rat option \<Rightarrow> rat option" where
  "opt_min None y = y"
| "opt_min x None = x"
| "opt_min (Some a) (Some b) = Some (if b < a then b else a)"

fun row_cells ::
  "('a \<Rightarrow> 'a \<Rightarrow> rat) \<Rightarrow> nat \<Rightarrow> 'a \<Rightarrow> 'a list \<Rightarrow> cost_row \<Rightarrow> nat \<Rightarrow> nat \<Rightarrow> rat option \<Rightarrow>
   rat option list" where
  "row_cells sim i token target prev 0 j left = []"
| "row_cells sim i token target prev (Suc k) j left =
     (let v = (if j = 0 then Some (of_nat i)
               else opt_min (opt_min (opt_add (cell prev j) 1) (opt_add left 1))
                      (opt_add (cell prev (j - 1)) (2 * (1 - sim token (target ! (j - 1))))))
      in v # row_cells sim i token target prev k (Suc j) v)"

definition first_row :: "nat \<Rightarrow> nat \<Rightarrow> nat \<Rightarrow> cost_row" where
  "first_row n m effective =
     (let (lo, hi) = row_bounds n m effective 0 in (lo, hi, map (\<lambda>j. Some (of_nat j)) [lo ..< hi]))"

definition next_row ::
  "('a \<Rightarrow> 'a \<Rightarrow> rat) \<Rightarrow> nat \<Rightarrow> 'a list \<Rightarrow> nat \<Rightarrow> nat \<Rightarrow> 'a \<Rightarrow> cost_row \<Rightarrow> cost_row" where
  "next_row sim n target effective i token prev =
     (let (lo, hi) = row_bounds n (length target) effective i
      in (lo, hi, row_cells sim i token target prev (hi - lo) lo None))"

fun rows_from ::
  "('a \<Rightarrow> 'a \<Rightarrow> rat) \<Rightarrow> nat \<Rightarrow> 'a list \<Rightarrow> nat \<Rightarrow> nat \<Rightarrow> 'a list \<Rightarrow> cost_row \<Rightarrow> cost_row list" where
  "rows_from sim n target effective i [] prev = [prev]"
| "rows_from sim n target effective i (s # ss) prev =
     prev # rows_from sim n target effective (Suc i) ss (next_row sim n target effective i s prev)"

definition fill_cost_band ::
  "('a \<Rightarrow> 'a \<Rightarrow> rat) \<Rightarrow> 'a list \<Rightarrow> 'a list \<Rightarrow> nat \<Rightarrow> cost_row list" where
  "fill_cost_band sim source target effective =
     rows_from sim (length source) target effective 1 source
       (first_row (length source) (length target) effective)"

definition at_cell :: "cost_row list \<Rightarrow> nat \<Rightarrow> nat \<Rightarrow> rat option" where
  "at_cell table i j = cell (table ! i) j"

definition close_to :: "rat option \<Rightarrow> rat option \<Rightarrow> bool" where
  "close_to x y =
     (case (x, y) of (Some a, Some b) \<Rightarrow> \<bar>a - b\<bar> < 1 / 1000000000 | _ \<Rightarrow> False)"

definition on_edge :: "cost_row list \<Rightarrow> nat option \<Rightarrow> nat \<Rightarrow> nat \<Rightarrow> nat \<Rightarrow> bool" where
  "on_edge table band m i j =
     (let (lo, hi, cells) = table ! i
      in band \<noteq> None \<and> (j \<le> lo \<or> j \<ge> hi - 1) \<and> 0 < j \<and> j < m)"

fun backtrack ::
  "('a \<Rightarrow> 'a \<Rightarrow> rat) \<Rightarrow> 'a list \<Rightarrow> 'a list \<Rightarrow> cost_row list \<Rightarrow> nat option \<Rightarrow> nat \<Rightarrow> nat \<Rightarrow>
   aligned_pair list \<Rightarrow> bool \<Rightarrow> (aligned_pair list \<times> bool) option" where
  "backtrack sim source target table band 0 0 acc ex = Some (acc, ex)"
| "backtrack sim source target table band (Suc i) 0 acc ex =
     (if close_to (at_cell table (Suc i) 0) (opt_add (at_cell table i 0) 1)
      then backtrack sim source target table band i 0
             (\<lparr>source_index = Some i, target_index = None, pair_similarity = 0\<rparr> # acc) ex
      else None)"
| "backtrack sim source target table band 0 (Suc j) acc ex =
     backtrack sim source target table band 0 j
       (\<lparr>source_index = None, target_index = Some j, pair_similarity = 0\<rparr> # acc)
       (ex \<or> on_edge table band (length target) 0 (Suc j))"
| "backtrack sim source target table band (Suc i) (Suc j) acc ex =
     (let ex' = (ex \<or> on_edge table band (length target) (Suc i) (Suc j));
          s = sim (source ! i) (target ! j);
          here = at_cell table (Suc i) (Suc j)
      in
      if close_to here (opt_add (at_cell table i j) (2 * (1 - s))) \<and> s > 0 then
        backtrack sim source target table band i j
          (\<lparr>source_index = Some i, target_index = Some j, pair_similarity = s\<rparr> # acc) ex'
      else if close_to here (opt_add (at_cell table i (Suc j)) 1) then
        backtrack sim source target table band i (Suc j)
          (\<lparr>source_index = Some i, target_index = None, pair_similarity = 0\<rparr> # acc) ex'
      else
        backtrack sim source target table band (Suc i) j
          (\<lparr>source_index = None, target_index = Some j, pair_similarity = 0\<rparr> # acc) ex')"

definition suspect_move ::
  "('a \<Rightarrow> 'a \<Rightarrow> rat) \<Rightarrow> 'a list \<Rightarrow> 'a list \<Rightarrow> nat \<Rightarrow> aligned_pair list \<Rightarrow> bool" where
  "suspect_move sim source target effective ps =
     list_ex (\<lambda>p. case source_index p of
          None \<Rightarrow> False
        | Some src \<Rightarrow>
            if target_index p \<noteq> None \<and> pair_similarity p \<ge> WEAK_MATCH then False
            else (let (lo, hi) = banded_range (src + 1) (length source) (length target) effective in
              list_ex (\<lambda>j. Some j \<noteq> target_index p \<and> sim (source ! src) (target ! j) \<ge> MOVE_SIMILARITY)
                [lo ..< min (length target) hi])) ps"

definition effective_band :: "nat option \<Rightarrow> nat \<Rightarrow> nat \<Rightarrow> nat" where
  "effective_band band n m =
     (case band of None \<Rightarrow> max n m | Some b \<Rightarrow> max b (if n < m then m - n else n - m))"

definition align_tokens ::
  "('a \<Rightarrow> 'a \<Rightarrow> rat) \<Rightarrow> nat option \<Rightarrow> 'a list \<Rightarrow> 'a list \<Rightarrow> token_alignment option" where
  "align_tokens sim band source target =
     (let n = length source; m = length target;
          effective = effective_band band n m;
          table = fill_cost_band sim source target effective
      in case backtrack sim source target table band n m [] False of
           None \<Rightarrow> None
         | Some (ps, ex) \<Rightarrow>
             Some \<lparr>pairs = ps,
                   score = sum_list (map pair_similarity
                             (filter (\<lambda>p. source_index p \<noteq> None \<and> target_index p \<noteq> None) ps))
                           / of_nat (max (max n m) 1),
                   move_suspected = suspect_move sim source target effective ps,
                   band_exhausted = ex\<rparr>)"

section \<open>The two rows are the edit distance\<close>

lemma lev_row_spec:
  assumes "k \<le> length b"
    and "left = ed (a @ [ca]) (take k b)"
  shows "lev_row ca (drop k b) (map (\<lambda>j. ed a (take j b)) [k ..< Suc (length b)]) left =
    map (\<lambda>j. ed (a @ [ca]) (take j b)) [Suc k ..< Suc (length b)]"
  using assms
proof (induction "length b - k" arbitrary: k left)
  case 0
  then have "k = length b" by simp
  then show ?case by simp
next
  case (Suc d)
  then have k: "k < length b" by simp
  have dr: "drop k b = b ! k # drop (Suc k) b" using k by (simp add: Cons_nth_drop_Suc)
  have up: "[k ..< Suc (length b)] = k # Suc k # [Suc (Suc k) ..< Suc (length b)]"
    using k by (simp add: upt_conv_Cons)
  have tk: "take (Suc k) b = take k b @ [b ! k]" using k by (simp add: take_Suc_conv_app_nth)
  let ?v = "ed (a @ [ca]) (take (Suc k) b)"
  have v: "min (ed a (take (Suc k) b) + 1) (min (left + 1) (ed a (take k b) + (if ca = b ! k then 0 else 1))) = ?v"
    using Suc.prems(2) by (simp add: tk ed_snoc min.assoc)
  have up': "[Suc k ..< Suc (length b)] = Suc k # [Suc (Suc k) ..< Suc (length b)]"
    using k by (simp add: upt_conv_Cons)
  have "lev_row ca (drop k b) (map (\<lambda>j. ed a (take j b)) [k ..< Suc (length b)]) left =
      ?v # lev_row ca (drop (Suc k) b) (map (\<lambda>j. ed a (take j b)) [Suc k ..< Suc (length b)]) ?v"
    unfolding dr up list.map lev_row.simps Let_def v unfolding up' list.map ..
  also have "lev_row ca (drop (Suc k) b) (map (\<lambda>j. ed a (take j b)) [Suc k ..< Suc (length b)]) ?v =
      map (\<lambda>j. ed (a @ [ca]) (take j b)) [Suc (Suc k) ..< Suc (length b)]"
    by (rule Suc.hyps(1)) (use Suc.hyps(2) k in auto)
  finally show ?case by (simp only: up' list.map)
qed

lemma lev_rows_spec:
  "lev_rows (Suc (length p)) a b (map (\<lambda>j. ed p (take j b)) [0 ..< Suc (length b)]) =
     map (\<lambda>j. ed (p @ a) (take j b)) [0 ..< Suc (length b)]"
proof (induction a arbitrary: p)
  case (Cons ca a)
  have "Suc (length p) # lev_row ca b (map (\<lambda>j. ed p (take j b)) [0 ..< Suc (length b)]) (Suc (length p)) =
      map (\<lambda>j. ed (p @ [ca]) (take j b)) [0 ..< Suc (length b)]"
    using lev_row_spec [of 0 b "Suc (length p)" p ca] by (simp add: upt_conv_Cons del: upt_Suc)
  then show ?case using Cons.IH [of "p @ [ca]"] by simp
qed simp

lemma char_similarity_eq:
  "char_similarity a b =
     (if a = [] \<and> b = [] then 1 else 1 - of_nat (ed a b) / of_nat (max (length a) (length b)))"
proof -
  have "[0 ..< Suc (length b)] = map (\<lambda>j. ed [] (take j b)) [0 ..< Suc (length b)]"
    by (rule nth_equalityI) (simp_all del: upt_Suc)
  then have "lev_rows 1 a b [0 ..< Suc (length b)] = map (\<lambda>j. ed a (take j b)) [0 ..< Suc (length b)]"
    using lev_rows_spec [of "[]" a b] by simp
  then have l: "last (lev_rows 1 a b [0 ..< Suc (length b)]) = ed a b" by simp
  show ?thesis
  proof (cases "a = [] \<or> b = []")
    case True
    then show ?thesis by (auto simp: char_similarity_def)
  next
    case False
    then show ?thesis unfolding char_similarity_def l by auto
  qed
qed

lemma char_similarity_range: "0 \<le> char_similarity a b \<and> char_similarity a b \<le> 1"
proof (cases "a = [] \<and> b = []")
  case False
  have "(of_nat (ed a b) :: rat) \<le> of_nat (max (length a) (length b))" using ed_le_max of_nat_mono by blast
  moreover have "(0 :: rat) < of_nat (max (length a) (length b))" using False by (simp add: less_max_iff_disj)
  ultimately have "of_nat (ed a b) / of_nat (max (length a) (length b)) \<le> (1 :: rat)"
    by (simp only: divide_le_eq_1_pos)
  with False show ?thesis by (simp add: char_similarity_eq)
qed (simp add: char_similarity_eq)

section \<open>What a similarity measure promises\<close>

locale similarity_measure =
  fixes sim :: "'a \<Rightarrow> 'a \<Rightarrow> rat"
  assumes range: "0 \<le> sim a b" "sim a b \<le> 1"
begin

lemma substitution_cost: "0 \<le> 2 * (1 - sim a b)" "sim a b = 0 \<Longrightarrow> 2 * (1 - sim a b) = 2"
  using range [of a b] by simp_all

lemma evidence: "sim a b > 0 \<or> sim a b = 0"
  using range(1) [of a b] by linarith

end

interpretation characters: similarity_measure char_similarity
  by unfold_locales (use char_similarity_range in blast)+

section \<open>The corridor\<close>

definition centre :: "nat \<Rightarrow> nat \<Rightarrow> nat \<Rightarrow> nat" where
  "centre n m i = (if n = m then i else if n \<noteq> 0 then nat (py_round (of_nat (i * m) / of_nat n)) else 0)"

lemma row_bounds_eq:
  "row_bounds n m e i = (centre n m i - e - 1, min (m + 1) (min m (centre n m i + e + 1) + 1))"
  by (simp add: row_bounds_def banded_range_def centre_def Let_def)

lemma centre_mono: "centre n m i \<le> centre n m (Suc i)"
proof -
  have "of_nat (i * m) / of_nat n \<le> (of_nat (Suc i * m) / of_nat n :: rat)"
    by (intro divide_right_mono) (simp_all add: of_nat_mono del: of_nat_mult)
  from py_round_mono [OF this] show ?thesis by (simp add: centre_def nat_mono)
qed

lemma centre_zero [simp]: "centre n m 0 = 0"
  by (simp add: centre_def)

lemma centre_end: "centre n m n = (if n = 0 then 0 else m)"
  by (simp add: centre_def)

lemma effective_band_wide: "n - m \<le> effective_band band n m" "m - n \<le> effective_band band n m"
  by (auto simp: effective_band_def split: option.split)

text \<open>From one row to the next the centre moves less than the corridor is wide.\<close>

lemma centre_step: "centre n m (Suc i) \<le> centre n m i + 2 + (m - n)"
proof (cases "n = m \<or> n = 0")
  case False
  define a where "a = (of_nat (i * m) / of_nat n :: rat)"
  define b where "b = (of_nat (Suc i * m) / of_nat n :: rat)"
  have ab: "b = a + of_nat m / of_nat n" by (simp add: a_def b_def add_divide_distrib)
  have q: "(of_nat m / of_nat n :: rat) \<le> of_nat (m - n) + 1"
  proof -
    have "m \<le> (m - n + 1) * n"
    proof (cases "m \<le> n")
      case True
      then show ?thesis by simp
    next
      case f: False
      then obtain d where d: "m = n + d" by (metis le_add_diff_inverse nat_le_linear)
      have "d \<le> d * n" using False by simp
      then show ?thesis by (simp add: d algebra_simps)
    qed
    then have "(of_nat m :: rat) \<le> of_nat ((m - n + 1) * n)" using of_nat_mono by blast
    also have "\<dots> = (of_nat (m - n) + 1) * of_nat n" by (simp only: of_nat_mult of_nat_add of_nat_1)
    finally have "(of_nat m :: rat) \<le> (of_nat (m - n) + 1) * of_nat n" .
    with False show ?thesis by (simp add: divide_le_eq)
  qed
  have "(of_int (py_round b) :: rat) \<le> of_int (py_round a) + 2 + of_nat (m - n)"
    using py_round_bounds [of a] py_round_bounds [of b] ab q by linarith
  then have "py_round b \<le> py_round a + 2 + int (m - n)"
    by (metis (mono_tags, opaque_lifting) of_int_add of_int_le_iff of_int_numeral of_int_of_nat_eq)
  moreover have "0 \<le> py_round a" using py_round_mono [of 0 a] py_round_of_nat [of 0] by (simp add: a_def)
  ultimately have "nat (py_round b) \<le> nat (py_round a) + 2 + (m - n)" by linarith
  then show ?thesis using False unfolding centre_def a_def b_def by (simp only: if_False if_True HOL.simp_thms de_Morgan_disj)
next
  case True
  then show ?thesis by (auto simp: centre_def)
qed

lemma centre_le: "i \<le> n \<Longrightarrow> centre n m i \<le> m"
proof (induction "n - i" arbitrary: i)
  case 0
  then show ?case by (simp add: centre_end)
next
  case (Suc d)
  then have "centre n m (Suc i) \<le> m" by simp
  then show ?case using centre_mono [of n m i] by linarith
qed

definition in_row :: "nat \<Rightarrow> nat \<Rightarrow> nat \<Rightarrow> nat \<Rightarrow> nat \<Rightarrow> bool" where
  "in_row n m e i j = (fst (row_bounds n m e i) \<le> j \<and> j < snd (row_bounds n m e i))"

lemma in_row_bound: "in_row n m e i j \<Longrightarrow> j \<le> m"
  by (auto simp: in_row_def row_bounds_eq)

lemma corridor_end: "in_row n m (effective_band band n m) n m"
  using effective_band_wide(2) [of m n band] by (auto simp: in_row_def row_bounds_eq centre_end)

lemma corridor_overlap:
  assumes "Suc i \<le> n" and "m - n \<le> e" and "j = fst (row_bounds n m e (Suc i))"
  shows "in_row n m e i j"
proof -
  have "j = centre n m (Suc i) - e - 1" using assms(3) by (simp add: row_bounds_eq)
  moreover have "centre n m (Suc i) \<le> m" using centre_le assms(1) by blast
  ultimately have "centre n m i - e - 1 \<le> j \<and> j < m + 1 \<and> j < centre n m i + e + 1 + 1"
    using centre_step [of n m i] centre_mono [of n m i] assms(2) by linarith
  then have "centre n m i - e - 1 \<le> j \<and> j < min (m + 1) (min m (centre n m i + e + 1) + 1)" by linarith
  then show ?thesis by (simp only: in_row_def row_bounds_eq fst_conv snd_conv)
qed

lemma corridor_left:
  "in_row n m e (Suc i) 0 \<Longrightarrow> in_row n m e i 0"
  using centre_mono [of n m i] by (simp add: in_row_def row_bounds_eq)

section \<open>The cells of the table\<close>

lemma length_row_cells [simp]: "length (row_cells sim i token target prev k j left) = k"
  by (induction k arbitrary: j left) (simp_all add: Let_def)

lemma row_cells_nth:
  "u < k \<Longrightarrow> row_cells sim i token target prev k j left ! u =
     (if j + u = 0 then Some (of_nat i)
      else opt_min (opt_min (opt_add (cell prev (j + u)) 1)
             (opt_add (if u = 0 then left else row_cells sim i token target prev k j left ! (u - 1)) 1))
             (opt_add (cell prev (j + u - 1)) (2 * (1 - sim token (target ! (j + u - 1))))))"
proof (induction k arbitrary: j left u)
  case (Suc k)
  show ?case
  proof (cases u)
    case 0
    then show ?thesis by (simp add: Let_def)
  next
    case (Suc v)
    then have "v < k" using Suc.prems by simp
    from Suc.IH [OF this, of "Suc j"] show ?thesis
      by (cases v) (simp_all add: Suc Let_def)
  qed
qed simp

lemma cell_next_row:
  "cell (next_row sim n target e i token prev) j =
     (if \<not> in_row n (length target) e i j then None
      else if j = 0 then Some (of_nat i)
      else opt_min (opt_min (opt_add (cell prev j) 1)
             (opt_add (cell (next_row sim n target e i token prev) (j - 1)) 1))
             (opt_add (cell prev (j - 1)) (2 * (1 - sim token (target ! (j - 1))))))"
proof -
  obtain lo hi where b: "row_bounds n (length target) e i = (lo, hi)" by (cases "row_bounds n (length target) e i")
  let ?cs = "row_cells sim i token target prev (hi - lo) lo None"
  have row: "next_row sim n target e i token prev = (lo, hi, ?cs)" by (simp add: next_row_def b)
  show ?thesis
  proof (cases "lo \<le> j \<and> j < hi")
    case False
    then have "\<not> in_row n (length target) e i j" by (simp add: in_row_def b)
    moreover have "cell (lo, hi, ?cs) j = None" unfolding cell_def using False by auto
    ultimately show ?thesis by (simp add: row)
  next
    case True
    then have u: "j - lo < hi - lo" by linarith
    have "cell (lo, hi, ?cs) j = ?cs ! (j - lo)" using True by (simp add: cell_def)
    also note row_cells_nth [OF u]
    finally have c: "cell (lo, hi, ?cs) j = (if j = 0 then Some (of_nat i)
      else opt_min (opt_min (opt_add (cell prev j) 1)
             (opt_add (if j = lo then None else ?cs ! (j - lo - 1)) 1))
             (opt_add (cell prev (j - 1)) (2 * (1 - sim token (target ! (j - 1))))))"
      using True by (simp split: if_splits)
    have "0 < j \<Longrightarrow> cell (lo, hi, ?cs) (j - 1) = (if j = lo then None else ?cs ! (j - lo - 1))"
      using True by (auto simp: cell_def)
    with c show ?thesis using True by (simp add: row in_row_def b)
  qed
qed

lemma cell_first_row:
  "cell (first_row n m e) j = (if in_row n m e 0 j then Some (of_nat j) else None)"
  by (auto simp: first_row_def cell_def in_row_def split: prod.split)

lemma rows_from_nth:
  "k \<le> length ss \<Longrightarrow> rows_from sim n target e i ss prev ! k =
     (if k = 0 then prev
      else next_row sim n target e (i + k - 1) (ss ! (k - 1)) (rows_from sim n target e i ss prev ! (k - 1)))"
proof (induction ss arbitrary: i prev k)
  case (Cons s ss)
  show ?case
  proof (cases k)
    case (Suc l)
    then have "l \<le> length ss" using Cons.prems by simp
    from Cons.IH [OF this, of "Suc i"] show ?thesis by (cases l) (simp_all add: Suc)
  qed simp
qed simp

lemma at_cell_zero:
  "at_cell (fill_cost_band sim source target e) 0 j =
     (if in_row (length source) (length target) e 0 j then Some (of_nat j) else None)"
  by (simp add: at_cell_def fill_cost_band_def rows_from_nth [of 0] cell_first_row)

lemma at_cell_Suc:
  "i < length source \<Longrightarrow> at_cell (fill_cost_band sim source target e) (Suc i) j =
     (if \<not> in_row (length source) (length target) e (Suc i) j then None
      else if j = 0 then Some (of_nat (Suc i))
      else opt_min (opt_min (opt_add (at_cell (fill_cost_band sim source target e) i j) 1)
             (opt_add (at_cell (fill_cost_band sim source target e) (Suc i) (j - 1)) 1))
             (opt_add (at_cell (fill_cost_band sim source target e) i (j - 1))
                (2 * (1 - sim (source ! i) (target ! (j - 1))))))"
proof -
  assume i: "i < length source"
  have r: "fill_cost_band sim source target e ! Suc i =
      next_row sim (length source) target e (Suc i) (source ! i) (fill_cost_band sim source target e ! i)"
    using i rows_from_nth [of "Suc i" source sim "length source" target e 1]
    by (simp add: fill_cost_band_def)
  show ?thesis unfolding at_cell_def r by (subst cell_next_row) (rule refl)
qed

text \<open>Every cell of the corridor is finite: its first cell is reached from above, the others also
  from the left.\<close>

lemma opt_add_Some [simp]: "opt_add (Some v) c = Some (v + c)"
  by (simp add: opt_add_def)

lemma opt_add_None [simp]: "opt_add None c = None"
  by (simp add: opt_add_def)

lemma opt_min_finite: "opt_min x y = None \<longleftrightarrow> x = None \<and> y = None"
  by (cases x; cases y) simp_all

lemma opt_add_finite: "opt_add x c = None \<longleftrightarrow> x = None"
  by (simp add: opt_add_def)

lemma corridor_finite:
  assumes "length target - length source \<le> e"
  shows "i \<le> length source \<Longrightarrow> in_row (length source) (length target) e i j \<Longrightarrow>
    at_cell (fill_cost_band sim source target e) i j \<noteq> None"
proof (induction i arbitrary: j)
  case 0
  then show ?case by (simp add: at_cell_zero)
next
  case (Suc i)
  let ?n = "length source" and ?m = "length target"
  let ?C = "at_cell (fill_cost_band sim source target e)"
  have i: "i < ?n" using Suc.prems by simp
  from Suc.prems(2) show ?case
  proof (induction j)
    case 0
    then show ?case using at_cell_Suc [OF i, of sim target e 0] by simp
  next
    case (Suc j)
    show ?case
    proof (cases "in_row ?n ?m e (Suc i) j")
      case True
      then have "?C (Suc i) j \<noteq> None" using Suc.IH by simp
      then show ?thesis using at_cell_Suc [OF i, of sim target e "Suc j"] Suc.prems
        by (simp add: opt_min_finite opt_add_finite)
    next
      case False
      then have "Suc j = fst (row_bounds ?n ?m e (Suc i))" using Suc.prems by (simp add: in_row_def)
      then have "in_row ?n ?m e i (Suc j)" using corridor_overlap [OF _ assms] i by simp
      then have "?C i (Suc j) \<noteq> None" using \<open>\<And>j. _ \<Longrightarrow> _ \<Longrightarrow> at_cell _ i j \<noteq> None\<close> i by simp
      then show ?thesis using at_cell_Suc [OF i, of sim target e "Suc j"] Suc.prems
        by (simp add: opt_min_finite opt_add_finite)
    qed
  qed
qed

lemma outside_corridor:
  "i \<le> length source \<Longrightarrow> \<not> in_row (length source) (length target) e i j \<Longrightarrow>
   at_cell (fill_cost_band sim source target e) i j = None"
  by (cases i) (simp_all add: at_cell_zero at_cell_Suc)

lemma close_to_refl [simp]: "close_to (Some v) (Some v)"
  by (simp add: close_to_def)

lemma close_to_finite: "close_to x (opt_add y c) \<Longrightarrow> y \<noteq> None"
  by (cases x; cases y) (simp_all add: close_to_def)

section \<open>The walk back always arrives\<close>

definition source_walk :: "aligned_pair list \<Rightarrow> nat list" where
  "source_walk ps = List.map_filter source_index ps"

definition target_walk :: "aligned_pair list \<Rightarrow> nat list" where
  "target_walk ps = List.map_filter target_index ps"

definition well_evidenced :: "('a \<Rightarrow> 'a \<Rightarrow> rat) \<Rightarrow> 'a list \<Rightarrow> 'a list \<Rightarrow> aligned_pair \<Rightarrow> bool" where
  "well_evidenced sim source target p =
     (case (source_index p, target_index p) of
        (Some i, Some j) \<Rightarrow> pair_similarity p = sim (source ! i) (target ! j) \<and> pair_similarity p > 0
      | (None, None) \<Rightarrow> False
      | _ \<Rightarrow> pair_similarity p = 0)"

definition reads_once :: "('a \<Rightarrow> 'a \<Rightarrow> rat) \<Rightarrow> 'a list \<Rightarrow> 'a list \<Rightarrow> nat \<Rightarrow> nat \<Rightarrow> aligned_pair list \<Rightarrow> bool" where
  "reads_once sim source target i j ps \<longleftrightarrow>
     source_walk ps = [0 ..< i] \<and> target_walk ps = [0 ..< j] \<and>
     list_all (well_evidenced sim source target) ps"

lemma walk_append [simp]:
  "source_walk (ps @ qs) = source_walk ps @ source_walk qs"
  "target_walk (ps @ qs) = target_walk ps @ target_walk qs"
  by (simp_all add: source_walk_def target_walk_def List.map_filter_def)

lemma walk_single [simp]:
  "source_walk [] = []" "target_walk [] = []"
  "source_walk [p] = (case source_index p of None \<Rightarrow> [] | Some i \<Rightarrow> [i])"
  "target_walk [p] = (case target_index p of None \<Rightarrow> [] | Some j \<Rightarrow> [j])"
  by (simp_all add: source_walk_def target_walk_def map_filter_simps split: option.split)

lemma reads_once_append:
  assumes "reads_once sim source target i j ps"
    and "source_walk [p] = [i ..< i']" "target_walk [p] = [j ..< j']" "i \<le> i'" "j \<le> j'"
    and "well_evidenced sim source target p"
  shows "reads_once sim source target i' j' (ps @ [p])"
proof -
  have "[0 ..< i'] = [0 ..< i] @ [i ..< i']" "[0 ..< j'] = [0 ..< j] @ [j ..< j']"
    using upt_add_eq_append [of 0 i "i' - i"] upt_add_eq_append [of 0 j "j' - j"] assms(4,5) by simp_all
  with assms show ?thesis by (simp add: reads_once_def del: walk_single)
qed

definition arrives ::
  "('a \<Rightarrow> 'a \<Rightarrow> rat) \<Rightarrow> 'a list \<Rightarrow> 'a list \<Rightarrow> nat \<Rightarrow> nat \<Rightarrow> aligned_pair list \<Rightarrow>
   (aligned_pair list \<times> bool) option \<Rightarrow> bool" where
  "arrives sim source target i j acc r \<longleftrightarrow>
     (\<exists>ps ex. r = Some (ps @ acc, ex) \<and> reads_once sim source target i j ps)"

lemma arrives_step:
  "arrives sim source target i j (p # acc) r \<Longrightarrow>
   source_walk [p] = [i ..< i'] \<Longrightarrow> target_walk [p] = [j ..< j'] \<Longrightarrow> i \<le> i' \<Longrightarrow> j \<le> j' \<Longrightarrow>
   well_evidenced sim source target p \<Longrightarrow> arrives sim source target i' j' acc r"
  unfolding arrives_def using reads_once_append by (metis append.assoc append_Cons append_Nil)

context similarity_measure
begin

text \<open>One step up or left never costs more than one gap, so a zero-evidence substitution is never
  the only way on.\<close>

lemma cell_above:
  assumes "i \<le> length source"
    and "in_row (length source) (length target) e i (Suc j)"
    and "at_cell (fill_cost_band sim source target e) i j = Some d"
  shows "\<exists>u. at_cell (fill_cost_band sim source target e) i (Suc j) = Some u \<and> u \<le> d + 1"
proof (cases i)
  case 0
  then show ?thesis using assms by (auto simp: at_cell_zero split: if_splits)
next
  case (Suc k)
  let ?C = "at_cell (fill_cost_band sim source target e)"
  have "?C (Suc k) (Suc j) = opt_min (opt_min (opt_add (?C k (Suc j)) 1) (Some (d + 1)))
      (opt_add (?C k j) (2 * (1 - sim (source ! k) (target ! j))))"
    using at_cell_Suc [of k source sim target e "Suc j"] assms Suc by simp
  then show ?thesis by (cases "?C k (Suc j)"; cases "?C k j") (auto simp: Suc)
qed

lemma way_on:
  assumes "Suc i \<le> length source" "length target - length source \<le> e"
    and here: "at_cell (fill_cost_band sim source target e) (Suc i) (Suc j) \<noteq> None"
    and left: "at_cell (fill_cost_band sim source target e) (Suc i) j = None"
    and no_sub: "\<not> (close_to (at_cell (fill_cost_band sim source target e) (Suc i) (Suc j))
      (opt_add (at_cell (fill_cost_band sim source target e) i j) (2 * (1 - sim (source ! i) (target ! j)))) \<and>
      sim (source ! i) (target ! j) > 0)"
  shows "close_to (at_cell (fill_cost_band sim source target e) (Suc i) (Suc j))
      (opt_add (at_cell (fill_cost_band sim source target e) i (Suc j)) 1)"
proof -
  let ?C = "at_cell (fill_cost_band sim source target e)"
  let ?n = "length source" and ?m = "length target" and ?s = "sim (source ! i) (target ! j)"
  have i: "i < ?n" using assms(1) by simp
  have inr: "in_row ?n ?m e (Suc i) (Suc j)" using here outside_corridor [OF assms(1)] by metis
  have "\<not> in_row ?n ?m e (Suc i) j" using left corridor_finite [OF assms(2) assms(1)] by blast
  with inr have "Suc j = fst (row_bounds ?n ?m e (Suc i))" by (simp add: in_row_def)
  then have up_in: "in_row ?n ?m e i (Suc j)" using corridor_overlap [OF assms(1,2)] by simp
  then obtain u where u: "?C i (Suc j) = Some u" using corridor_finite [OF assms(2)] i by fastforce
  have rec: "?C (Suc i) (Suc j) = opt_min (Some (u + 1)) (opt_add (?C i j) (2 * (1 - ?s)))"
    using at_cell_Suc [OF i, of sim target e "Suc j"] inr left u by simp
  show ?thesis
  proof (cases "?C i j")
    case None
    then show ?thesis by (simp add: rec u)
  next
    case (Some d)
    have le: "u \<le> d + 1" using cell_above [OF _ up_in Some] i u by simp
    show ?thesis
    proof (cases "?s > 0")
      case True
      then have "\<not> d + 2 * (1 - ?s) < u + 1" using no_sub by (auto simp: rec Some)
      then show ?thesis by (simp add: rec Some u)
    next
      case False
      then have "?s = 0" using evidence by blast
      then show ?thesis using le by (simp add: rec Some u)
    qed
  qed
qed

lemma backtrack_arrives:
  assumes "length target - length source \<le> e"
  shows "i \<le> length source \<Longrightarrow> at_cell (fill_cost_band sim source target e) i j \<noteq> None \<Longrightarrow>
    arrives sim source target i j acc
      (backtrack sim source target (fill_cost_band sim source target e) band i j acc ex)"
proof (induction "i + j" arbitrary: i j acc ex rule: less_induct)
  case less
  let ?T = "fill_cost_band sim source target e"
  let ?n = "length source" and ?m = "length target"
  note go = less.hyps [OF _ _ _ , THEN arrives_step]
  show ?case
  proof (cases i)
    case 0
    show ?thesis
    proof (cases j)
      case 0
      with \<open>i = 0\<close> show ?thesis by (simp add: arrives_def reads_once_def)
    next
      case (Suc l)
      have "in_row ?n ?m e 0 j" using less.prems \<open>i = 0\<close> by (auto simp: at_cell_zero split: if_splits)
      then have "in_row ?n ?m e 0 l" using Suc by (auto simp: in_row_def row_bounds_eq centre_zero)
      then have "at_cell ?T 0 l \<noteq> None" by (simp add: at_cell_zero)
      then show ?thesis unfolding Suc \<open>i = 0\<close> backtrack.simps
        by (intro go) (simp_all add: \<open>i = 0\<close> Suc well_evidenced_def)
    qed
  next
    case i: (Suc k)
    have kn: "k < ?n" using i less.prems by simp
    show ?thesis
    proof (cases j)
      case 0
      have "in_row ?n ?m e (Suc k) 0" using less.prems outside_corridor [OF less.prems(1)] unfolding i 0 by metis
      from corridor_left [OF this] have r: "in_row ?n ?m e k 0" .
      have "at_cell ?T k 0 = Some (of_nat k)"
        using r kn by (cases k) (simp_all add: at_cell_zero at_cell_Suc)
      moreover have "at_cell ?T (Suc k) 0 = Some (of_nat (Suc k))"
        using \<open>in_row ?n ?m e (Suc k) 0\<close> kn by (simp add: at_cell_Suc)
      ultimately have c: "close_to (at_cell ?T (Suc k) 0) (opt_add (at_cell ?T k 0) 1)"
        by (simp add: add.commute)
      show ?thesis unfolding i 0 backtrack.simps if_P [OF c]
        by (intro go) (use \<open>at_cell ?T k 0 = _\<close> kn in \<open>simp_all add: i 0 well_evidenced_def\<close>)
    next
      case j: (Suc l)
      let ?s = "sim (source ! k) (target ! l)"
      let ?sub = "close_to (at_cell ?T (Suc k) (Suc l)) (opt_add (at_cell ?T k l) (2 * (1 - ?s))) \<and> ?s > 0"
      let ?up = "close_to (at_cell ?T (Suc k) (Suc l)) (opt_add (at_cell ?T k (Suc l)) 1)"
      consider (sub) ?sub | (up) "\<not> ?sub" ?up | (left) "\<not> ?sub" "\<not> ?up" by blast
      then show ?thesis
      proof cases
        case sub
        then have "at_cell ?T k l \<noteq> None" using close_to_finite by blast
        then show ?thesis unfolding i j backtrack.simps Let_def if_P [OF sub]
          by (intro go) (use sub kn in \<open>simp_all add: i j well_evidenced_def\<close>)
      next
        case up
        then have "at_cell ?T k (Suc l) \<noteq> None" using close_to_finite by blast
        then show ?thesis unfolding i j backtrack.simps Let_def if_not_P [OF up(1)] if_P [OF up(2)]
          by (intro go) (use kn in \<open>simp_all add: i j well_evidenced_def\<close>)
      next
        case left
        have "at_cell ?T (Suc k) l \<noteq> None"
          using way_on [OF _ assms _ _ left(1)] left(2) less.prems i j kn by auto
        then show ?thesis unfolding i j backtrack.simps Let_def if_not_P [OF left(1)] if_not_P [OF left(2)]
          by (intro go) (use kn in \<open>simp_all add: i j well_evidenced_def\<close>)
      qed
    qed
  qed
qed

text \<open>The walk back from the last cell arrives, whatever the band.\<close>

lemma align_arrives:
  "\<exists>al. align_tokens sim band source target = Some al \<and>
     reads_once sim source target (length source) (length target) (pairs al)"
proof -
  let ?e = "effective_band band (length source) (length target)"
  have wide: "length target - length source \<le> ?e" by (rule effective_band_wide)
  have "at_cell (fill_cost_band sim source target ?e) (length source) (length target) \<noteq> None"
    by (rule corridor_finite [OF wide order_refl corridor_end])
  from backtrack_arrives [OF wide order_refl this, of "[]" band False]
  show ?thesis by (auto simp: arrives_def align_tokens_def Let_def)
qed

lemma matched_sum:
  assumes "list_all (well_evidenced sim source target) ps"
  shows "0 \<le> sum_list (map pair_similarity (filter (\<lambda>p. source_index p \<noteq> None \<and> target_index p \<noteq> None) ps)) \<and>
    sum_list (map pair_similarity (filter (\<lambda>p. source_index p \<noteq> None \<and> target_index p \<noteq> None) ps))
      \<le> of_nat (length (source_walk ps))"
  using assms
proof (induction ps)
  case (Cons p ps)
  have w: "source_walk (p # ps) = source_walk [p] @ source_walk ps"
    using walk_append(1) [of "[p]" ps] by simp
  show ?case
  proof (cases "source_index p = None \<or> target_index p = None")
    case True
    with Cons show ?thesis unfolding w by (auto split: option.split)
  next
    case False
    then obtain i j where "source_index p = Some i" "target_index p = Some j" by auto
    with Cons.prems have "pair_similarity p = sim (source ! i) (target ! j)"
      by (simp add: well_evidenced_def)
    with range [of "source ! i" "target ! j"] have "0 \<le> pair_similarity p" "pair_similarity p \<le> 1" by simp_all
    with Cons False show ?thesis unfolding w by auto
  qed
qed simp

lemma align_score:
  assumes "align_tokens sim band source target = Some al"
  shows "0 \<le> score al \<and> score al \<le> 1"
proof -
  let ?S = "sum_list (map pair_similarity (filter (\<lambda>p. source_index p \<noteq> None \<and> target_index p \<noteq> None) (pairs al)))"
  let ?D = "of_nat (max (max (length source) (length target)) 1) :: rat"
  from align_arrives [of band source target] assms
  have ro: "reads_once sim source target (length source) (length target) (pairs al)" by auto
  have sc: "score al = ?S / ?D" using assms by (auto simp: align_tokens_def Let_def split: option.splits prod.splits)
  have w: "source_walk (pairs al) = [0 ..< length source]" "list_all (well_evidenced sim source target) (pairs al)"
    using ro by (simp_all add: reads_once_def)
  have S: "0 \<le> ?S" "?S \<le> of_nat (length source)" using matched_sum [OF w(2)] by (simp_all add: w(1))
  have "(of_nat (length source) :: rat) \<le> ?D" by (simp only: of_nat_le_iff)
  with S(2) have "?S \<le> ?D" by (rule order_trans)
  moreover have D: "0 < ?D" by (simp add: less_max_iff_disj)
  ultimately have "?S / ?D \<le> 1" by (simp only: divide_le_eq_1_pos)
  with S(1) D show ?thesis unfolding sc by (simp add: divide_nonneg_pos)
qed

text \<open>Without a band the corridor is the whole table.\<close>

end

lemma exact_corridor: "i \<le> n \<Longrightarrow> in_row n m (effective_band None n m) i j \<longleftrightarrow> j \<le> m"
  using centre_le [of i n m] by (auto simp: in_row_def row_bounds_eq effective_band_def)

text \<open>The reference recursion on prefixes: a gap costs 1, a substitution \<open>2 (1 - sim)\<close>.\<close>

fun align_cost :: "('a \<Rightarrow> 'a \<Rightarrow> rat) \<Rightarrow> 'a list \<Rightarrow> 'a list \<Rightarrow> nat \<Rightarrow> nat \<Rightarrow> rat" where
  "align_cost sim source target 0 j = of_nat j"
| "align_cost sim source target (Suc i) 0 = of_nat (Suc i)"
| "align_cost sim source target (Suc i) (Suc j) =
     min (min (align_cost sim source target i (Suc j) + 1) (align_cost sim source target (Suc i) j + 1))
       (align_cost sim source target i j + 2 * (1 - sim (source ! i) (target ! j)))"

lemma opt_min_both [simp]: "opt_min (Some a) (Some b) = Some (min a b)"
  by (simp add: min_def)

declare opt_min.simps(3) [simp del]

lemma exact_cells:
  "i \<le> length source \<Longrightarrow> j \<le> length target \<Longrightarrow>
   at_cell (fill_cost_band sim source target (effective_band None (length source) (length target))) i j =
     Some (align_cost sim source target i j)"
proof (induction sim source target i j rule: align_cost.induct)
  case (1 sim source target j)
  then show ?case by (simp add: at_cell_zero exact_corridor)
next
  case (2 sim source target i)
  then show ?case by (simp add: at_cell_Suc exact_corridor)
next
  case (3 sim source target i j)
  then show ?case by (subst at_cell_Suc) (simp_all add: exact_corridor)
qed

section \<open>Properties\<close>

text \<open>C28: the alignment always returns, whatever the band, and its pairs name every source token
  once and every target token once, in reading order (so it never crosses); two tokens are paired
  only with their own similarity and only when it is positive.\<close>

theorem align_tokens_total_and_monotone:
  "\<exists>al. align_tokens char_similarity band source target = Some al \<and>
     source_walk (pairs al) = [0 ..< length source] \<and>
     target_walk (pairs al) = [0 ..< length target] \<and>
     list_all (well_evidenced char_similarity source target) (pairs al) \<and>
     0 \<le> score al \<and> score al \<le> 1"
  using characters.align_arrives [of band source target] characters.align_score [of band source target]
  unfolding reads_once_def by blast

text \<open>C27: without a band, every cell of the row-by-row cost table, corridor bookkeeping, padding
  and offsets included, is the value of the reference recursion.\<close>

theorem cost_table_is_reference:
  "map (\<lambda>i. map (at_cell (fill_cost_band sim source target
        (effective_band None (length source) (length target))) i) [0 ..< Suc (length target)])
      [0 ..< Suc (length source)] =
   map (\<lambda>i. map (\<lambda>j. Some (align_cost sim source target i j)) [0 ..< Suc (length target)])
      [0 ..< Suc (length source)]"
  by (intro map_cong refl exact_cells) auto

text \<open>C29: the two-row loop of \<open>char_similarity\<close> is one minus the edit distance over the longer
  length.\<close>

theorem char_similarity_is_edit_distance:
  "char_similarity a b =
     (if a = [] \<and> b = [] then 1 else 1 - of_nat (ed a b) / of_nat (max (length a) (length b)))"
  by (rule char_similarity_eq)

end
