(* ===== verification/Acceptance.thy ===== *)
theory Acceptance
  imports Reconcile Alignment
begin

text \<open>
  \<open>core/acceptance.py\<close>: whether a proposal may stand and what falls with it. A pass over the
  document raises \<open>RuntimeError\<close> (\<open>Inl\<close>) when the order token says it runs too early or twice;
  \<open>None\<close> for the token means unchecked, as in the source. Reasons are written out, numbers
  included; the dash of a message is ASCII.

  Facts: a line the acceptance pass decides is corrected to a text \<open>check_line\<close> accepted or is at
  its source; a revert takes exactly the flagged lines and the rest of their hyphen units; every
  pass is a run pass.
\<close>

section \<open>Numbers in messages\<close>

text \<open>\<open>f"{x:.2f}"\<close> for a non-negative \<open>x\<close>.\<close>

definition fixed2 :: "rat \<Rightarrow> string" where
  "fixed2 x =
     (let c = nat (py_round (x * 100))
      in dec (c div 100) @ ''.'' @ dec (c div 10 mod 10) @ dec (c mod 10))"

section \<open>The order token\<close>

type_synonym finalize_order = "string list"

definition entering :: "finalize_order option \<Rightarrow> string \<Rightarrow> string list \<Rightarrow> exn + finalize_order option" where
  "entering order step requires =
     (case order of
        None \<Rightarrow> Inr None
      | Some so_far \<Rightarrow>
          if filter (\<lambda>name. name \<notin> set so_far) requires \<noteq> []
          then Inl (Exn C_RuntimeError ''finalisation pass ran too early'')
          else if step \<in> set so_far then Inl (Exn C_RuntimeError ''finalisation pass ran twice'')
          else Inr (Some (so_far @ [step])))"

section \<open>One line\<close>

definition neighbour_ocr :: "run \<Rightarrow> page_workspace \<Rightarrow> ident option \<Rightarrow> ptext option" where
  "neighbour_ocr r ws n =
     (if truthy n
      then (case map_of (ws_lines ws) (the n) of
              None \<Rightarrow> None | Some ref \<Rightarrow> map_option ocr_text (line_at r ref))
      else None)"

definition fallen_partner :: "run \<Rightarrow> page_workspace \<Rightarrow> line_manifest \<Rightarrow> bool" where
  "fallen_partner r ws lm =
     list_ex (\<lambda>p. case lookup_ref ws (page_id lm) p of
          None \<Rightarrow> False
        | Some x \<Rightarrow> (case line_at r x of None \<Rightarrow> False | Some q \<Rightarrow> status q = FALLBACK))
       [pair_ref lm, forward_ref lm]"

definition orphan_completed :: "line_manifest \<Rightarrow> ptext \<Rightarrow> bool" where
  "orphan_completed lm corrected \<longleftrightarrow>
     opens_unit (hyphen_role lm) \<and> ends_with_break_mark (ocr_text lm) \<and> \<not> ends_with_break_mark corrected"

definition line_verdict :: "guard_config \<Rightarrow> page_workspace \<Rightarrow> run \<Rightarrow> line_manifest \<Rightarrow> ptext \<Rightarrow> acceptance_result" where
  "line_verdict cfg ws r lm corrected =
     check_line cfg (ocr_text lm) corrected (neighbour_ocr r ws (prev_line_id lm))
       (neighbour_ocr r ws (next_line_id lm))"

definition accept_line ::
  "guard_config \<Rightarrow> page_workspace \<Rightarrow> (ident, ptext) dict \<Rightarrow> lref \<Rightarrow> run \<Rightarrow> run" where
  "accept_line cfg ws texts ref r =
     (case line_at r ref of
        None \<Rightarrow> r
      | Some lm \<Rightarrow>
          if corrected_text lm \<noteq> None then r
          else (case map_of texts (line_id lm) of
                  None \<Rightarrow> r
                | Some corrected \<Rightarrow>
                    if orphan_completed lm corrected then fall_back ''orphan_hyphen_completed'' ref r
                    else if fallen_partner r ws lm then fall_back ''hyphen_partner_fell_back'' ref r
                    else
                      (let result = line_verdict cfg ws r lm corrected;
                           decided = (if accepted result then accept (accepted_text result) ref r
                             else fall_back (the (py_or (reason result) (Some ''rejected''))) ref r)
                       in set_trace (\<lambda>t. t\<lparr>tr_proposal_features := features result\<rparr>) ref decided)))"

definition apply_line_acceptance ::
  "guard_config \<Rightarrow> page_workspace \<Rightarrow> (ident, ptext) dict \<Rightarrow> lref list \<Rightarrow> run \<Rightarrow> run" where
  "apply_line_acceptance cfg ws texts refs r = foldl (\<lambda>r ref. accept_line cfg ws texts ref r) r refs"

section \<open>Reverting whole units\<close>

definition pull_unit ::
  "string \<Rightarrow> (lref, hyphen_group) dict \<Rightarrow> (lref, string) dict \<Rightarrow> lref \<Rightarrow> (lref, string) dict" where
  "pull_unit why by_line d ref =
     (case map_of by_line ref of
        None \<Rightarrow> d | Some g \<Rightarrow> foldl (\<lambda>d m. set_default m why d) d (hg_members g))"

definition apply_unit_reverts :: "string \<Rightarrow> (lref, string) dict \<Rightarrow> run \<Rightarrow> (lref, string) dict \<times> run" where
  "apply_unit_reverts why reverts r =
     (if reverts = [] then ([], r)
      else
        (let by_line = hyphen_group_by_line (derive_hyphen_groups (map snd (rn_lines r)));
             to_revert = foldl (pull_unit why by_line) reverts (map fst reverts)
         in (to_revert, foldl (\<lambda>r (ref, reason). fall_back reason ref r) r to_revert)))"

section \<open>Adjacent lines of the whole document\<close>

definition seam_entry_of :: "line_manifest \<Rightarrow> lref seam_entry" where
  "seam_entry_of lm =
     (line_ref lm, ocr_text lm, case corrected_text lm of None \<Rightarrow> ocr_text lm | Some c \<Rightarrow> c)"

definition dict_update :: "('k, 'v) dict \<Rightarrow> ('k, 'v) dict \<Rightarrow> ('k, 'v) dict" where
  "dict_update d e = foldl (\<lambda>d (k, v). dict_set k v d) d e"

definition flush ::
  "unicode \<Rightarrow> guard_config \<Rightarrow> lref seam_entry list \<Rightarrow> (lref, string) dict \<Rightarrow> (lref, string) dict" where
  "flush u cfg segment reverts =
     (if length segment > 1
      then dict_update (dict_update reverts (check_adjacent_duplicates cfg segment))
             (check_boundary_migration u cfg segment)
      else reverts)"

fun adjacency_walk ::
  "unicode \<Rightarrow> guard_config \<Rightarrow> (lref, string) dict \<Rightarrow> lref seam_entry list \<Rightarrow> ident option \<Rightarrow>
   page_manifest list \<Rightarrow> (lref, string) dict" where
  "adjacency_walk u cfg reverts segment prev_file [] = flush u cfg segment reverts"
| "adjacency_walk u cfg reverts segment prev_file (page # pages) =
     (if Some (pg_source_file page) \<noteq> prev_file
      then adjacency_walk u cfg (flush u cfg segment reverts) (map seam_entry_of (pg_lines page))
             (Some (pg_source_file page)) pages
      else adjacency_walk u cfg reverts (segment @ map seam_entry_of (pg_lines page)) prev_file pages)"

definition global_adjacency_pass ::
  "unicode \<Rightarrow> guard_config \<Rightarrow> document_manifest \<Rightarrow> finalize_order option \<Rightarrow> run \<Rightarrow>
   exn + finalize_order option \<times> run" where
  "global_adjacency_pass u cfg d order r =
     (case entering order ''adjacency'' [] of
        Inl e \<Rightarrow> Inl e
      | Inr order' \<Rightarrow>
          Inr (order', snd (apply_unit_reverts ''adjacent_duplicate_pair_atomicity''
                 (adjacency_walk u cfg [] [] None (doc_pages (document_now r d))) r)))"

section \<open>The loss policy\<close>

record sidecar_entry =
  sc_page_id :: ident
  sc_line_id :: ident
  sc_source_text :: ptext
  sc_corrected_text :: ptext
  sc_reason :: string
  sc_alignment_score :: "rat option"
  sc_move_suspected :: bool

definition strict_reason :: "nat \<Rightarrow> int \<Rightarrow> string" where
  "strict_reason n wc =
     ''format_loss: corrected word count '' @ dec n @ '' != source Word markup '' @ dec_int wc @
     '' - unprojectable without dropping word geometry (LossPolicy strict)''"

definition strict_reverts :: "line_manifest list \<Rightarrow> (lref, string) dict" where
  "strict_reverts lines =
     foldl (\<lambda>d lm. case (word_count lm, corrected_text lm) of
          (Some wc, Some c) \<Rightarrow>
            if c = ocr_text lm then d
            else if int (length (py_split c)) \<noteq> wc
            then dict_set (line_ref lm) (strict_reason (length (py_split c)) wc) d
            else d
        | _ \<Rightarrow> d) [] lines"

text \<open>What the realignment gate found about one line: its snapshot, and the score and motive when it
  is refused.\<close>

definition realign_verdict :: "rat \<Rightarrow> ptext \<Rightarrow> ptext \<Rightarrow> (rat \<times> bool \<times> string) option" where
  "realign_verdict threshold source corrected =
     (let s = py_split source; t = py_split corrected; al = the (align_tokens char_similarity None s t)
      in if move_suspected al then
           Some (score al, True, ''token_realign: suspected word reorder - correction preserved in sidecar'')
         else if length t \<noteq> length s \<and> score al < threshold then
           Some (score al, False, ''token_realign: alignment score '' @ fixed2 (score al) @ '' < '' @
             fixed2 threshold @ '' - correction preserved in sidecar'')
         else None)"

definition corrected_lines :: "line_manifest list \<Rightarrow> (lref \<times> ptext \<times> ptext) list" where
  "corrected_lines lines =
     List.map_filter (\<lambda>lm. case corrected_text lm of
          None \<Rightarrow> None
        | Some c \<Rightarrow> if c = ocr_text lm then None else Some (line_ref lm, ocr_text lm, c)) lines"

definition realign_evidence :: "rat \<Rightarrow> line_manifest list \<Rightarrow> (lref, rat \<times> bool \<times> string) dict" where
  "realign_evidence threshold lines =
     foldl (\<lambda>d (ref, source, corrected). case realign_verdict threshold source corrected of
          None \<Rightarrow> d | Some v \<Rightarrow> dict_set ref v d) [] (corrected_lines lines)"

definition sidecar_entries ::
  "(lref, string) dict \<Rightarrow> (lref, ptext \<times> ptext) dict \<Rightarrow> (lref, rat \<times> bool) dict \<Rightarrow> sidecar_entry list" where
  "sidecar_entries reverted snapshots evidence =
     List.map_filter (\<lambda>(ref, why). case map_of snapshots ref of
          None \<Rightarrow> None
        | Some (source, corrected) \<Rightarrow>
            Some \<lparr>sc_page_id = ref_page_id ref, sc_line_id = ref_line_id ref, sc_source_text = source,
                  sc_corrected_text = corrected, sc_reason = why,
                  sc_alignment_score = map_option fst (map_of evidence ref),
                  sc_move_suspected = (case map_of evidence ref of None \<Rightarrow> False | Some (_, m) \<Rightarrow> m)\<rparr>) reverted"

definition loss_policy_pass ::
  "loss_policy \<Rightarrow> document_manifest \<Rightarrow> finalize_order option \<Rightarrow> run \<Rightarrow>
   exn + finalize_order option \<times> sidecar_entry list \<times> run" where
  "loss_policy_pass lp d order r =
     (case entering order ''loss_policy'' [''adjacency'', ''break_chars''] of
        Inl e \<Rightarrow> Inl e
      | Inr order' \<Rightarrow>
          (let lines = document_lines (document_now r d) in
           if lp_strict lp then
             Inr (order', [], snd (apply_unit_reverts ''format_loss_pair_atomicity'' (strict_reverts lines) r))
           else (case min_alignment_score lp of
                   None \<Rightarrow> Inr (order', [], r)
                 | Some threshold \<Rightarrow>
                     (let found = realign_evidence threshold lines;
                          snapshots = foldl (\<lambda>d (ref, s). dict_set ref s d) [] (corrected_lines lines);
                          (reverted, r') = apply_unit_reverts ''token_realign_pair_atomicity''
                            (map (\<lambda>(ref, _, _, why). (ref, why)) found) r
                      in Inr (order', sidecar_entries reverted snapshots
                                (map (\<lambda>(ref, s, m, _). (ref, s, m)) found), r')))))"

section \<open>Acceptance as a run pass\<close>

lemma not_fallen_pending:
  "coherent_run r \<Longrightarrow> line_at r ref = Some lm \<Longrightarrow> corrected_text lm = None \<Longrightarrow> not_fallen ref r"
proof -
  assume "coherent_run r" "line_at r ref = Some lm" "corrected_text lm = None"
  moreover from this have "settled lm" by (simp add: coherent_run_def)
  ultimately show "not_fallen ref r" by (simp add: not_fallen_def settled_def split: line_status.splits)
qed

lemma fall_back_keeps:
  assumes "coherent_run r"
  shows "coherent_run (fall_back why ref r)" "progress r (fall_back why ref r)"
  using falling.keeps [OF assms, of "(ref, why)"] falling.advances [OF assms, of "(ref, why)"] by simp_all

interpretation accepting_lines: run_pass
  "\<lambda>(cfg, ws, texts, ref). accept_line cfg ws texts ref" "\<lambda>_ _. True"
proof unfold_locales
  fix r :: run and a :: "guard_config \<times> page_workspace \<times> (ident, ptext) dict \<times> lref"
  obtain cfg ws texts ref where a: "a = (cfg, ws, texts, ref)" by (metis prod_cases4)
  assume c: "coherent_run r"
  let ?r = "accept_line cfg ws texts ref r"
  have "coherent_run ?r \<and> progress r ?r"
  proof (cases "line_at r ref")
    case (Some lm)
    show ?thesis
    proof (cases "corrected_text lm")
      case None
      note nf = not_fallen_pending [OF c Some None]
      show ?thesis
      proof (cases "map_of texts (line_id lm)")
        case t: (Some corrected)
        define res where "res = line_verdict cfg ws r lm corrected"
        define r1 where "r1 = (if accepted res then accept (accepted_text res) ref r
          else fall_back (the (py_or (reason res) (Some ''rejected''))) ref r)"
        have 1: "coherent_run r1" "progress r r1"
          using accept_keeps [OF c nf] fall_back_keeps [OF c] by (simp_all add: r1_def)
        let ?f = "\<lambda>t. t\<lparr>tr_proposal_features := features res\<rparr>"
        have 2: "coherent_run (set_trace ?f ref r1)" "progress r1 (set_trace ?f ref r1)"
          by (rule trace_write_keeps [OF 1(1)], simp)+
        have "?r = (if orphan_completed lm corrected then fall_back ''orphan_hyphen_completed'' ref r
            else if fallen_partner r ws lm then fall_back ''hyphen_partner_fell_back'' ref r
            else set_trace ?f ref r1)"
          by (simp add: accept_line_def Some None t r1_def res_def Let_def)
        with fall_back_keeps [OF c] 2 progress_trans [OF 1(2) 2(2)] show ?thesis by auto
      qed (use c Some None in \<open>simp add: accept_line_def\<close>)
    qed (use c Some in \<open>simp add: accept_line_def\<close>)
  qed (use c in \<open>simp add: accept_line_def\<close>)
  then show "coherent_run ((case a of (cfg, ws, texts, ref) \<Rightarrow> accept_line cfg ws texts ref) r)"
    "progress r ((case a of (cfg, ws, texts, ref) \<Rightarrow> accept_line cfg ws texts ref) r)"
    by (simp_all add: a)
qed

lemma acceptance_keeps:
  assumes "coherent_run r"
  shows "coherent_run (apply_line_acceptance cfg ws texts refs r)"
    "progress r (apply_line_acceptance cfg ws texts refs r)"
proof -
  have "apply_line_acceptance cfg ws texts refs r =
      foldl (\<lambda>r a. (\<lambda>(cfg, ws, texts, ref). accept_line cfg ws texts ref) a r) r
        (map (\<lambda>ref. (cfg, ws, texts, ref)) refs)"
    by (simp add: apply_line_acceptance_def foldl_map)
  with accepting_lines.fold_keeps [OF assms, of "map (\<lambda>ref. (cfg, ws, texts, ref)) refs"]
  show "coherent_run (apply_line_acceptance cfg ws texts refs r)"
    "progress r (apply_line_acceptance cfg ws texts refs r)" by auto
qed

text \<open>Acceptance decides every line it has a text for.\<close>

definition decided :: "run \<Rightarrow> lref \<Rightarrow> bool" where
  "decided r ref \<longleftrightarrow> (\<forall>lm. line_at r ref = Some lm \<longrightarrow> status lm \<noteq> PENDING)"

lemma progress_decided: "\<lbrakk>progress r r'; decided r ref\<rbrakk> \<Longrightarrow> decided r' ref"
  unfolding decided_def
proof (intro allI impI)
  fix b
  assume p: "progress r r'" and d: "\<forall>lm. line_at r ref = Some lm \<longrightarrow> status lm \<noteq> PENDING"
    and b: "line_at r' ref = Some b"
  from p b obtain a where "line_at r ref = Some a" "line_progress a b"
    unfolding progress_def by (metis option_rel_Some2)
  with d show "status b \<noteq> PENDING" by (cases "status a") (auto simp: line_progress_def)
qed

lemma accept_line_decides:
  assumes "coherent_run r" "\<And>lm. line_at r ref = Some lm \<Longrightarrow> map_of texts (line_id lm) \<noteq> None"
  shows "decided (accept_line cfg ws texts ref r) ref"
proof (cases "line_at r ref")
  case (Some lm)
  with assms obtain c where c: "map_of texts (line_id lm) = Some c" by blast
  have "settled lm" using assms(1) Some by (simp add: coherent_run_def)
  then have "corrected_text lm \<noteq> None \<Longrightarrow> status lm \<noteq> PENDING" by (auto simp: settled_def)
  with Some c show ?thesis
    by (cases "corrected_text lm")
      (simp_all add: decided_def accept_line_def Let_def line_at_accept line_at_fall_back)
qed (simp add: decided_def accept_line_def)

lemma acceptance_decides:
  assumes "coherent_run r"
    and "\<And>ref lm. ref \<in> set refs \<Longrightarrow> line_at r ref = Some lm \<Longrightarrow> map_of texts (line_id lm) \<noteq> None"
  shows "ref \<in> set refs \<Longrightarrow> decided (apply_line_acceptance cfg ws texts refs r) ref"
  using assms
proof (induction refs arbitrary: r)
  case (Cons x refs)
  let ?r = "accept_line cfg ws texts x r"
  have k: "coherent_run ?r" "progress r ?r"
    using accepting_lines.keeps [OF Cons.prems(2), of "(cfg, ws, texts, x)"]
      accepting_lines.advances [OF Cons.prems(2), of "(cfg, ws, texts, x)"] by simp_all
  have eq: "apply_line_acceptance cfg ws texts (x # refs) r = apply_line_acceptance cfg ws texts refs ?r"
    by (simp add: apply_line_acceptance_def)
  show ?case
  proof (cases "ref = x")
    case True
    have "decided ?r x" by (rule accept_line_decides [OF Cons.prems(2) Cons.prems(3)]) simp_all
    then show ?thesis unfolding eq True by (rule progress_decided [OF acceptance_keeps(2) [OF k(1)]])
  next
    case False
    have "map_of texts (line_id lm) \<noteq> None" if y: "y \<in> set refs" "line_at ?r y = Some lm" for y lm
    proof -
      from k(2) y(2) obtain a where a: "line_at r y = Some a" "line_progress a lm"
        unfolding progress_def by (metis option_rel_Some2)
      have "line_id lm = line_id a" using a(2) fixed_part_fields(2) [of lm a] by (simp add: line_progress_def)
      moreover have "map_of texts (line_id a) \<noteq> None" by (rule Cons.prems(3) [OF _ a(1)]) (simp add: y(1))
      ultimately show ?thesis by simp
    qed
    then show ?thesis unfolding eq by (intro Cons.IH k(1)) (use False Cons.prems(1) in auto)
  qed
qed simp

section \<open>What a revert takes\<close>

lemma pull_unit_lookup:
  "map_of (pull_unit why idx d ref) k =
     (case map_of d k of Some v \<Rightarrow> Some v
      | None \<Rightarrow> (case map_of idx ref of None \<Rightarrow> None
          | Some g \<Rightarrow> if k \<in> set (hg_members g) then Some why else None))"
proof -
  have "map_of (foldl (\<lambda>d m. set_default m why d) d ms) k =
      (case map_of d k of Some v \<Rightarrow> Some v | None \<Rightarrow> if k \<in> set ms then Some why else None)" for d ms
    by (induction ms arbitrary: d) (auto simp: set_default_def split: option.splits)
  then show ?thesis by (simp add: pull_unit_def split: option.splits)
qed

lemma pull_units_lookup:
  "map_of (foldl (pull_unit why idx) d refs) k =
     (case map_of d k of Some v \<Rightarrow> Some v
      | None \<Rightarrow> if \<exists>ref \<in> set refs. \<exists>g. map_of idx ref = Some g \<and> k \<in> set (hg_members g)
               then Some why else None)"
proof (induction refs arbitrary: d)
  case (Cons ref refs)
  show ?case
    unfolding foldl.simps Cons.IH pull_unit_lookup
    by (cases "map_of d k"; cases "map_of idx ref") auto
qed (simp split: option.splits)

lemma fall_back_dict:
  "line_at (foldl (\<lambda>r (ref, reason). fall_back reason ref r) r d) x =
     (if x \<in> fst ` set d
      then map_option (\<lambda>lm. lm\<lparr>corrected_text := Some (ocr_text lm), status := FALLBACK\<rparr>) (line_at r x)
      else line_at r x)"
proof (induction d arbitrary: r)
  case (Cons e d)
  obtain ref why where e: "e = (ref, why)" by fastforce
  from Cons [of "fall_back why ref r"] show ?case
    by (cases "line_at r x") (auto simp: e line_at_fall_back)
qed simp

lemma store_refs:
  assumes "coherent_run r" "distinct (map fst (rn_lines r))"
  shows "map line_ref (map snd (rn_lines r)) = map fst (rn_lines r)"
proof -
  have "line_ref (snd e) = fst e" if "e \<in> set (rn_lines r)" for e
  proof -
    have "line_at r (fst e) = Some (snd e)"
      unfolding line_at_def by (rule map_of_is_SomeI) (use that assms(2) in auto)
    with assms(1) show ?thesis by (simp add: coherent_run_def)
  qed
  then show ?thesis by simp
qed

lemma same_unit_in:
  assumes "same_unit lines x y" "x \<noteq> y"
  shows "x \<in> line_ref ` set lines \<and> y \<in> line_ref ` set lines"
proof -
  let ?R = "unit_links lines \<union> (unit_links lines)\<inverse>"
  have sub: "?R \<subseteq> (line_ref ` set lines) \<times> (line_ref ` set lines)" by (auto simp: unit_links_def)
  have "(x, y) \<in> ?R\<^sup>*" using assms(1) by (simp add: same_unit_def)
  with assms(2) have "(x, y) \<in> ?R\<^sup>+" by (simp add: rtrancl_eq_or_trancl)
  with trancl_subset_Sigma [OF sub] show ?thesis by blast
qed

definition pulled :: "run \<Rightarrow> (lref, string) dict \<Rightarrow> lref \<Rightarrow> bool" where
  "pulled r reverts x \<longleftrightarrow> (\<exists>y \<in> fst ` set reverts. same_unit (map snd (rn_lines r)) y x)"

lemma apply_unit_reverts_exact:
  assumes "coherent_run r" "distinct (map fst (rn_lines r))"
  shows "line_at (snd (apply_unit_reverts why reverts r)) x =
    (if pulled r reverts x
     then map_option (\<lambda>lm. lm\<lparr>corrected_text := Some (ocr_text lm), status := FALLBACK\<rparr>) (line_at r x)
     else line_at r x)"
proof (cases "reverts = []")
  case False
  let ?ls = "map snd (rn_lines r)"
  let ?idx = "hyphen_group_by_line (derive_hyphen_groups ?ls)"
  let ?all = "foldl (pull_unit why ?idx) reverts (map fst reverts)"
  have d: "distinct (map line_ref ?ls)" unfolding store_refs [OF assms] by (rule assms(2))
  have g: "(\<exists>g. map_of ?idx ref = Some g \<and> x \<in> set (hg_members g)) \<longleftrightarrow>
      (\<exists>g \<in> set (derive_hyphen_groups ?ls). ref \<in> set (hg_members g) \<and> x \<in> set (hg_members g))" for ref x
    using group_index_lookup [OF groups_disjoint_aux] by blast
  have keys: "x \<in> fst ` set ?all \<longleftrightarrow>
      x \<in> fst ` set reverts \<or>
      (\<exists>ref \<in> fst ` set reverts. \<exists>g \<in> set (derive_hyphen_groups ?ls). ref \<in> set (hg_members g) \<and> x \<in> set (hg_members g))"
  proof -
    have "x \<in> fst ` set ?all \<longleftrightarrow> map_of ?all x \<noteq> None" by (simp add: map_of_eq_None_iff)
    also have "\<dots> \<longleftrightarrow> map_of reverts x \<noteq> None \<or> (\<exists>ref \<in> set (map fst reverts). \<exists>g. map_of ?idx ref = Some g \<and> x \<in> set (hg_members g))"
      unfolding pull_units_lookup by (auto split: option.split)
    finally show ?thesis unfolding g by (simp add: map_of_eq_None_iff)
  qed
  have "x \<in> fst ` set ?all \<longleftrightarrow> pulled r reverts x"
  proof
    assume "x \<in> fst ` set ?all"
    then consider (own) "x \<in> fst ` set reverts"
      | (group) ref g where "ref \<in> fst ` set reverts" "g \<in> set (derive_hyphen_groups ?ls)"
          "ref \<in> set (hg_members g)" "x \<in> set (hg_members g)" unfolding keys by blast
    then show "pulled r reverts x"
    proof cases
      case own
      then show ?thesis unfolding pulled_def using same_unit_refl by blast
    next
      case group
      have "same_unit ?ls ref x"
      proof (cases "ref = x")
        case False
        from group_member_line [OF d group(2)] group(3,4)
        have "ref \<in> line_ref ` set ?ls" "x \<in> line_ref ` set ?ls" by blast+
        from group_iff_same_unit [OF d this False] group(2-4) show ?thesis by blast
      qed simp
      with group(1) show ?thesis unfolding pulled_def by blast
    qed
  next
    assume "pulled r reverts x"
    then obtain y where y: "y \<in> fst ` set reverts" "same_unit ?ls y x" by (auto simp: pulled_def)
    show "x \<in> fst ` set ?all"
    proof (cases "x = y")
      case True
      with y(1) have "x \<in> fst ` set reverts" by simp
      then show ?thesis unfolding keys by blast
    next
      case False
      with same_unit_in [OF y(2)] group_iff_same_unit [OF d, of y x] y show ?thesis
        unfolding keys by blast
    qed
  qed
  then show ?thesis using False by (simp add: apply_unit_reverts_def Let_def fall_back_dict)
qed (simp add: apply_unit_reverts_def pulled_def)

lemma apply_unit_reverts_keeps:
  assumes "coherent_run r"
  shows "coherent_run (snd (apply_unit_reverts why reverts r))"
    "progress r (snd (apply_unit_reverts why reverts r))"
proof -
  have "coherent_run (foldl (\<lambda>r (ref, reason). fall_back reason ref r) r d) \<and>
      progress r (foldl (\<lambda>r (ref, reason). fall_back reason ref r) r d)" for d
    using falling.fold_keeps [OF assms, of d] by (simp add: split_def)
  then show "coherent_run (snd (apply_unit_reverts why reverts r))"
    "progress r (snd (apply_unit_reverts why reverts r))"
    using assms by (auto simp: apply_unit_reverts_def Let_def)
qed

section \<open>The store and its links\<close>

text \<open>No pass of a run adds or drops a line, and falling back or respelling moves no link: the
  hyphen units of the document stay what they are.\<close>

definition store_links :: "run \<Rightarrow> (lref \<times> lref \<times> lref option \<times> lref option) list" where
  "store_links r = map (\<lambda>(k, lm). (k, line_ref lm, pair_ref lm, forward_ref lm)) (rn_lines r)"

lemma map_dict_set_same:
  assumes "map_of d k = Some v" "g (k, w) = g (k, v)"
  shows "map g (dict_set k w d) = map g d"
  using assms by (induction d) (auto simp: dict_set_def)

lemma store_links_update:
  assumes "\<And>lm. line_ref (f lm) = line_ref lm \<and> pair_ref (f lm) = pair_ref lm \<and> forward_ref (f lm) = forward_ref lm"
  shows "store_links (update_line f ref r) = store_links r"
proof (cases "line_at r ref")
  case (Some lm)
  then show ?thesis
    unfolding store_links_def update_line_def
    by (simp add: line_at_def map_dict_set_same [where g = "\<lambda>(k, lm). (k, line_ref lm, pair_ref lm, forward_ref lm)"] assms)
qed (simp add: update_line_def)

lemma store_links_set_trace [simp]: "store_links (set_trace f ref r) = store_links r"
  by (simp add: store_links_def set_trace_def split: option.split)

lemma store_links_fall_back [simp]: "store_links (fall_back why ref r) = store_links r"
proof -
  have "store_links (update_line (\<lambda>lm. lm\<lparr>corrected_text := Some (ocr_text lm), status := FALLBACK\<rparr>) ref r) =
      store_links r"
    by (rule store_links_update) (simp add: line_ref_def pair_ref_def forward_ref_def)
  then show ?thesis by (simp add: fall_back_def split: option.split)
qed

lemma store_links_renormalise [simp]: "store_links (renormalise new ref r) = store_links r"
  unfolding renormalise_def by (rule store_links_update) (simp add: line_ref_def pair_ref_def forward_ref_def)

lemma store_links_reverts [simp]: "store_links (snd (apply_unit_reverts why reverts r)) = store_links r"
proof -
  have "store_links (foldl (\<lambda>r (ref, reason). fall_back reason ref r) r d) = store_links r" for d
    by (induction d arbitrary: r) auto
  then show ?thesis by (simp add: apply_unit_reverts_def Let_def)
qed

lemma store_links_keys:
  assumes "store_links r' = store_links r"
  shows "map fst (rn_lines r') = map fst (rn_lines r)"
proof -
  have "map fst (rn_lines r) = map fst (store_links r)" for r by (simp add: store_links_def case_prod_beta)
  with assms show ?thesis by metis
qed

lemma same_unit_links:
  assumes "store_links r' = store_links r"
  shows "same_unit (map snd (rn_lines r')) = same_unit (map snd (rn_lines r))"
proof -
  define E where "E = (\<lambda>links :: (lref \<times> lref \<times> lref option \<times> lref option) list.
    {(a, q) | a q k p f. (k, a, p, f) \<in> set links \<and> (p = Some q \<or> f = Some q) \<and> q \<in> (fst \<circ> snd) ` set links})"
  have "unit_links (map snd (rn_lines r)) = E (store_links r)" for r
    unfolding E_def unit_links_def store_links_def in_partners
    by (force simp: image_image case_prod_beta)
  with assms show ?thesis by (simp add: same_unit_def [abs_def])
qed

definition fallen :: "run \<Rightarrow> lref \<Rightarrow> bool" where
  "fallen r x \<longleftrightarrow> (case line_at r x of None \<Rightarrow> False | Some lm \<Rightarrow> status lm = FALLBACK)"

text \<open>No unit is half at its source and half corrected.\<close>

definition units_whole :: "run \<Rightarrow> bool" where
  "units_whole r \<longleftrightarrow>
     (\<forall>x y. same_unit (map snd (rn_lines r)) x y \<longrightarrow> line_at r y \<noteq> None \<longrightarrow> fallen r x \<longrightarrow> fallen r y)"

lemma reverts_keep_units_whole:
  assumes "coherent_run r" "distinct (map fst (rn_lines r))" "units_whole r"
  shows "units_whole (snd (apply_unit_reverts why reverts r))"
  unfolding units_whole_def same_unit_links [OF store_links_reverts]
proof (intro allI impI)
  let ?r = "snd (apply_unit_reverts why reverts r)"
  note at = apply_unit_reverts_exact [OF assms(1,2), of why reverts]
  fix x y
  assume xy: "same_unit (map snd (rn_lines r)) x y" "line_at ?r y \<noteq> None" "fallen ?r x"
  from xy(2) have y: "line_at r y \<noteq> None" by (auto simp: at split: if_splits)
  have "pulled r reverts x \<Longrightarrow> pulled r reverts y" using xy(1) same_unit_trans unfolding pulled_def by blast
  moreover have "\<not> pulled r reverts x \<Longrightarrow> fallen r x" using xy(3) by (simp add: fallen_def at)
  moreover have "fallen r x \<Longrightarrow> fallen r y" using assms(3) xy(1) y by (auto simp: units_whole_def)
  ultimately have "pulled r reverts y \<or> fallen r y" by blast
  then show "fallen ?r y" using y by (auto simp: fallen_def at)
qed

section \<open>Properties\<close>

text \<open>C26: reverting flagged lines takes exactly the flagged lines and every line of their hyphen
  units, on whatever page: each of them is at its source text with status \<open>FALLBACK\<close>, and every
  other line is untouched.\<close>

theorem unit_reverts_exact:
  assumes "coherent_run r" "distinct (map fst (rn_lines r))"
  shows "line_at (snd (apply_unit_reverts why reverts r)) x =
    (if \<exists>y \<in> fst ` set reverts. same_unit (map snd (rn_lines r)) y x
     then map_option (\<lambda>lm. lm\<lparr>corrected_text := Some (ocr_text lm), status := FALLBACK\<rparr>) (line_at r x)
     else line_at r x)"
  using apply_unit_reverts_exact [OF assms] unfolding pulled_def .

text \<open>Two lines of a pair, both corrected, one of them flagged.\<close>

definition demo_pair :: run where
  "demo_pair =
     (let a = (plain_line ''P'' ''a'' 0 (tx ''x-''))\<lparr>hyphen_role := PART1, hyphen_pair_line_id := Some ''b'',
            corrected_text := Some (tx ''y-''), status := CORRECTED\<rparr>;
          b = (plain_line ''P'' ''b'' 1 (tx ''z''))\<lparr>hyphen_role := PART2, hyphen_pair_line_id := Some ''a'',
            corrected_text := Some (tx ''w''), status := CORRECTED\<rparr>
      in \<lparr>rn_lines = [(LineRef ''P'' ''a'', a), (LineRef ''P'' ''b'', b)], rn_traces = None,
          rn_ctx = new_context\<rparr>)"

lemma demo_pair_coherent: "coherent_run demo_pair" "distinct (map fst (rn_lines demo_pair))"
proof -
  show "coherent_run demo_pair"
    unfolding coherent_run_def
    by (simp add: demo_pair_def Let_def line_at_def trace_at_def plain_line_def line_ref_def settled_def)
  show "distinct (map fst (rn_lines demo_pair))" by (simp add: demo_pair_def Let_def)
qed

lemma demo_pair_unit: "same_unit (map snd (rn_lines demo_pair)) (LineRef ''P'' ''b'') (LineRef ''P'' ''a'')"
proof -
  have "\<exists>l \<in> set (map snd (rn_lines demo_pair)). line_ref l = LineRef ''P'' ''b'' \<and>
      LineRef ''P'' ''a'' \<in> set (partners l)"
    unfolding in_partners
    by (simp add: demo_pair_def Let_def plain_line_def line_ref_def pair_ref_def forward_ref_def py_or_def)
  moreover have "LineRef ''P'' ''a'' \<in> line_ref ` set (map snd (rn_lines demo_pair))"
    by (simp add: demo_pair_def Let_def plain_line_def line_ref_def)
  ultimately have "(LineRef ''P'' ''b'', LineRef ''P'' ''a'') \<in> unit_links (map snd (rn_lines demo_pair))"
    unfolding unit_links_def by force
  then show ?thesis by (auto simp: same_unit_def)
qed

lemma unit_reverts_exact_witness:
  "line_at (snd (apply_unit_reverts ''why'' [(LineRef ''P'' ''b'', ''dup'')] demo_pair)) (LineRef ''P'' ''a'') =
     map_option (\<lambda>lm. lm\<lparr>corrected_text := Some (ocr_text lm), status := FALLBACK\<rparr>)
       (line_at demo_pair (LineRef ''P'' ''a''))"
  using unit_reverts_exact [OF demo_pair_coherent, of "''why''" "[(LineRef ''P'' ''b'', ''dup'')]" "LineRef ''P'' ''a''"]
    demo_pair_unit by simp

text \<open>Acceptance decides every line it has a text for, keeps the run coherent and undoes no
  decision.\<close>

theorem acceptance_decides_its_lines:
  assumes "coherent_run r"
    and "list_all (\<lambda>ref. case line_at r ref of None \<Rightarrow> True
           | Some lm \<Rightarrow> map_of texts (line_id lm) \<noteq> None) refs"
  shows "coherent_run (apply_line_acceptance cfg ws texts refs r) \<and>
    progress r (apply_line_acceptance cfg ws texts refs r) \<and>
    list_all (decided (apply_line_acceptance cfg ws texts refs r)) refs"
proof -
  have "map_of texts (line_id lm) \<noteq> None" if "ref \<in> set refs" "line_at r ref = Some lm" for ref lm
    using assms(2) that by (fastforce simp: list_all_iff)
  with acceptance_keeps [OF assms(1)] acceptance_decides [OF assms(1)] show ?thesis
    by (simp add: list_all_iff)
qed

lemma acceptance_decides_its_lines_witness:
  "list_all (decided (apply_line_acceptance DEFAULT_GUARD_CONFIG
      \<lparr>ws_page = ''P'', ws_lines = [(''a'', LineRef ''P'' ''a'')], ws_partners = None\<rparr>
      [(''a'', tx ''mot'')] [LineRef ''P'' ''a'']
      \<lparr>rn_lines = [(LineRef ''P'' ''a'', plain_line ''P'' ''a'' 0 (tx ''mat''))], rn_traces = None,
       rn_ctx = new_context\<rparr>)) [LineRef ''P'' ''a'']"
proof -
  let ?r = "\<lparr>rn_lines = [(LineRef ''P'' ''a'', plain_line ''P'' ''a'' 0 (tx ''mat''))], rn_traces = None,
    rn_ctx = new_context\<rparr>"
  have c: "coherent_run ?r"
    unfolding coherent_run_def
    by (simp add: line_at_def trace_at_def plain_line_def line_ref_def settled_def)
  show ?thesis
    using acceptance_decides_its_lines [OF c, of "[(''a'', tx ''mot'')]" "[LineRef ''P'' ''a'']"]
    by (simp add: line_at_def plain_line_def)
qed

end
