(* ===== verification/Producers.thy ===== *)
theory Producers
  imports Acceptance
begin

text \<open>
  \<open>core/protocols.py\<close> and \<open>core/schemas/producer.py\<close>: what a producer is asked and what it
  declares, and the two gates a run passes before it starts. A producer's \<open>produce\<close> is code outside
  the library: a function of the number of the call, the request, the attempt and the temperature,
  so it may answer the same request differently each time, or raise.
\<close>

section \<open>Requests\<close>

datatype page_image = ImageRef ident | ImageAsset (asset_page_id: ident) (asset_uri: ident)

record correction_request =
  cr_granularity :: chunk_granularity
  cr_document_id :: ident
  cr_page_id :: ident
  cr_block_id :: "ident option"
  cr_lines :: "line_context list"
  cr_image_ref :: "page_image option"

section \<open>Capabilities\<close>

record model_capabilities =
  cap_text :: bool
  cap_vision :: bool
  cap_structured_output :: bool
  cap_max_images :: "int option"

definition reason_cannot_serve :: "model_capabilities \<Rightarrow> bool \<Rightarrow> bool \<Rightarrow> int \<Rightarrow> string option" where
  "reason_cannot_serve caps needs_image needs_structured_output image_count =
     (if needs_image \<and> \<not> cap_vision caps then Some ''model has no vision capability''
      else if needs_structured_output \<and> \<not> cap_structured_output caps
      then Some ''model does not support structured output''
      else (case cap_max_images caps of
              None \<Rightarrow> None
            | Some cap \<Rightarrow>
                if image_count > cap
                then Some (''needs '' @ dec_int image_count @ '' images but model caps at '' @ dec_int cap)
                else None))"

definition can_serve :: "model_capabilities \<Rightarrow> bool \<Rightarrow> bool \<Rightarrow> int \<Rightarrow> bool" where
  "can_serve caps needs_image needs_structured_output image_count \<longleftrightarrow>
     reason_cannot_serve caps needs_image needs_structured_output image_count = None"

section \<open>Producers\<close>

record edit_producer =
  wants_geometry :: bool
  wants_image :: bool
  requires_full_coverage :: bool
  capabilities :: "model_capabilities option"
  produce :: "int \<Rightarrow> correction_request \<Rightarrow> int \<Rightarrow> rat \<Rightarrow> exn + edit_script \<times> usage option"

definition image_cap :: "edit_producer \<Rightarrow> int option" where
  "image_cap p =
     (if \<not> wants_image p then None
      else (case capabilities p of None \<Rightarrow> None | Some caps \<Rightarrow> cap_max_images caps))"

text \<open>A value filed under its own page: a bare reference names none.\<close>

fun filed_under :: "ident \<Rightarrow> page_image \<Rightarrow> bool" where
  "filed_under key (ImageRef uri) = True"
| "filed_under key (ImageAsset page uri) = (page = key)"

definition require_page_images ::
  "edit_producer \<Rightarrow> page_manifest list \<Rightarrow> (ident, page_image) dict option \<Rightarrow> exn + unit" where
  "require_page_images p pages images =
     (if \<not> wants_image p then Inr ()
      else if \<not> truthy images then Inl (Exn C_ConfigurationError ''producer requires page images'')
      else if filter (\<lambda>(k, v). \<not> filed_under k v) (the images) \<noteq> []
      then Inl (Exn C_ConfigurationError ''page_images ImageAsset values must be filed under their own page_id'')
      else if filter (\<lambda>page. pg_id page \<notin> fst ` set (the images)) pages \<noteq> []
      then Inl (Exn C_ConfigurationError ''page_images is missing entries'')
      else Inr ())"

definition require_capabilities :: "edit_producer \<Rightarrow> exn + unit" where
  "require_capabilities p =
     (case capabilities p of
        None \<Rightarrow> Inr ()
      | Some caps \<Rightarrow>
          if wants_image p \<and> \<not> cap_vision caps
          then Inl (Exn C_ConfigurationError ''producer wants page images but declares vision=False'')
          else Inr ())"

section \<open>Facts\<close>

lemma can_serve_iff:
  "can_serve caps img str n \<longleftrightarrow>
     (img \<longrightarrow> cap_vision caps) \<and> (str \<longrightarrow> cap_structured_output caps) \<and>
     (case cap_max_images caps of None \<Rightarrow> True | Some cap \<Rightarrow> n \<le> cap)"
  by (auto simp: can_serve_def reason_cannot_serve_def split: option.splits)

text \<open>After the gate every page of a vision run has an image, and a structured one its own.\<close>

lemma page_images_cover:
  assumes "require_page_images p pages images = Inr ()" "wants_image p" "page \<in> set pages"
  shows "\<exists>v. map_of (the images) (pg_id page) = Some v \<and> filed_under (pg_id page) v"
proof -
  have f: "\<forall>(k, v) \<in> set (the images). filed_under k v" "pg_id page \<in> fst ` set (the images)"
    using assms by (auto simp: require_page_images_def filter_empty_conv split: if_splits)
  then obtain v where "map_of (the images) (pg_id page) = Some v"
    by (metis map_of_eq_None_iff not_None_eq)
  with f(1) map_of_SomeD show ?thesis by fast
qed

end
