(* ===== verification/Planner.thy ===== *)
theory Planner
  imports Units
begin

text \<open>
  \<open>core/planner.py\<close>: a page's lines cut into chunks at one of four granularities. Chunk ids
  are random in the source; here the \<open>k\<close>-th chunk of a plan takes the \<open>k\<close>-th id of a supply.
  \<open>_plan_line\<close> severs links while it walks, so it returns the page's lines as it leaves them.

  The loops: \<open>grow_window\<close>, \<open>extend_window\<close> and \<open>window_bounds\<close> are the three \<open>while\<close>s of
  \<open>_try_window\<close>, \<open>follow_chain\<close> and \<open>plan_line_from\<close> the two of \<open>_plan_line\<close>; each
  ends because its position moves towards the end of the page.

  Facts: every plan targets every line of the page exactly once; no window or chain is empty;
  the granularity ladder only goes down.
\<close>

section \<open>Granularities\<close>

fun granularity_rank :: "chunk_granularity \<Rightarrow> nat" where
  "granularity_rank PAGE = 0"
| "granularity_rank BLOCK = 1"
| "granularity_rank WINDOW = 2"
| "granularity_rank LINE = 3"

instantiation chunk_granularity :: linorder
begin

definition less_eq_chunk_granularity :: "chunk_granularity \<Rightarrow> chunk_granularity \<Rightarrow> bool" where
  "less_eq_chunk_granularity a b \<longleftrightarrow> granularity_rank a \<le> granularity_rank b"

definition less_chunk_granularity :: "chunk_granularity \<Rightarrow> chunk_granularity \<Rightarrow> bool" where
  "less_chunk_granularity a b \<longleftrightarrow> granularity_rank a < granularity_rank b"

instance
proof
  fix x y :: chunk_granularity
  show "x = y" if "x \<le> y" "y \<le> x"
    using that by (cases x; cases y) (simp_all add: less_eq_chunk_granularity_def)
qed (auto simp: less_eq_chunk_granularity_def less_chunk_granularity_def)

end

definition GRANULARITY_CHAIN :: "chunk_granularity list" where
  "GRANULARITY_CHAIN = [PAGE, BLOCK, WINDOW, LINE]"

definition downgrade_granularity :: "chunk_granularity \<Rightarrow> chunk_granularity option" where
  "downgrade_granularity current =
     (let idx = length (takeWhile (\<lambda>g. g \<noteq> current) GRANULARITY_CHAIN) in
      if idx + 1 < length GRANULARITY_CHAIN then Some (GRANULARITY_CHAIN ! (idx + 1)) else None)"

section \<open>Helpers\<close>

definition total_chars :: "line_manifest list \<Rightarrow> int" where
  "total_chars lines = sum_list (map (\<lambda>lm. int (length (ocr_text lm))) lines)"

definition index_by_id :: "line_manifest list \<Rightarrow> (ident, nat) dict" where
  "index_by_id lines = foldl (\<lambda>d (i, lm). dict_set (line_id lm) i d) [] (enumerate 0 lines)"

definition unit_reach :: "line_manifest list \<Rightarrow> (ident, nat) dict \<Rightarrow> nat \<Rightarrow> nat \<Rightarrow> nat" where
  "unit_reach lines idx start end_pos =
     foldl (\<lambda>reach position.
         (case forward_partner_id (lines ! position) of
            None \<Rightarrow> reach
          | Some pid \<Rightarrow>
              if pid = [] then reach
              else (case map_of idx pid of
                 None \<Rightarrow> reach
               | Some partner_at \<Rightarrow>
                   if partner_at < end_pos then reach else max reach (partner_at + 1))))
       end_pos [start ..< end_pos]"

definition make_chunk ::
  "ident \<Rightarrow> ident \<Rightarrow> ident \<Rightarrow> chunk_granularity \<Rightarrow> ident list \<Rightarrow> ident option \<Rightarrow>
   ident list option \<Rightarrow> chunk_request" where
  "make_chunk cid document page g ids block target_ids =
     \<lparr>chunk_id = cid, ch_document_id = document, ch_page_id = page, ch_block_id = block,
      granularity = g, line_ids = ids, target_line_ids = target_ids\<rparr>"

section \<open>PAGE and BLOCK\<close>

definition within_budget :: "chunk_planner_config \<Rightarrow> line_manifest list \<Rightarrow> bool" where
  "within_budget cfg lines \<longleftrightarrow>
     total_chars lines \<le> max_input_chars_per_request cfg \<and>
     int (length lines) \<le> max_lines_per_request cfg"

definition try_page ::
  "(nat \<Rightarrow> ident) \<Rightarrow> page_manifest \<Rightarrow> ident \<Rightarrow> chunk_planner_config \<Rightarrow> chunk_plan option" where
  "try_page new_id page document cfg =
     (if within_budget cfg (pg_lines page)
      then Some \<lparr>plan_page_id = pg_id page,
             chunks = [make_chunk (new_id 0) document (pg_id page) PAGE
                         (map line_id (pg_lines page)) None None],
             plan_granularity = PAGE, hyphen_splits = []\<rparr>
      else None)"

definition line_by_id :: "line_manifest list \<Rightarrow> (ident, line_manifest) dict" where
  "line_by_id lines = dict_of line_id lines"

text \<open>A later block of the same id replaces the earlier one's lines, as the dictionary does.\<close>

definition block_lines :: "page_manifest \<Rightarrow> (ident, line_manifest list) dict" where
  "block_lines page =
     foldl (\<lambda>d b. dict_set (blk_id b)
              (List.map_filter (map_of (line_by_id (pg_lines page))) (blk_line_ids b)) d)
       [] (pg_blocks page)"

definition union_group ::
  "(ident, line_manifest) dict \<Rightarrow> (ident, ident) dict \<Rightarrow> hyphen_group \<Rightarrow> (ident, ident) dict" where
  "union_group by_id parent g =
     (let member_blocks = List.map_filter
            (\<lambda>r. map_option block_id (map_of by_id (ref_line_id r))) (hg_members g);
          linked = filter (\<lambda>b. b \<in> fst ` set parent) member_blocks
      in foldl (\<lambda>p (a, b). planner_union a b p) parent (zip linked (tl linked)))"

text \<open>The two loops that collect the groups: the roots in page order, then the blocks of each.\<close>

definition block_groups :: "ident list \<Rightarrow> (ident, ident) dict \<Rightarrow> ident list list" where
  "block_groups bids parent =
     (let (p1, roots) = foldl (\<lambda>(p, d) b. let (r, p') = uf_find p b in (p', dict_set r () d))
            (parent, []) bids;
          (p2, groups) = foldl (\<lambda>(p, d) b. let (r, p') = uf_find p b in (p', dict_append r b d))
            (p1, []) bids
      in map (\<lambda>(r, _). case map_of groups r of None \<Rightarrow> [] | Some bs \<Rightarrow> bs) roots)"

definition group_lines :: "(ident, line_manifest list) dict \<Rightarrow> ident list \<Rightarrow> line_manifest list" where
  "group_lines bl bids = concat (map (\<lambda>b. case map_of bl b of None \<Rightarrow> [] | Some ls \<Rightarrow> ls) bids)"

definition try_block ::
  "(nat \<Rightarrow> ident) \<Rightarrow> page_manifest \<Rightarrow> ident \<Rightarrow> chunk_planner_config \<Rightarrow> chunk_plan option" where
  "try_block new_id page document cfg =
     (let by_id = line_by_id (pg_lines page);
          bids = map blk_id (pg_blocks page);
          parent = foldl (union_group by_id) (map (\<lambda>b. (b, b)) (remdups bids))
                     (derive_hyphen_groups (pg_lines page));
          groups = block_groups bids parent;
          bl = block_lines page
      in
      if \<not> list_all (\<lambda>g. within_budget cfg (group_lines bl g)) groups then None
      else if groups = [] then None
      else Some \<lparr>plan_page_id = pg_id page,
             chunks = map (\<lambda>(k, g). make_chunk (new_id k) document (pg_id page) BLOCK
                        (map line_id (group_lines bl g))
                        (if length g = 1 then Some (hd g) else None) None) (enumerate 0 groups),
             plan_granularity = BLOCK, hyphen_splits = []\<rparr>)"

section \<open>WINDOW\<close>

function grow_window ::
  "chunk_planner_config \<Rightarrow> line_manifest list \<Rightarrow> nat \<Rightarrow> nat \<Rightarrow> int \<Rightarrow> nat" where
  "grow_window cfg lines start end_pos chars =
     (if int end_pos < min (int start + line_window_size cfg) (int (length lines)) then
        (let c = int (length (ocr_text (lines ! end_pos))) in
         if chars + c > max_input_chars_per_request cfg then end_pos
         else grow_window cfg lines start (Suc end_pos) (chars + c))
      else end_pos)"
  by pat_completeness auto
termination by (relation "measure (\<lambda>(cfg, lines, start, end_pos, chars). length lines - end_pos)") auto

declare grow_window.simps [simp del]

function extend_window ::
  "line_manifest list \<Rightarrow> (ident, nat) dict \<Rightarrow> nat \<Rightarrow> nat \<Rightarrow> nat \<Rightarrow> nat" where
  "extend_window lines idx start max_end end_pos =
     (if end_pos < max_end then
        (let reach = unit_reach lines idx start end_pos in
         if reach \<le> end_pos then end_pos
         else extend_window lines idx start max_end (min reach max_end))
      else end_pos)"
  by pat_completeness auto
termination by (relation "measure (\<lambda>(lines, idx, start, max_end, end_pos). max_end - end_pos)") auto

declare extend_window.simps [simp del]

text \<open>One turn of the outer loop: the end of the window that starts here, and the next start.\<close>

definition window_at ::
  "chunk_planner_config \<Rightarrow> line_manifest list \<Rightarrow> (ident, nat) dict \<Rightarrow> nat \<Rightarrow> nat \<times> nat" where
  "window_at cfg lines idx start =
     (let n = length lines;
          core_end = grow_window cfg lines start (start + 1) (int (length (ocr_text (lines ! start))));
          extension_limit = max (max_lines_per_request cfg) (int (core_end - start) + 10);
          max_end = nat (min (int n) (int start + extension_limit));
          end_pos = extend_window lines idx start max_end core_end;
          budget_bound = (int core_end < min (int start + line_window_size cfg) (int n));
          next0 = (if budget_bound
                   then max (int start + 1) (int core_end - line_window_overlap cfg)
                   else int start + (line_window_size cfg - line_window_overlap cfg));
          next_start = (if next0 \<le> int start then start + 1 else nat next0)
      in (end_pos, next_start))"

lemma window_at_progress: "start < snd (window_at cfg lines idx start)"
proof -
  have "start < (if n0 \<le> int start then start + 1 else nat n0)" for n0 by auto
  then show ?thesis unfolding window_at_def Let_def snd_conv .
qed

function window_bounds ::
  "chunk_planner_config \<Rightarrow> line_manifest list \<Rightarrow> (ident, nat) dict \<Rightarrow> nat \<Rightarrow> (nat \<times> nat) list" where
  "window_bounds cfg lines idx start =
     (if start < length lines
      then (start, fst (window_at cfg lines idx start))
             # window_bounds cfg lines idx (snd (window_at cfg lines idx start))
      else [])"
  by pat_completeness auto
termination
proof (relation "measure (\<lambda>(cfg, lines, idx, start). length lines - start)")
  fix cfg and lines :: "line_manifest list" and idx and start :: nat
  assume "start < length lines"
  with window_at_progress [of start cfg lines idx]
  show "((cfg, lines, idx, snd (window_at cfg lines idx start)), (cfg, lines, idx, start))
      \<in> measure (\<lambda>(cfg, lines, idx, start). length lines - start)" by simp
qed simp

declare window_bounds.simps [simp del]

definition window_membership :: "ident list list \<Rightarrow> (ident, nat list) dict" where
  "window_membership windows =
     foldl (\<lambda>d (i, lid). dict_append lid i d) []
       (concat (map (\<lambda>(i, w). map (Pair i) w) (enumerate 0 windows)))"

text \<open>One component of two members or more moves to the last window that holds it whole.\<close>

definition pin_component ::
  "(ident, nat list) dict \<Rightarrow> (ident, nat) dict \<Rightarrow> ident list \<Rightarrow> (ident, nat) dict" where
  "pin_component membership target_win members =
     (if length members < 2 then target_win
      else
        (let windows_of = (\<lambda>m. case map_of membership m of None \<Rightarrow> [] | Some ws \<Rightarrow> ws);
             common = filter (\<lambda>w. list_all (\<lambda>m. w \<in> set (windows_of m)) (tl members))
                        (windows_of (hd members))
         in if common \<noteq> []
            then foldl (\<lambda>d m. dict_set m (foldr max common 0) d) target_win members
            else target_win))"

definition assign_window_targets ::
  "ident list list \<Rightarrow> (ident, line_manifest) dict \<Rightarrow> ident list list" where
  "assign_window_targets windows by_id =
     (let membership = window_membership windows;
          target_win0 = map (\<lambda>(lid, idxs). (lid, last idxs)) membership;
          components = map (\<lambda>g. filter (\<lambda>i. i \<in> fst ` set membership)
                               (map ref_line_id (hg_members g)))
            (derive_hyphen_groups
               (filter (\<lambda>lm. line_id lm \<in> fst ` set membership) (map snd by_id)));
          target_win = foldl (pin_component membership) target_win0 components
      in map (\<lambda>(i, w). filter (\<lambda>lid. map_of target_win lid = Some i) w) (enumerate 0 windows))"

definition try_window ::
  "(nat \<Rightarrow> ident) \<Rightarrow> page_manifest \<Rightarrow> ident \<Rightarrow> chunk_planner_config \<Rightarrow> chunk_plan" where
  "try_window new_id page document cfg =
     (let lines = pg_lines page;
          windows = map (\<lambda>(a, b). map line_id (slice a b lines))
                      (window_bounds cfg lines (index_by_id lines) 0);
          target_sets = assign_window_targets windows (line_by_id lines)
      in \<lparr>plan_page_id = pg_id page,
          chunks = map (\<lambda>(k, ids, ts). make_chunk (new_id k) document (pg_id page) WINDOW ids None
                      (Some ts)) (enumerate 0 (zip windows target_sets)),
          plan_granularity = WINDOW, hyphen_splits = []\<rparr>)"

section \<open>LINE\<close>

text \<open>How far the chain of forward links from \<open>i\<close> goes: the position it stops at.\<close>

function follow_chain ::
  "chunk_planner_config \<Rightarrow> line_manifest list \<Rightarrow> (ident, nat) dict \<Rightarrow> nat \<Rightarrow> nat \<Rightarrow> nat" where
  "follow_chain cfg lines idx i j =
     (if j < length lines then
        (case forward_partner_id (lines ! j) of
           None \<Rightarrow> j
         | Some pid \<Rightarrow>
             if pid = [] then j
             else (case map_of idx pid of
                None \<Rightarrow> j
              | Some partner_at \<Rightarrow>
                  if partner_at \<le> j then j
                  else if int (j - i + 1) + int (partner_at - j) > max_lines_per_request cfg then j
                  else follow_chain cfg lines idx i partner_at))
      else j)"
  by pat_completeness auto
termination by (relation "measure (\<lambda>(cfg, lines, idx, i, j). length lines - j)") auto

declare follow_chain.simps [simp del]

text \<open>The cut: a tail whose partner is on the page but not in the chunk loses that link.\<close>

definition cut_tail ::
  "line_manifest list \<Rightarrow> (ident, nat) dict \<Rightarrow> nat \<Rightarrow> nat \<Rightarrow>
   exn + (line_manifest list \<times> hyphen_split list)" where
  "cut_tail lines idx i j =
     (let tail = lines ! j; chain_ids = map line_id (slice i (Suc j) lines) in
      case forward_partner_id tail of
        None \<Rightarrow> Inr (lines, [])
      | Some pid \<Rightarrow>
          if pid = [] \<or> pid \<in> set chain_ids then Inr (lines, [])
          else (case map_of idx pid of
             None \<Rightarrow> Inr (lines, [])
           | Some partner_at \<Rightarrow>
               (case split_forward_link tail (lines ! partner_at) of
                  Inl e \<Rightarrow> Inl e
                | Inr (t, h, s) \<Rightarrow> Inr (lines[j := t, partner_at := h], [s]))))"

lemma follow_chain_ge: "j \<le> follow_chain cfg lines idx i j"
proof (induction cfg lines idx i j rule: follow_chain.induct)
  case (1 cfg lines idx i j)
  show ?case
    by (subst follow_chain.simps) (use 1 in \<open>fastforce split: option.splits\<close>)
qed

lemma cut_tail_length: "cut_tail lines idx i j = Inr (lines', cuts) \<Longrightarrow> length lines' = length lines"
  by (auto simp: cut_tail_def Let_def split: option.splits if_splits sum.splits)

function plan_line_from ::
  "chunk_planner_config \<Rightarrow> (ident, nat) dict \<Rightarrow> line_manifest list \<Rightarrow> nat \<Rightarrow>
   exn + (line_manifest list \<times> ident list list \<times> hyphen_split list)" where
  "plan_line_from cfg idx lines i =
     (if i < length lines then
        (let j = follow_chain cfg lines idx i i in
         case cut_tail lines idx i j of
           Inl e \<Rightarrow> Inl e
         | Inr (lines', cuts) \<Rightarrow>
             (case plan_line_from cfg idx lines' (Suc j) of
                Inl e \<Rightarrow> Inl e
              | Inr (final, rest, splits) \<Rightarrow>
                  Inr (final, map line_id (slice i (Suc j) lines) # rest, cuts @ splits)))
      else Inr (lines, [], []))"
  by pat_completeness auto
termination
proof (relation "measure (\<lambda>(cfg, idx, lines, i). length lines - i)")
  fix cfg idx and lines :: "line_manifest list" and i j r p lines' cuts
  assume i: "i < length lines" and j: "j = follow_chain cfg lines idx i i"
    and "cut_tail lines idx i j = Inr p" "(lines', cuts) = p"
  then have "length lines' = length lines" by (metis cut_tail_length)
  with i j follow_chain_ge [of i cfg lines idx i]
  show "((cfg, idx, lines', Suc j), cfg, idx, lines, i)
      \<in> measure (\<lambda>(cfg, idx, lines, i). length lines - i)" by simp
qed simp

declare plan_line_from.simps [simp del]

definition plan_line ::
  "(nat \<Rightarrow> ident) \<Rightarrow> page_manifest \<Rightarrow> ident \<Rightarrow> chunk_planner_config \<Rightarrow>
   exn + (page_manifest \<times> chunk_plan)" where
  "plan_line new_id page document cfg =
     (case plan_line_from cfg (index_by_id (pg_lines page)) (pg_lines page) 0 of
        Inl e \<Rightarrow> Inl e
      | Inr (lines', id_lists, splits) \<Rightarrow>
          Inr (page\<lparr>pg_lines := lines'\<rparr>,
               \<lparr>plan_page_id = pg_id page,
                chunks = map (\<lambda>(k, ids). make_chunk (new_id k) document (pg_id page) LINE ids None None)
                           (enumerate 0 id_lists),
                plan_granularity = LINE, hyphen_splits = splits\<rparr>))"

section \<open>The entry point\<close>

definition auto_plan ::
  "(nat \<Rightarrow> ident) \<Rightarrow> page_manifest \<Rightarrow> ident \<Rightarrow> chunk_planner_config \<Rightarrow> chunk_plan" where
  "auto_plan new_id page document cfg =
     (case try_page new_id page document cfg of
        Some p \<Rightarrow> p
      | None \<Rightarrow> (case try_block new_id page document cfg of
          Some p \<Rightarrow> p
        | None \<Rightarrow> try_window new_id page document cfg))"

definition plan_page ::
  "(nat \<Rightarrow> ident) \<Rightarrow> page_manifest \<Rightarrow> ident \<Rightarrow> chunk_planner_config \<Rightarrow>
   chunk_granularity option \<Rightarrow> exn + (page_manifest \<times> chunk_plan)" where
  "plan_page new_id page document cfg force_granularity =
     (if force_granularity = Some LINE then plan_line new_id page document cfg
      else Inr (page,
        if force_granularity = Some WINDOW then try_window new_id page document cfg
        else if force_granularity = Some BLOCK then
          (case try_block new_id page document cfg of
             Some p \<Rightarrow> p | None \<Rightarrow> try_window new_id page document cfg)
        else if force_granularity = Some PAGE then
          (case try_page new_id page document cfg of
             Some p \<Rightarrow> p | None \<Rightarrow> auto_plan new_id page document cfg)
        else auto_plan new_id page document cfg))"

section \<open>Windows cover the page\<close>

lemma grow_window_bounds:
  "end_pos \<le> length lines \<Longrightarrow>
   end_pos \<le> grow_window cfg lines start end_pos chars \<and>
   grow_window cfg lines start end_pos chars \<le> length lines"
proof (induction cfg lines start end_pos chars rule: grow_window.induct)
  case (1 cfg lines start end_pos chars)
  show ?case
  proof (cases "int end_pos < min (int start + line_window_size cfg) (int (length lines)) \<and>
      \<not> chars + int (length (ocr_text (lines ! end_pos))) > max_input_chars_per_request cfg")
    case True
    then have "Suc end_pos \<le> length lines" by simp
    with 1 True show ?thesis
      by (subst (1 2) grow_window.simps) (simp add: Let_def)
  next
    case False
    with "1.prems" show ?thesis by (subst (1 2) grow_window.simps) (auto simp: Let_def)
  qed
qed

lemma extend_window_bounds:
  "end_pos \<le> extend_window lines idx start max_end end_pos \<and>
   extend_window lines idx start max_end end_pos \<le> max end_pos max_end"
proof (induction lines idx start max_end end_pos rule: extend_window.induct)
  case (1 lines idx start max_end end_pos)
  let ?r = "unit_reach lines idx start end_pos"
  show ?case
  proof (cases "end_pos < max_end \<and> \<not> ?r \<le> end_pos")
    case True
    with "1.IH" [OF _ refl] show ?thesis
      by (subst (1 2) extend_window.simps) (auto simp: Let_def)
  next
    case False
    then show ?thesis by (subst (1 2) extend_window.simps) (auto simp: Let_def)
  qed
qed

lemma window_at_spec:
  assumes "valid_planner_config cfg" "start < length lines" "window_at cfg lines idx start = (e, nx)"
  shows "start < e \<and> e \<le> length lines \<and> (nx \<le> e \<or> e = length lines)"
proof -
  let ?n = "int (length lines)" and ?ws = "line_window_size cfg" and ?ov = "line_window_overlap cfg"
  define c where "c = grow_window cfg lines start (start + 1) (int (length (ocr_text (lines ! start))))"
  define m where "m = nat (min ?n (int start + max (max_lines_per_request cfg) (int (c - start) + 10)))"
  define n0 where "n0 = (if int c < min (int start + ?ws) ?n then max (int start + 1) (int c - ?ov)
      else int start + (?ws - ?ov))"
  have cfg: "0 \<le> ?ov" "?ov < ?ws" using assms(1) by (auto simp: valid_planner_config_def)
  have c: "start + 1 \<le> c" "c \<le> length lines"
    using grow_window_bounds [of "start + 1" lines cfg start] assms(2) by (simp_all add: c_def)
  have e: "e = extend_window lines idx start m c" and nx: "nx = (if n0 \<le> int start then start + 1 else nat n0)"
    using assms(3) unfolding window_at_def Let_def c_def m_def n0_def by simp_all
  have eb: "c \<le> e" "e \<le> max c m" using extend_window_bounds unfolding e by blast+
  have "m \<le> length lines" unfolding m_def by simp
  with eb c have 1: "start < e" "e \<le> length lines" by simp_all
  moreover have "nx \<le> c \<or> c = length lines"
    using c cfg unfolding nx n0_def by (auto split: if_splits)
  ultimately show ?thesis using eb(1) by auto
qed

lemma window_bounds_spec:
  assumes "valid_planner_config cfg"
  shows "list_all (\<lambda>(a, b). a < b \<and> b \<le> length lines) (window_bounds cfg lines idx start) \<and>
    (\<Union>(a, b) \<in> set (window_bounds cfg lines idx start). {a ..< b}) = {start ..< length lines}"
  using assms
proof (induction cfg lines idx start rule: window_bounds.induct)
  case (1 cfg lines idx start)
  show ?case
  proof (cases "start < length lines")
    case True
    obtain e nx where w: "window_at cfg lines idx start = (e, nx)" by fastforce
    from window_at_spec [OF "1.prems" True w] window_at_progress [of start cfg lines idx]
    have b: "start < e" "e \<le> length lines" "nx \<le> e \<or> e = length lines" "start < nx"
      by (simp_all add: w)
    have un: "window_bounds cfg lines idx start = (start, e) # window_bounds cfg lines idx nx"
      by (subst window_bounds.simps) (simp add: True w)
    have "{start ..< e} \<union> {nx ..< length lines} = {start ..< length lines}" using b by auto
    with "1.IH" [OF True "1.prems"] b show ?thesis by (simp add: un w)
  next
    case False
    then show ?thesis by (subst (1 2) window_bounds.simps) simp
  qed
qed

section \<open>Window targets\<close>

lemma append_fold_lookup:
  "map_of (foldl (\<lambda>d (i, k). dict_append k i d) [] ps) k =
     (let is = map fst (filter (\<lambda>p. snd p = k) ps) in if is = [] then None else Some is)"
proof (induction ps rule: rev_induct)
  case (snoc p ps)
  then show ?case by (cases p) (auto simp: map_of_dict_append Let_def)
qed simp

lemma in_window_pairs:
  "(i, lid) \<in> set (concat (map (\<lambda>(i, w). map (Pair i) w) (enumerate 0 windows))) \<longleftrightarrow>
     i < length windows \<and> lid \<in> set (windows ! i)"
  by (auto simp: in_set_enumerate_eq intro!: bexI [of _ "(i, windows ! i)"])

lemma in_indexed_filter:
  "x \<in> set (concat (map (\<lambda>(i, w). filter (P i) w) (enumerate 0 ws))) \<longleftrightarrow>
     (\<exists>i < length ws. x \<in> set (ws ! i) \<and> P i x)" (is "?l \<longleftrightarrow> ?r")
proof
  assume ?r
  then obtain i where i: "i < length ws" "x \<in> set (ws ! i)" "P i x" by blast
  then have "(i, ws ! i) \<in> set (enumerate 0 ws)" by (simp add: in_set_enumerate_eq)
  with i show ?l by force
qed (auto simp: in_set_enumerate_eq)

lemma in_concat_nth: "x \<in> set (concat ws) \<longleftrightarrow> (\<exists>i < length ws. x \<in> set (ws ! i))"
  by (auto simp: in_set_conv_nth [of _ ws] intro: bexI [OF _ nth_mem])

lemma membership_lookup:
  "map_of (window_membership windows) lid = None \<longleftrightarrow> lid \<notin> set (concat windows)"
  "map_of (window_membership windows) lid = Some ws \<Longrightarrow>
     ws \<noteq> [] \<and> set ws = {i. i < length windows \<and> lid \<in> set (windows ! i)}"
proof -
  define ps where "ps = concat (map (\<lambda>(i, w). map (Pair i) w) (enumerate 0 windows))"
  have ps: "(i, lid) \<in> set ps \<longleftrightarrow> i < length windows \<and> lid \<in> set (windows ! i)" for i
    unfolding ps_def by (rule in_window_pairs)
  have m: "map_of (window_membership windows) lid =
      (let is = map fst (filter (\<lambda>p. snd p = lid) ps) in if is = [] then None else Some is)"
    unfolding window_membership_def ps_def by (rule append_fold_lookup)
  have s: "set (map fst (filter (\<lambda>p. snd p = lid) ps)) = {i. i < length windows \<and> lid \<in> set (windows ! i)}"
    using ps by force
  have "map_of (window_membership windows) lid = None \<longleftrightarrow>
      set (map fst (filter (\<lambda>p. snd p = lid) ps)) = {}"
    unfolding m Let_def by (simp only: set_empty split: if_splits) simp
  then show "map_of (window_membership windows) lid = None \<longleftrightarrow> lid \<notin> set (concat windows)"
    unfolding s in_concat_nth by simp
  show "map_of (window_membership windows) lid = Some ws \<Longrightarrow>
     ws \<noteq> [] \<and> set ws = {i. i < length windows \<and> lid \<in> set (windows ! i)}"
    unfolding m Let_def using s by (auto split: if_splits)
qed

lemma foldr_max_mem: "xs \<noteq> [] \<Longrightarrow> foldr max xs (0 :: nat) \<in> set xs"
proof (induction xs)
  case (Cons x xs)
  then show ?case by (cases xs) (auto simp: max_def)
qed simp

text \<open>What an assignment promises: every line of a window has one window, and is in it.\<close>

definition targets_ok :: "ident list list \<Rightarrow> (ident, nat) dict \<Rightarrow> bool" where
  "targets_ok windows d \<longleftrightarrow>
     fst ` set d = set (concat windows) \<and>
     (\<forall>lid w. map_of d lid = Some w \<longrightarrow> w < length windows \<and> lid \<in> set (windows ! w))"

lemma dict_set_all:
  "map_of (foldl (\<lambda>d m. dict_set m w d) d ms) k = (if k \<in> set ms then Some w else map_of d k)"
  "fst ` set (foldl (\<lambda>d m. dict_set m w d) d ms) = set ms \<union> fst ` set d"
  by (induction ms arbitrary: d) auto

lemma pin_component_ok:
  assumes "targets_ok windows d" "set ms \<subseteq> set (concat windows)"
  shows "targets_ok windows (pin_component (window_membership windows) d ms)"
proof (cases "length ms < 2")
  case False
  let ?of = "\<lambda>m. case map_of (window_membership windows) m of None \<Rightarrow> [] | Some ws \<Rightarrow> ws"
  define common where "common = filter (\<lambda>w. list_all (\<lambda>m. w \<in> set (?of m)) (tl ms)) (?of (hd ms))"
  have inw: "w < length windows \<and> m \<in> set (windows ! w)" if "w \<in> set (?of m)" for w m
    using that membership_lookup(2) by (fastforce split: option.splits)
  have pin: "pin_component (window_membership windows) d ms =
      (if common \<noteq> [] then foldl (\<lambda>d m. dict_set m (foldr max common 0) d) d ms else d)"
    using False unfolding pin_component_def Let_def common_def by (simp only: if_False)
  show ?thesis
  proof (cases "common = []")
    case True
    with assms show ?thesis by (simp add: pin)
  next
    case c: False
    let ?w = "foldr max common 0"
    from False have ms: "ms = hd ms # tl ms" by (cases ms) auto
    have "?w \<in> set common" by (rule foldr_max_mem [OF c])
    then have "\<forall>m \<in> set (hd ms # tl ms). ?w \<in> set (?of m)"
      unfolding common_def by (simp add: list_all_iff)
    with inw ms have "\<forall>m \<in> set ms. ?w < length windows \<and> m \<in> set (windows ! ?w)" by metis
    moreover have "pin_component (window_membership windows) d ms = foldl (\<lambda>d m. dict_set m ?w d) d ms"
      using c by (simp add: pin)
    ultimately show ?thesis
      using assms unfolding targets_ok_def by (auto simp: dict_set_all split: if_splits)
  qed
qed (use assms in \<open>simp add: pin_component_def\<close>)

lemma pin_components_ok:
  "\<lbrakk>targets_ok windows d; \<forall>ms \<in> set comps. set ms \<subseteq> set (concat windows)\<rbrakk> \<Longrightarrow>
   targets_ok windows (foldl (pin_component (window_membership windows)) d comps)"
  by (induction comps arbitrary: d) (simp_all add: pin_component_ok)

lemma initial_targets_ok:
  "targets_ok windows (map (\<lambda>(lid, idxs). (lid, last idxs)) (window_membership windows))"
proof -
  let ?m = "window_membership windows"
  have dom: "fst ` set ?m = set (concat windows)"
  proof (rule set_eqI)
    fix k
    have "k \<in> fst ` set ?m \<longleftrightarrow> map_of ?m k \<noteq> None" by (simp add: map_of_eq_None_iff)
    then show "k \<in> fst ` set ?m \<longleftrightarrow> k \<in> set (concat windows)"
      by (simp only: membership_lookup(1) not_not)
  qed
  have "map_of (map (\<lambda>(lid, idxs). (lid, last idxs)) ?m) k = map_option last (map_of ?m k)" for k
    by (simp add: map_of_map)
  moreover have "last ws < length windows \<and> k \<in> set (windows ! last ws)" if "map_of ?m k = Some ws" for k ws
    using membership_lookup(2) [OF that] last_in_set by blast
  ultimately show ?thesis
    unfolding targets_ok_def using dom by (auto simp: image_image split_beta)
qed

lemma distinct_by_index:
  assumes "\<forall>w \<in> set ws. distinct w"
  shows "distinct (concat (map (\<lambda>(i, w). filter (\<lambda>x. f x = Some i) w) (enumerate k ws)))"
  using assms
proof (induction ws arbitrary: k)
  case (Cons w ws)
  have "f x \<noteq> Some k" if "x \<in> set (concat (map (\<lambda>(i, w). filter (\<lambda>x. f x = Some i) w) (enumerate (Suc k) ws)))" for x
    using that by (auto simp: in_set_enumerate_eq)
  with Cons show ?case by fastforce
qed simp

lemma window_targets_once:
  assumes "\<forall>w \<in> set windows. distinct w"
  shows "distinct (concat (assign_window_targets windows d)) \<and>
    set (concat (assign_window_targets windows d)) = set (concat windows) \<and>
    list_all2 (\<lambda>w ts. set ts \<subseteq> set w) windows (assign_window_targets windows d)"
proof -
  let ?m = "window_membership windows"
  define comps where "comps = map (\<lambda>g. filter (\<lambda>i. i \<in> fst ` set ?m) (map ref_line_id (hg_members g)))
    (derive_hyphen_groups (filter (\<lambda>lm. line_id lm \<in> fst ` set ?m) (map snd d)))"
  define t where "t = foldl (pin_component ?m) (map (\<lambda>(lid, idxs). (lid, last idxs)) ?m) comps"
  have "fst ` set ?m = set (concat windows)"
    using initial_targets_ok [of windows] by (simp add: targets_ok_def image_image split_beta)
  then have "targets_ok windows t"
    unfolding t_def by (intro pin_components_ok initial_targets_ok) (auto simp: comps_def)
  then have t: "lid \<in> set (concat windows) \<longleftrightarrow>
      (\<exists>w. map_of t lid = Some w \<and> w < length windows \<and> lid \<in> set (windows ! w))" for lid
    unfolding targets_ok_def by (metis (no_types, lifting) map_of_eq_None_iff not_None_eq)
  have eq: "assign_window_targets windows d =
      map (\<lambda>(i, w). filter (\<lambda>lid. map_of t lid = Some i) w) (enumerate 0 windows)"
    unfolding assign_window_targets_def Let_def t_def comps_def ..
  have "set (concat (assign_window_targets windows d)) = set (concat windows)"
    unfolding set_eq_iff eq in_indexed_filter t by blast
  then show ?thesis
    using distinct_by_index [OF assms, of "map_of t" 0]
    by (auto simp: eq list_all2_conv_all_nth nth_enumerate_eq)
qed

lemma try_window_targets:
  assumes cfg: "valid_planner_config cfg" and ids: "distinct (map line_id (pg_lines page))"
  shows "mset (concat (map targets (chunks (try_window new_id page document cfg)))) =
      mset (map line_id (pg_lines page)) \<and>
    list_all (\<lambda>c. valid_chunk c \<and> line_ids c \<noteq> [] \<and> set (line_ids c) \<subseteq> line_id ` set (pg_lines page))
      (chunks (try_window new_id page document cfg))"
proof -
  let ?lines = "pg_lines page"
  define bs where "bs = window_bounds cfg ?lines (index_by_id ?lines) 0"
  define ws where "ws = map (\<lambda>(a, b). map line_id (slice a b ?lines)) bs"
  define ts where "ts = assign_window_targets ws (line_by_id ?lines)"
  note wb = window_bounds_spec [OF cfg, of ?lines "index_by_id ?lines" 0]
  have b: "(a, b) \<in> set bs \<Longrightarrow> a < b \<and> b \<le> length ?lines" for a b
    using wb by (auto simp: bs_def list_all_iff)
  have sl: "set (slice a b ?lines) = {?lines ! k | k. a \<le> k \<and> k < b}" if "b \<le> length ?lines" for a b
  proof -
    have "slice a b ?lines = map ((!) ?lines) [a ..< b]"
      using that by (auto intro!: nth_equalityI simp: slice_def)
    then show ?thesis by auto
  qed
  have cover: "(\<Union>(a, b) \<in> set bs. {a ..< b}) = {0 ..< length ?lines}"
    using wb by (simp add: bs_def)
  have dis: "\<forall>w \<in> set ws. distinct w"
  proof
    fix w
    assume "w \<in> set ws"
    then obtain a b' where "w = map line_id (slice a b' ?lines)" by (auto simp: ws_def)
    then have "w = take (b' - a) (drop a (map line_id ?lines))"
      by (simp add: slice_def take_map drop_map)
    with ids show "distinct w" by simp
  qed
  have sub: "set w \<subseteq> line_id ` set ?lines \<and> w \<noteq> []" if "w \<in> set ws" for w
  proof -
    from that obtain a b' where w: "w = map line_id (slice a b' ?lines)" "(a, b') \<in> set bs"
      by (auto simp: ws_def)
    with b have "a < b'" "b' \<le> length ?lines" by blast+
    then have "slice a b' ?lines \<noteq> []" by (simp add: slice_def)
    moreover have "set (slice a b' ?lines) \<subseteq> set ?lines"
      by (auto simp: slice_def dest: in_set_takeD in_set_dropD)
    ultimately show ?thesis using w by auto
  qed
  have all: "set (concat ws) = line_id ` set ?lines"
  proof (intro equalityI subsetI)
    fix x
    assume "x \<in> line_id ` set ?lines"
    then obtain k where k: "k < length ?lines" "x = line_id (?lines ! k)"
      by (auto simp: in_set_conv_nth)
    then have "k \<in> (\<Union>(a, b) \<in> set bs. {a ..< b})" using cover by simp
    then obtain a b' where ab: "(a, b') \<in> set bs" "a \<le> k" "k < b'" by auto
    then have "x \<in> set (map line_id (slice a b' ?lines))"
      using sl [of b' a] b [of a b'] k(2) by auto
    then show "x \<in> set (concat ws)" using ab(1) by (force simp: ws_def)
  qed (use sub in \<open>auto simp del: set_map\<close>)
  note once = window_targets_once [OF dis, of "line_by_id ?lines"]
  have len: "length ts = length ws"
    using list_all2_lengthD [OF conjunct2 [OF conjunct2 [OF once]]] by (simp add: ts_def)
  have ch: "chunks (try_window new_id page document cfg) =
      map (\<lambda>(k, ids, ts). make_chunk (new_id k) document (pg_id page) WINDOW ids None (Some ts))
        (enumerate 0 (zip ws ts))"
    by (simp add: try_window_def Let_def ws_def ts_def bs_def)
  have "map targets (chunks (try_window new_id page document cfg)) = ts"
    by (rule nth_equalityI)
      (simp_all add: ch len nth_enumerate_eq targets_def make_chunk_def)
  moreover have "mset (concat ts) = mset (map line_id ?lines)"
    by (rule set_eq_iff_mset_eq_distinct [THEN iffD1])
      (use once all ids in \<open>simp_all add: ts_def\<close>)
  moreover have "valid_chunk c \<and> line_ids c \<noteq> [] \<and> set (line_ids c) \<subseteq> line_id ` set ?lines"
    if "c \<in> set (chunks (try_window new_id page document cfg))" for c
  proof -
    from that obtain k where k: "k < length ws" "line_ids c = ws ! k" "target_line_ids c = Some (ts ! k)"
      by (auto simp: ch in_set_enumerate_eq make_chunk_def len)
    have "set (ts ! k) \<subseteq> set (ws ! k)"
      using once k(1) by (auto simp: ts_def list_all2_conv_all_nth)
    with k sub [OF nth_mem [OF k(1)]] show ?thesis by (auto simp: valid_chunk_def)
  qed
  ultimately show ?thesis by (simp add: list_all_iff)
qed

section \<open>The line walk\<close>

lemma index_by_id_lookup:
  "map_of (index_by_id lines) pid = Some p \<Longrightarrow> p < length lines \<and> line_id (lines ! p) = pid"
  "map_of (index_by_id lines) pid = None \<longleftrightarrow> pid \<notin> line_id ` set lines"
proof -
  have "(map_of (index_by_id lines) pid = Some p \<longrightarrow> p < length lines \<and> line_id (lines ! p) = pid) \<and>
    (map_of (index_by_id lines) pid = None \<longleftrightarrow> pid \<notin> line_id ` set lines)"
  proof (induction lines rule: rev_induct)
    case Nil
    then show ?case by (simp add: index_by_id_def)
  next
    case (snoc lm lines)
    have "index_by_id (lines @ [lm]) = dict_set (line_id lm) (length lines) (index_by_id lines)"
      by (simp add: index_by_id_def enumerate_append_eq)
    with snoc show ?case by (auto simp: nth_append)
  qed
  then show "map_of (index_by_id lines) pid = Some p \<Longrightarrow> p < length lines \<and> line_id (lines ! p) = pid"
    "map_of (index_by_id lines) pid = None \<longleftrightarrow> pid \<notin> line_id ` set lines" by auto
qed

lemma follow_chain_less:
  "\<lbrakk>j < length lines; \<forall>pid p. map_of idx pid = Some p \<longrightarrow> p < length lines\<rbrakk> \<Longrightarrow>
   follow_chain cfg lines idx i j < length lines"
proof (induction cfg lines idx i j rule: follow_chain.induct)
  case (1 cfg lines idx i j)
  show ?case
    by (subst follow_chain.simps) (use 1 in \<open>auto split: option.splits\<close>)
qed

lemma follow_chain_cap:
  "\<lbrakk>i \<le> j; int (j - i + 1) \<le> max 1 (max_lines_per_request cfg)\<rbrakk> \<Longrightarrow>
   int (follow_chain cfg lines idx i j - i + 1) \<le> max 1 (max_lines_per_request cfg)"
proof (induction cfg lines idx i j rule: follow_chain.induct)
  case (1 cfg lines idx i j)
  show ?case
    by (subst follow_chain.simps) (use 1 in \<open>auto split: option.splits\<close>)
qed

lemma split_forward_id:
  "forward_partner_id (split_tail lm) = None"
  "forward_partner_id (split_head lm) \<in> {None, forward_partner_id lm}"
  by (auto simp: split_tail_def split_head_def forward_partner_id_def forward_partner_ref_def
      pair_ref_def forward_ref_def split: hyphen_role.splits)

lemma line_id_split [simp]: "line_id (split_tail lm) = line_id lm" "line_id (split_head lm) = line_id lm"
  by (simp_all add: split_tail_def split_head_def)

text \<open>What a walk may do to the lines: keep their ids, and take forward links away.\<close>

definition only_cuts :: "line_manifest list \<Rightarrow> line_manifest list \<Rightarrow> bool" where
  "only_cuts lines lines' \<longleftrightarrow>
     list_all2 (\<lambda>a b. line_id b = line_id a \<and> strip_links b = strip_links a \<and>
       forward_partner_id b \<in> {None, forward_partner_id a}) lines lines'"

lemma only_cuts_refl: "only_cuts lines lines"
  by (simp add: only_cuts_def list_all2_refl)

lemma only_cuts_trans: "\<lbrakk>only_cuts a b; only_cuts b c\<rbrakk> \<Longrightarrow> only_cuts a c"
  unfolding only_cuts_def list_all2_conv_all_nth by (simp; metis insertE singletonD)

lemma only_cuts_nth:
  assumes "only_cuts lines lines'"
  shows "length lines' = length lines"
    "k < length lines \<Longrightarrow> line_id (lines' ! k) = line_id (lines ! k)"
    "k < length lines \<Longrightarrow> forward_partner_id (lines' ! k) \<in> {None, forward_partner_id (lines ! k)}"
  using assms by (simp_all add: only_cuts_def list_all2_conv_all_nth)

lemma only_cuts_ids: "only_cuts lines lines' \<Longrightarrow> map line_id lines' = map line_id lines"
  by (rule nth_equalityI) (simp_all add: only_cuts_nth)

definition index_ok :: "(ident, nat) dict \<Rightarrow> line_manifest list \<Rightarrow> bool" where
  "index_ok idx lines \<longleftrightarrow>
     (\<forall>pid p. map_of idx pid = Some p \<longrightarrow> p < length lines \<and> line_id (lines ! p) = pid)"

lemma index_ok_cuts: "\<lbrakk>index_ok idx lines; only_cuts lines lines'\<rbrakk> \<Longrightarrow> index_ok idx lines'"
  by (simp add: index_ok_def only_cuts_nth)

text \<open>The tail of a chunk whose forward link stays inside it, or leaves the page.\<close>

definition tail_whole :: "(ident, nat) dict \<Rightarrow> ident list \<Rightarrow> line_manifest \<Rightarrow> bool" where
  "tail_whole idx ids tail =
     (case forward_partner_id tail of None \<Rightarrow> True
      | Some pid \<Rightarrow> pid \<in> set ids \<or> map_of idx pid = None)"

lemma forward_partner_id_nonempty: "forward_partner_id lm \<noteq> Some []"
  by (auto simp: forward_partner_id_def forward_partner_ref_def pair_ref_def forward_ref_def
      split: hyphen_role.splits)

lemma cut_tail_spec:
  assumes "index_ok idx lines" "i \<le> j" "j < length lines"
  shows "\<exists>lines' cuts. cut_tail lines idx i j = Inr (lines', cuts) \<and> only_cuts lines lines' \<and>
    tail_whole idx (map line_id (slice i (Suc j) lines)) (lines' ! j)"
proof -
  let ?ids = "map line_id (slice i (Suc j) lines)"
  have sl: "slice i (Suc j) lines = slice i j lines @ [lines ! j]"
  proof -
    have "Suc j - i = Suc (j - i)" "drop i lines ! (j - i) = lines ! j" "j - i < length (drop i lines)"
      using assms(2,3) by auto
    then show ?thesis by (simp add: slice_def take_Suc_conv_app_nth)
  qed
  show ?thesis
  proof (cases "tail_whole idx ?ids (lines ! j)")
    case True
    then have "cut_tail lines idx i j = Inr (lines, [])"
      unfolding cut_tail_def Let_def tail_whole_def by (auto split: option.splits)
    with True only_cuts_refl show ?thesis by blast
  next
    case False
    then obtain pid where f: "forward_partner_id (lines ! j) = Some pid"
      and out: "pid \<notin> set ?ids" and "map_of idx pid \<noteq> None"
      by (auto simp: tail_whole_def split: option.splits)
    then obtain p where p: "map_of idx pid = Some p" by blast
    with assms(1) have pl: "p < length lines" "line_id (lines ! p) = pid" by (auto simp: index_ok_def)
    have "pid \<noteq> []" using f forward_partner_id_nonempty by metis
    have "p \<noteq> j" using out pl sl by auto
    let ?new = "lines[j := split_tail (lines ! j), p := split_head (lines ! p)]"
    have "split_forward_link (lines ! j) (lines ! p) = Inr (split_tail (lines ! j), split_head (lines ! p),
        \<lparr>hs_page_id = page_id (lines ! j), hs_tail_line_id = line_id (lines ! j),
         hs_head_line_id = line_id (lines ! p)\<rparr>)"
      using f pl(2) by (simp add: split_forward_link_def)
    with f out p \<open>pid \<noteq> []\<close> have c: "\<exists>cuts. cut_tail lines idx i j = Inr (?new, cuts)"
      unfolding cut_tail_def Let_def by simp
    have "only_cuts lines ?new"
      unfolding only_cuts_def list_all2_conv_all_nth
      using split_forward_id [of "lines ! j"] split_forward_id [of "lines ! p"] \<open>p \<noteq> j\<close> assms(3) pl(1)
      by (auto simp: nth_list_update split_strip_links)
    moreover have "tail_whole idx ?ids (?new ! j)"
      using \<open>p \<noteq> j\<close> assms(3) by (simp add: tail_whole_def split_forward_id)
    ultimately show ?thesis using c by blast
  qed
qed

text \<open>The chunks of a walk: their ids in page order, and for each its tail.\<close>

fun chunks_from :: "nat \<Rightarrow> ident list list \<Rightarrow> (nat \<times> ident list) list" where
  "chunks_from i [] = []"
| "chunks_from i (ids # rest) = (i + length ids - 1, ids) # chunks_from (i + length ids) rest"

lemma tail_whole_cuts: "tail_whole idx ids a \<Longrightarrow> forward_partner_id b \<in> {None, forward_partner_id a} \<Longrightarrow>
    tail_whole idx ids b"
  by (auto simp: tail_whole_def)

lemma plan_line_from_spec:
  assumes "index_ok idx lines" "i \<le> length lines"
  shows "\<exists>final id_lists splits. plan_line_from cfg idx lines i = Inr (final, id_lists, splits) \<and>
    only_cuts lines final \<and> concat id_lists = map line_id (drop i lines) \<and>
    (\<forall>(t, ids) \<in> set (chunks_from i id_lists).
       i \<le> t \<and> t < length lines \<and> ids \<noteq> [] \<and> last ids = line_id (lines ! t) \<and>
       tail_whole idx ids (final ! t) \<and>
       int (length ids) \<le> max 1 (max_lines_per_request cfg))"
  using assms
proof (induction cfg idx lines i rule: plan_line_from.induct)
  case (1 cfg idx lines i)
  show ?case
  proof (cases "i < length lines")
    case False
    then have "plan_line_from cfg idx lines i = Inr (lines, [], [])" by (subst plan_line_from.simps) simp
    with False only_cuts_refl show ?thesis by auto
  next
    case True
    define j where "j = follow_chain cfg lines idx i i"
    have j: "i \<le> j" "j < length lines" "int (j - i + 1) \<le> max 1 (max_lines_per_request cfg)"
      using follow_chain_ge [of i cfg lines idx i] follow_chain_less [OF True, of idx cfg i]
        follow_chain_cap [of i i cfg lines idx] "1.prems"(1)
      by (simp_all add: j_def index_ok_def)
    let ?ids = "map line_id (slice i (Suc j) lines)"
    obtain lines1 cuts where c: "cut_tail lines idx i j = Inr (lines1, cuts)" "only_cuts lines lines1"
      "tail_whole idx ?ids (lines1 ! j)"
      using cut_tail_spec [OF "1.prems"(1) j(1,2)] by blast
    note len = only_cuts_nth(1) [OF c(2)]
    obtain final rest splits where r: "plan_line_from cfg idx lines1 (Suc j) = Inr (final, rest, splits)"
      "only_cuts lines1 final" "concat rest = map line_id (drop (Suc j) lines1)"
      "\<forall>(t, ids) \<in> set (chunks_from (Suc j) rest).
       Suc j \<le> t \<and> t < length lines1 \<and> ids \<noteq> [] \<and> last ids = line_id (lines1 ! t) \<and>
       tail_whole idx ids (final ! t) \<and> int (length ids) \<le> max 1 (max_lines_per_request cfg)"
      using "1.IH" [OF True j_def c(1) refl index_ok_cuts [OF "1.prems"(1) c(2)]] j(2) len by auto
    have eq: "plan_line_from cfg idx lines i = Inr (final, ?ids # rest, cuts @ splits)"
      by (subst plan_line_from.simps) (simp add: True c(1) r(1) flip: j_def)
    have idl: "length ?ids = Suc j - i" using j by (simp add: slice_def)
    have last: "last ?ids = line_id (lines ! j)" "?ids \<noteq> []"
      using j idl by (auto simp: last_conv_nth slice_def)
    have cf: "chunks_from i (?ids # rest) = (j, ?ids) # chunks_from (Suc j) rest"
      using j idl by simp
    have "drop (Suc j) (map line_id lines1) = drop (Suc j) (map line_id lines)"
      using only_cuts_ids [OF c(2)] by simp
    then have conc: "concat (?ids # rest) = map line_id (drop i lines)"
      using r(3) j by (simp add: drop_map slice_def flip: map_append)
        (metis append_take_drop_id drop_drop le_SucI ordered_cancel_comm_monoid_diff_class.diff_add)
    have whole: "tail_whole idx ?ids (final ! j)"
      using tail_whole_cuts [OF c(3)] only_cuts_nth(3) [OF r(2)] j(2) len by simp
    show ?thesis
    proof (intro exI conjI)
      show "plan_line_from cfg idx lines i = Inr (final, ?ids # rest, cuts @ splits)" by (rule eq)
      show "only_cuts lines final" using only_cuts_trans [OF c(2) r(2)] .
      show "concat (?ids # rest) = map line_id (drop i lines)" by (rule conc)
      show "\<forall>(t, ids) \<in> set (chunks_from i (?ids # rest)).
         i \<le> t \<and> t < length lines \<and> ids \<noteq> [] \<and> last ids = line_id (lines ! t) \<and>
         tail_whole idx ids (final ! t) \<and> int (length ids) \<le> max 1 (max_lines_per_request cfg)"
        unfolding cf using r(4) j idl last whole len only_cuts_nth(2) [OF c(2)] by auto
    qed
  qed
qed

section \<open>Blocks that a unit ties together\<close>

text \<open>What a parser gives: the blocks of a page name each line of it once.\<close>

definition blocks_partition :: "page_manifest \<Rightarrow> bool" where
  "blocks_partition page \<longleftrightarrow>
     distinct (map blk_id (pg_blocks page)) \<and>
     mset (concat (map blk_line_ids (pg_blocks page))) = mset (map line_id (pg_lines page))"

lemma roots_fold:
  assumes "uf_invar p" "set xs \<subseteq> uf_carrier p"
    "foldl (\<lambda>(p, d). \<lambda>b. let (r, p') = uf_find p b in (p', dict_set r () d)) (p, []) xs = (p1, d)"
  shows "uf_invar p1 \<and> uf_carrier p1 = uf_carrier p \<and>
    (\<forall>x \<in> uf_carrier p. fst (uf_find p1 x) = fst (uf_find p x)) \<and>
    distinct (map fst d) \<and> fst ` set d = (\<lambda>x. fst (uf_find p x)) ` set xs"
  using assms(2,3)
proof (induction xs arbitrary: p1 d rule: rev_induct)
  case Nil
  with assms(1) show ?case by auto
next
  case (snoc x xs)
  obtain q e where q: "foldl (\<lambda>(p, d). \<lambda>b. let (r, p') = uf_find p b in (p', dict_set r () d)) (p, []) xs = (q, e)"
    by fastforce
  from snoc.prems q have new: "p1 = snd (uf_find q x)" "d = dict_set (fst (uf_find q x)) () e"
    by (auto split: prod.splits)
  from snoc.prems have x: "x \<in> uf_carrier p" "set xs \<subseteq> uf_carrier p" by auto
  from snoc.IH [OF x(2) q] x(1) show ?case
    unfolding new by (auto simp: uf_find_spec uf_find_kept)
qed

lemma block_groups_spec:
  assumes "uf_invar p" "set bids \<subseteq> uf_carrier p"
  shows "\<exists>roots. distinct roots \<and> set roots = (\<lambda>b. fst (uf_find p b)) ` set bids \<and>
    block_groups bids p = map (\<lambda>r. filter (\<lambda>b. fst (uf_find p b) = r) bids) roots"
proof -
  obtain p1 d where f: "foldl (\<lambda>(p, d). \<lambda>b. let (r, p') = uf_find p b in (p', dict_set r () d))
      (p, []) bids = (p1, d)" by fastforce
  note one = roots_fold [OF assms f]
  obtain p2 gs where g: "planner_uf.collect bids p1 = (p2, gs)" by fastforce
  from one assms(2) have "uf_invar p1" "set bids \<subseteq> uf_carrier p1" by auto
  note two = planner_uf.collect_spec [OF this g]
  have "filter (\<lambda>x. planner_uf.rep p1 x = r) bids = filter (\<lambda>b. fst (uf_find p b) = r) bids" for r
    by (rule filter_cong) (use one assms(2) in \<open>auto simp: planner_uf.rep_def\<close>)
  with two have look: "map_of gs r = (let ms = filter (\<lambda>b. fst (uf_find p b) = r) bids in
      if ms = [] then None else Some ms)" for r by simp
  have "(case map_of gs r of None \<Rightarrow> [] | Some bs \<Rightarrow> bs) = filter (\<lambda>b. fst (uf_find p b) = r) bids" for r
    unfolding look by (auto simp: Let_def)
  then have "block_groups bids p = map (\<lambda>r. filter (\<lambda>b. fst (uf_find p b) = r) bids) (map fst d)"
    using f g by (simp add: block_groups_def planner_uf.collect_def split_beta comp_def)
  moreover from one have "distinct (map fst d)" "set (map fst d) = (\<lambda>b. fst (uf_find p b)) ` set bids"
    by auto
  ultimately show ?thesis by blast
qed

lemma concat_filter_classes:
  assumes "distinct xs" "distinct rs" "set rs = f ` set xs"
  shows "mset (concat (map (\<lambda>r. filter (\<lambda>x. f x = r) xs) rs)) = mset xs"
proof (rule set_eq_iff_mset_eq_distinct [THEN iffD1])
  have "distinct (concat (map (\<lambda>r. filter (\<lambda>x. f x = r) xs) qs))" if "distinct qs" for qs
    using that assms(1) by (induction qs) auto
  then show "distinct (concat (map (\<lambda>r. filter (\<lambda>x. f x = r) xs) rs))" using assms(2) .
qed (use assms in auto)

definition linked_blocks ::
  "(ident, line_manifest) dict \<Rightarrow> ident set \<Rightarrow> hyphen_group \<Rightarrow> ident list" where
  "linked_blocks by_id known g =
     filter (\<lambda>b. b \<in> known)
       (List.map_filter (\<lambda>r. map_option block_id (map_of by_id (ref_line_id r))) (hg_members g))"

lemma zip_tl_subset: "set bs \<subseteq> S \<Longrightarrow> set (zip bs (tl bs)) \<subseteq> S \<times> S"
  by (auto dest: set_zip_leftD) (use set_tl_subset set_zip_rightD in fastforce)

lemma union_groups_eq:
  assumes "uf_invar p"
  shows "foldl (union_group by_id) p gs =
    planner_uf.unions (concat (map (\<lambda>g. let bs = linked_blocks by_id (uf_carrier p) g in zip bs (tl bs)) gs)) p"
  using assms
proof (induction gs arbitrary: p)
  case Nil
  then show ?case by (simp add: planner_uf.unions_def)
next
  case (Cons g gs)
  let ?bs = "linked_blocks by_id (uf_carrier p) g"
  have one: "union_group by_id p g = planner_uf.unions (zip ?bs (tl ?bs)) p"
    by (simp add: union_group_def linked_blocks_def planner_uf.unions_def uf_carrier_def Let_def)
  have "set ?bs \<subseteq> uf_carrier p" by (auto simp: linked_blocks_def)
  then have "set (zip ?bs (tl ?bs)) \<subseteq> uf_carrier p \<times> uf_carrier p" by (rule zip_tl_subset)
  from planner_uf.unions_invar [OF Cons.prems this]
  have inv: "uf_invar (union_group by_id p g)" "uf_carrier (union_group by_id p g) = uf_carrier p"
    by (simp_all add: one)
  show ?case
    using Cons.IH [OF inv(1)] unfolding inv(2)
    by (simp add: one Let_def planner_uf.unions_def)
qed

text \<open>Blocks that hold lines of one unit end up with one root.\<close>

lemma same_unit_same_root:
  fixes bids :: "ident list"
  defines "p0 \<equiv> uf_singletons bids"
  assumes "g \<in> set gs" "r \<in> set (hg_members g)" "s \<in> set (hg_members g)"
    and "map_of by_id (ref_line_id r) = Some a" "map_of by_id (ref_line_id s) = Some b"
    and "block_id a \<in> set bids" "block_id b \<in> set bids"
  shows "fst (uf_find (foldl (union_group by_id) p0 gs) (block_id a)) =
    fst (uf_find (foldl (union_group by_id) p0 gs) (block_id b))"
proof -
  note inv = singletons_invar [of bids, folded p0_def]
  define es where "es = concat (map (\<lambda>g. let bs = linked_blocks by_id (uf_carrier p0) g in zip bs (tl bs)) gs)"
  let ?bs = "linked_blocks by_id (uf_carrier p0) g"
  have "set (zip bs (tl bs)) \<subseteq> uf_carrier p0 \<times> uf_carrier p0"
    if "bs = linked_blocks by_id (uf_carrier p0) h" for bs h
    by (rule zip_tl_subset) (auto simp: that linked_blocks_def)
  then have sub: "set es \<subseteq> uf_carrier p0 \<times> uf_carrier p0"
    unfolding es_def Let_def by fastforce
  have single: "\<forall>x \<in> uf_carrier p0. \<forall>y \<in> uf_carrier p0. planner_uf.rep p0 x = planner_uf.rep p0 y \<longleftrightarrow> x = y"
    by (simp add: planner_uf.rep_def p0_def singletons_find singletons_invar)
  have mem: "block_id a \<in> set ?bs" "block_id b \<in> set ?bs"
    unfolding linked_blocks_def inv(2) List.map_filter_def
    using assms(3-8) by (force simp: image_iff)+
  have chain: "(x, y) \<in> (set (zip bs (tl bs)) \<union> (set (zip bs (tl bs)))\<inverse>)\<^sup>*"
    if "x \<in> set bs" "y \<in> set bs" for x y and bs :: "ident list"
  proof -
    have from_hd: "(hd bs, z) \<in> (set (zip bs (tl bs)))\<^sup>*" if "z \<in> set bs" for z and bs :: "ident list"
      using that
    proof (induction bs rule: induct_list012)
      case (3 u v ws)
      then show ?case
      proof (cases "z = u")
        case False
        with "3.prems" have "(v, z) \<in> (set (zip (v # ws) (tl (v # ws))))\<^sup>*"
          using "3.IH"(2) by simp
        then have "(v, z) \<in> (set (zip (u # v # ws) (tl (u # v # ws))))\<^sup>*"
          by (rule rtrancl_mono [THEN subsetD, rotated]) auto
        then show ?thesis by (simp add: converse_rtrancl_into_rtrancl [of u v])
      qed simp
    qed auto
    let ?R = "set (zip bs (tl bs))"
    have "(hd bs, x) \<in> (?R \<union> ?R\<inverse>)\<^sup>*" "(hd bs, y) \<in> (?R \<union> ?R\<inverse>)\<^sup>*"
      using from_hd that by (meson in_rtrancl_UnI)+
    moreover have "sym ((?R \<union> ?R\<inverse>)\<^sup>*)" by (intro sym_rtrancl symI) auto
    ultimately show ?thesis by (meson rtrancl_trans symD)
  qed
  have "set (zip ?bs (tl ?bs)) \<subseteq> set es" using assms(2) by (auto simp: es_def Let_def)
  with chain [OF mem] have "(block_id a, block_id b) \<in> (set es \<union> (set es)\<inverse>)\<^sup>*"
    by (meson Un_mono converse_mono rtrancl_mono subsetD)
  with planner_uf.rep_unions_connected [OF inv(1) sub single, of "block_id a" "block_id b"] assms(7,8) inv(2)
  show ?thesis
    unfolding union_groups_eq [OF inv(1)] es_def [symmetric] by (simp add: planner_uf.rep_def)
qed

lemma set_fold_lookup:
  "distinct (map k bs) \<Longrightarrow> b \<in> set bs \<Longrightarrow>
   map_of (foldl (\<lambda>d b. dict_set (k b) (f b) d) [] bs) (k b) = Some (f b)"
proof (induction bs rule: rev_induct)
  case (snoc x bs)
  then show ?case by (cases "b = x") (auto simp: image_iff)
qed simp

lemma block_lines_lookup:
  assumes "blocks_partition page" "b \<in> set (pg_blocks page)"
  shows "\<exists>ls. map_of (block_lines page) (blk_id b) = Some ls \<and> map line_id ls = blk_line_ids b \<and>
    set ls \<subseteq> set (pg_lines page)"
proof (intro exI conjI)
  let ?f = "\<lambda>b. List.map_filter (map_of (line_by_id (pg_lines page))) (blk_line_ids b)"
  show "map_of (block_lines page) (blk_id b) = Some (?f b)"
    unfolding block_lines_def by (rule set_fold_lookup) (use assms in \<open>simp_all add: blocks_partition_def\<close>)
  have "set (concat (map blk_line_ids (pg_blocks page))) = set (map line_id (pg_lines page))"
    by (rule mset_eq_setD) (use assms(1) in \<open>simp add: blocks_partition_def\<close>)
  with assms(2) have sub: "set (blk_line_ids b) \<subseteq> line_id ` set (pg_lines page)" by auto
  have look: "\<exists>lm \<in> set (pg_lines page). map_of (line_by_id (pg_lines page)) i = Some lm \<and> line_id lm = i"
    if "i \<in> line_id ` set (pg_lines page)" for i
    using that map_of_dict_of_None [of line_id "pg_lines page" i] map_of_dict_of_Some [of line_id "pg_lines page" i]
    unfolding line_by_id_def by (cases "map_of (dict_of line_id (pg_lines page)) i") auto
  have "map line_id (List.map_filter (map_of (line_by_id (pg_lines page))) is) = is \<and>
      set (List.map_filter (map_of (line_by_id (pg_lines page))) is) \<subseteq> set (pg_lines page)"
    if "set is \<subseteq> line_id ` set (pg_lines page)" for "is"
    using that
  proof (induction "is")
    case (Cons i "is")
    from Cons.prems look [of i] obtain lm where "lm \<in> set (pg_lines page)"
      "map_of (line_by_id (pg_lines page)) i = Some lm" "line_id lm = i" by auto
    with Cons show ?case by (simp add: List.map_filter_simps)
  qed (simp add: List.map_filter_simps)
  from this [OF sub] show "map line_id (?f b) = blk_line_ids b" "set (?f b) \<subseteq> set (pg_lines page)" by auto
qed

definition block_parent :: "page_manifest \<Rightarrow> (ident, ident) dict" where
  "block_parent page =
     foldl (union_group (line_by_id (pg_lines page))) (uf_singletons (map blk_id (pg_blocks page)))
       (derive_hyphen_groups (pg_lines page))"

lemma block_parent_invar:
  "uf_invar (block_parent page)" "uf_carrier (block_parent page) = set (map blk_id (pg_blocks page))"
proof -
  let ?bids = "map blk_id (pg_blocks page)" and ?by = "line_by_id (pg_lines page)"
  let ?p0 = "uf_singletons ?bids"
  have "set (zip bs (tl bs)) \<subseteq> uf_carrier ?p0 \<times> uf_carrier ?p0"
    if "bs = linked_blocks ?by (uf_carrier ?p0) h" for bs h
    by (rule zip_tl_subset) (auto simp: that linked_blocks_def)
  then have "set (concat (map (\<lambda>g. let bs = linked_blocks ?by (uf_carrier ?p0) g in zip bs (tl bs))
      (derive_hyphen_groups (pg_lines page)))) \<subseteq> uf_carrier ?p0 \<times> uf_carrier ?p0"
    unfolding Let_def by fastforce
  from planner_uf.unions_invar [OF singletons_invar(1) this]
  show "uf_invar (block_parent page)" "uf_carrier (block_parent page) = set ?bids"
    unfolding block_parent_def union_groups_eq [OF singletons_invar(1)] by (simp_all add: singletons_invar)
qed

lemma try_block_chunks:
  assumes part: "blocks_partition page" and some: "try_block new_id page document cfg = Some plan"
  obtains gs where "mset (concat gs) = mset (map blk_id (pg_blocks page))"
    "map line_ids (chunks plan) = map (\<lambda>g. map line_id (group_lines (block_lines page) g)) gs"
    "list_all (\<lambda>c. target_line_ids c = None) (chunks plan)"
    "gs = block_groups (map blk_id (pg_blocks page)) (block_parent page)"
    "list_all (\<lambda>g. within_budget cfg (group_lines (block_lines page) g)) gs"
proof -
  let ?bids = "map blk_id (pg_blocks page)"
  define gs where "gs = block_groups ?bids (block_parent page)"
  have dist: "distinct ?bids" using part by (simp add: blocks_partition_def)
  obtain roots where "distinct roots" "set roots = (\<lambda>b. fst (uf_find (block_parent page) b)) ` set ?bids"
    "gs = map (\<lambda>r. filter (\<lambda>b. fst (uf_find (block_parent page) b) = r) ?bids) roots"
    using block_groups_spec [OF block_parent_invar(1), of ?bids page]
    unfolding block_parent_invar(2) gs_def by blast
  then have m: "mset (concat gs) = mset ?bids" using concat_filter_classes [OF dist] by simp
  have tb: "try_block new_id page document cfg =
     (if \<not> list_all (\<lambda>g. within_budget cfg (group_lines (block_lines page) g)) gs then None
      else if gs = [] then None
      else Some \<lparr>plan_page_id = pg_id page,
             chunks = map (\<lambda>(k, g). make_chunk (new_id k) document (pg_id page) BLOCK
                        (map line_id (group_lines (block_lines page) g))
                        (if length g = 1 then Some (hd g) else None) None) (enumerate 0 gs),
             plan_granularity = BLOCK, hyphen_splits = []\<rparr>)"
    unfolding try_block_def Let_def gs_def block_parent_def uf_singletons_def
      distinct_remdups_id [OF dist] ..
  from some tb have w: "list_all (\<lambda>g. within_budget cfg (group_lines (block_lines page) g)) gs"
    and "chunks plan = map (\<lambda>(k, g). make_chunk (new_id k) document (pg_id page) BLOCK
                        (map line_id (group_lines (block_lines page) g))
                        (if length g = 1 then Some (hd g) else None) None) (enumerate 0 gs)"
    by (auto split: if_splits)
  then have "map line_ids (chunks plan) = map (\<lambda>g. map line_id (group_lines (block_lines page) g)) gs"
    "list_all (\<lambda>c. target_line_ids c = None) (chunks plan)"
    by (auto intro!: nth_equalityI simp: make_chunk_def nth_enumerate_eq list_all_iff)
  with m w gs_def that show thesis by blast
qed

lemma map_line_id_group:
  assumes "blocks_partition page" "set g \<subseteq> set (map blk_id (pg_blocks page))"
  shows "map line_id (group_lines (block_lines page) g) =
    concat (map (\<lambda>i. map line_id (the (map_of (block_lines page) i))) g)"
  using assms(2)
proof (induction g)
  case (Cons i g)
  then obtain b where "b \<in> set (pg_blocks page)" "i = blk_id b" by auto
  with block_lines_lookup [OF assms(1)] Cons show ?case by (fastforce simp: group_lines_def)
qed (simp add: group_lines_def)

lemma concat_nested: "concat (map (\<lambda>g. concat (map f g)) gs) = concat (map f (concat gs))"
  by (induction gs) simp_all

lemma try_block_targets:
  assumes part: "blocks_partition page" and some: "try_block new_id page document cfg = Some plan"
  shows "mset (concat (map targets (chunks plan))) = mset (map line_id (pg_lines page))"
    "list_all valid_chunk (chunks plan)"
proof -
  obtain gs where gs: "mset (concat gs) = mset (map blk_id (pg_blocks page))"
    "map line_ids (chunks plan) = map (\<lambda>g. map line_id (group_lines (block_lines page) g)) gs"
    "list_all (\<lambda>c. target_line_ids c = None) (chunks plan)"
    by (rule try_block_chunks [OF assms])
  let ?f = "\<lambda>i. map line_id (the (map_of (block_lines page) i))"
  have sub: "\<forall>g \<in> set gs. set g \<subseteq> set (map blk_id (pg_blocks page))"
    using mset_eq_setD [OF gs(1)] by auto
  have "map targets (chunks plan) = map line_ids (chunks plan)"
    using gs(3) by (auto simp: targets_def list_all_iff)
  also have "\<dots> = map (\<lambda>g. concat (map ?f g)) gs"
    unfolding gs(2) using map_line_id_group [OF part] sub by auto
  finally have "concat (map targets (chunks plan)) = concat (map ?f (concat gs))"
    using concat_nested [of ?f gs] by simp
  also have "mset \<dots> = mset (concat (map ?f (map blk_id (pg_blocks page))))"
    by (rule mset_concat_map_perm [OF gs(1)])
  also have "map ?f (map blk_id (pg_blocks page)) = map blk_line_ids (pg_blocks page)"
    using block_lines_lookup [OF part] by fastforce
  also have "mset (concat (map blk_line_ids (pg_blocks page))) = mset (map line_id (pg_lines page))"
    using part by (simp add: blocks_partition_def)
  finally show "mset (concat (map targets (chunks plan))) = mset (map line_id (pg_lines page))" .
  show "list_all valid_chunk (chunks plan)"
    using gs(3) by (auto simp: list_all_iff valid_chunk_def)
qed

section \<open>Units stay together\<close>

text \<open>Every line names the block that lists it.\<close>

definition blocks_consistent :: "page_manifest \<Rightarrow> bool" where
  "blocks_consistent page \<longleftrightarrow>
     list_all (\<lambda>lm. list_ex (\<lambda>b. blk_id b = block_id lm \<and> line_id lm \<in> set (blk_line_ids b))
       (pg_blocks page)) (pg_lines page)"

lemma refs_distinct: "distinct (map line_id lines) \<Longrightarrow> distinct (map line_ref lines)"
  unfolding distinct_map inj_on_def by (metis line_ref_eq_iff)

lemma same_ref_same_line:
  "\<lbrakk>distinct (map line_id lines); a \<in> set lines; b \<in> set lines; line_ref a = line_ref b\<rbrakk> \<Longrightarrow> a = b"
  by (simp add: line_ref_eq_iff distinct_map inj_on_def)

lemma by_id_ref:
  assumes "distinct (map line_id lines)" "lm \<in> set lines"
  shows "map_of (line_by_id lines) (ref_line_id (line_ref lm)) = Some lm"
  using map_of_dict_of_distinct [OF assms] by (simp add: line_by_id_def)

lemma block_units:
  assumes part: "blocks_partition page" and cons: "blocks_consistent page"
    and ids: "distinct (map line_id (pg_lines page))"
    and some: "try_block new_id page document cfg = Some plan"
    and ab: "a \<in> set (pg_lines page)" "b \<in> set (pg_lines page)"
    and same: "same_unit (pg_lines page) (line_ref a) (line_ref b)"
  shows "\<exists>c \<in> set (chunks plan). line_id a \<in> set (line_ids c) \<and> line_id b \<in> set (line_ids c)"
proof -
  let ?bids = "map blk_id (pg_blocks page)"
  let ?root = "\<lambda>b. fst (uf_find (block_parent page) b)"
  have blk: "\<exists>bl \<in> set (pg_blocks page). blk_id bl = block_id lm \<and> line_id lm \<in> set (blk_line_ids bl)"
    if "lm \<in> set (pg_lines page)" for lm
    using cons that by (auto simp: blocks_consistent_def list_all_iff list_ex_iff)
  then have blk_in: "block_id lm \<in> blk_id ` set (pg_blocks page)" if "lm \<in> set (pg_lines page)" for lm
    using that by (metis image_eqI)
  have root: "?root (block_id a) = ?root (block_id b)"
  proof (cases "line_ref a = line_ref b")
    case True
    then have "a = b" by (rule same_ref_same_line [OF ids ab])
    then show ?thesis by simp
  next
    case False
    then obtain g where g: "g \<in> set (derive_hyphen_groups (pg_lines page))"
      "line_ref a \<in> set (hg_members g)" "line_ref b \<in> set (hg_members g)"
      using group_iff_same_unit [OF refs_distinct [OF ids]] ab same by blast
    show ?thesis
      unfolding block_parent_def
      by (rule same_unit_same_root [OF g by_id_ref [OF ids ab(1)] by_id_ref [OF ids ab(2)]])
        (use blk_in [OF ab(1)] blk_in [OF ab(2)] in simp_all)
  qed
  obtain gs where gs: "map line_ids (chunks plan) = map (\<lambda>g. map line_id (group_lines (block_lines page) g)) gs"
    "gs = block_groups ?bids (block_parent page)"
    by (rule try_block_chunks [OF part some])
  obtain roots where roots: "set roots = ?root ` set ?bids"
    "gs = map (\<lambda>r. filter (\<lambda>b. ?root b = r) ?bids) roots"
    using block_groups_spec [OF block_parent_invar(1), of ?bids page]
    unfolding block_parent_invar(2) gs(2) by blast
  let ?g = "filter (\<lambda>b. ?root b = ?root (block_id a)) ?bids"
  have in_g: "block_id a \<in> set ?g" "block_id b \<in> set ?g"
    using blk_in [OF ab(1)] blk_in [OF ab(2)] root by simp_all
  then have "?root (block_id a) \<in> set roots" unfolding roots(1) by auto
  then have "?g \<in> set gs" unfolding roots(2) by auto
  then have "map line_id (group_lines (block_lines page) ?g) \<in> set (map line_ids (chunks plan))"
    unfolding gs(1) by auto
  then obtain c where c: "c \<in> set (chunks plan)"
    "line_ids c = map line_id (group_lines (block_lines page) ?g)" by auto
  have "line_id lm \<in> set (line_ids c)" if "lm \<in> set (pg_lines page)" "block_id lm \<in> set ?g" for lm
  proof -
    from blk [OF that(1)] obtain bl where bl: "bl \<in> set (pg_blocks page)" "blk_id bl = block_id lm"
      "line_id lm \<in> set (blk_line_ids bl)" by blast
    obtain ls where ls: "map_of (block_lines page) (blk_id bl) = Some ls" "map line_id ls = blk_line_ids bl"
      using block_lines_lookup [OF part bl(1)] by blast
    from bl(3) have "line_id lm \<in> set (map line_id (the (map_of (block_lines page) (block_id lm))))"
      unfolding ls(2) [symmetric] bl(2) [symmetric] ls(1) by simp
    with that(2) show ?thesis
      unfolding c(2) by (subst map_line_id_group [OF part]) (use that(2) in \<open>simp_all, fastforce+\<close>)
  qed
  with in_g ab c(1) show ?thesis by blast
qed

lemma pin_other:
  "m \<notin> set ms \<Longrightarrow> map_of (pin_component membership d ms) m = map_of d m"
  unfolding pin_component_def Let_def by (auto simp: dict_set_all)

lemma pins_other:
  "m \<notin> set (concat comps) \<Longrightarrow>
   map_of (foldl (pin_component membership) d comps) m = map_of d m"
  by (induction comps arbitrary: d) (simp_all add: pin_other)

lemma pin_hit:
  assumes "2 \<le> length ms" "w < length windows" "set ms \<subseteq> set (windows ! w)"
  shows "\<exists>w'. \<forall>m \<in> set ms. map_of (pin_component (window_membership windows) d ms) m = Some w'"
proof -
  let ?of = "\<lambda>m. case map_of (window_membership windows) m of None \<Rightarrow> [] | Some ws \<Rightarrow> ws"
  define common where "common = filter (\<lambda>w. list_all (\<lambda>m. w \<in> set (?of m)) (tl ms)) (?of (hd ms))"
  have "w \<in> set (?of m)" if "m \<in> set ms" for m
  proof -
    from that assms(2,3) have "m \<in> set (concat windows)" by (auto intro!: bexI [OF _ nth_mem])
    then obtain ws where ws: "map_of (window_membership windows) m = Some ws"
      using membership_lookup(1) [of windows m] by auto
    with membership_lookup(2) [OF ws] that assms(2,3) show ?thesis by auto
  qed
  moreover from assms(1) have "hd ms \<in> set ms" "set (tl ms) \<subseteq> set ms"
    by (cases ms; auto)+
  ultimately have "w \<in> set common" unfolding common_def by (simp add: list_all_iff subset_iff)
  then have "common \<noteq> []" by auto
  moreover have short: "\<not> length ms < 2" using assms(1) by simp
  have "pin_component (window_membership windows) d ms =
      (if common \<noteq> [] then foldl (\<lambda>d m. dict_set m (foldr max common 0) d) d ms else d)"
    using short unfolding pin_component_def Let_def common_def by (simp only: if_False)
  ultimately show ?thesis by (auto simp: dict_set_all)
qed

lemma pins_hit:
  assumes "distinct (concat comps)" "ms \<in> set comps" "2 \<le> length ms" "w < length windows"
    "set ms \<subseteq> set (windows ! w)"
  shows "\<exists>w'. \<forall>m \<in> set ms.
    map_of (foldl (pin_component (window_membership windows)) d comps) m = Some w'"
  using assms(1,2)
proof (induction comps arbitrary: d rule: rev_induct)
  case (snoc x comps)
  show ?case
  proof (cases "ms = x")
    case True
    then show ?thesis using pin_hit [OF assms(3-5)] by simp
  next
    case False
    with snoc.prems have "ms \<in> set comps" "set ms \<inter> set x = {}" by auto
    with snoc.IH [of d] snoc.prems(1) show ?thesis by (auto simp: pin_other disjoint_iff)
  qed
qed simp

lemma window_units:
  assumes cfg: "valid_planner_config cfg" and ids: "distinct (map line_id (pg_lines page))"
    and ab: "a \<in> set (pg_lines page)" "b \<in> set (pg_lines page)"
    and same: "same_unit (pg_lines page) (line_ref a) (line_ref b)"
    and c: "c \<in> set (chunks (try_window new_id page document cfg))"
    and whole: "\<forall>x \<in> set (pg_lines page). same_unit (pg_lines page) (line_ref a) (line_ref x) \<longrightarrow>
      line_id x \<in> set (line_ids c)"
  shows "\<exists>c' \<in> set (chunks (try_window new_id page document cfg)).
    line_id a \<in> set (targets c') \<and> line_id b \<in> set (targets c')"
proof (cases "line_ref a = line_ref b")
  case True
  then have "a = b" by (rule same_ref_same_line [OF ids ab])
  have "line_id a \<in> set (map line_id (pg_lines page))" using ab(1) by simp
  also have "\<dots> = set (concat (map targets (chunks (try_window new_id page document cfg))))"
    using try_window_targets [OF cfg ids, of new_id document] by (metis mset_eq_setD)
  finally show ?thesis using \<open>a = b\<close> by auto
next
  case False
  let ?lines = "pg_lines page"
  define ws where "ws = map (\<lambda>(a, b). map line_id (slice a b ?lines))
    (window_bounds cfg ?lines (index_by_id ?lines) 0)"
  define ts where "ts = assign_window_targets ws (line_by_id ?lines)"
  let ?plan = "try_window new_id page document cfg"
  have ch: "chunks ?plan =
      map (\<lambda>(k, ids, ts). make_chunk (new_id k) document (pg_id page) WINDOW ids None (Some ts))
        (enumerate 0 (zip ws ts))"
    by (simp add: try_window_def Let_def ws_def ts_def)
  let ?m = "window_membership ws"
  let ?keys = "fst ` set ?m"
  have keys: "?keys = set (concat ws)"
    using initial_targets_ok [of ws] by (simp add: targets_ok_def image_image split_beta)
  have lts: "length ts = length ws" by (simp add: ts_def assign_window_targets_def Let_def)
  then have "concat (map line_ids (chunks ?plan)) = concat ws"
    by (intro arg_cong [of _ _ concat] nth_equalityI)
      (simp_all add: ch nth_enumerate_eq make_chunk_def)
  have tgt: "map targets (chunks ?plan) = ts"
    by (rule nth_equalityI) (simp_all add: ch lts nth_enumerate_eq targets_def make_chunk_def)
  have "valid_chunk c' \<and> line_ids c' \<in> set ws" if "c' \<in> set (chunks ?plan)" for c'
    using that try_window_targets [OF cfg ids, of new_id document]
    by (auto simp: list_all_iff ch in_set_enumerate_eq make_chunk_def lts)
  then have cw: "line_ids c \<in> set ws" "\<forall>c' \<in> set (chunks ?plan). set (targets c') \<subseteq> set (concat ws)"
    using c targets_subset by fastforce+
  have "line_id ` set ?lines \<subseteq> ?keys"
  proof -
    have "set (map line_id ?lines) = set (concat (map targets (chunks ?plan)))"
      using try_window_targets [OF cfg ids, of new_id document] by (metis mset_eq_setD)
    with cw(2) show ?thesis unfolding keys by auto
  qed
  then have "filter (\<lambda>lm. line_id lm \<in> ?keys) (map snd (line_by_id ?lines)) = ?lines"
    using ids by (simp add: line_by_id_def dict_of_distinct comp_def filter_id_conv subset_iff)
  then have derived: "derive_hyphen_groups (filter (\<lambda>lm. line_id lm \<in> ?keys)
      (map snd (line_by_id ?lines))) = derive_hyphen_groups ?lines" by simp
  define comps where "comps = map (\<lambda>g. filter (\<lambda>i. i \<in> ?keys) (map ref_line_id (hg_members g)))
    (derive_hyphen_groups ?lines)"
  obtain g where g: "g \<in> set (derive_hyphen_groups ?lines)"
    "line_ref a \<in> set (hg_members g)" "line_ref b \<in> set (hg_members g)"
    using group_iff_same_unit [OF refs_distinct [OF ids]] ab same False by blast
  have mem: "set (hg_members h) \<subseteq> line_ref ` set ?lines" if "h \<in> set (derive_hyphen_groups ?lines)" for h
    by (rule group_member_line [OF refs_distinct [OF ids] that])
  have full: "filter (\<lambda>i. i \<in> ?keys) (map ref_line_id (hg_members h)) = map ref_line_id (hg_members h)"
    if "h \<in> set (derive_hyphen_groups ?lines)" for h
    using mem [OF that] \<open>line_id ` set ?lines \<subseteq> ?keys\<close>
    by (intro filter_True) (force simp: subset_iff)
  then have comps: "comps = map (\<lambda>g. map ref_line_id (hg_members g)) (derive_hyphen_groups ?lines)"
    unfolding comps_def by simp
  have "inj_on ref_line_id (line_ref ` set ?lines)"
    using ids by (auto simp: inj_on_def distinct_map)
  moreover have "set (concat (map hg_members (derive_hyphen_groups ?lines))) \<subseteq> line_ref ` set ?lines"
    unfolding set_concat set_map by (intro UN_least) (use mem in auto)
  ultimately have "distinct (map ref_line_id (concat (map hg_members (derive_hyphen_groups ?lines))))"
    unfolding distinct_map using groups_disjoint_aux inj_on_subset by metis
  then have dis: "distinct (concat comps)" by (simp add: comps map_concat comp_def)
  obtain w where w: "w < length ws" "ws ! w = line_ids c" using cw(1) by (auto simp: in_set_conv_nth)
  have "set (map ref_line_id (hg_members g)) \<subseteq> set (ws ! w)"
  proof
    fix i
    assume "i \<in> set (map ref_line_id (hg_members g))"
    then obtain x where x: "line_ref x \<in> set (hg_members g)" "x \<in> set ?lines" "i = line_id x"
      using mem [OF g(1)] by fastforce
    then have "same_unit ?lines (line_ref a) (line_ref x)"
      using group_iff_same_unit [OF refs_distinct [OF ids], of "line_ref a" "line_ref x"] g ab(1)
      by (cases "line_ref a = line_ref x") auto
    with whole x w show "i \<in> set (ws ! w)" by auto
  qed
  moreover have "map ref_line_id (hg_members g) \<in> set comps"
    "2 \<le> length (map ref_line_id (hg_members g))"
    using g(1) group_sorted(2) [OF g(1)] by (simp_all add: comps)
  ultimately obtain w' where w': "\<forall>m \<in> set (map ref_line_id (hg_members g)).
      map_of (foldl (pin_component ?m) (map (\<lambda>(lid, idxs). (lid, last idxs)) ?m) comps) m = Some w'"
    using pins_hit [OF dis _ _ w(1)] by blast
  define t where "t = foldl (pin_component ?m) (map (\<lambda>(lid, idxs). (lid, last idxs)) ?m) comps"
  have tok: "targets_ok ws t"
    unfolding t_def keys [symmetric]
    by (intro pin_components_ok initial_targets_ok) (auto simp: comps_def keys simp del: set_concat)
  have tseq: "ts = map (\<lambda>(i, w). filter (\<lambda>lid. map_of t lid = Some i) w) (enumerate 0 ws)"
    unfolding ts_def assign_window_targets_def Let_def t_def comps_def derived ..
  have at: "map_of t (line_id lm) = Some w'" if "line_ref lm \<in> set (hg_members g)" for lm
    using w' that unfolding t_def by force
  have "w' < length ws" "line_id a \<in> set (ws ! w')" "line_id b \<in> set (ws ! w')"
    using tok at [OF g(2)] at [OF g(3)] by (auto simp: targets_ok_def)
  moreover from this have "ts ! w' = filter (\<lambda>lid. map_of t lid = Some w') (ws ! w')"
    by (simp add: tseq nth_enumerate_eq)
  ultimately have "line_id a \<in> set (ts ! w')" "line_id b \<in> set (ts ! w')" "ts ! w' \<in> set ts"
    using at [OF g(2)] at [OF g(3)] nth_mem [of w' ts] lts by simp_all
  then show ?thesis unfolding tgt [symmetric] by auto
qed

section \<open>What a plan looks like\<close>

lemma try_window_shape:
  assumes "distinct (map line_id (pg_lines page))" "c \<in> set (chunks (try_window new_id page document cfg))"
  shows "granularity c = WINDOW \<and> distinct (line_ids c)"
proof -
  let ?lines = "pg_lines page"
  define ws where "ws = map (\<lambda>(a, b). map line_id (slice a b ?lines)) (window_bounds cfg ?lines (index_by_id ?lines) 0)"
  from assms(2) obtain k ids ts where e: "(k, ids, ts) \<in> set (enumerate 0 (zip ws (assign_window_targets ws (line_by_id ?lines))))"
    and c: "c = make_chunk (new_id k) document (pg_id page) WINDOW ids None (Some ts)"
    by (auto simp: try_window_def Let_def ws_def)
  from e have "(ids, ts) \<in> set (zip ws (assign_window_targets ws (line_by_id ?lines)))"
    by (metis enumerate_eq_zip set_zip_rightD)
  then have "ids \<in> set ws" by (rule set_zip_leftD)
  then obtain a b where "ids = map line_id (slice a b ?lines)" by (auto simp: ws_def)
  then have "ids = take (b - a) (drop a (map line_id ?lines))" by (simp add: slice_def take_map drop_map)
  with assms(1) have "distinct ids" by simp
  then show ?thesis by (simp add: c make_chunk_def)
qed

lemma try_window_granularity: "c \<in> set (chunks (try_window new_id page document cfg)) \<Longrightarrow> granularity c = WINDOW"
  by (auto simp: try_window_def Let_def make_chunk_def)

lemma try_block_shape:
  assumes "try_block new_id page document cfg = Some plan" "c \<in> set (chunks plan)"
  shows "granularity c = BLOCK \<and> target_line_ids c = None"
  using assms by (auto simp: try_block_def Let_def make_chunk_def split: if_splits)

text \<open>A forced plan is at least as fine as it was forced to be.\<close>

lemma plan_page_finer:
  assumes "plan_page new_id page document cfg (Some g) = Inr (page', plan)" "c \<in> set (chunks plan)"
  shows "granularity_rank g \<le> granularity_rank (granularity c)"
proof (cases g)
  case PAGE
  then show ?thesis by simp
next
  case BLOCK
  then show ?thesis
  proof (cases "try_block new_id page document cfg")
    case None
    with assms BLOCK have "c \<in> set (chunks (try_window new_id page document cfg))" by (auto simp: plan_page_def)
    from try_window_granularity [OF this] BLOCK show ?thesis by simp
  next
    case (Some p)
    with assms BLOCK have "c \<in> set (chunks p)" by (auto simp: plan_page_def)
    from try_block_shape [OF Some this] BLOCK show ?thesis by simp
  qed
next
  case WINDOW
  with assms have "c \<in> set (chunks (try_window new_id page document cfg))" by (auto simp: plan_page_def)
  from try_window_granularity [OF this] WINDOW show ?thesis by simp
next
  case LINE
  with assms show ?thesis
    by (auto simp: plan_page_def plan_line_def make_chunk_def split: sum.splits prod.splits)
qed

lemma plan_page_complete:
  assumes "valid_planner_config cfg" "distinct (map line_id (pg_lines page))" "blocks_partition page"
  shows "\<exists>page' plan. plan_page new_id page document cfg force_granularity = Inr (page', plan) \<and>
    mset (concat (map targets (chunks plan))) = mset (map line_id (pg_lines page)) \<and>
    list_all (\<lambda>c. valid_chunk c \<and> distinct (line_ids c)) (chunks plan) \<and>
    only_cuts (pg_lines page) (pg_lines page')"
proof -
  have own: "distinct (line_ids c)" if "mset (concat (map targets cs)) = mset (map line_id (pg_lines page))"
    "c \<in> set cs" "target_line_ids c = None" for cs c
  proof -
    have "distinct (concat (map targets cs))" using that(1) assms(2) mset_eq_imp_distinct_iff by metis
    then have "distinct (targets c)" using that(2) by (simp add: distinct_concat_iff)
    with that(3) show ?thesis by (simp add: targets_def)
  qed
  let ?ok = "\<lambda>p. mset (concat (map targets (chunks p))) = mset (map line_id (pg_lines page)) \<and>
    list_all (\<lambda>c. valid_chunk c \<and> distinct (line_ids c)) (chunks p)"
  note win = try_window_targets [OF assms(1,2), of new_id document]
  have window: "?ok (try_window new_id page document cfg)"
    using win try_window_shape [OF assms(2)] by (auto simp: list_all_iff)
  have page: "?ok p" if "try_page new_id page document cfg = Some p" for p
    using that assms(2) by (auto simp: try_page_def targets_def valid_chunk_def make_chunk_def split: if_splits)
  have block: "?ok p" if "try_block new_id page document cfg = Some p" for p
  proof -
    note t = try_block_targets [OF assms(3) that]
    have "distinct (line_ids c)" if "c \<in> set (chunks p)" for c
      using own [OF t(1) that] try_block_shape [OF \<open>try_block new_id page document cfg = Some p\<close> that] by simp
    with t show ?thesis by (simp add: list_all_iff)
  qed
  show ?thesis
  proof (cases "force_granularity = Some LINE")
    case True
    have "index_ok (index_by_id (pg_lines page)) (pg_lines page)"
      using index_by_id_lookup(1) by (auto simp: index_ok_def)
    from plan_line_from_spec [OF this, of 0 cfg] obtain final id_lists splits where
      l: "plan_line_from cfg (index_by_id (pg_lines page)) (pg_lines page) 0 = Inr (final, id_lists, splits)"
      "concat id_lists = map line_id (pg_lines page)" "only_cuts (pg_lines page) final" by auto
    let ?cs = "map (\<lambda>(k, ids). make_chunk (new_id k) document (pg_id page) LINE ids None None) (enumerate 0 id_lists)"
    have t: "concat (map targets ?cs) = map line_id (pg_lines page)"
      unfolding l(2) [symmetric]
      by (rule arg_cong [where f = concat], rule nth_equalityI)
        (simp_all add: nth_enumerate_eq targets_def make_chunk_def)
    have n: "target_line_ids c = None" if "c \<in> set ?cs" for c using that by (auto simp: make_chunk_def)
    have "valid_chunk c \<and> distinct (line_ids c)" if "c \<in> set ?cs" for c
      using own [of ?cs c] t n that by (simp add: valid_chunk_def)
    with l t True show ?thesis
      by (simp add: plan_page_def plan_line_def list_all_iff)
  next
    case False
    with window page block only_cuts_refl show ?thesis
      by (auto simp: plan_page_def auto_plan_def split: option.splits)
  qed
qed

section \<open>Properties\<close>

text \<open>C8: whatever granularity is forced, planning a page succeeds, and every line of the page
  is the target of exactly one chunk; every chunk's targets are among its lines.\<close>

theorem plan_page_targets_once:
  assumes "valid_planner_config cfg" "distinct (map line_id (pg_lines page))" "blocks_partition page"
  shows "\<exists>page' plan. plan_page new_id page document cfg force_granularity = Inr (page', plan) \<and>
    mset (concat (map targets (chunks plan))) = mset (map line_id (pg_lines page)) \<and>
    list_all valid_chunk (chunks plan)"
proof -
  from plan_page_complete [OF assms] obtain page' plan where
    "plan_page new_id page document cfg force_granularity = Inr (page', plan)"
    "mset (concat (map targets (chunks plan))) = mset (map line_id (pg_lines page))"
    "list_all (\<lambda>c. valid_chunk c \<and> distinct (line_ids c)) (chunks plan)" by blast
  then show ?thesis by (auto simp: list_all_iff)
qed

definition demo_page :: page_manifest where
  "demo_page = \<lparr>pg_id = ''P'', pg_source_file = ''f.xml'', pg_index = 0, pg_width = 100,
     pg_height = 100,
     pg_blocks = [\<lparr>blk_id = ''b'', blk_page_id = ''P'', blk_order = 0, blk_coords = plain_coords,
                   blk_line_ids = [''a'', ''b'', ''c'']\<rparr>],
     pg_lines = [demo_tail, demo_head, demo_other]\<rparr>"

definition demo_config :: chunk_planner_config where
  "demo_config = \<lparr>max_input_chars_per_request = 20, max_lines_per_request = 2,
     line_window_size = 2, line_window_overlap = 1\<rparr>"

lemma plan_page_targets_once_witness:
  "\<exists>page' plan. plan_page (\<lambda>k. ''c'') demo_page ''D'' demo_config (Some WINDOW) = Inr (page', plan) \<and>
    mset (concat (map targets (chunks plan))) = mset (map line_id (pg_lines demo_page)) \<and>
    list_all valid_chunk (chunks plan)"
  by (rule plan_page_targets_once)
    (simp_all add: demo_page_def demo_config_def valid_planner_config_def blocks_partition_def
      demo_tail_def demo_head_def demo_other_def plain_line_def)

text \<open>Where every line is a target once, the pairs that share a chunk share one and the same.\<close>

lemma one_chunk_for_all:
  assumes dis: "distinct (concat (map targets cs))"
    and pair: "\<And>b. R b \<Longrightarrow> \<exists>c \<in> set cs. a \<in> set (targets c) \<and> b \<in> set (targets c)"
    and a: "R a"
  shows "\<exists>c \<in> set cs. \<forall>b. R b \<longrightarrow> b \<in> set (targets c)"
proof -
  from pair [OF a] obtain c where c: "c \<in> set cs" "a \<in> set (targets c)" by blast
  have "b \<in> set (targets c)" if b: "R b" for b
  proof -
    from pair [OF b] obtain c' where c': "c' \<in> set cs" "a \<in> set (targets c')" "b \<in> set (targets c')" by blast
    have "targets c' = targets c"
    proof (rule ccontr)
      assume "targets c' \<noteq> targets c"
      with dis c(1) c'(1) have "set (targets c') \<inter> set (targets c) = {}" by (simp add: distinct_concat_iff)
      with c(2) c'(2) show False by blast
    qed
    with c'(3) show ?thesis by simp
  qed
  with c(1) show ?thesis by blast
qed

text \<open>A plan by blocks keeps every hyphen unit together: all lines of the page that belong to the unit of
  a line are targets of one and the same chunk, even where the unit runs from block to block. The page's
  line ids are distinct and its blocks share its lines out.\<close>

theorem block_plan_keeps_units:
  assumes "blocks_partition page" "blocks_consistent page" "distinct (map line_id (pg_lines page))"
    and "try_block new_id page document cfg = Some plan" "a \<in> set (pg_lines page)"
  shows "\<exists>c \<in> set (chunks plan). \<forall>b \<in> set (pg_lines page).
    same_unit (pg_lines page) (line_ref a) (line_ref b) \<longrightarrow> line_id b \<in> set (targets c)"
proof -
  have plain: "list_all (\<lambda>c. target_line_ids c = None) (chunks plan)"
    by (rule try_block_chunks [OF assms(1,4)])
  let ?R = "\<lambda>i. \<exists>b \<in> set (pg_lines page). i = line_id b \<and> same_unit (pg_lines page) (line_ref a) (line_ref b)"
  have "distinct (concat (map targets (chunks plan)))"
    using mset_eq_imp_distinct_iff [OF try_block_targets(1) [OF assms(1,4)]] assms(3) by simp
  moreover have "\<exists>c \<in> set (chunks plan). line_id a \<in> set (targets c) \<and> i \<in> set (targets c)"
    if "?R i" for i
    using block_units [OF assms(1-5)] that plain by (fastforce simp: list_all_iff targets_def)
  moreover have "?R (line_id a)" using assms(5) same_unit_refl by blast
  ultimately have "\<exists>c \<in> set (chunks plan). \<forall>i. ?R i \<longrightarrow> i \<in> set (targets c)"
    by (intro one_chunk_for_all) auto
  then show ?thesis by blast
qed

lemma demo_same_unit: "same_unit (pg_lines demo_page) (line_ref demo_tail) (line_ref demo_head)"
proof -
  have "(line_ref demo_tail, line_ref demo_head) \<in> unit_links (pg_lines demo_page)"
    unfolding unit_links_def
    by (auto simp: demo_page_def in_partners demo_tail_def demo_head_def plain_line_def line_ref_def
        pair_ref_def py_or_def intro!: exI [of _ demo_tail])
  then show ?thesis unfolding same_unit_def by blast
qed

lemma demo_page_mem: "demo_tail \<in> set (pg_lines demo_page)" "demo_head \<in> set (pg_lines demo_page)"
  "line_id demo_tail = ''a''" "line_id demo_head = ''b''"
  by (simp_all add: demo_page_def demo_tail_def demo_head_def plain_line_def)

lemma block_plan_keeps_units_witness:
  "\<exists>plan c. try_block (\<lambda>k. ''c'') demo_page ''D'' DEFAULT_PLANNER_CONFIG = Some plan \<and>
     c \<in> set (chunks plan) \<and> ''a'' \<in> set (targets c) \<and> ''b'' \<in> set (targets c)"
proof -
  have "\<not> Option.is_none (try_block (\<lambda>k. ''c'') demo_page ''D'' DEFAULT_PLANNER_CONFIG)" by code_simp
  then obtain plan where p: "try_block (\<lambda>k. ''c'') demo_page ''D'' DEFAULT_PLANNER_CONFIG = Some plan"
    by (auto simp: Option.is_none_def)
  have "blocks_partition demo_page" "blocks_consistent demo_page" "distinct (map line_id (pg_lines demo_page))"
    by (simp_all add: demo_page_def blocks_partition_def blocks_consistent_def
        demo_tail_def demo_head_def demo_other_def plain_line_def)
  from block_plan_keeps_units [OF this p demo_page_mem(1)] obtain c where "c \<in> set (chunks plan)"
    "\<forall>b \<in> set (pg_lines demo_page). same_unit (pg_lines demo_page) (line_ref demo_tail) (line_ref b) \<longrightarrow>
       line_id b \<in> set (targets c)" by blast
  then show ?thesis using p demo_same_unit same_unit_refl demo_page_mem by metis
qed

text \<open>C30: In a plan by windows, when some window holds a hyphen unit whole, all lines of the unit are
  targets of one and the same window. The planner's configuration is valid (overlap smaller than the window)
  and the page's line ids are distinct.\<close>

theorem window_plan_keeps_units:
  assumes "valid_planner_config cfg" "distinct (map line_id (pg_lines page))"
    and "a \<in> set (pg_lines page)"
    and "c \<in> set (chunks (try_window new_id page document cfg))"
    and "\<forall>x \<in> set (pg_lines page). same_unit (pg_lines page) (line_ref a) (line_ref x) \<longrightarrow>
      line_id x \<in> set (line_ids c)"
  shows "\<exists>c' \<in> set (chunks (try_window new_id page document cfg)). \<forall>b \<in> set (pg_lines page).
    same_unit (pg_lines page) (line_ref a) (line_ref b) \<longrightarrow> line_id b \<in> set (targets c')"
proof -
  let ?cs = "chunks (try_window new_id page document cfg)"
  let ?R = "\<lambda>i. \<exists>b \<in> set (pg_lines page). i = line_id b \<and> same_unit (pg_lines page) (line_ref a) (line_ref b)"
  have "distinct (concat (map targets ?cs))"
    using mset_eq_imp_distinct_iff [OF conjunct1 [OF try_window_targets [OF assms(1,2)]]] assms(2) by simp
  moreover have "\<exists>c \<in> set ?cs. line_id a \<in> set (targets c) \<and> i \<in> set (targets c)"
    if "?R i" for i
    using window_units [OF assms(1-3) _ _ assms(4,5)] that by blast
  moreover have "?R (line_id a)" using assms(3) same_unit_refl by blast
  ultimately have "\<exists>c \<in> set ?cs. \<forall>i. ?R i \<longrightarrow> i \<in> set (targets c)"
    by (intro one_chunk_for_all) auto
  then show ?thesis by blast
qed

lemma window_plan_keeps_units_witness:
  "\<exists>c' \<in> set (chunks (try_window (\<lambda>k. ''c'') demo_page ''D'' DEFAULT_PLANNER_CONFIG)).
    ''a'' \<in> set (targets c') \<and> ''b'' \<in> set (targets c')"
proof -
  let ?plan = "try_window (\<lambda>k. ''c'') demo_page ''D'' DEFAULT_PLANNER_CONFIG"
  have "map line_ids (chunks ?plan) = [[''a'', ''b'', ''c'']]" by code_simp
  then obtain c where c: "c \<in> set (chunks ?plan)" "line_ids c = [''a'', ''b'', ''c'']" by auto
  have "valid_planner_config DEFAULT_PLANNER_CONFIG" "distinct (map line_id (pg_lines demo_page))"
    "\<forall>x \<in> set (pg_lines demo_page). same_unit (pg_lines demo_page) (line_ref demo_tail) (line_ref x) \<longrightarrow>
       line_id x \<in> set (line_ids c)"
    by (simp_all add: demo_page_def valid_planner_config_def policy_defs c(2)
        demo_tail_def demo_head_def demo_other_def plain_line_def)
  from window_plan_keeps_units [OF this(1,2) demo_page_mem(1) c(1) this(3)] obtain c' where "c' \<in> set (chunks ?plan)"
    "\<forall>b \<in> set (pg_lines demo_page). same_unit (pg_lines demo_page) (line_ref demo_tail) (line_ref b) \<longrightarrow>
       line_id b \<in> set (targets c')" by blast
  then show ?thesis using demo_same_unit same_unit_refl demo_page_mem by metis
qed

text \<open>The line walk always succeeds; its chunks list the page's lines in order, none longer
  than the line cap; it takes links away and changes nothing else; and afterwards the forward
  link of a chunk's last line stays inside the chunk or leaves the page.\<close>

theorem plan_line_cuts_clean:
  "\<exists>page' plan. plan_line new_id page document cfg = Inr (page', plan) \<and>
    concat (map line_ids (chunks plan)) = map line_id (pg_lines page) \<and>
    only_cuts (pg_lines page) (pg_lines page') \<and>
    list_all (\<lambda>(t, ids). ids \<noteq> [] \<and> t < length (pg_lines page) \<and>
        last ids = line_id (pg_lines page ! t) \<and>
        tail_whole (index_by_id (pg_lines page)) ids (pg_lines page' ! t) \<and>
        int (length ids) \<le> max 1 (max_lines_per_request cfg))
      (chunks_from 0 (map line_ids (chunks plan)))"
proof -
  have "index_ok (index_by_id (pg_lines page)) (pg_lines page)"
    using index_by_id_lookup(1) by (auto simp: index_ok_def)
  from plan_line_from_spec [OF this, of 0 cfg] obtain final id_lists splits where
    l: "plan_line_from cfg (index_by_id (pg_lines page)) (pg_lines page) 0 = Inr (final, id_lists, splits)"
    "only_cuts (pg_lines page) final" "concat id_lists = map line_id (pg_lines page)"
    "\<forall>(t, ids) \<in> set (chunks_from 0 id_lists).
       t < length (pg_lines page) \<and> ids \<noteq> [] \<and> last ids = line_id (pg_lines page ! t) \<and>
       tail_whole (index_by_id (pg_lines page)) ids (final ! t) \<and>
       int (length ids) \<le> max 1 (max_lines_per_request cfg)"
    by auto
  have "map line_ids (map (\<lambda>(k, ids). make_chunk (new_id k) document (pg_id page) LINE ids None None)
      (enumerate 0 id_lists)) = id_lists"
    by (rule nth_equalityI) (simp_all add: nth_enumerate_eq make_chunk_def)
  with l show ?thesis by (auto simp: plan_line_def list_all_iff)
qed

text \<open>C37: The line walk looks a tail's partner up by its bare line id on the page at hand (whose ids are
  distinct). Where the walk
  stops at a tail whose word continues on another page, and a line of this page outside the chunk happens to
  have the partner's id (line ids repeat from file to file), \<open>cut_tail\<close> severs the link across the pages:
  the tail loses its forward partner, the split it records names the unrelated line, and that line, no party
  to the link, loses its own backward partner, and its forward one too where it only opened a pair.\<close>

theorem line_walk_severs_foreign_link:
  assumes "distinct (map line_id lines)" "j < length lines" "p < length lines"
    and "follow_chain cfg lines (index_by_id lines) i i = j"
    and "forward_partner_ref (lines ! j) = Some (LineRef other_page (line_id (lines ! p)))"
    and "other_page \<noteq> page_id (lines ! p)"
    and "line_id (lines ! p) \<notin> set (map line_id (slice i (Suc j) lines))"
  shows "\<exists>lines' split. cut_tail lines (index_by_id lines) i j = Inr (lines', [split]) \<and>
    forward_partner_ref (lines' ! j) = None \<and> backward_partner_ref (lines' ! p) = None \<and>
    (hyphen_role (lines ! p) = PART1 \<longrightarrow> forward_partner_ref (lines' ! p) = None) \<and>
    hs_head_line_id split = line_id (lines ! p) \<and> LineRef other_page (line_id (lines ! p)) \<noteq> line_ref (lines ! p)"
proof -
  let ?idx = "index_by_id lines" and ?t = "lines ! j" and ?h = "lines ! p"
  have "i \<le> j" using follow_chain_ge [of i cfg lines ?idx i] assms(4) by simp
  then have "slice i (Suc j) lines ! (j - i) = ?t" "j - i < length (slice i (Suc j) lines)"
    using assms(2) by (simp_all add: slice_def)
  then have "?t \<in> set (slice i (Suc j) lines)" by (metis nth_mem)
  with assms(7) have pj: "p \<noteq> j" by auto
  obtain q where q: "map_of ?idx (line_id ?h) = Some q"
    using index_by_id_lookup(2) [of lines "line_id ?h"] assms(3) by force
  with index_by_id_lookup(1) [OF q] assms(1,3) have q: "map_of ?idx (line_id ?h) = Some p"
    by (simp add: distinct_conv_nth) metis
  have fid: "forward_partner_id ?t = Some (line_id ?h)" by (simp add: forward_partner_id_def assms(5))
  have "line_id ?h \<noteq> []"
    using assms(5) by (auto simp: forward_partner_ref_def pair_ref_def forward_ref_def truthy_iff
        split: hyphen_role.splits if_splits)
  then have "cut_tail lines ?idx i j = Inr (lines[j := split_tail ?t, p := split_head ?h],
      [\<lparr>hs_page_id = page_id ?t, hs_tail_line_id = line_id ?t, hs_head_line_id = line_id ?h\<rparr>])"
    using assms(7) fid q by (simp add: cut_tail_def Let_def split_forward_link_def)
  moreover have "forward_partner_ref (split_tail ?t) = None" "backward_partner_ref (split_head ?h) = None"
    "hyphen_role ?h = PART1 \<longrightarrow> forward_partner_ref (split_head ?h) = None"
    by (auto simp: split_tail_def split_head_def forward_partner_ref_def backward_partner_ref_def)
  ultimately show ?thesis using assms(2,3,6) pj by (simp add: line_ref_def)
qed

text \<open>The same through the whole walk: a page whose last line continues on another page.\<close>

definition foreign_tail :: line_manifest where
  "foreign_tail = (plain_line ''P'' ''z'' 9 (tx ''und Ham-''))
     \<lparr>hyphen_role := PART1, hyphen_pair_line_id := Some ''a'', hyphen_pair_page_id := Some ''Q''\<rparr>"

lemma plan_line_severs_foreign_link:
  "map (\<lambda>lm. (line_id lm, hyphen_role lm, forward_partner_ref lm, backward_partner_ref lm))
     (case plan_line (\<lambda>k. ''c'') (demo_page\<lparr>pg_lines := [demo_tail, demo_head, foreign_tail]\<rparr>) ''D''
        DEFAULT_PLANNER_CONFIG of Inr (page', plan) \<Rightarrow> pg_lines page' | Inl e \<Rightarrow> []) =
   [(''a'', NONE, None, None), (''b'', PART2, None, Some (LineRef ''P'' ''a'')), (''z'', NONE, None, None)]"
  "forward_partner_ref demo_tail = Some (LineRef ''P'' ''b'')"
  "forward_partner_ref foreign_tail = Some (LineRef ''Q'' ''a'')"
  by code_simp+

lemma line_walk_severs_foreign_link_witness:
  "let lines = [demo_tail, demo_head, foreign_tail]
   in \<exists>lines' split. cut_tail lines (index_by_id lines) 2 2 = Inr (lines', [split]) \<and>
      forward_partner_ref (lines' ! 2) = None \<and> forward_partner_ref (lines' ! 0) = None \<and>
      hs_head_line_id split = ''a''"
proof -
  let ?ls = "[demo_tail, demo_head, foreign_tail]"
  have ids: "map line_id ?ls = [''a'', ''b'', ''z'']" "hyphen_role demo_tail = PART1" "page_id demo_tail = ''P''"
    by (simp_all add: demo_tail_def demo_head_def foreign_tail_def plain_line_def)
  have walk: "follow_chain DEFAULT_PLANNER_CONFIG ?ls (index_by_id ?ls) 2 2 = 2"
    "map line_id (slice 2 3 ?ls) = [''z'']" by code_simp+
  have facts: "distinct (map line_id ?ls)" "2 < length ?ls" "0 < length ?ls"
    "forward_partner_ref (?ls ! 2) = Some (LineRef ''Q'' (line_id (?ls ! 0)))" "''Q'' \<noteq> page_id (?ls ! 0)"
    "line_id (?ls ! 0) \<notin> set (map line_id (slice 2 (Suc 2) ?ls))" "hyphen_role (?ls ! 0) = PART1"
    using ids walk(2) plan_line_severs_foreign_link(3) by (simp_all add: eval_nat_numeral)
  from line_walk_severs_foreign_link [OF facts(1-3) walk(1) facts(4-6)] facts(7) obtain lines' split where
    "cut_tail ?ls (index_by_id ?ls) 2 2 = Inr (lines', [split])" "forward_partner_ref (lines' ! 2) = None"
    "forward_partner_ref (lines' ! 0) = None" "hs_head_line_id split = line_id (?ls ! 0)" by blast
  moreover have "line_id (?ls ! 0) = ''a''" using ids(1) by simp
  ultimately show ?thesis unfolding Let_def by (intro exI [of _ lines'] exI [of _ split] conjI) simp_all
qed

end
