(* ===== verification/Routing.thy ===== *)
theory Routing
  imports Producers Planner
begin

text \<open>
  \<open>core/quality.py\<close>, \<open>core/routing.py\<close> and \<open>core/batching.py\<close>: which lines reach a producer, which
  producer, and in how many calls. A scorer is a function from text to a rational; the heuristic one
  of the core is defined. The sets \<open>skip\<close> and \<open>escalate\<close> are lists without repetition.

  Facts: routing keeps every target exactly once except the skipped ones, and sends an escalated
  target to the escalation producer; splitting for an image cap keeps every target exactly once,
  never exceeds the cap, and fails only on a unit larger than it.
\<close>

section \<open>Quality estimation\<close>

text \<open>\<open>_PUNCT\<close>, as code points.\<close>

definition PUNCT :: "cp list" where
  "PUNCT = [46, 44, 59, 58, 33, 63, 40, 41, 91, 93, 123, 125, 171, 187, 34, 39, 8212, 8211, 45, 8230]"

type_synonym scorer = "ptext \<Rightarrow> rat"

definition adjacent_digit :: "unicode \<Rightarrow> ptext \<Rightarrow> bool" where
  "adjacent_digit u token =
     list_ex (\<lambda>(a, b). uc_isdigit u a \<and> uc_isalpha u b \<or> uc_isalpha u a \<and> uc_isdigit u b)
       (zip token (tl token))"

definition is_suspicious :: "unicode \<Rightarrow> ptext list \<Rightarrow> ptext \<Rightarrow> bool" where
  "is_suspicious u lexicon token =
     (if adjacent_digit u token then True
      else if lexicon \<noteq> [] then
        (let core = strip_of (\<lambda>c. c \<in> set PUNCT) token
         in core \<noteq> [] \<and> \<not> list_all (uc_isdigit u) core \<and> uc_casefold u core \<notin> set lexicon)
      else False)"

definition heuristic_needs_correction :: "unicode \<Rightarrow> ptext list \<Rightarrow> scorer" where
  "heuristic_needs_correction u lexicon t =
     (let tokens = filter (list_ex (uc_isalnum u)) (py_split t) in
      if tokens = [] then 0
      else of_nat (length (filter (is_suspicious u (map (uc_casefold u) lexicon)) tokens))
             / of_nat (length tokens))"

section \<open>Routing a line\<close>

datatype routing_decision = SKIP | LLM | ESCALATE

record routing_policy =
  skip_at_or_below :: "rat option"
  escalate_at_or_above :: "rat option"

definition DEFAULT_ROUTING_POLICY :: routing_policy where
  "DEFAULT_ROUTING_POLICY = \<lparr>skip_at_or_below = None, escalate_at_or_above = None\<rparr>"

definition valid_routing_policy :: "routing_policy \<Rightarrow> bool" where
  "valid_routing_policy p \<longleftrightarrow>
     (case skip_at_or_below p of None \<Rightarrow> True | Some x \<Rightarrow> unit_interval x) \<and>
     (case escalate_at_or_above p of None \<Rightarrow> True | Some x \<Rightarrow> unit_interval x) \<and>
     (case (skip_at_or_below p, escalate_at_or_above p) of (Some lo, Some hi) \<Rightarrow> lo < hi | _ \<Rightarrow> True)"

definition route_line :: "rat \<Rightarrow> routing_policy \<Rightarrow> routing_decision" where
  "route_line qe p =
     (if (case skip_at_or_below p of None \<Rightarrow> False | Some lo \<Rightarrow> qe \<le> lo) then SKIP
      else if (case escalate_at_or_above p of None \<Rightarrow> False | Some hi \<Rightarrow> qe \<ge> hi) then ESCALATE
      else LLM)"

definition routing_enabled :: "scorer option \<Rightarrow> routing_policy \<Rightarrow> bool" where
  "routing_enabled qe p \<longleftrightarrow>
     qe \<noteq> None \<and> (skip_at_or_below p \<noteq> None \<or> escalate_at_or_above p \<noteq> None)"

definition tier_line ::
  "scorer \<Rightarrow> routing_policy \<Rightarrow> (ident, ident list) dict \<Rightarrow> bool \<Rightarrow> ident list \<times> ident list \<Rightarrow>
   line_manifest \<Rightarrow> ident list \<times> ident list" where
  "tier_line qe p page_units can_escalate st lm =
     (let (skip, escalate) = st; decision = route_line (qe (ocr_text lm)) p in
      if hyphen_role lm \<noteq> NONE then
        (if decision = ESCALATE \<and> can_escalate
         then (case map_of page_units (line_id lm) of
                 None \<Rightarrow> st | Some un \<Rightarrow> (skip, foldl (\<lambda>e m. List.insert m e) escalate un))
         else st)
      else if decision = SKIP then (List.insert (line_id lm) skip, escalate)
      else if decision = ESCALATE \<and> can_escalate then (skip, List.insert (line_id lm) escalate)
      else st)"

definition score_page_into_tiers ::
  "scorer \<Rightarrow> routing_policy \<Rightarrow> line_manifest list \<Rightarrow> line_manifest list \<Rightarrow> bool \<Rightarrow>
   ident list \<times> ident list" where
  "score_page_into_tiers qe p page_lines indexed can_escalate =
     foldl (tier_line qe p (page_local_units indexed) can_escalate) ([], []) page_lines"

definition confirm_skipped_lines :: "page_workspace \<Rightarrow> ident list \<Rightarrow> run \<Rightarrow> run" where
  "confirm_skipped_lines ws skip r =
     foldl (\<lambda>r lid. case map_of (ws_lines ws) lid of
          None \<Rightarrow> r
        | Some ref \<Rightarrow> (case line_at r ref of None \<Rightarrow> r | Some lm \<Rightarrow> accept (ocr_text lm) ref r)) r skip"

type_synonym work_item = "chunk_request \<times> edit_producer"

definition work_items_of ::
  "ident list \<Rightarrow> ident list \<Rightarrow> edit_producer \<Rightarrow> edit_producer \<Rightarrow> chunk_request \<Rightarrow> work_item list" where
  "work_items_of skip escalate producer escalation_producer chunk =
     (let remaining = filter (\<lambda>t. t \<notin> set skip) (targets chunk);
          primary = filter (\<lambda>t. t \<notin> set escalate) remaining;
          escalated = filter (\<lambda>t. t \<in> set escalate) remaining
      in
      if remaining = [] then []
      else
        (if primary = [] then []
         else [(if primary = targets chunk then chunk else chunk\<lparr>target_line_ids := Some primary\<rparr>, producer)]) @
        (if escalated = [] then []
         else [(chunk\<lparr>target_line_ids := Some escalated, chunk_id := chunk_id chunk @ ''#esc''\<rparr>,
                escalation_producer)]))"

definition work_items ::
  "chunk_request list \<Rightarrow> ident list \<Rightarrow> ident list \<Rightarrow> edit_producer \<Rightarrow> edit_producer \<Rightarrow> work_item list" where
  "work_items cs skip escalate producer escalation_producer =
     concat (map (work_items_of skip escalate producer escalation_producer) cs)"

text \<open>The assertion that an escalated target has a producer cannot fail: \<open>escalate\<close> is empty without
  one, and the second producer is then the first.\<close>

definition route_and_filter_chunks ::
  "scorer option \<Rightarrow> routing_policy \<Rightarrow> edit_producer \<Rightarrow> edit_producer option \<Rightarrow> page_manifest \<Rightarrow>
   chunk_request list \<Rightarrow> page_workspace \<Rightarrow> run \<Rightarrow> work_item list \<times> run" where
  "route_and_filter_chunks qe p producer escalation page cs ws r =
     (if \<not> routing_enabled qe p then (map (\<lambda>c. (c, producer)) cs, r)
      else
        (let (skip, escalate) = score_page_into_tiers (the qe) p (pg_lines (page_now r page))
               (ws_manifests r ws) (escalation \<noteq> None);
             r1 = confirm_skipped_lines ws skip r;
             r2 = update_ctx (\<lambda>c. c\<lparr>lines_skipped := lines_skipped c + int (length skip),
                    escalated_lines := escalated_lines c + int (length escalate)\<rparr>) r1
         in (work_items cs skip escalate producer
               (case escalation of None \<Rightarrow> producer | Some e \<Rightarrow> e), r2)))"

section \<open>Splitting for the image cap\<close>

type_synonym batching = "ident list list \<times> ident list \<times> ident list"

definition unit_members ::
  "(ident, line_manifest) dict \<Rightarrow> (ident, ident list) dict \<Rightarrow> ident list \<Rightarrow> ident list \<Rightarrow> ident \<Rightarrow> ident list" where
  "unit_members by_id page_units in_chunk assigned lid =
     (case map_of by_id lid of
        None \<Rightarrow> filter (\<lambda>l. l = lid) in_chunk
      | Some lm \<Rightarrow>
          if hyphen_role lm \<noteq> NONE
          then (case map_of page_units lid of
                  None \<Rightarrow> filter (\<lambda>l. l = lid) in_chunk
                | Some un \<Rightarrow> filter (\<lambda>l. l \<in> set un \<and> l \<notin> set assigned) in_chunk)
          else filter (\<lambda>l. l = lid) in_chunk)"

definition batch_line ::
  "(ident, line_manifest) dict \<Rightarrow> (ident, ident list) dict \<Rightarrow> int \<Rightarrow> chunk_request \<Rightarrow> batching \<Rightarrow> ident \<Rightarrow>
   exn + batching" where
  "batch_line by_id page_units cap chunk st lid =
     (let (batches, current, assigned) = st in
      if lid \<in> set assigned \<or> lid \<notin> set (targets chunk) then Inr st
      else
        (let members = unit_members by_id page_units (line_ids chunk) assigned lid in
         if int (length members) > cap
         then Inl (Exn C_ConfigurationError ''hyphen unit needs more images than max_images'')
         else
           (let full = (current \<noteq> [] \<and> int (length current + length members) > cap) in
            Inr (if full then (batches @ [current], members, assigned @ members)
                 else (batches, current @ members, assigned @ members)))))"

fun batch_lines ::
  "(ident, line_manifest) dict \<Rightarrow> (ident, ident list) dict \<Rightarrow> int \<Rightarrow> chunk_request \<Rightarrow> batching \<Rightarrow> ident list \<Rightarrow>
   exn + batching" where
  "batch_lines by_id page_units cap chunk st [] = Inr st"
| "batch_lines by_id page_units cap chunk st (lid # rest) =
     (case batch_line by_id page_units cap chunk st lid of
        Inl e \<Rightarrow> Inl e | Inr st' \<Rightarrow> batch_lines by_id page_units cap chunk st' rest)"

definition split_chunk ::
  "(ident, line_manifest) dict \<Rightarrow> (ident, ident list) dict \<Rightarrow> int \<Rightarrow> chunk_request \<Rightarrow> exn + chunk_request list" where
  "split_chunk by_id page_units cap chunk =
     (case batch_lines by_id page_units cap chunk ([], [], []) (line_ids chunk) of
        Inl e \<Rightarrow> Inl e
      | Inr (batches, current, assigned) \<Rightarrow>
          (let all = (if current = [] then batches else batches @ [current]) in
           Inr (map (\<lambda>(index, batch).
             chunk\<lparr>line_ids := batch,
                   target_line_ids := Some (filter (\<lambda>l. l \<in> set (targets chunk)) batch),
                   chunk_id := chunk_id chunk @ ''#img'' @ dec index\<rparr>) (enumerate 0 all))))"

fun split_for_image_cap ::
  "(ident, line_manifest) dict \<Rightarrow> work_item list \<Rightarrow> exn + work_item list" where
  "split_for_image_cap by_id [] = Inr []"
| "split_for_image_cap by_id ((chunk, producer) # rest) =
     (case (case image_cap producer of
              None \<Rightarrow> Inr [chunk]
            | Some cap \<Rightarrow>
                if int (length (line_ids chunk)) \<le> cap then Inr [chunk]
                else split_chunk by_id (units_visible_on_page (map snd by_id)) cap chunk) of
        Inl e \<Rightarrow> Inl e
      | Inr cs \<Rightarrow>
          (case split_for_image_cap by_id rest of
             Inl e \<Rightarrow> Inl e | Inr out \<Rightarrow> Inr (map (\<lambda>c. (c, producer)) cs @ out)))"

section \<open>Facts: routing\<close>

definition item_targets :: "work_item list \<Rightarrow> ident list" where
  "item_targets items = concat (map (\<lambda>it. targets (fst it)) items)"

lemma item_targets_simps [simp]:
  "item_targets [] = []" "item_targets (it # items) = targets (fst it) @ item_targets items"
  "item_targets (xs @ ys) = item_targets xs @ item_targets ys"
  "item_targets (map (\<lambda>c. (c, p)) cs) = concat (map targets cs)"
  by (simp_all add: item_targets_def comp_def)

lemma mset_filter_split: "mset (filter (\<lambda>x. \<not> P x) xs) + mset (filter P xs) = mset xs"
  by (induction xs) simp_all

lemma work_items_of_targets:
  "mset (item_targets (work_items_of skip escalate producer esc chunk)) =
     mset (filter (\<lambda>t. t \<notin> set skip) (targets chunk))"
proof -
  define remaining where "remaining = filter (\<lambda>t. t \<notin> set skip) (targets chunk)"
  have "item_targets (work_items_of skip escalate producer esc chunk) =
      filter (\<lambda>t. t \<notin> set escalate) remaining @ filter (\<lambda>t. t \<in> set escalate) remaining"
    unfolding work_items_of_def Let_def remaining_def [symmetric] by (simp add: targets_def)
  then show ?thesis
    using mset_filter_split [of "\<lambda>t. t \<in> set escalate" remaining] by (simp add: remaining_def [symmetric])
qed

lemma work_items_targets:
  "mset (item_targets (work_items cs skip escalate producer esc)) =
     filter_mset (\<lambda>t. t \<notin> set skip) (mset (concat (map targets cs)))"
proof (induction cs)
  case (Cons c cs)
  have "work_items (c # cs) skip escalate producer esc =
      work_items_of skip escalate producer esc c @ work_items cs skip escalate producer esc"
    by (simp add: work_items_def)
  then show ?case using Cons work_items_of_targets [of skip escalate producer esc c] by simp
qed (simp add: work_items_def)

lemma targets_update [simp]:
  "targets (c\<lparr>target_line_ids := Some ts\<rparr>) = ts"
  "targets (c\<lparr>target_line_ids := Some ts, chunk_id := i\<rparr>) = ts"
  "targets (c\<lparr>line_ids := ls, target_line_ids := Some ts, chunk_id := i\<rparr>) = ts"
  by (simp_all add: targets_def)

lemma work_items_valid:
  assumes "list_all valid_chunk cs" "(c, p) \<in> set (work_items cs skip escalate producer esc)"
  shows "valid_chunk c \<and> (\<exists>c0 \<in> set cs. line_ids c = line_ids c0) \<and> set (targets c) \<inter> set skip = {} \<and>
    targets c \<noteq> []"
proof -
  from assms(2) obtain c0 where c0: "c0 \<in> set cs" "(c, p) \<in> set (work_items_of skip escalate producer esc c0)"
    by (auto simp: work_items_def)
  with assms(1) have "set (targets c0) \<subseteq> set (line_ids c0)" by (auto simp: list_all_iff dest: targets_subset)
  moreover define remaining where "remaining = filter (\<lambda>t. t \<notin> set skip) (targets c0)"
  moreover have "(targets c = filter (\<lambda>t. t \<notin> set escalate) remaining \<or>
      targets c = filter (\<lambda>t. t \<in> set escalate) remaining) \<and> line_ids c = line_ids c0 \<and> targets c \<noteq> []"
    using c0(2) unfolding work_items_of_def Let_def remaining_def [symmetric] by (auto split: if_splits)
  ultimately have "set (targets c) \<subseteq> set (line_ids c) - set skip \<and> line_ids c = line_ids c0 \<and> targets c \<noteq> []"
    by auto
  then show ?thesis using c0(1) by (auto simp: valid_chunk_def targets_def split: option.splits)
qed

section \<open>Facts: batching\<close>

lemma unit_spread:
  "map_of (spread_unit ms d) l = (if l \<in> set ms then Some ms else map_of d l)"
proof -
  have "map_of (foldl (\<lambda>d l. dict_set l us d) d ms) l = (if l \<in> set ms then Some us else map_of d l)"
    for us ms :: "ident list" and d
    by (induction ms arbitrary: d) auto
  then show ?thesis by (simp add: spread_unit_def)
qed

lemma visible_unit_self: "map_of (units_visible_on_page ls) l = Some un \<Longrightarrow> l \<in> set un"
proof -
  have "map_of (foldl (\<lambda>units g.
         (let members = remdups (filter (\<lambda>l. l \<in> line_id ` set ls) (map ref_line_id (hg_members g)))
          in if length members < 2 then units else spread_unit members units)) [] gs) l = Some un \<Longrightarrow>
      l \<in> set un" for gs
  proof (induction gs rule: rev_induct)
    case (snoc g gs)
    define ms where "ms = remdups (filter (\<lambda>l. l \<in> line_id ` set ls) (map ref_line_id (hg_members g)))"
    from snoc show ?case
      by (cases "length ms < 2") (simp_all add: Let_def ms_def [symmetric] unit_spread split: if_splits)
  qed simp
  then show "map_of (units_visible_on_page ls) l = Some un \<Longrightarrow> l \<in> set un"
    unfolding units_visible_on_page_def by blast
qed

text \<open>What the loop keeps: nothing twice, within the cap, inside the chunk, and every target it has
  passed placed.\<close>

definition batches_ok :: "int \<Rightarrow> chunk_request \<Rightarrow> batching \<Rightarrow> ident list \<Rightarrow> bool" where
  "batches_ok cap chunk st seen \<longleftrightarrow>
     (let (batches, current, assigned) = st in
      mset assigned = mset (concat batches @ current) \<and> distinct assigned \<and>
      set assigned \<subseteq> set (line_ids chunk) \<and>
      list_all (\<lambda>b. b \<noteq> [] \<and> int (length b) \<le> cap) batches \<and> (current = [] \<or> int (length current) \<le> cap) \<and>
      set seen \<inter> set (targets chunk) \<subseteq> set assigned)"

lemma unit_members_facts:
  fixes by_id :: "(ident, line_manifest) dict" and ls :: "line_manifest list"
  assumes "distinct (line_ids chunk)" "lid \<in> set (line_ids chunk)" "lid \<notin> set assigned"
  defines "ms \<equiv> unit_members by_id (units_visible_on_page ls) (line_ids chunk) assigned lid"
  shows "distinct ms" "set ms \<subseteq> set (line_ids chunk)" "lid \<in> set ms" "set ms \<inter> set assigned = {}"
proof -
  show "distinct ms" "set ms \<subseteq> set (line_ids chunk)"
    using assms(1) by (auto simp: ms_def unit_members_def split: option.splits if_splits)
  show "lid \<in> set ms" "set ms \<inter> set assigned = {}"
    using assms(2,3) visible_unit_self
    by (auto simp: ms_def unit_members_def split: option.splits if_splits)
qed

lemma batch_line_ok:
  assumes "batches_ok cap chunk st seen" "distinct (line_ids chunk)" "lid \<in> set (line_ids chunk)"
    and "batch_line by_id (units_visible_on_page ls) cap chunk st lid = Inr st'"
  shows "batches_ok cap chunk st' (seen @ [lid])"
proof -
  obtain bs cur asg where st: "st = (bs, cur, asg)" by (metis prod_cases3)
  show ?thesis
  proof (cases "lid \<in> set asg \<or> lid \<notin> set (targets chunk)")
    case True
    with assms(1,4) show ?thesis by (auto simp: batch_line_def st batches_ok_def)
  next
    case False
    let ?ms = "unit_members by_id (units_visible_on_page ls) (line_ids chunk) asg lid"
    have nf: "lid \<notin> set asg" using False by simp
    note ms = unit_members_facts [OF assms(2,3) nf, of by_id ls]
    have small: "int (length ?ms) \<le> cap"
      and st': "st' = (if cur \<noteq> [] \<and> int (length cur + length ?ms) > cap
        then (bs @ [cur], ?ms, asg @ ?ms) else (bs, cur @ ?ms, asg @ ?ms))"
      using assms(4) False by (auto simp: batch_line_def st Let_def split: if_splits)
    show ?thesis
      using assms(1) ms small unfolding st' batches_ok_def st Let_def prod.case
      by (auto split: if_splits)
  qed
qed

lemma batch_lines_ok:
  assumes "batch_lines by_id (units_visible_on_page ls) cap chunk st lids = Inr st'"
    and "batches_ok cap chunk st seen" "distinct (line_ids chunk)" "set lids \<subseteq> set (line_ids chunk)"
  shows "batches_ok cap chunk st' (seen @ lids)"
  using assms
proof (induction lids arbitrary: st seen)
  case (Cons lid lids)
  then obtain st1 where st1: "batch_line by_id (units_visible_on_page ls) cap chunk st lid = Inr st1"
    "batch_lines by_id (units_visible_on_page ls) cap chunk st1 lids = Inr st'"
    by (auto split: sum.splits)
  have "batches_ok cap chunk st1 (seen @ [lid])"
    by (rule batch_line_ok [OF Cons.prems(2,3) _ st1(1)]) (use Cons.prems(4) in simp)
  from Cons.IH [OF st1(2) this Cons.prems(3)] Cons.prems(4) show ?case by simp
qed simp

lemma split_chunk_spec:
  assumes "split_chunk by_id (units_visible_on_page ls) cap chunk = Inr cs"
    and "distinct (line_ids chunk)" "distinct (targets chunk)" "valid_chunk chunk"
  shows "mset (concat (map targets cs)) = mset (targets chunk) \<and>
    list_all (\<lambda>c. int (length (line_ids c)) \<le> cap \<and> valid_chunk c \<and> distinct (line_ids c) \<and>
      set (line_ids c) \<subseteq> set (line_ids chunk)) cs"
proof -
  from assms(1) obtain bs cur asg where
    b: "batch_lines by_id (units_visible_on_page ls) cap chunk ([], [], []) (line_ids chunk) = Inr (bs, cur, asg)"
    by (auto simp: split_chunk_def split: sum.splits)
  define all where "all = (if cur = [] then bs else bs @ [cur])"
  let ?mk = "\<lambda>(index, batch). chunk\<lparr>line_ids := batch,
    target_line_ids := Some (filter (\<lambda>l. l \<in> set (targets chunk)) batch),
    chunk_id := chunk_id chunk @ ''#img'' @ dec index\<rparr>"
  have cs: "cs = map ?mk (enumerate 0 all)" using assms(1) by (simp add: split_chunk_def b all_def)
  have "batches_ok cap chunk ([], [], []) []" by (simp add: batches_ok_def)
  from batch_lines_ok [OF b this assms(2)] have ok: "batches_ok cap chunk (bs, cur, asg) (line_ids chunk)" by simp
  have ca: "concat all = concat bs @ cur" by (simp add: all_def)
  have facts: "mset asg = mset (concat all)" "distinct asg" "set asg \<subseteq> set (line_ids chunk)"
    "list_all (\<lambda>b. int (length b) \<le> cap) all" "set (line_ids chunk) \<inter> set (targets chunk) \<subseteq> set asg"
    using ok unfolding batches_ok_def Let_def prod.case ca by (auto simp: all_def list_all_iff)
  have dis: "distinct (concat all)" using facts(1,2) by (metis mset_eq_imp_distinct_iff)
  have sub: "set (targets chunk) \<subseteq> set (concat all)"
    using facts(1,5) targets_subset [OF assms(4)] by (metis Int_absorb1 set_mset_mset)
  have "concat (map targets cs) = filter (\<lambda>l. l \<in> set (targets chunk)) (concat all)"
  proof -
    have "map targets cs = map (filter (\<lambda>l. l \<in> set (targets chunk))) all"
      unfolding cs by (rule nth_equalityI) (simp_all add: nth_enumerate_eq targets_def)
    then show ?thesis by (simp add: filter_concat)
  qed
  moreover have "mset (filter (\<lambda>l. l \<in> set (targets chunk)) (concat all)) = mset (targets chunk)"
    by (rule set_eq_iff_mset_eq_distinct [THEN iffD1]) (use dis sub assms(3) in auto)
  moreover have "list_all (\<lambda>c. int (length (line_ids c)) \<le> cap \<and> valid_chunk c \<and> distinct (line_ids c) \<and>
      set (line_ids c) \<subseteq> set (line_ids chunk)) cs"
  proof -
    have "int (length b) \<le> cap \<and> distinct b \<and> set b \<subseteq> set (line_ids chunk)" if "b \<in> set all" for b
    proof -
      have "set b \<subseteq> set asg" using that facts(1) by (metis UN_upper set_concat set_mset_mset)
      moreover have "distinct b" using that dis distinct_concat_iff by blast
      ultimately show ?thesis using that facts(3,4) by (auto simp: list_all_iff)
    qed
    moreover have "snd e \<in> set all" if "e \<in> set (enumerate 0 all)" for e
    proof -
      from that have "fst e < length all" "all ! fst e = snd e" by (simp_all add: in_set_enumerate_eq)
      then show ?thesis using nth_mem by fastforce
    qed
    ultimately show ?thesis unfolding cs
      by (auto simp: list_all_iff valid_chunk_def split_beta)
  qed
  ultimately show ?thesis by simp
qed

definition item_ok :: "work_item \<Rightarrow> bool" where
  "item_ok it \<longleftrightarrow> distinct (line_ids (fst it)) \<and> distinct (targets (fst it)) \<and> valid_chunk (fst it)"

lemma split_for_image_cap_spec:
  assumes "split_for_image_cap by_id items = Inr out" "list_all item_ok items"
  shows "mset (item_targets out) = mset (item_targets items) \<and>
    list_all (\<lambda>(c, p). (case image_cap p of None \<Rightarrow> True | Some cap \<Rightarrow> int (length (line_ids c)) \<le> cap) \<and>
      valid_chunk c \<and> distinct (line_ids c)) out"
  using assms
proof (induction items arbitrary: out)
  case (Cons it items)
  obtain chunk producer where it: "it = (chunk, producer)" by fastforce
  define step where "step = (case image_cap producer of
              None \<Rightarrow> Inr [chunk]
            | Some cap \<Rightarrow>
                if int (length (line_ids chunk)) \<le> cap then Inr [chunk]
                else split_chunk by_id (units_visible_on_page (map snd by_id)) cap chunk)"
  from Cons.prems(1) obtain cs out' where
    s: "step = Inr cs" "split_for_image_cap by_id items = Inr out'" "out = map (\<lambda>c. (c, producer)) cs @ out'"
    by (auto simp: it step_def [symmetric] split: sum.splits)
  have ok: "distinct (line_ids chunk)" "distinct (targets chunk)" "valid_chunk chunk"
    using Cons.prems(2) by (simp_all add: it item_ok_def)
  have cs: "mset (concat (map targets cs)) = mset (targets chunk) \<and>
      list_all (\<lambda>c. (case image_cap producer of None \<Rightarrow> True | Some cap \<Rightarrow> int (length (line_ids c)) \<le> cap) \<and>
        valid_chunk c \<and> distinct (line_ids c)) cs"
  proof (cases "image_cap producer")
    case None
    with s(1) ok show ?thesis by (auto simp: step_def)
  next
    case (Some cap)
    show ?thesis
    proof (cases "int (length (line_ids chunk)) \<le> cap")
      case True
      with s(1) Some ok show ?thesis by (auto simp: step_def)
    next
      case False
      with s(1) Some have "split_chunk by_id (units_visible_on_page (map snd by_id)) cap chunk = Inr cs"
        by (simp add: step_def)
      from split_chunk_spec [OF this ok] Some show ?thesis by (simp add: list_all_iff)
    qed
  qed
  from Cons.IH [OF s(2)] Cons.prems(2) cs show ?case
    by (auto simp: s(3) it list_all_iff)
qed simp

lemma route_line_cases:
  assumes "valid_routing_policy p"
  shows "route_line qe p = SKIP \<longleftrightarrow> (\<exists>lo. skip_at_or_below p = Some lo \<and> qe \<le> lo)"
    "route_line qe p = ESCALATE \<longleftrightarrow> (\<exists>hi. escalate_at_or_above p = Some hi \<and> hi \<le> qe)"
  using assms by (auto simp: route_line_def valid_routing_policy_def split: option.splits if_splits)

section \<open>Properties\<close>

text \<open>Routing gives every target of the plan to exactly one producer call, except the skipped
  ones, which reach none; every call has a target, keeps the lines of its chunk as context and has
  its targets among them.\<close>

theorem work_items_partition:
  assumes "list_all valid_chunk cs"
  shows "mset (concat (map (\<lambda>it. targets (fst it)) (work_items cs skip escalate producer esc))) =
      filter_mset (\<lambda>t. t \<notin> set skip) (mset (concat (map targets cs))) \<and>
    list_all (\<lambda>it. valid_chunk (fst it) \<and> targets (fst it) \<noteq> [] \<and>
        list_ex (\<lambda>c0. line_ids (fst it) = line_ids c0) cs)
      (work_items cs skip escalate producer esc)"
  using work_items_targets [of cs skip escalate producer esc, unfolded item_targets_def]
    work_items_valid [OF assms] by (auto simp: list_all_iff list_ex_iff)

definition text_producer :: edit_producer where
  "text_producer = \<lparr>wants_geometry = False, wants_image = False, requires_full_coverage = True,
     capabilities = None, produce = (\<lambda>n req a t. Inl (Exn C_ProviderTransientError ''busy''))\<rparr>"

definition vision_producer :: edit_producer where
  "vision_producer = text_producer\<lparr>wants_image := True,
     capabilities := Some \<lparr>cap_text = True, cap_vision = True, cap_structured_output = True,
                           cap_max_images = Some 2\<rparr>\<rparr>"

definition demo_chunk :: chunk_request where
  "demo_chunk = make_chunk ''c'' ''D'' ''P'' PAGE [''a'', ''b'', ''x''] None None"

lemma work_items_partition_witness:
  "mset (concat (map (\<lambda>it. targets (fst it)) (work_items [demo_chunk] [''x''] [''a''] text_producer vision_producer))) =
     {#''a'', ''b''#}"
  using work_items_partition [of "[demo_chunk]" "[''x'']" "[''a'']" text_producer vision_producer]
  by (simp add: demo_chunk_def make_chunk_def valid_chunk_def targets_def)

text \<open>C31: splitting for the image cap keeps every target in exactly one call, and no call to a
  producer with a cap carries more lines than it.\<close>

theorem image_cap_respected:
  assumes "split_for_image_cap by_id items = Inr out"
    and "list_all (\<lambda>it. distinct (line_ids (fst it)) \<and> distinct (targets (fst it)) \<and> valid_chunk (fst it)) items"
  shows "mset (concat (map (\<lambda>it. targets (fst it)) out)) = mset (concat (map (\<lambda>it. targets (fst it)) items)) \<and>
    list_all (\<lambda>(c, p). (case image_cap p of None \<Rightarrow> True | Some cap \<Rightarrow> int (length (line_ids c)) \<le> cap) \<and>
      valid_chunk c) out"
proof -
  have "list_all item_ok items" using assms(2) by (simp add: list_all_iff item_ok_def)
  from split_for_image_cap_spec [OF assms(1) this] show ?thesis by (auto simp: item_targets_def list_all_iff)
qed

lemma demo_split:
  "map (\<lambda>it. line_ids (fst it)) (case split_for_image_cap
      (map (\<lambda>lm. (line_id lm, lm)) [demo_tail, demo_head, plain_line ''P'' ''x'' 2 (tx ''q'')])
      [(demo_chunk, vision_producer)] of Inl e \<Rightarrow> [] | Inr out \<Rightarrow> out) = [[''a'', ''b''], [''x'']]"
  by code_simp

lemma image_cap_respected_witness:
  "\<exists>out. split_for_image_cap (map (\<lambda>lm. (line_id lm, lm)) [demo_tail, demo_head, plain_line ''P'' ''x'' 2 (tx ''q'')])
      [(demo_chunk, vision_producer)] = Inr out \<and>
     mset (concat (map (\<lambda>it. targets (fst it)) out)) = {#''a'', ''b'', ''x''#}"
proof (cases "split_for_image_cap
    (map (\<lambda>lm. (line_id lm, lm)) [demo_tail, demo_head, plain_line ''P'' ''x'' 2 (tx ''q'')])
    [(demo_chunk, vision_producer)]")
  case (Inl e)
  with demo_split show ?thesis by simp
next
  case (Inr out)
  have ok: "list_all (\<lambda>it. distinct (line_ids (fst it)) \<and> distinct (targets (fst it)) \<and> valid_chunk (fst it))
      [(demo_chunk, vision_producer)]"
    by (simp add: demo_chunk_def make_chunk_def valid_chunk_def targets_def)
  from conjunct1 [OF image_cap_respected [OF Inr ok]] Inr show ?thesis
    by (simp add: demo_chunk_def make_chunk_def targets_def)
qed

end
