(* ===== verification/Validator.thy ===== *)
theory Validator
  imports Pairing
begin

text \<open>
  \<open>core/validator.py\<close>: the check of a producer's structured answer against the lines it was
  asked for. The answer is a JSON value (\<open>json\<close>); the result is the typed batch or the
  exception that is raised.

  Facts: an accepted batch names expected lines only, each once, covers every required line,
  and holds one visible line of text per entry unless the source was blank; every hyphen pair
  inside the required lines passed the drift checks.
\<close>

section \<open>JSON values\<close>

datatype json =
    JNull
  | JBool bool
  | JNumber rat
  | JString ptext
  | JArray "json list"
  | JObject "(ptext \<times> json) list"

fun json_truthy :: "json \<Rightarrow> bool" where
  "json_truthy JNull = False"
| "json_truthy (JBool b) = b"
| "json_truthy (JNumber n) = (n \<noteq> 0)"
| "json_truthy (JString s) = (s \<noteq> [])"
| "json_truthy (JArray xs) = (xs \<noteq> [])"
| "json_truthy (JObject kvs) = (kvs \<noteq> [])"

text \<open>\<open>d.get(key)\<close>\<close>

definition json_get :: "(ptext \<times> json) list \<Rightarrow> string \<Rightarrow> json" where
  "json_get kvs key = (case map_of kvs (tx key) of None \<Rightarrow> JNull | Some v \<Rightarrow> v)"

text \<open>\<open>hash(v)\<close> is defined: lists and dictionaries have none.\<close>

fun hashable :: "json \<Rightarrow> bool" where
  "hashable (JArray xs) = False"
| "hashable (JObject kvs) = False"
| "hashable _ = True"

section \<open>The batch\<close>

record line_proposal =
  lp_line_id :: ident
  lp_corrected_text :: ptext

definition invalid :: "string \<Rightarrow> exn" where
  "invalid msg = Exn C_ProposalValidationError msg"

definition hyphen_violation :: exn where
  "hyphen_violation = Exn C_HyphenIntegrityError ''hyphen_integrity_violation''"

definition checked_text ::
  "ident \<Rightarrow> json \<Rightarrow> (ident, ptext) dict option \<Rightarrow> exn + ptext" where
  "checked_text lid corrected ocr_texts =
     (case corrected of
        JString s \<Rightarrow>
          if py_strip s \<noteq> [] then Inr s
          else if (case ocr_texts of None \<Rightarrow> False
                   | Some d \<Rightarrow> (case map_of d lid of None \<Rightarrow> False | Some t \<Rightarrow> py_strip t = []))
          then Inr [] else Inl (invalid ''corrected_text is empty or missing'')
      | _ \<Rightarrow>
          if (case ocr_texts of None \<Rightarrow> False
              | Some d \<Rightarrow> (case map_of d lid of None \<Rightarrow> False | Some t \<Rightarrow> py_strip t = []))
          then Inr [] else Inl (invalid ''corrected_text is empty or missing''))"

text \<open>The expected id that a JSON value spells, if any: strings equal strings only.\<close>

definition expected_id :: "ident list \<Rightarrow> json \<Rightarrow> ident option" where
  "expected_id expected v =
     (case v of JString s \<Rightarrow> List.find (\<lambda>i. tx i = s) expected | _ \<Rightarrow> None)"

text \<open>The loop over the entries, with the ids seen so far. Hashing a list or a dictionary for
  the membership test raises a \<open>TypeError\<close>.\<close>

fun check_entries ::
  "ident list \<Rightarrow> (ident, ptext) dict option \<Rightarrow> ident list \<Rightarrow> json list \<Rightarrow> exn + line_proposal list" where
  "check_entries expected ocr_texts seen [] = Inr []"
| "check_entries expected ocr_texts seen (entry # rest) =
     (case entry of
        JObject kvs \<Rightarrow>
          (let v = json_get kvs ''line_id'' in
           if \<not> json_truthy v then Inl (invalid ''Entry missing line_id'')
           else if \<not> hashable v then Inl (Exn C_OtherException ''unhashable type'')
           else (case expected_id expected v of
              None \<Rightarrow> Inl (invalid ''Unknown line_id in response'')
            | Some lid \<Rightarrow>
                if lid \<in> set seen then Inl (invalid ''Duplicate line_id in response'')
                else (case checked_text lid (json_get kvs ''corrected_text'') ocr_texts of
                   Inl e \<Rightarrow> Inl e
                 | Inr t \<Rightarrow>
                     if has_line_separator t
                     then Inl (invalid ''corrected_text contains a line separator'')
                     else (case check_entries expected ocr_texts (lid # seen) rest of
                        Inl e \<Rightarrow> Inl e
                      | Inr ps \<Rightarrow> Inr (\<lparr>lp_line_id = lid, lp_corrected_text = t\<rparr> # ps)))))
      | _ \<Rightarrow> Inl (invalid ''Each line entry must be a dict''))"

section \<open>Hyphen integrity\<close>

definition check_pair_drift ::
  "ptext \<Rightarrow> ptext \<Rightarrow> ptext \<Rightarrow> ptext \<Rightarrow> guard_config \<Rightarrow> exn + unit" where
  "check_pair_drift text_a text_b ocr_a ocr_b cfg =
     (let ocr_a_wc = int (length (py_split ocr_a)); ocr_b_wc = int (length (py_split ocr_b));
          cor_a_wc = int (length (py_split text_a)); cor_b_wc = int (length (py_split text_b))
      in
      if cor_a_wc > ocr_a_wc + pair_drift_part1_word_growth cfg then Inl hyphen_violation
      else if ocr_b_wc \<ge> pair_drift_part2_min_words cfg \<and>
        of_int cor_b_wc < of_int ocr_b_wc * pair_drift_part2_collapse_ratio cfg
      then Inl hyphen_violation
      else Inr ())"

definition text_of :: "(ident, ptext) dict \<Rightarrow> ident \<Rightarrow> ptext" where
  "text_of d i = (case map_of d i of None \<Rightarrow> [] | Some t \<Rightarrow> t)"

text \<open>\<open>frozenset\<close> equality of two-element sets.\<close>

definition same_pair :: "ident \<times> ident \<Rightarrow> ident \<times> ident \<Rightarrow> bool" where
  "same_pair p q \<longleftrightarrow> p = q \<or> p = (snd q, fst q)"

fun check_pairs ::
  "(ident, ptext) dict \<Rightarrow> ident list \<Rightarrow> (ident, ptext) dict \<Rightarrow> guard_config \<Rightarrow>
   (ident \<times> ident) list \<Rightarrow> (ident \<times> ident) list \<Rightarrow> exn + unit" where
  "check_pairs texts chunk_ids ocr_texts cfg checked [] = Inr ()"
| "check_pairs texts chunk_ids ocr_texts cfg checked ((id_a, id_b) # rest) =
     (if list_ex (same_pair (id_a, id_b)) checked
      then check_pairs texts chunk_ids ocr_texts cfg checked rest
      else if id_a \<notin> set chunk_ids \<or> id_b \<notin> set chunk_ids
      then check_pairs texts chunk_ids ocr_texts cfg checked rest
      else
        (let text_a = text_of texts id_a; text_b = text_of texts id_b;
             ocr_a = text_of ocr_texts id_a; ocr_b = text_of ocr_texts id_b
         in
         if text_a = [] then Inl hyphen_violation
         else if text_b = [] then Inl hyphen_violation
         else (case (if ocr_a \<noteq> [] \<and> ocr_b \<noteq> []
                     then check_pair_drift text_a text_b ocr_a ocr_b cfg else Inr ()) of
            Inl e \<Rightarrow> Inl e
          | Inr _ \<Rightarrow> check_pairs texts chunk_ids ocr_texts cfg ((id_a, id_b) # checked) rest)))"

definition fused ::
  "unicode \<Rightarrow> (ident, ptext) dict \<Rightarrow> ident list \<Rightarrow> (ident, ptext) dict \<Rightarrow> ident \<Rightarrow> ptext \<Rightarrow> bool" where
  "fused u texts chunk_ids ocr_texts part1_id subs =
     (if part1_id \<notin> set chunk_ids then False
      else if subs = [] \<or> part1_id \<notin> fst ` set texts then False
      else
        (let part1_words = py_split (strip_trailing_break_marks (py_rstrip (text_of texts part1_id)))
         in
         if part1_words = [] then False
         else if ncfold u (last part1_words) \<noteq> ncfold u subs then False
         else
           (let ocr_words = py_split (strip_trailing_break_marks (py_rstrip (text_of ocr_texts part1_id)))
            in if ocr_words \<noteq> [] \<and> ncfold u (last ocr_words) = ncfold u subs then False else True)))"

definition validate_hyphen_integrity ::
  "unicode \<Rightarrow> (ident, ptext) dict \<Rightarrow> (ident, ident) dict \<Rightarrow> ident list \<Rightarrow> (ident, ptext) dict \<Rightarrow>
   (ident, ptext) dict \<Rightarrow> guard_config \<Rightarrow> exn + unit" where
  "validate_hyphen_integrity u texts pairs chunk_ids ocr_texts subs cfg =
     (case check_pairs texts chunk_ids ocr_texts cfg [] pairs of
        Inl e \<Rightarrow> Inl e
      | Inr _ \<Rightarrow>
          if list_ex (\<lambda>(i, s). fused u texts chunk_ids ocr_texts i s) subs
          then Inl hyphen_violation else Inr ())"

section \<open>The whole answer\<close>

definition validate_llm_response ::
  "unicode \<Rightarrow> json \<Rightarrow> ident list \<Rightarrow> (ident, ident) dict option \<Rightarrow> (ident, ptext) dict option \<Rightarrow>
   (ident, ptext) dict option \<Rightarrow> guard_config \<Rightarrow> ident list option \<Rightarrow> exn + line_proposal list" where
  "validate_llm_response u raw expected hyphen_pairs ocr_texts hyphen_subs cfg target_ids =
     (case raw of
        JObject kvs \<Rightarrow>
          (case map_of kvs (tx ''lines'') of
             None \<Rightarrow> Inl (invalid ''Missing key lines in LLM response'')
           | Some (JArray lines_raw) \<Rightarrow>
               (let check_set = (case target_ids of None \<Rightarrow> expected | Some ts \<Rightarrow> ts) in
                if (case target_ids of None \<Rightarrow> length lines_raw \<noteq> length expected
                    | Some _ \<Rightarrow> length lines_raw > length expected)
                then Inl (invalid ''Line count mismatch'')
                else (case check_entries expected ocr_texts [] lines_raw of
                   Inl e \<Rightarrow> Inl e
                 | Inr outputs \<Rightarrow>
                     if set check_set - set (map lp_line_id outputs) \<noteq> {}
                     then Inl (invalid ''Missing line_ids in response'')
                     else (case hyphen_pairs of
                        None \<Rightarrow> Inr outputs
                      | Some pairs \<Rightarrow>
                          if pairs = [] then Inr outputs
                          else (case validate_hyphen_integrity u
                                  (map (\<lambda>p. (lp_line_id p, lp_corrected_text p)) outputs) pairs
                                  check_set
                                  (case ocr_texts of None \<Rightarrow> [] | Some d \<Rightarrow> d)
                                  (case hyphen_subs of None \<Rightarrow> [] | Some d \<Rightarrow> d) cfg of
                             Inl e \<Rightarrow> Inl e
                           | Inr _ \<Rightarrow> Inr outputs))))
           | Some _ \<Rightarrow> Inl (invalid ''lines must be a list''))
      | _ \<Rightarrow> Inl (invalid ''LLM response is not a JSON object''))"

section \<open>Facts\<close>

text \<open>One proposed text that may stand for a line.\<close>

definition proposal_ok :: "(ident, ptext) dict option \<Rightarrow> line_proposal \<Rightarrow> bool" where
  "proposal_ok ocr_texts p \<longleftrightarrow>
     \<not> has_line_separator (lp_corrected_text p) \<and>
     (py_strip (lp_corrected_text p) = [] \<longrightarrow>
        lp_corrected_text p = [] \<and>
        (\<exists>d t. ocr_texts = Some d \<and> map_of d (lp_line_id p) = Some t \<and> py_strip t = []))"

lemma checked_text_ok:
  assumes "checked_text lid v ocr_texts = Inr t" "\<not> has_line_separator t"
  shows "proposal_ok ocr_texts \<lparr>lp_line_id = lid, lp_corrected_text = t\<rparr>"
  using assms
  by (auto simp: checked_text_def proposal_ok_def py_strip_Nil_iff
      split: json.splits if_splits option.splits)

lemma expected_id_mem: "expected_id expected v = Some lid \<Longrightarrow> lid \<in> set expected"
  by (auto simp: expected_id_def split: json.splits dest: find_SomeD)

lemma check_entries_ok:
  "check_entries expected ocr_texts seen entries = Inr ps \<Longrightarrow>
   distinct (map lp_line_id ps) \<and> set (map lp_line_id ps) \<subseteq> set expected \<and>
   set (map lp_line_id ps) \<inter> set seen = {} \<and> length ps = length entries \<and>
   list_all (proposal_ok ocr_texts) ps"
proof (induction entries arbitrary: seen ps)
  case (Cons entry rest)
  from Cons.prems obtain kvs lid t ps' where
    "entry = JObject kvs" and
    lid: "expected_id expected (json_get kvs ''line_id'') = Some lid" "lid \<notin> set seen" and
    t: "checked_text lid (json_get kvs ''corrected_text'') ocr_texts = Inr t"
      "\<not> has_line_separator t" and
    rest: "check_entries expected ocr_texts (lid # seen) rest = Inr ps'"
      "ps = \<lparr>lp_line_id = lid, lp_corrected_text = t\<rparr> # ps'"
    by (auto simp: Let_def split: json.splits if_splits option.splits sum.splits)
  from Cons.IH [OF rest(1)] lid expected_id_mem [OF lid(1)] checked_text_ok [OF t] rest(2)
  show ?case by auto
qed simp

text \<open>The proposal a JSON entry stands for: its line id and its text, or no text where the answer has none
  worth keeping.\<close>

definition proposal_answers :: "line_proposal \<Rightarrow> json \<Rightarrow> bool" where
  "proposal_answers p entry \<longleftrightarrow>
     (\<exists>kvs. entry = JObject kvs \<and> map_of kvs (tx ''line_id'') = Some (JString (tx (lp_line_id p))) \<and>
        (lp_corrected_text p = [] \<or>
         map_of kvs (tx ''corrected_text'') = Some (JString (lp_corrected_text p))))"

lemma expected_id_string:
  "expected_id expected (json_get kvs key) = Some lid \<Longrightarrow> map_of kvs (tx key) = Some (JString (tx lid))"
  by (auto simp: expected_id_def json_get_def split: json.splits option.splits dest: find_SomeD)

lemma checked_text_string:
  "checked_text lid (json_get kvs key) ocr_texts = Inr t \<Longrightarrow>
   t = [] \<or> map_of kvs (tx key) = Some (JString t)"
  by (auto simp: checked_text_def json_get_def split: json.splits option.splits if_splits)

lemma check_entries_answer:
  "check_entries expected ocr_texts seen entries = Inr ps \<Longrightarrow> list_all2 proposal_answers ps entries"
proof (induction entries arbitrary: seen ps)
  case (Cons entry rest)
  from Cons.prems obtain kvs lid t ps' where
    e: "entry = JObject kvs" "expected_id expected (json_get kvs ''line_id'') = Some lid"
      "checked_text lid (json_get kvs ''corrected_text'') ocr_texts = Inr t" and
    rest: "check_entries expected ocr_texts (lid # seen) rest = Inr ps'"
      "ps = \<lparr>lp_line_id = lid, lp_corrected_text = t\<rparr> # ps'"
    by (auto simp: Let_def split: json.splits if_splits option.splits sum.splits)
  from e expected_id_string [OF e(2)] checked_text_string [OF e(3)]
  have "proposal_answers \<lparr>lp_line_id = lid, lp_corrected_text = t\<rparr> entry"
    by (simp add: proposal_answers_def)
  with Cons.IH [OF rest(1)] rest(2) show ?case by simp
qed simp

text \<open>As many distinct ids as expected, and all of them: each expected id once.\<close>

lemma covers_once:
  assumes "distinct xs" "set xs = set ys" "length xs = length ys"
  shows "mset xs = mset ys"
proof -
  have "card (set ys) = length ys" using assms distinct_card by metis
  then have "distinct ys" by (rule card_distinct)
  with assms(1,2) show ?thesis by (simp add: set_eq_iff_mset_eq_distinct)
qed

text \<open>A pair that passed: neither side erased, and no drift in the order it was checked.\<close>

definition pair_sound ::
  "(ident, ptext) dict \<Rightarrow> (ident, ptext) dict \<Rightarrow> guard_config \<Rightarrow> ident \<times> ident \<Rightarrow> bool" where
  "pair_sound texts ocr_texts cfg p \<longleftrightarrow>
     text_of texts (fst p) \<noteq> [] \<and> text_of texts (snd p) \<noteq> [] \<and>
     (text_of ocr_texts (fst p) \<noteq> [] \<and> text_of ocr_texts (snd p) \<noteq> [] \<longrightarrow>
        check_pair_drift (text_of texts (fst p)) (text_of texts (snd p))
          (text_of ocr_texts (fst p)) (text_of ocr_texts (snd p)) cfg = Inr ())"

lemma check_pairs_sound:
  "\<lbrakk>check_pairs texts ids ocr_texts cfg checked ps = Inr ();
    \<forall>q \<in> set checked. pair_sound texts ocr_texts cfg q\<rbrakk> \<Longrightarrow>
   \<forall>p \<in> set ps. fst p \<in> set ids \<and> snd p \<in> set ids \<longrightarrow>
     (\<exists>q. same_pair p q \<and> pair_sound texts ocr_texts cfg q)"
proof (induction texts ids ocr_texts cfg checked ps rule: check_pairs.induct)
  case (2 texts ids ocr_texts cfg checked a b rest)
  show ?case
  proof (cases "list_ex (same_pair (a, b)) checked")
    case True
    with 2 show ?thesis by (auto simp: list_ex_iff)
  next
    case not_yet: False
    show ?thesis
    proof (cases "a \<notin> set ids \<or> b \<notin> set ids")
      case True
      with 2(2) [OF not_yet True] 2(4,5) not_yet show ?thesis by auto
    next
      case False
      have sound: "pair_sound texts ocr_texts cfg (a, b)"
        and rest: "check_pairs texts ids ocr_texts cfg ((a, b) # checked) rest = Inr ()"
        using 2(4) not_yet False
        by (auto simp: pair_sound_def Let_def split: if_splits sum.splits)
      have "\<forall>p \<in> set rest. fst p \<in> set ids \<and> snd p \<in> set ids \<longrightarrow>
          (\<exists>q. same_pair p q \<and> pair_sound texts ocr_texts cfg q)"
        using 2(3) [OF not_yet False refl refl refl refl] 2(4,5) not_yet False rest sound
        by (auto simp: pair_sound_def Let_def split: if_splits sum.splits)
      with sound show ?thesis by (auto simp: same_pair_def)
    qed
  qed
qed simp

lemma validate_cases:
  assumes "validate_llm_response u raw expected hyphen_pairs ocr_texts hyphen_subs cfg target_ids = Inr batch"
  obtains kvs lines_raw where "raw = JObject kvs" "map_of kvs (tx ''lines'') = Some (JArray lines_raw)"
    "target_ids = None \<longrightarrow> length lines_raw = length expected"
    "check_entries expected ocr_texts [] lines_raw = Inr batch"
    "set (case target_ids of None \<Rightarrow> expected | Some ts \<Rightarrow> ts) \<subseteq> set (map lp_line_id batch)"
    "\<forall>pairs. hyphen_pairs = Some pairs \<and> pairs \<noteq> [] \<longrightarrow>
       validate_hyphen_integrity u (map (\<lambda>p. (lp_line_id p, lp_corrected_text p)) batch) pairs
         (case target_ids of None \<Rightarrow> expected | Some ts \<Rightarrow> ts)
         (case ocr_texts of None \<Rightarrow> [] | Some d \<Rightarrow> d)
         (case hyphen_subs of None \<Rightarrow> [] | Some d \<Rightarrow> d) cfg = Inr ()"
proof -
  from assms obtain kvs lines_raw where 1: "raw = JObject kvs"
    "map_of kvs (tx ''lines'') = Some (JArray lines_raw)"
    by (auto simp: validate_llm_response_def split: json.splits option.splits)
  show thesis
    by (rule that [OF 1]; insert assms 1;
        simp add: validate_llm_response_def Let_def split: option.splits if_splits sum.splits)
qed

section \<open>Properties\<close>

text \<open>C7: A batch that \<open>validate_llm_response\<close> accepts is the answer, entry by entry: the proposals stand
  in the order of the answer's entries (not of the expected ids: a permuted answer is accepted), each with
  the line id of its entry and its text, no entry dropped. The ids are pairwise distinct, none is unknown,
  and every required id (the targets, or all expected ids without a target set) is there; without a target
  set the answer names each expected id exactly once. Every text is one line, blank only for a line whose
  source is itself blank.\<close>

theorem validate_llm_response_sound:
  assumes "validate_llm_response u raw expected hyphen_pairs ocr_texts hyphen_subs cfg target_ids
    = Inr batch"
  shows "(\<exists>kvs entries. raw = JObject kvs \<and> map_of kvs (tx ''lines'') = Some (JArray entries) \<and>
      list_all2 proposal_answers batch entries) \<and>
    distinct (map lp_line_id batch) \<and> set (map lp_line_id batch) \<subseteq> set expected \<and>
    set (case target_ids of None \<Rightarrow> expected | Some ts \<Rightarrow> ts) \<subseteq> set (map lp_line_id batch) \<and>
    list_all (proposal_ok ocr_texts) batch \<and>
    (target_ids = None \<longrightarrow> mset (map lp_line_id batch) = mset expected)"
proof (rule validate_cases [OF assms])
  fix kvs lines_raw
  assume raw: "raw = JObject kvs" "map_of kvs (tx ''lines'') = Some (JArray lines_raw)"
    and count: "target_ids = None \<longrightarrow> length lines_raw = length expected"
    and entries: "check_entries expected ocr_texts [] lines_raw = Inr batch"
    and required: "set (case target_ids of None \<Rightarrow> expected | Some ts \<Rightarrow> ts) \<subseteq> set (map lp_line_id batch)"
  note ok = check_entries_ok [OF entries]
  have "mset (map lp_line_id batch) = mset expected" if "target_ids = None"
    using ok count required that by (intro covers_once) auto
  with ok required raw check_entries_answer [OF entries] show ?thesis by blast
qed

definition demo_answer :: "ptext \<Rightarrow> ptext \<Rightarrow> json" where
  "demo_answer a b = JObject [(tx ''lines'', JArray
     [JObject [(tx ''line_id'', JString (tx ''a'')), (tx ''corrected_text'', JString a)],
      JObject [(tx ''line_id'', JString (tx ''b'')), (tx ''corrected_text'', JString b)]])]"

definition demo_batch :: "line_proposal list" where
  "demo_batch = [\<lparr>lp_line_id = ''a'', lp_corrected_text = tx ''the Ber-''\<rparr>,
                 \<lparr>lp_line_id = ''b'', lp_corrected_text = tx ''lin of''\<rparr>]"

definition demo_ocr :: "(ident, ptext) dict" where
  "demo_ocr = [(''a'', tx ''teh Ber-''), (''b'', tx ''lin ol'')]"

lemma demo_validated:
  "validate_llm_response ascii_unicode (demo_answer (tx ''the Ber-'') (tx ''lin of'')) [''a'', ''b'']
     (Some [(''a'', ''b''), (''b'', ''a'')]) (Some demo_ocr) None DEFAULT_GUARD_CONFIG None
   = Inr demo_batch"
  by code_simp

lemma validate_llm_response_sound_witness:
  "distinct (map lp_line_id demo_batch) \<and> list_all (proposal_ok (Some demo_ocr)) demo_batch"
  using validate_llm_response_sound [OF demo_validated] by simp

text \<open>When an answer is accepted, every hyphen pair whose two lines are both required kept
  text on both sides and passed the word-count drift check in the order the pair was read.\<close>

theorem validated_pairs_sound:
  assumes "validate_llm_response u raw expected (Some pairs) (Some ocr) hyphen_subs cfg target_ids
    = Inr batch"
    and "p \<in> set pairs"
    and "{fst p, snd p} \<subseteq> set (case target_ids of None \<Rightarrow> expected | Some ts \<Rightarrow> ts)"
  shows "\<exists>q. same_pair p q \<and>
    pair_sound (map (\<lambda>p. (lp_line_id p, lp_corrected_text p)) batch) ocr cfg q"
proof -
  from assms(1) have "validate_hyphen_integrity u
      (map (\<lambda>p. (lp_line_id p, lp_corrected_text p)) batch) pairs
      (case target_ids of None \<Rightarrow> expected | Some ts \<Rightarrow> ts) ocr
      (case hyphen_subs of None \<Rightarrow> [] | Some d \<Rightarrow> d) cfg = Inr ()"
    by (cases rule: validate_cases) (use assms(2) in auto)
  then have "check_pairs (map (\<lambda>p. (lp_line_id p, lp_corrected_text p)) batch)
      (case target_ids of None \<Rightarrow> expected | Some ts \<Rightarrow> ts) ocr cfg [] pairs = Inr ()"
    by (auto simp: validate_hyphen_integrity_def split: sum.splits)
  from check_pairs_sound [OF this] assms(2,3) show ?thesis by auto
qed

lemma validated_pairs_sound_witness:
  "\<exists>q. same_pair (''a'', ''b'') q \<and>
     pair_sound (map (\<lambda>p. (lp_line_id p, lp_corrected_text p)) demo_batch) demo_ocr
       DEFAULT_GUARD_CONFIG q"
  by (rule validated_pairs_sound [OF demo_validated]) simp_all

text \<open>An answer may be refused by another exception than the validation error: a line id that is a list or
  an object, after entries that pass, raises a \<open>TypeError\<close>. Inside the engine the answer is
  rebuilt from typed operations, whose ids are strings.\<close>

lemma check_entries_unhashable:
  assumes "json_truthy (json_get kvs ''line_id'')" "\<not> hashable (json_get kvs ''line_id'')"
  shows "check_entries expected ocr_texts seen passed = Inr ps \<Longrightarrow>
    check_entries expected ocr_texts seen (passed @ JObject kvs # rest)
      = Inl (Exn C_OtherException ''unhashable type'')"
proof (induction passed arbitrary: seen ps)
  case Nil
  show ?case using assms by (simp add: Let_def)
next
  case (Cons entry passed)
  then obtain kvs' lid t ps' where
    "entry = JObject kvs'" "json_truthy (json_get kvs' ''line_id'')" "hashable (json_get kvs' ''line_id'')"
    "expected_id expected (json_get kvs' ''line_id'') = Some lid" "lid \<notin> set seen"
    "checked_text lid (json_get kvs' ''corrected_text'') ocr_texts = Inr t" "\<not> has_line_separator t"
    "check_entries expected ocr_texts (lid # seen) passed = Inr ps'"
    by (auto simp: Let_def split: json.splits if_splits option.splits sum.splits)
  with Cons.IH [of "lid # seen" ps'] show ?case by (simp add: Let_def)
qed

end
