(* ===== verification/Attempt.thy ===== *)
theory Attempt
  imports Routing Validator
begin

text \<open>
  \<open>core/retry.py\<close> and \<open>core/attempt.py\<close>: one chunk's attempts at its producer. An exception that
  leaves a function is \<open>Inl\<close>, and the run it leaves behind is returned beside it, because an
  absorbed error keeps what was written before it. Sleeping has no effect on a run and events are
  left out. Redaction (\<open>core/redaction.py\<close>) is the parameter \<open>en_sanitize\<close>; the host's abort probe
  is a function of the run at the time it is polled.

  Facts: an attempt loop calls its producer at most as often as it is allowed to, exactly as often
  as it reports, writes no decision, and ends in a batch that covers the chunk's targets, in a
  failure, or in an exception outside the two recoverable families.
\<close>

section \<open>The configured engine\<close>

record engine =
  en_unicode :: unicode
  en_sha256 :: "ptext \<Rightarrow> string"
  en_sanitize :: "string \<Rightarrow> string"
  en_new_id :: "nat \<Rightarrow> ident"
  en_producer :: edit_producer
  en_escalation :: "edit_producer option"
  en_planner :: chunk_planner_config
  en_retry :: retry_policy
  en_guard :: guard_config
  en_qe :: "scorer option"
  en_routing :: routing_policy
  en_page_dims :: "ident \<Rightarrow> (int \<times> int) option"
  en_images :: "(ident, page_image) dict"
  en_should_abort :: "(run \<Rightarrow> bool) option"

section \<open>Classifying a failure\<close>

record retry_decision =
  is_retryable :: bool
  backoff :: rat
  error_tag :: string
  is_hyphen_violation :: bool

definition classify_retry :: "exn \<Rightarrow> string \<Rightarrow> int \<Rightarrow> bool \<Rightarrow> retry_policy \<Rightarrow> retry_decision" where
  "classify_retry exc msg attempt hyphen_already_seen p =
     (if exn_class exc = C_HyphenIntegrityError \<and> \<not> hyphen_already_seen then
        \<lparr>is_retryable = True, backoff = 0, error_tag = ''hyphen_integrity_violation'',
         is_hyphen_violation = True\<rparr>
      else if exn_class exc = C_ProviderTransientError then
        \<lparr>is_retryable = True, backoff = of_int attempt * transient_backoff_base p,
         error_tag = take 120 msg, is_hyphen_violation = False\<rparr>
      else if is_value_error (exn_class exc) then
        \<lparr>is_retryable = True, backoff = of_int attempt * output_backoff_base p,
         error_tag = take 120 msg, is_hyphen_violation = False\<rparr>
      else \<lparr>is_retryable = False, backoff = 0, error_tag = take 120 msg, is_hyphen_violation = False\<rparr>)"

text \<open>\<open>ChunkBudget\<close>: the attempts left.\<close>

definition spend :: "int \<Rightarrow> int \<Rightarrow> int" where
  "spend remaining attempts = remaining - attempts"

definition exhausted :: "int \<Rightarrow> bool" where
  "exhausted remaining \<longleftrightarrow> remaining \<le> 0"

definition attempts_allowed :: "int \<Rightarrow> int \<Rightarrow> int" where
  "attempts_allowed remaining cap = min cap (max remaining 0)"

section \<open>What a script becomes\<close>

record proposed =
  pr_entries :: "(ident \<times> ptext) list"
  pr_refusals :: "edit_rejection list"

definition refused_lines :: "proposed \<Rightarrow> ident list" where
  "refused_lines p = map rj_line_id (pr_refusals p)"

definition raw_of :: "(ident \<times> ptext) list \<Rightarrow> json" where
  "raw_of entries =
     JObject [(tx ''lines'', JArray (map (\<lambda>(lid, t).
       JObject [(tx ''line_id'', JString (tx lid)), (tx ''corrected_text'', JString t)]) entries))]"

definition canonical_of :: "line_manifest list \<Rightarrow> (ident, ptext) dict" where
  "canonical_of lms = foldl (\<lambda>d lm. dict_set (line_id lm) (ocr_text lm) d) [] lms"

definition fill_uncovered :: "(ident, ptext) dict \<Rightarrow> (ident \<times> ptext) list \<Rightarrow> (ident \<times> ptext) list" where
  "fill_uncovered canonical entries =
     entries @ filter (\<lambda>(lid, t). lid \<notin> fst ` set entries) canonical"

definition script_to_raw ::
  "engine \<Rightarrow> edit_producer \<Rightarrow> edit_script \<Rightarrow> line_manifest list \<Rightarrow> ident list \<Rightarrow> exn + proposed" where
  "script_to_raw eng producer script lms target_ids =
     (let canonical = canonical_of lms;
          span_ops = filter (\<lambda>x. \<not> is_line_op x) (ops script);
          line_entries = map (\<lambda>x. (op_line_id x, op_text x)) (filter is_line_op (ops script));
          finish = (\<lambda>entries refusals.
            \<lparr>pr_entries = (if requires_full_coverage producer then entries
                           else fill_uncovered canonical entries),
             pr_refusals = refusals\<rparr>)
      in
      if span_ops = [] then Inr (finish line_entries [])
      else
        (case apply_edit_script (en_sha256 eng)
                \<lparr>ops = span_ops, protocol_version = None, source_digests = [], preconditions = []\<rparr>
                canonical (Some target_ids) (en_guard eng) (map_of (dict_of line_id lms)) None of
           Inl e \<Rightarrow> Inl e
         | Inr res \<Rightarrow> Inr (finish (line_entries @ text_by_id res) (rejected res))))"

section \<open>One attempt\<close>

definition run_line :: "run \<Rightarrow> page_workspace \<Rightarrow> ident \<Rightarrow> line_manifest option" where
  "run_line r ws lid = Option.bind (map_of (ws_lines ws) lid) (line_at r)"

definition build_correction_request ::
  "engine \<Rightarrow> edit_producer \<Rightarrow> chunk_request \<Rightarrow> lref list \<Rightarrow> page_workspace \<Rightarrow> run \<Rightarrow>
   correction_request \<times> run" where
  "build_correction_request eng producer chunk refs ws r =
     (let lms = lines_at r refs;
          enriched = enrich_chunk_lines lms (run_line r ws) (wants_geometry producer)
            (Some (en_page_dims eng));
          by_id = dict_of lc_line_id enriched;
          r1 = foldl (\<lambda>r lm. case map_of by_id (line_id lm) of
                  None \<Rightarrow> r
                | Some ei \<Rightarrow> set_trace (\<lambda>t. t\<lparr>tr_model_input_text := Some (lc_ocr_text ei)\<rparr>) (line_ref lm) r)
                r lms
      in (\<lparr>cr_granularity = granularity chunk, cr_document_id = ch_document_id chunk,
           cr_page_id = ch_page_id chunk, cr_block_id = ch_block_id chunk, cr_lines = enriched,
           cr_image_ref = (if wants_image producer then map_of (en_images eng) (ch_page_id chunk) else None)\<rparr>,
          r1))"

definition produce_once ::
  "engine \<Rightarrow> edit_producer \<Rightarrow> chunk_request \<Rightarrow> lref list \<Rightarrow> page_workspace \<Rightarrow> int \<Rightarrow> rat \<Rightarrow> run \<Rightarrow>
   (exn + edit_script \<times> usage option) \<times> run" where
  "produce_once eng producer chunk refs ws attempt temperature r =
     (let (request, r1) = build_correction_request eng producer chunk refs ws r;
          r2 = update_ctx (\<lambda>c. c\<lparr>producer_calls := producer_calls c + 1\<rparr>) r1
      in (produce producer (producer_calls (rn_ctx r2)) request attempt temperature, r2))"

definition record_proposal_traces :: "(ident \<times> ptext) list \<Rightarrow> line_manifest list \<Rightarrow> run \<Rightarrow> run" where
  "record_proposal_traces entries lms r =
     foldl (\<lambda>r (lid, t). case map_of (dict_of line_id lms) lid of
          None \<Rightarrow> r
        | Some lm \<Rightarrow> set_trace (\<lambda>tr. tr\<lparr>tr_model_corrected_text := Some t\<rparr>) (line_ref lm) r) r entries"

definition declared_subs_content :: "line_manifest list \<Rightarrow> (ident, ptext) dict" where
  "declared_subs_content lms =
     foldl (\<lambda>d lm.
         if hyphen_role lm = PART1 \<and> truthy (hyphen_subs_content lm)
         then dict_set (line_id lm) (the (hyphen_subs_content lm)) d
         else if hyphen_role lm = BOTH \<and> truthy (hyphen_forward_subs_content lm)
         then dict_set (line_id lm) (the (hyphen_forward_subs_content lm)) d
         else d) [] lms"

definition capture_producer_ops ::
  "chunk_request \<Rightarrow> edit_script \<Rightarrow> line_proposal list \<Rightarrow> ident list \<Rightarrow> run_context \<Rightarrow> run_context" where
  "capture_producer_ops chunk script batch refused ctx =
     (let produced = foldl (\<lambda>d p. dict_set (lp_line_id p) (lp_corrected_text p) d) [] batch;
          kept = filter (\<lambda>x. op_line_id x \<notin> set refused \<and> op_line_id x \<in> set (targets chunk) \<and>
                   op_line_id x \<in> fst ` set produced) (ops script)
      in ctx\<lparr>producer_ops := foldl (\<lambda>d (lid, line_ops).
               dict_set (LineRef (ch_page_id chunk) lid) (line_ops, dict_get produced lid []) d)
             (producer_ops ctx) (group_by op_line_id kept)\<rparr>)"

definition refused_edits :: "chunk_request \<Rightarrow> edit_rejection list \<Rightarrow> refused_edit list" where
  "refused_edits chunk refusals =
     map (\<lambda>x. \<lparr>re_page_id = ch_page_id chunk, re_line_id = rj_line_id x, re_op = rj_op x,
               re_reason = rj_reason x\<rparr>) refusals"

definition none_if_empty :: "'a list \<Rightarrow> 'a list option" where
  "none_if_empty xs = (if xs = [] then None else Some xs)"

definition validate_and_capture ::
  "engine \<Rightarrow> chunk_request \<Rightarrow> lref list \<Rightarrow> (ident, ident) dict \<Rightarrow> proposed \<Rightarrow> edit_script \<Rightarrow> run \<Rightarrow>
   (exn + line_proposal list) \<times> run" where
  "validate_and_capture eng chunk refs hyphen_pairs prp script r =
     (let lms = lines_at r refs;
          r1 = record_proposal_traces (pr_entries prp) lms r
      in case validate_llm_response (en_unicode eng) (raw_of (pr_entries prp)) (map line_id lms)
                (none_if_empty hyphen_pairs) (Some (canonical_of lms))
                (none_if_empty (declared_subs_content lms)) (en_guard eng) (target_line_ids chunk) of
           Inl e \<Rightarrow> (Inl e, r1)
         | Inr batch \<Rightarrow>
             (Inr batch,
              update_ctx (capture_producer_ops chunk script batch (refused_lines prp))
                (update_ctx (\<lambda>c. c\<lparr>edit_rejections := edit_rejections c @ refused_edits chunk (pr_refusals prp)\<rparr>)
                   r1)))"

text \<open>The body of the \<open>try\<close>: what came of it, the tokens of the chunk so far, the run.\<close>

definition attempt_once ::
  "engine \<Rightarrow> edit_producer \<Rightarrow> chunk_request \<Rightarrow> lref list \<Rightarrow> (ident, ident) dict \<Rightarrow> page_workspace \<Rightarrow>
   int \<Rightarrow> rat \<Rightarrow> usage \<Rightarrow> run \<Rightarrow> (exn + line_proposal list) \<times> usage \<times> run" where
  "attempt_once eng producer chunk refs hyphen_pairs ws attempt temperature spent r =
     (case produce_once eng producer chunk refs ws attempt temperature r of
        (Inl e, r1) \<Rightarrow> (Inl e, spent, r1)
      | (Inr (script, used), r1) \<Rightarrow>
          (case script_to_raw eng producer script (lines_at r1 refs) (targets chunk) of
             Inl e \<Rightarrow> (Inl e, spent, r1)
           | Inr prp \<Rightarrow>
               (let r2 = (case used of None \<Rightarrow> r1
                            | Some us \<Rightarrow> update_ctx (\<lambda>c. c\<lparr>ctx_usage := usage_add (ctx_usage c) us\<rparr>) r1);
                    spent' = (case used of None \<Rightarrow> spent | Some us \<Rightarrow> usage_add spent us);
                    (res, r3) = validate_and_capture eng chunk refs hyphen_pairs prp script r2
                in (res, spent', r3))))"

section \<open>The loop\<close>

definition recoverable :: "exn \<Rightarrow> bool" where
  "recoverable exc \<longleftrightarrow> exn_class exc = C_ProviderTransientError \<or> is_value_error (exn_class exc)"

definition failure_family :: "exn \<Rightarrow> string" where
  "failure_family exc = (if exn_class exc = C_ProviderTransientError then ''transport'' else ''producer_output'')"

definition handle_failed_attempt ::
  "engine \<Rightarrow> exn \<Rightarrow> int \<Rightarrow> int \<Rightarrow> bool \<Rightarrow> run \<Rightarrow> exn + (bool \<times> retry_decision \<times> string) \<times> run" where
  "handle_failed_attempt eng exc attempt cap hyphen_already_seen r =
     (if \<not> recoverable exc then Inl exc
      else
        (let msg = failure_family exc @ '': '' @ en_sanitize eng (exn_msg exc);
             decision = classify_retry exc msg attempt hyphen_already_seen (en_retry eng);
             will_retry = (attempt < cap \<and> is_retryable decision)
         in Inr ((will_retry, decision, msg),
                 if will_retry then update_ctx (\<lambda>c. c\<lparr>retry_count := retry_count c + 1\<rparr>) r else r)))"

record attempt_outcome =
  ao_response :: "line_proposal list option"
  attempts_used :: int
  can_downgrade :: bool
  last_msg :: string
  ao_usage :: "usage option"

definition attempt_temperature :: "engine \<Rightarrow> bool \<Rightarrow> int \<Rightarrow> rat" where
  "attempt_temperature eng pinned attempt = (if pinned then 0 else temperature_for (en_retry eng) attempt)"

fun attempt_loop ::
  "engine \<Rightarrow> edit_producer \<Rightarrow> chunk_request \<Rightarrow> lref list \<Rightarrow> (ident, ident) dict \<Rightarrow> page_workspace \<Rightarrow>
   int \<Rightarrow> int list \<Rightarrow> int \<Rightarrow> bool \<Rightarrow> usage \<Rightarrow> run \<Rightarrow> (exn + attempt_outcome) \<times> run" where
  "attempt_loop eng producer chunk refs hyphen_pairs ws cap [] so_far pinned spent r =
     (Inr \<lparr>ao_response = None, attempts_used = so_far, can_downgrade = False, last_msg = [],
           ao_usage = None\<rparr>, r)"
| "attempt_loop eng producer chunk refs hyphen_pairs ws cap (attempt # rest) so_far pinned spent r =
     (case attempt_once eng producer chunk refs hyphen_pairs ws attempt (attempt_temperature eng pinned attempt) spent r of
        (Inr batch, spent', r1) \<Rightarrow>
          (Inr \<lparr>ao_response = Some batch, attempts_used = attempt, can_downgrade = False,
                last_msg = [], ao_usage = Some spent'\<rparr>, r1)
      | (Inl exc, spent', r1) \<Rightarrow>
          (case handle_failed_attempt eng exc attempt cap pinned r1 of
             Inl e \<Rightarrow> (Inl e, r1)
           | Inr ((will_retry, decision, msg), r2) \<Rightarrow>
               if will_retry
               then attempt_loop eng producer chunk refs hyphen_pairs ws cap rest attempt
                      (pinned \<or> is_hyphen_violation decision) spent' r2
               else (Inr \<lparr>ao_response = None, attempts_used = attempt,
                          can_downgrade = is_retryable decision, last_msg = msg, ao_usage = None\<rparr>, r2)))"

definition attempt_chunk ::
  "engine \<Rightarrow> edit_producer \<Rightarrow> chunk_request \<Rightarrow> lref list \<Rightarrow> (ident, ident) dict \<Rightarrow> page_workspace \<Rightarrow>
   int \<Rightarrow> run \<Rightarrow> (exn + attempt_outcome) \<times> run" where
  "attempt_chunk eng producer chunk refs hyphen_pairs ws cap r =
     attempt_loop eng producer chunk refs hyphen_pairs ws cap [1..cap] 0 False no_usage r"

section \<open>An attempt writes no decision\<close>

definition calls :: "run \<Rightarrow> int" where
  "calls r = producer_calls (rn_ctx r)"

definition quiet :: "run \<Rightarrow> run \<Rightarrow> bool" where
  "quiet r r' \<longleftrightarrow> rn_lines r' = rn_lines r \<and> (coherent_run r \<longrightarrow> coherent_run r')"

lemma quiet_refl [simp]: "quiet r r"
  by (simp add: quiet_def)

lemma quiet_trans: "\<lbrakk>quiet a b; quiet b c\<rbrakk> \<Longrightarrow> quiet a c"
  by (simp add: quiet_def)

lemma quiet_trace: "(\<And>t. tr_fallback_reason (f t) = tr_fallback_reason t) \<Longrightarrow> quiet r (set_trace f ref r)"
  using trace_write_keeps(1) by (simp add: quiet_def set_trace_def split: option.split)

lemma quiet_ctx: "quiet r (update_ctx f r)"
  using ctx_write_keeps(1) by (simp add: quiet_def update_ctx_def)

lemma quiet_fold: "(\<And>r x. quiet r (f r x)) \<Longrightarrow> quiet r (foldl f r xs)"
proof (induction xs arbitrary: r)
  case (Cons x xs)
  from Cons.IH [OF Cons.prems, of "f r x"] Cons.prems [of r x] quiet_trans show ?case by auto
qed simp

lemma quiet_line_at: "quiet r r' \<Longrightarrow> line_at r' ref = line_at r ref"
  by (simp add: quiet_def line_at_def)

lemma quiet_lines_at: "quiet r r' \<Longrightarrow> lines_at r' refs = lines_at r refs"
  by (simp add: lines_at_def quiet_line_at [THEN ext])

lemma quiet_progress: "quiet r r' \<Longrightarrow> progress r r'"
  by (rule progress_same) (simp_all add: quiet_def store_keys_def line_at_def)

lemma calls_trace [simp]: "calls (set_trace f ref r) = calls r"
  by (simp add: calls_def set_trace_def split: option.split)

lemma calls_fold: "(\<And>r x. calls (f r x) = calls r) \<Longrightarrow> calls (foldl f r xs) = calls r"
  by (induction xs arbitrary: r) simp_all

lemma request_quiet:
  assumes "build_correction_request eng producer chunk refs ws r = (request, r')"
  shows "quiet r r' \<and> calls r' = calls r"
  using assms
  by (auto simp: build_correction_request_def Let_def intro!: quiet_fold calls_fold quiet_trace
      split: option.split)

lemma proposal_traces_quiet:
  "quiet r (record_proposal_traces entries lms r) \<and> calls (record_proposal_traces entries lms r) = calls r"
  unfolding record_proposal_traces_def
  by (intro conjI quiet_fold calls_fold) (auto intro: quiet_trace split: prod.split option.split)

lemma produce_counts:
  assumes "produce_once eng producer chunk refs ws attempt temperature r = (res, r')"
  shows "quiet r r' \<and> calls r' = calls r + 1"
proof -
  obtain request r1 where b: "build_correction_request eng producer chunk refs ws r = (request, r1)" by fastforce
  let ?r2 = "update_ctx (\<lambda>c. c\<lparr>producer_calls := producer_calls c + 1\<rparr>) r1"
  have "r' = ?r2" using assms by (simp add: produce_once_def b Let_def)
  moreover have "quiet r ?r2" using request_quiet [OF b] quiet_ctx quiet_trans by blast
  moreover have "calls ?r2 = calls r1 + 1" by (simp add: calls_def update_ctx_def)
  ultimately show ?thesis using request_quiet [OF b] by simp
qed

lemma capture_calls: "calls (update_ctx (capture_producer_ops chunk script batch refused) r) = calls r"
  by (simp add: calls_def update_ctx_def capture_producer_ops_def Let_def)

lemma validate_quiet:
  assumes "validate_and_capture eng chunk refs hyphen_pairs prp script r = (res, r')"
  shows "quiet r r' \<and> calls r' = calls r"
proof -
  define r1 where "r1 = record_proposal_traces (pr_entries prp) (lines_at r refs) r"
  define r2 where "r2 = update_ctx (\<lambda>c. c\<lparr>edit_rejections := edit_rejections c @ refused_edits chunk (pr_refusals prp)\<rparr>) r1"
  have 1: "quiet r r1" "calls r1 = calls r" using proposal_traces_quiet by (simp_all add: r1_def)
  have 2: "quiet r r2" "calls r2 = calls r"
    using 1 quiet_trans [OF 1(1) quiet_ctx] by (simp_all add: r2_def calls_def update_ctx_def)
  have 3: "quiet r (update_ctx (capture_producer_ops chunk script batch (refused_lines prp)) r2) \<and>
      calls (update_ctx (capture_producer_ops chunk script batch (refused_lines prp)) r2) = calls r" for batch
    using 2 quiet_trans [OF 2(1) quiet_ctx] by (simp add: capture_calls)
  from assms have "r' = r1 \<or> (\<exists>batch. r' = update_ctx (capture_producer_ops chunk script batch (refused_lines prp)) r2)"
    by (auto simp: validate_and_capture_def Let_def r1_def [symmetric] r2_def [symmetric] split: sum.splits)
  with 1 3 show ?thesis by auto
qed

lemma attempt_once_counts:
  assumes "attempt_once eng producer chunk refs hyphen_pairs ws attempt temperature spent r = (res, spent', r')"
  shows "quiet r r' \<and> calls r' = calls r + 1"
proof -
  obtain pr r1 where p: "produce_once eng producer chunk refs ws attempt temperature r = (pr, r1)" by fastforce
  note c = produce_counts [OF p]
  show ?thesis
  proof (cases pr)
    case (Inl e)
    with assms p c show ?thesis by (simp add: attempt_once_def)
  next
    case (Inr su)
    obtain script used where su: "su = (script, used)" by fastforce
    show ?thesis
    proof (cases "script_to_raw eng producer script (lines_at r1 refs) (targets chunk)")
      case f: (Inl e)
      with assms p c Inr su show ?thesis by (simp add: attempt_once_def)
    next
      case q: (Inr prp)
      define r2 where "r2 = (case used of None \<Rightarrow> r1
        | Some us \<Rightarrow> update_ctx (\<lambda>c. c\<lparr>ctx_usage := usage_add (ctx_usage c) us\<rparr>) r1)"
      have 2: "quiet r1 r2 \<and> calls r2 = calls r1"
        using quiet_ctx by (simp add: r2_def calls_def update_ctx_def split: option.split)
      obtain res' r3 where v: "validate_and_capture eng chunk refs hyphen_pairs prp script r2 = (res', r3)"
        by fastforce
      have "r' = r3" using assms by (simp add: attempt_once_def p Inr su q Let_def r2_def [symmetric] v)
      with validate_quiet [OF v] 2 c show ?thesis using quiet_trans by metis
    qed
  qed
qed

text \<open>A batch that comes out of an attempt covers the chunk's targets.\<close>

definition covers :: "chunk_request \<Rightarrow> line_manifest list \<Rightarrow> line_proposal list \<Rightarrow> bool" where
  "covers chunk lms batch \<longleftrightarrow>
     set (case target_line_ids chunk of None \<Rightarrow> map line_id lms | Some ts \<Rightarrow> ts) \<subseteq> set (map lp_line_id batch)"

lemma attempt_once_covers:
  assumes "attempt_once eng producer chunk refs hyphen_pairs ws attempt temperature spent r = (Inr batch, spent', r')"
  shows "covers chunk (lines_at r refs) batch"
proof -
  obtain script used r1 where p: "produce_once eng producer chunk refs ws attempt temperature r = (Inr (script, used), r1)"
    using assms by (auto simp: attempt_once_def split: prod.splits sum.splits)
  obtain prp where q: "script_to_raw eng producer script (lines_at r1 refs) (targets chunk) = Inr prp"
    using assms by (auto simp: attempt_once_def p split: sum.splits)
  define r2 where "r2 = (case used of None \<Rightarrow> r1
    | Some us \<Rightarrow> update_ctx (\<lambda>c. c\<lparr>ctx_usage := usage_add (ctx_usage c) us\<rparr>) r1)"
  have 2: "quiet r1 r2" using quiet_ctx by (simp add: r2_def split: option.split)
  from assms obtain r3 where v: "validate_and_capture eng chunk refs hyphen_pairs prp script r2 = (Inr batch, r3)"
    by (auto simp: attempt_once_def p q Let_def r2_def [symmetric] split: prod.splits)
  have l: "lines_at r2 refs = lines_at r refs"
    using quiet_lines_at [OF 2] quiet_lines_at produce_counts [OF p] by metis
  from v have "validate_llm_response (en_unicode eng) (raw_of (pr_entries prp)) (map line_id (lines_at r2 refs))
      (none_if_empty hyphen_pairs) (Some (canonical_of (lines_at r2 refs)))
      (none_if_empty (declared_subs_content (lines_at r2 refs))) (en_guard eng) (target_line_ids chunk) = Inr batch"
    by (auto simp: validate_and_capture_def Let_def split: sum.splits)
  then have "set (case target_line_ids chunk of None \<Rightarrow> map line_id (lines_at r2 refs) | Some ts \<Rightarrow> ts)
      \<subseteq> set (map lp_line_id batch)" by (rule validate_cases)
  then show ?thesis unfolding covers_def l [symmetric] .
qed

lemma handle_failed_quiet:
  assumes "handle_failed_attempt eng exc attempt cap pinned r = Inr ((will_retry, decision, msg), r')"
  shows "quiet r r' \<and> calls r' = calls r \<and> (will_retry \<longrightarrow> attempt < cap)"
  using assms quiet_ctx by (auto simp: handle_failed_attempt_def Let_def calls_def update_ctx_def split: if_splits)

text \<open>What a loop that has made \<open>k\<close> calls may still do.\<close>

definition loop_ok :: "chunk_request \<Rightarrow> line_manifest list \<Rightarrow> int \<Rightarrow> int \<Rightarrow> run \<Rightarrow> (exn + attempt_outcome) \<times> run \<Rightarrow> bool" where
  "loop_ok chunk lms k cap r out \<longleftrightarrow>
     quiet r (snd out) \<and>
     (case fst out of
        Inl e \<Rightarrow> \<not> recoverable e \<and> calls (snd out) \<le> calls r + (cap - k)
      | Inr ao \<Rightarrow> calls (snd out) = calls r + (attempts_used ao - k) \<and> k \<le> attempts_used ao \<and>
          attempts_used ao \<le> cap \<and>
          (case ao_response ao of None \<Rightarrow> True | Some batch \<Rightarrow> covers chunk lms batch))"

lemma attempt_loop_ok:
  assumes "0 \<le> k" "k \<le> cap"
  shows "loop_ok chunk (lines_at r refs) k cap r
    (attempt_loop eng producer chunk refs hyphen_pairs ws cap [k + 1..cap] k pinned spent r)"
  using assms
proof (induction "nat (cap - k)" arbitrary: k pinned spent r)
  case 0
  then show ?case by (simp add: loop_ok_def)
next
  case (Suc n)
  then have k: "k < cap" by simp
  have up: "[k + 1..cap] = (k + 1) # [(k + 1) + 1..cap]" using k by (subst upto_rec1) simp_all
  obtain res spent1 r1 where
    a: "attempt_once eng producer chunk refs hyphen_pairs ws (k + 1) (attempt_temperature eng pinned (k + 1)) spent r
      = (res, spent1, r1)" by (metis prod_cases3)
  note c = attempt_once_counts [OF a]
  show ?case
  proof (cases res)
    case (Inr batch)
    from attempt_once_covers [OF a [unfolded Inr]] c k Suc.prems show ?thesis
      by (simp add: up a Inr loop_ok_def)
  next
    case (Inl exc)
    show ?thesis
    proof (cases "handle_failed_attempt eng exc (k + 1) cap pinned r1")
      case h: (Inl e)
      then have "\<not> recoverable e" by (auto simp: handle_failed_attempt_def Let_def split: if_splits)
      with h c k show ?thesis by (simp add: up a Inl loop_ok_def)
    next
      case h: (Inr x)
      obtain will_retry decision msg r2 where x: "x = ((will_retry, decision, msg), r2)"
        by (cases x) auto
      note f = handle_failed_quiet [OF h [unfolded x]]
      have q: "quiet r r2" using c f quiet_trans by blast
      show ?thesis
      proof (cases will_retry)
        case False
        with h x f c q k Suc.prems show ?thesis by (simp add: up a Inl loop_ok_def)
      next
        case True
        have "loop_ok chunk (lines_at r2 refs) (k + 1) cap r2
            (attempt_loop eng producer chunk refs hyphen_pairs ws cap [(k + 1) + 1..cap] (k + 1)
               (pinned \<or> is_hyphen_violation decision) spent1 r2)"
          by (rule Suc.hyps(1)) (use Suc.hyps(2) Suc.prems k in auto)
        then show ?thesis
          using quiet_lines_at [OF q] quiet_trans [OF q] f c True
          by (auto simp: up a Inl h x loop_ok_def split: sum.splits)
      qed
    qed
  qed
qed

lemma attempt_chunk_ok:
  "loop_ok chunk (lines_at r refs) 0 (max cap 0) r (attempt_chunk eng producer chunk refs hyphen_pairs ws cap r)"
proof (cases "0 \<le> cap")
  case True
  then show ?thesis using attempt_loop_ok [of 0 cap] by (simp add: attempt_chunk_def)
next
  case False
  then show ?thesis by (simp add: attempt_chunk_def loop_ok_def)
qed

section \<open>Properties\<close>

text \<open>The attempt loop returns; it never calls the producer more often than it is allowed, and
  the count it reports to the budget is the number of calls made; it changes no line; it raises only
  what is outside the two recoverable families; and a batch it returns answers every target.\<close>

theorem attempt_loop_bounded:
  "let (res, r') = attempt_chunk eng producer chunk refs hyphen_pairs ws cap r in
   rn_lines r' = rn_lines r \<and>
   calls r' \<le> calls r + max cap 0 \<and>
   (case res of
      Inl e \<Rightarrow> \<not> recoverable e
    | Inr ao \<Rightarrow> calls r' = calls r + attempts_used ao \<and>
        (case ao_response ao of None \<Rightarrow> True | Some batch \<Rightarrow> covers chunk (lines_at r refs) batch))"
proof -
  obtain res r' where o: "attempt_chunk eng producer chunk refs hyphen_pairs ws cap r = (res, r')" by fastforce
  from attempt_chunk_ok [of chunk r refs cap eng producer hyphen_pairs ws] show ?thesis
    by (cases res) (simp_all add: o loop_ok_def quiet_def)
qed

text \<open>A first hyphen violation is retried at once and pins every later attempt to temperature
  0; a second one waits like any malformed output; a transport failure waits its own base; and
  nothing else is retried.\<close>

theorem retry_classification:
  "is_retryable (classify_retry exc msg attempt seen p) = recoverable exc \<and>
   is_hyphen_violation (classify_retry exc msg attempt seen p) =
     (exn_class exc = C_HyphenIntegrityError \<and> \<not> seen) \<and>
   backoff (classify_retry exc msg attempt seen p) =
     (if exn_class exc = C_HyphenIntegrityError \<and> \<not> seen then 0
      else if exn_class exc = C_ProviderTransientError then of_int attempt * transient_backoff_base p
      else if is_value_error (exn_class exc) then of_int attempt * output_backoff_base p
      else 0) \<and>
   attempt_temperature eng True attempt = 0"
  by (auto simp: classify_retry_def recoverable_def attempt_temperature_def)

end
