(* ===== verification/Finalize.thy ===== *)
theory Finalize
  imports Acceptance
begin

text \<open>
  \<open>core/finalize.py\<close> and \<open>core/decisions.py\<close>: the document-wide passes in the order they must run,
  and the decision set they end in. \<open>Inl\<close> is the \<open>RuntimeError\<close> of the order token or of a line
  still \<open>PENDING\<close>.

  Facts: on a run whose lines are all decided the passes succeed, keep the run coherent, undo no
  decision, keep hyphen units whole, and give one terminal decision per line in reading order; a
  line without a decision makes the set refuse to exist.
\<close>

section \<open>Decisions\<close>

record line_decision =
  dec_ref :: lref
  dec_source_text :: ptext
  dec_final_text :: ptext
  dec_status :: line_status
  dec_fallback_reason :: "string option"

definition decision_by_ref :: "line_decision list \<Rightarrow> (lref, line_decision) dict" where
  "decision_by_ref ds = dict_of dec_ref ds"

definition fallback_lines :: "line_decision list \<Rightarrow> nat" where
  "fallback_lines ds = length (filter (\<lambda>d. dec_status d = FALLBACK) ds)"

text \<open>\<open>s.split(":", 1)[0].strip()\<close>, and the two halves of \<open>s.partition(":")\<close>.\<close>

definition before_colon :: "string \<Rightarrow> string" where
  "before_colon s = takeWhile (\<lambda>c. c \<noteq> CHR '':'') s"

definition after_colon :: "string \<Rightarrow> string" where
  "after_colon s = drop 1 (dropWhile (\<lambda>c. c \<noteq> CHR '':'') s)"

definition reason_prefix :: "string option \<Rightarrow> string" where
  "reason_prefix why = char_strip (before_colon (the (py_or why (Some ''unspecified''))))"

definition fallback_reason_counts :: "line_decision list \<Rightarrow> (string, nat) dict" where
  "fallback_reason_counts ds =
     foldl (\<lambda>counts d.
         if dec_status d \<noteq> FALLBACK then counts
         else (let prefix = reason_prefix (dec_fallback_reason d)
               in dict_set prefix (dict_get counts prefix 0 + 1) counts)) [] ds"

definition decision_of :: "run \<Rightarrow> line_manifest \<Rightarrow> line_decision" where
  "decision_of r lm =
     \<lparr>dec_ref = line_ref lm, dec_source_text = ocr_text lm,
      dec_final_text = (case corrected_text lm of None \<Rightarrow> ocr_text lm | Some c \<Rightarrow> c),
      dec_status = status lm,
      dec_fallback_reason = (if status lm = FALLBACK
        then (case trace_at r (line_ref lm) of None \<Rightarrow> None | Some t \<Rightarrow> tr_fallback_reason t)
        else None)\<rparr>"

definition derive_decision_set :: "document_manifest \<Rightarrow> run \<Rightarrow> exn + line_decision list" where
  "derive_decision_set d r =
     (let lines = document_lines (document_now r d) in
      if filter (\<lambda>lm. status lm = PENDING) lines \<noteq> []
      then Inl (Exn C_RuntimeError ''line(s) reached the end of the run with no terminal decision'')
      else Inr (map (decision_of r) lines))"

section \<open>Staged outcomes\<close>

record decision_reason =
  code :: string
  detail :: "string option"

definition structured_reason :: "string option \<Rightarrow> decision_reason option" where
  "structured_reason raw =
     (if \<not> truthy raw then None
      else (let rest = char_strip (after_colon (the raw))
            in Some \<lparr>code = char_strip (before_colon (the raw)),
                     detail = (if rest = [] then None else Some rest)\<rparr>))"

record proposal_stage =
  input_text :: "ptext option"
  output_text :: "ptext option"

record projection_stage =
  extracted_text :: "ptext option"
  stage_rewriter_path :: "string option"
  stage_losses :: "(string, int) dict option"
  stage_fidelity :: "projection_fidelity option"
  stage_word_order_suspected :: "bool option"

record line_outcome =
  out_line_id :: ident
  out_page_id :: ident
  out_hyphen_role :: "string option"
  out_source_text :: ptext
  out_proposal :: "proposal_stage option"
  out_status :: string
  out_final_text :: ptext
  out_reason :: "decision_reason option"
  out_features :: "proposal_features option"
  out_projection :: "projection_stage option"

definition proposal_of :: "line_trace \<Rightarrow> proposal_stage option" where
  "proposal_of t =
     (if tr_model_input_text t \<noteq> None \<or> tr_model_corrected_text t \<noteq> None
      then Some \<lparr>input_text = tr_model_input_text t, output_text = tr_model_corrected_text t\<rparr>
      else None)"

definition projection_of :: "line_trace \<Rightarrow> projection_stage option" where
  "projection_of t =
     (if tr_output_alto_text t \<noteq> None \<or> tr_rewriter_path t \<noteq> None
      then Some \<lparr>extracted_text = tr_output_alto_text t, stage_rewriter_path = tr_rewriter_path t,
                 stage_losses = tr_projection_losses t, stage_fidelity = tr_projection_fidelity t,
                 stage_word_order_suspected = tr_word_order_suspected t\<rparr>
      else None)"

definition build_line_outcomes :: "line_decision list \<Rightarrow> run \<Rightarrow> line_outcome list" where
  "build_line_outcomes ds r =
     map (\<lambda>d. let trace = trace_at r (dec_ref d) in
       \<lparr>out_line_id = ref_line_id (dec_ref d), out_page_id = ref_page_id (dec_ref d),
        out_hyphen_role = Option.bind trace tr_hyphen_role,
        out_source_text = dec_source_text d,
        out_proposal = Option.bind trace proposal_of,
        out_status = status_value (dec_status d), out_final_text = dec_final_text d,
        out_reason = structured_reason (dec_fallback_reason d),
        out_features = Option.bind trace tr_proposal_features,
        out_projection = Option.bind trace projection_of\<rparr>) ds"

section \<open>The passes\<close>

definition preserve_line :: "unicode \<Rightarrow> run \<Rightarrow> lref \<Rightarrow> run" where
  "preserve_line u r ref =
     (case line_at r ref of
        None \<Rightarrow> r
      | Some lm \<Rightarrow>
          (case corrected_text lm of
             None \<Rightarrow> r
           | Some c \<Rightarrow>
               if c \<noteq> ocr_text lm then renormalise (preserve_break_char u (ocr_text lm) c) ref r else r))"

definition preserve_break_chars ::
  "unicode \<Rightarrow> document_manifest \<Rightarrow> finalize_order option \<Rightarrow> run \<Rightarrow> exn + finalize_order option \<times> run" where
  "preserve_break_chars u d order r =
     (case entering order ''break_chars'' [''adjacency''] of
        Inl e \<Rightarrow> Inl e
      | Inr order' \<Rightarrow> Inr (order', foldl (preserve_line u) r (map line_ref (document_lines d))))"

definition finalize_document ::
  "unicode \<Rightarrow> guard_config \<Rightarrow> loss_policy \<Rightarrow> document_manifest \<Rightarrow> run \<Rightarrow>
   exn + line_decision list \<times> sidecar_entry list \<times> run" where
  "finalize_document u cfg lp d r =
     (case global_adjacency_pass u cfg d (Some []) r of
        Inl e \<Rightarrow> Inl e
      | Inr (order1, r1) \<Rightarrow>
          (case preserve_break_chars u d order1 r1 of
             Inl e \<Rightarrow> Inl e
           | Inr (order2, r2) \<Rightarrow>
               (case loss_policy_pass lp d order2 r2 of
                  Inl e \<Rightarrow> Inl e
                | Inr (order3, sidecar, r3) \<Rightarrow>
                    (case derive_decision_set d r3 of
                       Inl e \<Rightarrow> Inl e
                     | Inr ds \<Rightarrow> Inr (ds, sidecar, r3)))))"

section \<open>What the passes keep\<close>

text \<open>One step of finalisation: coherent, forward, and moving no link.\<close>

definition sound_step :: "run \<Rightarrow> run \<Rightarrow> bool" where
  "sound_step r r' \<longleftrightarrow>
     coherent_run r' \<and> progress r r' \<and> store_links r' = store_links r \<and> (units_whole r \<longrightarrow> units_whole r')"

lemma sound_step_refl: "coherent_run r \<Longrightarrow> sound_step r r"
  by (simp add: sound_step_def)

lemma sound_step_trans: "\<lbrakk>sound_step a b; sound_step b c\<rbrakk> \<Longrightarrow> sound_step a c"
  unfolding sound_step_def using progress_trans by metis

lemma reverts_sound:
  assumes "coherent_run r" "distinct (map fst (rn_lines r))"
  shows "sound_step r (snd (apply_unit_reverts why reverts r))"
  unfolding sound_step_def
  using apply_unit_reverts_keeps [OF assms(1)] reverts_keep_units_whole [OF assms] by simp

lemma respell_sound:
  assumes "coherent_run r"
  shows "sound_step r (preserve_line u r ref)"
proof (cases "line_at r ref")
  case (Some lm)
  have s: "settled lm" using assms Some by (simp add: coherent_run_def)
  show ?thesis
  proof (cases "\<exists>c. corrected_text lm = Some c \<and> c \<noteq> ocr_text lm")
    case True
    then obtain c where c: "corrected_text lm = Some c" "c \<noteq> ocr_text lm" by blast
    let ?n = "preserve_break_char u (ocr_text lm) c"
    have st: "status lm = CORRECTED" using s c by (auto simp: settled_def split: line_status.splits)
    have eq: "preserve_line u r ref = renormalise ?n ref r" by (simp add: preserve_line_def Some c)
    have "stands ref r" using Some st by (simp add: stands_def)
    then have k: "coherent_run (renormalise ?n ref r)" "progress r (renormalise ?n ref r)"
      using respelling.keeps [OF assms, of "(ref, ?n)"] respelling.advances [OF assms, of "(ref, ?n)"] by simp_all
    have f: "fallen (renormalise ?n ref r) x \<longleftrightarrow> fallen r x"
      "line_at (renormalise ?n ref r) x = None \<longleftrightarrow> line_at r x = None" for x
      using Some by (auto simp: fallen_def renormalise_def line_at_update)
    have "units_whole (renormalise ?n ref r) \<longleftrightarrow> units_whole r"
      unfolding units_whole_def f same_unit_links [OF store_links_renormalise] ..
    with k show ?thesis by (simp add: eq sound_step_def)
  next
    case False
    then have "preserve_line u r ref = r"
      by (cases "corrected_text lm") (simp_all add: preserve_line_def Some)
    then show ?thesis using sound_step_refl [OF assms] by simp
  qed
qed (use sound_step_refl [OF assms] in \<open>simp add: preserve_line_def\<close>)

lemma respells_sound:
  "coherent_run r \<Longrightarrow> sound_step r (foldl (preserve_line u) r refs)"
proof (induction refs arbitrary: r)
  case (Cons ref refs)
  have 1: "sound_step r (preserve_line u r ref)" by (rule respell_sound [OF Cons.prems])
  then have "coherent_run (preserve_line u r ref)" by (simp add: sound_step_def)
  from Cons.IH [OF this] 1 show ?case using sound_step_trans by auto
qed (simp add: sound_step_refl)

lemma loss_pass_runs:
  assumes "entering order ''loss_policy'' [''adjacency'', ''break_chars''] = Inr o'"
  shows "\<exists>sidecar r'. loss_policy_pass lp d order r = Inr (o', sidecar, r')"
proof (cases "lp_strict lp")
  case True
  then show ?thesis using assms by (simp add: loss_policy_pass_def Let_def)
next
  case f: False
  show ?thesis
  proof (cases "min_alignment_score lp")
    case None
    then show ?thesis using assms f by (simp add: loss_policy_pass_def Let_def)
  next
    case (Some threshold)
    then show ?thesis using assms f by (simp add: loss_policy_pass_def Let_def split_beta)
  qed
qed

lemma loss_pass_sound:
  assumes "coherent_run r" "distinct (map fst (rn_lines r))"
    and "loss_policy_pass lp d order r = Inr (order', sidecar, r')"
  shows "sound_step r r'"
proof (cases "entering order ''loss_policy'' [''adjacency'', ''break_chars'']")
  case (Inr o')
  let ?ls = "document_lines (document_now r d)"
  show ?thesis
  proof (cases "lp_strict lp")
    case True
    with assms(3) Inr have "r' = snd (apply_unit_reverts ''format_loss_pair_atomicity'' (strict_reverts ?ls) r)"
      by (simp add: loss_policy_pass_def Let_def)
    then show ?thesis using reverts_sound [OF assms(1,2)] by simp
  next
    case False
    show ?thesis
    proof (cases "min_alignment_score lp")
      case None
      with False assms(3) Inr have "r' = r" by (simp add: loss_policy_pass_def Let_def)
      then show ?thesis using sound_step_refl [OF assms(1)] by simp
    next
      case (Some threshold)
      with False assms(3) Inr have "r' = snd (apply_unit_reverts ''token_realign_pair_atomicity''
          (map (\<lambda>(ref, _, _, why). (ref, why)) (realign_evidence threshold ?ls)) r)"
        by (simp add: loss_policy_pass_def Let_def split: prod.splits)
      then show ?thesis using reverts_sound [OF assms(1,2)] by simp
    qed
  qed
qed (use assms(3) in \<open>simp add: loss_policy_pass_def\<close>)

text \<open>The token of a run lets the three passes through in their order.\<close>

lemma finalize_passes:
  assumes c: "coherent_run r" "distinct (map fst (rn_lines r))"
  obtains sidecar r3 where "sound_step r r3"
    and "finalize_document u cfg lp d r =
      (case derive_decision_set d r3 of Inl e \<Rightarrow> Inl e | Inr ds \<Rightarrow> Inr (ds, sidecar, r3))"
proof -
  define r1 where "r1 = snd (apply_unit_reverts ''adjacent_duplicate_pair_atomicity''
    (adjacency_walk u cfg [] [] None (doc_pages (document_now r d))) r)"
  define r2 where "r2 = foldl (preserve_line u) r1 (map line_ref (document_lines d))"
  have 1: "global_adjacency_pass u cfg d (Some []) r = Inr (Some [''adjacency''], r1)"
    by (simp add: global_adjacency_pass_def entering_def r1_def)
  have 2: "preserve_break_chars u d (Some [''adjacency'']) r1 = Inr (Some [''adjacency'', ''break_chars''], r2)"
    by (simp add: preserve_break_chars_def entering_def r2_def)
  have s1: "sound_step r r1" unfolding r1_def by (rule reverts_sound [OF c])
  then have s2: "sound_step r1 r2" unfolding r2_def by (intro respells_sound) (simp add: sound_step_def)
  have c2: "coherent_run r2" "distinct (map fst (rn_lines r2))"
    using s1 s2 c store_links_keys [of r1 r] store_links_keys [of r2 r1] by (simp_all add: sound_step_def)
  obtain o3 sidecar r3 where
    3: "loss_policy_pass lp d (Some [''adjacency'', ''break_chars'']) r2 = Inr (o3, sidecar, r3)"
  proof -
    have "entering (Some [''adjacency'', ''break_chars'']) ''loss_policy'' [''adjacency'', ''break_chars''] =
        Inr (Some [''adjacency'', ''break_chars'', ''loss_policy''])" by (simp add: entering_def)
    from loss_pass_runs [OF this] that show ?thesis by blast
  qed
  have "sound_step r r3" using sound_step_trans [OF sound_step_trans [OF s1 s2] loss_pass_sound [OF c2 3]] .
  then show ?thesis by (rule that) (simp add: finalize_document_def 1 2 3)
qed

text \<open>What the document shows of a run.\<close>

definition document_stored :: "document_manifest \<Rightarrow> run \<Rightarrow> bool" where
  "document_stored d r \<longleftrightarrow> list_all (\<lambda>lm. line_at r (line_ref lm) \<noteq> None) (document_lines d)"

lemma lines_at_stored:
  assumes "coherent_run r" "list_all (\<lambda>ref. line_at r ref \<noteq> None) refs"
  shows "map line_ref (lines_at r refs) = refs"
  using assms(2)
proof (induction refs)
  case (Cons x refs)
  then obtain lm where lm: "line_at r x = Some lm" by auto
  with assms(1) have "line_ref lm = x" by (simp add: coherent_run_def)
  with Cons lm show ?case by (simp add: lines_at_def map_filter_simps)
qed (simp add: lines_at_def map_filter_simps)

lemma in_lines_at: "lm \<in> set (lines_at r refs) \<longleftrightarrow> (\<exists>ref \<in> set refs. line_at r ref = Some lm)"
  by (induction refs) (auto simp: lines_at_def map_filter_simps split: option.splits)

lemma document_lines_now:
  "document_lines (document_now r d) = lines_at r (map line_ref (document_lines d))"
proof -
  have app: "lines_at r (xs @ ys) = lines_at r xs @ lines_at r ys" for xs ys
    by (induction xs) (simp_all add: lines_at_def map_filter_simps split: option.split)
  have "concat (map (\<lambda>p. lines_at r (map line_ref (pg_lines p))) ps) =
      lines_at r (map line_ref (concat (map pg_lines ps)))" for ps
    by (induction ps) (simp_all add: app, simp add: lines_at_def map_filter_simps)
  then show ?thesis by (simp add: document_lines_def document_now_def page_now_def comp_def)
qed

lemma stored_progress: "\<lbrakk>progress r r'; document_stored d r\<rbrakk> \<Longrightarrow> document_stored d r'"
  using progress_None unfolding document_stored_def list_all_iff by blast

definition terminal :: "line_decision \<Rightarrow> bool" where
  "terminal d \<longleftrightarrow>
     (case dec_status d of CORRECTED \<Rightarrow> dec_fallback_reason d = None
      | FALLBACK \<Rightarrow> dec_final_text d = dec_source_text d | _ \<Rightarrow> False)"

lemma decision_terminal:
  assumes "settled lm" "status lm \<noteq> PENDING"
  shows "terminal (decision_of r lm)"
  using assms by (cases "status lm") (simp_all add: settled_def terminal_def decision_of_def)

lemma derive_decides:
  assumes c: "coherent_run r" "document_stored d r"
    and "list_all (\<lambda>lm. decided r (line_ref lm)) (document_lines d)"
  shows "\<exists>ds. derive_decision_set d r = Inr ds \<and> map dec_ref ds = map line_ref (document_lines d) \<and>
    list_all terminal ds"
proof -
  let ?ls = "lines_at r (map line_ref (document_lines d))"
  have ls: "status lm \<noteq> PENDING \<and> settled lm" if "lm \<in> set ?ls" for lm
    using that assms(1,3) by (auto simp: in_lines_at list_all_iff decided_def coherent_run_def)
  then have f: "filter (\<lambda>lm. status lm = PENDING) ?ls = []" by (simp add: filter_empty_conv)
  have "map line_ref ?ls = map line_ref (document_lines d)"
    by (rule lines_at_stored) (use c in \<open>simp_all add: document_stored_def list_all_iff\<close>)
  moreover have "map dec_ref (map (decision_of r) ?ls) = map line_ref ?ls"
    by (simp add: decision_of_def)
  ultimately show ?thesis
    using ls decision_terminal by (simp add: derive_decision_set_def document_lines_now f list_all_iff)
qed

lemma finalize_decides:
  assumes "coherent_run r" "distinct (map fst (rn_lines r))" "document_stored d r"
    and "list_all (\<lambda>lm. decided r (line_ref lm)) (document_lines d)"
  shows "\<exists>ds sidecar r'. finalize_document u cfg lp d r = Inr (ds, sidecar, r') \<and>
    map dec_ref ds = map line_ref (document_lines d) \<and> list_all terminal ds \<and>
    coherent_run r' \<and> progress r r' \<and> \<not> (units_whole r \<and> \<not> units_whole r')"
proof -
  obtain sidecar r3 where s: "sound_step r r3" and
    f: "finalize_document u cfg lp d r =
      (case derive_decision_set d r3 of Inl e \<Rightarrow> Inl e | Inr ds \<Rightarrow> Inr (ds, sidecar, r3))"
    by (rule finalize_passes [OF assms(1,2)])
  have p: "coherent_run r3" "progress r r3" "units_whole r \<longrightarrow> units_whole r3"
    using s by (simp_all add: sound_step_def)
  have "list_all (\<lambda>lm. decided r3 (line_ref lm)) (document_lines d)"
    using assms(4) progress_decided [OF p(2)] by (simp add: list_all_iff)
  from derive_decides [OF p(1) stored_progress [OF p(2) assms(3)] this] p
  show ?thesis unfolding f by auto
qed

section \<open>Properties\<close>

text \<open>On a coherent run whose document lines are all decided, finalisation never fails: it gives
  one terminal decision per line in reading order, a fallen line's final text being its source, and
  it keeps the run coherent, undoes no decision and leaves no hyphen unit half fallen that was whole.\<close>

theorem finalize_document_decides:
  assumes "coherent_run r" "distinct (map fst (rn_lines r))" "document_stored d r"
    and "list_all (\<lambda>lm. decided r (line_ref lm)) (document_lines d)"
  shows "\<exists>ds sidecar r'. finalize_document u cfg lp d r = Inr (ds, sidecar, r') \<and>
    map dec_ref ds = map line_ref (document_lines d) \<and> list_all terminal ds \<and>
    coherent_run r' \<and> progress r r' \<and> \<not> (units_whole r \<and> \<not> units_whole r')"
  by (rule finalize_decides [OF assms])

definition demo_document :: document_manifest where
  "demo_document =
     \<lparr>doc_id = ''d'', doc_source_files = [''f''],
      doc_pages = [\<lparr>pg_id = ''P'', pg_source_file = ''f'', pg_index = 0, pg_width = 1, pg_height = 1,
        pg_blocks = [], pg_lines = map snd (rn_lines demo_pair)\<rparr>],
      doc_source_format = None, doc_source_encodings = [], doc_source_digests = []\<rparr>"

lemma finalize_document_decides_witness:
  "\<exists>ds sidecar r'. finalize_document ascii_unicode DEFAULT_GUARD_CONFIG DEFAULT_LOSS_POLICY
     demo_document demo_pair = Inr (ds, sidecar, r') \<and> map dec_ref ds = [LineRef ''P'' ''a'', LineRef ''P'' ''b'']"
proof -
  have "document_stored demo_document demo_pair"
    by (simp add: document_stored_def document_lines_def demo_document_def demo_pair_def Let_def
        line_at_def plain_line_def line_ref_def)
  moreover have "list_all (\<lambda>lm. decided demo_pair (line_ref lm)) (document_lines demo_document)"
    by (simp add: document_lines_def demo_document_def demo_pair_def Let_def line_at_def plain_line_def
        line_ref_def decided_def)
  moreover have "map line_ref (document_lines demo_document) = [LineRef ''P'' ''a'', LineRef ''P'' ''b'']"
    by (simp add: document_lines_def demo_document_def demo_pair_def Let_def plain_line_def line_ref_def)
  ultimately show ?thesis
    using finalize_document_decides [OF demo_pair_coherent, of demo_document ascii_unicode
        DEFAULT_GUARD_CONFIG DEFAULT_LOSS_POLICY] by metis
qed

text \<open>C37: the decision set refuses to exist exactly when a line of the document is still undecided,
  and the error is a \<open>RuntimeError\<close>.\<close>

theorem undecided_line_refused:
  "derive_decision_set d r =
     (if list_ex (\<lambda>lm. status lm = PENDING) (document_lines (document_now r d))
      then Inl (Exn C_RuntimeError ''line(s) reached the end of the run with no terminal decision'')
      else Inr (map (decision_of r) (document_lines (document_now r d))))"
  by (simp add: derive_decision_set_def Let_def list_ex_iff filter_empty_conv)

text \<open>The order token: a pass runs exactly when everything it requires has run and it has not
  itself; then the token remembers it. So the loss gate refuses to run before the adjacency pass,
  and no pass runs twice.\<close>

theorem finalisation_order_enforced:
  "(\<exists>x. loss_policy_pass lp d (Some so_far) r = Inr x) =
     ({''adjacency'', ''break_chars''} \<subseteq> set so_far \<and> ''loss_policy'' \<notin> set so_far) \<and>
   (\<exists>x. preserve_break_chars u d (Some so_far) r = Inr x) =
     (''adjacency'' \<in> set so_far \<and> ''break_chars'' \<notin> set so_far) \<and>
   (\<exists>x. global_adjacency_pass u cfg d (Some so_far) r = Inr x) = (''adjacency'' \<notin> set so_far)"
  by (auto simp: loss_policy_pass_def preserve_break_chars_def global_adjacency_pass_def entering_def
      Let_def split: option.split prod.split)

text \<open>The structured reason of a fallen line carries the code the fallback counters count it
  under.\<close>

theorem reason_code_is_counted_prefix:
  "map_option code (structured_reason why) = (if truthy why then Some (reason_prefix why) else None)"
  by (simp add: structured_reason_def reason_prefix_def py_or_def Let_def)

end
