(* ===== verification/Driver.thy ===== *)
theory Driver
  imports Attempt Finalize
begin

text \<open>
  \<open>core/outcome.py\<close> and \<open>core/driver.py\<close>: what a chunk's ending does to its lines, the descent to a
  finer granularity, and one page from its plan to its last chunk. A chunk's result is an exception
  or the number of pairs reconciled, with the budget and the run it leaves. The descent calls
  \<open>run_chunk\<close> again; the recursion ends because a forced plan is finer than the chunk that failed,
  which the congruence rule of \<open>handle_chunk_failure\<close> hands to the termination proof.

  Facts: a page is a run pass; a chunk and its whole descent call the producer at most as often as
  the chunk's budget; and when a page returns, every one of its lines is decided.
\<close>

section \<open>Lines of a chunk\<close>

definition workspace_of :: "page_manifest \<Rightarrow> lref list option \<Rightarrow> page_workspace" where
  "workspace_of page page_partners =
     \<lparr>ws_page = pg_id page,
      ws_lines = foldl (\<lambda>d lm. dict_set (line_id lm) (line_ref lm) d) [] (pg_lines page),
      ws_partners = page_partners\<rparr>"

definition chunk_refs :: "page_workspace \<Rightarrow> chunk_request \<Rightarrow> lref list" where
  "chunk_refs ws chunk = List.map_filter (map_of (ws_lines ws)) (line_ids chunk)"

definition target_refs :: "run \<Rightarrow> chunk_request \<Rightarrow> lref list \<Rightarrow> lref list" where
  "target_refs r chunk refs =
     filter (\<lambda>ref. case line_at r ref of None \<Rightarrow> False | Some lm \<Rightarrow> line_id lm \<in> set (targets chunk)) refs"

section \<open>The three endings\<close>

definition texts_of :: "line_proposal list \<Rightarrow> (ident, ptext) dict" where
  "texts_of batch = foldl (\<lambda>d p. dict_set (lp_line_id p) (lp_corrected_text p) d) [] batch"

definition finish_successful_chunk ::
  "engine \<Rightarrow> chunk_request \<Rightarrow> lref list \<Rightarrow> line_proposal list \<Rightarrow> page_workspace \<Rightarrow> run \<Rightarrow> nat \<times> run" where
  "finish_successful_chunk eng chunk refs batch ws r =
     (let texts = texts_of batch;
          trefs = target_refs r chunk refs;
          (n, r1) = reconcile_chunk_hyphens (en_unicode eng) (en_guard eng) ws (lines_at r trefs) texts r;
          r2 = apply_line_acceptance (en_guard eng) ws texts trefs r1
      in (n, finalize_chunk_traces trefs r2))"

definition extend_to_units :: "lref list \<Rightarrow> page_workspace \<Rightarrow> run \<Rightarrow> run" where
  "extend_to_units trefs ws r =
     (let seeds = lines_at r trefs; target_ids = map line_id seeds
      in foldl (\<lambda>r lm. if line_id lm \<in> set target_ids then r
                        else fall_back ''hyphen_unit_fallback'' (line_ref lm) r)
           r (units_containing seeds (unit_pool r ws)))"

definition apply_chunk_fallback ::
  "chunk_request \<Rightarrow> lref list \<Rightarrow> page_workspace \<Rightarrow> string \<Rightarrow> run \<Rightarrow> run" where
  "apply_chunk_fallback chunk refs ws msg r =
     (let trefs = target_refs r chunk refs
      in extend_to_units trefs ws (fall_back_all (''all_attempts_exhausted: '' @ take 120 msg) trefs r))"

definition absorb_chunk_error :: "engine \<Rightarrow> exn \<Rightarrow> chunk_request \<Rightarrow> page_workspace \<Rightarrow> run \<Rightarrow> bool \<times> run" where
  "absorb_chunk_error eng exc chunk ws r =
     (let undecided = filter (\<lambda>ref. case line_at r ref of None \<Rightarrow> False | Some lm \<Rightarrow> status lm = PENDING)
            (List.map_filter (map_of (ws_lines ws)) (targets chunk))
      in if undecided = [] then (False, r)
         else (True, fall_back_all (''chunk_error_absorbed: '' @ take 120 (en_sanitize eng (exn_msg exc)))
                       (map line_ref (units_containing (lines_at r undecided) (unit_pool r ws))) r))"

definition count_fallback :: "run \<Rightarrow> run" where
  "count_fallback r = update_ctx (\<lambda>c. c\<lparr>fallback_chunks := fallback_chunks c + 1\<rparr>) r"

section \<open>Planning on the live page\<close>

text \<open>\<open>plan_page\<close> severs links on the very lines of the run: its page is written back.\<close>

definition sync_links :: "line_manifest list \<Rightarrow> run \<Rightarrow> run" where
  "sync_links lms r = foldl (\<lambda>r lm. update_line (\<lambda>_. lm) (line_ref lm) r) r lms"

definition plan_live ::
  "engine \<Rightarrow> page_manifest \<Rightarrow> ident \<Rightarrow> chunk_granularity option \<Rightarrow> run \<Rightarrow> (exn + chunk_plan) \<times> run" where
  "plan_live eng page document force_g r =
     (case plan_page (en_new_id eng) page document (en_planner eng) force_g of
        Inl e \<Rightarrow> (Inl e, r)
      | Inr (page', plan) \<Rightarrow>
          (Inr plan, update_ctx (\<lambda>c. c\<lparr>ctx_hyphen_splits := ctx_hyphen_splits c @ hyphen_splits plan\<rparr>)
                       (sync_links (pg_lines page') r)))"

section \<open>One chunk and its descent\<close>

type_synonym chunk_result = "(exn + nat) \<times> int \<times> run"

definition aborted :: "engine \<Rightarrow> run \<Rightarrow> bool" where
  "aborted eng r \<longleftrightarrow> (case en_should_abort eng of None \<Rightarrow> False | Some probe \<Rightarrow> probe r)"

definition message_or :: "string \<Rightarrow> string \<Rightarrow> string" where
  "message_or msg otherwise = (if msg = [] then otherwise else msg)"

fun run_subs ::
  "(chunk_request \<Rightarrow> int \<Rightarrow> run \<Rightarrow> chunk_result) \<Rightarrow> engine \<Rightarrow> page_workspace \<Rightarrow> string \<Rightarrow> nat \<Rightarrow>
   chunk_request list \<Rightarrow> int \<Rightarrow> run \<Rightarrow> chunk_result" where
  "run_subs rec eng ws msg done_pairs [] budget r = (Inr done_pairs, budget, r)"
| "run_subs rec eng ws msg done_pairs (sub # subs) budget r =
     (if aborted eng r
      then (Inl (Exn C_CorrectionAborted ''run aborted during granularity descent''), budget, r)
      else if exhausted budget then
        run_subs rec eng ws msg done_pairs subs budget
          (count_fallback (apply_chunk_fallback sub (chunk_refs ws sub) ws
             (message_or msg ''per_chunk_budget exhausted'') r))
      else
        (case rec sub budget r of
           (Inl e, b', r') \<Rightarrow> (Inl e, b', r')
         | (Inr n, b', r') \<Rightarrow> run_subs rec eng ws msg (done_pairs + n) subs b' r'))"

definition descend_granularity ::
  "(chunk_request \<Rightarrow> int \<Rightarrow> run \<Rightarrow> chunk_result) \<Rightarrow> engine \<Rightarrow> page_manifest \<Rightarrow> page_workspace \<Rightarrow>
   chunk_request \<Rightarrow> lref list \<Rightarrow> chunk_granularity \<Rightarrow> string \<Rightarrow> int \<Rightarrow> run \<Rightarrow> chunk_result" where
  "descend_granularity rec eng page ws chunk refs next_g msg budget r =
     (let descent_lines = lines_at r (target_refs r chunk refs)
      in case plan_live eng (subpage_for_lines (page_now r page) descent_lines) (ch_document_id chunk)
                (Some next_g) r of
           (Inl e, r1) \<Rightarrow> (Inl e, budget, r1)
         | (Inr plan, r1) \<Rightarrow> run_subs rec eng ws msg 0 (chunks plan) budget r1)"

definition handle_chunk_failure ::
  "(chunk_request \<Rightarrow> int \<Rightarrow> run \<Rightarrow> chunk_result) \<Rightarrow> engine \<Rightarrow> page_manifest \<Rightarrow> page_workspace \<Rightarrow>
   chunk_request \<Rightarrow> lref list \<Rightarrow> attempt_outcome \<Rightarrow> int \<Rightarrow> run \<Rightarrow> chunk_result" where
  "handle_chunk_failure rec eng page ws chunk refs outcome budget r =
     (let next_g = downgrade_granularity (granularity chunk) in
      if can_downgrade outcome \<and> next_g \<noteq> None \<and> \<not> exhausted budget
      then descend_granularity rec eng page ws chunk refs (the next_g) (last_msg outcome) budget r
      else (Inr 0, budget, count_fallback (apply_chunk_fallback chunk refs ws
              (message_or (last_msg outcome) ''all_attempts_exhausted'') r)))"

lemma run_subs_cong:
  "(\<And>sub b r. sub \<in> set subs \<Longrightarrow> rec sub b r = rec' sub b r) \<Longrightarrow>
   run_subs rec eng ws msg done_pairs subs budget r = run_subs rec' eng ws msg done_pairs subs budget r"
proof (induction subs arbitrary: done_pairs budget r)
  case (Cons sub subs)
  have ih: "run_subs rec eng ws msg t subs b x = run_subs rec' eng ws msg t subs b x" for t b x
    by (rule Cons.IH) (use Cons.prems in simp)
  have "rec sub budget r = rec' sub budget r" by (rule Cons.prems) simp
  then show ?case by (simp add: ih split: prod.split sum.split)
qed simp

lemma downgrade_finer: "downgrade_granularity g = Some g' \<Longrightarrow> granularity_rank g' = Suc (granularity_rank g)"
  by (cases g) (auto simp: downgrade_granularity_def GRANULARITY_CHAIN_def)

lemma plan_live_finer:
  assumes "plan_live eng page document (Some g) r = (Inr plan, r')" "sub \<in> set (chunks plan)"
  shows "granularity_rank g \<le> granularity_rank (granularity sub)"
proof -
  from assms(1) obtain page' where
    "plan_page (en_new_id eng) page document (en_planner eng) (Some g) = Inr (page', plan)"
    by (auto simp: plan_live_def split: sum.splits)
  from plan_page_finer [OF this assms(2)] show ?thesis .
qed

lemma handle_chunk_failure_cong [fundef_cong]:
  assumes "eng = eng'" "page = page'" "ws = ws'" "chunk = chunk'" "refs = refs'" "outcome = outcome'"
    "budget = budget'" "r = r'"
    and "\<And>sub b x. granularity_rank (granularity chunk') < granularity_rank (granularity sub) \<Longrightarrow>
      rec sub b x = rec' sub b x"
  shows "handle_chunk_failure rec eng page ws chunk refs outcome budget r =
    handle_chunk_failure rec' eng' page' ws' chunk' refs' outcome' budget' r'"
proof (cases "downgrade_granularity (granularity chunk')")
  case (Some g)
  have "run_subs rec eng' ws' msg 0 (chunks plan) b x = run_subs rec' eng' ws' msg 0 (chunks plan) b x"
    if "plan_live eng' pg doc (Some g) y = (Inr plan, x)" for plan pg doc y x msg b
  proof (rule run_subs_cong)
    fix sub c z
    assume "sub \<in> set (chunks plan)"
    from plan_live_finer [OF that this] downgrade_finer [OF Some] show "rec sub c z = rec' sub c z"
      by (intro assms(9)) simp
  qed
  with Some assms(1-8) show ?thesis
    by (simp add: handle_chunk_failure_def descend_granularity_def Let_def split: prod.split sum.split)
qed (use assms(1-8) in \<open>simp add: handle_chunk_failure_def\<close>)

function run_chunk ::
  "engine \<Rightarrow> page_manifest \<Rightarrow> page_workspace \<Rightarrow> edit_producer \<Rightarrow> chunk_request \<Rightarrow> int \<Rightarrow> run \<Rightarrow> chunk_result" where
  "run_chunk eng page ws producer chunk budget r =
     (let refs = chunk_refs ws chunk in
      if refs = [] then (Inr 0, budget, r)
      else
        (case attempt_chunk eng producer chunk refs (build_hyphen_pairs (lines_at r refs)) ws
                (attempts_allowed budget (max_attempts (en_retry eng))) r of
           (Inl e, r1) \<Rightarrow> (Inl e, budget, r1)
         | (Inr outcome, r1) \<Rightarrow>
             (case ao_response outcome of
                Some batch \<Rightarrow>
                  (let (n, r2) = finish_successful_chunk eng chunk refs batch ws r1
                   in (Inr n, spend budget (attempts_used outcome), r2))
              | None \<Rightarrow>
                  handle_chunk_failure (\<lambda>sub b x. run_chunk eng page ws producer sub b x)
                    eng page ws chunk refs outcome (spend budget (attempts_used outcome)) r1)))"
  by pat_completeness auto
termination
proof (relation "measure (\<lambda>(eng, page, ws, producer, chunk, budget, r). 4 - granularity_rank (granularity chunk))")
  fix chunk sub :: chunk_request and eng :: engine and page :: page_manifest and ws :: page_workspace
    and producer :: edit_producer and budget b :: int and r x :: run
  assume "granularity_rank (granularity chunk) < granularity_rank (granularity sub)"
  moreover have "granularity_rank (granularity sub) \<le> 3" by (cases "granularity sub") simp_all
  ultimately show "((eng, page, ws, producer, sub, b, x), eng, page, ws, producer, chunk, budget, r)
      \<in> measure (\<lambda>(eng, page, ws, producer, chunk, budget, r). 4 - granularity_rank (granularity chunk))"
    by simp
qed simp

declare run_chunk.simps [simp del]

section \<open>The page\<close>

definition plan_page_chunks ::
  "engine \<Rightarrow> page_manifest \<Rightarrow> ident \<Rightarrow> page_workspace \<Rightarrow> run \<Rightarrow> (exn + work_item list) \<times> run" where
  "plan_page_chunks eng page document ws r =
     (case plan_live eng (page_now r page) document None r of
        (Inl e, r1) \<Rightarrow> (Inl e, r1)
      | (Inr plan, r1) \<Rightarrow>
          (let (items, r2) = route_and_filter_chunks (en_qe eng) (en_routing eng) (en_producer eng)
                 (en_escalation eng) page (chunks plan) ws r1
           in (split_for_image_cap (map (\<lambda>(lid, ref). (lid, the (line_at r2 ref))) (ws_lines ws)) items, r2)))"

definition run_chunk_absorbing ::
  "engine \<Rightarrow> page_manifest \<Rightarrow> page_workspace \<Rightarrow> work_item \<Rightarrow> run \<Rightarrow> (exn + nat) \<times> run" where
  "run_chunk_absorbing eng page ws item r =
     (let (chunk, producer) = item in
      case run_chunk eng page ws producer chunk (per_chunk_budget (en_retry eng)) r of
        (Inr n, b, r1) \<Rightarrow> (Inr n, r1)
      | (Inl e, b, r1) \<Rightarrow>
          if exn_class e = C_CorrectionAborted \<or> exn_class e = C_ProviderPermanentError then (Inl e, r1)
          else if \<not> is_saknussemm_error (exn_class e) then (Inl e, r1)
          else
            (let (fell, r2) = absorb_chunk_error eng e chunk ws r1
             in (Inr 0, if fell then count_fallback r2 else r2)))"

fun run_items ::
  "engine \<Rightarrow> page_manifest \<Rightarrow> page_workspace \<Rightarrow> nat \<Rightarrow> nat \<Rightarrow> work_item list \<Rightarrow> run \<Rightarrow> (exn + nat \<times> nat) \<times> run" where
  "run_items eng page ws n_chunks n_pairs [] r = (Inr (n_chunks, n_pairs), r)"
| "run_items eng page ws n_chunks n_pairs (item # items) r =
     (if aborted eng r then (Inl (Exn C_CorrectionAborted ''run aborted before chunk''), r)
      else
        (case run_chunk_absorbing eng page ws item r of
           (Inl e, r1) \<Rightarrow> (Inl e, r1)
         | (Inr n, r1) \<Rightarrow> run_items eng page ws (Suc n_chunks) (n_pairs + n) items r1))"

definition process_page ::
  "engine \<Rightarrow> page_manifest \<Rightarrow> ident \<Rightarrow> lref list option \<Rightarrow> run \<Rightarrow> (exn + nat \<times> nat) \<times> run" where
  "process_page eng page document page_partners r =
     (let ws = workspace_of page page_partners in
      case plan_page_chunks eng page document ws r of
        (Inl e, r1) \<Rightarrow> (Inl e, r1)
      | (Inr items, r1) \<Rightarrow> run_items eng page ws 0 0 items r1)"

section \<open>Every ending is a run pass\<close>

definition sound :: "run \<Rightarrow> run \<Rightarrow> bool" where
  "sound r r' \<longleftrightarrow> (coherent_run r \<longrightarrow> coherent_run r' \<and> progress r r')"

lemma sound_refl [simp]: "sound r r"
  by (simp add: sound_def)

lemma sound_trans: "\<lbrakk>sound a b; sound b c\<rbrakk> \<Longrightarrow> sound a c"
  unfolding sound_def using progress_trans by blast

lemma sound_quiet: "quiet r r' \<Longrightarrow> sound r r'"
  using quiet_progress by (simp add: sound_def quiet_def)

lemma sound_fold: "(\<And>r x. sound r (f r x)) \<Longrightarrow> sound r (foldl f r xs)"
proof (induction xs arbitrary: r)
  case (Cons x xs)
  from Cons.IH [OF Cons.prems, of "f r x"] Cons.prems [of r x] sound_trans show ?case by auto
qed simp

lemma sound_fall_back: "sound r (fall_back why ref r)" "sound r (fall_back_all why refs r)"
  using fall_back_keeps fall_back_all_keeps by (simp_all add: sound_def)

lemma sound_count: "sound r (count_fallback r)"
  unfolding count_fallback_def by (intro sound_quiet quiet_ctx)

lemma sound_finish:
  assumes "finish_successful_chunk eng chunk refs batch ws r = (n, r')"
  shows "sound r r'"
  unfolding sound_def
proof
  assume c: "coherent_run r"
  let ?trefs = "target_refs r chunk refs"
  obtain k r1 where
    k: "reconcile_chunk_hyphens (en_unicode eng) (en_guard eng) ws (lines_at r ?trefs) (texts_of batch) r = (k, r1)"
    by fastforce
  with reconcile_chunk_keeps [OF c, of "en_unicode eng" "en_guard eng" ws "lines_at r ?trefs" "texts_of batch"]
  have 1: "coherent_run r1" "progress r r1" by simp_all
  note 2 = acceptance_keeps [OF 1(1), of "en_guard eng" ws "texts_of batch" ?trefs]
  note 3 = finalize_chunk_traces_keeps [OF 2(1), of ?trefs]
  have "r' = finalize_chunk_traces ?trefs (apply_line_acceptance (en_guard eng) ws (texts_of batch) ?trefs r1)"
    using assms k by (simp add: finish_successful_chunk_def Let_def)
  with 3 progress_trans [OF 1(2) progress_trans [OF 2(2) 3(2)]] show "coherent_run r' \<and> progress r r'" by simp
qed

lemma sound_extend: "sound r (extend_to_units trefs ws r)"
  unfolding extend_to_units_def Let_def
  by (intro sound_fold) (simp add: sound_fall_back split: if_split)

lemma sound_chunk_fallback: "sound r (apply_chunk_fallback chunk refs ws msg r)"
  unfolding apply_chunk_fallback_def Let_def using sound_fall_back sound_extend sound_trans by blast

lemma sound_absorb:
  assumes "absorb_chunk_error eng exc chunk ws r = (b, r')"
  shows "sound r r'"
  using assms sound_fall_back(2) by (auto simp: absorb_chunk_error_def Let_def split: if_splits)

text \<open>Writing a severed page back.\<close>

lemma strip_links_ref: "strip_links a = strip_links b \<Longrightarrow> line_ref a = line_ref b"
  using fixed_part_fields(4) strip_links_decision(3) by blast

lemma sync_links_keeps:
  assumes "coherent_run r"
    and "\<And>lm. lm \<in> set lms \<Longrightarrow> \<exists>a. line_at r (line_ref lm) = Some a \<and> strip_links lm = strip_links a"
  shows "coherent_run (sync_links lms r) \<and> progress r (sync_links lms r)"
  using assms
proof (induction lms arbitrary: r)
  case (Cons lm lms)
  obtain a where a: "line_at r (line_ref lm) = Some a" "strip_links lm = strip_links a"
    using Cons.prems(2) by force
  let ?r = "update_line (\<lambda>_. lm) (line_ref lm) r"
  have "coherent_run ?r \<and> progress r ?r"
  proof (rule coherent_write [where f = "\<lambda>_. lm" and stamps = False, OF Cons.prems(1) store_keys_simps(1) line_at_update])
    fix b
    assume b: "line_at r (line_ref lm) = Some b" "settled b"
    with a have "strip_links lm = strip_links b" by simp
    from strip_links_decision(2,3) [OF this] settled_strip [OF this] b(2)
    show "fixed_part lm = fixed_part b \<and> settled lm \<and> decided_rank (status b) \<le> decided_rank (status lm) \<and>
        (False \<longrightarrow> status lm = FALLBACK)" by simp
  qed auto
  moreover have "\<exists>c. line_at ?r (line_ref x) = Some c \<and> strip_links x = strip_links c" if "x \<in> set lms" for x
    using Cons.prems(2) [of x] that a by (auto simp: line_at_update)
  ultimately have "coherent_run (sync_links lms ?r) \<and> progress ?r (sync_links lms ?r)" "progress r ?r"
    using Cons.IH [of ?r] by blast+
  then show ?case using progress_trans by (auto simp: sync_links_def)
qed (simp add: sync_links_def)

lemma plan_page_cuts:
  assumes "plan_page new_id page document cfg g = Inr (page', plan)"
  shows "only_cuts (pg_lines page) (pg_lines page')"
proof -
  have "index_ok (index_by_id (pg_lines page)) (pg_lines page)"
    using index_by_id_lookup(1) by (auto simp: index_ok_def)
  from plan_line_from_spec [OF this, of 0 cfg] assms show ?thesis
    using only_cuts_refl by (auto simp: plan_page_def plan_line_def split: if_splits sum.splits prod.splits)
qed

lemma cut_lines_stored:
  assumes "coherent_run r" "only_cuts (lines_at r refs) lms" "lm \<in> set lms"
  shows "\<exists>a. line_at r (line_ref lm) = Some a \<and> strip_links lm = strip_links a"
proof -
  from assms(2,3) obtain a where a: "a \<in> set (lines_at r refs)" "strip_links lm = strip_links a"
    by (auto simp: only_cuts_def list_all2_conv_all_nth in_set_conv_nth) (metis nth_mem)
  then obtain ref where "line_at r ref = Some a" by (auto simp: in_lines_at)
  with assms(1) strip_links_ref [OF a(2)] a(2) show ?thesis by (auto simp: coherent_run_def)
qed

lemma plan_live_sound:
  assumes "plan_live eng page document g r = (res, r')" "pg_lines page = lines_at r refs"
  shows "sound r r'"
proof (cases "plan_page (en_new_id eng) page document (en_planner eng) g")
  case (Inl e)
  with assms show ?thesis by (simp add: plan_live_def)
next
  case (Inr x)
  obtain page' plan where x: "x = (page', plan)" by fastforce
  note cuts = plan_page_cuts [OF Inr [unfolded x], unfolded assms(2)]
  have "sound r (sync_links (pg_lines page') r)"
    unfolding sound_def using sync_links_keeps cut_lines_stored [OF _ cuts] by blast
  with assms(1) Inr x show ?thesis
    using sound_trans sound_quiet quiet_ctx by (auto simp: plan_live_def)
qed

lemma page_now_lines: "pg_lines (page_now r page) = lines_at r (map line_ref (pg_lines page))"
  by (simp add: page_now_def)

lemma subpage_lines: "pg_lines (subpage_for_lines page lms) = lms"
  by (simp add: subpage_for_lines_def Let_def)

section \<open>The descent keeps the run and its budget\<close>

definition chunk_ok :: "int \<Rightarrow> run \<Rightarrow> chunk_result \<Rightarrow> bool" where
  "chunk_ok budget r out \<longleftrightarrow>
     (let (res, budget', r') = out in
      sound r r' \<and>
      (0 \<le> budget \<longrightarrow>
        (case res of
           Inl e \<Rightarrow> calls r' \<le> calls r + budget
         | Inr n \<Rightarrow> 0 \<le> budget' \<and> calls r' + budget' \<le> calls r + budget)))"

lemma calls_update_line [simp]: "calls (update_line f ref r) = calls r"
  by (simp add: calls_def update_line_def split: option.split)

lemma calls_decide [simp]:
  "calls (fall_back why ref r) = calls r" "calls (accept new ref r) = calls r"
  by (simp_all add: fall_back_def accept_def split: option.split)

lemma calls_fall_back_all [simp]: "calls (fall_back_all why refs r) = calls r"
  unfolding fall_back_all_def by (rule calls_fold) simp

lemma calls_count [simp]: "calls (count_fallback r) = calls r"
  by (simp add: count_fallback_def calls_def update_ctx_def)

lemma calls_extend [simp]: "calls (extend_to_units trefs ws r) = calls r"
  unfolding extend_to_units_def Let_def by (rule calls_fold) simp

lemma calls_chunk_fallback [simp]: "calls (apply_chunk_fallback chunk refs ws msg r) = calls r"
  by (simp add: apply_chunk_fallback_def Let_def)

lemma calls_finalize_traces [simp]: "calls (finalize_chunk_traces refs r) = calls r"
  unfolding finalize_chunk_traces_def by (rule calls_fold) (simp split: option.split)

lemma calls_accept_line [simp]: "calls (accept_line cfg ws texts ref r) = calls r"
  by (simp add: accept_line_def Let_def split: option.split)

lemma calls_acceptance [simp]: "calls (apply_line_acceptance cfg ws texts refs r) = calls r"
  unfolding apply_line_acceptance_def by (rule calls_fold) simp

lemma calls_pair [simp]: "calls (snd (reconcile_one_pair u cfg texts f tail head r)) = calls r"
  by (simp add: reconcile_one_pair_def Let_def split: option.split prod.split)

lemma calls_refresh [simp]: "calls (refresh_pair_traces outcome tail head r) = calls r"
  by (simp add: refresh_pair_traces_def refresh_side_def Let_def split: option.split)

lemma calls_walk_member:
  "calls (run_of (walk_member u cfg texts joins st m)) = calls (run_of st)"
proof -
  have ctx: "calls (update_ctx (record_reconcile_outcome out) r) = calls r" for out r
    by (simp add: calls_def update_ctx_def record_reconcile_outcome_def Let_def)
  obtain n w r where st: "st = (n, w, r)" by (metis prod_cases3)
  show ?thesis
  proof (cases "map_of joins m")
    case (Some j)
    obtain tail head f where j: "j = (tail, head, f)" by (metis prod_cases3)
    obtain outcome r1 where p: "reconcile_one_pair u cfg texts f tail head r = (outcome, r1)" by fastforce
    with calls_pair [of u cfg texts f tail head r] have "calls r1 = calls r" by simp
    then show ?thesis by (simp add: walk_member_def run_of_def st Some j p ctx)
  qed (simp add: walk_member_def run_of_def st)
qed

lemma calls_reconcile [simp]: "calls (snd (reconcile_chunk_hyphens u cfg ws lms texts r)) = calls r"
proof -
  have "calls (run_of (foldl (walk_member u cfg texts joins) st ms)) = calls (run_of st)" for joins st ms
    by (induction ms arbitrary: st) (simp_all add: calls_walk_member)
  from this [of "fst (claim_joins r ws lms)" "(0, [], r)"] show ?thesis
    by (simp add: reconcile_chunk_hyphens_def walk_units_reconciling_def run_of_def Let_def split_beta)
qed

lemma calls_finish:
  assumes "finish_successful_chunk eng chunk refs batch ws r = (n, r')"
  shows "calls r' = calls r"
proof -
  let ?trefs = "target_refs r chunk refs"
  obtain k r1 where
    c: "reconcile_chunk_hyphens (en_unicode eng) (en_guard eng) ws (lines_at r ?trefs) (texts_of batch) r = (k, r1)"
    by fastforce
  with calls_reconcile [of "en_unicode eng" "en_guard eng" ws "lines_at r ?trefs" "texts_of batch" r]
  have "calls r1 = calls r" by simp
  with assms c show ?thesis by (auto simp: finish_successful_chunk_def Let_def)
qed

lemma calls_plan_live: "plan_live eng page document g r = (res, r') \<Longrightarrow> calls r' = calls r"
proof -
  have "calls (sync_links lms r) = calls r" for lms r
    unfolding sync_links_def by (rule calls_fold) simp
  then show "plan_live eng page document g r = (res, r') \<Longrightarrow> calls r' = calls r"
    by (auto simp: plan_live_def calls_def update_ctx_def split: sum.splits)
qed

lemma run_subs_ok:
  assumes "\<And>sub b r. sub \<in> set subs \<Longrightarrow> chunk_ok b r (rec sub b r)"
  shows "chunk_ok budget r (run_subs rec eng ws msg n subs budget r)"
  using assms
proof (induction subs arbitrary: n budget r)
  case Nil
  then show ?case by (simp add: chunk_ok_def)
next
  case (Cons sub subs)
  have ih: "chunk_ok b x (run_subs rec eng ws msg k subs b x)" for b x k
    by (rule Cons.IH) (use Cons.prems in simp)
  show ?case
  proof (cases "aborted eng r")
    case True
    then show ?thesis by (simp add: chunk_ok_def)
  next
    case na: False
    show ?thesis
    proof (cases "exhausted budget")
      case True
      let ?r = "count_fallback (apply_chunk_fallback sub (chunk_refs ws sub) ws (message_or msg ''per_chunk_budget exhausted'') r)"
      have "sound r ?r" using sound_trans [OF sound_chunk_fallback sound_count] .
      with ih [of budget ?r n] na True sound_trans show ?thesis
        by (auto simp: chunk_ok_def Let_def split: prod.splits sum.splits)
    next
      case False
      obtain res b1 r1 where s: "rec sub budget r = (res, b1, r1)" by (metis prod_cases3)
      have c: "chunk_ok budget r (res, b1, r1)" using Cons.prems [of sub budget r] by (simp add: s)
      show ?thesis
      proof (cases res)
        case (Inl e)
        with c na False s show ?thesis by simp
      next
        case (Inr k)
        obtain res2 b2 r2 where t: "run_subs rec eng ws msg (n + k) subs b1 r1 = (res2, b2, r2)" by (metis prod_cases3)
        have d: "chunk_ok b1 r1 (res2, b2, r2)" using ih [of b1 r1 "n + k"] by (simp add: t)
        have "chunk_ok budget r (res2, b2, r2)"
          using c d Inr sound_trans by (cases res2) (auto simp: chunk_ok_def)
        with na False s Inr t show ?thesis by simp
      qed
    qed
  qed
qed

lemma chunk_ok_after:
  assumes "sound r r1" "calls r1 = calls r" "chunk_ok budget r1 out"
  shows "chunk_ok budget r out"
proof -
  obtain res b r2 where out: "out = (res, b, r2)" by (metis prod_cases3)
  with assms sound_trans show ?thesis by (cases res) (auto simp: chunk_ok_def)
qed

lemma handle_chunk_failure_ok:
  assumes "\<And>sub b r. granularity_rank (granularity chunk) < granularity_rank (granularity sub) \<Longrightarrow>
    chunk_ok b r (rec sub b r)"
  shows "chunk_ok budget r (handle_chunk_failure rec eng page ws chunk refs outcome budget r)"
proof -
  define g where "g = downgrade_granularity (granularity chunk)"
  have fb: "chunk_ok budget r (Inr 0, budget, count_fallback (apply_chunk_fallback chunk refs ws msg r))" for msg
    using sound_trans [OF sound_chunk_fallback sound_count] by (simp add: chunk_ok_def)
  show ?thesis
  proof (cases "can_downgrade outcome \<and> g \<noteq> None \<and> \<not> exhausted budget")
    case True
    then obtain g' where g': "g = Some g'" by auto
    let ?sub = "subpage_for_lines (page_now r page) (lines_at r (target_refs r chunk refs))"
    obtain res r1 where p: "plan_live eng ?sub (ch_document_id chunk) (Some g') r = (res, r1)" by fastforce
    have s: "sound r r1" by (rule plan_live_sound [OF p subpage_lines])
    have c: "calls r1 = calls r" by (rule calls_plan_live [OF p])
    have "chunk_ok budget r (descend_granularity rec eng page ws chunk refs g' (last_msg outcome) budget r)"
    proof (cases res)
      case (Inl e)
      with p s c show ?thesis by (simp add: descend_granularity_def Let_def chunk_ok_def)
    next
      case (Inr plan)
      have "chunk_ok budget r1 (run_subs rec eng ws (last_msg outcome) 0 (chunks plan) budget r1)"
      proof (rule run_subs_ok)
        fix sub b x
        assume "sub \<in> set (chunks plan)"
        from plan_live_finer [OF p [unfolded Inr] this] downgrade_finer [of "granularity chunk" g'] g'
        show "chunk_ok b x (rec sub b x)" by (intro assms) (simp add: g_def)
      qed
      from chunk_ok_after [OF s c this] p Inr show ?thesis by (simp add: descend_granularity_def Let_def)
    qed
    with True g' show ?thesis by (simp add: handle_chunk_failure_def g_def [symmetric])
  next
    case False
    with fb show ?thesis by (auto simp: handle_chunk_failure_def g_def [symmetric])
  qed
qed

lemma run_chunk_ok: "chunk_ok budget r (run_chunk eng page ws producer chunk budget r)"
proof (induction eng page ws producer chunk budget r rule: run_chunk.induct)
  case (1 eng page ws producer chunk budget r)
  let ?refs = "chunk_refs ws chunk"
  let ?cap = "attempts_allowed budget (max_attempts (en_retry eng))"
  show ?case
  proof (cases "?refs = []")
    case True
    then show ?thesis by (simp add: run_chunk.simps chunk_ok_def)
  next
    case ne: False
    obtain res r1 where a: "attempt_chunk eng producer chunk ?refs (build_hyphen_pairs (lines_at r ?refs)) ws ?cap r = (res, r1)"
      by fastforce
    have lo: "loop_ok chunk (lines_at r ?refs) 0 (max ?cap 0) r (res, r1)"
      using attempt_chunk_ok [of chunk r ?refs ?cap eng producer "build_hyphen_pairs (lines_at r ?refs)" ws] by (simp add: a)
    then have s: "sound r r1" using sound_quiet by (simp add: loop_ok_def)
    have cap: "0 \<le> budget \<longrightarrow> max ?cap 0 \<le> budget" by (simp add: attempts_allowed_def)
    show ?thesis
    proof (cases res)
      case (Inl e)
      with lo have "calls r1 \<le> calls r + max ?cap 0" by (simp add: loop_ok_def)
      with cap have "0 \<le> budget \<longrightarrow> calls r1 \<le> calls r + budget" by linarith
      with s a ne Inl show ?thesis by (simp add: run_chunk.simps [of eng page ws producer chunk] chunk_ok_def)
    next
      case (Inr ao)
      let ?b1 = "spend budget (attempts_used ao)"
      have c1: "calls r1 = calls r + attempts_used ao" "0 \<le> budget \<longrightarrow> 0 \<le> ?b1"
        using lo cap Inr by (auto simp: loop_ok_def spend_def)
      show ?thesis
      proof (cases "ao_response ao")
        case None
        have "chunk_ok ?b1 r1 (handle_chunk_failure (\<lambda>sub b x. run_chunk eng page ws producer sub b x)
            eng page ws chunk ?refs ao ?b1 r1)"
          by (rule handle_chunk_failure_ok) (use 1 [OF refl ne a [symmetric] Inr None] in simp)
        with s c1 a ne Inr None sound_trans [OF s] show ?thesis
          by (auto simp: run_chunk.simps [of eng page ws producer chunk] chunk_ok_def spend_def split: prod.splits sum.splits)
      next
        case (Some batch)
        obtain n r2 where f: "finish_successful_chunk eng chunk ?refs batch ws r1 = (n, r2)" by fastforce
        with s c1 a ne Inr Some sound_trans [OF s sound_finish [OF f]] calls_finish [OF f] show ?thesis
          by (simp add: run_chunk.simps [of eng page ws producer chunk] chunk_ok_def spend_def)
      qed
    qed
  qed
qed

section \<open>Every target is decided\<close>

text \<open>A page as a run holds it, and a chunk cut from it.\<close>

definition page_ready :: "run \<Rightarrow> page_workspace \<Rightarrow> page_manifest \<Rightarrow> bool" where
  "page_ready r ws page \<longleftrightarrow>
     coherent_run r \<and> distinct (map line_id (pg_lines page)) \<and> blocks_partition page \<and>
     ws_lines ws = map (\<lambda>lm. (line_id lm, line_ref lm)) (pg_lines page) \<and>
     list_all (\<lambda>lm. line_at r (line_ref lm) \<noteq> None) (pg_lines page)"

definition chunk_inside :: "page_manifest \<Rightarrow> chunk_request \<Rightarrow> bool" where
  "chunk_inside page c \<longleftrightarrow>
     valid_chunk c \<and> distinct (line_ids c) \<and> set (targets c) \<subseteq> line_id ` set (pg_lines page)"

definition targets_decided :: "run \<Rightarrow> page_workspace \<Rightarrow> ident list \<Rightarrow> bool" where
  "targets_decided r ws ts \<longleftrightarrow> (\<forall>i \<in> set ts. \<forall>ref. map_of (ws_lines ws) i = Some ref \<longrightarrow> decided r ref)"

lemma ready_after:
  assumes "page_ready r ws page" "sound r r'"
  shows "page_ready r' ws page" "progress r r'"
proof -
  show p: "progress r r'" using assms by (simp add: page_ready_def sound_def)
  with assms show "page_ready r' ws page" by (simp add: page_ready_def sound_def progress_None [OF p])
qed

lemma targets_decided_after:
  assumes "targets_decided r ws ts" "progress r r'"
  shows "targets_decided r' ws ts"
  using assms progress_decided by (auto simp: targets_decided_def)

lemma ready_lookup:
  assumes "page_ready r ws page" "map_of (ws_lines ws) i = Some ref"
  shows "ref_line_id ref = i" "line_at r ref \<noteq> None" "i \<in> line_id ` set (pg_lines page)"
proof -
  have "(i, ref) \<in> set (ws_lines ws)" using assms(2) by (rule map_of_SomeD)
  with assms(1) show "ref_line_id ref = i" "line_at r ref \<noteq> None" "i \<in> line_id ` set (pg_lines page)"
    by (auto simp: page_ready_def list_all_iff)
qed

lemma ready_found:
  assumes "page_ready r ws page" "i \<in> line_id ` set (pg_lines page)"
  obtains ref where "map_of (ws_lines ws) i = Some ref"
proof -
  have "fst ` set (ws_lines ws) = line_id ` set (pg_lines page)" using assms(1) by (force simp: page_ready_def)
  with assms(2) have "map_of (ws_lines ws) i \<noteq> None" by (simp add: map_of_eq_None_iff)
  then show ?thesis using that by blast
qed

lemma chunk_ref_ids:
  assumes "page_ready r ws page"
  shows "map ref_line_id (List.map_filter (map_of (ws_lines ws)) ids) =
      filter (\<lambda>i. i \<in> line_id ` set (pg_lines page)) ids"
    "list_all (\<lambda>ref. line_at r ref \<noteq> None) (List.map_filter (map_of (ws_lines ws)) ids)"
proof (induction ids)
  case (Cons i ids)
  show "map ref_line_id (List.map_filter (map_of (ws_lines ws)) (i # ids)) =
      filter (\<lambda>i. i \<in> line_id ` set (pg_lines page)) (i # ids)"
    using Cons(1) ready_lookup [OF assms, of i] ready_found [OF assms, of i]
    by (cases "map_of (ws_lines ws) i") (auto simp: map_filter_simps)
  show "list_all (\<lambda>ref. line_at r ref \<noteq> None) (List.map_filter (map_of (ws_lines ws)) (i # ids))"
    using Cons(2) ready_lookup(2) [OF assms, of i] by (simp add: map_filter_simps split: option.split)
qed (simp_all add: map_filter_simps)

lemma coherent_at: "\<lbrakk>coherent_run r; line_at r ref = Some lm\<rbrakk> \<Longrightarrow> line_id lm = ref_line_id ref"
  unfolding coherent_run_def by (metis line_ref_sel(2))

lemma target_lines:
  assumes "page_ready r ws page" "chunk_inside page c"
  defines "lms \<equiv> lines_at r (target_refs r c (chunk_refs ws c))"
  shows "map line_id lms = filter (\<lambda>i. i \<in> set (targets c)) (line_ids c)"
proof -
  let ?refs = "chunk_refs ws c"
  have co: "coherent_run r" using assms(1) by (simp add: page_ready_def)
  note ids = chunk_ref_ids [OF assms(1), of "line_ids c", folded chunk_refs_def]
  have t: "target_refs r c ?refs = filter (\<lambda>ref. ref_line_id ref \<in> set (targets c)) ?refs"
    unfolding target_refs_def
  proof (rule filter_cong [OF refl])
    fix ref
    assume "ref \<in> set ?refs"
    with ids(2) obtain lm where "line_at r ref = Some lm" by (auto simp: list_all_iff)
    with coherent_at [OF co this]
    show "(case line_at r ref of None \<Rightarrow> False | Some lm \<Rightarrow> line_id lm \<in> set (targets c)) =
        (ref_line_id ref \<in> set (targets c))" by simp
  qed
  have st: "list_all (\<lambda>ref. line_at r ref \<noteq> None) (target_refs r c ?refs)"
    using ids(2) by (auto simp: t list_all_iff)
  have "map line_id lms = map ref_line_id (map line_ref lms)" by simp
  also have "\<dots> = map ref_line_id (target_refs r c ?refs)" by (simp only: lms_def lines_at_stored [OF co st])
  also have "\<dots> = filter (\<lambda>i. i \<in> set (targets c)) (map ref_line_id ?refs)"
    by (simp add: t filter_map comp_def)
  also have "\<dots> = filter (\<lambda>i. i \<in> set (targets c)) (line_ids c)"
    using assms(2) by (auto simp: ids(1) chunk_inside_def intro!: filter_cong)
  finally show ?thesis .
qed

lemma target_refs_all:
  assumes "page_ready r ws page" "chunk_inside page c" "i \<in> set (targets c)" "map_of (ws_lines ws) i = Some ref"
  shows "ref \<in> set (target_refs r c (chunk_refs ws c))"
proof -
  have "i \<in> set (line_ids c)" using assms(2,3) targets_subset by (auto simp: chunk_inside_def)
  then have "ref \<in> set (chunk_refs ws c)"
    using assms(4) by (force simp: chunk_refs_def map_filter_def)
  moreover obtain lm where "line_at r ref = Some lm" using ready_lookup(2) [OF assms(1,4)] by blast
  moreover have "line_id lm = i"
    using coherent_at [of r ref lm] ready_lookup(1) [OF assms(1,4)] assms(1) calculation(2)
    by (simp add: page_ready_def)
  ultimately show ?thesis using assms(3) by (simp add: target_refs_def)
qed

lemma decided_fall_back_all: "ref \<in> set refs \<Longrightarrow> decided (fall_back_all why refs r) ref"
  by (auto simp: decided_def line_at_fall_back_all)

lemma chunk_fallback_decides:
  assumes "page_ready r ws page" "chunk_inside page c"
  shows "targets_decided (apply_chunk_fallback c (chunk_refs ws c) ws msg r) ws (targets c)"
  unfolding targets_decided_def
proof (intro ballI allI impI)
  fix i ref
  assume i: "i \<in> set (targets c)" "map_of (ws_lines ws) i = Some ref"
  let ?refs = "target_refs r c (chunk_refs ws c)"
  let ?r = "fall_back_all (''all_attempts_exhausted: '' @ take 120 msg) ?refs r"
  have "decided ?r ref" by (rule decided_fall_back_all [OF target_refs_all [OF assms i]])
  moreover have "progress ?r (extend_to_units ?refs ws ?r)"
    using sound_extend [of ?r ?refs ws] fall_back_all_keeps(1) assms(1) by (simp add: sound_def page_ready_def)
  ultimately show "decided (apply_chunk_fallback c (chunk_refs ws c) ws msg r) ref"
    using progress_decided by (simp add: apply_chunk_fallback_def Let_def)
qed

lemma decided_finalize: "decided (finalize_chunk_traces refs r) ref = decided r ref"
  by (simp add: decided_def)

lemma finish_decides:
  assumes "page_ready r ws page" "chunk_inside page c" "covers c (lines_at r (chunk_refs ws c)) batch"
    and "finish_successful_chunk eng c (chunk_refs ws c) batch ws r = (n, r')"
  shows "targets_decided r' ws (targets c)"
proof -
  let ?refs = "target_refs r c (chunk_refs ws c)"
  have co: "coherent_run r" using assms(1) by (simp add: page_ready_def)
  obtain k r1 where
    k: "reconcile_chunk_hyphens (en_unicode eng) (en_guard eng) ws (lines_at r ?refs) (texts_of batch) r = (k, r1)"
    by fastforce
  with reconcile_chunk_keeps [OF co, of "en_unicode eng" "en_guard eng" ws "lines_at r ?refs" "texts_of batch"]
  have r1: "coherent_run r1" "progress r r1" by simp_all
  have r': "r' = finalize_chunk_traces ?refs (apply_line_acceptance (en_guard eng) ws (texts_of batch) ?refs r1)"
    using assms(4) k by (simp add: finish_successful_chunk_def Let_def)
  have texts: "map_of (texts_of batch) (lp_line_id p) \<noteq> None" if "p \<in> set batch" for p
    using that by (induction batch rule: rev_induct) (auto simp: texts_of_def)
  have served: "map_of (texts_of batch) (line_id lm) \<noteq> None" if "ref \<in> set ?refs" "line_at r1 ref = Some lm" for ref lm
  proof -
    from r1(2) that(2) obtain a where a: "line_at r ref = Some a" "line_progress a lm"
      unfolding progress_def by (metis option_rel_Some2)
    from a(1) that(1) have "ref \<in> set (chunk_refs ws c)" "line_id a \<in> set (targets c)" by (auto simp: target_refs_def)
    moreover from this a(1) have "a \<in> set (lines_at r (chunk_refs ws c))" unfolding in_lines_at by blast
    ultimately have "line_id a \<in> set (map line_id (lines_at r (chunk_refs ws c)))" "line_id a \<in> set (targets c)"
      by simp_all
    moreover have "set (targets chunk0) \<inter> set (map line_id lms) \<subseteq> set (map lp_line_id batch)"
      if "covers chunk0 lms batch" for chunk0 :: chunk_request and lms
      using that unfolding covers_def targets_def by (cases "target_line_ids chunk0") auto
    ultimately have "line_id a \<in> set (map lp_line_id batch)" using assms(3) by blast
    then obtain p where "p \<in> set batch" "lp_line_id p = line_id a" by auto
    moreover have "line_id lm = line_id a"
      using a(2) fixed_part_fields(2) [of lm a] by (simp add: line_progress_def)
    ultimately show ?thesis using texts [of p] by simp
  qed
  show ?thesis
    unfolding targets_decided_def r' decided_finalize
  proof (intro ballI allI impI)
    fix i ref
    assume "i \<in> set (targets c)" "map_of (ws_lines ws) i = Some ref"
    note t = target_refs_all [OF assms(1,2) this]
    show "decided (apply_line_acceptance (en_guard eng) ws (texts_of batch) ?refs r1) ref"
      by (rule acceptance_decides [OF r1(1) _ t]) (rule served)
  qed
qed

lemma subpage_ready:
  assumes "page_ready r ws page" "chunk_inside page c"
  defines "sub \<equiv> subpage_for_lines (page_now r page) (lines_at r (target_refs r c (chunk_refs ws c)))"
  shows "distinct (map line_id (pg_lines sub))" "blocks_partition sub"
    "set (map line_id (pg_lines sub)) = set (targets c)"
proof -
  note tl = target_lines [OF assms(1,2)]
  have lines: "map line_id (pg_lines sub) = filter (\<lambda>i. i \<in> set (targets c)) (line_ids c)"
    by (simp only: sub_def subpage_lines tl)
  show dis: "distinct (map line_id (pg_lines sub))" using assms(2) by (simp add: lines chunk_inside_def)
  show ids: "set (map line_id (pg_lines sub)) = set (targets c)"
    using assms(2) targets_subset by (auto simp: lines chunk_inside_def)
  let ?P = "\<lambda>l. l \<in> set (map line_id (pg_lines sub))"
  have bp: "distinct (map blk_id (pg_blocks page))"
    "mset (concat (map blk_line_ids (pg_blocks page))) = mset (map line_id (pg_lines page))"
    using assms(1) by (simp_all add: page_ready_def blocks_partition_def)
  have blocks: "pg_blocks sub = map (\<lambda>b. b\<lparr>blk_line_ids := filter ?P (blk_line_ids b)\<rparr>)
      (filter (\<lambda>b. list_ex ?P (blk_line_ids b)) (pg_blocks page))"
    by (simp add: sub_def subpage_for_lines_def page_now_def Let_def)
  have "concat (map blk_line_ids (pg_blocks sub)) = filter ?P (concat (map blk_line_ids (pg_blocks page)))"
  proof -
    have "concat (map (\<lambda>b. filter ?P (blk_line_ids b)) (filter (\<lambda>b. list_ex ?P (blk_line_ids b)) bs)) =
        filter ?P (concat (map blk_line_ids bs))" for bs
      by (induction bs) (auto simp: list_ex_iff filter_empty_conv)
    then show ?thesis by (simp add: blocks comp_def)
  qed
  then have m: "mset (concat (map blk_line_ids (pg_blocks sub))) = mset (filter ?P (map line_id (pg_lines page)))"
    by (simp add: bp(2))
  have "mset (filter ?P (map line_id (pg_lines page))) = mset (map line_id (pg_lines sub))"
    using assms(1,2) dis
    by (intro set_eq_iff_mset_eq_distinct [THEN iffD1]) (auto simp: page_ready_def chunk_inside_def ids [simplified])
  moreover have "distinct (map blk_id (pg_blocks sub))"
    using bp(1) by (simp add: blocks comp_def distinct_map_filter)
  ultimately show "blocks_partition sub" using m by (simp add: blocks_partition_def)
qed

lemma descent_plan:
  assumes "page_ready r ws page" "chunk_inside page c" "valid_planner_config (en_planner eng)"
    and "plan_live eng (subpage_for_lines (page_now r page) (lines_at r (target_refs r c (chunk_refs ws c))))
      document (Some g) r = (Inr plan, r')"
  shows "list_all (chunk_inside page) (chunks plan)" "set (concat (map targets (chunks plan))) = set (targets c)"
    "page_ready r' ws page"
proof -
  let ?sub = "subpage_for_lines (page_now r page) (lines_at r (target_refs r c (chunk_refs ws c)))"
  note sub = subpage_ready [OF assms(1,2)]
  from plan_page_complete [OF assms(3) sub(1,2), of "en_new_id eng" document "Some g"] assms(4)
  have plan: "mset (concat (map targets (chunks plan))) = mset (map line_id (pg_lines ?sub))"
    "list_all (\<lambda>c. valid_chunk c \<and> distinct (line_ids c)) (chunks plan)"
    by (auto simp: plan_live_def)
  from plan(1) sub(3) show t: "set (concat (map targets (chunks plan))) = set (targets c)"
    by (metis mset_eq_setD)
  from plan(2) t assms(2) show "list_all (chunk_inside page) (chunks plan)"
    by (auto simp: list_all_iff chunk_inside_def)
  show "page_ready r' ws page" by (rule ready_after(1) [OF assms(1) plan_live_sound [OF assms(4) subpage_lines]])
qed

definition decides :: "page_workspace \<Rightarrow> page_manifest \<Rightarrow> chunk_request \<Rightarrow> run \<Rightarrow> chunk_result \<Rightarrow> bool" where
  "decides ws page c r out \<longleftrightarrow>
     (let (res, b, r') = out in
      case res of Inl e \<Rightarrow> True | Inr n \<Rightarrow> targets_decided r' ws (targets c))"

lemma targets_decided_append:
  "targets_decided r ws (xs @ ys) \<longleftrightarrow> targets_decided r ws xs \<and> targets_decided r ws ys"
  by (auto simp: targets_decided_def)

lemma run_subs_decides:
  assumes "\<And>sub b r. sub \<in> set subs \<Longrightarrow> chunk_ok b r (rec sub b r)"
    and "\<And>sub b r. \<lbrakk>sub \<in> set subs; page_ready r ws page\<rbrakk> \<Longrightarrow> decides ws page sub r (rec sub b r)"
    and "list_all (chunk_inside page) subs" "page_ready r ws page"
    and "run_subs rec eng ws msg n subs budget r = (Inr k, b', r')"
  shows "targets_decided r' ws (concat (map targets subs))"
  using assms
proof (induction subs arbitrary: n budget r)
  case Nil
  then show ?case by (simp add: targets_decided_def)
next
  case (Cons sub subs)
  have ih: "targets_decided r' ws (concat (map targets subs))" if "page_ready x ws page"
    "run_subs rec eng ws msg m subs b x = (Inr k, b', r')" for x m b
    by (rule Cons.IH [OF _ _ _ that]) (use Cons.prems(1-3) in auto)
  have later: "progress x r'" if "page_ready x ws page"
    "run_subs rec eng ws msg m subs b x = (Inr k, b', r')" for x m b
    using run_subs_ok [of subs rec b x eng ws msg m] Cons.prems(1) that ready_after(2)
    by (auto simp: chunk_ok_def)
  have inside: "chunk_inside page sub" using Cons.prems(3) by simp
  have na: "\<not> aborted eng r" using Cons.prems(5) by (auto split: if_splits)
  show ?case
  proof (cases "exhausted budget")
    case True
    let ?fb = "apply_chunk_fallback sub (chunk_refs ws sub) ws (message_or msg ''per_chunk_budget exhausted'') r"
    have s: "sound r ?fb" "sound ?fb (count_fallback ?fb)" by (rule sound_chunk_fallback sound_count)+
    note ready = ready_after(1) [OF ready_after(1) [OF Cons.prems(4) s(1)] s(2)]
    have rest: "run_subs rec eng ws msg n subs budget (count_fallback ?fb) = (Inr k, b', r')"
      using Cons.prems(5) na True by simp
    have "targets_decided (count_fallback ?fb) ws (targets sub)"
      by (rule targets_decided_after [OF chunk_fallback_decides [OF Cons.prems(4) inside]
            ready_after(2) [OF ready_after(1) [OF Cons.prems(4) s(1)] s(2)]])
    from targets_decided_after [OF this later [OF ready rest]] ih [OF ready rest]
    show ?thesis by (simp add: targets_decided_append)
  next
    case False
    obtain res b1 r1 where s: "rec sub budget r = (res, b1, r1)" by (metis prod_cases3)
    with Cons.prems(5) na False obtain m where m: "res = Inr m"
      and rest: "run_subs rec eng ws msg (n + m) subs b1 r1 = (Inr k, b', r')"
      by (cases res) auto
    have "sound r r1" using Cons.prems(1) [of sub budget r] s by (simp add: chunk_ok_def)
    note ready = ready_after(1) [OF Cons.prems(4) this]
    have "targets_decided r1 ws (targets sub)"
      using Cons.prems(2) [OF _ Cons.prems(4), of sub budget] s m by (simp add: decides_def)
    from targets_decided_after [OF this later [OF ready rest]] ih [OF ready rest]
    show ?thesis by (simp add: targets_decided_append)
  qed
qed

lemma handle_chunk_failure_decides:
  assumes "\<And>sub b r. chunk_ok b r (rec sub b r)"
    and "\<And>sub b r. \<lbrakk>granularity_rank (granularity chunk) < granularity_rank (granularity sub);
      chunk_inside page sub; page_ready r ws page\<rbrakk> \<Longrightarrow> decides ws page sub r (rec sub b r)"
    and "chunk_inside page chunk" "page_ready r ws page" "valid_planner_config (en_planner eng)"
  shows "decides ws page chunk r
    (handle_chunk_failure rec eng page ws chunk (chunk_refs ws chunk) outcome budget r)"
proof -
  define g where "g = downgrade_granularity (granularity chunk)"
  let ?refs = "chunk_refs ws chunk"
  have fb: "decides ws page chunk r (Inr 0, budget, count_fallback (apply_chunk_fallback chunk ?refs ws msg r))" for msg
    using targets_decided_after [OF chunk_fallback_decides [OF assms(4,3), of msg]
        ready_after(2) [OF ready_after(1) [OF assms(4) sound_chunk_fallback] sound_count]]
    by (simp add: decides_def)
  show ?thesis
  proof (cases "can_downgrade outcome \<and> g \<noteq> None \<and> \<not> exhausted budget")
    case True
    then obtain g' where g': "g = Some g'" by auto
    let ?sub = "subpage_for_lines (page_now r page) (lines_at r (target_refs r chunk ?refs))"
    obtain res r1 where p: "plan_live eng ?sub (ch_document_id chunk) (Some g') r = (res, r1)" by fastforce
    have "decides ws page chunk r (descend_granularity rec eng page ws chunk ?refs g' (last_msg outcome) budget r)"
    proof (cases res)
      case (Inl e)
      with p show ?thesis by (simp add: descend_granularity_def Let_def decides_def)
    next
      case (Inr plan)
      note dp = descent_plan [OF assms(4,3,5) p [unfolded Inr]]
      have rec: "decides ws page sub x (rec sub b x)" if "sub \<in> set (chunks plan)" "page_ready x ws page" for sub b x
      proof (rule assms(2) [OF _ _ that(2)])
        show "chunk_inside page sub" using dp(1) that(1) by (simp add: list_all_iff)
        show "granularity_rank (granularity chunk) < granularity_rank (granularity sub)"
          using plan_live_finer [OF p [unfolded Inr] that(1)] downgrade_finer [of "granularity chunk" g'] g'
          by (simp add: g_def)
      qed
      obtain out b2 r2 where o: "run_subs rec eng ws (last_msg outcome) 0 (chunks plan) budget r1 = (out, b2, r2)"
        by (metis prod_cases3)
      have "targets_decided r2 ws (concat (map targets (chunks plan)))" if "out = Inr n" for n
        by (rule run_subs_decides [OF assms(1) rec dp(1,3) o [unfolded that]])
      with dp(2) have "targets_decided r2 ws (targets chunk)" if "out = Inr n" for n
        using that by (auto simp: targets_decided_def)
      with p Inr o show ?thesis by (cases out) (simp_all add: descend_granularity_def Let_def decides_def)
    qed
    with True g' show ?thesis by (simp add: handle_chunk_failure_def g_def [symmetric])
  next
    case False
    with fb show ?thesis by (auto simp: handle_chunk_failure_def g_def [symmetric])
  qed
qed

lemma run_chunk_decides:
  assumes "chunk_inside page chunk" "page_ready r ws page" "valid_planner_config (en_planner eng)"
  shows "decides ws page chunk r (run_chunk eng page ws producer chunk budget r)"
  using assms
proof (induction eng page ws producer chunk budget r rule: run_chunk.induct)
  case (1 eng page ws producer chunk budget r)
  let ?refs = "chunk_refs ws chunk"
  let ?cap = "attempts_allowed budget (max_attempts (en_retry eng))"
  show ?case
  proof (cases "?refs = []")
    case True
    then have "target_refs r chunk ?refs = []" by (simp add: target_refs_def)
    then have "map_of (ws_lines ws) i = None" if "i \<in> set (targets chunk)" for i
      using target_refs_all [OF 1(3,2) that] by (cases "map_of (ws_lines ws) i") auto
    with True show ?thesis by (simp add: run_chunk.simps decides_def targets_decided_def)
  next
    case ne: False
    obtain res r1 where a: "attempt_chunk eng producer chunk ?refs (build_hyphen_pairs (lines_at r ?refs)) ws ?cap r = (res, r1)"
      by fastforce
    have lo: "loop_ok chunk (lines_at r ?refs) 0 (max ?cap 0) r (res, r1)"
      using attempt_chunk_ok [of chunk r ?refs ?cap eng producer "build_hyphen_pairs (lines_at r ?refs)" ws] by (simp add: a)
    then have q: "quiet r r1" by (simp add: loop_ok_def)
    note ready = ready_after(1) [OF 1(3) sound_quiet [OF q]]
    show ?thesis
    proof (cases res)
      case (Inl e)
      with a ne show ?thesis by (simp add: run_chunk.simps [of eng page ws producer chunk] decides_def)
    next
      case (Inr ao)
      show ?thesis
      proof (cases "ao_response ao")
        case None
        have "decides ws page chunk r1 (handle_chunk_failure (\<lambda>sub b x. run_chunk eng page ws producer sub b x)
            eng page ws chunk ?refs ao (spend budget (attempts_used ao)) r1)"
          by (rule handle_chunk_failure_decides [OF run_chunk_ok _ 1(2) ready 1(4)])
            (use 1(1) [OF refl ne a [symmetric] Inr None _ _ _ 1(4)] in blast)
        with a ne Inr None show ?thesis
          by (simp add: run_chunk.simps [of eng page ws producer chunk] decides_def)
      next
        case (Some batch)
        obtain n r2 where f: "finish_successful_chunk eng chunk ?refs batch ws r1 = (n, r2)" by fastforce
        have "covers chunk (lines_at r1 ?refs) batch"
          using lo Inr Some quiet_lines_at [OF q] by (simp add: loop_ok_def)
        from finish_decides [OF ready 1(2) this f] a ne Inr Some f show ?thesis
          by (simp add: run_chunk.simps [of eng page ws producer chunk] decides_def)
      qed
    qed
  qed
qed

section \<open>The page\<close>

lemma page_now_ready:
  assumes "page_ready r ws page"
  shows "map line_id (pg_lines (page_now r page)) = map line_id (pg_lines page)"
proof -
  have st: "list_all (\<lambda>ref. line_at r ref \<noteq> None) (map line_ref (pg_lines page))"
    using assms by (simp add: page_ready_def list_all_iff)
  have "map ref_line_id (map line_ref (lines_at r (map line_ref (pg_lines page)))) =
      map ref_line_id (map line_ref (pg_lines page))"
    using lines_at_stored [OF _ st] assms by (simp add: page_ready_def)
  then show ?thesis by (simp add: page_now_lines comp_def)
qed

lemma workspace_ready:
  assumes "coherent_run r" "distinct (map line_id (pg_lines page))" "blocks_partition page"
    "list_all (\<lambda>lm. line_at r (line_ref lm) \<noteq> None) (pg_lines page)"
  shows "page_ready r (workspace_of page page_partners) page"
proof -
  have "foldl (\<lambda>d lm. dict_set (line_id lm) (line_ref lm) d) [] lms = map (\<lambda>lm. (line_id lm, line_ref lm)) lms"
    if "distinct (map line_id lms)" for lms
    using that by (induction lms rule: rev_induct) (auto simp: image_image intro!: dict_set_new)
  with assms show ?thesis by (simp add: page_ready_def workspace_of_def)
qed

text \<open>Routing confirms only lines it may still decide.\<close>

definition routable :: "engine \<Rightarrow> page_manifest \<Rightarrow> run \<Rightarrow> bool" where
  "routable eng page r \<longleftrightarrow>
     \<not> routing_enabled (en_qe eng) (en_routing eng) \<or> list_all (\<lambda>lm. not_fallen (line_ref lm) r) (pg_lines page)"

lemma confirm_decides:
  assumes "page_ready r ws page" "list_all (\<lambda>lm. not_fallen (line_ref lm) r) (pg_lines page)"
  shows "sound r (confirm_skipped_lines ws skip r) \<and>
    list_all (\<lambda>lm. not_fallen (line_ref lm) (confirm_skipped_lines ws skip r)) (pg_lines page) \<and>
    targets_decided (confirm_skipped_lines ws skip r) ws skip"
  using assms
proof (induction skip arbitrary: r)
  case Nil
  then show ?case by (simp add: confirm_skipped_lines_def targets_decided_def)
next
  case (Cons lid skip)
  define r1 where "r1 = confirm_skipped_lines ws [lid] r"
  have step: "confirm_skipped_lines ws (lid # skip) r = confirm_skipped_lines ws skip r1"
    by (simp add: r1_def confirm_skipped_lines_def)
  have one: "sound r r1 \<and> list_all (\<lambda>lm. not_fallen (line_ref lm) r1) (pg_lines page) \<and> targets_decided r1 ws [lid]"
  proof (cases "map_of (ws_lines ws) lid")
    case None
    with Cons.prems show ?thesis by (simp add: r1_def confirm_skipped_lines_def targets_decided_def)
  next
    case (Some ref)
    obtain a where a: "line_at r ref = Some a" using ready_lookup(2) [OF Cons.prems(1) Some] by blast
    from Some have "(lid, ref) \<in> set (ws_lines ws)" by (rule map_of_SomeD)
    with Cons.prems have nf: "not_fallen ref r" by (auto simp: page_ready_def list_all_iff)
    have r1: "r1 = accept (ocr_text a) ref r" by (simp add: r1_def confirm_skipped_lines_def Some a)
    have "sound r r1"
      using accepting.keeps [of r "(ref, ocr_text a)"] accepting.advances [of r "(ref, ocr_text a)"] nf
      by (simp add: sound_def r1)
    with Cons.prems(2) Some show ?thesis
      by (auto simp: r1 line_at_accept not_fallen_def targets_decided_def decided_def list_all_iff)
  qed
  then have s: "sound r r1" "list_all (\<lambda>lm. not_fallen (line_ref lm) r1) (pg_lines page)"
    "targets_decided r1 ws [lid]" by blast+
  note ready = ready_after(1) [OF Cons.prems(1) s(1)]
  from Cons.IH [OF ready s(2)] have rest: "sound r1 (confirm_skipped_lines ws skip r1)"
    "list_all (\<lambda>lm. not_fallen (line_ref lm) (confirm_skipped_lines ws skip r1)) (pg_lines page)"
    "targets_decided (confirm_skipped_lines ws skip r1) ws skip" by blast+
  have "targets_decided (confirm_skipped_lines ws skip r1) ws [lid]"
    by (rule targets_decided_after [OF s(3) ready_after(2) [OF ready rest(1)]])
  with rest sound_trans [OF s(1) rest(1)] show ?case by (simp add: step targets_decided_def)
qed

lemma sync_links_status:
  assumes "coherent_run r"
    and "\<And>lm. lm \<in> set lms \<Longrightarrow> \<exists>a. line_at r (line_ref lm) = Some a \<and> strip_links lm = strip_links a"
    and "not_fallen ref r"
  shows "not_fallen ref (sync_links lms r)"
  using assms
proof (induction lms arbitrary: r)
  case (Cons lm lms)
  obtain a where a: "line_at r (line_ref lm) = Some a" "strip_links lm = strip_links a"
    using Cons.prems(2) by force
  let ?r = "update_line (\<lambda>_. lm) (line_ref lm) r"
  have one: "coherent_run ?r" "\<exists>c. line_at ?r (line_ref x) = Some c \<and> strip_links x = strip_links c" if "x \<in> set lms" for x
  proof -
    have "coherent_run (sync_links [lm] r) \<and> progress r (sync_links [lm] r)"
      by (rule sync_links_keeps [OF Cons.prems(1)]) (use Cons.prems(2) in simp)
    then show "coherent_run ?r" by (simp add: sync_links_def)
    show "\<exists>c. line_at ?r (line_ref x) = Some c \<and> strip_links x = strip_links c"
      using Cons.prems(2) [of x] that a by (auto simp: line_at_update)
  qed
  have "not_fallen ref ?r"
    using Cons.prems(3) a strip_links_decision(2) [OF a(2)] by (auto simp: not_fallen_def line_at_update)
  with Cons.IH [of ?r] one show ?case by (cases lms) (auto simp: sync_links_def)
qed (simp add: sync_links_def)

text \<open>The plan of the page, made on its live lines.\<close>

lemma live_plan:
  assumes "page_ready r ws page" "valid_planner_config (en_planner eng)"
    and "plan_live eng (page_now r page) document None r = (res, r1)"
  obtains plan where "res = Inr plan"
    "mset (concat (map targets (chunks plan))) = mset (map line_id (pg_lines page))"
    "list_all (\<lambda>c. valid_chunk c \<and> distinct (line_ids c)) (chunks plan)"
    "sound r r1" "routable eng page r \<Longrightarrow> routable eng page r1"
proof -
  let ?now = "page_now r page"
  have ids: "map line_id (pg_lines ?now) = map line_id (pg_lines page)" by (rule page_now_ready [OF assms(1)])
  have bp: "distinct (map line_id (pg_lines ?now))" "blocks_partition ?now"
    using assms(1) by (simp_all only: ids blocks_partition_def page_ready_def) (simp_all add: page_now_def)
  from plan_page_complete [OF assms(2) bp, of "en_new_id eng" document None]
  obtain page' plan where plan: "plan_page (en_new_id eng) ?now document (en_planner eng) None = Inr (page', plan)"
    "mset (concat (map targets (chunks plan))) = mset (map line_id (pg_lines page))"
    "list_all (\<lambda>c. valid_chunk c \<and> distinct (line_ids c)) (chunks plan)" "only_cuts (pg_lines ?now) (pg_lines page')"
    unfolding ids by blast
  from assms(3) plan(1) have res: "res = Inr plan" by (simp add: plan_live_def)
  have co: "coherent_run r" using assms(1) by (simp add: page_ready_def)
  have nf: "not_fallen ref r1" if "not_fallen ref r" for ref
  proof -
    have "not_fallen ref (sync_links (pg_lines page') r)"
      by (rule sync_links_status [OF co _ that]) (rule cut_lines_stored [OF co plan(4) [unfolded page_now_lines]])
    moreover have "line_at r1 x = line_at (sync_links (pg_lines page') r) x" for x
      using assms(3) plan(1) by (auto simp: plan_live_def)
    ultimately show ?thesis by (simp add: not_fallen_def)
  qed
  then have "routable eng page r \<Longrightarrow> routable eng page r1" by (auto simp: routable_def list_all_iff)
  with that [OF res plan(2,3) plan_live_sound [OF assms(3) page_now_lines]] show ?thesis .
qed

lemma work_items_ok:
  assumes "list_all (\<lambda>c. valid_chunk c \<and> distinct (line_ids c)) cs" "distinct (concat (map targets cs))"
  shows "list_all item_ok (work_items cs skip escalate producer esc)"
  unfolding list_all_iff
proof
  fix it
  assume in_items: "it \<in> set (work_items cs skip escalate producer esc)"
  obtain c p where it: "it = (c, p)" by fastforce
  have "list_all valid_chunk cs" using assms(1) by (simp add: list_all_iff)
  from work_items_valid [OF this in_items [unfolded it]] obtain c0 where
    c0: "valid_chunk c" "c0 \<in> set cs" "line_ids c = line_ids c0" by blast
  have "mset (item_targets (work_items cs skip escalate producer esc)) =
      mset (filter (\<lambda>t. t \<notin> set skip) (concat (map targets cs)))"
    using work_items_targets [of cs skip escalate producer esc] by simp
  with assms(2) have "distinct (item_targets (work_items cs skip escalate producer esc))"
    by (metis distinct_filter mset_eq_imp_distinct_iff)
  then have "distinct (targets c)"
    using in_items by (force simp: it item_targets_def distinct_concat_iff)
  with c0 assms(1) show "item_ok it" by (simp add: it item_ok_def list_all_iff)
qed

lemma route_ok:
  assumes "page_ready r ws page" "routable eng page r"
    and "set (concat (map targets cs)) = line_id ` set (pg_lines page)" "distinct (concat (map targets cs))"
    and "list_all (\<lambda>c. valid_chunk c \<and> distinct (line_ids c)) cs"
    and "route_and_filter_chunks (en_qe eng) (en_routing eng) (en_producer eng) (en_escalation eng) page cs ws r =
      (items, r')"
  obtains skip where "sound r r'" "list_all item_ok items" "targets_decided r' ws skip"
    "set (item_targets items) = line_id ` set (pg_lines page) - set skip"
proof (cases "routing_enabled (en_qe eng) (en_routing eng)")
  case False
  with assms(6) have eq: "items = map (\<lambda>c. (c, en_producer eng)) cs" "r' = r"
    by (simp_all add: route_and_filter_chunks_def)
  have "list_all item_ok items"
    using assms(4,5) by (auto simp: eq list_all_iff item_ok_def distinct_concat_iff)
  with that [of "[]"] assms(3) show ?thesis by (simp add: eq targets_decided_def)
next
  case True
  obtain skip escalate where tiers: "score_page_into_tiers (the (en_qe eng)) (en_routing eng)
      (pg_lines (page_now r page)) (ws_manifests r ws) (en_escalation eng \<noteq> None) = (skip, escalate)" by fastforce
  let ?esc = "case en_escalation eng of None \<Rightarrow> en_producer eng | Some e \<Rightarrow> e"
  let ?c = "confirm_skipped_lines ws skip r"
  have items: "items = work_items cs skip escalate (en_producer eng) ?esc"
    and r': "r' = update_ctx (\<lambda>c. c\<lparr>lines_skipped := lines_skipped c + int (length skip),
        escalated_lines := escalated_lines c + int (length escalate)\<rparr>) ?c"
    using assms(6) True by (simp_all add: route_and_filter_chunks_def tiers [simplified] Let_def)
  have "list_all (\<lambda>lm. not_fallen (line_ref lm) r) (pg_lines page)"
    using assms(2) True by (simp add: routable_def)
  from confirm_decides [OF assms(1) this, of skip] have c: "sound r ?c" "targets_decided ?c ws skip" by blast+
  have "mset (item_targets items) = mset (filter (\<lambda>t. t \<notin> set skip) (concat (map targets cs)))"
    using work_items_targets [of cs skip escalate "en_producer eng" ?esc] by (simp add: items)
  from mset_eq_setD [OF this] assms(3)
  have "set (item_targets items) = line_id ` set (pg_lines page) - set skip" by auto
  moreover have "targets_decided r' ws skip" using c(2) by (simp add: r' targets_decided_def decided_def)
  ultimately show ?thesis
    using that sound_trans [OF c(1) sound_quiet [OF quiet_ctx]] work_items_ok [OF assms(5,4)] by (simp add: r' items)
qed

text \<open>What the planned and routed page hands to the chunk loop: chunks of the page that cover every
  line not decided already.\<close>

lemma plan_page_chunks_ok:
  assumes "page_ready r ws page" "valid_planner_config (en_planner eng)" "routable eng page r"
    and "plan_page_chunks eng page document ws r = (res, r')"
  shows "sound r r' \<and>
    (\<forall>items. res = Inr items \<longrightarrow>
       list_all (\<lambda>it. chunk_inside page (fst it)) items \<and>
       (\<exists>skip. targets_decided r' ws skip \<and>
          set (item_targets items) = line_id ` set (pg_lines page) - set skip))"
proof -
  obtain pres r1 where live: "plan_live eng (page_now r page) document None r = (pres, r1)" by fastforce
  from live_plan [OF assms(1,2) live] obtain plan where plan: "pres = Inr plan"
    "mset (concat (map targets (chunks plan))) = mset (map line_id (pg_lines page))"
    "list_all (\<lambda>c. valid_chunk c \<and> distinct (line_ids c)) (chunks plan)" "sound r r1"
    "routable eng page r1" using assms(3) by blast
  have cs: "set (concat (map targets (chunks plan))) = line_id ` set (pg_lines page)"
    "distinct (concat (map targets (chunks plan)))"
    using mset_eq_setD [OF plan(2)] mset_eq_imp_distinct_iff [OF plan(2)] assms(1) by (simp_all add: page_ready_def)
  obtain items0 r2 where route: "route_and_filter_chunks (en_qe eng) (en_routing eng) (en_producer eng)
      (en_escalation eng) page (chunks plan) ws r1 = (items0, r2)" by fastforce
  have out: "split_for_image_cap (map (\<lambda>(lid, ref). (lid, the (line_at r2 ref))) (ws_lines ws)) items0 = res \<and> r' = r2"
    using assms(4) by (auto simp: plan_page_chunks_def live plan(1) route)
  from route_ok [OF ready_after(1) [OF assms(1) plan(4)] plan(5) cs plan(3) route]
  obtain skip where rt: "sound r1 r2" "list_all item_ok items0" "targets_decided r2 ws skip"
    "set (item_targets items0) = line_id ` set (pg_lines page) - set skip" by blast
  have "list_all (\<lambda>it. chunk_inside page (fst it)) items \<and>
      set (item_targets items) = line_id ` set (pg_lines page) - set skip" if "res = Inr items" for items
  proof
    note sp = split_for_image_cap_spec [OF conjunct1 [OF out, unfolded that] rt(2)]
    show same: "set (item_targets items) = line_id ` set (pg_lines page) - set skip"
      using sp rt(4) by (metis mset_eq_setD)
    show "list_all (\<lambda>it. chunk_inside page (fst it)) items"
      unfolding list_all_iff
    proof
      fix it
      assume it: "it \<in> set items"
      then have "set (targets (fst it)) \<subseteq> line_id ` set (pg_lines page)" using same by (auto simp: item_targets_def)
      with sp it show "chunk_inside page (fst it)" by (auto simp: list_all_iff chunk_inside_def)
    qed
  qed
  with sound_trans [OF plan(4) rt(1)] rt(3) out show ?thesis by blast
qed

lemma absorb_decides:
  assumes "page_ready r ws page" "absorb_chunk_error eng e c ws r = (b, r')"
  shows "targets_decided r' ws (targets c)"
  unfolding targets_decided_def
proof (intro ballI allI impI)
  fix i ref
  assume i: "i \<in> set (targets c)" "map_of (ws_lines ws) i = Some ref"
  let ?open = "filter (\<lambda>ref. case line_at r ref of None \<Rightarrow> False | Some lm \<Rightarrow> status lm = PENDING)
    (List.map_filter (map_of (ws_lines ws)) (targets c))"
  let ?refs = "map line_ref (units_containing (lines_at r ?open) (unit_pool r ws))"
  have r': "r' = (if ?open = [] then r
      else fall_back_all (''chunk_error_absorbed: '' @ take 120 (en_sanitize eng (exn_msg e))) ?refs r)"
    using assms(2) by (auto simp: absorb_chunk_error_def Let_def split: if_splits)
  obtain lm where lm: "line_at r ref = Some lm" using ready_lookup(2) [OF assms(1) i(2)] by blast
  have at: "line_ref lm = ref" using assms(1) lm by (auto simp: page_ready_def coherent_run_def)
  show "decided r' ref"
  proof (cases "status lm = PENDING")
    case True
    have "ref \<in> set (List.map_filter (map_of (ws_lines ws)) (targets c))" using i by (force simp: map_filter_def)
    with True lm have o: "ref \<in> set ?open" by simp
    then have "lm \<in> set (lines_at r ?open)" using lm in_lines_at by blast
    from units_containing_seeds [OF this, of "unit_pool r ws"] have "ref \<in> set ?refs" by (simp add: at)
    note d = decided_fall_back_all [OF this]
    from o have "?open \<noteq> []" by (metis empty_iff list.set(1))
    then show ?thesis unfolding r' if_not_P [OF \<open>?open \<noteq> []\<close>] by (intro d)
  next
    case False
    with lm have "decided r ref" by (simp add: decided_def)
    moreover have "progress r r'"
      using ready_after(2) [OF assms(1) sound_absorb [OF assms(2)]] .
    ultimately show ?thesis by (rule progress_decided [rotated])
  qed
qed

lemma absorbing_decides:
  assumes "page_ready r ws page" "valid_planner_config (en_planner eng)" "chunk_inside page (fst item)"
    and "run_chunk_absorbing eng page ws item r = (res, r')"
  shows "sound r r' \<and> (\<forall>n. res = Inr n \<longrightarrow> targets_decided r' ws (targets (fst item)))"
proof -
  obtain chunk producer where item: "item = (chunk, producer)" by fastforce
  let ?budget = "per_chunk_budget (en_retry eng)"
  obtain out b r1 where run: "run_chunk eng page ws producer chunk ?budget r = (out, b, r1)" by (metis prod_cases3)
  have ok: "chunk_ok ?budget r (out, b, r1)" by (simp only: run [symmetric] run_chunk_ok)
  have dec: "decides ws page chunk r (out, b, r1)"
    using run_chunk_decides [OF _ assms(1,2), of chunk producer ?budget] assms(3) by (simp add: run item)
  have s: "sound r r1" using ok by (simp add: chunk_ok_def)
  show ?thesis
  proof (cases out)
    case (Inr n)
    with assms(4) run s dec show ?thesis by (auto simp: run_chunk_absorbing_def item decides_def)
  next
    case (Inl e)
    obtain fell r2 where a: "absorb_chunk_error eng e chunk ws r1 = (fell, r2)" by fastforce
    note ready1 = ready_after(1) [OF assms(1) s]
    have d: "targets_decided r2 ws (targets chunk)" by (rule absorb_decides [OF ready1 a])
    have s2: "sound r r2" using sound_trans [OF s sound_absorb [OF a]] .
    have d3: "targets_decided (count_fallback r2) ws (targets chunk)"
      by (rule targets_decided_after [OF d ready_after(2) [OF ready_after(1) [OF assms(1) s2] sound_count]])
    from assms(4) run Inl s s2 d d3 sound_trans [OF s2 sound_count] show ?thesis
      by (auto simp: run_chunk_absorbing_def item a Let_def split: if_splits)
  qed
qed

lemma run_items_decides:
  assumes "page_ready r ws page" "valid_planner_config (en_planner eng)"
    and "list_all (\<lambda>it. chunk_inside page (fst it)) items"
    and "run_items eng page ws nc np items r = (res, r')"
  shows "sound r r' \<and> (\<forall>n. res = Inr n \<longrightarrow> targets_decided r' ws (item_targets items))"
  using assms
proof (induction items arbitrary: nc np r)
  case Nil
  then show ?case by (auto simp: targets_decided_def)
next
  case (Cons item items)
  show ?case
  proof (cases "aborted eng r")
    case True
    with Cons.prems(4) show ?thesis by auto
  next
    case False
    obtain out r1 where a: "run_chunk_absorbing eng page ws item r = (out, r1)" by fastforce
    have "chunk_inside page (fst item)" using Cons.prems(3) by simp
    note one = absorbing_decides [OF Cons.prems(1,2) this a]
    note ready1 = ready_after(1) [OF Cons.prems(1) conjunct1 [OF one]]
    show ?thesis
    proof (cases out)
      case (Inl e)
      with Cons.prems(4) False a one show ?thesis by auto
    next
      case (Inr n)
      with Cons.prems(4) False a have rest: "run_items eng page ws (Suc nc) (np + n) items r1 = (res, r')" by simp
      have "list_all (\<lambda>it. chunk_inside page (fst it)) items" using Cons.prems(3) by simp
      note ih = Cons.IH [OF ready1 Cons.prems(2) this rest]
      have "targets_decided r' ws (targets (fst item))"
        using one Inr targets_decided_after ready_after(2) [OF ready1 conjunct1 [OF ih]] by blast
      with one ih sound_trans show ?thesis by (auto simp: targets_decided_append)
    qed
  qed
qed

lemma process_page_ok:
  assumes "page_ready r (workspace_of page page_partners) page" "valid_planner_config (en_planner eng)"
    and "routable eng page r" "process_page eng page document page_partners r = (res, r')"
  shows "sound r r' \<and> (\<forall>n. res = Inr n \<longrightarrow> list_all (\<lambda>lm. decided r' (line_ref lm)) (pg_lines page))"
proof -
  let ?ws = "workspace_of page page_partners"
  obtain out r1 where p: "plan_page_chunks eng page document ?ws r = (out, r1)" by fastforce
  note c = plan_page_chunks_ok [OF assms(1-3) p]
  show ?thesis
  proof (cases out)
    case (Inl e)
    with assms(4) p c show ?thesis by (auto simp: process_page_def Let_def)
  next
    case (Inr items)
    with c obtain skip where
      c: "sound r r1" "list_all (\<lambda>it. chunk_inside page (fst it)) items" "targets_decided r1 ?ws skip"
        "set (item_targets items) = line_id ` set (pg_lines page) - set skip" by blast
    have run: "run_items eng page ?ws 0 0 items r1 = (res, r')"
      using assms(4) p Inr by (simp add: process_page_def Let_def)
    note ready1 = ready_after(1) [OF assms(1) c(1)]
    note d = run_items_decides [OF ready1 assms(2) c(2) run]
    have sk: "targets_decided r' ?ws skip" by (rule targets_decided_after [OF c(3) ready_after(2) [OF ready1 conjunct1 [OF d]]])
    have "decided r' (line_ref lm)" if "lm \<in> set (pg_lines page)" "res = Inr n" for lm n
    proof -
      have "(line_id lm, line_ref lm) \<in> set (ws_lines ?ws)" "distinct (map fst (ws_lines ?ws))"
        using assms(1) that(1) by (auto simp: page_ready_def comp_def)
      then have "map_of (ws_lines ?ws) (line_id lm) = Some (line_ref lm)" by simp
      moreover have "line_id lm \<in> set skip \<or> line_id lm \<in> set (item_targets items)" using c(4) that(1) by auto
      ultimately show ?thesis using sk d that(2) by (auto simp: targets_decided_def)
    qed
    with sound_trans [OF c(1) conjunct1 [OF d]] show ?thesis by (auto simp: list_all_iff)
  qed
qed

section \<open>Properties\<close>

text \<open>C23: a chunk and its whole descent through the granularities call the producer at most as
  often as its budget allows, whatever the producer answers; a chunk that returns leaves the rest of
  the budget, never less than nothing.\<close>

theorem chunk_budget_bounds_calls:
  assumes "0 \<le> budget" "run_chunk eng page ws producer chunk budget r = (res, budget', r')"
  shows "calls r' \<le> calls r + budget \<and>
    (case res of Inl e \<Rightarrow> True | Inr n \<Rightarrow> 0 \<le> budget' \<and> calls r' + budget' \<le> calls r + budget)"
  using run_chunk_ok [of budget r eng page ws producer chunk] assms by (cases res) (auto simp: chunk_ok_def)

text \<open>Correcting a page is a run pass, however it ends: it keeps the run coherent, changes
  nothing of a line but its decision and its links, and undoes no decision; and when it returns,
  every line of the page is decided, at a corrected text or at its source.\<close>

theorem process_page_decides:
  assumes "coherent_run r" "distinct (map line_id (pg_lines page))" "blocks_partition page"
    and "list_all (\<lambda>lm. line_at r (line_ref lm) \<noteq> None) (pg_lines page)"
    and "valid_planner_config (en_planner eng)" "routable eng page r"
    and "process_page eng page document page_partners r = (res, r')"
  shows "coherent_run r' \<and> progress r r' \<and>
    (case res of Inl e \<Rightarrow> True | Inr n \<Rightarrow> list_all (\<lambda>lm. decided r' (line_ref lm)) (pg_lines page))"
  using process_page_ok [OF workspace_ready [OF assms(1-4)] assms(5-7)] assms(1)
  by (cases res) (auto simp: sound_def)

definition demo_engine :: "edit_producer \<Rightarrow> engine" where
  "demo_engine p =
     \<lparr>en_unicode = ascii_unicode, en_sha256 = (\<lambda>t. []), en_sanitize = (\<lambda>m. m), en_new_id = (\<lambda>n. ''c''),
      en_producer = p, en_escalation = None, en_planner = DEFAULT_PLANNER_CONFIG,
      en_retry = DEFAULT_RETRY_POLICY\<lparr>max_attempts := 1\<rparr>, en_guard = DEFAULT_GUARD_CONFIG, en_qe = None,
      en_routing = \<lparr>skip_at_or_below = None, escalate_at_or_above = None\<rparr>,
      en_page_dims = (\<lambda>p. None), en_images = [], en_should_abort = None\<rparr>"

definition one_line_page :: page_manifest where
  "one_line_page = \<lparr>pg_id = ''P'', pg_source_file = ''f.xml'', pg_index = 0, pg_width = 100, pg_height = 100,
     pg_blocks = [\<lparr>blk_id = ''b'', blk_page_id = ''P'', blk_order = 0, blk_coords = plain_coords,
                   blk_line_ids = [''a'']\<rparr>],
     pg_lines = [plain_line ''P'' ''a'' 0 (tx ''mat'')]\<rparr>"

definition one_line_run :: run where
  "one_line_run = \<lparr>rn_lines = map (\<lambda>lm. (line_ref lm, lm)) (pg_lines one_line_page), rn_traces = None,
     rn_ctx = new_context\<rparr>"

definition mot_producer :: edit_producer where
  "mot_producer = text_producer\<lparr>produce := (\<lambda>n req a t. Inr (replace_line_script [(''a'', tx ''mot'')], None))\<rparr>"

lemma chunk_budget_bounds_calls_witness:
  "case run_chunk (demo_engine text_producer) one_line_page (workspace_of one_line_page None) text_producer
      demo_chunk 6 one_line_run of (res, budget', r') \<Rightarrow> calls r' \<le> 6"
proof -
  obtain res b r' where run: "run_chunk (demo_engine text_producer) one_line_page (workspace_of one_line_page None)
      text_producer demo_chunk 6 one_line_run = (res, b, r')" by (metis prod_cases3)
  have "calls one_line_run = 0" by (simp add: one_line_run_def calls_def new_context_def)
  with conjunct1 [OF chunk_budget_bounds_calls [OF _ run]] show ?thesis by (simp add: run)
qed

lemma one_line_ready:
  "coherent_run one_line_run" "distinct (map line_id (pg_lines one_line_page))" "blocks_partition one_line_page"
  "list_all (\<lambda>lm. line_at one_line_run (line_ref lm) \<noteq> None) (pg_lines one_line_page)"
  "valid_planner_config (en_planner (demo_engine p))" "routable (demo_engine p) one_line_page one_line_run"
proof -
  show "coherent_run one_line_run"
    unfolding coherent_run_def
    by (auto simp: one_line_run_def one_line_page_def line_at_def trace_at_def plain_line_def settled_def
        split: if_splits)
  show "valid_planner_config (en_planner (demo_engine p))"
    by (simp add: demo_engine_def valid_planner_config_def DEFAULT_PLANNER_CONFIG_def)
  show "routable (demo_engine p) one_line_page one_line_run"
    by (simp add: routable_def routing_enabled_def demo_engine_def)
qed (simp_all add: blocks_partition_def one_line_page_def one_line_run_def line_at_def plain_line_def)

lemma demo_page_run:
  "fst (process_page (demo_engine mot_producer) one_line_page ''D'' None one_line_run) = Inr (1, 0)"
  "map (corrected_text \<circ> snd) (rn_lines (snd (process_page (demo_engine mot_producer) one_line_page ''D'' None
     one_line_run))) = [Some (tx ''mot'')]"
  by code_simp+

lemma process_page_decides_witness:
  "\<exists>r'. process_page (demo_engine mot_producer) one_line_page ''D'' None one_line_run = (Inr (1, 0), r') \<and>
     coherent_run r' \<and> decided r' (LineRef ''P'' ''a'')"
proof -
  obtain res r' where run: "process_page (demo_engine mot_producer) one_line_page ''D'' None one_line_run = (res, r')"
    by fastforce
  with demo_page_run(1) have res: "res = Inr (1, 0)" by simp
  from process_page_decides [OF one_line_ready run] run res show ?thesis
    by (simp add: one_line_page_def plain_line_def line_ref_def)
qed

text \<open>A producer that only fails spends its attempts at every granularity of a page, and then
  the line keeps its source.\<close>

lemma failing_producer_falls_back:
  "fst (process_page (demo_engine text_producer) one_line_page ''D'' None one_line_run) = Inr (1, 0) \<and>
   (let r' = snd (process_page (demo_engine text_producer) one_line_page ''D'' None one_line_run) in
    map (\<lambda>x. (status (snd x), corrected_text (snd x))) (rn_lines r') = [(FALLBACK, Some (tx ''mat''))] \<and> calls r' = 4)"
  by code_simp

section \<open>A chain that ends half corrected\<close>

text \<open>Three lines of one unit: the second ends in a break of its own.\<close>

definition chain_lines :: "line_manifest list" where
  "chain_lines =
     [(plain_line ''P'' ''a'' 0 (tx ''le Bcr-''))\<lparr>hyphen_role := PART1, hyphen_pair_line_id := Some ''b'',
        hyphen_pair_page_id := Some ''P''\<rparr>,
      (plain_line ''P'' ''b'' 1 (tx ''liu nou-''))\<lparr>hyphen_role := BOTH, hyphen_pair_line_id := Some ''a'',
        hyphen_pair_page_id := Some ''P'', hyphen_forward_pair_id := Some ''c'',
        hyphen_forward_pair_page_id := Some ''P''\<rparr>,
      (plain_line ''P'' ''c'' 2 (tx ''veau''))\<lparr>hyphen_role := PART2, hyphen_pair_line_id := Some ''b'',
        hyphen_pair_page_id := Some ''P''\<rparr>]"

definition chain_page :: page_manifest where
  "chain_page = one_line_page\<lparr>pg_lines := chain_lines,
     pg_blocks := [\<lparr>blk_id = ''b'', blk_page_id = ''P'', blk_order = 0, blk_coords = plain_coords,
                    blk_line_ids = [''a'', ''b'', ''c'']\<rparr>]\<rparr>"

definition chain_run :: run where
  "chain_run = \<lparr>rn_lines = map (\<lambda>lm. (line_ref lm, lm)) chain_lines, rn_traces = None, rn_ctx = new_context\<rparr>"

definition chain_producer :: edit_producer where
  "chain_producer = text_producer\<lparr>produce := (\<lambda>n req a t. Inr (replace_line_script
     [(''a'', tx ''le Ber-''), (''b'', tx ''lin nou-''), (''c'', tx ''beau'')], None))\<rparr>"

text \<open>Correcting a page can end so (\<open>chain_left_half_corrected\<close> of the reconciler).\<close>

lemma chain_page_left_half_corrected:
  "let (res, r') = process_page (demo_engine chain_producer) chain_page ''D'' None chain_run in
   res = Inr (1, 2) \<and>
   map (\<lambda>x. (status (snd x), corrected_text (snd x))) (rn_lines r') =
     [(CORRECTED, Some (tx ''le Ber-'')), (FALLBACK, Some (tx ''liu nou-'')), (FALLBACK, Some (tx ''veau''))]"
  by code_simp

end
