(* ===== verification/Pipeline.thy ===== *)
theory Pipeline
  imports Driver
begin

text \<open>
  \<open>core/preflight.py\<close>, \<open>core/pipeline.py\<close>: what a run refuses before it starts, the walk over the
  pages, and the run itself up to its decisions. Reading a file and hashing its bytes is outside the
  library: \<open>source_files\<close> gives for each name the digest of the bytes on disk, or \<open>None\<close> when they
  cannot be read. The uuid of the run, the events, the rendering and the report carry no decision.

  Facts: what the gates guarantee, and the theorem of the whole engine: a run whose pages return
  decides every line of its document, in reading order, at a corrected text or at its source.
\<close>

section \<open>Preflight\<close>

definition require_every_source :: "document_manifest \<Rightarrow> (ident, string option) dict \<Rightarrow> exn + unit" where
  "require_every_source d sources =
     (if sources = [] then Inr ()
      else
        (let declared = doc_source_files d; supplied = map fst sources;
             missing = filter (\<lambda>n. n \<notin> set supplied) declared;
             unknown = filter (\<lambda>n. n \<notin> set declared) supplied
         in if missing = [] \<and> unknown = [] then Inr ()
            else Inl (Exn C_ConfigurationError ''source_files does not describe the same document'')))"

definition require_the_same_bytes :: "document_manifest \<Rightarrow> (ident, string option) dict \<Rightarrow> exn + unit" where
  "require_the_same_bytes d sources =
     (let stamped = doc_source_digests d in
      if stamped = [] then Inr ()
      else
        (let checked = filter (\<lambda>(name, bytes). name \<in> fst ` set stamped) sources in
         if list_ex (\<lambda>(name, bytes). bytes = None) checked
         then Inl (Exn C_ParseError ''cannot read source file'')
         else if list_ex (\<lambda>(name, bytes). bytes \<noteq> map_of stamped name) checked
         then Inl (Exn C_ConfigurationError ''sources no longer hold the bytes they were parsed from'')
         else Inr ()))"

definition pages_by_file :: "page_manifest list \<Rightarrow> (ident, page_manifest list) dict" where
  "pages_by_file pages = foldl (\<lambda>d p. dict_append (pg_source_file p) p d) [] pages"

fun unique_in_files :: "(ident, page_manifest list) dict \<Rightarrow> exn + unit" where
  "unique_in_files [] = Inr ()"
| "unique_in_files ((name, pages) # rest) =
     and_then (duplicates_as_exn (ensure_unique_identities pages)) (unique_in_files rest)"

definition format_agrees :: "ident option \<Rightarrow> ident option \<Rightarrow> exn + unit" where
  "format_agrees declared adapter =
     (if truthy declared \<and> truthy adapter \<and> declared \<noteq> adapter
      then Inl (Exn C_ConfigurationError ''the injected format_adapter contradicts the manifest'')
      else Inr ())"

definition known_pages_only :: "page_manifest list \<Rightarrow> (ident, page_image) dict \<Rightarrow> exn + unit" where
  "known_pages_only pages images =
     (if filter (\<lambda>k. k \<notin> pg_id ` set pages) (map fst images) = [] then Inr ()
      else Inl (Exn C_ConfigurationError ''page_images keys must be page ids''))"

definition escalation_gate ::
  "engine \<Rightarrow> page_manifest list \<Rightarrow> (ident, page_image) dict option \<Rightarrow> exn + unit" where
  "escalation_gate eng pages images =
     (case en_escalation eng of
        None \<Rightarrow> Inr ()
      | Some p \<Rightarrow> and_then (require_page_images p pages images) (require_capabilities p))"

text \<open>The engine of the run: the images and the page sizes it may use.\<close>

definition preflight ::
  "engine \<Rightarrow> ident option \<Rightarrow> document_manifest \<Rightarrow> (ident, string option) dict \<Rightarrow>
   (ident, page_image) dict option \<Rightarrow> exn + engine" where
  "preflight eng adapter d sources images =
     (let pages = doc_pages d; given = (case images of None \<Rightarrow> [] | Some im \<Rightarrow> im) in
      and_then (require_every_source d sources)
     (and_then (require_the_same_bytes d sources)
     (and_then (require_page_images (en_producer eng) pages images)
     (and_then (require_capabilities (en_producer eng))
     (and_then (escalation_gate eng pages images)
     (and_then (format_agrees (doc_source_format d) adapter)
     (and_then (unique_in_files (pages_by_file pages))
     (and_then (ensure_unique_page_ids_across_files pages)
     (and_then (known_pages_only pages given)
       (Inr (eng\<lparr>en_images := given,
                 en_page_dims := map_of (foldl (\<lambda>dims p. dict_set (pg_id p) (pg_width p, pg_height p) dims)
                                          [] pages)\<rparr>)))))))))))"

section \<open>The pages\<close>

fun process_pages ::
  "engine \<Rightarrow> ident \<Rightarrow> nat \<Rightarrow> nat \<Rightarrow> page_manifest list \<Rightarrow> run \<Rightarrow> (exn + nat \<times> nat) \<times> run" where
  "process_pages eng document n_chunks n_pairs [] r = (Inr (n_chunks, n_pairs), r)"
| "process_pages eng document n_chunks n_pairs (page # pages) r =
     (if aborted eng r then (Inl (Exn C_CorrectionAborted ''run aborted before page''), r)
      else
        (case process_page eng page document
                (cross_page_partners (pg_id page) (pg_lines (page_now r page)) (rn_lines r)) r of
           (Inl e, r1) \<Rightarrow> (Inl e, r1)
         | (Inr (c, p), r1) \<Rightarrow> process_pages eng document (n_chunks + c) (n_pairs + p) pages r1))"

section \<open>The run\<close>

record run_result =
  rr_decisions :: "line_decision list"
  rr_sidecar :: "sidecar_entry list"
  rr_chunks :: nat
  rr_reconciled :: nat
  rr_run :: run

definition run_decisions ::
  "engine \<Rightarrow> loss_policy \<Rightarrow> ident option \<Rightarrow> document_manifest \<Rightarrow> (ident, string option) dict \<Rightarrow>
   (ident, page_image) dict option \<Rightarrow> exn + run_result" where
  "run_decisions eng loss adapter d sources images =
     (case preflight eng adapter d sources images of
        Inl e \<Rightarrow> Inl e
      | Inr eng' \<Rightarrow>
          (case process_pages eng' (doc_id d) 0 0 (doc_pages d) (new_run d) of
             (Inl e, r) \<Rightarrow> Inl e
           | (Inr (n_chunks, n_pairs), r) \<Rightarrow>
               (case finalize_document (en_unicode eng') (en_guard eng') loss d r of
                  Inl e \<Rightarrow> Inl e
                | Inr (ds, sidecar, r') \<Rightarrow>
                    Inr \<lparr>rr_decisions = ds, rr_sidecar = sidecar, rr_chunks = n_chunks,
                         rr_reconciled = n_pairs, rr_run = r'\<rparr>)))"

section \<open>Facts: the gates\<close>

lemma pages_by_file_spec:
  "map_of (pages_by_file pages) f =
     (if f \<in> pg_source_file ` set pages then Some (filter (\<lambda>p. pg_source_file p = f) pages) else None)"
proof (induction pages arbitrary: f rule: rev_induct)
  case (snoc p pages)
  have "pages_by_file (pages @ [p]) = dict_append (pg_source_file p) p (pages_by_file pages)"
    by (simp add: pages_by_file_def)
  moreover have "f \<notin> pg_source_file ` set pages \<Longrightarrow> filter (\<lambda>q. pg_source_file q = f) pages = []" for f
    by (auto simp: filter_empty_conv)
  ultimately show ?case by (auto simp: map_of_dict_append snoc)
qed (simp add: pages_by_file_def)

lemma unique_in_files_Inr:
  "unique_in_files d = Inr () \<longleftrightarrow> list_all (\<lambda>(f, ps). ensure_unique_identities ps = Inr ()) d"
  by (induction d rule: unique_in_files.induct) auto

lemma distinct_by_class:
  assumes "\<And>x. x \<in> set xs \<Longrightarrow> distinct (map f (filter (\<lambda>y. g y = g x) xs))"
    and "\<And>x y. \<lbrakk>x \<in> set xs; y \<in> set xs; f x = f y\<rbrakk> \<Longrightarrow> g x = g y"
  shows "distinct (map f xs)"
  using assms
proof (induction xs)
  case Nil
  show ?case by simp
next
  case (Cons x xs)
  have "f x \<notin> f ` set xs"
  proof
    assume "f x \<in> f ` set xs"
    then obtain y where y: "y \<in> set xs" "f x = f y" by blast
    then have "g y = g x" using Cons.prems(2) by force
    with y have "f x \<in> f ` set (filter (\<lambda>z. g z = g x) xs)" by auto
    with Cons.prems(1) [of x] show False by simp
  qed
  moreover have "distinct (map f (filter (\<lambda>z. g z = g y) xs))" if "y \<in> set xs" for y
    using Cons.prems(1) [OF list.set_intros(2) [OF that]] by (cases "g x = g y") auto
  moreover have "g y = g z" if "y \<in> set xs" "z \<in> set xs" "f y = f z" for y z
    using Cons.prems(2) [of y z] that by simp
  ultimately have "distinct (map f xs)" by (intro Cons.IH)
  with \<open>f x \<notin> f ` set xs\<close> show ?case by simp
qed

lemma distinct_concat_by:
  assumes "distinct (map key ps)" "\<And>p x. \<lbrakk>p \<in> set ps; x \<in> set (f p)\<rbrakk> \<Longrightarrow> owner x = key p"
    "\<And>p. p \<in> set ps \<Longrightarrow> distinct (f p)"
  shows "distinct (concat (map f ps))"
  using assms
proof (induction ps)
  case (Cons p ps)
  have "x \<notin> set (f q)" if "q \<in> set ps" "x \<in> set (f p)" for q x
  proof
    assume "x \<in> set (f q)"
    with Cons.prems(2) [of q x] Cons.prems(2) [of p x] that have "key q = key p" by simp
    with Cons.prems(1) that(1) show False by (metis distinct.simps(2) image_eqI list.set_map list.simps(9))
  qed
  then have "set (f p) \<inter> set (concat (map f ps)) = {}" by auto
  moreover have "distinct (concat (map f ps))" by (rule Cons.IH) (use Cons.prems in auto)
  ultimately show ?case using Cons.prems(3) by simp
qed simp

text \<open>A document is well filed when every line names the page that holds it.\<close>

definition well_filed :: "document_manifest \<Rightarrow> bool" where
  "well_filed d \<longleftrightarrow> list_all (\<lambda>p. list_all (\<lambda>lm. page_id lm = pg_id p) (pg_lines p)) (doc_pages d)"

lemma preflight_facts:
  assumes "preflight eng adapter d sources images = Inr eng'"
  shows "distinct (map pg_id (doc_pages d))"
    "p \<in> set (doc_pages d) \<Longrightarrow> distinct (map line_id (pg_lines p))"
    "en_planner eng' = en_planner eng" "en_qe eng' = en_qe eng" "en_routing eng' = en_routing eng"
    "en_producer eng' = en_producer eng"
proof -
  have ok: "unique_in_files (pages_by_file (doc_pages d)) = Inr ()"
    "ensure_unique_page_ids_across_files (doc_pages d) = Inr ()"
    using assms by (simp_all add: preflight_def Let_def)
  have in_file: "ensure_unique_identities (filter (\<lambda>q. pg_source_file q = pg_source_file p) (doc_pages d)) = Inr ()"
    if "p \<in> set (doc_pages d)" for p
  proof -
    from that have "map_of (pages_by_file (doc_pages d)) (pg_source_file p) =
        Some (filter (\<lambda>q. pg_source_file q = pg_source_file p) (doc_pages d))"
      by (simp add: pages_by_file_spec)
    from map_of_SomeD [OF this] ok(1) show ?thesis by (auto simp: unique_in_files_Inr list_all_iff)
  qed
  show "distinct (map pg_id (doc_pages d))"
  proof (rule distinct_by_class [where g = pg_source_file])
    show "distinct (map pg_id (filter (\<lambda>q. pg_source_file q = pg_source_file p) (doc_pages d)))"
      if "p \<in> set (doc_pages d)" for p
      using in_file [OF that] by (simp add: unique_identities_iff)
    show "pg_source_file p = pg_source_file q"
      if "p \<in> set (doc_pages d)" "q \<in> set (doc_pages d)" "pg_id p = pg_id q" for p q
      using page_ids_across_ok [OF ok(2) [unfolded ensure_unique_page_ids_across_files_def]] that by blast
  qed
  show "distinct (map line_id (pg_lines p))" if "p \<in> set (doc_pages d)"
  proof -
    have "distinct (concat (map (\<lambda>p. map line_id (pg_lines p))
        (filter (\<lambda>q. pg_source_file q = pg_source_file p) (doc_pages d))))"
      using in_file [OF that] by (simp add: unique_identities_iff)
    moreover have "map line_id (pg_lines p) \<in> set (map (\<lambda>p. map line_id (pg_lines p))
        (filter (\<lambda>q. pg_source_file q = pg_source_file p) (doc_pages d)))" using that by auto
    ultimately show ?thesis unfolding distinct_concat_iff by blast
  qed
  show "en_planner eng' = en_planner eng" "en_qe eng' = en_qe eng" "en_routing eng' = en_routing eng"
    "en_producer eng' = en_producer eng"
    using assms by (auto simp: preflight_def Let_def)
qed

section \<open>Facts: the pages of a run\<close>

lemma document_refs_distinct:
  assumes "preflight eng adapter d sources images = Inr eng'" "well_filed d"
  shows "distinct (map line_ref (document_lines d))"
proof -
  have "distinct (concat (map (\<lambda>p. map line_ref (pg_lines p)) (doc_pages d)))"
  proof (rule distinct_concat_by [where key = pg_id and owner = ref_page_id])
    show "distinct (map pg_id (doc_pages d))" by (rule preflight_facts(1) [OF assms(1)])
    show "ref_page_id x = pg_id p" if "p \<in> set (doc_pages d)" "x \<in> set (map line_ref (pg_lines p))" for p x
      using that assms(2) by (auto simp: well_filed_def list_all_iff)
    show "distinct (map line_ref (pg_lines p))" if "p \<in> set (doc_pages d)" for p
    proof -
      have "distinct (map ref_line_id (map line_ref (pg_lines p)))"
        using preflight_facts(2) [OF assms(1) that] by (simp add: comp_def)
      then show ?thesis unfolding distinct_map by blast
    qed
  qed
  then show ?thesis by (simp add: document_lines_def map_concat comp_def)
qed

lemma new_run_store:
  assumes "distinct (map line_ref (document_lines d))"
  shows "store_keys (new_run d) = map line_ref (document_lines d)"
    "document_stored d (new_run d)"
proof -
  have lines: "rn_lines (new_run d) = map (\<lambda>lm. (line_ref lm, lm)) (document_lines d)"
    using dict_of_distinct [OF assms] by (simp add: new_run_def index_document_def Let_def)
  then show "store_keys (new_run d) = map line_ref (document_lines d)" by (simp add: store_keys_def comp_def)
  show "document_stored d (new_run d)"
    by (force simp: document_stored_def list_all_iff line_at_def lines map_of_eq_None_iff)
qed

definition pages_ready :: "run \<Rightarrow> page_manifest list \<Rightarrow> bool" where
  "pages_ready r pages \<longleftrightarrow>
     coherent_run r \<and>
     list_all (\<lambda>p. distinct (map line_id (pg_lines p)) \<and> blocks_partition p \<and>
       list_all (\<lambda>lm. line_at r (line_ref lm) \<noteq> None) (pg_lines p)) pages"

text \<open>Where lines are routed by their quality: no line of a page has fallen back before the page's turn
  comes. A pass over an earlier page can do that to a line only through a unit that runs over both.\<close>

fun pages_routable :: "engine \<Rightarrow> ident \<Rightarrow> page_manifest list \<Rightarrow> run \<Rightarrow> bool" where
  "pages_routable eng document [] r = True"
| "pages_routable eng document (page # pages) r =
     (routable eng page r \<and>
      pages_routable eng document pages (snd (process_page eng page document
        (cross_page_partners (pg_id page) (pg_lines (page_now r page)) (rn_lines r)) r)))"

lemma pages_routable_unrouted:
  "\<not> routing_enabled (en_qe eng) (en_routing eng) \<Longrightarrow> pages_routable eng document pages r"
  by (induction pages arbitrary: r) (simp_all add: routable_def)

lemma process_pages_ok:
  assumes "pages_ready r pages" "valid_planner_config (en_planner eng)" "pages_routable eng document pages r"
    and "process_pages eng document nc np pages r = (res, r')"
  shows "coherent_run r' \<and> progress r r' \<and>
    (\<forall>n. res = Inr n \<longrightarrow> list_all (\<lambda>p. list_all (\<lambda>lm. decided r' (line_ref lm)) (pg_lines p)) pages)"
  using assms
proof (induction pages arbitrary: nc np r)
  case Nil
  then show ?case by (simp add: pages_ready_def)
next
  case (Cons page pages)
  have co: "coherent_run r" using Cons.prems(1) by (simp add: pages_ready_def)
  show ?case
  proof (cases "aborted eng r")
    case True
    with Cons.prems(4) co show ?thesis by auto
  next
    case False
    let ?pp = "cross_page_partners (pg_id page) (pg_lines (page_now r page)) (rn_lines r)"
    obtain out r1 where p: "process_page eng page document ?pp r = (out, r1)" by fastforce
    have ready: "page_ready r (workspace_of page ?pp) page"
      using Cons.prems(1) by (intro workspace_ready) (simp_all add: pages_ready_def)
    have now: "routable eng page r" and later: "pages_routable eng document pages r1"
      using Cons.prems(3) p by simp_all
    note one = process_page_ok [OF ready Cons.prems(2) now p]
    then have r1: "coherent_run r1" "progress r r1" using co by (simp_all add: sound_def)
    show ?thesis
    proof (cases out)
      case (Inl e)
      with Cons.prems(4) False p r1 show ?thesis by auto
    next
      case (Inr n)
      obtain c k where n: "n = (c, k)" by fastforce
      with Cons.prems(4) False p Inr have rest: "process_pages eng document (nc + c) (np + k) pages r1 = (res, r')" by simp
      have "pages_ready r1 pages"
        using Cons.prems(1) r1 progress_None [OF r1(2)] by (simp add: pages_ready_def)
      note ih = Cons.IH [OF this Cons.prems(2) later rest]
      have "list_all (\<lambda>lm. decided r' (line_ref lm)) (pg_lines page)"
        using one Inr progress_decided ih by (auto simp: list_all_iff)
      with ih progress_trans [OF r1(2)] show ?thesis by auto
    qed
  qed
qed

lemma new_run_ready:
  assumes "preflight eng adapter d sources images = Inr eng'" "well_filed d" "fresh_document d"
    "list_all blocks_partition (doc_pages d)"
  shows "pages_ready (new_run d) (doc_pages d)"
proof -
  note st = new_run_store(2) [OF document_refs_distinct [OF assms(1,2)]]
  have "line_at (new_run d) (line_ref lm) \<noteq> None" if "p \<in> set (doc_pages d)" "lm \<in> set (pg_lines p)" for p lm
    using st that by (auto simp: document_stored_def document_lines_def list_all_iff)
  with new_run_coherent [OF assms(3)] preflight_facts(2) [OF assms(1)] assms(4) show ?thesis
    by (auto simp: pages_ready_def list_all_iff)
qed

lemma pages_routable_single:
  assumes "preflight eng adapter d sources images = Inr eng'" "well_filed d" "fresh_document d"
    "length (doc_pages d) \<le> 1"
  shows "pages_routable eng2 document (doc_pages d) (new_run d)"
proof (cases "doc_pages d")
  case (Cons page pages)
  then have "pages = []" using assms(4) by simp
  note stored = new_run_store(2) [OF document_refs_distinct [OF assms(1,2)]]
  have "not_fallen ref (new_run d)" for ref
  proof -
    have "status lm \<noteq> FALLBACK" if "line_at (new_run d) ref = Some lm" for lm
    proof -
      have "lm \<in> set (document_lines d)"
        using that dict_of_distinct [OF document_refs_distinct [OF assms(1,2)]]
        by (auto simp: line_at_def new_run_def index_document_def Let_def dest!: map_of_SomeD)
      with assms(3) show ?thesis by (auto simp: fresh_document_def list_all_iff)
    qed
    then show ?thesis by (simp add: not_fallen_def)
  qed
  with Cons \<open>pages = []\<close> show ?thesis by (simp add: routable_def list_all_iff)
qed simp

text \<open>Quality routing off, a document of one page, or no line that falls before its page's turn.\<close>

definition routing_safe :: "engine \<Rightarrow> document_manifest \<Rightarrow> bool" where
  "routing_safe eng d \<longleftrightarrow>
     \<not> routing_enabled (en_qe eng) (en_routing eng) \<or> length (doc_pages d) \<le> 1 \<or>
     pages_routable eng (doc_id d) (doc_pages d) (new_run d)"

lemma routing_safe_pages:
  assumes "routing_safe eng d" "preflight eng0 adapter d sources images = Inr eng'" "well_filed d" "fresh_document d"
  shows "pages_routable eng (doc_id d) (doc_pages d) (new_run d)"
  using assms(1) pages_routable_unrouted pages_routable_single [OF assms(2-4)] by (auto simp: routing_safe_def)

section \<open>Properties\<close>

text \<open>The whole engine. A run that passes its gates and whose pages return always returns: it
  gives one decision for every line of the document, in reading order, each terminal, a fallen
  line's final text being its source; the run it leaves is coherent and has kept every line's
  source text and identity.\<close>

theorem run_decides_every_line:
  assumes "fresh_document d" "well_filed d" "list_all blocks_partition (doc_pages d)"
    and "valid_planner_config (en_planner eng)" "routing_safe eng' d"
    and "preflight eng adapter d sources images = Inr eng'"
    and "process_pages eng' (doc_id d) 0 0 (doc_pages d) (new_run d) = (Inr (n_chunks, n_pairs), r)"
  shows "\<exists>res. run_decisions eng loss adapter d sources images = Inr res \<and>
    map dec_ref (rr_decisions res) = map line_ref (document_lines d) \<and> list_all terminal (rr_decisions res) \<and>
    coherent_run (rr_run res) \<and> progress (new_run d) (rr_run res)"
proof -
  note same = preflight_facts [OF assms(6)]
  note refs = document_refs_distinct [OF assms(6,2)]
  have ok: "coherent_run r \<and> progress (new_run d) r \<and>
      list_all (\<lambda>p. list_all (\<lambda>lm. decided r (line_ref lm)) (pg_lines p)) (doc_pages d)"
    using process_pages_ok [OF new_run_ready [OF assms(6,2,1,3)] _ routing_safe_pages [OF assms(5,6,2,1)] assms(7)]
      assms(4) by (simp add: same)
  then have keys: "distinct (map fst (rn_lines r))"
    using refs new_run_store(1) [OF refs] by (simp add: progress_def store_keys_def)
  have dec: "list_all (\<lambda>lm. decided r (line_ref lm)) (document_lines d)"
    using ok by (auto simp: document_lines_def list_all_iff)
  have st: "document_stored d r" using stored_progress new_run_store(2) [OF refs] ok by blast
  from finalize_decides [OF conjunct1 [OF ok] keys st dec, of "en_unicode eng'" "en_guard eng'" loss]
  obtain ds sidecar r' where f: "finalize_document (en_unicode eng') (en_guard eng') loss d r = Inr (ds, sidecar, r')"
    "map dec_ref ds = map line_ref (document_lines d)" "list_all terminal ds" "coherent_run r'" "progress r r'"
    by blast
  moreover have "progress (new_run d) r'" using ok f(5) progress_trans by blast
  ultimately show ?thesis by (simp add: run_decisions_def assms(6,7))
qed

definition one_line_document :: document_manifest where
  "one_line_document =
     \<lparr>doc_id = ''D'', doc_source_files = [''f.xml''], doc_pages = [one_line_page], doc_source_format = Some ''alto'',
      doc_source_encodings = [], doc_source_digests = []\<rparr>"

lemma demo_document_run:
  "\<not> isl (preflight (demo_engine mot_producer) (Some ''alto'') one_line_document [] None)"
  "fst (process_pages (projr (preflight (demo_engine mot_producer) (Some ''alto'') one_line_document [] None))
     (doc_id one_line_document) 0 0 (doc_pages one_line_document) (new_run one_line_document)) = Inr (1, 0)"
  by code_simp+

lemma one_line_document_ready:
  "fresh_document one_line_document" "well_filed one_line_document"
  "list_all blocks_partition (doc_pages one_line_document)"
  by (simp_all add: fresh_document_def well_filed_def blocks_partition_def document_lines_def
      one_line_document_def one_line_page_def plain_line_def)

lemma run_decides_every_line_witness:
  "\<exists>res. run_decisions (demo_engine mot_producer) DEFAULT_LOSS_POLICY (Some ''alto'') one_line_document [] None = Inr res \<and>
     map dec_ref (rr_decisions res) = [LineRef ''P'' ''a''] \<and> list_all terminal (rr_decisions res)"
proof -
  let ?eng = "demo_engine mot_producer"
  obtain eng' where e: "preflight ?eng (Some ''alto'') one_line_document [] None = Inr eng'"
    using demo_document_run(1) by (cases "preflight ?eng (Some ''alto'') one_line_document [] None") auto
  note pages = demo_document_run(2) [unfolded e sum.sel]
  then obtain r where r: "process_pages eng' (doc_id one_line_document) 0 0 (doc_pages one_line_document)
      (new_run one_line_document) = (Inr (1, 0), r)" by (metis prod.collapse)
  have "routing_safe eng' one_line_document" by (simp add: routing_safe_def one_line_document_def)
  note run = run_decides_every_line [OF one_line_document_ready one_line_ready(5) this e r, of DEFAULT_LOSS_POLICY]
  have "map line_ref (document_lines one_line_document) = [LineRef ''P'' ''a'']"
    by (simp add: one_line_document_def document_lines_def one_line_page_def plain_line_def line_ref_def)
  with run show ?thesis by auto
qed

text \<open>C32: nothing starts on a document whose identities could be confused: a run that passes the
  gates has pairwise distinct page ids and, on every page, pairwise distinct line and block ids;
  the sources it was given, if any, are exactly the ones the document was read from, each whose digest
  the document carries (every file a parser read) with the bytes it was read from; and a producer that wants images has one for every page.\<close>

theorem preflight_refuses:
  assumes "preflight eng adapter d sources images = Inr eng'"
  shows "distinct (map pg_id (doc_pages d)) \<and>
    list_all (\<lambda>p. distinct (map line_id (pg_lines p)) \<and> distinct (map blk_id (pg_blocks p))) (doc_pages d) \<and>
    (sources = [] \<or> fst ` set sources = set (doc_source_files d)) \<and>
    list_all (\<lambda>(name, bytes). name \<notin> fst ` set (doc_source_digests d) \<or>
       bytes = map_of (doc_source_digests d) name) sources \<and>
    (\<not> wants_image (en_producer eng) \<or>
       list_all (\<lambda>p. pg_id p \<in> fst ` set (en_images eng')) (doc_pages d))"
proof -
  note ok = assms [unfolded preflight_def Let_def, simplified]
  have src: "sources = [] \<or> fst ` set sources = set (doc_source_files d)"
    using ok by (auto simp: require_every_source_def Let_def filter_empty_conv split: if_splits)
  have bytes: "list_all (\<lambda>(name, bytes). name \<notin> fst ` set (doc_source_digests d) \<or>
       bytes = map_of (doc_source_digests d) name) sources"
    using ok by (auto simp: require_the_same_bytes_def Let_def list_all_iff list_ex_iff split: if_splits)
  have img: "pg_id p \<in> fst ` set (en_images eng')" if "wants_image (en_producer eng)" "p \<in> set (doc_pages d)" for p
  proof -
    have im: "require_page_images (en_producer eng) (doc_pages d) images = Inr ()" using ok by simp
    with that(1) have "en_images eng' = the images"
      using ok by (auto simp: require_page_images_def split: if_splits option.splits)
    moreover from page_images_cover [OF im that] have "pg_id p \<in> fst ` set (the images)"
      by (metis map_of_eq_None_iff option.distinct(1))
    ultimately show ?thesis by simp
  qed
  have blk: "distinct (map blk_id (pg_blocks p))" if "p \<in> set (doc_pages d)" for p
  proof -
    have "map_of (pages_by_file (doc_pages d)) (pg_source_file p) =
        Some (filter (\<lambda>q. pg_source_file q = pg_source_file p) (doc_pages d))"
      using that by (simp add: pages_by_file_spec)
    from map_of_SomeD [OF this] ok have "ensure_unique_identities
        (filter (\<lambda>q. pg_source_file q = pg_source_file p) (doc_pages d)) = Inr ()"
      by (auto simp: unique_in_files_Inr list_all_iff)
    with that show ?thesis by (simp add: unique_identities_iff list_all_iff)
  qed
  from preflight_facts(1,2) [OF assms] src bytes img blk show ?thesis by (auto simp: list_all_iff)
qed

lemma preflight_refuses_witness:
  "distinct (map pg_id (doc_pages one_line_document)) \<and>
   list_all (\<lambda>p. distinct (map line_id (pg_lines p))) (doc_pages one_line_document)"
proof -
  obtain eng' where "preflight (demo_engine mot_producer) (Some ''alto'') one_line_document [] None = Inr eng'"
    using demo_document_run(1) by (cases "preflight (demo_engine mot_producer) (Some ''alto'') one_line_document [] None") auto
  from preflight_refuses [OF this] show ?thesis by (auto simp: list_all_iff)
qed

end
