(* ===== verification/Decision_Spec.thy ===== *)
theory Decision_Spec
  imports Pipeline
begin

text \<open>
  What \<open>core/decide.py\<close> promises of a line, as a machine of four moves, and the proof that the engine
  implements it: a line is open, then accepted with a text, perhaps respelled, perhaps reverted to
  its source; nothing comes back from a revert and nothing is ever reopened. The abstraction maps a
  run to the decision of each of its lines.
\<close>

section \<open>The specification\<close>

datatype decision = Open | Accepted ptext | Reverted

inductive decision_step :: "decision \<Rightarrow> decision \<Rightarrow> bool" where
  accepting: "decision_step Open (Accepted t)"
| respelling: "decision_step (Accepted t) (Accepted t')"
| refusing: "decision_step Open Reverted"
| reverting: "decision_step (Accepted t) Reverted"

inductive_cases from_reverted [elim!]: "decision_step Reverted x"
inductive_simps to_open [simp]: "decision_step x Open"

definition later :: "decision \<Rightarrow> decision \<Rightarrow> bool" where
  "later a b \<longleftrightarrow> decision_step\<^sup>*\<^sup>* a b"

lemma later_from_reverted: "later Reverted x \<longleftrightarrow> x = Reverted"
  unfolding later_def by (auto elim: converse_rtranclpE)

lemma later_to_open: "later x Open \<longleftrightarrow> x = Open"
  unfolding later_def by (auto elim: rtranclp.cases)

lemma later_intros [intro]:
  "later a a" "later Open b" "later (Accepted t) (Accepted t')" "later (Accepted t) Reverted"
  unfolding later_def by (cases b; auto intro: decision_step.intros)+

section \<open>The abstraction\<close>

definition verdict :: "line_manifest \<Rightarrow> decision" where
  "verdict lm =
     (case status lm of
        PENDING \<Rightarrow> Open
      | CORRECTED \<Rightarrow> Accepted (case corrected_text lm of None \<Rightarrow> ocr_text lm | Some t \<Rightarrow> t)
      | _ \<Rightarrow> Reverted)"

definition verdicts :: "run \<Rightarrow> lref \<Rightarrow> decision option" where
  "verdicts r ref = map_option verdict (line_at r ref)"

lemma line_progress_later:
  assumes "settled a" "settled b" "line_progress a b"
  shows "later (verdict a) (verdict b)"
  using assms
  by (cases "status a"; cases "status b") (auto simp: line_progress_def settled_def verdict_def)

lemma progress_refines:
  assumes "coherent_run r" "coherent_run r'" "progress r r'"
  shows "rel_option later (verdicts r ref) (verdicts r' ref)"
proof (cases "line_at r ref")
  case None
  with progress_None [OF assms(3)] show ?thesis by (simp add: verdicts_def)
next
  case (Some a)
  from progress_Some [OF assms(3) Some] obtain b where b: "line_at r' ref = Some b" "line_progress a b" .
  with assms(1,2) Some have "settled a" "settled b" by (auto simp: coherent_run_def)
  from line_progress_later [OF this b(2)] Some b(1) show ?thesis by (simp add: verdicts_def)
qed

section \<open>Properties\<close>

text \<open>C7: the three verbs of the engine are the moves of the machine: \<open>accept\<close> makes one line
  accepted with the text, \<open>fall_back\<close> makes it reverted, \<open>renormalise\<close> respells an accepted line and
  leaves any other alone; each moves the named line only.\<close>

theorem verbs_are_moves:
  "verdicts (accept new ref r) x = (if x = ref then map_option (\<lambda>_. Accepted new) (verdicts r x) else verdicts r x) \<and>
   verdicts (fall_back why ref r) x = (if x = ref then map_option (\<lambda>_. Reverted) (verdicts r x) else verdicts r x) \<and>
   verdicts (renormalise new ref r) x =
     (if x = ref then map_option (\<lambda>d. case d of Accepted t \<Rightarrow> Accepted new | _ \<Rightarrow> d) (verdicts r x)
      else verdicts r x)"
proof (intro conjI)
  show "verdicts (accept new ref r) x = (if x = ref then map_option (\<lambda>_. Accepted new) (verdicts r x) else verdicts r x)"
    by (cases "line_at r ref") (simp_all add: verdicts_def line_at_accept verdict_def)
  show "verdicts (fall_back why ref r) x = (if x = ref then map_option (\<lambda>_. Reverted) (verdicts r x) else verdicts r x)"
    by (cases "line_at r ref") (simp_all add: verdicts_def line_at_fall_back verdict_def)
  have "verdict (lm\<lparr>corrected_text := Some new\<rparr>) = (case verdict lm of Accepted t \<Rightarrow> Accepted new | _ \<Rightarrow> verdict lm)" for lm
    by (cases "status lm") (simp_all add: verdict_def)
  then show "verdicts (renormalise new ref r) x =
     (if x = ref then map_option (\<lambda>d. case d of Accepted t \<Rightarrow> Accepted new | _ \<Rightarrow> d) (verdicts r x)
      else verdicts r x)"
    by (cases "line_at r ref") (simp_all add: verdicts_def renormalise_def line_at_update)
qed

text \<open>C9: The engine refines the machine. Over a page, however it ends, and over the finalisation of a
  document, every line's decision only moves by the machine's steps: an accepted line is never reopened and
  a reverted one stays reverted. The page is one the run can work on: its lines are stored under distinct
  ids, its blocks share them out, and the planner's configuration is valid. With quality routing switched on
  the claim is for a page none of whose lines has fallen back yet (\<open>routable\<close>): there \<open>confirm_skipped_lines\<close>
  accepts every line the router finds clean, a line that an earlier page put back with its unit too, so such
  a line would move from reverted to accepted (with its own source text).\<close>

theorem engine_refines_decisions:
  assumes "coherent_run r" "distinct (store_keys r)" "distinct (map line_id (pg_lines page))" "blocks_partition page"
    and "list_all (\<lambda>lm. line_at r (line_ref lm) \<noteq> None) (pg_lines page)"
    and "valid_planner_config (en_planner eng)" "routable eng page r"
    and "process_page eng page document page_partners r = (res, r1)"
    and "finalize_document u cfg lp d r1 = Inr (ds, sidecar, r2)"
  shows "rel_option later (verdicts r ref) (verdicts r1 ref) \<and> rel_option later (verdicts r1 ref) (verdicts r2 ref)"
proof -
  have "sound r r1" using process_page_ok [OF workspace_ready [OF assms(1,3,4,5)] assms(6,7,8)] by blast
  with assms(1) have 1: "coherent_run r1" "progress r r1" by (simp_all add: sound_def)
  then have keys: "distinct (map fst (rn_lines r1))" using assms(2) by (simp add: progress_def store_keys_def)
  obtain sc r3 where s: "sound_step r1 r3" and f: "finalize_document u cfg lp d r1 =
      (case derive_decision_set d r3 of Inl e \<Rightarrow> Inl e | Inr ds \<Rightarrow> Inr (ds, sc, r3))"
    by (rule finalize_passes [OF 1(1) keys])
  with assms(9) have "r2 = r3" by (auto split: sum.splits)
  with s have "coherent_run r2" "progress r1 r2" by (simp_all add: sound_step_def)
  with 1 assms(1) show ?thesis using progress_refines by blast
qed

lemma engine_refines_decisions_witness:
  "\<exists>r1. snd (process_page (demo_engine mot_producer) one_line_page ''D'' None one_line_run) = r1 \<and>
     rel_option later (verdicts one_line_run (LineRef ''P'' ''a'')) (verdicts r1 (LineRef ''P'' ''a''))"
proof -
  obtain res r1 where run: "process_page (demo_engine mot_producer) one_line_page ''D'' None one_line_run = (res, r1)"
    by fastforce
  have k: "distinct (store_keys one_line_run)" by (simp add: one_line_run_def store_keys_def one_line_page_def)
  have p: "coherent_run r1 \<and> progress one_line_run r1"
    using process_page_ok [OF workspace_ready [OF one_line_ready(1-4)] one_line_ready(5,6) run] one_line_ready(1)
    by (simp add: sound_def)
  then have keys: "distinct (map fst (rn_lines r1))" using k by (simp add: progress_def store_keys_def)
  let ?d = "\<lparr>doc_id = ''D'', doc_source_files = [], doc_pages = [], doc_source_format = None,
      doc_source_encodings = [], doc_source_digests = []\<rparr>"
  have "document_stored ?d r1" "list_all (\<lambda>lm. decided r1 (line_ref lm)) (document_lines ?d)"
    by (simp_all add: document_stored_def document_lines_def)
  from finalize_decides [OF conjunct1 [OF p] keys this] obtain ds sc r2 where
    "finalize_document ascii_unicode DEFAULT_GUARD_CONFIG DEFAULT_LOSS_POLICY ?d r1 = Inr (ds, sc, r2)" by blast
  from engine_refines_decisions [OF one_line_ready(1) k one_line_ready(2-6) run this] run show ?thesis by simp
qed

end
