(* ===== verification/Page_Alignment.thy ===== *)
theory Page_Alignment
  imports Alignment
begin

text \<open>
  \<open>core/page_alignment.py\<close>: which returned line answers which source line when a page is asked in
  one call. \<open>line_similarity\<close> is a second provider of the \<open>similarity_measure\<close> interface, so what
  the alignment promises of tokens it promises of lines.

  Facts: the matching never crosses, never names a returned line twice, matches only lines that
  share a word and whose token counts differ by at most two, and the unclaimed lines are the rest.
\<close>

definition MERGE_SLACK_TOKENS :: nat where
  "MERGE_SLACK_TOKENS = 2"

definition DEFAULT_LINE_BAND :: nat where
  "DEFAULT_LINE_BAND = 20"

definition line_similarity :: "ptext \<Rightarrow> ptext \<Rightarrow> rat" where
  "line_similarity left right =
     (let lt = py_split left; rt = py_split right; ls = set lt; rs = set rt
      in if length lt - length rt > MERGE_SLACK_TOKENS \<or> length rt - length lt > MERGE_SLACK_TOKENS then 0
         else if ls = {} \<and> rs = {} then 1
         else if ls = {} \<or> rs = {} then 0
         else of_nat (card (ls \<inter> rs)) / of_nat (card (ls \<union> rs)))"

record page_line_alignment =
  matched :: "nat option list"
  unclaimed :: "nat list"
  page_band_exhausted :: bool

definition unmatched :: "page_line_alignment \<Rightarrow> nat list" where
  "unmatched al = map fst (filter (\<lambda>(i, t). t = None) (enumerate 0 (matched al)))"

definition record_match :: "nat option list \<times> nat list \<Rightarrow> aligned_pair \<Rightarrow> nat option list \<times> nat list" where
  "record_match st p =
     (let (m, claimed) = st in
      case (source_index p, target_index p) of
        (Some i, Some j) \<Rightarrow> (m[i := Some j], j # claimed)
      | _ \<Rightarrow> st)"

definition align_page_lines :: "nat \<Rightarrow> ptext list \<Rightarrow> ptext list \<Rightarrow> page_line_alignment option" where
  "align_page_lines band source_lines returned_lines =
     (case align_tokens line_similarity (Some band) source_lines returned_lines of
        None \<Rightarrow> None
      | Some al \<Rightarrow>
          (let (m, claimed) = foldl record_match (replicate (length source_lines) None, []) (pairs al)
           in Some \<lparr>matched = m,
                    unclaimed = filter (\<lambda>j. j \<notin> set claimed) [0 ..< length returned_lines],
                    page_band_exhausted = band_exhausted al\<rparr>))"

section \<open>Line similarity is a similarity measure\<close>

lemma line_similarity_range: "0 \<le> line_similarity a b \<and> line_similarity a b \<le> 1"
proof -
  let ?A = "set (py_split a)" and ?B = "set (py_split b)"
  have "card (?A \<inter> ?B) \<le> card (?A \<union> ?B)" by (intro card_mono) auto
  then have "(of_nat (card (?A \<inter> ?B)) :: rat) \<le> of_nat (card (?A \<union> ?B))" by (simp only: of_nat_le_iff)
  then have "of_nat (card (?A \<inter> ?B)) / of_nat (card (?A \<union> ?B)) \<le> (1 :: rat)"
    by (cases "?A \<union> ?B = {}") (simp_all add: divide_le_eq_1 card_gt_0_iff)
  then show ?thesis by (simp add: line_similarity_def Let_def)
qed

interpretation lines: similarity_measure line_similarity
  by unfold_locales (use line_similarity_range in blast)+

text \<open>What a positive similarity is evidence of.\<close>

lemma line_similarity_evidence:
  assumes "line_similarity a b > 0"
  shows "length (py_split a) \<le> length (py_split b) + MERGE_SLACK_TOKENS"
    "length (py_split b) \<le> length (py_split a) + MERGE_SLACK_TOKENS"
    "set (py_split a) \<inter> set (py_split b) \<noteq> {} \<or> py_split a = [] \<and> py_split b = []"
proof -
  from assms have n: "\<not> (length (py_split a) - length (py_split b) > MERGE_SLACK_TOKENS \<or>
      length (py_split b) - length (py_split a) > MERGE_SLACK_TOKENS)"
    by (auto simp: line_similarity_def Let_def split: if_splits)
  then show "length (py_split a) \<le> length (py_split b) + MERGE_SLACK_TOKENS"
    "length (py_split b) \<le> length (py_split a) + MERGE_SLACK_TOKENS" by auto
  show "set (py_split a) \<inter> set (py_split b) \<noteq> {} \<or> py_split a = [] \<and> py_split b = []"
  proof (rule ccontr)
    assume "\<not> ?thesis"
    then have "set (py_split a) \<inter> set (py_split b) = {}" "\<not> (py_split a = [] \<and> py_split b = [])" by auto
    with assms n show False by (simp add: line_similarity_def Let_def split: if_splits)
  qed
qed

section \<open>The matching\<close>

definition matches :: "aligned_pair list \<Rightarrow> (nat \<times> nat) list" where
  "matches ps = List.map_filter (\<lambda>p. case (source_index p, target_index p) of
      (Some i, Some j) \<Rightarrow> Some (i, j) | _ \<Rightarrow> None) ps"

lemma record_match_fold:
  "foldl record_match (m, c) ps =
     (foldl (\<lambda>m (i, j). m[i := Some j]) m (matches ps), rev (map snd (matches ps)) @ c)"
proof (induction ps arbitrary: m c)
  case (Cons p ps)
  then show ?case
    by (cases "source_index p"; cases "target_index p")
      (simp_all add: record_match_def matches_def map_filter_simps)
qed (simp add: matches_def map_filter_simps)

lemma matches_in_walks:
  "set (map fst (matches ps)) \<subseteq> set (source_walk ps)" "set (map snd (matches ps)) \<subseteq> set (target_walk ps)"
  by (induction ps)
    (auto simp: matches_def source_walk_def target_walk_def map_filter_simps split: option.splits)

lemma matches_sorted:
  "sorted_wrt (<) (source_walk ps) \<Longrightarrow> sorted_wrt (<) (target_walk ps) \<Longrightarrow>
   sorted_wrt (\<lambda>(i, j) (k, l). i < k \<and> j < l) (matches ps)"
proof (induction ps)
  case (Cons p ps)
  have w: "source_walk (p # ps) = source_walk [p] @ source_walk ps"
    "target_walk (p # ps) = target_walk [p] @ target_walk ps"
    using walk_append [of "[p]" ps] by simp_all
  have ih: "sorted_wrt (\<lambda>(i, j) (k, l). i < k \<and> j < l) (matches ps)"
    using Cons.IH Cons.prems unfolding w sorted_wrt_append by blast
  show ?case
  proof (cases "source_index p = None \<or> target_index p = None")
    case True
    then have "matches (p # ps) = matches ps"
      by (auto simp: matches_def map_filter_simps split: option.split)
    with ih show ?thesis by simp
  next
    case False
    then obtain i j where p: "source_index p = Some i" "target_index p = Some j" by auto
    then have m: "matches (p # ps) = (i, j) # matches ps" by (simp add: matches_def map_filter_simps)
    have b: "k \<in> set (source_walk ps) \<Longrightarrow> i < k" "l \<in> set (target_walk ps) \<Longrightarrow> j < l" for k l
      using Cons.prems unfolding w sorted_wrt_append by (simp_all add: p)
    have "i < fst x \<and> j < snd x" if "x \<in> set (matches ps)" for x
      using b matches_in_walks [of ps] that by (metis imageI set_map subsetD)
    with ih show ?thesis by (auto simp: m)
  qed
qed (simp add: matches_def map_filter_simps)

lemma matched_fold:
  assumes "distinct (map fst ms)" "i < length m"
  shows "foldl (\<lambda>m (i, j). m[i := Some j]) m ms ! i =
    (case map_of ms i of None \<Rightarrow> m ! i | Some j \<Rightarrow> Some j)"
  using assms
proof (induction ms arbitrary: m)
  case (Cons e ms)
  obtain k j where e: "e = (k, j)" by fastforce
  have "foldl (\<lambda>m (i, j). m[i := Some j]) (m[k := Some j]) ms ! i =
      (case map_of ms i of None \<Rightarrow> m[k := Some j] ! i | Some j \<Rightarrow> Some j)"
    using Cons.IH [of "m[k := Some j]"] Cons.prems by simp
  moreover have "i = k \<Longrightarrow> map_of ms i = None" using Cons.prems e by (simp add: map_of_eq_None_iff)
  ultimately show ?case using Cons.prems by (cases "i = k") (simp_all add: e split: option.split)
qed simp

lemma length_matched_fold [simp]:
  "length (foldl (\<lambda>m (i, j). m[i := Some j]) m ms) = length m"
  by (induction ms arbitrary: m) auto

definition line_matching :: "ptext list \<Rightarrow> ptext list \<Rightarrow> page_line_alignment \<Rightarrow> (nat \<times> nat) list \<Rightarrow> bool" where
  "line_matching src ret al ms \<longleftrightarrow>
     matched al = map (map_of ms) [0 ..< length src] \<and>
     unclaimed al = filter (\<lambda>j. j \<notin> snd ` set ms) [0 ..< length ret] \<and>
     sorted_wrt (\<lambda>(i, j) (k, l). i < k \<and> j < l) ms \<and>
     list_all (\<lambda>(i, j). i < length src \<and> j < length ret \<and> line_similarity (src ! i) (ret ! j) > 0) ms"

lemma matches_evidence:
  assumes "list_all (well_evidenced sim src ret) ps" "(i, j) \<in> set (matches ps)"
  shows "sim (src ! i) (ret ! j) > 0"
  using assms
proof (induction ps)
  case (Cons p ps)
  then show ?case
    by (cases "source_index p"; cases "target_index p")
      (auto simp: matches_def map_filter_simps well_evidenced_def)
qed (simp add: matches_def map_filter_simps)

lemma sorted_matches_distinct:
  assumes "sorted_wrt (\<lambda>(i, j) (k, l). i < k \<and> j < l) (ms :: (nat \<times> nat) list)"
  shows "distinct (map fst ms)" "distinct (map snd ms)"
  using assms by (induction ms) (auto simp: split_beta)

lemma align_page_lines_matching:
  "\<exists>al ms. align_page_lines band src ret = Some al \<and> line_matching src ret al ms"
proof -
  from lines.align_arrives [of "Some band" src ret] obtain ta where
    ta: "align_tokens line_similarity (Some band) src ret = Some ta"
    and ro: "reads_once line_similarity src ret (length src) (length ret) (pairs ta)" by blast
  let ?ms = "matches (pairs ta)"
  have w: "source_walk (pairs ta) = [0 ..< length src]" "target_walk (pairs ta) = [0 ..< length ret]"
    "list_all (well_evidenced line_similarity src ret) (pairs ta)"
    using ro by (simp_all add: reads_once_def)
  have so: "sorted_wrt (\<lambda>(i, j) (k, l). i < k \<and> j < l) ?ms"
    by (rule matches_sorted) (simp_all add: w(1,2))
  note d = sorted_matches_distinct [OF so]
  let ?m = "foldl (\<lambda>m (i, j). m[i := Some j]) (replicate (length src) None) ?ms"
  let ?al = "\<lparr>matched = ?m, unclaimed = filter (\<lambda>j. j \<notin> snd ` set ?ms) [0 ..< length ret],
    page_band_exhausted = band_exhausted ta\<rparr>"
  have al: "align_page_lines band src ret = Some ?al"
    by (simp add: align_page_lines_def ta record_match_fold)
  have "?m = map (map_of ?ms) [0 ..< length src]"
    by (rule nth_equalityI) (simp_all add: matched_fold [OF d(1)] split: option.split)
  moreover have "list_all (\<lambda>(i, j). i < length src \<and> j < length ret \<and> line_similarity (src ! i) (ret ! j) > 0) ?ms"
    using matches_in_walks [of "pairs ta"] matches_evidence [OF w(3)]
    by (fastforce simp: list_all_iff w(1,2))
  ultimately have "line_matching src ret ?al ?ms" using so by (simp add: line_matching_def)
  with al show ?thesis by blast
qed

section \<open>Properties\<close>

text \<open>C33: aligning a page's lines always returns; what it returns is one strictly increasing
  matching (no two lines cross, no returned line answers two) between lines that share evidence, and
  the unclaimed lines are exactly the returned lines outside it.\<close>

theorem page_lines_never_cross:
  "\<exists>al ms. align_page_lines band src ret = Some al \<and>
     matched al = map (map_of ms) [0 ..< length src] \<and>
     unclaimed al = filter (\<lambda>j. j \<notin> snd ` set ms) [0 ..< length ret] \<and>
     sorted_wrt (\<lambda>(i, j) (k, l). i < k \<and> j < l) ms \<and>
     list_all (\<lambda>(i, j). i < length src \<and> j < length ret \<and> line_similarity (src ! i) (ret ! j) > 0) ms"
  using align_page_lines_matching [of band src ret] unfolding line_matching_def by blast

text \<open>Lines with a positive similarity have token counts at most two apart and share a word,
  or are both empty: a line that swallowed a neighbour of three words or more matches neither.\<close>

theorem line_similarity_gate:
  assumes "line_similarity a b > 0"
  shows "length (py_split a) \<le> length (py_split b) + 2 \<and> length (py_split b) \<le> length (py_split a) + 2 \<and>
    (set (py_split a) \<inter> set (py_split b) \<noteq> {} \<or> py_split a = [] \<and> py_split b = [])"
  using line_similarity_evidence [OF assms] by (simp add: MERGE_SLACK_TOKENS_def)

lemma line_similarity_gate_witness:
  "length (py_split (tx ''a b'')) \<le> length (py_split (tx ''a'')) + 2"
proof -
  have "line_similarity (tx ''a b'') (tx ''a'') > 0"
    by (simp add: line_similarity_def tx_def py_split_def MERGE_SLACK_TOKENS_def is_space_def
        card_gt_0_iff)
  from line_similarity_gate [OF this] show ?thesis by blast
qed

end
