(* ===== verification/Xml_Tree.thy ===== *)
theory Xml_Tree
  imports Manifest Py_Text
begin

text \<open>
  XML elements and what both formats do with them: \<open>formats/_xml.py\<close> (tags and namespaces),
  \<open>core/_parse.py\<close> (tolerant integers) and \<open>formats/alto/_ns.py\<close>.

  An element has its tag in Clark notation (\<open>None\<close> for a comment or a processing instruction, whose
  tag is not a string), its identifier-valued attributes (ALTO's \<open>ID\<close> and \<open>IDNEXT\<close>, PAGE's \<open>id\<close>,
  \<open>regionRef\<close> and \<open>imageFilename\<close>), its other attributes, its character data and its children.
  Attributes are dictionaries in document order; the identifier-valued ones stand apart, so their place
  among the others is not modelled.

  The locale \<open>line_map\<close> is the contract of a rewriter towards the tree: it changes \<open>TextLine\<close> elements
  only, and leaves no line inside a line.
\<close>

section \<open>Elements\<close>

datatype xml =
  Element (el_tag: "string option") (el_ids: "(string, ident) dict")
    (el_attrs: "(string, ptext) dict") (el_text: "ptext option") (el_children: "xml list")

definition get_id :: "xml \<Rightarrow> ident option" where
  "get_id el = map_of (el_ids el) ''ID''"

definition get_attr :: "string \<Rightarrow> xml \<Rightarrow> ptext option" where
  "get_attr k el = map_of (el_attrs el) k"

fun set_attr :: "string \<Rightarrow> ptext \<Rightarrow> xml \<Rightarrow> xml" where
  "set_attr k v (Element t i as x cs) = Element t i (dict_set k v as) x cs"

fun del_attr :: "string \<Rightarrow> xml \<Rightarrow> xml" where
  "del_attr k (Element t i as x cs) = Element t i (AList.delete k as) x cs"

fun set_id :: "ident \<Rightarrow> xml \<Rightarrow> xml" where
  "set_id v (Element t i as x cs) = Element t (dict_set ''ID'' v i) as x cs"

fun set_children :: "xml list \<Rightarrow> xml \<Rightarrow> xml" where
  "set_children cs (Element t i as x _) = Element t i as x cs"

text \<open>\<open>value or default\<close> of \<open>el.get(name, default)\<close>.\<close>

definition or_else :: "'a option \<Rightarrow> 'a \<Rightarrow> 'a" where
  "or_else x d = (case x of None \<Rightarrow> d | Some v \<Rightarrow> v)"

text \<open>A call that may raise, and the code after it.\<close>

definition res_bind :: "exn + 'a \<Rightarrow> ('a \<Rightarrow> exn + 'b) \<Rightarrow> exn + 'b" where
  "res_bind x f = (case x of Inl e \<Rightarrow> Inl e | Inr v \<Rightarrow> f v)"

lemma res_bind_simps [simp]: "res_bind (Inl e) f = Inl e" "res_bind (Inr v) f = f v"
  by (simp_all add: res_bind_def)

lemma res_bind_Inr: "res_bind x f = Inr y \<longleftrightarrow> (\<exists>v. x = Inr v \<and> f v = Inr y)"
  by (cases x) auto

text \<open>\<open>formats/_xml.py\<close>: namespaces and qualified names.\<close>

definition tag_namespace :: "string \<Rightarrow> string" where
  "tag_namespace t =
     (if t \<noteq> [] \<and> hd t = CHR ''{'' \<and> CHR ''}'' \<in> set t
      then takeWhile (\<lambda>c. c \<noteq> CHR ''}'') (tl t) else '''')"

definition detect_namespace :: "xml \<Rightarrow> string" where
  "detect_namespace el = (case el_tag el of None \<Rightarrow> '''' | Some t \<Rightarrow> tag_namespace t)"

definition local_name :: "xml \<Rightarrow> string" where
  "local_name el =
     (case el_tag el of
        None \<Rightarrow> ''''
      | Some t \<Rightarrow>
          if t \<noteq> [] \<and> hd t = CHR ''{'' \<and> CHR ''}'' \<in> set t
          then tl (dropWhile (\<lambda>c. c \<noteq> CHR ''}'') t) else t)"

definition qtag :: "string \<Rightarrow> string \<Rightarrow> string" where
  "qtag local_part ns = (if ns \<noteq> [] then ''{'' @ ns @ ''}'' @ local_part else local_part)"

definition has_tag :: "string \<Rightarrow> string \<Rightarrow> xml \<Rightarrow> bool" where
  "has_tag local_part ns el \<longleftrightarrow> el_tag el = Some (qtag local_part ns)"

text \<open>\<open>el.findall(tag)\<close> and the list comprehensions over direct children.\<close>

definition children_tagged :: "string \<Rightarrow> string \<Rightarrow> xml \<Rightarrow> xml list" where
  "children_tagged local_part ns el = filter (has_tag local_part ns) (el_children el)"

definition find_child :: "string \<Rightarrow> string \<Rightarrow> xml \<Rightarrow> xml option" where
  "find_child local_part ns el = List.find (has_tag local_part ns) (el_children el)"

text \<open>\<open>root.iter(tag)\<close>: the element itself and its descendants, in document order.\<close>

fun iter_tagged :: "string \<Rightarrow> string \<Rightarrow> xml \<Rightarrow> xml list" where
  "iter_tagged local_part ns (Element t i as x cs) =
     (if t = Some (qtag local_part ns) then [Element t i as x cs] else []) @
     concat (map (iter_tagged local_part ns) cs)"

section \<open>Numbers in attributes\<close>

text \<open>\<open>float(s)\<close>. A finite value is the exact rational the literal denotes; a literal of
  magnitude \<open>DOUBLE_LIMIT\<close> or more rounds to an infinity. Digits are the ASCII digits.\<close>

datatype pyfloat = Finite rat | Infinity | NotANumber

definition DOUBLE_LIMIT :: rat where
  "DOUBLE_LIMIT = 179769313486231580793728971405303415079934132710037826936173778980444968292764750946649017977587207096330286416692887910946555547851940402630657488671505820681908902000708383676273854845817711531764475730270069855571366959622842914819860834936475292719074168444365510704342711559699508093042880177904174497792"

definition digit_run :: "ptext \<Rightarrow> bool" where
  "digit_run s \<longleftrightarrow>
     s \<noteq> [] \<and> ascii_digit (hd s) \<and> ascii_digit (last s) \<and>
     list_all (\<lambda>c. ascii_digit c \<or> c = 95) s \<and>
     list_all (\<lambda>(a, b). \<not> (a = 95 \<and> b = 95)) (zip s (tl s))"

definition digits_value :: "ptext \<Rightarrow> int" where
  "digits_value s = foldl (\<lambda>n c. if c = 95 then n else 10 * n + (c - 48)) 0 s"

definition signed :: "ptext \<Rightarrow> int \<times> ptext" where
  "signed s =
     (case s of [] \<Rightarrow> (1, [])
      | c # cs \<Rightarrow> if c = 45 then (- 1, cs) else if c = 43 then (1, cs) else (1, s))"

definition scale10 :: "rat \<Rightarrow> int \<Rightarrow> rat" where
  "scale10 r e = (if e \<ge> 0 then r * 10 ^ nat e else r / 10 ^ nat (- e))"

definition mantissa :: "ptext \<Rightarrow> rat option" where
  "mantissa s =
     (let whole = takeWhile (\<lambda>c. c \<noteq> 46) s; rest = dropWhile (\<lambda>c. c \<noteq> 46) s;
          frac = drop 1 rest
      in if (whole = [] \<or> digit_run whole) \<and> (frac = [] \<or> digit_run frac) \<and>
            \<not> (whole = [] \<and> frac = [])
         then Some (of_int (digits_value whole) +
                    scale10 (of_int (digits_value frac)) (- int (length (filter ascii_digit frac))))
         else None)"

definition exponent :: "ptext \<Rightarrow> int option" where
  "exponent s =
     (if s = [] then Some 0
      else (let (sg, ds) = signed (drop 1 s) in if digit_run ds then Some (sg * digits_value ds) else None))"

definition py_float :: "ptext \<Rightarrow> pyfloat option" where
  "py_float s =
     (let (sg, body) = signed (py_strip s);
          low = map (\<lambda>c. if ascii_upper c then c + 32 else c) body
      in if low = tx ''inf'' \<or> low = tx ''infinity'' then Some Infinity
         else if low = tx ''nan'' then Some NotANumber
         else
           (case (mantissa (takeWhile (\<lambda>c. c \<noteq> 101) low), exponent (dropWhile (\<lambda>c. c \<noteq> 101) low)) of
              (Some m, Some e) \<Rightarrow>
                (let v = scale10 m e in
                 if v \<ge> DOUBLE_LIMIT then Some Infinity else Some (Finite (of_int sg * v)))
            | _ \<Rightarrow> None))"

text \<open>\<open>int(x)\<close> of a finite float: toward zero.\<close>

definition truncate_rat :: "rat \<Rightarrow> int" where
  "truncate_rat r = (if r \<ge> 0 then \<lfloor>r\<rfloor> else - \<lfloor>- r\<rfloor>)"

text \<open>\<open>core/_parse.py\<close>\<close>

definition parse_int_tolerant :: "ptext option \<Rightarrow> int \<Rightarrow> bool \<Rightarrow> exn + int" where
  "parse_int_tolerant raw default_value strict =
     (case raw of
        None \<Rightarrow> Inr default_value
      | Some s \<Rightarrow>
          if s = [] then Inr default_value
          else
            (case py_float s of
               Some (Finite r) \<Rightarrow> Inr (truncate_rat r)
             | Some Infinity \<Rightarrow>
                 if strict then Inl (Exn C_ValueError ''non-finite integer value'') else Inr default_value
             | _ \<Rightarrow>
                 if strict then Inl (Exn C_ValueError ''not a number'') else Inr default_value))"

definition int_attr :: "xml \<Rightarrow> string \<Rightarrow> exn + int" where
  "int_attr el name = parse_int_tolerant (get_attr name el) 0 True"

section \<open>Facts: numbers\<close>

lemma parse_int_lenient: "\<exists>n. parse_int_tolerant raw d False = Inr n"
  by (auto simp: parse_int_tolerant_def split: option.split pyfloat.split)

lemma dec_inject: "dec m = dec n \<Longrightarrow> m = n"
proof -
  have "foldl (\<lambda>v c. 10 * v + (of_char c - 48)) 0 (dec k) = k" for k :: nat
  proof (induction k rule: dec.induct)
    case (1 n)
    have d: "of_char (char_of (48 + m) :: char) = 48 + m" if "m < 10" for m :: nat
      using that by simp
    show ?case
    proof (cases "n < 10")
      case True
      then show ?thesis by (simp add: dec.simps [of n])
    next
      case False
      with 1 have "foldl (\<lambda>v c. 10 * v + (of_char c - 48)) 0 (dec (n div 10)) = n div 10" by simp
      moreover have "n mod 10 < 10" by simp
      ultimately show ?thesis using False d [of "n mod 10"] by (simp add: dec.simps [of n])
    qed
  qed
  then show "dec m = dec n \<Longrightarrow> m = n" by metis
qed

section \<open>Writing into a tree\<close>

definition update_child :: "nat \<Rightarrow> (xml \<Rightarrow> xml) \<Rightarrow> xml \<Rightarrow> xml" where
  "update_child i f el = set_children ((el_children el)[i := f (el_children el ! i)]) el"

definition append_children :: "xml list \<Rightarrow> xml \<Rightarrow> xml" where
  "append_children cs el = set_children (el_children el @ cs) el"

fun map_elements :: "(xml \<Rightarrow> xml) \<Rightarrow> xml \<Rightarrow> xml" where
  "map_elements f (Element t i as x cs) = f (Element t i as x (map (map_elements f) cs))"

fun update_first :: "(xml \<Rightarrow> bool) \<Rightarrow> (xml \<Rightarrow> xml) \<Rightarrow> xml list \<Rightarrow> xml list" where
  "update_first P f [] = []"
| "update_first P f (c # cs) = (if P c then f c # cs else c # update_first P f cs)"

definition update_last :: "(xml \<Rightarrow> bool) \<Rightarrow> (xml \<Rightarrow> xml) \<Rightarrow> xml list \<Rightarrow> xml list" where
  "update_last P f cs = rev (update_first P f (rev cs))"

section \<open>Facts: elements\<close>

lemma el_set_attr [simp]:
  "el_tag (set_attr k v el) = el_tag el" "el_ids (set_attr k v el) = el_ids el"
  "el_text (set_attr k v el) = el_text el" "el_children (set_attr k v el) = el_children el"
  "el_attrs (set_attr k v el) = dict_set k v (el_attrs el)"
  by (cases el; simp)+

lemma el_del_attr [simp]:
  "el_tag (del_attr k el) = el_tag el" "el_ids (del_attr k el) = el_ids el"
  "el_text (del_attr k el) = el_text el" "el_children (del_attr k el) = el_children el"
  "el_attrs (del_attr k el) = AList.delete k (el_attrs el)"
  by (cases el; simp)+

lemma el_set_children [simp]:
  "el_tag (set_children cs el) = el_tag el" "el_ids (set_children cs el) = el_ids el"
  "el_attrs (set_children cs el) = el_attrs el" "el_text (set_children cs el) = el_text el"
  "el_children (set_children cs el) = cs"
  by (cases el; simp)+

lemma set_children_same [simp]: "set_children (el_children el) el = el"
  by (cases el) simp

lemma set_children_twice [simp]: "set_children cs (set_children ds el) = set_children cs el"
  by (cases el) simp

lemma get_set_attr [simp]: "get_attr k (set_attr j v el) = (if k = j then Some v else get_attr k el)"
  by (simp add: get_attr_def)

lemma get_del_attr [simp]: "get_attr k (del_attr j el) = (if k = j then None else get_attr k el)"
  by (simp add: get_attr_def delete_conv')

lemma get_attr_children [simp]: "get_attr k (set_children cs el) = get_attr k el"
  by (simp add: get_attr_def)

lemma get_id_attr [simp]:
  "get_id (set_attr k v el) = get_id el" "get_id (del_attr k el) = get_id el"
  "get_id (set_children cs el) = get_id el"
  by (simp_all add: get_id_def)

lemma has_tag_attr [simp]:
  "has_tag l ns (set_attr k v el) = has_tag l ns el" "has_tag l ns (del_attr k el) = has_tag l ns el"
  "has_tag l ns (set_children cs el) = has_tag l ns el"
  by (simp_all add: has_tag_def)

lemma qtag_inject [simp]: "qtag a ns = qtag b ns \<longleftrightarrow> a = b"
  by (simp add: qtag_def)

lemma has_tag_Element [simp]: "has_tag l ns (Element (Some (qtag k ns)) i as x cs) \<longleftrightarrow> k = l"
  by (simp add: has_tag_def)

lemma has_tag_unique: "has_tag a ns el \<Longrightarrow> has_tag b ns el \<Longrightarrow> a = b"
  by (auto simp: has_tag_def)

lemma update_child_simps [simp]:
  "el_tag (update_child i f el) = el_tag el" "el_ids (update_child i f el) = el_ids el"
  "el_attrs (update_child i f el) = el_attrs el" "el_text (update_child i f el) = el_text el"
  "el_children (update_child i f el) = (el_children el)[i := f (el_children el ! i)]"
  by (simp_all add: update_child_def)

section \<open>Facts: the lines of a tree\<close>

text \<open>An element under which no \<open>TextLine\<close> stands.\<close>

definition lineless :: "string \<Rightarrow> xml \<Rightarrow> bool" where
  "lineless ns el \<longleftrightarrow> iter_tagged ''TextLine'' ns el = []"

definition flat_lines :: "string \<Rightarrow> xml \<Rightarrow> bool" where
  "flat_lines ns el \<longleftrightarrow>
     list_all (\<lambda>tl. list_all (lineless ns) (el_children tl)) (iter_tagged ''TextLine'' ns el)"

lemma iter_children:
  "iter_tagged l ns el = (if has_tag l ns el then [el] else []) @ concat (map (iter_tagged l ns) (el_children el))"
  by (cases el) (simp add: has_tag_def)

lemma lineless_iff:
  "lineless ns el \<longleftrightarrow> \<not> has_tag ''TextLine'' ns el \<and> list_all (lineless ns) (el_children el)"
  unfolding lineless_def by (subst iter_children) (simp add: list_all_iff)

lemma lineless_cong:
  "(\<And>l. has_tag l ns a = has_tag l ns b) \<Longrightarrow> el_children a = el_children b \<Longrightarrow> lineless ns a = lineless ns b"
  by (simp add: lineless_iff)

definition lineless_children :: "string \<Rightarrow> xml \<Rightarrow> bool" where
  "lineless_children ns el \<longleftrightarrow> list_all (lineless ns) (el_children el)"

lemma iter_child: "c \<in> set (el_children a) \<Longrightarrow> set (iter_tagged l ns c) \<subseteq> set (iter_tagged l ns a)"
  by (subst (2) iter_children) auto

lemma find_child_iter: "find_child k ns a = Some c \<Longrightarrow> set (iter_tagged l ns c) \<subseteq> set (iter_tagged l ns a)"
  unfolding find_child_def by (rule iter_child) (auto simp: find_Some_iff)

lemma iter_has_tag: "e \<in> set (iter_tagged l ns el) \<Longrightarrow> has_tag l ns e"
proof (induction el)
  case (Element t i as x cs)
  then show ?case by (auto simp: has_tag_def split: if_splits)
qed

lemma iter_update_first:
  assumes "\<And>c. P c \<Longrightarrow> iter_tagged l ns (f c) = iter_tagged l ns c"
  shows "concat (map (iter_tagged l ns) (update_first P f cs)) = concat (map (iter_tagged l ns) cs)"
  by (induction cs) (simp_all add: assms)

lemma iter_update_last:
  assumes "\<And>c. P c \<Longrightarrow> iter_tagged l ns (f c) = iter_tagged l ns c"
  shows "concat (map (iter_tagged l ns) (update_last P f cs)) = concat (map (iter_tagged l ns) cs)"
proof -
  have "concat (map (iter_tagged l ns) (rev (update_first P f ds))) = concat (map (iter_tagged l ns) (rev ds))" for ds
    by (induction ds) (simp_all add: assms)
  from this [of "rev cs"] show ?thesis by (simp add: update_last_def)
qed

lemma iter_set_children:
  "\<not> has_tag l ns el \<Longrightarrow> iter_tagged l ns (set_children cs el) = concat (map (iter_tagged l ns) cs)"
  by (cases el) (simp add: has_tag_def)

lemma iter_own_children:
  "\<not> has_tag l ns el \<Longrightarrow> concat (map (iter_tagged l ns) (el_children el)) = iter_tagged l ns el"
  by (cases el) (simp add: has_tag_def)

lemma iter_append:
  assumes "has_tag k ns el" "k \<noteq> l" "concat (map (iter_tagged l ns) cs) = []"
  shows "iter_tagged l ns (append_children cs el) = iter_tagged l ns el"
proof -
  have "\<not> has_tag l ns el" using assms(1,2) has_tag_unique by blast
  then show ?thesis
    using assms(3) iter_own_children [of l ns el] by (simp add: append_children_def iter_set_children)
qed

text \<open>The contract of a rewriter of lines.\<close>

locale line_map =
  fixes ns :: string and f :: "xml \<Rightarrow> xml"
  assumes other: "\<not> has_tag ''TextLine'' ns el \<Longrightarrow> f el = el"
    and line: "has_tag ''TextLine'' ns el \<Longrightarrow> lineless_children ns el \<Longrightarrow>
      has_tag ''TextLine'' ns (f el) \<and> lineless_children ns (f el)"
begin

lemma lineless_kept: "lineless ns el \<Longrightarrow> map_elements f el = el"
proof (induction el)
  case (Element t i as x cs)
  then have "map (map_elements f) cs = cs"
    by (intro map_idI) (simp add: lineless_iff [of ns "Element t i as x cs"] list_all_iff)
  moreover have "\<not> has_tag ''TextLine'' ns (Element t i as x cs)" using Element by (simp add: lineless_iff)
  ultimately show ?case by (simp add: other)
qed

lemma no_line_kept: "\<not> has_tag ''TextLine'' ns el \<Longrightarrow> \<not> has_tag ''TextLine'' ns (map_elements f el)"
  by (cases el) (simp add: other has_tag_def)

text \<open>The lines of the written tree are the rewritten lines of the source tree, in order.\<close>

lemma iter_mapped:
  assumes "flat_lines ns el"
  shows "iter_tagged ''TextLine'' ns (map_elements f el) =
    map f (iter_tagged ''TextLine'' ns el)"
  using assms
proof (induction el)
  case (Element t i as x cs)
  let ?el = "Element t i as x cs"
  show ?case
  proof (cases "has_tag ''TextLine'' ns ?el")
    case True
    have flat: "lineless_children ns ?el"
      using Element.prems True by (simp add: flat_lines_def lineless_children_def has_tag_def)
    then have same: "map (map_elements f) cs = cs"
      by (intro map_idI) (simp add: lineless_children_def list_all_iff lineless_kept)
    have lines: "iter_tagged ''TextLine'' ns e = [e]" if "has_tag ''TextLine'' ns e" "lineless_children ns e" for e
      using that by (subst iter_children) (simp add: lineless_children_def list_all_iff lineless_def)
    show ?thesis using lines [OF True flat] lines line [OF True flat] by (simp add: same)
  next
    case False
    have iters: "iter_tagged ''TextLine'' ns (Element t i as x ds) = concat (map (iter_tagged ''TextLine'' ns) ds)" for ds
      using False by (simp add: has_tag_def)
    have flat: "flat_lines ns c" if "c \<in> set cs" for c
      using Element.prems that by (auto simp: flat_lines_def iters list_all_iff)
    have "\<not> has_tag ''TextLine'' ns (Element t i as x ds)" for ds using False by (simp add: has_tag_def)
    then have "map_elements f ?el = Element t i as x (map (map_elements f) cs)" by (simp add: other)
    then have "iter_tagged ''TextLine'' ns (map_elements f ?el) =
        concat (map (\<lambda>c. iter_tagged ''TextLine'' ns (map_elements f c)) cs)"
      using False by (simp add: has_tag_def comp_def)
    also have "\<dots> = concat (map (\<lambda>c. map f (iter_tagged ''TextLine'' ns c)) cs)"
      using Element.IH flat by (intro arg_cong [where f = concat] map_cong) auto
    also have "\<dots> = map f (iter_tagged ''TextLine'' ns ?el)"
      using False by (simp add: has_tag_def map_concat comp_def)
    finally show ?thesis .
  qed
qed

end

end
