(* ===== verification/Alto_Text.thy ===== *)
theory Alto_Text
  imports Pairing Xml_Tree
begin

text \<open>
  What the ALTO parser and the ALTO rewriter share: \<open>formats/alto/_text.py\<close> (the text of a \<open>TextLine\<close>)
  and the tokenisation of \<open>formats/alto/rewriter.py\<close>.
\<close>

section \<open>The text of a line\<close>

definition DEDUP_MARKS :: "cp list" where
  "DEDUP_MARKS = filter (\<lambda>c. c \<noteq> 173) HYPHEN_CHARS"

definition MARK_SUBSTITUTIONS :: "(ptext, ptext) dict" where
  "MARK_SUBSTITUTIONS = [([173], [45])]"

definition hyp_text :: "bool \<Rightarrow> xml \<Rightarrow> ptext" where
  "hyp_text verbatim el =
     (let c = or_else (get_attr ''CONTENT'' el) [45]
      in if verbatim then c else or_else (map_of MARK_SUBSTITUTIONS c) c)"

definition add_child_text :: "string \<Rightarrow> bool \<Rightarrow> ptext \<Rightarrow> xml \<Rightarrow> ptext" where
  "add_child_text ns verbatim acc child =
     (if has_tag ''String'' ns child then acc @ or_else (get_attr ''CONTENT'' child) []
      else if has_tag ''SP'' ns child then acc @ [32]
      else if has_tag ''HYP'' ns child then
        (let h = hyp_text verbatim child
         in if h \<noteq> [] \<and> \<not> ends_in (set DEDUP_MARKS) acc then acc @ h else acc)
      else acc)"

definition reconstruct_textline :: "unicode \<Rightarrow> string \<Rightarrow> bool \<Rightarrow> xml \<Rightarrow> ptext" where
  "reconstruct_textline u ns verbatim el =
     nfc u (foldl (add_child_text ns verbatim) [] (el_children el))"

text \<open>The logical text of a line, as the parser stores it.\<close>

definition build_ocr_text :: "unicode \<Rightarrow> string \<Rightarrow> xml \<Rightarrow> ptext" where
  "build_ocr_text u ns el =
     py_strip (filter (\<lambda>c. c \<noteq> 13) (reconstruct_textline u ns False el))"

section \<open>Tokens\<close>

definition NO_BREAK_SPACES :: "cp list" where
  "NO_BREAK_SPACES = [160, 8239, 8199]"

definition breaking :: "cp \<Rightarrow> bool" where
  "breaking c \<longleftrightarrow> is_space c \<and> c \<notin> set NO_BREAK_SPACES"

text \<open>The maximal runs of breaking and of other characters.\<close>

fun tokenize :: "ptext \<Rightarrow> ptext list" where
  "tokenize [] = []"
| "tokenize (c # cs) =
     (case tokenize cs of
        [] \<Rightarrow> [[c]]
      | r # rs \<Rightarrow> if r \<noteq> [] \<and> breaking c = breaking (hd r) then (c # r) # rs else [c] # r # rs)"

definition is_space_token :: "ptext \<Rightarrow> bool" where
  "is_space_token t \<longleftrightarrow> t \<noteq> [] \<and> list_all breaking t"

definition word_tokens :: "ptext \<Rightarrow> ptext list" where
  "word_tokens s = filter (\<lambda>t. \<not> is_space_token t) (tokenize s)"

section \<open>Facts: tokens\<close>

lemma tokenize_nonempty: "t \<in> set (tokenize s) \<Longrightarrow> t \<noteq> []"
  by (induction s arbitrary: t rule: tokenize.induct) (auto split: list.splits if_splits)

lemma tokenize_Nil_iff [simp]: "tokenize s = [] \<longleftrightarrow> s = []"
  by (cases s) (auto split: list.splits)

text \<open>Cutting a text into tokens loses nothing.\<close>

lemma concat_tokenize [simp]: "concat (tokenize s) = s"
proof (induction s)
  case (Cons c cs)
  then show ?case by (cases "tokenize cs") auto
qed simp

lemma tokenize_Cons_cases:
  obtains "tokenize cs = []" "tokenize (c # cs) = [[c]]"
  | r rs where "tokenize cs = r # rs" "breaking c = breaking (hd r)" "tokenize (c # cs) = (c # r) # rs"
  | r rs where "tokenize cs = r # rs" "breaking c \<noteq> breaking (hd r)" "tokenize (c # cs) = [c] # r # rs"
proof (cases "tokenize cs")
  case Nil
  then show thesis using that(1) by simp
next
  case (Cons r rs)
  then have ne: "r \<noteq> []" using tokenize_nonempty [of r cs] by simp
  show thesis
  proof (cases "breaking c = breaking (hd r)")
    case True
    with Cons ne that(2) show thesis by simp
  next
    case False
    with Cons that(3) show thesis by simp
  qed
qed

lemma token_uniform: "t \<in> set (tokenize s) \<Longrightarrow> x \<in> set t \<Longrightarrow> breaking x = breaking (hd t)"
proof (induction s arbitrary: t)
  case (Cons c cs)
  show ?case
  proof (cases rule: tokenize_Cons_cases [of cs c])
    case 1
    with Cons.prems show ?thesis by simp
  next
    case (2 r rs)
    then show ?thesis using Cons.prems Cons.IH by fastforce
  next
    case (3 r rs)
    then show ?thesis using Cons.prems Cons.IH by fastforce
  qed
qed simp

lemma space_token_iff:
  assumes "t \<in> set (tokenize s)" shows "is_space_token t \<longleftrightarrow> breaking (hd t)"
proof -
  have ne: "t \<noteq> []" using assms by (rule tokenize_nonempty)
  then have "hd t \<in> set t" by simp
  with ne token_uniform [OF assms] show ?thesis
    unfolding is_space_token_def list_all_iff by blast
qed

lemma tokens_alternate:
  "successively (\<lambda>a b. is_space_token a \<noteq> is_space_token b) (tokenize s)"
proof -
  have "successively (\<lambda>a b. breaking (hd a) \<noteq> breaking (hd b)) (tokenize s)"
  proof (induction s)
    case (Cons c cs)
    show ?case
    proof (cases rule: tokenize_Cons_cases [of cs c])
      case (2 r rs)
      with Cons show ?thesis by (cases rs) auto
    next
      case (3 r rs)
      with Cons show ?thesis by simp
    qed simp
  qed simp
  then show ?thesis
    by (rule successively_mono) (simp add: space_token_iff)
qed

lemma word_token_chars:
  "w \<in> set (word_tokens s) \<Longrightarrow> w \<noteq> [] \<and> (\<forall>c \<in> set w. \<not> breaking c)"
proof -
  assume "w \<in> set (word_tokens s)"
  then have w: "w \<in> set (tokenize s)" "\<not> is_space_token w" by (simp_all add: word_tokens_def)
  then have "\<not> breaking (hd w)" using space_token_iff [OF w(1)] by simp
  with token_uniform [OF w(1)] tokenize_nonempty [OF w(1)] show ?thesis by blast
qed

lemma concat_word_tokens: "concat (word_tokens s) = filter (\<lambda>c. \<not> breaking c) s"
proof -
  have "concat (filter (\<lambda>t. \<not> is_space_token t) ts) = filter (\<lambda>c. \<not> breaking c) (concat ts)"
    if "set ts \<subseteq> set (tokenize s)" for ts
    using that
  proof (induction ts)
    case (Cons t ts)
    then have u: "\<forall>x \<in> set t. breaking x = breaking (hd t)" using token_uniform [of t s] by auto
    have "filter (\<lambda>c. \<not> breaking c) t = (if is_space_token t then [] else t)"
      using u Cons.prems space_token_iff [of t s] by (auto simp: filter_id_conv filter_empty_conv)
    with Cons show ?case by simp
  qed simp
  from this [of "tokenize s"] show ?thesis by (simp add: word_tokens_def)
qed

lemma first_token_word:
  assumes "tokenize s = t # ts" "py_strip s = s" shows "\<not> is_space_token t"
proof
  assume "is_space_token t"
  moreover have "s = concat (t # ts)" by (metis assms(1) concat_tokenize)
  ultimately have ne: "s \<noteq> []" and "breaking (hd s)"
    by (cases t; auto simp: is_space_token_def)+
  then have sp: "is_space (hd s)" by (simp add: breaking_def)
  have "\<not> is_space (hd (dropWhile is_space (rstrip_of is_space s)))"
    by (rule hd_dropWhile) (metis assms(2) ne py_strip_def strip_of_def)
  with sp assms(2) show False by (simp add: py_strip_def strip_of_def)
qed

end
