(* ===== verification/Alto_Geometry.thy ===== *)
theory Alto_Geometry
  imports Alto_Text
begin

text \<open>
  \<open>_compute_geometry\<close> of \<open>formats/alto/rewriter.py\<close>: the boxes of the tokens of a rebuilt line.
  Widths follow the weights of the tokens by cumulative rounding; on a degenerate line a floor of
  one unit is enforced and repaid by the widest tokens (\<open>repay\<close>, a loop that ends because every
  turn pays at least one unit).

  Facts: the boxes keep the tokens in order, tile the interval from the start of the line without
  gap or overlap, are at least one unit wide, and their widths sum to the width of the line, or to
  the number of tokens when the line is narrower than that.
\<close>

definition token_weight :: "ptext \<Rightarrow> rat" where
  "token_weight t = (if is_space_token t then of_nat (length t) * (6/10) else of_nat (length t))"

text \<open>Round the running total at each boundary and take successive differences.\<close>

fun cumulative_widths :: "rat \<Rightarrow> rat \<Rightarrow> int \<Rightarrow> rat list \<Rightarrow> int list" where
  "cumulative_widths per_unit cum prev [] = []"
| "cumulative_widths per_unit cum prev (w # ws) =
     (let cum' = cum + w * per_unit; rounded = py_round cum'
      in (rounded - prev) # cumulative_widths per_unit cum' rounded ws)"

text \<open>\<open>max(range(len(widths)), key=...)\<close>: the first index of the largest width.\<close>

definition donor :: "int list \<Rightarrow> nat" where
  "donor ws = length (takeWhile (\<lambda>w. w \<noteq> Max (set ws)) ws)"

function repay :: "int \<Rightarrow> int list \<Rightarrow> int list" where
  "repay deficit ws =
     (if deficit > 0 then
        (let d = donor ws in
         if ws ! d \<le> 1 then ws
         else (let amount = min deficit (ws ! d - 1)
               in repay (deficit - amount) (ws[d := ws ! d - amount])))
      else ws)"
  by pat_completeness auto
termination by (relation "measure (\<lambda>(d, ws). nat d)") (auto simp: Let_def min_def)

declare repay.simps [simp del]

definition floor_widths :: "int list \<Rightarrow> int list" where
  "floor_widths ws =
     (if list_ex (\<lambda>w. w < 1) ws
      then repay (sum_list (map (\<lambda>w. if w < 1 then 1 - w else 0) ws)) (map (max 1) ws)
      else ws)"

fun place_tokens :: "int \<Rightarrow> ptext list \<Rightarrow> int list \<Rightarrow> (ptext \<times> int \<times> int) list" where
  "place_tokens cursor (t # ts) (w # ws) = (t, cursor, w) # place_tokens (cursor + w) ts ws"
| "place_tokens cursor _ _ = []"

definition compute_geometry :: "int \<Rightarrow> int \<Rightarrow> ptext list \<Rightarrow> (ptext \<times> int \<times> int) list" where
  "compute_geometry x line_width tokens =
     (if tokens = [] then []
      else
        (let weights = map token_weight tokens; total_weight = sum_list weights
         in if total_weight = 0
            then (let per = line_width div int (length tokens)
                  in map (\<lambda>(i, t). (t, x + int i * per, per)) (enumerate 0 tokens))
            else place_tokens x tokens
                   (floor_widths (cumulative_widths (of_int line_width / total_weight) 0 0 weights))))"

section \<open>Facts\<close>

lemma length_cumulative [simp]: "length (cumulative_widths q c p ws) = length ws"
  by (induction q c p ws rule: cumulative_widths.induct) (simp_all add: Let_def)

text \<open>The differences telescope.\<close>

lemma sum_cumulative:
  "sum_list (cumulative_widths q c p ws) =
     (if ws = [] then 0 else py_round (c + sum_list ws * q) - p)"
proof (induction q c p ws rule: cumulative_widths.induct)
  case (2 q c p w ws)
  then show ?case by (cases "ws = []") (simp_all add: Let_def algebra_simps)
qed simp

lemma takeWhile_shorter: "x \<in> set xs \<Longrightarrow> \<not> P x \<Longrightarrow> length (takeWhile P xs) < length xs"
  by (induction xs) auto

lemma donor_max:
  assumes "ws \<noteq> []"
  shows "donor ws < length ws" "ws ! donor ws = Max (set ws)" "\<forall>w \<in> set ws. w \<le> ws ! donor ws"
proof -
  have mem: "Max (set ws) \<in> set ws" using assms by (simp add: Max_in)
  then show lt: "donor ws < length ws"
    unfolding donor_def by (rule takeWhile_shorter) simp
  then show eq: "ws ! donor ws = Max (set ws)"
    unfolding donor_def using nth_length_takeWhile by blast
  show "\<forall>w \<in> set ws. w \<le> ws ! donor ws" unfolding eq by simp
qed

lemma sum_list_one: "\<forall>w \<in> set ws. w = (1::int) \<Longrightarrow> sum_list ws = int (length ws)"
  by (induction ws) auto

lemma sum_list_ge_length: "\<forall>w \<in> set ws. (1::int) \<le> w \<Longrightarrow> int (length ws) \<le> sum_list ws"
  by (induction ws) auto

lemma sum_list_update_int:
  "n < length ws \<Longrightarrow> sum_list (ws[n := w]) = sum_list ws + w - (ws ! n :: int)"
  by (induction ws arbitrary: n) (auto split: nat.split)

lemma repay_paid [simp]: "d \<le> 0 \<Longrightarrow> repay d ws = ws"
  by (simp add: repay.simps [of d ws])

text \<open>Repaying keeps the floor and ends with the debt paid, or with every width at the floor.\<close>

lemma repay_spec:
  assumes "ws \<noteq> []" "\<forall>w \<in> set ws. 1 \<le> w" "0 \<le> d"
  shows "length (repay d ws) = length ws \<and> (\<forall>w \<in> set (repay d ws). 1 \<le> w) \<and>
         sum_list (repay d ws) = max (sum_list ws - d) (int (length ws))"
  using assms
proof (induction d ws rule: repay.induct)
  case (1 d ws)
  note big = sum_list_ge_length [OF 1(3)]
  show ?case
  proof (cases "0 < d")
    case False
    with 1 big show ?thesis by simp
  next
    case True
    let ?i = "donor ws"
    note donor = donor_max [OF 1(2)]
    show ?thesis
    proof (cases "ws ! ?i \<le> 1")
      case floor: True
      then have "\<forall>w \<in> set ws. w = 1" using donor(3) 1(3) by force
      from sum_list_one [OF this] True floor 1(3) show ?thesis
        by (simp add: repay.simps [of d ws] Let_def)
    next
      case False
      let ?a = "min d (ws ! ?i - 1)"
      let ?ws = "ws[?i := ws ! ?i - ?a]"
      have step: "repay d ws = repay (d - ?a) ?ws"
        using True False by (simp add: repay.simps [of d ws] Let_def)
      have ge: "\<forall>w \<in> set ?ws. 1 \<le> w"
        using 1(3) set_update_subset_insert [of ws ?i "ws ! ?i - ?a"] by fastforce
      have sum: "sum_list ?ws = sum_list ws - ?a" using donor(1) by (simp add: sum_list_update_int)
      have "?ws \<noteq> []" using 1(2) by simp
      moreover have "0 \<le> d - ?a" by simp
      ultimately show ?thesis
        using 1(1) [OF True refl False refl _ ge] sum by (simp add: step)
    qed
  qed
qed

lemma sum_max_one:
  "sum_list (map (max 1) ws) = sum_list ws + sum_list (map (\<lambda>w. if w < 1 then 1 - w else (0::int)) ws)"
  by (induction ws) auto

lemma deficit_nonneg: "0 \<le> sum_list (map (\<lambda>w. if w < 1 then 1 - w else (0::int)) ws)"
  by (induction ws) auto

lemma floor_widths_spec:
  assumes "ws \<noteq> []"
  shows "length (floor_widths ws) = length ws \<and> (\<forall>w \<in> set (floor_widths ws). 1 \<le> w) \<and>
         sum_list (floor_widths ws) = max (sum_list ws) (int (length ws))"
proof (cases "list_ex (\<lambda>w. w < 1) ws")
  case True
  let ?d = "sum_list (map (\<lambda>w. if w < 1 then 1 - w else (0::int)) ws)"
  from repay_spec [of "map (max 1) ws" ?d] assms deficit_nonneg [of ws]
  show ?thesis using True by (simp add: floor_widths_def sum_max_one)
next
  case False
  then have ge: "\<forall>w \<in> set ws. 1 \<le> w" by (auto simp: list_ex_iff)
  from sum_list_ge_length [OF this] ge False show ?thesis by (simp add: floor_widths_def)
qed

text \<open>The boxes of a list of widths laid end to end.\<close>

fun tiles :: "int \<Rightarrow> (int \<times> int) list \<Rightarrow> int \<Rightarrow> bool" where
  "tiles from_x [] to_x \<longleftrightarrow> from_x = to_x"
| "tiles from_x ((x, w) # boxes) to_x \<longleftrightarrow> x = from_x \<and> 1 \<le> w \<and> tiles (x + w) boxes to_x"

lemma place_tokens_spec:
  "length ws = length ts \<Longrightarrow> \<forall>w \<in> set ws. 1 \<le> w \<Longrightarrow>
   map fst (place_tokens x ts ws) = ts \<and> tiles x (map snd (place_tokens x ts ws)) (x + sum_list ws)"
proof (induction x ts ws rule: place_tokens.induct)
  case (1 x t ts w ws)
  then show ?case by (simp add: add.assoc)
qed auto

lemma token_weight_nonneg: "0 \<le> token_weight t"
  by (simp add: token_weight_def)

lemma token_weight_pos: "t \<noteq> [] \<Longrightarrow> 0 < token_weight t"
  by (cases t) (simp_all add: token_weight_def add_pos_nonneg)

lemma total_weight_pos:
  "ts \<noteq> [] \<Longrightarrow> \<forall>t \<in> set ts. t \<noteq> [] \<Longrightarrow> 0 < sum_list (map token_weight ts)"
proof (induction ts)
  case (Cons t ts)
  have "0 \<le> sum_list (map token_weight ts)"
    by (induction ts) (simp_all add: token_weight_nonneg)
  with Cons.prems token_weight_pos [of t] show ?case by simp
qed simp

lemma py_round_of_int [simp]: "py_round (of_int k) = k"
  by (simp add: py_round_def)

lemma geometry_tiles:
  assumes "ts \<noteq> []" "\<forall>t \<in> set ts. t \<noteq> []"
  shows "map fst (compute_geometry x w ts) = ts \<and>
         tiles x (map snd (compute_geometry x w ts)) (x + max w (int (length ts)))"
proof -
  let ?tot = "sum_list (map token_weight ts)"
  let ?ws = "cumulative_widths (of_int w / ?tot) 0 0 (map token_weight ts)"
  have pos: "0 < ?tot" using assms by (rule total_weight_pos)
  then have geo: "compute_geometry x w ts = place_tokens x ts (floor_widths ?ws)"
    using assms(1) by (simp add: compute_geometry_def Let_def)
  have sum: "sum_list ?ws = w" using pos assms(1) by (simp add: sum_cumulative)
  have "?ws \<noteq> []" using assms(1) by (simp flip: length_greater_0_conv)
  from floor_widths_spec [OF this] sum
  have "length (floor_widths ?ws) = length ts" "\<forall>v \<in> set (floor_widths ?ws). 1 \<le> v"
    "sum_list (floor_widths ?ws) = max w (int (length ts))" by simp_all
  then show ?thesis unfolding geo using place_tokens_spec by metis
qed

text \<open>Consecutive boxes of a tiling do not overlap.\<close>

lemma tiles_bounds: "tiles x boxes y \<Longrightarrow> (a, w) \<in> set boxes \<Longrightarrow> x \<le> a \<and> a + w \<le> y"
proof (induction x boxes y rule: tiles.induct)
  case (2 x b v boxes y)
  have "x + v \<le> y"
    using 2(2) by (induction "x + v" boxes y arbitrary: x v b rule: tiles.induct) force+
  with 2 show ?case by force
qed simp

end
