(* ===== verification/Parsing.thy ===== *)
theory Parsing
  imports Pairing Xml_Tree
begin

text \<open>
  What the two format parsers share: the classification of errors (\<open>formats/_xml.py\<close>), the links from a
  line to its neighbours, and what they establish of the manifests: lines that come from the elements of
  the tree, are numbered consecutively, know their neighbours and are filed under their page.
\<close>

section \<open>Definitions\<close>

definition classify :: "exn + 'a \<Rightarrow> exn + 'a" where
  "classify r =
     (case r of Inl e \<Rightarrow>
        if is_saknussemm_error (exn_class e) then Inl e
        else if is_value_error (exn_class e) then Inl (Exn C_ParseError (exn_msg e)) else Inl e
      | Inr v \<Rightarrow> Inr v)"

text \<open>The loops over the lines of a block, the blocks of a page and the pages of a file, for a format's reader
  of a line, of a box and of a page. A block without an identifier is named after its page and rank.\<close>

fun read_lines ::
  "(int \<Rightarrow> nat \<Rightarrow> xml \<Rightarrow> exn + line_manifest) \<Rightarrow> int \<Rightarrow> nat \<Rightarrow> xml list \<Rightarrow> exn + line_manifest list" where
  "read_lines read g n [] = Inr []"
| "read_lines read g n (t # ts) =
     res_bind (read g n t) (\<lambda>lm. res_bind (read_lines read (g + 1) (n + 1) ts) (\<lambda>lms. Inr (lm # lms)))"

fun read_blocks ::
  "(nat \<Rightarrow> xml \<Rightarrow> ident) \<Rightarrow> (xml \<Rightarrow> exn + coords) \<Rightarrow> (ident \<Rightarrow> int \<Rightarrow> nat \<Rightarrow> xml \<Rightarrow> exn + line_manifest) \<Rightarrow>
   string \<Rightarrow> ident \<Rightarrow> int \<Rightarrow> nat \<Rightarrow> xml list \<Rightarrow> exn + (block_manifest list \<times> line_manifest list)" where
  "read_blocks name box read ns page g order [] = Inr ([], [])"
| "read_blocks name box read ns page g order (b # bs) =
     res_bind (box b) (\<lambda>c.
       res_bind (read_lines (read (name order b)) g 0 (children_tagged ''TextLine'' ns b)) (\<lambda>lms.
         res_bind (read_blocks name box read ns page (g + int (length lms)) (order + 1) bs) (\<lambda>(blocks, lines).
           Inr (\<lparr>blk_id = name order b, blk_page_id = page, blk_order = int order, blk_coords = c,
                 blk_line_ids = map line_id lms\<rparr> # blocks, lms @ lines))))"

fun read_pages ::
  "(nat \<Rightarrow> int \<Rightarrow> xml \<Rightarrow> exn + page_manifest) \<Rightarrow> nat \<Rightarrow> int \<Rightarrow> xml list \<Rightarrow> exn + page_manifest list" where
  "read_pages read index g [] = Inr []"
| "read_pages read index g (p # ps) =
     res_bind (read index g p) (\<lambda>page.
       res_bind (read_pages read (index + 1) (g + int (length (pg_lines page))) ps) (\<lambda>pages. Inr (page # pages)))"

text \<open>The checks of identity at the end of a parse: of the manifests, and of the elements of the whole
  file.\<close>

definition gate_pages :: "string \<Rightarrow> ident option list \<Rightarrow> page_manifest list \<Rightarrow> exn + page_manifest list" where
  "gate_pages kind ids pages =
     and_then (duplicates_as_exn (ensure_unique_identities pages))
       (and_then (duplicates_as_exn (ensure_unique_element_ids kind ids))
         (and_then (ensure_element_ids_present ids) (Inr pages)))"

definition link_neighbours :: "line_manifest list \<Rightarrow> line_manifest list" where
  "link_neighbours lines =
     map (\<lambda>(i, lm).
       lm\<lparr>prev_line_id := (if i > 0 then Some (line_id (lines ! (i - 1))) else prev_line_id lm),
          next_line_id := (if i + 1 < length lines then Some (line_id (lines ! (i + 1))) else next_line_id lm)\<rparr>)
       (enumerate 0 lines)"

text \<open>A file: its name, the tree it holds and the digest of its bytes. The files of a document are read one
  after the other, pages and lines numbered on.\<close>

record source_file =
  sf_name :: ident
  sf_root :: xml
  sf_digest :: ident

fun read_files ::
  "(ident \<Rightarrow> nat \<Rightarrow> int \<Rightarrow> xml \<Rightarrow> exn + page_manifest list) \<Rightarrow> nat \<Rightarrow> int \<Rightarrow> source_file list \<Rightarrow>
   exn + (ident \<times> page_manifest list) list" where
  "read_files parse page_offset line_offset [] = Inr []"
| "read_files parse page_offset line_offset (f # fs) =
     res_bind (parse (sf_name f) page_offset line_offset (sf_root f)) (\<lambda>pages.
       res_bind (read_files parse (page_offset + length pages)
                   (line_offset + int (sum_list (map (\<lambda>p. length (pg_lines p)) pages))) fs) (\<lambda>rest.
         Inr ((sf_name f, pages) # rest)))"

text \<open>The identifier of a document is generated by the schema, and a parameter here.\<close>

definition assemble_document ::
  "ident \<Rightarrow> pairing_policy \<Rightarrow> string \<Rightarrow> source_file list \<Rightarrow> (ident \<times> page_manifest list) list \<Rightarrow>
   document_manifest" where
  "assemble_document did pol fmt files parsed =
     (let all_pages = concat (map snd (disambiguate_page_ids parsed))
      in \<lparr>doc_id = did, doc_source_files = map sf_name files,
          doc_pages = link_cross_page_hyphens pol all_pages, doc_source_format = Some fmt,
          doc_source_encodings = [],
          doc_source_digests = foldl (\<lambda>d f. dict_set (sf_name f) (sf_digest f) d) [] files\<rparr>)"

section \<open>Where a parsed line comes from\<close>

text \<open>A line and the element it was read from, for the attribute that identifies a line and the reader of
  its text.\<close>

definition origin :: "(xml \<Rightarrow> ident option) \<Rightarrow> (xml \<Rightarrow> ptext) \<Rightarrow> xml \<Rightarrow> line_manifest \<Rightarrow> bool" where
  "origin key text_at t lm \<longleftrightarrow>
     (key t \<noteq> None \<longrightarrow> line_id lm = the (key t)) \<and> ocr_text lm = text_at t \<and>
     corrected_text lm = None \<and> status lm = PENDING"

lemma strip_nth:
  assumes "map strip_links xs = map strip_links ys"
  shows "length xs = length ys" "i < length ys \<Longrightarrow> strip_links (xs ! i) = strip_links (ys ! i)"
proof -
  show len: "length xs = length ys" using arg_cong [OF assms, of length] by simp
  assume i: "i < length ys"
  from arg_cong [OF assms, of "\<lambda>zs. zs ! i"] i len show "strip_links (xs ! i) = strip_links (ys ! i)" by simp
qed

lemma strip_map:
  assumes "map strip_links xs = map strip_links ys" "\<And>a b. strip_links a = strip_links b \<Longrightarrow> f a = f b"
  shows "map f xs = map f ys"
proof (rule nth_equalityI)
  fix i assume "i < length (map f xs)"
  then have i: "i < length xs" "i < length ys" using strip_nth(1) [OF assms(1)] by simp_all
  from assms(2) [OF strip_nth(2) [OF assms(1) i(2)]] i show "map f xs ! i = map f ys ! i" by (simp only: nth_map)
qed (simp add: strip_nth(1) [OF assms(1)])

text \<open>The linking passes do not touch what a line is.\<close>

lemma origin_strip: "strip_links a = strip_links b \<Longrightarrow> origin key text_at t a = origin key text_at t b"
  by (auto simp: origin_def dest: strip_links_fields)

lemma strip_neighbour_fields:
  assumes "strip_links a = strip_links b"
  shows "prev_line_id a = prev_line_id b" "next_line_id a = next_line_id b"
  using assms by (cases a; cases b; simp add: strip_links_def)+

section \<open>Numbers and neighbours\<close>

definition numbered :: "int \<Rightarrow> line_manifest list \<Rightarrow> bool" where
  "numbered g lms \<longleftrightarrow> (\<forall>i < length lms. line_order_global (lms ! i) = g + int i)"

lemma numbered_simps [simp]:
  "numbered g []"
  "numbered g (lm # lms) \<longleftrightarrow> line_order_global lm = g \<and> numbered (g + 1) lms"
  by (auto simp: numbered_def nth_Cons algebra_simps less_Suc_eq_0_disj split: nat.splits)

lemma numbered_append: "numbered g (xs @ ys) \<longleftrightarrow> numbered g xs \<and> numbered (g + int (length xs)) ys"
  by (induction xs arbitrary: g) (auto simp: algebra_simps)

lemma numbered_strip:
  assumes "map strip_links xs = map strip_links ys" shows "numbered g xs = numbered g ys"
proof -
  have "map line_order_global xs = map line_order_global ys"
    by (rule strip_map [OF assms]) (rule strip_links_fields)
  then show ?thesis unfolding numbered_def by (metis length_map nth_map)
qed

lemma link_neighbours_length [simp]: "length (link_neighbours lms) = length lms"
  by (simp add: link_neighbours_def)

lemma link_neighbours_nth:
  assumes "i < length lms"
  shows "link_neighbours lms ! i =
    (lms ! i)\<lparr>prev_line_id := (if i > 0 then Some (line_id (lms ! (i - 1))) else prev_line_id (lms ! i)),
       next_line_id := (if i + 1 < length lms then Some (line_id (lms ! (i + 1))) else next_line_id (lms ! i))\<rparr>"
  using assms by (simp only: link_neighbours_def nth_map length_enumerate nth_enumerate_eq prod.case add_0)

lemma link_neighbours_fields:
  "map line_id (link_neighbours lms) = map line_id lms"
  "numbered g (link_neighbours lms) = numbered g lms"
  "list_all2 (origin key text_at) ts (link_neighbours lms) = list_all2 (origin key text_at) ts lms"
  "(\<forall>lm \<in> set (link_neighbours lms). page_id lm = page) = (\<forall>lm \<in> set lms. page_id lm = page)"
proof -
  show "map line_id (link_neighbours lms) = map line_id lms"
    by (rule nth_equalityI) (simp_all add: link_neighbours_nth)
  show "numbered g (link_neighbours lms) = numbered g lms"
    by (simp add: numbered_def link_neighbours_nth)
  have "origin key text_at t (link_neighbours lms ! i) = origin key text_at t (lms ! i)" if "i < length lms" for t i
    using that by (simp add: link_neighbours_nth origin_def)
  then show "list_all2 (origin key text_at) ts (link_neighbours lms) = list_all2 (origin key text_at) ts lms"
    by (auto simp: list_all2_conv_all_nth)
  show "(\<forall>lm \<in> set (link_neighbours lms). page_id lm = page) = (\<forall>lm \<in> set lms. page_id lm = page)"
    by (simp add: all_set_conv_all_nth link_neighbours_nth)
qed

lemma list_all2_origin_strip:
  assumes "map strip_links xs = map strip_links ys"
  shows "list_all2 (origin key text_at) ts xs = list_all2 (origin key text_at) ts ys"
  using origin_strip [OF strip_nth(2) [OF assms]] strip_nth(1) [OF assms]
  by (auto simp: list_all2_conv_all_nth)

text \<open>Lines that know the line before and the line after them.\<close>

definition neighboured :: "line_manifest list \<Rightarrow> bool" where
  "neighboured lms \<longleftrightarrow>
     (\<forall>i < length lms.
        prev_line_id (lms ! i) = (if i = 0 then None else Some (line_id (lms ! (i - 1)))) \<and>
        next_line_id (lms ! i) = (if i + 1 = length lms then None else Some (line_id (lms ! (i + 1)))))"

lemma link_neighbours_neighboured:
  assumes "\<forall>lm \<in> set lms. prev_line_id lm = None \<and> next_line_id lm = None"
  shows "neighboured (link_neighbours lms)"
proof -
  have none: "prev_line_id (lms ! i) = None" "next_line_id (lms ! i) = None" if "i < length lms" for i
    using assms that by simp_all
  have "prev_line_id (lms ! 0) = None" if "Suc 0 = length lms" using none(1) [of 0] that by linarith
  then show ?thesis unfolding neighboured_def by (auto simp: link_neighbours_nth none)
qed

lemma neighboured_strip:
  assumes "map strip_links xs = map strip_links ys" "neighboured ys" shows "neighboured xs"
proof -
  note len = strip_nth(1) [OF assms(1)] and same = strip_nth(2) [OF assms(1)]
  have same_id: "line_id (xs ! i) = line_id (ys ! i)" if "i < length ys" for i
    using strip_links_fields(1) [OF same [OF that]] .
  show ?thesis
    unfolding neighboured_def len
  proof (intro allI impI)
    fix i assume i: "i < length ys"
    have "i - 1 < length ys" "i + 1 \<noteq> length ys \<Longrightarrow> i + 1 < length ys" using i by simp_all
    with assms(2) i same_id strip_neighbour_fields [OF same [OF i]]
    show "prev_line_id (xs ! i) = (if i = 0 then None else Some (line_id (xs ! (i - 1)))) \<and>
        next_line_id (xs ! i) = (if i + 1 = length ys then None else Some (line_id (xs ! (i + 1))))"
      by (auto simp: neighboured_def)
  qed
qed

text \<open>A page as the parser leaves it.\<close>

definition fresh_page :: "page_manifest \<Rightarrow> bool" where
  "fresh_page p \<longleftrightarrow>
     (\<forall>lm \<in> set (pg_lines p). page_id lm = pg_id p \<and> status lm = PENDING \<and> corrected_text lm = None) \<and>
     neighboured (pg_lines p) \<and>
     concat (map blk_line_ids (pg_blocks p)) = map line_id (pg_lines p) \<and>
     map blk_order (pg_blocks p) = map int [0 ..< length (pg_blocks p)] \<and>
     (\<forall>b \<in> set (pg_blocks p). blk_page_id b = pg_id p)"

lemma strip_map_ids: "map strip_links xs = map strip_links ys \<Longrightarrow> map line_id xs = map line_id ys"
  by (rule strip_map) (auto dest: strip_links_fields)

lemma strip_map_pages:
  assumes "map strip_links xs = map strip_links ys"
  shows "(\<forall>lm \<in> set xs. page_id lm = p) = (\<forall>lm \<in> set ys. page_id lm = p)"
proof -
  have "map page_id xs = map page_id ys" by (rule strip_map [OF assms]) (rule strip_links_fields)
  then have "page_id ` set xs = page_id ` set ys" by (metis set_map)
  then show ?thesis by (simp add: set_eq_iff image_iff) metis
qed

definition lines_of :: "page_manifest list \<Rightarrow> line_manifest list" where
  "lines_of pages = concat (map pg_lines pages)"

lemma list_all2_member: "list_all2 P xs ys \<Longrightarrow> y \<in> set ys \<Longrightarrow> \<exists>x \<in> set xs. P x y"
  by (induction rule: list_all2_induct) auto

section \<open>Gates\<close>

lemma classify_Inr [simp]: "classify r = Inr v \<longleftrightarrow> r = Inr v"
  by (cases r) (auto simp: classify_def)

lemma element_ids_present: "ensure_element_ids_present ids = Inr () \<longleftrightarrow> (\<forall>i \<in> set ids. truthy i)"
  by (auto simp: ensure_element_ids_present_def filter_empty_conv)

lemma element_ids_unique:
  "ensure_unique_element_ids k ids = Inr () \<longleftrightarrow> distinct (map the (filter truthy ids))"
  by (simp add: ensure_unique_element_ids_def raise_if_duplicates_Inr format_duplicates_None)

lemma gate_pages_Inr:
  "gate_pages kind ids pages = Inr pages' \<longleftrightarrow>
     pages' = pages \<and> ensure_unique_identities pages = Inr () \<and> distinct ids \<and> (\<forall>i \<in> set ids. truthy i)"
proof -
  have same: "distinct (map the (filter truthy ids)) = distinct ids" if all: "\<forall>i \<in> set ids. truthy i"
  proof -
    have "x = y" if xy: "x \<in> set ids" "y \<in> set ids" "the x = the y" for x y
    proof -
      obtain a b where "x = Some a" "y = Some b" using xy(1,2) all unfolding truthy_iff by metis
      with xy(3) show ?thesis by simp
    qed
    then have "inj_on the (set ids)" by (rule inj_onI)
    moreover have "filter truthy ids = ids" using all by (simp only: filter_id_conv)
    ultimately show ?thesis by (simp only: distinct_map simp_thms)
  qed
  show ?thesis
    unfolding gate_pages_def and_then_Inr duplicates_Inr element_ids_present element_ids_unique sum.inject
    using same by (metis (full_types))
qed

section \<open>The contract of a reader of lines\<close>

definition line_elements :: "string \<Rightarrow> xml list \<Rightarrow> xml list" where
  "line_elements ns bs = concat (map (children_tagged ''TextLine'' ns) bs)"

lemma count_up: "map (\<lambda>i. int (n + i)) [0 ..< Suc k] = int n # map (\<lambda>i. int (n + 1 + i)) [0 ..< k]"
  by (simp add: upt_conv_Cons map_Suc_upt [symmetric] comp_def del: upt_Suc)

text \<open>A line read from an element is that element's, undecided, unlinked and filed where it is read.\<close>

locale line_reader =
  fixes key :: "xml \<Rightarrow> ident option" and text_at :: "xml \<Rightarrow> ptext"
    and read :: "ident \<Rightarrow> ident \<Rightarrow> int \<Rightarrow> nat \<Rightarrow> xml \<Rightarrow> exn + line_manifest"
  assumes read_line: "read page block g n t = Inr lm \<Longrightarrow>
    origin key text_at t lm \<and> page_id lm = page \<and> line_order_global lm = g \<and>
    prev_line_id lm = None \<and> next_line_id lm = None"
begin

lemma read_lines_spec:
  "read_lines (read page block) g n ts = Inr lms \<Longrightarrow>
   list_all2 (origin key text_at) ts lms \<and> numbered g lms \<and> (\<forall>lm \<in> set lms. page_id lm = page) \<and>
   (\<forall>lm \<in> set lms. prev_line_id lm = None \<and> next_line_id lm = None)"
proof (induction ts arbitrary: g n lms)
  case (Cons t ts)
  then obtain lm rest where p: "read page block g n t = Inr lm"
    "read_lines (read page block) (g + 1) (n + 1) ts = Inr rest" "lms = lm # rest"
    by (auto simp: res_bind_Inr)
  with Cons.IH [OF p(2)] read_line [OF p(1)] show ?case by simp
qed simp

lemma read_blocks_spec:
  "read_blocks name box (read page) ns page g n bs = Inr (blocks, lms) \<Longrightarrow>
   list_all2 (origin key text_at) (line_elements ns bs) lms \<and> numbered g lms \<and>
   (\<forall>lm \<in> set lms. page_id lm = page) \<and>
   (\<forall>lm \<in> set lms. prev_line_id lm = None \<and> next_line_id lm = None) \<and>
   concat (map blk_line_ids blocks) = map line_id lms \<and>
   map blk_order blocks = map (\<lambda>i. int (n + i)) [0 ..< length bs] \<and> (\<forall>b \<in> set blocks. blk_page_id b = page)"
proof (induction bs arbitrary: g n blocks lms)
  case Nil
  then show ?case by (simp add: line_elements_def)
next
  case (Cons b bs)
  from Cons.prems obtain c xs blocks' lms' where
    p: "read_lines (read page (name n b)) g 0 (children_tagged ''TextLine'' ns b) = Inr xs"
       "read_blocks name box (read page) ns page (g + int (length xs)) (n + 1) bs = Inr (blocks', lms')"
       "lms = xs @ lms'" "blocks = \<lparr>blk_id = name n b, blk_page_id = page,
          blk_order = int n, blk_coords = c, blk_line_ids = map line_id xs\<rparr> # blocks'"
    by (auto simp: res_bind_Inr split: prod.splits)
  note block = read_lines_spec [OF p(1)] and rest = Cons.IH [OF p(2)]
  have "\<forall>lm \<in> set lms. page_id lm = page" using block rest unfolding p(3) by auto
  moreover have "\<forall>lm \<in> set lms. prev_line_id lm = None \<and> next_line_id lm = None"
    using block rest unfolding p(3) by auto
  ultimately show ?case using block rest count_up [of n "length bs"]
    by (simp add: p(3,4) line_elements_def list_all2_appendI numbered_append del: upt_Suc)
qed

end

section \<open>The contract of a reader of pages\<close>

definition textlines :: "xml \<Rightarrow> xml list" where
  "textlines el = iter_tagged ''TextLine'' (detect_namespace el) el"

text \<open>What reading a file establishes, for the elements \<open>es\<close> of its lines.\<close>

definition read_from ::
  "(xml \<Rightarrow> ident option) \<Rightarrow> (xml \<Rightarrow> ptext) \<Rightarrow> ident \<Rightarrow> nat \<Rightarrow> int \<Rightarrow> xml list \<Rightarrow> page_manifest list \<Rightarrow> bool" where
  "read_from key text_at source po lo es pages \<longleftrightarrow>
     ensure_unique_identities pages = Inr () \<and>
     (pages \<noteq> [] \<longrightarrow> distinct (map key es) \<and> None \<notin> key ` set es) \<and>
     (\<exists>ts. set ts \<subseteq> set es \<and> list_all2 (origin key text_at) ts (lines_of pages)) \<and>
     (\<forall>p \<in> set pages. fresh_page p \<and> pg_source_file p = source) \<and>
     numbered lo (lines_of pages) \<and> map pg_index pages = map (\<lambda>i. int (po + i)) [0 ..< length pages]"

text \<open>A page is read from its blocks, in the order the reader finds, with the links to neighbours and
  hyphen partners set afterwards.\<close>

locale page_reader = line_reader +
  fixes ns :: string and source :: ident and blocks_of :: "xml \<Rightarrow> xml list"
    and name :: "ident \<Rightarrow> nat \<Rightarrow> xml \<Rightarrow> ident" and box :: "xml \<Rightarrow> exn + coords"
    and read_page :: "nat \<Rightarrow> int \<Rightarrow> xml \<Rightarrow> exn + page_manifest"
  assumes read_page: "read_page index g el = Inr p \<Longrightarrow>
      \<exists>lms. read_blocks (name (pg_id p)) box (read (pg_id p)) ns (pg_id p) g 0 (blocks_of el) = Inr (pg_blocks p, lms) \<and>
        map strip_links (pg_lines p) = map strip_links (link_neighbours lms) \<and>
        pg_index p = int index \<and> pg_source_file p = source"
    and blocks_below: "b \<in> set (blocks_of el) \<Longrightarrow>
      set (iter_tagged ''TextLine'' ns b) \<subseteq> set (iter_tagged ''TextLine'' ns el)"
begin

lemma read_page_spec:
  assumes "read_page index g el = Inr p"
  shows "list_all2 (origin key text_at) (line_elements ns (blocks_of el)) (pg_lines p) \<and>
    fresh_page p \<and> numbered g (pg_lines p) \<and> pg_index p = int index \<and> pg_source_file p = source"
proof -
  from read_page [OF assms] obtain lms where
    b: "read_blocks (name (pg_id p)) box (read (pg_id p)) ns (pg_id p) g 0 (blocks_of el) = Inr (pg_blocks p, lms)"
    and frame: "map strip_links (pg_lines p) = map strip_links (link_neighbours lms)"
    and rest: "pg_index p = int index" "pg_source_file p = source" by blast
  note spec = read_blocks_spec [OF b]
  have orig: "list_all2 (origin key text_at) (line_elements ns (blocks_of el)) (pg_lines p)"
    using spec list_all2_origin_strip [OF frame] by (simp add: link_neighbours_fields)
  have num: "numbered g (pg_lines p)" using spec numbered_strip [OF frame] by (simp add: link_neighbours_fields)
  have "neighboured (pg_lines p)"
    using spec neighboured_strip [OF frame link_neighbours_neighboured] by simp
  moreover have "\<forall>lm \<in> set (pg_lines p). page_id lm = pg_id p"
    using spec strip_map_pages [OF frame] by (simp add: link_neighbours_fields)
  moreover have "\<forall>lm \<in> set (pg_lines p). status lm = PENDING \<and> corrected_text lm = None"
    using orig by (auto simp: list_all2_conv_all_nth in_set_conv_nth origin_def)
  moreover have "map line_id (pg_lines p) = map line_id lms"
    using strip_map_ids [OF frame] by (simp add: link_neighbours_fields)
  moreover have "length (pg_blocks p) = length (blocks_of el)"
    using spec by (metis length_map length_upt minus_nat.diff_0)
  ultimately have "fresh_page p" using spec unfolding fresh_page_def by simp
  with orig num rest show ?thesis by simp
qed

lemma read_pages_spec:
  "read_pages read_page index g ps = Inr pages \<Longrightarrow>
   list_all2 (origin key text_at) (concat (map (\<lambda>p. line_elements ns (blocks_of p)) ps)) (lines_of pages) \<and>
   (\<forall>p \<in> set pages. fresh_page p \<and> pg_source_file p = source) \<and> numbered g (lines_of pages) \<and>
   map pg_index pages = map (\<lambda>i. int (index + i)) [0 ..< length pages]"
proof (induction ps arbitrary: index g pages)
  case (Cons p ps)
  then obtain page rest where p: "read_page index g p = Inr page"
    "read_pages read_page (index + 1) (g + int (length (pg_lines page))) ps = Inr rest" "pages = page # rest"
    by (auto simp: res_bind_Inr)
  note one = read_page_spec [OF p(1)] and others = Cons.IH [OF p(2)]
  with count_up [of index "length rest"] show ?case
    by (simp add: p(3) lines_of_def list_all2_appendI numbered_append del: upt_Suc)
qed (simp add: lines_of_def)

lemma line_elements_below:
  assumes "t \<in> set (line_elements ns (blocks_of p))" shows "t \<in> set (iter_tagged ''TextLine'' ns p)"
proof -
  from assms obtain b where b: "b \<in> set (blocks_of p)" "t \<in> set (el_children b)" "has_tag ''TextLine'' ns t"
    by (auto simp: line_elements_def children_tagged_def)
  from b(3) have "t \<in> set (iter_tagged ''TextLine'' ns t)" by (subst iter_children) simp
  then show ?thesis using iter_child [OF b(2)] blocks_below [OF b(1)] by blast
qed

lemma gated_file:
  assumes "read_pages read_page po lo ps = Inr pages" "gate_pages kind (map key es) pages = Inr pages'"
    and "\<And>p. p \<in> set ps \<Longrightarrow> set (iter_tagged ''TextLine'' ns p) \<subseteq> set es"
  shows "read_from key text_at source po lo es pages'"
proof -
  from assms(2) have g: "pages' = pages" "ensure_unique_identities pages = Inr ()"
    "distinct (map key es)" "\<forall>i \<in> set (map key es). truthy i"
    by (simp_all add: gate_pages_Inr)
  have "None \<notin> key ` set es" using g(4) by auto
  moreover have "set (concat (map (\<lambda>p. line_elements ns (blocks_of p)) ps)) \<subseteq> set es"
    using line_elements_below assms(3) by fastforce
  ultimately show ?thesis using read_pages_spec [OF assms(1)] g(1-3) unfolding read_from_def by blast
qed

end

section \<open>What a file that was read guarantees\<close>

lemma line_in_file:
  assumes "read_from key text_at source po lo es pages" "lm \<in> set (lines_of pages)"
  shows "\<exists>t \<in> set es. key t = Some (line_id lm) \<and> origin key text_at t lm"
proof -
  have "pages \<noteq> []" using assms(2) by (auto simp: lines_of_def)
  then have ids: "None \<notin> key ` set es" using assms(1) by (simp add: read_from_def)
  from assms(1) obtain ts where ts: "set ts \<subseteq> set es" "list_all2 (origin key text_at) ts (lines_of pages)"
    by (auto simp: read_from_def)
  from list_all2_member [OF ts(2) assms(2)] obtain s where s: "s \<in> set ts" "origin key text_at s lm" by blast
  then have mem: "s \<in> set es" using ts(1) by blast
  then have "key s \<noteq> None" using ids by (metis image_eqI)
  then have "key s = Some (line_id lm)" using s(2) by (auto simp: origin_def)
  with mem s(2) show ?thesis by blast
qed

lemma lines_distinct:
  "read_from key text_at source po lo es pages \<Longrightarrow> distinct (map line_id (lines_of pages))"
  using unique_identities_iff [of pages] by (simp add: read_from_def lines_of_def map_concat comp_def)

text \<open>Every element of the file that the pages address is the one its line was read from.\<close>

lemma addressed_origin:
  assumes "read_from key text_at source po lo es pages"
    and "t \<in> set es" "key t = Some l" "map_of (dict_of line_id (lines_of pages)) l = Some lm"
  shows "origin key text_at t lm \<and> lm \<in> set (lines_of pages)"
proof -
  from map_of_dict_of_Some [OF assms(4)] have lm: "lm \<in> set (lines_of pages)" "line_id lm = l" by auto
  then have "pages \<noteq> []" by (auto simp: lines_of_def)
  then have ids: "distinct (map key es)" using assms(1) by (simp add: read_from_def)
  from line_in_file [OF assms(1) lm(1)] lm(2) obtain s where
    s: "s \<in> set es" "key s = Some l" "origin key text_at s lm" by blast
  then have "s = t" using ids assms(2,3) by (auto simp: distinct_map inj_on_def)
  with s(3) lm(1) show ?thesis by simp
qed

text \<open>The document a format's parser accepts.\<close>

definition well_formed_document ::
  "(xml \<Rightarrow> ident option) \<Rightarrow> (xml \<Rightarrow> ptext) \<Rightarrow> ident \<Rightarrow> nat \<Rightarrow> int \<Rightarrow> xml list \<Rightarrow> page_manifest list \<Rightarrow> bool" where
  "well_formed_document key text_at source po lo es pages \<longleftrightarrow>
     (\<forall>p \<in> set pages. fresh_page p \<and> pg_source_file p = source \<and> distinct (map blk_id (pg_blocks p))) \<and>
     numbered lo (lines_of pages) \<and> map pg_index pages = map (\<lambda>i. int (po + i)) [0 ..< length pages] \<and>
     distinct (map pg_id pages) \<and> distinct (map line_id (lines_of pages)) \<and>
     (\<forall>lm \<in> set (lines_of pages). \<exists>t \<in> set es. key t = Some (line_id lm) \<and> ocr_text lm = text_at t)"

lemma read_from_well_formed:
  assumes "read_from key text_at source po lo es pages"
  shows "well_formed_document key text_at source po lo es pages"
proof -
  have "distinct (map pg_id pages) \<and> (\<forall>p \<in> set pages. distinct (map blk_id (pg_blocks p)))"
    using assms unique_identities_iff [of pages] by (simp add: read_from_def list_all_iff)
  moreover have "\<forall>lm \<in> set (lines_of pages). \<exists>t \<in> set es. key t = Some (line_id lm) \<and> ocr_text lm = text_at t"
    using line_in_file [OF assms] by (fastforce simp: origin_def)
  ultimately show ?thesis
    using assms lines_distinct [OF assms] unfolding well_formed_document_def read_from_def by blast
qed

section \<open>A document of several files\<close>

text \<open>What a page keeps when it is renamed and linked to the pages around it.\<close>

definition filed_page :: "page_manifest \<Rightarrow> bool" where
  "filed_page p \<longleftrightarrow>
     (\<forall>lm \<in> set (pg_lines p). page_id lm = pg_id p \<and> status lm = PENDING \<and> corrected_text lm = None) \<and>
     distinct (map blk_id (pg_blocks p)) \<and> concat (map blk_line_ids (pg_blocks p)) = map line_id (pg_lines p)"

lemma read_from_filed: "read_from key text_at source po lo es pages \<Longrightarrow> p \<in> set pages \<Longrightarrow> filed_page p"
  using read_from_well_formed [of key text_at source po lo es pages]
  by (auto simp: well_formed_document_def filed_page_def fresh_page_def)

lemma rename_line_fields [simp]:
  "line_id (rename_line old new lm) = line_id lm" "page_id (rename_line old new lm) = new"
  "status (rename_line old new lm) = status lm" "corrected_text (rename_line old new lm) = corrected_text lm"
  by (simp_all add: rename_line_def)

lemma filed_rename: "filed_page p \<Longrightarrow> filed_page (rename_page new p)"
  by (auto simp: filed_page_def rename_page_def comp_def)

lemma filed_strip:
  assumes "strip_page p = strip_page q" "filed_page q" shows "filed_page p"
proof -
  have lines: "map strip_links (pg_lines p) = map strip_links (pg_lines q)" by (rule strip_page_lines [OF assms(1)])
  have rest: "pg_id p = pg_id q" "pg_blocks p = pg_blocks q"
    using assms(1) by (cases p; cases q; simp add: strip_page_def)+
  have kept: "map f (pg_lines p) = map f (pg_lines q)"
    if "\<And>a b. strip_links a = strip_links b \<Longrightarrow> f a = f b" for f :: "line_manifest \<Rightarrow> 'a"
    by (rule strip_map [OF lines that])
  have "map (\<lambda>lm. (page_id lm, status lm, corrected_text lm)) (pg_lines p) =
      map (\<lambda>lm. (page_id lm, status lm, corrected_text lm)) (pg_lines q)"
    by (rule kept) (auto dest: strip_links_fields)
  from arg_cong [OF this, of set] have same: "(\<lambda>lm. (page_id lm, status lm, corrected_text lm)) ` set (pg_lines p) =
      (\<lambda>lm. (page_id lm, status lm, corrected_text lm)) ` set (pg_lines q)" by simp
  have "page_id lm = pg_id p \<and> status lm = PENDING \<and> corrected_text lm = None" if lm: "lm \<in> set (pg_lines p)" for lm
  proof -
    have "(page_id lm, status lm, corrected_text lm) \<in> (\<lambda>lm. (page_id lm, status lm, corrected_text lm)) ` set (pg_lines q)"
      using lm by (simp flip: same)
    then show ?thesis using assms(2) by (auto simp: filed_page_def rest)
  qed
  moreover have "map line_id (pg_lines p) = map line_id (pg_lines q)" by (rule strip_map_ids [OF lines])
  ultimately show ?thesis using assms(2) by (simp add: filed_page_def rest)
qed

lemma read_files_pages:
  "read_files parse po lo files = Inr parsed \<Longrightarrow>
   (\<And>source po lo el pages p. parse source po lo el = Inr pages \<Longrightarrow> p \<in> set pages \<Longrightarrow> filed_page p) \<Longrightarrow>
   ps \<in> snd ` set parsed \<Longrightarrow> p \<in> set ps \<Longrightarrow> filed_page p"
proof (induction files arbitrary: po lo parsed)
  case (Cons f files)
  then obtain pages rest where p: "parse (sf_name f) po lo (sf_root f) = Inr pages"
    "read_files parse (po + length pages) (lo + int (sum_list (map (\<lambda>p. length (pg_lines p)) pages))) files = Inr rest"
    "parsed = (sf_name f, pages) # rest"
    by (auto simp: res_bind_Inr)
  show ?case
  proof (cases "ps = pages")
    case True
    with Cons.prems(2) [OF p(1)] Cons.prems(4) show ?thesis by blast
  next
    case False
    then have "ps \<in> snd ` set rest" using Cons.prems(3) by (auto simp: p(3))
    with Cons.IH [OF p(2)] Cons.prems(2,4) show ?thesis by blast
  qed
qed simp

lemma disambiguated_filed:
  assumes "\<And>ps p. ps \<in> snd ` set parsed \<Longrightarrow> p \<in> set ps \<Longrightarrow> filed_page p"
    and "p \<in> set (concat (map snd (disambiguate_page_ids parsed)))"
  shows "filed_page p"
proof -
  obtain ps q new where "ps \<in> snd ` set parsed" "q \<in> set ps" "p = q \<or> p = rename_page new q"
    using assms(2) by (fastforce simp: disambiguate_page_ids_def Let_def split: if_splits)
  with assms(1) filed_rename show ?thesis by blast
qed

lemma assembled_filed:
  assumes "\<And>ps p. ps \<in> snd ` set parsed \<Longrightarrow> p \<in> set ps \<Longrightarrow> filed_page p"
    and "p \<in> set (doc_pages (assemble_document did pol fmt files parsed))"
  shows "filed_page p"
proof -
  let ?all = "concat (map snd (disambiguate_page_ids parsed))"
  have "strip_page p \<in> strip_page ` set (link_cross_page_hyphens pol ?all)"
    using assms(2) by (simp add: assemble_document_def)
  also have "\<dots> = strip_page ` set ?all"
    using arg_cong [OF link_cross_page_frame [of pol ?all], of set] by simp
  finally obtain q where q: "q \<in> set ?all" "strip_page p = strip_page q" by blast
  show ?thesis by (rule filed_strip [OF q(2)]) (rule disambiguated_filed [OF assms(1) q(1)])
qed

end
