(* ===== verification/Rewriting.thy ===== *)
theory Rewriting
  imports Parsing
begin

text \<open>
  What the two format rewriters share: the counters of \<open>RewriterMetrics\<close>, the value a rewrite returns
  (\<open>RewriteResult\<close> of \<open>core/protocols.py\<close>, with the written tree in place of its serialisation), the
  loss counters, the loop over the lines of a file and the extraction of the texts from the written tree.

  \<open>line_loop\<close> is the contract of one step of the loop, \<open>line_writer\<close> that of the function which writes a
  line; both formats interpret them.
\<close>

section \<open>Losses\<close>

type_synonym losses = "(string, nat) dict"

definition merge_losses :: "losses \<Rightarrow> losses \<Rightarrow> losses" where
  "merge_losses a b = foldl (\<lambda>d (k, v). dict_set k v d) a b"

text \<open>\<open>core/losses.py\<close>: a correction invalidates the confidence of a line, counted once per line.\<close>

definition COUNTS_INVALIDATION :: bool where
  "COUNTS_INVALIDATION \<longleftrightarrow> True"

definition INVALIDATION_COUNTER :: string where
  "INVALIDATION_COUNTER = ''confidence_invalidated''"

section \<open>The result of a rewrite\<close>

record rewriter_metrics =
  untouched :: nat
  subs_only :: nat
  fast_path :: nat
  slow_path :: nat

definition total_processed :: "'a rewriter_metrics_scheme \<Rightarrow> nat" where
  "total_processed m = subs_only m + fast_path m + slow_path m"

definition metrics_total_lines :: "'a rewriter_metrics_scheme \<Rightarrow> nat" where
  "metrics_total_lines m = untouched m + subs_only m + fast_path m + slow_path m"

definition count_path :: "string \<Rightarrow> 'a rewriter_metrics_scheme \<Rightarrow> 'a rewriter_metrics_scheme" where
  "count_path p m =
     (if p = ''untouched'' then m\<lparr>untouched := untouched m + 1\<rparr>
      else if p = ''subs_only'' then m\<lparr>subs_only := subs_only m + 1\<rparr>
      else if p = ''fast_path'' then m\<lparr>fast_path := fast_path m + 1\<rparr>
      else m\<lparr>slow_path := slow_path m + 1\<rparr>)"

record rewrite_result =
  res_tree :: xml
  res_metrics :: rewriter_metrics
  res_paths :: "(ident, string) dict"
  res_texts :: "(ident, ptext) dict"
  res_texts_verbatim :: "(ident, ptext) dict"
  res_losses :: losses
  res_losses_by_line :: "(ident, losses) dict"
  res_moves :: "ident set"


text \<open>\<open>_extract_texts_from_root\<close>, for the attribute that identifies a line and the reader of its
  text.\<close>

fun collect_texts ::
  "(xml \<Rightarrow> ident option) \<Rightarrow> (xml \<Rightarrow> ptext) \<Rightarrow> ident set \<Rightarrow> xml list \<Rightarrow> (ident, ptext) dict \<Rightarrow>
   exn + (ident, ptext) dict" where
  "collect_texts key text_at ids [] acc = Inr acc"
| "collect_texts key text_at ids (e # es) acc =
     (case key e of
        None \<Rightarrow> collect_texts key text_at ids es acc
      | Some l \<Rightarrow>
          if l \<notin> ids then collect_texts key text_at ids es acc
          else if l \<in> fst ` set acc then Inl (Exn C_DuplicateIdError ''duplicate TextLine ID in rewritten file'')
          else collect_texts key text_at ids es (dict_set l (text_at e) acc))"

section \<open>The loop over the lines of a file\<close>

definition addressed :: "(xml \<Rightarrow> ident option) \<Rightarrow> (ident, line_manifest) dict \<Rightarrow> xml \<Rightarrow> bool" where
  "addressed key by_id e \<longleftrightarrow> (case key e of None \<Rightarrow> False | Some l \<Rightarrow> map_of by_id l \<noteq> None)"

fun each_line :: "('s \<Rightarrow> xml \<Rightarrow> exn + 's) \<Rightarrow> xml list \<Rightarrow> 's \<Rightarrow> exn + 's" where
  "each_line step [] st = Inr st"
| "each_line step (e # es) st = res_bind (step st e) (each_line step es)"

text \<open>What the loop leaves in the tree: every addressed \<open>TextLine\<close> as it is written.\<close>

definition on_lines ::
  "(xml \<Rightarrow> ident option) \<Rightarrow> string \<Rightarrow> (line_manifest \<Rightarrow> xml \<Rightarrow> xml) \<Rightarrow> (ident, line_manifest) dict \<Rightarrow> xml \<Rightarrow> xml" where
  "on_lines key ns put by_id el =
     (if \<not> has_tag ''TextLine'' ns el then el
      else
        (case key el of
           None \<Rightarrow> el
         | Some l \<Rightarrow> (case map_of by_id l of None \<Rightarrow> el | Some lm \<Rightarrow> put lm el)))"

section \<open>Facts: losses\<close>

abbreviation dict_keys_distinct :: "losses \<Rightarrow> bool" where
  "dict_keys_distinct d \<equiv> distinct (map fst d)"

lemma distinct_fold:
  "(\<And>d x. dict_keys_distinct d \<Longrightarrow> dict_keys_distinct (f d x)) \<Longrightarrow> dict_keys_distinct d \<Longrightarrow>
   dict_keys_distinct (foldl f d xs)"
  by (induction xs arbitrary: d) simp_all

lemma distinct_merge: "dict_keys_distinct a \<Longrightarrow> dict_keys_distinct (merge_losses a b)"
  unfolding merge_losses_def by (rule distinct_fold) (auto split: prod.split)

definition lost :: "string \<Rightarrow> losses \<Rightarrow> nat" where
  "lost k d = or_else (map_of d k) 0"

lemma or_else_simps [simp]: "or_else None d = d" "or_else (Some v) d = v"
  by (simp_all add: or_else_def)

lemma lost_simps [simp]: "lost k [] = 0" "lost k (dict_set j v d) = (if k = j then v else lost k d)"
  by (simp_all add: lost_def or_else_def)

lemma merge_nil: "dict_keys_distinct b \<Longrightarrow> merge_losses [] b = b"
proof -
  have "dict_keys_distinct (a @ b) \<Longrightarrow> foldl (\<lambda>d (k, v). dict_set k v d) a b = a @ b" for a :: losses
    by (induction b arbitrary: a) (auto simp: dict_set_new)
  from this [of "[]"] show "dict_keys_distinct b \<Longrightarrow> merge_losses [] b = b" by (simp add: merge_losses_def)
qed

lemma lost_absent: "k \<notin> fst ` set d \<Longrightarrow> lost k d = 0"
  by (simp add: lost_def or_else_def map_of_eq_None_iff split: option.split)
    (metis map_of_eq_None_iff option.distinct(1))

lemma lost_sum:
  "dict_keys_distinct b \<Longrightarrow>
   lost k (foldl (\<lambda>d (k, v). dict_set k (or_else (map_of d k) 0 + v) d) a b) = lost k a + lost k b"
proof (induction b arbitrary: a)
  case (Cons p b)
  obtain j v where p: "p = (j, v)" by (cases p)
  have "lost j b = 0" using Cons.prems by (intro lost_absent) (simp add: p)
  moreover have "lost k (p # b) = (if k = j then v else lost k b)" by (simp add: p lost_def or_else_def)
  ultimately show ?case using Cons by (auto simp: p lost_def)
qed simp

section \<open>Facts: texts\<close>

lemma map_of_key: "map_of d k = Some v \<Longrightarrow> k \<in> fst ` set d"
  by (metis map_of_eq_None_iff option.distinct(1))

lemma collect_keeps:
  "collect_texts key text_at ids es acc = Inr d \<Longrightarrow> map_of acc l = Some t \<Longrightarrow> map_of d l = Some t"
proof (induction key text_at ids es acc rule: collect_texts.induct)
  case (2 key text_at ids e es acc)
  show ?case
  proof (cases "key e")
    case None
    with 2 show ?thesis by simp
  next
    case (Some k)
    show ?thesis
    proof (cases "k \<in> ids")
      case False
      with 2 Some show ?thesis by simp
    next
      case True
      with 2(4) Some have new: "k \<notin> fst ` set acc"
        and rest: "collect_texts key text_at ids es (dict_set k (text_at e) acc) = Inr d"
        by (auto split: if_splits)
      have "k \<noteq> l" using new map_of_key [OF 2(5)] by blast
      with 2(3) [OF Some _ _ rest] True new 2(5) show ?thesis by simp
    qed
  qed
qed simp

lemma collect_reads:
  "collect_texts key text_at ids es acc = Inr d \<Longrightarrow> e \<in> set es \<Longrightarrow> key e = Some l \<Longrightarrow> l \<in> ids \<Longrightarrow>
   map_of d l = Some (text_at e)"
proof (induction es arbitrary: acc)
  case (Cons x es)
  show ?case
  proof (cases "x = e")
    case True
    with Cons.prems have "collect_texts key text_at ids es (dict_set l (text_at e) acc) = Inr d"
      by (auto split: if_splits)
    then show ?thesis by (rule collect_keeps) simp
  next
    case False
    with Cons.prems obtain acc' where "collect_texts key text_at ids es acc' = Inr d"
      by (auto split: option.splits if_splits)
    with Cons False show ?thesis by auto
  qed
qed simp

lemma fresh_key:
  assumes "distinct (map key (e # es))" "None \<notin> key ` set (e # es)"
  shows "the (key e) \<notin> the ` key ` set es"
proof
  assume "the (key e) \<in> the ` key ` set es"
  then obtain d where d: "d \<in> set es" "the (key e) = the (key d)" by auto
  have "key e \<noteq> None" using assms(2) by auto
  moreover have "key d \<noteq> None" using assms(2) d(1) by (metis image_eqI list.set_intros(2))
  ultimately have "key e = key d" using d(2) by auto
  with d(1) assms(1) show False by auto
qed

lemma collect_succeeds:
  "distinct (map key es) \<Longrightarrow> None \<notin> key ` set es \<Longrightarrow> fst ` set acc \<inter> the ` key ` set es = {} \<Longrightarrow>
   \<exists>d. collect_texts key text_at ids es acc = Inr d"
proof (induction es arbitrary: acc)
  case (Cons e es)
  then obtain l where l: "key e = Some l" by (cases "key e") auto
  have "l \<notin> the ` key ` set es" using fresh_key [OF Cons.prems(1,2)] l by simp
  with Cons l show ?case by auto
qed simp

text \<open>Totals that are the sums of what was charged line by line.\<close>

definition ledger :: "(string \<Rightarrow> nat) \<Rightarrow> (ident, losses) dict \<Rightarrow> bool" where
  "ledger charge by_line \<longleftrightarrow> (\<forall>k. charge k = sum_list (map (\<lambda>(l, ls). lost k ls) by_line))"

section \<open>The contract of the loop\<close>

lemma count_path_total [simp]: "metrics_total_lines (count_path p m) = metrics_total_lines m + 1"
  by (simp add: metrics_total_lines_def count_path_def)

text \<open>A step skips what no page addresses, and otherwise writes down the line it met.\<close>

locale line_loop =
  fixes key :: "xml \<Rightarrow> ident option" and by_id :: "(ident, line_manifest) dict"
    and step :: "'s \<Rightarrow> xml \<Rightarrow> exn + 's" and met :: "'s \<Rightarrow> ident list" and inv :: "'s \<Rightarrow> bool"
    and writable :: "line_manifest \<Rightarrow> xml \<Rightarrow> bool"
  assumes skip: "\<not> addressed key by_id e \<Longrightarrow> step st e = Inr st"
    and hit: "key e = Some l \<Longrightarrow> map_of by_id l = Some lm \<Longrightarrow> inv st \<Longrightarrow> step st e = Inr st' \<Longrightarrow>
      inv st' \<and> met st' = met st @ [l] \<and> writable lm e"
begin

lemma step_spec:
  assumes "step st e = Inr st'" "inv st"
  shows "inv st' \<and> met st' = met st @ (if addressed key by_id e then [the (key e)] else []) \<and>
    (\<forall>l lm. key e = Some l \<longrightarrow> map_of by_id l = Some lm \<longrightarrow> writable lm e)"
proof (cases "addressed key by_id e")
  case False
  then have "st' = st" using skip [of e st] assms(1) by simp
  with False assms(2) show ?thesis by (auto simp: addressed_def)
next
  case True
  then obtain l lm where "key e = Some l" "map_of by_id l = Some lm"
    by (auto simp: addressed_def split: option.splits)
  with hit [OF this assms(2,1)] True show ?thesis by simp
qed

lemma loop_spec:
  assumes "each_line step es st = Inr st'" "inv st"
  shows "inv st' \<and> met st' = met st @ map (\<lambda>e. the (key e)) (filter (addressed key by_id) es) \<and>
    (\<forall>e \<in> set es. \<forall>l lm. key e = Some l \<longrightarrow> map_of by_id l = Some lm \<longrightarrow> writable lm e)"
  using assms
proof (induction es arbitrary: st)
  case (Cons e es)
  then obtain st1 where s1: "step st e = Inr st1" "each_line step es st1 = Inr st'"
    by (auto simp: res_bind_Inr)
  note first = step_spec [OF s1(1) Cons.prems(2)]
  then have "inv st1" by blast
  note rest = Cons.IH [OF s1(2) this]
  have "met st' = met st @ map (\<lambda>e. the (key e)) (filter (addressed key by_id) (e # es))"
    using first rest by simp
  with first rest show ?case by auto
qed simp

end

lemma disjoint_insert: "S \<inter> A = {} \<Longrightarrow> T \<subseteq> insert x S \<Longrightarrow> x \<notin> A \<Longrightarrow> T \<inter> A = {}"
  by blast

text \<open>Steps that succeed and keep what is observed make a loop that does, if no key repeats.\<close>

lemma each_line_quiet:
  assumes step: "\<And>e st. e \<in> set es \<Longrightarrow> the (key e) \<notin> seen st \<Longrightarrow>
      \<exists>st'. step st e = Inr st' \<and> obs st' = obs st \<and> seen st' \<subseteq> insert (the (key e)) (seen st)"
    and "distinct (map key es)" "None \<notin> key ` set es" "seen st \<inter> the ` key ` set es = {}"
  shows "\<exists>st'. each_line step es st = Inr st' \<and> obs st' = obs st"
  using assms
proof (induction es arbitrary: st)
  case (Cons e es)
  have "the (key e) \<notin> seen st" using Cons.prems(4) by auto
  from Cons.prems(1) [OF _ this] obtain st1 where
    s1: "step st e = Inr st1" "obs st1 = obs st" "seen st1 \<subseteq> insert (the (key e)) (seen st)" by auto
  have "the (key e) \<notin> the ` key ` set es" by (rule fresh_key [OF Cons.prems(2,3)])
  with s1(3) have apart: "seen st1 \<inter> the ` key ` set es = {}"
    by (rule disjoint_insert [rotated]) (use Cons.prems(4) in auto)
  have "\<exists>st'. each_line step es st1 = Inr st' \<and> obs st' = obs st1"
    by (rule Cons.IH) (use Cons.prems apart in \<open>auto\<close>)
  with s1 show ?case by auto
qed simp

section \<open>The contract of a writer of lines\<close>

text \<open>Writing keeps a line a line, with its identifier, and puts no line inside it.\<close>

locale line_writer =
  fixes key :: "xml \<Rightarrow> ident option" and ns :: string and put :: "line_manifest \<Rightarrow> xml \<Rightarrow> xml"
  assumes keeps: "has_tag ''TextLine'' ns el \<Longrightarrow> key (put lm el) = key el \<and> has_tag ''TextLine'' ns (put lm el)"
    and writes_no_line: "has_tag ''TextLine'' ns el \<Longrightarrow> lineless_children ns el \<Longrightarrow> lineless_children ns (put lm el)"

sublocale line_writer \<subseteq> written: line_map ns "on_lines key ns put by_id" for by_id
  by unfold_locales (auto simp: on_lines_def keeps writes_no_line split: option.split)

context line_writer
begin

lemma key_kept: "key (on_lines key ns put by_id el) = key el"
  by (auto simp: on_lines_def keeps split: option.split)

text \<open>The texts collected from a tree with the written lines: they can be collected, and that of a line
  is what it was written as.\<close>

lemma texts_exist:
  assumes "flat_lines ns el"
    and "iter_tagged ''TextLine'' ns tree = iter_tagged ''TextLine'' ns (map_elements (on_lines key ns put by_id) el)"
    and "distinct (map key (iter_tagged ''TextLine'' ns el))" "None \<notin> key ` set (iter_tagged ''TextLine'' ns el)"
  shows "\<exists>texts. collect_texts key text_at ids (iter_tagged ''TextLine'' ns tree) [] = Inr texts"
  unfolding assms(2) written.iter_mapped [OF assms(1)]
  by (rule collect_succeeds) (use assms(3,4) in \<open>simp_all add: image_image key_kept comp_def\<close>)

lemma text_read:
  assumes "flat_lines ns el"
    and "iter_tagged ''TextLine'' ns tree = iter_tagged ''TextLine'' ns (map_elements (on_lines key ns put by_id) el)"
    and texts: "collect_texts key text_at ids (iter_tagged ''TextLine'' ns tree) [] = Inr texts"
    and e: "e \<in> set (iter_tagged ''TextLine'' ns el)" "key e = Some l" "l \<in> ids" "map_of by_id l = Some lm"
  shows "map_of texts l = Some (text_at (put lm e))"
proof -
  have line: "has_tag ''TextLine'' ns e" by (rule iter_has_tag [OF e(1)])
  then have w: "on_lines key ns put by_id e = put lm e" using e(2,4) by (simp add: on_lines_def)
  have "put lm e \<in> set (iter_tagged ''TextLine'' ns tree)"
    unfolding assms(2) written.iter_mapped [OF assms(1)] using e(1) by (auto simp flip: w)
  moreover have "key (put lm e) = Some l" using keeps [OF line] e(2) by simp
  ultimately show ?thesis using e(3) by (rule collect_reads [OF texts])
qed

end

section \<open>Pages that were read address what they were read from\<close>

lemma addressed_lines:
  assumes read: "read_from key text_at source po lo es pages"
  shows "(\<lambda>e. the (key e)) ` set (filter (addressed key (dict_of line_id (lines_of pages))) es) =
    line_id ` set (lines_of pages)" (is "?l ` set (filter ?addressed es) = _")
proof
  show "?l ` set (filter ?addressed es) \<subseteq> line_id ` set (lines_of pages)"
  proof
    fix l assume "l \<in> ?l ` set (filter ?addressed es)"
    then obtain e where "l = the (key e)" "?addressed e" by auto
    then obtain lm where "map_of (dict_of line_id (lines_of pages)) l = Some lm"
      by (auto simp only: addressed_def option.sel split: option.splits)
    from map_of_dict_of_Some [OF this] show "l \<in> line_id ` set (lines_of pages)" by blast
  qed
  show "line_id ` set (lines_of pages) \<subseteq> ?l ` set (filter ?addressed es)"
  proof
    fix l assume "l \<in> line_id ` set (lines_of pages)"
    then obtain lm where lm: "lm \<in> set (lines_of pages)" "l = line_id lm" by blast
    from line_in_file [OF read lm(1)] obtain t where t: "t \<in> set es" "key t = Some l" using lm(2) by blast
    have "map_of (dict_of line_id (lines_of pages)) l = Some lm"
      using map_of_dict_of_distinct [OF lines_distinct [OF read] lm(1)] lm(2) by simp
    with t have "?addressed t" by (simp add: addressed_def)
    with t show "l \<in> ?l ` set (filter ?addressed es)" by force
  qed
qed

end
