(* ===== verification/Alto_Rewriter.thy ===== *)
theory Alto_Rewriter
  imports Alto_Geometry Alignment Rewriting
begin

text \<open>
  \<open>formats/alto/rewriter.py\<close> and the loss matrix it consults (\<open>core/losses.py\<close>,
  \<open>formats/alto/losses.py\<close>): how the decided text of a line is written into its \<open>TextLine\<close>.

  A line takes one of four paths: untouched, hyphen markers only, contents in place, or a rebuild
  with new geometry. Elements are values: an operation takes an element and returns it updated, the
  target of a write is a position among the children. Reading the file, the XML declaration and
  serialisation are outside: the tree read is the argument, the tree written is the result.

  Facts are in \<open>Alto_Lines\<close>.
\<close>

section \<open>The loss matrix\<close>

datatype attribute_class = STRUCTURAL | SEMANTIC

datatype attribute_fate = PRESERVED | REWRITTEN | INVALIDATED | DROPPED

definition ALTO_STRING_ATTRIBUTES :: "(string, attribute_class \<times> attribute_fate) dict" where
  "ALTO_STRING_ATTRIBUTES =
     [(''CONTENT'', (STRUCTURAL, REWRITTEN)), (''ID'', (STRUCTURAL, REWRITTEN)),
      (''HPOS'', (STRUCTURAL, REWRITTEN)), (''VPOS'', (STRUCTURAL, REWRITTEN)),
      (''WIDTH'', (STRUCTURAL, REWRITTEN)), (''HEIGHT'', (STRUCTURAL, REWRITTEN)),
      (''SUBS_TYPE'', (SEMANTIC, REWRITTEN)), (''SUBS_CONTENT'', (SEMANTIC, REWRITTEN)),
      (''STYLEREFS'', (SEMANTIC, PRESERVED)), (''WC'', (SEMANTIC, INVALIDATED)),
      (''CC'', (SEMANTIC, INVALIDATED)), (''STYLE'', (SEMANTIC, DROPPED))]"

text \<open>\<open>frozenset({"STYLE", "STYLEREFS"})\<close>, in the order \<open>sorted\<close> walks it.\<close>

definition ALIGNMENT_SCOPED :: "string list" where
  "ALIGNMENT_SCOPED = [''STYLE'', ''STYLEREFS'']"

text \<open>\<open>key.rsplit("}", 1)[-1]\<close>, and the two case maps of attribute names (ASCII letters).\<close>

definition key_local :: "string \<Rightarrow> string" where
  "key_local k = rev (takeWhile (\<lambda>c. c \<noteq> CHR ''}'') (rev k))"

definition upper_name :: "string \<Rightarrow> string" where
  "upper_name s = map (\<lambda>c. if ascii_lower (of_char c) then char_of (of_char c - 32 :: int) else c) s"

definition lower_name :: "string \<Rightarrow> string" where
  "lower_name s = map (\<lambda>c. if ascii_upper (of_char c) then char_of (of_char c + 32 :: int) else c) s"

definition fate_of :: "string \<Rightarrow> attribute_class \<times> attribute_fate" where
  "fate_of attribute =
     or_else (map_of ALTO_STRING_ATTRIBUTES (upper_name (key_local attribute))) (SEMANTIC, DROPPED)"

definition is_invalidated :: "string \<Rightarrow> bool" where
  "is_invalidated attribute \<longleftrightarrow> snd (fate_of attribute) = INVALIDATED"

definition is_countable_loss :: "string \<Rightarrow> bool" where
  "is_countable_loss attribute \<longleftrightarrow>
     (case snd (fate_of attribute) of
        DROPPED \<Rightarrow> True | INVALIDATED \<Rightarrow> COUNTS_INVALIDATION | _ \<Rightarrow> False)"

definition is_unconditional_loss :: "string \<Rightarrow> bool" where
  "is_unconditional_loss attribute \<longleftrightarrow>
     (let local_part = upper_name (key_local attribute)
      in if local_part \<in> set ALIGNMENT_SCOPED \<or> is_invalidated local_part then False
         else is_countable_loss local_part)"

definition INVALIDATED_ATTRIBUTES :: "string list" where
  "INVALIDATED_ATTRIBUTES =
     map fst (filter (\<lambda>(name, (cls, fate)). fate = INVALIDATED) ALTO_STRING_ATTRIBUTES)"

section \<open>Children\<close>

definition get_string_children :: "string \<Rightarrow> xml \<Rightarrow> xml list" where
  "get_string_children ns el = children_tagged ''String'' ns el"

definition get_sp_children :: "string \<Rightarrow> xml \<Rightarrow> xml list" where
  "get_sp_children ns el = children_tagged ''SP'' ns el"

definition get_hyp_children :: "string \<Rightarrow> xml \<Rightarrow> xml list" where
  "get_hyp_children ns el = children_tagged ''HYP'' ns el"

text \<open>Where the \<open>String\<close> children stand among all children.\<close>

definition string_positions :: "string \<Rightarrow> xml \<Rightarrow> nat list" where
  "string_positions ns el =
     filter (\<lambda>i. has_tag ''String'' ns (el_children el ! i)) [0 ..< length (el_children el)]"

section \<open>Comparing texts\<close>

definition canonical_line_text :: "unicode \<Rightarrow> string \<Rightarrow> xml \<Rightarrow> ptext" where
  "canonical_line_text u ns el =
     py_strip (filter (\<lambda>c. c \<noteq> 13) (reconstruct_textline u ns False el))"

definition line_text_unchanged :: "unicode \<Rightarrow> string \<Rightarrow> xml \<Rightarrow> ptext \<Rightarrow> bool" where
  "line_text_unchanged u ns el corrected \<longleftrightarrow>
     canonical_line_text u ns el = py_strip (filter (\<lambda>c. c \<noteq> 13) (nfc u corrected))"

section \<open>Hyphen markers\<close>

type_synonym subs = "ptext option \<times> ptext option"

definition desired_subs :: "line_manifest \<Rightarrow> subs" where
  "desired_subs lm =
     (if hyphen_source_explicit lm \<and> truthy (hyphen_subs_content lm) then
        (case hyphen_role lm of
           PART1 \<Rightarrow> (Some (tx ''HypPart1''), hyphen_subs_content lm)
         | PART2 \<Rightarrow> (Some (tx ''HypPart2''), hyphen_subs_content lm)
         | BOTH \<Rightarrow> (Some (tx ''HypPart2''), hyphen_subs_content lm)
         | NONE \<Rightarrow> (None, None))
      else (None, None))"

definition desired_forward_subs :: "line_manifest \<Rightarrow> subs" where
  "desired_forward_subs lm =
     (if hyphen_role lm \<noteq> BOTH then (None, None)
      else if hyphen_forward_explicit lm \<and> truthy (hyphen_forward_subs_content lm)
      then (Some (tx ''HypPart1''), hyphen_forward_subs_content lm)
      else (None, None))"

definition subs_target :: "string \<Rightarrow> line_manifest \<Rightarrow> xml \<Rightarrow> nat option" where
  "subs_target ns lm el =
     (let strings = string_positions ns el
      in if strings = [] then None
         else (case hyphen_role lm of
                 PART1 \<Rightarrow> Some (last strings)
               | PART2 \<Rightarrow> Some (hd strings)
               | BOTH \<Rightarrow> Some (hd strings)
               | NONE \<Rightarrow> None))"

definition forward_subs_target :: "string \<Rightarrow> line_manifest \<Rightarrow> xml \<Rightarrow> nat option" where
  "forward_subs_target ns lm el =
     (if hyphen_role lm \<noteq> BOTH then None
      else
        (let strings = string_positions ns el
         in if strings = [] then None
            else if Some (last strings) = subs_target ns lm el then None
            else Some (last strings)))"

definition subs_of :: "xml \<Rightarrow> subs" where
  "subs_of el = (get_attr ''SUBS_TYPE'' el, get_attr ''SUBS_CONTENT'' el)"

definition subs_need_update :: "string \<Rightarrow> line_manifest \<Rightarrow> xml \<Rightarrow> bool" where
  "subs_need_update ns lm el =
     (if hyphen_role lm = NONE then False
      else
        (case subs_target ns lm el of
           None \<Rightarrow> fst (desired_subs lm) \<noteq> None
         | Some i \<Rightarrow> subs_of (el_children el ! i) \<noteq> desired_subs lm) \<or>
        (case forward_subs_target ns lm el of
           None \<Rightarrow> False
         | Some i \<Rightarrow> subs_of (el_children el ! i) \<noteq> desired_forward_subs lm))"

definition set_subs_on_element :: "subs \<Rightarrow> xml \<Rightarrow> xml" where
  "set_subs_on_element want target =
     (case want of (ty, content) \<Rightarrow>
        if truthy ty \<and> truthy content
        then set_attr ''SUBS_CONTENT'' (the content) (set_attr ''SUBS_TYPE'' (the ty) target)
        else del_attr ''SUBS_CONTENT'' (del_attr ''SUBS_TYPE'' target))"

definition write_subs :: "nat option \<Rightarrow> subs \<Rightarrow> xml \<Rightarrow> xml" where
  "write_subs target want el =
     (case target of None \<Rightarrow> el | Some i \<Rightarrow> update_child i (set_subs_on_element want) el)"

definition apply_subs :: "string \<Rightarrow> line_manifest \<Rightarrow> xml \<Rightarrow> xml" where
  "apply_subs ns lm el =
     (let el1 = write_subs (subs_target ns lm el) (desired_subs lm) el
      in write_subs (forward_subs_target ns lm el1) (desired_forward_subs lm) el1)"

section \<open>Losses\<close>

definition count_key :: "string \<Rightarrow> losses \<Rightarrow> losses" where
  "count_key k d = dict_set k (or_else (map_of d k) 0 + 1) d"

definition dropped_key :: "string \<Rightarrow> string" where
  "dropped_key local_part = lower_name local_part @ ''_dropped''"

definition SUBS_ATTRIBUTES :: "string list" where
  "SUBS_ATTRIBUTES = [''SUBS_TYPE'', ''SUBS_CONTENT'']"

definition attr_names :: "xml \<Rightarrow> string list" where
  "attr_names el = map fst (el_ids el) @ map fst (el_attrs el)"

definition lost_subs :: "ptext set \<Rightarrow> xml \<Rightarrow> losses \<Rightarrow> losses" where
  "lost_subs wanted s d =
     (let by_local = foldl (\<lambda>m (k, v). dict_set (upper_name (key_local k)) v m) [] (el_attrs s)
      in case map_of by_local ''SUBS_TYPE'' of
           None \<Rightarrow> d
         | Some ty \<Rightarrow>
             if ty \<in> wanted then d
             else foldl (\<lambda>d a. if map_of by_local a \<noteq> None then count_key (dropped_key a) d else d)
                    d SUBS_ATTRIBUTES)"

definition lost_attributes :: "xml \<Rightarrow> losses \<Rightarrow> losses" where
  "lost_attributes s d =
     foldl (\<lambda>d key.
       let local_part = key_local key
       in if upper_name local_part \<in> set SUBS_ATTRIBUTES then d
          else if \<not> is_unconditional_loss local_part then d
          else count_key (dropped_key local_part) d) d (attr_names s)"

definition semantic_attr_losses :: "xml list \<Rightarrow> line_manifest \<Rightarrow> losses" where
  "semantic_attr_losses strings lm =
     (let wanted = set (List.map_filter fst [desired_subs lm, desired_forward_subs lm])
      in foldl (\<lambda>d s. lost_attributes s (lost_subs wanted s d)) [] strings)"

definition confidence_attr_count :: "string \<Rightarrow> xml \<Rightarrow> nat" where
  "confidence_attr_count ns el =
     sum_list (map (\<lambda>s. length (filter (\<lambda>a. upper_name (key_local a) \<in> set INVALIDATED_ATTRIBUTES)
                                  (attr_names s)))
               (get_string_children ns el))"

definition confidence_loss :: "nat \<Rightarrow> string \<Rightarrow> xml \<Rightarrow> losses" where
  "confidence_loss before ns el =
     (if \<not> COUNTS_INVALIDATION \<or> before = 0 then []
      else if confidence_attr_count ns el \<ge> before then []
      else [(INVALIDATION_COUNTER, 1)])"

definition add_alignment_scoped_losses :: "losses \<Rightarrow> xml list \<Rightarrow> nat set \<Rightarrow> losses" where
  "add_alignment_scoped_losses d strings matched =
     foldl (\<lambda>d (i, s).
       if i \<in> matched then d
       else foldl (\<lambda>d key. if get_attr key s \<noteq> None then count_key (dropped_key key) d else d)
              d ALIGNMENT_SCOPED) d (enumerate 0 strings)"

section \<open>Contents in place\<close>

definition drop_structural_break_hyphen :: "ptext \<Rightarrow> ptext" where
  "drop_structural_break_hyphen t =
     (let stripped = py_rstrip t
      in if ends_in (set HYPHEN_CHARS) stripped then butlast stripped else t)"

definition word_boundary_moved :: "ptext list \<Rightarrow> ptext list \<Rightarrow> bool" where
  "word_boundary_moved originals words =
     (if originals = words then False
      else if concat originals = concat words then True
      else list_ex (\<lambda>(word, original).
             \<bar>int (length word) - int (length original)\<bar> > int (max 1 (length original div 2)))
             (zip words originals))"

definition update_content :: "unicode \<Rightarrow> ptext \<Rightarrow> xml \<Rightarrow> xml" where
  "update_content u word el =
     (let new_content = clean_content u word;
          el1 = set_attr ''CONTENT'' new_content el
      in if get_attr ''CONTENT'' el \<noteq> Some new_content then del_attr ''CC'' (del_attr ''WC'' el1) else el1)"

fun update_strings :: "unicode \<Rightarrow> string \<Rightarrow> ptext list \<Rightarrow> xml list \<Rightarrow> xml list" where
  "update_strings u ns ws [] = []"
| "update_strings u ns ws (c # cs) =
     (if has_tag ''String'' ns c then
        (case ws of
           [] \<Rightarrow> c # update_strings u ns [] cs
         | w # ws' \<Rightarrow> update_content u w c # update_strings u ns ws' cs)
      else c # update_strings u ns ws cs)"

text \<open>\<open>None\<close>: refused, and nothing was written.\<close>

definition update_content_in_place :: "unicode \<Rightarrow> string \<Rightarrow> ptext \<Rightarrow> xml \<Rightarrow> xml option" where
  "update_content_in_place u ns corrected el =
     (let orig_strings = get_string_children ns el;
          words = word_tokens corrected
      in if length words \<noteq> length orig_strings then None
         else if word_boundary_moved (map (\<lambda>s. or_else (get_attr ''CONTENT'' s) []) orig_strings)
                   (map (clean_content u) words) then None
         else Some (set_children (update_strings u ns words (el_children el)) el))"

section \<open>The rebuild\<close>

definition clear_line :: "string \<Rightarrow> xml \<Rightarrow> xml" where
  "clear_line ns el =
     set_children
       (filter (\<lambda>c. \<not> (has_tag ''String'' ns c \<or> has_tag ''SP'' ns c \<or> has_tag ''HYP'' ns c))
         (el_children el)) el"

definition GEOMETRY :: "string list" where
  "GEOMETRY = [''HPOS'', ''VPOS'', ''WIDTH'', ''HEIGHT'']"

definition int_text :: "int \<Rightarrow> ptext" where
  "int_text n = tx (dec_int n)"

definition without_geometry :: "(string, ptext) dict \<Rightarrow> (string, ptext) dict" where
  "without_geometry d = filter (\<lambda>(k, v). k \<notin> set GEOMETRY) d"

definition emit_sp :: "string \<Rightarrow> xml list \<Rightarrow> nat \<Rightarrow> int \<Rightarrow> int \<Rightarrow> int \<Rightarrow> xml" where
  "emit_sp ns orig_sps sp_n x w y =
     (let sp = (if sp_n < length orig_sps
                then Element (Some (qtag ''SP'' ns)) (el_ids (orig_sps ! sp_n))
                       (without_geometry (el_attrs (orig_sps ! sp_n))) None []
                else Element (Some (qtag ''SP'' ns)) [] [] None [])
      in set_attr ''VPOS'' (int_text y) (set_attr ''HPOS'' (int_text x) (set_attr ''WIDTH'' (int_text w) sp)))"

text \<open>\<open>f"{n:04d}"\<close>, and the identifiers tried for a generated \<open>String\<close>.\<close>

definition pad4 :: "nat \<Rightarrow> string" where
  "pad4 n = replicate (4 - length (dec n)) (CHR ''0'') @ dec n"

definition candidate_id :: "ident \<Rightarrow> nat \<Rightarrow> ident" where
  "candidate_id base k = base @ ''_'' @ dec k"

lemma candidates_used_finite: "finite {m. n \<le> m \<and> candidate_id base m \<in> set used}"
proof (rule finite_imageD)
  show "finite (candidate_id base ` {m. n \<le> m \<and> candidate_id base m \<in> set used})"
    by (rule finite_subset [of _ "set used"]) auto
  show "inj_on (candidate_id base) {m. n \<le> m \<and> candidate_id base m \<in> set used}"
    by (auto simp: inj_on_def candidate_id_def dest: dec_inject)
qed

text \<open>\<open>while candidate in used_ids\<close>: the suffix grows until the identifier is free.\<close>

function free_suffix :: "ident \<Rightarrow> ident list \<Rightarrow> nat \<Rightarrow> ident" where
  "free_suffix base used n =
     (if candidate_id base n \<in> set used then free_suffix base used (n + 1) else candidate_id base n)"
  by pat_completeness auto
termination
proof (relation "measure (\<lambda>(base, used, n). card {m. n \<le> m \<and> candidate_id base m \<in> set used})")
  fix base :: ident and used :: "ident list" and n :: nat
  assume used: "candidate_id base n \<in> set used"
  have "{m. n + 1 \<le> m \<and> candidate_id base m \<in> set used} \<subset> {m. n \<le> m \<and> candidate_id base m \<in> set used}"
  proof (rule psubsetI)
    have "n \<in> {m. n \<le> m \<and> candidate_id base m \<in> set used}" using used by simp
    moreover have "n \<notin> {m. n + 1 \<le> m \<and> candidate_id base m \<in> set used}" by simp
    ultimately show "{m. n + 1 \<le> m \<and> candidate_id base m \<in> set used} \<noteq>
        {m. n \<le> m \<and> candidate_id base m \<in> set used}" by metis
  qed auto
  from psubset_card_mono [OF candidates_used_finite this]
  show "((base, used, n + 1), base, used, n)
      \<in> measure (\<lambda>(base, used, n). card {m. n \<le> m \<and> candidate_id base m \<in> set used})" by simp
qed simp

declare free_suffix.simps [simp del]

definition generated_id :: "ident \<Rightarrow> nat \<Rightarrow> ident list \<Rightarrow> ident" where
  "generated_id line n used =
     (let base = line @ ''_STR_'' @ pad4 n
      in if base \<in> set used then free_suffix base used 2 else base)"

definition keep_attrs :: "string list \<Rightarrow> (string, ptext) dict \<Rightarrow> (string, ptext) dict" where
  "keep_attrs ks d = List.map_filter (\<lambda>k. map_option (\<lambda>v. (k, v)) (map_of d k)) ks"

text \<open>A rebuilt \<open>String\<close> takes identity and styling from the source \<open>String\<close> its token was aligned
  with, and nothing else. The identifiers in use come back with the new one added.\<close>

definition emit_string ::
  "unicode \<Rightarrow> string \<Rightarrow> xml option \<Rightarrow> nat \<Rightarrow> ident \<Rightarrow> ptext \<Rightarrow> int \<Rightarrow> int \<Rightarrow> int \<Rightarrow> int \<Rightarrow> ident list \<Rightarrow>
   xml \<times> ident list" where
  "emit_string u ns recycled str_n line token x w y h used =
     (let styling = (case recycled of None \<Rightarrow> [] | Some r \<Rightarrow> keep_attrs [''STYLEREFS'', ''STYLE''] (el_attrs r));
          own_id = (case recycled of None \<Rightarrow> None | Some r \<Rightarrow> get_id r);
          new_id = or_else own_id (generated_id line str_n used);
          s = Element (Some (qtag ''String'' ns)) [(''ID'', new_id)] styling None []
      in (set_attr ''HEIGHT'' (int_text h) (set_attr ''WIDTH'' (int_text w)
            (set_attr ''VPOS'' (int_text y) (set_attr ''HPOS'' (int_text x)
              (set_attr ''CONTENT'' (clean_content u token) s)))),
          new_id # used))"

definition append_trailing_hyp ::
  "string \<Rightarrow> xml option \<Rightarrow> int \<Rightarrow> int \<Rightarrow> int \<Rightarrow> int \<Rightarrow> xml" where
  "append_trailing_hyp ns orig_hyp x y w h =
     (let base = (case orig_hyp of
                    None \<Rightarrow> Element (Some (qtag ''HYP'' ns)) [] [] None []
                  | Some o_el \<Rightarrow>
                      Element (Some (qtag ''HYP'' ns)) (el_ids o_el) (without_geometry (el_attrs o_el)) None []);
          hyp = (if get_attr ''CONTENT'' base = None then set_attr ''CONTENT'' [45] base else base)
      in set_attr ''HEIGHT'' (int_text h) (set_attr ''WIDTH'' (int_text w)
           (set_attr ''VPOS'' (int_text y) (set_attr ''HPOS'' (int_text x) hyp))))"

definition write_text_for :: "line_manifest \<Rightarrow> ptext \<Rightarrow> ptext \<times> bool" where
  "write_text_for lm corrected =
     (if opens_unit (hyphen_role lm) \<and> forward_break_is_explicit lm then
        (let write_text = drop_structural_break_hyphen corrected
         in (write_text, write_text \<noteq> py_rstrip write_text))
      else (corrected, False))"

definition reserve_break_slot :: "xml option \<Rightarrow> int \<Rightarrow> bool \<Rightarrow> int \<times> int" where
  "reserve_break_slot orig_hyp line_width space_before_break =
     (let raw = (case orig_hyp of None \<Rightarrow> None | Some o_el \<Rightarrow> get_attr ''WIDTH'' o_el);
          orig_hyp_w = (case parse_int_tolerant raw 0 False of Inl _ \<Rightarrow> 0 | Inr n \<Rightarrow> n);
          w1 = (if orig_hyp_w > 0 then orig_hyp_w else max 1 (py_round (of_int line_width * (4/100))));
          w2 = (if space_before_break then max w1 2 else w1);
          w3 = min w2 (max 1 (line_width - 1))
      in (w3, max 1 (line_width - w3)))"

text \<open>The children it emits, and what is left of the slot.\<close>

definition reserve_break_space ::
  "string \<Rightarrow> xml list \<Rightarrow> nat \<Rightarrow> int \<Rightarrow> int \<Rightarrow> int \<Rightarrow> bool \<Rightarrow> xml list \<times> int \<times> int" where
  "reserve_break_space ns orig_sps sp_n x slot_width y wanted =
     (if \<not> wanted \<or> slot_width < 2 then ([], x, slot_width)
      else
        (let sp_width = max 1 (slot_width div 3)
         in ([emit_sp ns orig_sps sp_n x sp_width y], x + sp_width, slot_width - sp_width)))"

text \<open>The loop over the tokens and their boxes: the emitted children, how many spaces were used,
  and the box of the last word.\<close>

fun emit_tokens ::
  "unicode \<Rightarrow> string \<Rightarrow> ident \<Rightarrow> xml list \<Rightarrow> xml list \<Rightarrow> token_alignment \<Rightarrow> int \<Rightarrow> int \<Rightarrow>
   (ptext \<times> int \<times> int) list \<Rightarrow> nat \<Rightarrow> nat \<Rightarrow> ident list \<Rightarrow> int \<times> int \<Rightarrow> xml list \<times> nat \<times> int \<times> int" where
  "emit_tokens u ns line strings sps al y h [] str_n sp_n used last_word = ([], sp_n, last_word)"
| "emit_tokens u ns line strings sps al y h ((token, x, w) # geo) str_n sp_n used last_word =
     (if is_space_token token then
        (let (cs, rest) = emit_tokens u ns line strings sps al y h geo str_n (sp_n + 1) used last_word
         in (emit_sp ns sps sp_n x w y # cs, rest))
      else
        (let recycled = (case source_for_target al str_n of None \<Rightarrow> None | Some i \<Rightarrow> Some (strings ! i));
             (s, used') = emit_string u ns recycled str_n line token x w y h used;
             (cs, rest) = emit_tokens u ns line strings sps al y h geo (str_n + 1) sp_n used' (x, w)
         in (s # cs, rest)))"

definition matched_sources :: "token_alignment \<Rightarrow> nat list" where
  "matched_sources al =
     List.map_filter (\<lambda>p. if target_index p \<noteq> None then source_index p else None) (pairs al)"

definition line_box :: "xml \<Rightarrow> exn + (int \<times> int \<times> int \<times> int)" where
  "line_box el =
     res_bind (int_attr el ''HPOS'') (\<lambda>x. res_bind (int_attr el ''VPOS'') (\<lambda>y.
     res_bind (int_attr el ''WIDTH'') (\<lambda>w. res_bind (int_attr el ''HEIGHT'') (\<lambda>h.
     Inr (x, y, w, h)))))"

definition is_part1_like :: "line_manifest \<Rightarrow> bool" where
  "is_part1_like lm \<longleftrightarrow> opens_unit (hyphen_role lm) \<and> hyphen_source_explicit lm"

text \<open>The alignment of a line is exact (no band) and total
  (\<open>Alignment.align_tokens_total_and_monotone\<close>).\<close>

definition line_alignment :: "xml list \<Rightarrow> ptext list \<Rightarrow> token_alignment" where
  "line_alignment strings words =
     the (align_tokens char_similarity None (map (\<lambda>s. or_else (get_attr ''CONTENT'' s) []) strings) words)"

definition rebuild_line ::
  "unicode \<Rightarrow> string \<Rightarrow> line_manifest \<Rightarrow> bool \<Rightarrow> ptext \<Rightarrow> xml \<Rightarrow> exn + (xml \<times> losses \<times> bool)" where
  "rebuild_line u ns lm space_before_break text0 el =
     (let corrected = py_strip text0;
          part1_like = is_part1_like lm;
          is_normal = (\<not> part1_like \<and> hyphen_role lm \<noteq> PART2);
          strings = get_string_children ns el; sps = get_sp_children ns el;
          hyps = get_hyp_children ns el;
          losses0 = semantic_attr_losses strings lm;
          orig_hyp = (if part1_like \<and> hyps \<noteq> [] then Some (hd hyps) else None);
          saved_hyp = (if is_normal then hyps else []);
          losses1 = (if \<not> part1_like \<and> \<not> is_normal \<and> hyps \<noteq> []
                     then dict_set ''hyp_elements_removed'' (length hyps) losses0 else losses0);
          el1 = clear_line ns el
      in res_bind (line_box el) (\<lambda>(x, y, w, h).
           let (hyp_width, text_width) =
                 (if part1_like then reserve_break_slot orig_hyp w space_before_break else (0, w));
               tokens = tokenize corrected
           in if tokens = [] then
                Inr (append_children
                       (if part1_like then [append_trailing_hyp ns orig_hyp (x + text_width) y hyp_width h]
                        else saved_hyp) el1,
                     add_alignment_scoped_losses losses1 strings {}, False)
              else
                (let words = filter (\<lambda>t. \<not> is_space_token t) tokens;
                     al = line_alignment strings words;
                     matched = matched_sources al;
                     losses2 = add_alignment_scoped_losses losses1 strings (set matched);
                     used = List.map_filter (\<lambda>i. get_id (strings ! i)) matched;
                     geo = compute_geometry x text_width tokens;
                     (cs, sp_n, last_x, last_w) =
                       emit_tokens u ns (line_id lm) strings sps al y h geo 0 0 used (x, hyp_width);
                     tail_children =
                       (if part1_like then
                          (let (sp, bx, bw) =
                                 reserve_break_space ns sps sp_n (last_x + last_w) hyp_width y space_before_break
                           in sp @ [append_trailing_hyp ns orig_hyp bx y bw h])
                        else saved_hyp)
                 in Inr (append_children (cs @ tail_children) el1, losses2, move_suspected al))))"

section \<open>One line\<close>

record line_rewrite =
  lw_element :: xml
  lw_path :: string
  lw_losses :: losses
  lw_move :: bool

definition rewrite_line ::
  "unicode \<Rightarrow> string \<Rightarrow> line_manifest \<Rightarrow> xml \<Rightarrow> exn + line_rewrite" where
  "rewrite_line u ns lm el =
     (let corrected = or_else (corrected_text lm) (ocr_text lm);
          text_changed = (\<not> line_text_unchanged u ns el corrected);
          subs_changed = subs_need_update ns lm el;
          conf_before = confidence_attr_count ns el
      in if \<not> text_changed \<and> \<not> subs_changed then
           Inr \<lparr>lw_element = el, lw_path = ''untouched'', lw_losses = [], lw_move = False\<rparr>
         else if \<not> text_changed then
           (let el1 = apply_subs ns lm el
            in Inr \<lparr>lw_element = el1, lw_path = ''subs_only'',
                    lw_losses = confidence_loss conf_before ns el1, lw_move = False\<rparr>)
         else
           (let (write_text, break_space) = write_text_for lm corrected
            in case update_content_in_place u ns write_text el of
                 Some el1 \<Rightarrow>
                   (let el2 = apply_subs ns lm el1
                    in Inr \<lparr>lw_element = el2, lw_path = ''fast_path'',
                            lw_losses = confidence_loss conf_before ns el2, lw_move = False\<rparr>)
               | None \<Rightarrow>
                   res_bind (rebuild_line u ns lm break_space write_text el) (\<lambda>(el1, line_losses, moved).
                     let el2 = apply_subs ns lm el1
                     in Inr \<lparr>lw_element = el2, lw_path = ''slow_path'',
                             lw_losses = merge_losses line_losses (confidence_loss conf_before ns el2),
                             lw_move = moved\<rparr>)))"

section \<open>One file\<close>

record rewrite_state =
  rw_metrics :: rewriter_metrics
  rw_paths :: "(ident, string) dict"
  rw_losses :: losses
  rw_losses_by_line :: "(ident, losses) dict"
  rw_moves :: "ident set"
  rw_seen :: "ident set"

definition fresh_rewrite :: rewrite_state where
  "fresh_rewrite =
     \<lparr>rw_metrics = \<lparr>untouched = 0, subs_only = 0, fast_path = 0, slow_path = 0\<rparr>, rw_paths = [],
      rw_losses = [], rw_losses_by_line = [], rw_moves = {}, rw_seen = {}\<rparr>"

definition record_losses :: "ident \<Rightarrow> losses \<Rightarrow> rewrite_state \<Rightarrow> rewrite_state" where
  "record_losses l line_losses st =
     (if line_losses = [] then st
      else st\<lparr>rw_losses_by_line :=
                dict_set l (merge_losses (or_else (map_of (rw_losses_by_line st) l) []) line_losses)
                  (rw_losses_by_line st),
              rw_losses :=
                foldl (\<lambda>d (k, v). dict_set k (or_else (map_of d k) 0 + v) d) (rw_losses st) line_losses\<rparr>)"

definition rewrite_step ::
  "unicode \<Rightarrow> string \<Rightarrow> (ident, line_manifest) dict \<Rightarrow> rewrite_state \<Rightarrow> xml \<Rightarrow> exn + rewrite_state" where
  "rewrite_step u ns by_id st tl_el =
     (case get_id tl_el of
        None \<Rightarrow> Inr st
      | Some l \<Rightarrow>
          (case map_of by_id l of
             None \<Rightarrow> Inr st
           | Some lm \<Rightarrow>
               if l \<in> rw_seen st then Inl (Exn C_DuplicateIdError ''duplicate TextLine ID'')
               else
                 res_bind (rewrite_line u ns lm tl_el) (\<lambda>res.
                   let st1 = st\<lparr>rw_seen := insert l (rw_seen st),
                                rw_metrics := count_path (lw_path res) (rw_metrics st),
                                rw_paths := dict_set l (lw_path res) (rw_paths st)\<rparr>;
                       st2 = record_losses l (lw_losses res) st1
                   in Inr (if lw_move res then st2\<lparr>rw_moves := insert l (rw_moves st2)\<rparr> else st2))))"

definition rewrite_lines ::
  "unicode \<Rightarrow> string \<Rightarrow> (ident, line_manifest) dict \<Rightarrow> xml list \<Rightarrow> rewrite_state \<Rightarrow> exn + rewrite_state" where
  "rewrite_lines u ns by_id = each_line (rewrite_step u ns by_id)"

text \<open>What the loop leaves in the tree: every addressed \<open>TextLine\<close> in its rewritten form.\<close>

definition written_line :: "unicode \<Rightarrow> string \<Rightarrow> line_manifest \<Rightarrow> xml \<Rightarrow> xml" where
  "written_line u ns lm el = (case rewrite_line u ns lm el of Inl _ \<Rightarrow> el | Inr res \<Rightarrow> lw_element res)"

definition rewritten :: "unicode \<Rightarrow> string \<Rightarrow> (ident, line_manifest) dict \<Rightarrow> xml \<Rightarrow> xml" where
  "rewritten u ns = on_lines get_id ns (written_line u ns)"

text \<open>\<open>_extract_texts_from_root\<close>\<close>

definition extract_texts ::
  "unicode \<Rightarrow> string \<Rightarrow> bool \<Rightarrow> ident set \<Rightarrow> xml list \<Rightarrow> (ident, ptext) dict \<Rightarrow> exn + (ident, ptext) dict" where
  "extract_texts u ns verbatim = collect_texts get_id (reconstruct_textline u ns verbatim)"

text \<open>The processing step that records the pass.\<close>

definition provenance_description ::
  "ptext \<Rightarrow> ptext \<Rightarrow> ptext option \<Rightarrow> ptext option \<Rightarrow> ptext" where
  "provenance_description provider model lib_version fingerprint =
     tx ''Post-OCR correction via '' @ provider @ tx ''/'' @ model @ tx '' (saknussemm'' @
     (if truthy lib_version then tx '' '' @ the lib_version else []) @
     (if truthy fingerprint then tx ''; config '' @ the fingerprint else []) @ tx '')''"

definition processing_step :: "string \<Rightarrow> ptext \<Rightarrow> xml" where
  "processing_step ns description =
     Element (Some (qtag ''processingStep'' ns)) []
       [(''type'', tx ''contentModification''), (''description'', description)] None []"

definition post_processing_step :: "string \<Rightarrow> ptext \<Rightarrow> ptext option \<Rightarrow> xml" where
  "post_processing_step ns description lib_version =
     Element (Some (qtag ''postProcessingStep'' ns)) [] [] None
       [Element (Some (qtag ''processingStepDescription'' ns)) [] [] (Some description) [],
        Element (Some (qtag ''processingSoftware'' ns)) [] [] None
          ([Element (Some (qtag ''softwareName'' ns)) [] [] (Some (tx ''saknussemm'')) []] @
           (if truthy lib_version
            then [Element (Some (qtag ''softwareVersion'' ns)) [] [] lib_version []] else []))]"

definition add_processing_entry ::
  "string \<Rightarrow> ptext \<Rightarrow> ptext \<Rightarrow> ptext option \<Rightarrow> ptext option \<Rightarrow> xml \<Rightarrow> xml" where
  "add_processing_entry ns provider model lib_version fingerprint el =
     (let description = provenance_description provider model lib_version fingerprint;
          describe = (\<lambda>desc.
            if find_child ''Processing'' ns desc \<noteq> None then
              set_children (update_first (has_tag ''Processing'' ns)
                (append_children [processing_step ns description]) (el_children desc)) desc
            else if find_child ''OCRProcessing'' ns desc \<noteq> None then
              set_children (update_last (has_tag ''OCRProcessing'' ns)
                (append_children [post_processing_step ns description lib_version]) (el_children desc)) desc
            else append_children
                   [Element (Some (qtag ''Processing'' ns)) [] [] None [processing_step ns description]] desc)
      in set_children (update_first (has_tag ''Description'' ns) describe (el_children el)) el)"

text \<open>What lxml refuses to put into an attribute (U+FFFE, U+FFFF and surrogates, which \<open>clean_content\<close>
  keeps; it drops the control characters) is not modelled; on texts without them the writer below raises
  where the source does.\<close>

definition rewrite_alto_file ::
  "unicode \<Rightarrow> page_manifest list \<Rightarrow> ptext \<Rightarrow> ptext \<Rightarrow> ptext option \<Rightarrow> ptext option \<Rightarrow> xml \<Rightarrow>
   exn + rewrite_result" where
  "rewrite_alto_file u pages provider model lib_version fingerprint el =
     (let ns = detect_namespace el
      in res_bind (duplicates_as_exn (ensure_unique_identities pages)) (\<lambda>_.
           let by_id = dict_of line_id (concat (map pg_lines pages)); ids = fst ` set by_id
           in res_bind (rewrite_lines u ns by_id (iter_tagged ''TextLine'' ns el) fresh_rewrite) (\<lambda>st.
                let out = add_processing_entry ns provider model lib_version fingerprint
                            (map_elements (rewritten u ns by_id) el);
                    lines = iter_tagged ''TextLine'' ns out
                in res_bind (extract_texts u ns False ids lines []) (\<lambda>texts.
                   res_bind (extract_texts u ns True ids lines []) (\<lambda>verbatim.
                     Inr \<lparr>res_tree = out, res_metrics = rw_metrics st, res_paths = rw_paths st,
                          res_texts = texts, res_texts_verbatim = verbatim, res_losses = rw_losses st,
                          res_losses_by_line = rw_losses_by_line st, res_moves = rw_moves st\<rparr>)))))"

end
