(* ===== verification/Alto_Lines.thy ===== *)
theory Alto_Lines
  imports Alto_Rewriter
begin

text \<open>
  Facts about the ALTO rewriter. A line that is rewritten keeps everything but its \<open>String\<close>, \<open>SP\<close>
  and \<open>HYP\<close> children; the writer of the hyphen markers and the predicate that asks for it agree; a
  rebuilt line tiles its box, carries distinct identifiers and reads back the text it was given; a
  file counts every addressed line once and its losses are the sum of its lines' losses.
\<close>

section \<open>Frames\<close>

text \<open>The children the text of a line is read from.\<close>

definition line_child :: "string \<Rightarrow> xml \<Rightarrow> bool" where
  "line_child ns c \<longleftrightarrow> has_tag ''String'' ns c \<or> has_tag ''SP'' ns c \<or> has_tag ''HYP'' ns c"

text \<open>Two forms of a line that differ in those children only.\<close>

definition same_frame :: "string \<Rightarrow> xml \<Rightarrow> xml \<Rightarrow> bool" where
  "same_frame ns a b \<longleftrightarrow>
     el_tag a = el_tag b \<and> el_ids a = el_ids b \<and> el_attrs a = el_attrs b \<and> el_text a = el_text b \<and>
     filter (\<lambda>c. \<not> line_child ns c) (el_children a) = filter (\<lambda>c. \<not> line_child ns c) (el_children b)"

lemma same_frame_refl [simp]: "same_frame ns a a"
  by (simp add: same_frame_def)

lemma same_frame_trans: "same_frame ns a b \<Longrightarrow> same_frame ns b c \<Longrightarrow> same_frame ns a c"
  by (simp add: same_frame_def)

section \<open>Hyphen markers\<close>

lemma set_subs_tag [simp]: "has_tag l ns (set_subs_on_element want c) = has_tag l ns c"
  by (simp add: set_subs_on_element_def split: prod.split)

lemma has_tag_written:
  "has_tag l ns ((el_children (write_subs t want el)) ! i) = has_tag l ns (el_children el ! i)"
proof (cases t)
  case (Some j)
  then show ?thesis
    by (cases "i = j"; cases "j < length (el_children el)")
      (simp_all add: write_subs_def list_update_beyond)
qed (simp add: write_subs_def)

lemma length_written [simp]: "length (el_children (write_subs t want el)) = length (el_children el)"
  by (simp add: write_subs_def split: option.split)

lemma string_positions_write [simp]:
  "string_positions ns (write_subs t want el) = string_positions ns el"
  by (simp add: string_positions_def has_tag_written)

lemma subs_target_write [simp]:
  "subs_target ns lm (write_subs t want el) = subs_target ns lm el"
  "forward_subs_target ns lm (write_subs t want el) = forward_subs_target ns lm el"
proof -
  show "subs_target ns lm (write_subs t want el) = subs_target ns lm el" by (simp add: subs_target_def)
  then show "forward_subs_target ns lm (write_subs t want el) = forward_subs_target ns lm el"
    by (simp add: forward_subs_target_def Let_def)
qed

lemma string_position_child: "i \<in> set (string_positions ns el) \<Longrightarrow>
    i < length (el_children el) \<and> has_tag ''String'' ns (el_children el ! i)"
  by (simp add: string_positions_def)

lemma subs_target_position:
  "subs_target ns lm el = Some i \<Longrightarrow> i \<in> set (string_positions ns el)"
  by (auto simp: subs_target_def Let_def split: if_splits hyphen_role.splits)

lemma forward_target_position:
  "forward_subs_target ns lm el = Some i \<Longrightarrow>
   i \<in> set (string_positions ns el) \<and> subs_target ns lm el \<noteq> Some i"
  by (auto simp: forward_subs_target_def Let_def split: if_splits)

text \<open>The two markers are wanted together or not at all.\<close>

definition proper_subs :: "subs \<Rightarrow> bool" where
  "proper_subs want \<longleftrightarrow> (case want of (ty, c) \<Rightarrow> truthy ty \<and> truthy c \<or> ty = None \<and> c = None)"

lemma desired_proper [simp]: "proper_subs (desired_subs lm)" "proper_subs (desired_forward_subs lm)"
  by (simp_all add: proper_subs_def desired_subs_def desired_forward_subs_def tx_def split: hyphen_role.split)

lemma subs_of_set [simp]:
  "proper_subs want \<Longrightarrow> subs_of (set_subs_on_element want c) = want"
  by (cases want) (auto simp: subs_of_def set_subs_on_element_def proper_subs_def)

lemma dict_set_same: "map_of d k = Some v \<Longrightarrow> distinct (map fst d) \<Longrightarrow> dict_set k v d = d"
  by (induction d) (auto simp: dict_set_def)

lemma delete_absent: "map_of d k = None \<Longrightarrow> AList.delete k d = d"
  by (simp add: map_of_eq_None_iff delete_id)

text \<open>An element that carries the wanted markers is not changed by writing them.\<close>

lemma set_subs_same:
  assumes "proper_subs want" "subs_of c = want" "distinct (map fst (el_attrs c))"
  shows "set_subs_on_element want c = c"
proof (cases c)
  case (Element t i as x cs)
  with assms show ?thesis
    by (cases want)
      (auto simp: set_subs_on_element_def subs_of_def proper_subs_def get_attr_def dict_set_same
        delete_absent truthy_iff)
qed

definition dict_like :: "xml \<Rightarrow> bool" where
  "dict_like el \<longleftrightarrow> (\<forall>c \<in> set (el_children el). distinct (map fst (el_attrs c)))"

lemma write_subs_same:
  assumes "proper_subs want" "dict_like el" "t \<noteq> None \<longrightarrow> the t \<in> set (string_positions ns el)"
    and "t \<noteq> None \<longrightarrow> subs_of (el_children el ! the t) = want"
  shows "write_subs t want el = el"
proof (cases t)
  case (Some i)
  then have i: "i < length (el_children el)" using assms(3) string_position_child by fastforce
  then have "set_subs_on_element want (el_children el ! i) = el_children el ! i"
    using assms Some by (intro set_subs_same) (auto simp: dict_like_def)
  then show ?thesis by (simp add: Some write_subs_def update_child_def)
qed (simp add: write_subs_def)

lemma subs_target_none: "hyphen_role lm = NONE \<Longrightarrow> subs_target ns lm el = None"
  by (simp add: subs_target_def Let_def)

text \<open>A line whose markers need no update is left alone by the writer.\<close>

lemma apply_subs_idle:
  assumes "\<not> subs_need_update ns lm el" "dict_like el"
  shows "apply_subs ns lm el = el"
proof (cases "hyphen_role lm = NONE")
  case True
  then show ?thesis
    by (simp add: apply_subs_def subs_target_none write_subs_def forward_subs_target_def)
next
  case False
  have "write_subs (subs_target ns lm el) (desired_subs lm) el = el"
    using assms False
    by (intro write_subs_same [where ns = ns])
      (auto simp: subs_need_update_def dest!: subs_target_position split: option.splits)
  moreover have "write_subs (forward_subs_target ns lm el) (desired_forward_subs lm) el = el"
    using assms False
    by (intro write_subs_same [where ns = ns])
      (auto simp: subs_need_update_def dest!: forward_target_position split: option.splits)
  ultimately show ?thesis by (simp add: apply_subs_def Let_def)
qed

lemma apply_subs_targets [simp]:
  "subs_target ns lm (apply_subs ns lm el) = subs_target ns lm el"
  "forward_subs_target ns lm (apply_subs ns lm el) = forward_subs_target ns lm el"
  "string_positions ns (apply_subs ns lm el) = string_positions ns el"
  by (simp_all add: apply_subs_def Let_def)

text \<open>After the writer the predicate is satisfied, unless there is no \<open>String\<close> to write on.\<close>

lemma apply_subs_settles:
  "subs_need_update ns lm (apply_subs ns lm el) \<longleftrightarrow>
     hyphen_role lm \<noteq> NONE \<and> subs_target ns lm el = None \<and> fst (desired_subs lm) \<noteq> None"
proof -
  let ?el1 = "write_subs (subs_target ns lm el) (desired_subs lm) el"
  have ap: "apply_subs ns lm el = write_subs (forward_subs_target ns lm el) (desired_forward_subs lm) ?el1"
    by (simp add: apply_subs_def Let_def)
  have bwd: "subs_of (el_children (apply_subs ns lm el) ! i) = desired_subs lm"
    if "subs_target ns lm el = Some i" for i
    using that subs_target_position [OF that] string_position_child [of i ns el]
      forward_target_position [of ns lm el]
    by (cases "forward_subs_target ns lm el") (auto simp: ap write_subs_def nth_list_update)
  have fwd: "subs_of (el_children (apply_subs ns lm el) ! i) = desired_forward_subs lm"
    if "forward_subs_target ns lm el = Some i" for i
    using that forward_target_position [OF that] string_position_child [of i ns el]
    by (cases "subs_target ns lm el") (auto simp: ap write_subs_def)
  show ?thesis
    by (auto simp: subs_need_update_def bwd fwd split: option.split)
qed

section \<open>What a rewrite leaves alone\<close>

lemma filter_list_update:
  "\<not> P (xs ! i) \<Longrightarrow> \<not> P y \<Longrightarrow> filter P (xs[i := y]) = filter P xs"
  by (induction xs arbitrary: i) (auto split: nat.split)

lemma String_line_child: "has_tag ''String'' ns c \<Longrightarrow> line_child ns c"
  by (simp add: line_child_def)

lemma write_subs_frame:
  assumes "t \<noteq> None \<longrightarrow> the t \<in> set (string_positions ns el)"
  shows "same_frame ns el (write_subs t want el)"
proof (cases t)
  case (Some i)
  then have "has_tag ''String'' ns (el_children el ! i)" using assms string_position_child by fastforce
  then show ?thesis
    by (simp add: Some same_frame_def write_subs_def filter_list_update String_line_child)
qed (simp add: write_subs_def)

lemma apply_subs_frame: "same_frame ns el (apply_subs ns lm el)"
proof -
  let ?el1 = "write_subs (subs_target ns lm el) (desired_subs lm) el"
  have "same_frame ns el ?el1"
    by (rule write_subs_frame) (auto dest: subs_target_position)
  moreover have "same_frame ns ?el1 (write_subs (forward_subs_target ns lm ?el1) (desired_forward_subs lm) ?el1)"
    by (rule write_subs_frame) (auto dest: forward_target_position)
  ultimately show ?thesis unfolding apply_subs_def Let_def by (rule same_frame_trans)
qed

lemma update_content_tag [simp]: "has_tag l ns (update_content u w c) = has_tag l ns c"
  by (simp add: update_content_def Let_def)

lemma update_strings_frame:
  "filter (\<lambda>c. \<not> line_child ns c) (update_strings u ns ws cs) = filter (\<lambda>c. \<not> line_child ns c) cs"
proof (induction u ns ws cs rule: update_strings.induct)
  case (2 u ns ws c cs)
  then show ?case by (cases ws) (auto simp: line_child_def)
qed simp

lemma update_in_place_frame:
  "update_content_in_place u ns t el = Some el' \<Longrightarrow> same_frame ns el el'"
  by (auto simp: update_content_in_place_def Let_def same_frame_def update_strings_frame split: if_splits)

lemma emit_sp_tag [simp]: "has_tag l ns (emit_sp ns sps n x w y) \<longleftrightarrow> l = ''SP''"
  by (auto simp: emit_sp_def Let_def)

lemma emit_string_tag [simp]:
  "has_tag l ns (fst (emit_string u ns r n line t x w y h used)) \<longleftrightarrow> l = ''String''"
  by (auto simp: emit_string_def Let_def)

lemma trailing_hyp_tag [simp]: "has_tag l ns (append_trailing_hyp ns o_hyp x y w h) \<longleftrightarrow> l = ''HYP''"
  by (auto simp: append_trailing_hyp_def Let_def split: option.split)

lemma emit_tokens_line_children:
  "c \<in> set (fst (emit_tokens u ns line strings sps al y h geo m n used lw)) \<Longrightarrow> line_child ns c"
proof (induction u ns line strings sps al y h geo m n used lw rule: emit_tokens.induct)
  case (2 u ns line strings sps al y h token x w geo str_n sp_n used last_word)
  show ?case
  proof (cases "is_space_token token")
    case True
    with 2(1) [OF True] 2(3) show ?thesis by (auto simp: line_child_def split: prod.splits)
  next
    case False
    let ?r = "case source_for_target al str_n of None \<Rightarrow> None | Some i \<Rightarrow> Some (strings ! i)"
    obtain s used' where s: "emit_string u ns ?r str_n line token x w y h used = (s, used')" by fastforce
    then have "has_tag ''String'' ns s" by (metis emit_string_tag fst_conv)
    with 2(2) [OF False refl s [symmetric] refl] 2(3) False s show ?thesis
      by (auto simp: String_line_child Let_def split: prod.splits)
  qed
qed simp

lemma reserve_space_line_children:
  "c \<in> set (fst (reserve_break_space ns sps n x w y wanted)) \<Longrightarrow> line_child ns c"
  by (auto simp: reserve_break_space_def Let_def line_child_def split: if_splits)

lemma no_line_children: "\<forall>c \<in> set cs. line_child ns c \<Longrightarrow> filter (\<lambda>c. \<not> line_child ns c) cs = []"
  by (simp add: filter_empty_conv)

lemma clear_line_children: "el_children (clear_line ns el) = filter (\<lambda>c. \<not> line_child ns c) (el_children el)"
  by (simp add: clear_line_def line_child_def)

lemma append_cleared_frame:
  "\<forall>c \<in> set cs. line_child ns c \<Longrightarrow> same_frame ns el (append_children cs (clear_line ns el))"
  by (simp add: same_frame_def append_children_def clear_line_children no_line_children)
    (simp add: clear_line_def)

lemma hyp_children_line: "c \<in> set (get_hyp_children ns el) \<Longrightarrow> line_child ns c"
  by (simp add: get_hyp_children_def children_tagged_def line_child_def)

section \<open>Reading a rebuilt line\<close>

definition token_text :: "unicode \<Rightarrow> ptext \<Rightarrow> ptext" where
  "token_text u t = (if is_space_token t then [32] else clean_content u t)"

definition read_children :: "string \<Rightarrow> bool \<Rightarrow> ptext \<Rightarrow> xml list \<Rightarrow> ptext" where
  "read_children ns v acc cs = foldl (add_child_text ns v) acc cs"

lemma read_children_simps [simp]:
  "read_children ns v acc [] = acc"
  "read_children ns v acc (c # cs) = read_children ns v (add_child_text ns v acc c) cs"
  "read_children ns v acc (cs @ ds) = read_children ns v (read_children ns v acc cs) ds"
  by (simp_all add: read_children_def)

lemma reconstruct_read: "reconstruct_textline u ns v el = nfc u (read_children ns v [] (el_children el))"
  by (simp add: reconstruct_textline_def read_children_def)

lemma add_other [simp]: "\<not> line_child ns c \<Longrightarrow> add_child_text ns v acc c = acc"
  by (simp add: add_child_text_def line_child_def)

lemma read_line_children:
  "read_children ns v acc cs = read_children ns v acc (filter (line_child ns) cs)"
  by (induction cs arbitrary: acc) simp_all

lemma add_string: "has_tag ''String'' ns c \<Longrightarrow> add_child_text ns v acc c = acc @ or_else (get_attr ''CONTENT'' c) []"
  by (simp add: add_child_text_def)

lemma add_sp: "has_tag ''SP'' ns c \<Longrightarrow> add_child_text ns v acc c = acc @ [32]"
  using has_tag_unique by (fastforce simp: add_child_text_def)

lemma add_hyp: "has_tag ''HYP'' ns c \<Longrightarrow>
    add_child_text ns v acc c =
      (if hyp_text v c \<noteq> [] \<and> \<not> ends_in (set DEDUP_MARKS) acc then acc @ hyp_text v c else acc)"
  using has_tag_unique by (fastforce simp: add_child_text_def Let_def)

lemma emit_string_content [simp]:
  "get_attr ''CONTENT'' (fst (emit_string u ns r n line t x w y h used)) = Some (clean_content u t)"
  by (simp add: emit_string_def Let_def get_attr_def)

lemma emit_tokens_space:
  "is_space_token t \<Longrightarrow>
   emit_tokens u ns line strings sps al y h ((t, x, w) # geo) m n used lw =
     (emit_sp ns sps n x w y # fst (emit_tokens u ns line strings sps al y h geo m (n + 1) used lw),
      snd (emit_tokens u ns line strings sps al y h geo m (n + 1) used lw))"
  by (simp split: prod.split)

definition recycled_string :: "xml list \<Rightarrow> token_alignment \<Rightarrow> nat \<Rightarrow> xml option" where
  "recycled_string strings al m = (case source_for_target al m of None \<Rightarrow> None | Some i \<Rightarrow> Some (strings ! i))"

lemma emit_tokens_word:
  "\<not> is_space_token t \<Longrightarrow>
   emit_tokens u ns line strings sps al y h ((t, x, w) # geo) m n used lw =
     (let e = emit_string u ns (recycled_string strings al m) m line t x w y h used;
          rest = emit_tokens u ns line strings sps al y h geo (m + 1) n (snd e) (x, w)
      in (fst e # fst rest, snd rest))"
  by (simp add: recycled_string_def Let_def split: prod.split)

declare emit_tokens.simps(2) [simp del]

lemma read_emitted:
  "read_children ns v acc (fst (emit_tokens u ns line strings sps al y h geo m n used lw)) =
     acc @ concat (map (\<lambda>b. token_text u (fst b)) geo)"
proof (induction geo arbitrary: acc m n used lw)
  case (Cons b geo)
  obtain t x w where b: "b = (t, x, w)" by (cases b)
  show ?case
  proof (cases "is_space_token t")
    case True
    then show ?thesis by (simp add: b emit_tokens_space Cons.IH add_sp token_text_def)
  next
    case False
    then show ?thesis
      by (simp add: b emit_tokens_word Let_def Cons.IH add_string token_text_def or_else_def)
  qed
qed simp

lemma geometry_tokens:
  assumes "\<forall>t \<in> set ts. t \<noteq> []" shows "map fst (compute_geometry x w ts) = ts"
  using geometry_tiles [of ts x w] assms by (cases "ts = []") (simp_all add: compute_geometry_def)

lemma cleared_reads: "read_children ns v acc (el_children (clear_line ns el)) = acc"
proof -
  have "filter (line_child ns) (el_children (clear_line ns el)) = []"
    by (simp add: clear_line_children filter_empty_conv)
  then show ?thesis by (subst read_line_children) simp
qed

text \<open>The mark that ends a rebuilt line with an explicit break.\<close>

definition break_mark :: "bool \<Rightarrow> xml list \<Rightarrow> ptext" where
  "break_mark v hyps = (if hyps = [] then [45] else hyp_text v (hd hyps))"

lemma map_of_without_geometry:
  "k \<notin> set GEOMETRY \<Longrightarrow> map_of (without_geometry d) k = map_of d k"
  by (induction d) (auto simp: without_geometry_def)

lemma trailing_hyp_text:
  "hyp_text v (append_trailing_hyp ns (if hyps \<noteq> [] then Some (hd hyps) else None) x y w h) = break_mark v hyps"
proof -
  have g: "''CONTENT'' \<notin> set GEOMETRY" by (simp add: GEOMETRY_def)
  show ?thesis
    by (auto simp: break_mark_def hyp_text_def append_trailing_hyp_def Let_def get_attr_def or_else_def
        map_of_without_geometry [OF g] MARK_SUBSTITUTIONS_def split: option.split)
qed

text \<open>The pieces of a rebuild, by name.\<close>

definition kept_hyp :: "string \<Rightarrow> xml \<Rightarrow> xml option" where
  "kept_hyp ns el = (if get_hyp_children ns el \<noteq> [] then Some (hd (get_hyp_children ns el)) else None)"

definition break_slot :: "string \<Rightarrow> line_manifest \<Rightarrow> bool \<Rightarrow> int \<Rightarrow> xml \<Rightarrow> int \<times> int" where
  "break_slot ns lm sb w el = (if is_part1_like lm then reserve_break_slot (kept_hyp ns el) w sb else (0, w))"

definition emitted ::
  "unicode \<Rightarrow> string \<Rightarrow> line_manifest \<Rightarrow> bool \<Rightarrow> ptext \<Rightarrow> xml \<Rightarrow> int \<times> int \<times> int \<times> int \<Rightarrow>
   xml list \<times> nat \<times> int \<times> int" where
  "emitted u ns lm sb corrected el box =
     (case box of (x, y, w, h) \<Rightarrow>
        let strings = get_string_children ns el; tokens = tokenize corrected;
            al = line_alignment strings (filter (\<lambda>t. \<not> is_space_token t) tokens)
        in emit_tokens u ns (line_id lm) strings (get_sp_children ns el) al y h
             (compute_geometry x (snd (break_slot ns lm sb w el)) tokens) 0 0
             (List.map_filter (\<lambda>i. get_id (strings ! i)) (matched_sources al))
             (x, fst (break_slot ns lm sb w el)))"

definition line_tail ::
  "unicode \<Rightarrow> string \<Rightarrow> line_manifest \<Rightarrow> bool \<Rightarrow> ptext \<Rightarrow> xml \<Rightarrow> int \<times> int \<times> int \<times> int \<Rightarrow> xml list" where
  "line_tail u ns lm sb corrected el box =
     (case box of (x, y, w, h) \<Rightarrow>
        if \<not> is_part1_like lm then (if hyphen_role lm \<noteq> PART2 then get_hyp_children ns el else [])
        else if corrected = [] then
          [append_trailing_hyp ns (kept_hyp ns el) (x + snd (break_slot ns lm sb w el)) y
             (fst (break_slot ns lm sb w el)) h]
        else
          (let (cs, n, lx, lw) = emitted u ns lm sb corrected el box;
               (sp, bx, bw) = reserve_break_space ns (get_sp_children ns el) n (lx + lw)
                                (fst (break_slot ns lm sb w el)) y sb
           in sp @ [append_trailing_hyp ns (kept_hyp ns el) bx y bw h]))"

lemma rebuild_children:
  assumes "line_box el = Inr box"
  shows "\<exists>ls mv. rebuild_line u ns lm sb t el =
    Inr (append_children (fst (emitted u ns lm sb (py_strip t) el box) @
                          line_tail u ns lm sb (py_strip t) el box) (clear_line ns el), ls, mv)"
proof -
  obtain x y w h where box: "box = (x, y, w, h)" by (cases box)
  have hyp: "(if is_part1_like lm \<and> get_hyp_children ns el \<noteq> [] then Some (hd (get_hyp_children ns el)) else None) =
      (if is_part1_like lm then kept_hyp ns el else None)"
    by (simp add: kept_hyp_def)
  show ?thesis
  proof (cases "py_strip t = []")
    case True
    then show ?thesis
      using assms by (simp add: box rebuild_line_def Let_def emitted_def line_tail_def break_slot_def
        compute_geometry_def kept_hyp_def split: prod.split) blast
  next
    case False
    then show ?thesis
      using assms by (simp add: box rebuild_line_def Let_def emitted_def line_tail_def break_slot_def
        kept_hyp_def split: prod.split)
  qed
qed

lemma rebuild_box:
  assumes "rebuild_line u ns lm sb t el = Inr res" shows "\<exists>box. line_box el = Inr box"
proof (cases "line_box el")
  case (Inl e)
  then have "rebuild_line u ns lm sb t el = Inl e" by (simp add: rebuild_line_def Let_def)
  with assms show ?thesis by simp
qed blast

lemma rebuild_childrenE:
  assumes "rebuild_line u ns lm sb t el = Inr (el', ls, mv)"
  obtains box where "line_box el = Inr box"
    "el' = append_children (fst (emitted u ns lm sb (py_strip t) el box) @
                            line_tail u ns lm sb (py_strip t) el box) (clear_line ns el)"
  using rebuild_box [OF assms] rebuild_children [of el _ u ns lm sb t] assms by force

lemma emitted_reads:
  "read_children ns v acc (fst (emitted u ns lm sb corrected el box)) =
     acc @ concat (map (token_text u) (tokenize corrected))"
proof -
  obtain x y w h where box: "box = (x, y, w, h)" by (cases box)
  have "\<forall>t \<in> set (tokenize corrected). t \<noteq> []" using tokenize_nonempty by blast
  then have g: "map fst (compute_geometry x tw (tokenize corrected)) = tokenize corrected" for tw
    by (rule geometry_tokens)
  have "map (\<lambda>b. token_text u (fst b)) (compute_geometry x tw (tokenize corrected)) =
      map (token_text u) (map fst (compute_geometry x tw (tokenize corrected)))" for tw
    by simp
  then have "map (\<lambda>b. token_text u (fst b)) (compute_geometry x tw (tokenize corrected)) =
      map (token_text u) (tokenize corrected)" for tw
    unfolding g .
  then show ?thesis by (simp add: box emitted_def Let_def read_emitted)
qed

lemma emitted_line_children: "c \<in> set (fst (emitted u ns lm sb corrected el box)) \<Longrightarrow> line_child ns c"
  by (cases box) (auto simp: emitted_def Let_def dest: emit_tokens_line_children)

lemma line_tail_children:
  assumes "c \<in> set (line_tail u ns lm sb corrected el box)" shows "line_child ns c"
proof (cases "is_part1_like lm")
  case False
  then show ?thesis
    using assms hyp_children_line by (cases box) (auto simp: line_tail_def split: if_splits)
next
  case True
  obtain x y w h where box: "box = (x, y, w, h)" by (cases box)
  obtain cs n lx lw where em: "emitted u ns lm sb corrected el box = (cs, n, lx, lw)"
    by (cases "emitted u ns lm sb corrected el box")
  obtain sp bx bw where sp: "reserve_break_space ns (get_sp_children ns el) n (lx + lw)
      (fst (break_slot ns lm sb w el)) y sb = (sp, bx, bw)" by (metis prod_cases3)
  have "\<forall>c \<in> set sp. line_child ns c" using reserve_space_line_children sp by (metis fst_conv)
  moreover have "line_child ns (append_trailing_hyp ns o_hyp a b d e)" for o_hyp a b d e
    by (simp add: line_child_def)
  moreover have "\<exists>a b d e. c \<in> set sp \<or> c = append_trailing_hyp ns (kept_hyp ns el) a b d e"
    using assms True em [unfolded box] sp by (auto simp: box line_tail_def split: if_splits)
  ultimately show ?thesis by blast
qed

text \<open>The frame of a rebuilt line.\<close>

lemma rebuild_frame:
  "rebuild_line u ns lm sb t el = Inr (el', ls, mv) \<Longrightarrow> same_frame ns el el'"
proof (erule rebuild_childrenE)
  fix box
  assume "el' = append_children (fst (emitted u ns lm sb (py_strip t) el box) @
      line_tail u ns lm sb (py_strip t) el box) (clear_line ns el)"
  moreover have "\<forall>c \<in> set (fst (emitted u ns lm sb (py_strip t) el box) @
      line_tail u ns lm sb (py_strip t) el box). line_child ns c"
    by (auto dest: emitted_line_children line_tail_children)
  ultimately show "same_frame ns el el'" using append_cleared_frame by blast
qed

text \<open>A rebuilt line reads as the tokens of its text, then whatever its tail says.\<close>

lemma rebuild_read:
  assumes "rebuild_line u ns lm sb t el = Inr (el', ls, mv)"
  obtains box where "line_box el = Inr box"
    "reconstruct_textline u ns v el' =
       nfc u (read_children ns v (concat (map (token_text u) (tokenize (py_strip t))))
                (line_tail u ns lm sb (py_strip t) el box))"
proof (rule rebuild_childrenE [OF assms])
  fix box
  assume box: "line_box el = Inr box"
    and "el' = append_children (fst (emitted u ns lm sb (py_strip t) el box) @
      line_tail u ns lm sb (py_strip t) el box) (clear_line ns el)"
  then show thesis
    using that [OF box] by (simp add: reconstruct_read append_children_def cleared_reads emitted_reads)
qed

lemma plain_tail:
  "\<not> is_part1_like lm \<Longrightarrow> get_hyp_children ns el = [] \<Longrightarrow> line_tail u ns lm sb corrected el box = []"
  by (cases box) (simp add: line_tail_def)

text \<open>The tail of a line with an explicit break: the space that stands before the mark, when one is
  wanted and the slot can hold it, and the mark.\<close>

lemma break_tail:
  assumes "is_part1_like lm" "corrected \<noteq> []"
  shows "read_children ns v acc (line_tail u ns lm sb corrected el (x, y, w, h)) =
    (let acc' = acc @ (if sb \<and> 2 \<le> fst (break_slot ns lm sb w el) then [32] else []);
         m = break_mark v (get_hyp_children ns el)
     in if m \<noteq> [] \<and> \<not> ends_in (set DEDUP_MARKS) acc' then acc' @ m else acc')"
proof -
  obtain cs n lx lw where em: "emitted u ns lm sb corrected el (x, y, w, h) = (cs, n, lx, lw)"
    by (cases "emitted u ns lm sb corrected el (x, y, w, h)")
  obtain sp bx bw where sp: "reserve_break_space ns (get_sp_children ns el) n (lx + lw)
      (fst (break_slot ns lm sb w el)) y sb = (sp, bx, bw)" by (metis prod_cases3)
  have "read_children ns v acc sp = acc @ (if sb \<and> 2 \<le> fst (break_slot ns lm sb w el) then [32] else [])"
    using sp by (auto simp: reserve_break_space_def Let_def add_sp split: if_splits)
  then show ?thesis
    using assms em sp by (simp add: line_tail_def add_hyp kept_hyp_def trailing_hyp_text Let_def)
qed

section \<open>Plain texts\<close>

text \<open>A decided text the format can carry as it stands: no edge white space, one space between words,
  no character the writer removes, in normal form.\<close>

definition plain_text :: "unicode \<Rightarrow> ptext \<Rightarrow> bool" where
  "plain_text u t \<longleftrightarrow>
     py_strip t = t \<and> list_all content_char t \<and>
     list_all (\<lambda>tok. is_space_token tok \<longrightarrow> tok = [32]) (tokenize t) \<and>
     nfc u t = t \<and> list_all (\<lambda>w. nfc u w = w) (word_tokens t)"

lemma token_chars: "tok \<in> set (tokenize t) \<Longrightarrow> set tok \<subseteq> set t"
  by (metis Union_upper concat_tokenize image_eqI set_concat)

lemma plain_clean:
  assumes "plain_text u t" "w \<in> set (word_tokens t)" shows "clean_content u w = w"
proof -
  have "set w \<subseteq> set t" using assms(2) token_chars by (simp add: word_tokens_def)
  then have "\<forall>c \<in> set w. content_char c" using assms(1) by (auto simp: plain_text_def list_all_iff)
  moreover have "nfc u w = w" using assms by (simp add: plain_text_def list_all_iff)
  ultimately show ?thesis by (simp add: clean_content_eq filter_id_conv)
qed

lemma plain_tokens: "plain_text u t \<Longrightarrow> concat (map (token_text u) (tokenize t)) = t"
proof -
  assume p: "plain_text u t"
  have "token_text u tok = tok" if "tok \<in> set (tokenize t)" for tok
  proof (cases "is_space_token tok")
    case True
    with p that have "tok = [32]" by (simp add: plain_text_def list_all_iff)
    then show ?thesis using True by (simp add: token_text_def)
  next
    case False
    with that have "tok \<in> set (word_tokens t)" by (simp add: word_tokens_def)
    then show ?thesis using False plain_clean [OF p] by (simp add: token_text_def)
  qed
  then have "map (token_text u) (tokenize t) = tokenize t" by (intro map_idI)
  then show ?thesis by simp
qed

lemma plain_canonical: "plain_text u t \<Longrightarrow> py_strip (filter (\<lambda>c. c \<noteq> 13) t) = t"
proof -
  assume p: "plain_text u t"
  have "\<forall>c \<in> set t. c \<noteq> 13" using p by (auto simp: plain_text_def list_all_iff content_char_def)
  then have "filter (\<lambda>c. c \<noteq> 13) t = t" by (simp add: filter_id_conv)
  with p show ?thesis by (simp add: plain_text_def)
qed

text \<open>Words with one space between them.\<close>

fun spaced :: "ptext list \<Rightarrow> ptext" where
  "spaced [] = []"
| "spaced [w] = w"
| "spaced (w # v # ws) = w @ 32 # spaced (v # ws)"

lemma spaced_tokens:
  assumes "successively (\<lambda>a b. is_space_token a \<noteq> is_space_token b) ts"
    and "ts = [] \<or> \<not> is_space_token (hd ts) \<and> \<not> is_space_token (last ts)"
    and "\<forall>t \<in> set ts. is_space_token t \<longrightarrow> t = [32]"
  shows "concat ts = spaced (filter (\<lambda>t. \<not> is_space_token t) ts)"
  using assms
proof (induction ts rule: induct_list012)
  case (3 a b ts)
  then have a: "\<not> is_space_token a" and b: "is_space_token b" "b = [32]" by auto
  show ?case
  proof (cases ts)
    case Nil
    with 3(4) b show ?thesis by simp
  next
    case (Cons c cs)
    with 3(3) b have c: "\<not> is_space_token c" by simp
    with 3(1,3,4,5) Cons have "concat ts = spaced (filter (\<lambda>t. \<not> is_space_token t) ts)" by simp
    with a b c Cons show ?thesis by simp
  qed
qed auto

lemma last_token_word:
  assumes "tokenize s \<noteq> []" "py_strip s = s" shows "\<not> is_space_token (last (tokenize s))"
proof
  let ?l = "last (tokenize s)"
  assume sp: "is_space_token ?l"
  then have "?l \<noteq> []" "breaking (last ?l)" by (auto simp: is_space_token_def list_all_iff)
  moreover have "last s = last ?l"
  proof -
    have "s = concat (butlast (tokenize s)) @ ?l"
      using assms(1) by (metis append_butlast_last_id concat_append concat_tokenize concat.simps append_Nil2)
    then show ?thesis using \<open>?l \<noteq> []\<close> by (metis last_appendR)
  qed
  ultimately have "is_space (last s)" by (simp add: breaking_def)
  moreover have "s \<noteq> []" using assms(1) by simp
  ultimately show False using strip_last [OF assms(2)] by simp
qed

lemma plain_spaced: "plain_text u t \<Longrightarrow> spaced (word_tokens t) = t"
proof -
  assume p: "plain_text u t"
  have "tokenize t = [] \<or> \<not> is_space_token (hd (tokenize t)) \<and> \<not> is_space_token (last (tokenize t))"
  proof (cases "tokenize t")
    case (Cons a as)
    with p first_token_word [OF Cons] last_token_word [of t] show ?thesis by (simp add: plain_text_def)
  qed simp
  moreover have "\<forall>tok \<in> set (tokenize t). is_space_token tok \<longrightarrow> tok = [32]"
    using p by (simp add: plain_text_def list_all_iff)
  ultimately have "concat (tokenize t) = spaced (word_tokens t)"
    unfolding word_tokens_def by (intro spaced_tokens tokens_alternate)
  then show ?thesis by simp
qed

section \<open>Reading a line after its markers or contents were written\<close>

lemma read_update_same:
  assumes "\<And>acc. add_child_text ns v acc d = add_child_text ns v acc (cs ! i)"
  shows "read_children ns v acc (cs[i := d]) = read_children ns v acc cs"
  using assms by (induction cs arbitrary: i acc) (auto split: nat.split)

lemma set_subs_content [simp]: "get_attr ''CONTENT'' (set_subs_on_element want c) = get_attr ''CONTENT'' c"
  by (simp add: set_subs_on_element_def split: prod.split)

lemma add_child_cong:
  assumes "\<And>l. has_tag l ns a = has_tag l ns b" "get_attr ''CONTENT'' a = get_attr ''CONTENT'' b"
  shows "add_child_text ns v acc a = add_child_text ns v acc b"
  using assms by (simp add: add_child_text_def hyp_text_def)

lemma write_subs_reads:
  "read_children ns v acc (el_children (write_subs t want el)) = read_children ns v acc (el_children el)"
  by (cases t) (auto simp: write_subs_def intro!: read_update_same add_child_cong)

lemma apply_subs_reads [simp]:
  "reconstruct_textline u ns v (apply_subs ns lm el) = reconstruct_textline u ns v el"
  by (simp add: reconstruct_read apply_subs_def Let_def write_subs_reads)

text \<open>A line whose words stand in one \<open>String\<close> each, with one \<open>SP\<close> between two of them.\<close>

fun words_shape :: "string \<Rightarrow> xml list \<Rightarrow> bool" where
  "words_shape ns [] \<longleftrightarrow> True"
| "words_shape ns [s] \<longleftrightarrow> has_tag ''String'' ns s"
| "words_shape ns [s, p] \<longleftrightarrow> False"
| "words_shape ns (s # p # q # cs) \<longleftrightarrow>
     has_tag ''String'' ns s \<and> has_tag ''SP'' ns p \<and> words_shape ns (q # cs)"

definition regular_line :: "string \<Rightarrow> xml \<Rightarrow> bool" where
  "regular_line ns el \<longleftrightarrow> words_shape ns (filter (line_child ns) (el_children el))"

lemma update_strings_line:
  "filter (line_child ns) (update_strings u ns ws cs) = update_strings u ns ws (filter (line_child ns) cs)"
proof (induction u ns ws cs rule: update_strings.induct)
  case (2 u ns ws c cs)
  then show ?case by (cases ws) (auto simp: line_child_def)
qed simp

lemma update_content_text [simp]: "get_attr ''CONTENT'' (update_content u w c) = Some (clean_content u w)"
  by (simp add: update_content_def Let_def)

lemma SP_not_String: "has_tag ''SP'' ns p \<Longrightarrow> \<not> has_tag ''String'' ns p"
  by (auto dest: has_tag_unique)

lemma read_updated:
  assumes "words_shape ns cs" "length ws = length (filter (has_tag ''String'' ns) cs)"
  shows "read_children ns v acc (update_strings u ns ws cs) = acc @ spaced (map (clean_content u) ws)"
  using assms
proof (induction ns cs arbitrary: ws acc rule: words_shape.induct)
  case (2 ns s)
  then obtain w where "ws = [w]" by (auto simp: length_Suc_conv)
  with 2 show ?case by (simp add: add_string or_else_def)
next
  case (4 ns s p q cs)
  then have tags: "has_tag ''String'' ns s" "has_tag ''SP'' ns p" "\<not> has_tag ''String'' ns p"
    by (auto dest: SP_not_String)
  have "has_tag ''String'' ns q" using 4(2) by (cases cs rule: list.exhaust; cases "tl cs") auto
  with 4(3) tags obtain w w' ws' where ws: "ws = w # w' # ws'"
    and "length (w' # ws') = length (filter (has_tag ''String'' ns) (q # cs))"
    by (auto simp: length_Suc_conv)
  with 4(1) [of "w' # ws'" "acc @ clean_content u w @ [32]"] 4(2) tags show ?case
    by (simp add: add_string add_sp or_else_def)
qed auto

lemma in_place_reads:
  assumes "update_content_in_place u ns t el = Some el'" "regular_line ns el"
  shows "reconstruct_textline u ns v el' = nfc u (spaced (map (clean_content u) (word_tokens t)))"
proof -
  let ?lc = "filter (line_child ns) (el_children el)"
  have len: "length (word_tokens t) = length (get_string_children ns el)"
    and el': "el' = set_children (update_strings u ns (word_tokens t) (el_children el)) el"
    using assms(1) by (auto simp: update_content_in_place_def Let_def split: if_splits)
  have "filter (has_tag ''String'' ns) ?lc = filter (has_tag ''String'' ns) (el_children el)"
    by (auto simp: line_child_def intro!: filter_cong)
  then have "length (word_tokens t) = length (filter (has_tag ''String'' ns) ?lc)"
    using len by (simp add: get_string_children_def children_tagged_def)
  with assms(2) have "read_children ns v [] (update_strings u ns (word_tokens t) ?lc) =
      spaced (map (clean_content u) (word_tokens t))"
    by (simp add: regular_line_def read_updated)
  then show ?thesis
    unfolding el' reconstruct_read
    by (subst read_line_children) (simp add: update_strings_line)
qed

section \<open>One line\<close>

text \<open>The four paths of a rewrite.\<close>

lemma rewrite_line_cases:
  assumes "rewrite_line u ns lm el = Inr res"
  obtains (untouched) "lw_path res = ''untouched''" "lw_element res = el" "lw_losses res = []"
      "line_text_unchanged u ns el (or_else (corrected_text lm) (ocr_text lm))" "\<not> subs_need_update ns lm el"
    | (subs) "lw_path res = ''subs_only''" "lw_element res = apply_subs ns lm el"
      "line_text_unchanged u ns el (or_else (corrected_text lm) (ocr_text lm))" "subs_need_update ns lm el"
    | (fast) t b el1 where "lw_path res = ''fast_path''" "lw_element res = apply_subs ns lm el1"
      "write_text_for lm (or_else (corrected_text lm) (ocr_text lm)) = (t, b)"
      "update_content_in_place u ns t el = Some el1"
    | (slow) t b el1 ls mv where "lw_path res = ''slow_path''" "lw_element res = apply_subs ns lm el1"
      "write_text_for lm (or_else (corrected_text lm) (ocr_text lm)) = (t, b)"
      "update_content_in_place u ns t el = None"
      "rebuild_line u ns lm b t el = Inr (el1, ls, mv)"
proof -
  let ?c = "or_else (corrected_text lm) (ocr_text lm)"
  obtain t b where w: "write_text_for lm ?c = (t, b)" by fastforce
  show thesis
  proof (cases "line_text_unchanged u ns el ?c")
    case True
    then show thesis using assms that(1,2) by (cases "subs_need_update ns lm el") (auto simp: rewrite_line_def Let_def)
  next
    case False
    show thesis
    proof (cases "update_content_in_place u ns t el")
      case (Some el1)
      then show thesis using assms False w that(3) by (auto simp: rewrite_line_def Let_def)
    next
      case None
      obtain el1 ls mv where r: "rebuild_line u ns lm b t el = Inr (el1, ls, mv)"
        using assms False w None
        by (cases "rebuild_line u ns lm b t el") (auto simp: rewrite_line_def Let_def)
      show thesis
        using assms False w None r that(4) by (auto simp: rewrite_line_def Let_def)
    qed
  qed
qed

text \<open>Whatever path a line takes, everything but its text children is as the source has it.\<close>

lemma rewrite_keeps_frame:
  assumes "rewrite_line u ns lm el = Inr res" shows "same_frame ns el (lw_element res)"
  using assms
proof (cases rule: rewrite_line_cases)
  case untouched
  then show ?thesis by simp
next
  case subs
  then show ?thesis using apply_subs_frame by simp
next
  case (fast t b el1)
  then show ?thesis using same_frame_trans [OF update_in_place_frame apply_subs_frame] by auto
next
  case (slow t b el1 ls mv)
  then show ?thesis using same_frame_trans [OF rebuild_frame apply_subs_frame] by auto
qed

text \<open>A plain decided text is what the written line reads as, on every path.\<close>

lemma rewrite_reads_back:
  assumes "rewrite_line u ns lm el = Inr res" "\<not> opens_unit (hyphen_role lm)"
    and "plain_text u (or_else (corrected_text lm) (ocr_text lm))"
    and "get_hyp_children ns el = []" "regular_line ns el"
  shows "canonical_line_text u ns (lw_element res) = or_else (corrected_text lm) (ocr_text lm)"
proof -
  let ?c = "or_else (corrected_text lm) (ocr_text lm)"
  have unchanged: "canonical_line_text u ns el = ?c" if "line_text_unchanged u ns el ?c"
    using that plain_canonical [OF assms(3)] assms(3) by (simp add: line_text_unchanged_def plain_text_def)
  have nfc: "nfc u ?c = ?c" and strip: "py_strip ?c = ?c" using assms(3) by (simp_all add: plain_text_def)
  have w: "write_text_for lm ?c = (?c, False)" using assms(2) by (simp add: write_text_for_def)
  have plain: "\<not> is_part1_like lm" using assms(2) by (simp add: is_part1_like_def)
  from assms(1) show ?thesis
  proof (cases rule: rewrite_line_cases)
    case untouched
    then show ?thesis using unchanged by simp
  next
    case subs
    then show ?thesis using unchanged by (simp add: canonical_line_text_def)
  next
    case (fast t b el1)
    have "map (clean_content u) (word_tokens ?c) = word_tokens ?c"
      using plain_clean [OF assms(3)] by (intro map_idI)
    with fast w in_place_reads [OF _ assms(5), of u t el1 False]
    show ?thesis using plain_spaced [OF assms(3)] plain_canonical [OF assms(3)] nfc
      by (simp add: canonical_line_text_def)
  next
    case (slow t b el1 ls mv)
    with w have t: "t = ?c" by simp
    obtain box where "reconstruct_textline u ns False el1 =
        nfc u (read_children ns False (concat (map (token_text u) (tokenize (py_strip t))))
          (line_tail u ns lm b (py_strip t) el box))"
      by (rule rebuild_read [OF slow(5)])
    then have "reconstruct_textline u ns False el1 = ?c"
      using plain_tail [OF plain assms(4)] plain_tokens [OF assms(3)] nfc strip by (simp add: t)
    with slow show ?thesis using plain_canonical [OF assms(3)] by (simp add: canonical_line_text_def)
  qed
qed

section \<open>An explicit break\<close>

lemma rstrip_mark:
  assumes "m \<in> set HYPHEN_CHARS" shows "py_rstrip (s @ [m]) = s @ [m]"
proof -
  have "list_all (\<lambda>c. \<not> is_space c) HYPHEN_CHARS" by (simp add: HYPHEN_CHARS_def is_space_def)
  then have "\<not> is_space m" using assms by (simp add: list_all_iff)
  then show ?thesis unfolding py_rstrip_def by (rule rstrip_of_append_last)
qed

lemma drop_mark: "m \<in> set HYPHEN_CHARS \<Longrightarrow> drop_structural_break_hyphen (s @ [m]) = s"
  by (simp add: drop_structural_break_hyphen_def rstrip_mark ends_in_def)

lemma rstrip_plain: "py_strip s = s \<Longrightarrow> py_rstrip s = s"
proof (cases "s = []")
  case False
  assume s: "py_strip s = s"
  have "rstrip_of is_space (butlast s @ [last s]) = butlast s @ [last s]"
    by (rule rstrip_of_append_last) (rule strip_last [OF s False])
  then show ?thesis using False by (simp add: py_rstrip_def)
qed (simp add: py_rstrip_def rstrip_of_def)

lemma rstrip_gap:
  assumes "gap = [] \<or> gap = [32]" shows "rstrip_of is_space (s @ gap) = rstrip_of is_space s"
proof -
  have "is_space 32" by (simp add: is_space_def)
  with assms have "\<forall>c \<in> set gap. is_space c" by auto
  then show ?thesis by (rule rstrip_of_append_all)
qed

lemma strip_gap: "py_strip s = s \<Longrightarrow> gap = [] \<or> gap = [32] \<Longrightarrow> py_strip (s @ gap) = s"
proof -
  assume s: "py_strip s = s" and g: "gap = [] \<or> gap = [32]"
  have "rstrip_of is_space (s @ gap) = rstrip_of is_space s"
    using g by (rule rstrip_gap)
  then have "py_strip (s @ gap) = py_strip s" by (simp only: py_strip_def strip_of_def)
  then show ?thesis by (simp only: s)
qed

lemma write_text_gap:
  assumes "opens_unit (hyphen_role lm)" "forward_break_is_explicit lm" "m \<in> set HYPHEN_CHARS"
    and "py_strip s = s" "gap = [] \<or> gap = [32]"
  shows "write_text_for lm (s @ gap @ [m]) = (s @ gap, gap \<noteq> [])"
proof -
  have "rstrip_of is_space (s @ gap) = rstrip_of is_space s"
    using assms(5) by (rule rstrip_gap)
  then have "py_rstrip (s @ gap) = s" using rstrip_plain [OF assms(4)] by (simp add: py_rstrip_def)
  then show ?thesis
    using assms drop_mark [OF assms(3), of "s @ gap"] by (auto simp: write_text_for_def)
qed

lemma slot_holds_space:
  assumes "3 \<le> w" shows "2 \<le> fst (reserve_break_slot o_hyp w True)"
proof -
  have "\<exists>v. fst (reserve_break_slot o_hyp w True) = min (max v 2) (max 1 (w - 1))"
    unfolding reserve_break_slot_def Let_def by (auto simp only: fst_conv simp_thms if_True)
  with assms show ?thesis by auto
qed

text \<open>A rebuilt line with an explicit break reads as its words, the space before the mark where the
  decision has one, and the mark of the source.\<close>

lemma rebuild_break_reads:
  assumes "rebuild_line u ns lm sb t el = Inr (el', ls, mv)"
    and "write_text_for lm (body @ gap @ [m]) = (t, sb)"
    and "opens_unit (hyphen_role lm)" "hyphen_source_explicit lm" "forward_break_is_explicit lm"
    and "plain_text u body" "body \<noteq> []" "last body \<notin> set HYPHEN_CHARS" "gap = [] \<or> gap = [32]"
    and "break_mark False (get_hyp_children ns el) = [m]" "m \<in> set HYPHEN_CHARS"
    and "line_box el = Inr (x, y, w, h)" "3 \<le> w"
  shows "reconstruct_textline u ns False el' = nfc u (body @ gap @ [m])"
proof -
  have part1: "is_part1_like lm" using assms(3,4) by (simp add: is_part1_like_def)
  have strip: "py_strip body = body" using assms(6) by (simp add: plain_text_def)
  have t: "t = body @ gap" and sb: "sb \<longleftrightarrow> gap \<noteq> []"
    using write_text_gap [OF assms(3,5,11) strip assms(9)] assms(2) by auto
  have pt: "py_strip t = body" using strip_gap [OF strip assms(9)] by (simp add: t)
  have read: "reconstruct_textline u ns False el' =
      nfc u (read_children ns False (concat (map (token_text u) (tokenize body)))
        (line_tail u ns lm sb body el (x, y, w, h)))"
  proof (rule rebuild_read [OF assms(1), where v = False])
    fix box
    assume "line_box el = Inr box" "reconstruct_textline u ns False el' =
        nfc u (read_children ns False (concat (map (token_text u) (tokenize (py_strip t))))
          (line_tail u ns lm sb (py_strip t) el box))"
    then show ?thesis using assms(12) pt by simp
  qed
  have "sb \<Longrightarrow> 2 \<le> fst (break_slot ns lm sb w el)"
    using slot_holds_space [OF assms(13)] part1 by (simp add: break_slot_def)
  then have gap: "(if sb \<and> 2 \<le> fst (break_slot ns lm sb w el) then [32] else []) = gap"
    using sb assms(9) by auto
  have "\<not> ends_in (set DEDUP_MARKS) (body @ gap)"
  proof -
    have "list_all (\<lambda>c. c \<noteq> 32) DEDUP_MARKS" by (simp add: DEDUP_MARKS_def HYPHEN_CHARS_def)
    then have "32 \<notin> set DEDUP_MARKS" by (auto simp: list_all_iff)
    moreover have "last body \<notin> set DEDUP_MARKS" using assms(8) by (simp add: DEDUP_MARKS_def)
    ultimately show ?thesis using assms(7,9) by (auto simp: ends_in_def)
  qed
  then show ?thesis
    unfolding read break_tail [OF part1 assms(7)] gap plain_tokens [OF assms(6)]
    using assms(10) by (simp add: Let_def)
qed

section \<open>The boxes of a rebuilt line\<close>

definition box_attrs :: "xml \<Rightarrow> ptext option \<times> ptext option" where
  "box_attrs c = (get_attr ''HPOS'' c, get_attr ''WIDTH'' c)"

definition written_box :: "int \<times> int \<Rightarrow> ptext option \<times> ptext option" where
  "written_box b = (Some (int_text (fst b)), Some (int_text (snd b)))"

lemma emit_sp_box [simp]: "box_attrs (emit_sp ns sps n x w y) = written_box (x, w)"
  by (simp add: box_attrs_def written_box_def emit_sp_def Let_def get_attr_def)

lemma emit_string_box [simp]:
  "box_attrs (fst (emit_string u ns r n line t x w y h used)) = written_box (x, w)"
  by (simp add: box_attrs_def written_box_def emit_string_def Let_def get_attr_def)

lemma trailing_hyp_box [simp]: "box_attrs (append_trailing_hyp ns o_hyp x y w h) = written_box (x, w)"
  by (simp add: box_attrs_def written_box_def append_trailing_hyp_def Let_def get_attr_def split: option.split)

lemma emitted_boxes:
  "map box_attrs (fst (emit_tokens u ns line strings sps al y h geo m n used lw)) =
     map written_box (map snd geo)"
proof (induction geo arbitrary: m n used lw)
  case (Cons b geo)
  obtain t x w where b: "b = (t, x, w)" by (cases b)
  show ?case
    by (cases "is_space_token t") (simp_all add: b emit_tokens_space emit_tokens_word Let_def Cons.IH)
qed simp

text \<open>The last word ends where the tokens end.\<close>

lemma emitted_end:
  assumes "tiles x0 (map snd geo) e" "geo \<noteq> []" "\<not> is_space_token (fst (last geo))"
    and "snd (emit_tokens u ns line strings sps al y h geo m n used lw) = (k, lx, lv)"
  shows "lx + lv = e"
  using assms
proof (induction geo arbitrary: m n used lw x0)
  case (Cons b geo)
  obtain t x w where b: "b = (t, x, w)" by (cases b)
  show ?case
  proof (cases geo)
    case Nil
    with Cons.prems show ?thesis by (auto simp: b emit_tokens_word Let_def)
  next
    case (Cons g gs)
    have last: "\<not> is_space_token (fst (last geo))" using Cons.prems(3) by (simp add: Cons)
    have tiles: "tiles (x + w) (map snd geo) e" using Cons.prems(1) by (auto simp: b)
    have ne: "geo \<noteq> []" by (simp add: Cons)
    show ?thesis
    proof (cases "is_space_token t")
      case True
      with Cons.prems(4) have "snd (emit_tokens u ns line strings sps al y h geo m (n + 1) used lw) = (k, lx, lv)"
        by (simp add: b emit_tokens_space)
      then show ?thesis by (rule Cons.IH [OF tiles ne last])
    next
      case False
      with Cons.prems(4) have "snd (emit_tokens u ns line strings sps al y h geo (m + 1) n
          (snd (emit_string u ns (recycled_string strings al m) m line t x w y h used)) (x, w)) = (k, lx, lv)"
        by (simp add: b emit_tokens_word Let_def)
      then show ?thesis by (rule Cons.IH [OF tiles ne last])
    qed
  qed
qed simp

lemma tiles_append: "tiles a xs b \<Longrightarrow> tiles b ys c \<Longrightarrow> tiles a (xs @ ys) c"
  by (induction a xs b rule: tiles.induct) auto

lemma slot_bounds:
  assumes "2 \<le> w" "reserve_break_slot o_hyp w sb = (slot, tw)"
  shows "1 \<le> slot \<and> slot + tw = w \<and> 1 \<le> tw"
  using assms by (auto simp: reserve_break_slot_def Let_def)

text \<open>The space before the mark is carved out of the slot.\<close>

lemma break_space_tiles:
  assumes "1 \<le> slot" "reserve_break_space ns sps n x slot y wanted = (sp, bx, bw)"
  shows "\<exists>boxes. map box_attrs sp = map written_box boxes \<and> tiles x (boxes @ [(bx, bw)]) (x + slot)"
proof (cases "\<not> wanted \<or> slot < 2")
  case True
  then show ?thesis using assms by (intro exI [of _ "[]"]) (auto simp: reserve_break_space_def)
next
  case False
  then show ?thesis
    using assms by (intro exI [of _ "[(x, max 1 (slot div 3))]"]) (auto simp: reserve_break_space_def Let_def)
qed

text \<open>The marks a rebuild restores as they were: those of a line it does not take for one that ends on an
  explicit break, unless the line only continues a word.\<close>

definition restored_hyps :: "string \<Rightarrow> line_manifest \<Rightarrow> xml \<Rightarrow> xml list" where
  "restored_hyps ns lm el =
     (if is_part1_like lm \<or> hyphen_role lm = PART2 then [] else get_hyp_children ns el)"

text \<open>A rebuilt line tiles its own box: the emitted children stand side by side from its left edge,
  each at least one unit wide, and end at its right edge when the line has room for its tokens; the restored
  marks come after them.\<close>

lemma rebuild_tiles:
  assumes "rebuild_line u ns lm sb t el = Inr (el', ls, mv)" "line_box el = Inr (x, y, w, h)"
    and "py_strip t \<noteq> []" "2 \<le> w"
    and room: "int (length (tokenize (py_strip t))) \<le> snd (break_slot ns lm sb w el)"
  shows "\<exists>cs boxes. filter (line_child ns) (el_children el') = cs @ restored_hyps ns lm el \<and>
                map box_attrs cs = map written_box boxes \<and> tiles x boxes (x + w)"
proof -
  let ?c = "py_strip t" and ?toks = "tokenize (py_strip t)"
  let ?tw = "snd (break_slot ns lm sb w el)" and ?slot = "fst (break_slot ns lm sb w el)"
  let ?geo = "compute_geometry x ?tw ?toks"
  obtain cs k lx lv where em: "emitted u ns lm sb ?c el (x, y, w, h) = (cs, k, lx, lv)"
    by (cases "emitted u ns lm sb ?c el (x, y, w, h)")
  have strip: "py_strip ?c = ?c" by (rule py_strip_idem)
  have ne: "\<forall>t \<in> set ?toks. t \<noteq> []" "?toks \<noteq> []" using tokenize_nonempty assms(3) by auto
  have geo: "map fst ?geo = ?toks" "tiles x (map snd ?geo) (x + ?tw)"
    using geometry_tiles [OF ne(2,1), of x ?tw] room by auto
  have cs: "map box_attrs cs = map written_box (map snd ?geo)"
  proof -
    have "cs = fst (emitted u ns lm sb ?c el (x, y, w, h))" by (simp add: em)
    then show ?thesis by (simp add: emitted_def Let_def emitted_boxes)
  qed
  have gne: "?geo \<noteq> []" using geo(1) ne(2) by force
  then have "fst (last ?geo) = last ?toks" using geo(1) by (metis last_map)
  then have last: "?geo \<noteq> []" "\<not> is_space_token (fst (last ?geo))"
    using gne last_token_word [OF ne(2) strip] by simp_all
  have end_x: "lx + lv = x + ?tw"
    using em unfolding emitted_def Let_def case_prod_conv
    by (intro emitted_end [OF geo(2) last]) (erule arg_cong [where f = snd, THEN trans], simp)
  have el': "filter (line_child ns) (el_children el') = cs @ line_tail u ns lm sb ?c el (x, y, w, h)"
  proof (rule rebuild_childrenE [OF assms(1)])
    fix box
    assume "line_box el = Inr box" "el' = append_children (fst (emitted u ns lm sb ?c el box) @
        line_tail u ns lm sb ?c el box) (clear_line ns el)"
    then have "el_children el' = filter (\<lambda>c. \<not> line_child ns c) (el_children el) @ cs @
        line_tail u ns lm sb ?c el (x, y, w, h)"
      using assms(2) em by (simp add: append_children_def clear_line_children)
    moreover have "\<forall>c \<in> set cs. line_child ns c"
      using emitted_line_children em by (metis fst_conv)
    moreover have "\<forall>c \<in> set (line_tail u ns lm sb ?c el (x, y, w, h)). line_child ns c"
      using line_tail_children by blast
    ultimately show ?thesis by (simp add: filter_id_conv filter_empty_conv)
  qed
  show ?thesis
  proof (cases "is_part1_like lm")
    case False
    then have "line_tail u ns lm sb ?c el (x, y, w, h) = restored_hyps ns lm el" "?tw = w"
      by (simp_all add: line_tail_def restored_hyps_def break_slot_def)
    with el' cs geo(2) show ?thesis by (intro exI [of _ cs] exI [of _ "map snd ?geo"]) simp
  next
    case True
    obtain sp bx bw where sp: "reserve_break_space ns (get_sp_children ns el) k (lx + lv) ?slot y sb = (sp, bx, bw)"
      by (metis prod_cases3)
    have slot: "1 \<le> ?slot" "?slot + ?tw = w"
      using slot_bounds [OF assms(4), of "kept_hyp ns el" sb] True
      by (cases "reserve_break_slot (kept_hyp ns el) w sb"; simp add: break_slot_def)+
    from break_space_tiles [OF slot(1) sp] obtain boxes where
      boxes: "map box_attrs sp = map written_box boxes"
        "tiles (x + ?tw) (boxes @ [(bx, bw)]) (x + ?tw + ?slot)" by (auto simp: end_x)
    have "line_tail u ns lm sb ?c el (x, y, w, h) = sp @ [append_trailing_hyp ns (kept_hyp ns el) bx y bw h]"
      using True assms(3) em sp by (simp add: line_tail_def)
    with el' True have "filter (line_child ns) (el_children el') =
        (cs @ sp @ [append_trailing_hyp ns (kept_hyp ns el) bx y bw h]) @ restored_hyps ns lm el"
      by (simp add: restored_hyps_def)
    moreover have "map box_attrs (cs @ sp @ [append_trailing_hyp ns (kept_hyp ns el) bx y bw h]) =
        map written_box (map snd ?geo @ boxes @ [(bx, bw)])" using cs boxes(1) by simp
    moreover have "tiles x (map snd ?geo @ boxes @ [(bx, bw)]) (x + w)"
      using tiles_append [OF geo(2) boxes(2)] slot(2) by (simp add: algebra_simps)
    ultimately show ?thesis by blast
  qed
qed

section \<open>Identifiers\<close>

lemma free_suffix_fresh: "free_suffix base used n \<notin> set used"
  by (induction base used n rule: free_suffix.induct) (subst free_suffix.simps; simp)

lemma generated_id_fresh: "generated_id line n used \<notin> set used"
  by (simp add: generated_id_def Let_def free_suffix_fresh)

lemma emit_string_id:
  "get_id (fst (emit_string u ns r m line t x w y h used)) =
     Some (or_else (case r of None \<Rightarrow> None | Some e \<Rightarrow> get_id e) (generated_id line m used))"
  "snd (emit_string u ns r m line t x w y h used) =
     or_else (case r of None \<Rightarrow> None | Some e \<Rightarrow> get_id e) (generated_id line m used) # used"
  by (simp_all add: emit_string_def Let_def get_id_def)

text \<open>The identifier the token at position \<open>m\<close> takes over.\<close>

definition recycled_id :: "xml list \<Rightarrow> token_alignment \<Rightarrow> nat \<Rightarrow> ident option" where
  "recycled_id strings al m = (case recycled_string strings al m of None \<Rightarrow> None | Some e \<Rightarrow> get_id e)"

definition string_ids :: "string \<Rightarrow> xml list \<Rightarrow> ident option list" where
  "string_ids ns cs = map get_id (filter (has_tag ''String'' ns) cs)"

text \<open>Every emitted identifier is taken over, or is in use nowhere before it is made.\<close>

lemma emitted_ids_distinct:
  assumes "\<forall>k i. recycled_id strings al k = Some i \<longrightarrow> i \<in> set used"
    and "\<forall>k l i. recycled_id strings al k = Some i \<longrightarrow> recycled_id strings al l = Some i \<longrightarrow> k = l"
  shows "distinct (string_ids ns (fst (emit_tokens u ns line strings sps al y h geo m n used lw))) \<and>
    (\<forall>v \<in> set (string_ids ns (fst (emit_tokens u ns line strings sps al y h geo m n used lw))).
       \<exists>i. v = Some i \<and> ((\<exists>k \<ge> m. recycled_id strings al k = Some i) \<or> i \<notin> set used))"
  using assms(1)
proof (induction geo arbitrary: m n used lw)
  case Nil
  then show ?case by (simp add: string_ids_def)
next
  case (Cons b geo)
  obtain t x w where b: "b = (t, x, w)" by (cases b)
  show ?case
  proof (cases "is_space_token t")
    case True
    then have "string_ids ns (fst (emit_tokens u ns line strings sps al y h (b # geo) m n used lw)) =
        string_ids ns (fst (emit_tokens u ns line strings sps al y h geo m (n + 1) used lw))"
      by (simp add: b emit_tokens_space string_ids_def)
    then show ?thesis by (simp only:) (rule Cons.IH [OF Cons.prems])
  next
    case False
    let ?i = "or_else (recycled_id strings al m) (generated_id line m used)"
    let ?e = "emit_string u ns (recycled_string strings al m) m line t x w y h used"
    let ?rest = "fst (emit_tokens u ns line strings sps al y h geo (m + 1) n (?i # used) (x, w))"
    have e: "get_id (fst ?e) = Some ?i" "snd ?e = ?i # used"
      by (simp_all add: emit_string_id recycled_id_def)
    have ids: "string_ids ns (fst (emit_tokens u ns line strings sps al y h (b # geo) m n used lw)) =
        Some ?i # string_ids ns ?rest"
      using False by (simp add: b emit_tokens_word Let_def string_ids_def e)
    have "\<forall>k i. recycled_id strings al k = Some i \<longrightarrow> i \<in> set (?i # used)" using Cons.prems by simp
    note IH = Cons.IH [OF this, of "m + 1" n "(x, w)"]
    have own: "recycled_id strings al m = Some ?i \<or> recycled_id strings al m = None \<and> ?i \<notin> set used"
      by (cases "recycled_id strings al m") (simp_all add: or_else_def generated_id_fresh)
    have "Some ?i \<notin> set (string_ids ns ?rest)"
    proof
      assume "Some ?i \<in> set (string_ids ns ?rest)"
      then obtain k where k: "k \<ge> m + 1" "recycled_id strings al k = Some ?i" using IH by auto
      then have "?i \<in> set used" using Cons.prems by blast
      with own have "recycled_id strings al m = Some ?i" by blast
      then have "k = m" using assms(2) k(2) by blast
      with k(1) show False by simp
    qed
    moreover have "\<exists>i. v = Some i \<and> ((\<exists>k \<ge> m. recycled_id strings al k = Some i) \<or> i \<notin> set used)"
      if "v \<in> set (string_ids ns ?rest)" for v
      using IH that by (metis add_leD1 list.set_intros(2))
    ultimately show ?thesis using IH own unfolding ids by auto
  qed
qed

text \<open>Where the alignment leads from a target position.\<close>

lemma source_for_target_pair:
  assumes "source_for_target al j = Some i"
  shows "\<exists>p \<in> set (pairs al). target_index p = Some j \<and> source_index p = Some i"
proof -
  have "map_of (foldl (\<lambda>d p. case target_index p of None \<Rightarrow> d
              | Some t \<Rightarrow> dict_set t (source_index p) d) [] ps) j = Some s \<Longrightarrow>
        \<exists>p \<in> set ps. target_index p = Some j \<and> source_index p = s" for ps s
    by (induction ps arbitrary: s rule: rev_induct) (auto split: option.splits if_splits)
  then show ?thesis using assms by (auto simp: source_for_target_def split: option.splits)
qed

lemma map_filter_unique:
  assumes "distinct (List.map_filter f xs)" "p \<in> set xs" "q \<in> set xs" "f p = Some i" "f q = Some i"
    "g p = Some a" "g q = Some b" "distinct (List.map_filter g xs)"
  shows "a = b"
  using assms
proof (induction xs)
  case (Cons x xs)
  have mem: "f z = Some v \<Longrightarrow> z \<in> set xs \<Longrightarrow> v \<in> set (List.map_filter f xs)" for z v
    by (force simp: List.map_filter_def)
  from Cons show ?case by (auto simp: map_filter_simps dest: mem split: option.splits)
qed simp

text \<open>Two tokens never take over the same source \<open>String\<close>.\<close>

lemma source_for_target_inj:
  assumes "reads_once sim source target n m (pairs al)"
    and "source_for_target al j = Some i" "source_for_target al k = Some i"
  shows "j = k"
proof -
  from source_for_target_pair [OF assms(2)] source_for_target_pair [OF assms(3)] obtain p q where
    "p \<in> set (pairs al)" "target_index p = Some j" "source_index p = Some i"
    "q \<in> set (pairs al)" "target_index q = Some k" "source_index q = Some i" by blast
  moreover have "distinct (List.map_filter source_index (pairs al))"
    "distinct (List.map_filter target_index (pairs al))"
    using assms(1) by (simp_all add: reads_once_def source_walk_def target_walk_def)
  ultimately show ?thesis by (intro map_filter_unique [where f = source_index and g = target_index])
qed

lemma source_for_target_bound:
  assumes "reads_once sim source target n m (pairs al)" "source_for_target al j = Some i"
  shows "i < n"
proof -
  from source_for_target_pair [OF assms(2)] obtain p where
    "p \<in> set (pairs al)" "source_index p = Some i" by blast
  then have "i \<in> set (source_walk (pairs al))" by (force simp: source_walk_def List.map_filter_def)
  then show ?thesis using assms(1) by (simp add: reads_once_def)
qed

lemma line_alignment_reads:
  "reads_once char_similarity (map (\<lambda>s. or_else (get_attr ''CONTENT'' s) []) strings) words
     (length strings) (length words) (pairs (line_alignment strings words))"
  using characters.align_arrives [of None "map (\<lambda>s. or_else (get_attr ''CONTENT'' s) []) strings" words]
  by (auto simp: line_alignment_def)

lemma ids_apart:
  assumes "distinct (List.map_filter f xs)" "a < length xs" "b < length xs" "f (xs ! a) = Some i" "f (xs ! b) = Some i"
  shows "a = b"
  using assms
proof (induction xs arbitrary: a b)
  case (Cons x xs)
  have mem: "f (xs ! k) = Some v \<Longrightarrow> k < length xs \<Longrightarrow> v \<in> set (List.map_filter f xs)" for k v
    by (force simp: List.map_filter_def)
  show ?case
  proof (cases a; cases b)
    fix a' b' assume "a = Suc a'" "b = Suc b'"
    with Cons show ?thesis by (auto simp: map_filter_simps split: option.splits)
  qed (use Cons.prems mem in \<open>auto simp: map_filter_simps split: option.splits\<close>)
qed simp

text \<open>The \<open>String\<close>s of a rebuilt line carry pairwise distinct identifiers.\<close>

lemma emitted_distinct:
  assumes "distinct (List.map_filter get_id (get_string_children ns el))"
  shows "distinct (string_ids ns (fst (emitted u ns lm sb corrected el box)))"
proof -
  let ?strings = "get_string_children ns el"
  let ?words = "filter (\<lambda>t. \<not> is_space_token t) (tokenize corrected)"
  let ?al = "line_alignment ?strings ?words"
  note reads = line_alignment_reads [of ?strings ?words]
  have seeded: "i \<in> set (List.map_filter (\<lambda>i. get_id (?strings ! i)) (matched_sources ?al))"
    if "recycled_id ?strings ?al k = Some i" for k i
  proof -
    from that obtain j where j: "source_for_target ?al k = Some j" "get_id (?strings ! j) = Some i"
      by (auto simp: recycled_id_def recycled_string_def split: option.splits)
    from source_for_target_pair [OF j(1)] have "j \<in> set (matched_sources ?al)"
      by (force simp: matched_sources_def List.map_filter_def)
    with j(2) show ?thesis by (force simp: List.map_filter_def)
  qed
  have once: "k = l" if ids: "recycled_id ?strings ?al k = Some i" "recycled_id ?strings ?al l = Some i" for k l i
  proof -
    from ids obtain a b where a: "source_for_target ?al k = Some a" "get_id (?strings ! a) = Some i"
      and b: "source_for_target ?al l = Some b" "get_id (?strings ! b) = Some i"
      by (auto simp: recycled_id_def recycled_string_def split: option.splits)
    have "a < length ?strings" "b < length ?strings"
      using source_for_target_bound [OF reads] a(1) b(1) by blast+
    then have "a = b" using ids_apart [OF assms] a(2) b(2) by blast
    then show ?thesis using source_for_target_inj [OF reads] a(1) b(1) by blast
  qed
  obtain x y w h where box: "box = (x, y, w, h)" by (cases box)
  show ?thesis
    unfolding box emitted_def Let_def case_prod_conv
    using emitted_ids_distinct [of ?strings ?al
        "List.map_filter (\<lambda>i. get_id (?strings ! i)) (matched_sources ?al)"] seeded once by blast
qed

end
