(* ===== verification/Alto_Files.thy ===== *)
theory Alto_Files
  imports Alto_Lines
begin

text \<open>
  Facts about a whole ALTO file: the loop over its lines counts each addressed line once and keeps its
  ledger of losses; the tree it leaves differs from the source in the addressed lines and the
  processing step only; the texts it returns are the decisions. The properties of the ALTO writer
  stand at the end.
\<close>

section \<open>Losses are dictionaries\<close>

lemma distinct_count_key [simp]: "dict_keys_distinct d \<Longrightarrow> dict_keys_distinct (count_key k d)"
  by (simp add: count_key_def)

lemma distinct_lost_subs: "dict_keys_distinct d \<Longrightarrow> dict_keys_distinct (lost_subs w s d)"
  by (auto simp: lost_subs_def Let_def intro!: distinct_fold split: option.split)

lemma distinct_lost_attributes: "dict_keys_distinct d \<Longrightarrow> dict_keys_distinct (lost_attributes s d)"
  unfolding lost_attributes_def by (rule distinct_fold) (simp_all add: Let_def)

lemma distinct_semantic: "dict_keys_distinct (semantic_attr_losses strings lm)"
  unfolding semantic_attr_losses_def Let_def
  by (rule distinct_fold) (simp_all add: distinct_lost_attributes distinct_lost_subs)

lemma distinct_scoped: "dict_keys_distinct d \<Longrightarrow> dict_keys_distinct (add_alignment_scoped_losses d strings ms)"
  unfolding add_alignment_scoped_losses_def
  by (rule distinct_fold) (auto intro!: distinct_fold split: prod.split)

lemma distinct_confidence: "dict_keys_distinct (confidence_loss n ns el)"
  by (simp add: confidence_loss_def)

lemma rebuild_losses_distinct:
  assumes "rebuild_line u ns lm sb t el = Inr (el', ls, mv)" shows "dict_keys_distinct ls"
proof -
  obtain x y w h where box: "line_box el = Inr (x, y, w, h)" using rebuild_box [OF assms] by auto
  have "dict_keys_distinct (if b then dict_set k v (semantic_attr_losses strings lm) else semantic_attr_losses strings lm)"
    for b k v strings by (simp add: distinct_semantic)
  then show ?thesis
    using assms
    by (cases "py_strip t = []")
      (auto simp: rebuild_line_def Let_def box distinct_scoped distinct_semantic split: prod.splits if_splits)
qed

lemma rewrite_losses_distinct:
  "rewrite_line u ns lm el = Inr res \<Longrightarrow> dict_keys_distinct (lw_losses res)"
  by (auto simp: rewrite_line_def Let_def res_bind_Inr distinct_confidence distinct_merge
      rebuild_losses_distinct split: if_splits option.splits prod.splits)

section \<open>The loop over the lines of a file\<close>

definition rewrite_inv :: "rewrite_state \<Rightarrow> bool" where
  "rewrite_inv st \<longleftrightarrow>
     distinct (map fst (rw_paths st)) \<and> rw_seen st = fst ` set (rw_paths st) \<and>
     fst ` set (rw_losses_by_line st) \<subseteq> rw_seen st \<and>
     ledger (\<lambda>k. lost k (rw_losses st)) (rw_losses_by_line st) \<and>
     metrics_total_lines (rw_metrics st) = length (rw_paths st)"

lemma fresh_inv: "rewrite_inv fresh_rewrite"
  by (simp add: rewrite_inv_def fresh_rewrite_def ledger_def metrics_total_lines_def)

lemma record_keeps [simp]:
  "rw_paths (record_losses l ls st) = rw_paths st" "rw_seen (record_losses l ls st) = rw_seen st"
  "rw_metrics (record_losses l ls st) = rw_metrics st"
  by (simp_all add: record_losses_def)

lemma record_ledger:
  assumes "ledger (\<lambda>k. lost k (rw_losses st)) (rw_losses_by_line st)" "l \<notin> fst ` set (rw_losses_by_line st)" "dict_keys_distinct ls"
  shows "ledger (\<lambda>k. lost k (rw_losses (record_losses l ls st))) (rw_losses_by_line (record_losses l ls st)) \<and>
    fst ` set (rw_losses_by_line (record_losses l ls st)) \<subseteq> insert l (fst ` set (rw_losses_by_line st))"
proof (cases "ls = []")
  case False
  have "map_of (rw_losses_by_line st) l = None" using assms(2) by (simp add: map_of_eq_None_iff)
  then have "rw_losses_by_line (record_losses l ls st) = rw_losses_by_line st @ [(l, ls)]"
    using False assms by (simp add: record_losses_def or_else_def merge_nil dict_set_new)
  moreover have "lost k (rw_losses (record_losses l ls st)) = lost k (rw_losses st) + lost k ls" for k
    using False assms(3) by (simp add: record_losses_def lost_sum)
  ultimately show ?thesis using assms(1) by (auto simp: ledger_def)
qed (use assms in \<open>auto simp: record_losses_def\<close>)

lemma rewrite_step_hit:
  assumes l: "get_id e = Some l" "map_of by_id l = Some lm" and inv: "rewrite_inv st"
    and step: "rewrite_step u ns by_id st e = Inr st'"
  shows "rewrite_inv st' \<and> map fst (rw_paths st') = map fst (rw_paths st) @ [l] \<and>
    (\<exists>res. rewrite_line u ns lm e = Inr res)"
proof -
  from step l obtain res where new: "l \<notin> rw_seen st" and res: "rewrite_line u ns lm e = Inr res"
    by (auto simp: rewrite_step_def res_bind_Inr split: if_splits)
  let ?st1 = "st\<lparr>rw_seen := insert l (rw_seen st), rw_metrics := count_path (lw_path res) (rw_metrics st),
                rw_paths := dict_set l (lw_path res) (rw_paths st)\<rparr>"
  let ?st2 = "record_losses l (lw_losses res) ?st1"
  have st': "st' = (if lw_move res then ?st2\<lparr>rw_moves := insert l (rw_moves ?st2)\<rparr> else ?st2)"
    using step l new res by (simp add: rewrite_step_def Let_def)
  have fresh: "l \<notin> fst ` set (rw_paths st)" "l \<notin> fst ` set (rw_losses_by_line st)"
    using new inv by (auto simp: rewrite_inv_def)
  have paths: "dict_set l (lw_path res) (rw_paths st) = rw_paths st @ [(l, lw_path res)]"
    using fresh(1) by (rule dict_set_new)
  have "ledger (\<lambda>k. lost k (rw_losses ?st1)) (rw_losses_by_line ?st1)" using inv by (simp add: rewrite_inv_def)
  with record_ledger [of ?st1 l "lw_losses res"] fresh(2) rewrite_losses_distinct [OF res]
  have led: "ledger (\<lambda>k. lost k (rw_losses ?st2)) (rw_losses_by_line ?st2)"
    "fst ` set (rw_losses_by_line ?st2) \<subseteq> insert l (fst ` set (rw_losses_by_line st))"
    by simp_all
  have "fst ` set (rw_losses_by_line st) \<subseteq> rw_seen st" using inv unfolding rewrite_inv_def by blast
  then have sub: "fst ` set (rw_losses_by_line ?st2) \<subseteq> insert l (rw_seen st)"
    using led(2) by (rule insert_mono [THEN subset_trans [rotated]])
  have "rewrite_inv ?st2"
    unfolding rewrite_inv_def using inv led(1) fresh(1) sub
    by (intro conjI) (simp_all add: rewrite_inv_def paths)
  moreover have "map fst (rw_paths st') = map fst (rw_paths st) @ [l]"
    by (simp add: st' paths)
  moreover have "rewrite_inv st' \<longleftrightarrow> rewrite_inv ?st2" by (simp add: st' rewrite_inv_def)
  ultimately show ?thesis using res by simp
qed

interpretation alto_loop: line_loop get_id by_id "rewrite_step u ns by_id" "\<lambda>st. map fst (rw_paths st)" rewrite_inv
    "\<lambda>lm e. \<exists>res. rewrite_line u ns lm e = Inr res" for u ns by_id
proof unfold_locales
  show "rewrite_step u ns by_id st e = Inr st" if "\<not> addressed get_id by_id e" for st e
    using that by (auto simp: addressed_def rewrite_step_def split: option.splits)
qed (rule rewrite_step_hit)

section \<open>The tree\<close>

lemma line_child_not_line: "line_child ns c \<Longrightarrow> \<not> has_tag ''TextLine'' ns c"
  by (auto simp: line_child_def dest: has_tag_unique)

lemma set_subs_children [simp]: "el_children (set_subs_on_element want c) = el_children c"
  by (simp add: set_subs_on_element_def split: prod.split)

lemma update_content_children [simp]: "el_children (update_content u w c) = el_children c"
  by (simp add: update_content_def Let_def)

lemma lineless_same [simp]:
  "lineless ns (set_subs_on_element want c) = lineless ns c" "lineless ns (update_content u w c) = lineless ns c"
  by (rule lineless_cong; simp)+

lemma write_subs_lineless:
  assumes "lineless_children ns el" shows "lineless_children ns (write_subs t want el)"
proof (cases t)
  case (Some i)
  show ?thesis
  proof (cases "i < length (el_children el)")
    case True
    with assms show ?thesis
      by (auto simp: lineless_children_def Some write_subs_def list_all_iff
          dest!: set_update_subset_insert [THEN subsetD])
  next
    case False
    with assms show ?thesis
      by (simp add: lineless_children_def Some write_subs_def list_update_beyond)
  qed
qed (use assms in \<open>simp add: write_subs_def\<close>)

lemma update_strings_lineless:
  "list_all (lineless ns) cs \<Longrightarrow> list_all (lineless ns) (update_strings u ns ws cs)"
proof (induction u ns ws cs rule: update_strings.induct)
  case (2 u ns ws c cs)
  then show ?case by (cases ws) auto
qed simp

lemma leaf_lineless: "line_child ns c \<Longrightarrow> el_children c = [] \<Longrightarrow> lineless ns c"
  by (simp add: lineless_iff line_child_not_line)

lemma emit_leaves [simp]:
  "el_children (emit_sp ns sps n x w y) = []"
  "el_children (fst (emit_string u ns r m line t x w y h used)) = []"
  "el_children (append_trailing_hyp ns o_hyp x y w h) = []"
  by (simp_all add: emit_sp_def emit_string_def append_trailing_hyp_def Let_def split: option.split)

lemma emit_tokens_leaves:
  "c \<in> set (fst (emit_tokens u ns line strings sps al y h geo m n used lw)) \<Longrightarrow> el_children c = []"
proof (induction geo arbitrary: m n used lw)
  case (Cons b geo)
  obtain t x w where b: "b = (t, x, w)" by (cases b)
  show ?case
  proof (cases "is_space_token t")
    case True
    with Cons.prems Cons.IH [of m "n + 1" used lw] show ?thesis by (auto simp: b emit_tokens_space)
  next
    case False
    let ?used = "snd (emit_string u ns (recycled_string strings al m) m line t x w y h used)"
    from False Cons.prems Cons.IH [of "m + 1" n ?used "(x, w)"] show ?thesis
      by (auto simp: b emit_tokens_word Let_def)
  qed
qed simp

lemma line_tail_lineless:
  assumes "lineless_children ns el" "c \<in> set (line_tail u ns lm sb corrected el box)"
  shows "lineless ns c"
proof (cases "is_part1_like lm")
  case False
  then show ?thesis
    using assms by (cases box)
      (auto simp: line_tail_def lineless_children_def get_hyp_children_def children_tagged_def list_all_iff
        split: if_splits)
next
  case True
  obtain x y w h where box: "box = (x, y, w, h)" by (cases box)
  obtain cs n lx lw where em: "emitted u ns lm sb corrected el box = (cs, n, lx, lw)"
    by (cases "emitted u ns lm sb corrected el box")
  obtain sp bx bw where sp: "reserve_break_space ns (get_sp_children ns el) n (lx + lw)
      (fst (break_slot ns lm sb w el)) y sb = (sp, bx, bw)" by (metis prod_cases3)
  have "\<exists>a b d e. c \<in> set sp \<or> c = append_trailing_hyp ns (kept_hyp ns el) a b d e"
    using assms(2) True em [unfolded box] sp by (auto simp: box line_tail_def split: if_splits)
  moreover have "\<forall>c \<in> set sp. el_children c = []"
    using sp by (auto simp: reserve_break_space_def Let_def split: if_splits)
  ultimately have "el_children c = []" by auto
  then show ?thesis using leaf_lineless line_tail_children [OF assms(2)] by blast
qed

lemma rebuild_lineless:
  assumes "rebuild_line u ns lm sb t el = Inr (el', ls, mv)" "lineless_children ns el"
  shows "lineless_children ns el'"
proof (rule rebuild_childrenE [OF assms(1)])
  fix box
  let ?cs = "fst (emitted u ns lm sb (py_strip t) el box)" and ?tail = "line_tail u ns lm sb (py_strip t) el box"
  assume el': "el' = append_children (?cs @ ?tail) (clear_line ns el)"
  have "el_children c = []" if "c \<in> set ?cs" for c
    using that emit_tokens_leaves by (cases box) (simp add: emitted_def Let_def)
  then have "\<forall>c \<in> set ?cs. lineless ns c" using leaf_lineless emitted_line_children by blast
  moreover have "\<forall>c \<in> set ?tail. lineless ns c" using line_tail_lineless [OF assms(2)] by blast
  ultimately show ?thesis
    using assms(2) by (auto simp: el' lineless_children_def append_children_def clear_line_children list_all_iff)
qed

lemma apply_subs_lineless: "lineless_children ns el \<Longrightarrow> lineless_children ns (apply_subs ns lm el)"
  by (simp add: apply_subs_def Let_def write_subs_lineless)

lemma rewrite_lineless:
  assumes "rewrite_line u ns lm el = Inr res" "lineless_children ns el"
  shows "lineless_children ns (lw_element res)"
  using assms(1)
proof (cases rule: rewrite_line_cases)
  case (fast t b el1)
  then have "lineless_children ns el1"
    using assms(2) by (auto simp: update_content_in_place_def Let_def lineless_children_def
        update_strings_lineless split: if_splits)
  then show ?thesis using fast by (simp add: apply_subs_lineless)
next
  case (slow t b el1 ls mv)
  then show ?thesis using rebuild_lineless [OF slow(5) assms(2)] by (simp add: apply_subs_lineless)
qed (use assms(2) apply_subs_lineless in auto)

lemma frame_tag: "same_frame ns a b \<Longrightarrow> has_tag l ns b = has_tag l ns a"
  by (simp add: same_frame_def has_tag_def)

lemma step_lineless [simp]:
  "iter_tagged ''TextLine'' ns (processing_step ns d) = []"
  "iter_tagged ''TextLine'' ns (post_processing_step ns d v) = []"
  "iter_tagged ''TextLine'' ns (Element (Some (qtag ''Processing'' ns)) [] [] None [processing_step ns d]) = []"
  by (simp_all add: processing_step_def post_processing_step_def)

interpretation alto: line_writer get_id ns "written_line u ns" for u ns
proof unfold_locales
  fix lm el
  show "get_id (written_line u ns lm el) = get_id el \<and> has_tag ''TextLine'' ns (written_line u ns lm el)"
    if "has_tag ''TextLine'' ns el"
    using that rewrite_keeps_frame frame_tag
    by (fastforce simp: written_line_def same_frame_def get_id_def has_tag_def split: sum.split)
  show "lineless_children ns (written_line u ns lm el)" if "lineless_children ns el"
    using that rewrite_lineless by (auto simp: written_line_def split: sum.split)
qed

text \<open>Recording the pass leaves the lines alone.\<close>

lemma iter_processing:
  assumes "\<not> has_tag ''TextLine'' ns el"
  shows "iter_tagged ''TextLine'' ns (add_processing_entry ns p m v f el) = iter_tagged ''TextLine'' ns el"
proof -
  let ?d = "provenance_description p m v f"
  let ?describe = "\<lambda>desc.
      if find_child ''Processing'' ns desc \<noteq> None then
        set_children (update_first (has_tag ''Processing'' ns)
          (append_children [processing_step ns ?d]) (el_children desc)) desc
      else if find_child ''OCRProcessing'' ns desc \<noteq> None then
        set_children (update_last (has_tag ''OCRProcessing'' ns)
          (append_children [post_processing_step ns ?d v]) (el_children desc)) desc
      else append_children [Element (Some (qtag ''Processing'' ns)) [] [] None [processing_step ns ?d]] desc"
  have d: "iter_tagged ''TextLine'' ns (?describe c) = iter_tagged ''TextLine'' ns c"
    if c: "has_tag ''Description'' ns c" for c
  proof -
    have no: "\<not> has_tag ''TextLine'' ns c" using c has_tag_unique by blast
    have first: "iter_tagged ''TextLine'' ns (set_children (update_first (has_tag ''Processing'' ns)
          (append_children [processing_step ns ?d]) (el_children c)) c) = iter_tagged ''TextLine'' ns c"
      using iter_own_children [OF no]
      by (simp add: iter_set_children [OF no] iter_update_first iter_append)
    have last: "iter_tagged ''TextLine'' ns (set_children (update_last (has_tag ''OCRProcessing'' ns)
          (append_children [post_processing_step ns ?d v]) (el_children c)) c) = iter_tagged ''TextLine'' ns c"
      using iter_own_children [OF no]
      by (simp add: iter_set_children [OF no] iter_update_last iter_append)
    have new: "iter_tagged ''TextLine'' ns (append_children
        [Element (Some (qtag ''Processing'' ns)) [] [] None [processing_step ns ?d]] c) =
        iter_tagged ''TextLine'' ns c"
      using iter_append [OF c, of "''TextLine''"] by simp
    from first last new show ?thesis by simp
  qed
  show ?thesis
    unfolding add_processing_entry_def Let_def
    using iter_own_children [OF assms]
    by (simp only: iter_set_children [OF assms] iter_update_first [OF d])
qed

section \<open>The texts of the written file\<close>

text \<open>What a rewritten file consists of.\<close>

lemma rewrite_file_cases:
  assumes "rewrite_alto_file u pages provider model v f el = Inr out"
  obtains st by_id where "by_id = dict_of line_id (concat (map pg_lines pages))"
    "ensure_unique_identities pages = Inr ()"
    "rewrite_lines u (detect_namespace el) by_id (iter_tagged ''TextLine'' (detect_namespace el) el) fresh_rewrite = Inr st"
    "res_tree out = add_processing_entry (detect_namespace el) provider model v f
       (map_elements (rewritten u (detect_namespace el) by_id) el)"
    "extract_texts u (detect_namespace el) False (fst ` set by_id)
       (iter_tagged ''TextLine'' (detect_namespace el) (res_tree out)) [] = Inr (res_texts out)"
    "res_metrics out = rw_metrics st" "res_paths out = rw_paths st" "res_losses out = rw_losses st"
    "res_losses_by_line out = rw_losses_by_line st"
  using assms by (auto simp: rewrite_alto_file_def Let_def res_bind_Inr)

text \<open>The text a rewritten file returns for a line is what the rewritten line reads as.\<close>

lemma file_text:
  assumes "rewrite_alto_file u pages provider model v f el = Inr out" "ns = detect_namespace el"
    and "flat_lines ns el" "\<not> has_tag ''TextLine'' ns el"
    and "tl_el \<in> set (iter_tagged ''TextLine'' ns el)" "get_id tl_el = Some l"
    and "lm \<in> set (concat (map pg_lines pages))" "line_id lm = l"
  shows "\<exists>res. rewrite_line u ns lm tl_el = Inr res \<and>
    map_of (res_texts out) l = Some (reconstruct_textline u ns False (lw_element res))"
proof -
  obtain st by_id where by_id: "by_id = dict_of line_id (concat (map pg_lines pages))"
    and uniq: "ensure_unique_identities pages = Inr ()"
    and lines: "rewrite_lines u ns by_id (iter_tagged ''TextLine'' ns el) fresh_rewrite = Inr st"
    and tree: "res_tree out = add_processing_entry ns provider model v f (map_elements (rewritten u ns by_id) el)"
    and texts: "extract_texts u ns False (fst ` set by_id) (iter_tagged ''TextLine'' ns (res_tree out)) [] =
      Inr (res_texts out)"
    using rewrite_file_cases [OF assms(1)] assms(2) by metis
  have "distinct (map line_id (concat (map pg_lines pages)))"
    using uniq unique_identities_iff [of pages] by (simp add: map_concat comp_def)
  from map_of_dict_of_distinct [OF this assms(7)] assms(8) have lm: "map_of by_id l = Some lm"
    by (simp add: by_id)
  from alto_loop.loop_spec [OF lines [unfolded rewrite_lines_def] fresh_inv] assms(5,6) lm
  obtain res where res: "rewrite_line u ns lm tl_el = Inr res" by blast
  have "iter_tagged ''TextLine'' ns (res_tree out) = iter_tagged ''TextLine'' ns (map_elements (rewritten u ns by_id) el)"
    unfolding tree rewritten_def by (rule iter_processing) (rule alto.written.no_line_kept [OF assms(4)])
  from alto.text_read [OF assms(3) this [unfolded rewritten_def] texts [unfolded extract_texts_def] assms(5,6) _ lm]
  have "map_of (res_texts out) l = Some (reconstruct_textline u ns False (written_line u ns lm tl_el))"
    using map_of_key [OF lm] by simp
  with res show ?thesis by (simp add: written_line_def)
qed

section \<open>Properties of the ALTO writer\<close>

text \<open>A file of one line, for the witnesses.\<close>

definition demo_string :: "ident \<Rightarrow> ptext \<Rightarrow> xml" where
  "demo_string i t = Element (Some ''String'') [(''ID'', i)] [(''CONTENT'', t), (''WC'', tx ''0.9'')] None []"

definition demo_line_el :: "ident \<Rightarrow> xml list \<Rightarrow> xml" where
  "demo_line_el i cs =
     Element (Some ''TextLine'') [(''ID'', i)]
       [(''HPOS'', tx ''10''), (''VPOS'', tx ''20''), (''WIDTH'', tx ''100''), (''HEIGHT'', tx ''12'')] None cs"

definition demo_words :: "xml list" where
  "demo_words =
     [demo_string ''s1'' (tx ''Le''), Element (Some ''SP'') [] [(''WIDTH'', tx ''4'')] None [],
      demo_string ''s2'' (tx ''chut'')]"

definition demo_file :: xml where
  "demo_file =
     Element (Some ''alto'') [] [] None
       [Element (Some ''Description'') [] [] None [], demo_line_el ''l1'' demo_words]"

definition demo_lm :: line_manifest where
  "demo_lm = (plain_line ''p1'' ''l1'' 0 (tx ''Le chut''))\<lparr>corrected_text := Some (tx ''Le chat'')\<rparr>"

definition demo_pages :: "page_manifest list" where
  "demo_pages =
     [\<lparr>pg_id = ''p1'', pg_source_file = ''f'', pg_index = 0, pg_width = 0, pg_height = 0, pg_blocks = [],
       pg_lines = [demo_lm]\<rparr>]"

definition demo_rewrite :: "exn + rewrite_result" where
  "demo_rewrite = rewrite_alto_file ascii_unicode demo_pages (tx ''p'') (tx ''m'') None None demo_file"

text \<open>C10: The projection reaches the artefact. For every line of a file whose decided text the format
  can carry as it stands (plain text, words one \<open>String\<close> each with one \<open>SP\<close> between, no break of its
  own), what \<open>rewrite_alto_file\<close> reads back off the tree it wrote is the decided text, up to outer
  white space and carriage returns (the reader's normal form: the text read is compared stripped and
  without them), whichever of the four paths the line took. Lines do not nest in the file, the line
  carries no \<open>HYP\<close> and is not the first half of a hyphenated word.\<close>

theorem rewritten_file_reads_back:
  assumes "rewrite_alto_file u pages provider model v f el = Inr out"
    and "flat_lines (detect_namespace el) el" "\<not> has_tag ''TextLine'' (detect_namespace el) el"
    and "tl_el \<in> set (iter_tagged ''TextLine'' (detect_namespace el) el)"
    and "lm \<in> set (concat (map pg_lines pages))" "get_id tl_el = Some (line_id lm)"
    and "\<not> opens_unit (hyphen_role lm)" "plain_text u (or_else (corrected_text lm) (ocr_text lm))"
    and "get_hyp_children (detect_namespace el) tl_el = []" "regular_line (detect_namespace el) tl_el"
  shows "\<exists>t. map_of (res_texts out) (line_id lm) = Some t \<and>
    py_strip (filter (\<lambda>c. c \<noteq> 13) t) = or_else (corrected_text lm) (ocr_text lm)"
proof -
  obtain res where res: "rewrite_line u (detect_namespace el) lm tl_el = Inr res"
    and t: "map_of (res_texts out) (line_id lm) =
      Some (reconstruct_textline u (detect_namespace el) False (lw_element res))"
    using file_text [OF assms(1) refl assms(2,3,4,6,5) refl] by blast
  from rewrite_reads_back [OF res assms(7-10)] t show ?thesis by (simp add: canonical_line_text_def)
qed

theorem rewritten_file_reads_back_witness:
  "\<exists>out t. demo_rewrite = Inr out \<and> map_of (res_texts out) ''l1'' = Some t \<and>
     py_strip (filter (\<lambda>c. c \<noteq> 13) t) = tx ''Le chat''"
proof -
  have ok: "\<not> isl demo_rewrite" by code_simp
  then obtain out where out: "demo_rewrite = Inr out" by (metis sum.collapse(2))
  have "\<exists>t. map_of (res_texts out) (line_id demo_lm) = Some t \<and>
      py_strip (filter (\<lambda>c. c \<noteq> 13) t) = or_else (corrected_text demo_lm) (ocr_text demo_lm)"
  proof (rule rewritten_file_reads_back [OF out [unfolded demo_rewrite_def]])
    show "flat_lines (detect_namespace demo_file) demo_file" by code_simp
    show "\<not> has_tag ''TextLine'' (detect_namespace demo_file) demo_file" by code_simp
    show "demo_line_el ''l1'' demo_words \<in> set (iter_tagged ''TextLine'' (detect_namespace demo_file) demo_file)"
      by (simp add: demo_file_def demo_line_el_def detect_namespace_def tag_namespace_def qtag_def)
    show "demo_lm \<in> set (concat (map pg_lines demo_pages))" by (simp add: demo_pages_def)
    show "get_id (demo_line_el ''l1'' demo_words) = Some (line_id demo_lm)" by code_simp
    show "\<not> opens_unit (hyphen_role demo_lm)" by code_simp
    show "plain_text ascii_unicode (or_else (corrected_text demo_lm) (ocr_text demo_lm))" by code_simp
    show "get_hyp_children (detect_namespace demo_file) (demo_line_el ''l1'' demo_words) = []" by code_simp
    show "regular_line (detect_namespace demo_file) (demo_line_el ''l1'' demo_words)" by code_simp
  qed
  moreover have "line_id demo_lm = ''l1''" "or_else (corrected_text demo_lm) (ocr_text demo_lm) = tx ''Le chat''"
    by code_simp+
  ultimately show ?thesis using out by auto
qed

text \<open>C11: The ledger of a rewritten file. Every line of the manifests that stands in the file is counted
  once, under exactly one of the four paths, no other line is, and the loss counters of the file are
  the sums of the loss counters its lines are charged with.\<close>

theorem rewritten_file_ledger:
  assumes "rewrite_alto_file u pages provider model v f el = Inr out"
  shows "map fst (res_paths out) =
      map (\<lambda>e. the (get_id e))
        (filter (addressed get_id (dict_of line_id (concat (map pg_lines pages))))
          (iter_tagged ''TextLine'' (detect_namespace el) el)) \<and>
    distinct (map fst (res_paths out)) \<and>
    metrics_total_lines (res_metrics out) = length (res_paths out) \<and>
    (\<forall>k. lost k (res_losses out) = sum_list (map (\<lambda>(l, ls). lost k ls) (res_losses_by_line out)))"
proof -
  obtain st where lines: "rewrite_lines u (detect_namespace el) (dict_of line_id (concat (map pg_lines pages)))
      (iter_tagged ''TextLine'' (detect_namespace el) el) fresh_rewrite = Inr st"
    and out: "res_metrics out = rw_metrics st" "res_paths out = rw_paths st" "res_losses out = rw_losses st"
      "res_losses_by_line out = rw_losses_by_line st"
    using rewrite_file_cases [OF assms] by metis
  have none: "rw_paths fresh_rewrite = []" by (simp add: fresh_rewrite_def)
  from alto_loop.loop_spec [OF lines [unfolded rewrite_lines_def] fresh_inv]
  have paths: "map fst (rw_paths st) = map (\<lambda>e. the (get_id e))
        (filter (addressed get_id (dict_of line_id (concat (map pg_lines pages))))
          (iter_tagged ''TextLine'' (detect_namespace el) el))"
    and inv: "rewrite_inv st" by (simp_all add: none)
  from inv paths show ?thesis unfolding out rewrite_inv_def ledger_def by blast
qed

theorem rewritten_file_ledger_witness:
  "\<exists>out. demo_rewrite = Inr out \<and> map fst (res_paths out) = [''l1''] \<and>
     metrics_total_lines (res_metrics out) = length (res_paths out) \<and> lost ''confidence_invalidated'' (res_losses out) = 1"
proof -
  have ok: "case demo_rewrite of Inl _ \<Rightarrow> False | Inr out \<Rightarrow>
      map fst (res_paths out) = [''l1''] \<and> lost ''confidence_invalidated'' (res_losses out) = 1" by code_simp
  then obtain out where "demo_rewrite = Inr out" "map fst (res_paths out) = [''l1'']"
    "lost ''confidence_invalidated'' (res_losses out) = 1" by (auto split: sum.splits)
  with rewritten_file_ledger [of ascii_unicode demo_pages "tx ''p''" "tx ''m''" None None demo_file out]
  show ?thesis by (auto simp: demo_rewrite_def)
qed

text \<open>C12: A rebuilt line tiles its box. On a line with a text, at least two units wide and wide enough for
  one unit per token, the words and spaces a rebuild emits stand side by side from the left edge of the line
  to its right edge, the end-of-line mark it writes itself and the space before it included, each at least
  one unit wide, without gap or overlap. Nothing else is among the line's words, spaces and marks but the
  marks it restores (\<open>restored_hyps\<close>): a line that the rebuild does not take for one that ends on an explicit
  break, and that does not only continue a word, keeps the \<open>HYP\<close> elements it had, at their old place. The words
  fill the whole box there, so a kept mark inside the box overlaps them; that happens to a line in the middle
  of a chain whose forward break alone is explicit, because the rebuild asks the flag of the backward one.\<close>

theorem rebuilt_line_tiles_its_box:
  assumes "rebuild_line u ns lm sb t el = Inr (el', ls, mv)" "line_box el = Inr (x, y, w, h)"
    and "py_strip t \<noteq> []" "2 \<le> w"
    and "int (length (tokenize (py_strip t))) \<le> snd (break_slot ns lm sb w el)"
  shows "\<exists>cs boxes. filter (line_child ns) (el_children el') = cs @ restored_hyps ns lm el \<and>
                map box_attrs cs = map written_box boxes \<and> tiles x boxes (x + w)"
  by (rule rebuild_tiles [OF assms])

lemma rebuilt_line_tiles_its_box_witness:
  "\<exists>el' ls mv boxes. rebuild_line ascii_unicode [] demo_lm False (tx ''Le petit chat'') (demo_line_el ''l1'' demo_words)
       = Inr (el', ls, mv) \<and>
     map box_attrs (filter (line_child []) (el_children el')) = map written_box boxes \<and> tiles 10 boxes 110"
proof -
  let ?el = "demo_line_el ''l1'' demo_words" and ?t = "tx ''Le petit chat''"
  have box: "line_box ?el = Inr (10, 20, 100, 12)" by code_simp
  from rebuild_children [OF this] obtain el' ls mv where
    r: "rebuild_line ascii_unicode [] demo_lm False ?t ?el = Inr (el', ls, mv)" by blast
  have "\<exists>cs boxes. filter (line_child []) (el_children el') = cs @ restored_hyps [] demo_lm ?el \<and>
      map box_attrs cs = map written_box boxes \<and> tiles 10 boxes (10 + 100)"
  proof (rule rebuilt_line_tiles_its_box [OF r box])
    show "py_strip ?t \<noteq> []" by code_simp
    show "int (length (tokenize (py_strip ?t))) \<le> snd (break_slot [] demo_lm False 100 ?el)" by code_simp
  qed simp
  moreover have "restored_hyps [] demo_lm ?el = []" by code_simp
  ultimately show ?thesis using r by auto
qed

lemma tail_no_string: "c \<in> set (line_tail u ns lm sb corrected el box) \<Longrightarrow> \<not> has_tag ''String'' ns c"
proof -
  assume c: "c \<in> set (line_tail u ns lm sb corrected el box)"
  obtain x y w h where box: "box = (x, y, w, h)" by (cases box)
  obtain cs n lx lw where em: "emitted u ns lm sb corrected el box = (cs, n, lx, lw)"
    by (cases "emitted u ns lm sb corrected el box")
  obtain sp bx bw where sp: "reserve_break_space ns (get_sp_children ns el) n (lx + lw)
      (fst (break_slot ns lm sb w el)) y sb = (sp, bx, bw)" by (metis prod_cases3)
  have "\<exists>a b d e. c \<in> set sp \<or> c = append_trailing_hyp ns (kept_hyp ns el) a b d e \<or> c \<in> set (get_hyp_children ns el)"
    using c em [unfolded box] sp by (auto simp: box line_tail_def split: if_splits)
  moreover have "\<forall>c \<in> set sp. has_tag ''SP'' ns c"
    using sp by (auto simp: reserve_break_space_def Let_def split: if_splits)
  moreover have "\<forall>c \<in> set (get_hyp_children ns el). has_tag ''HYP'' ns c"
    by (simp add: get_hyp_children_def children_tagged_def)
  ultimately have "has_tag ''SP'' ns c \<or> has_tag ''HYP'' ns c" by auto
  then show ?thesis by (auto dest: has_tag_unique)
qed

lemma rebuilt_string_ids:
  assumes "rebuild_line u ns lm sb t el = Inr (el', ls, mv)"
  obtains box where "string_ids ns (el_children el') = string_ids ns (fst (emitted u ns lm sb (py_strip t) el box))"
proof (rule rebuild_childrenE [OF assms])
  fix box
  let ?cs = "fst (emitted u ns lm sb (py_strip t) el box)" and ?tail = "line_tail u ns lm sb (py_strip t) el box"
  assume "el' = append_children (?cs @ ?tail) (clear_line ns el)"
  then have "el_children el' = filter (\<lambda>c. \<not> line_child ns c) (el_children el) @ ?cs @ ?tail"
    by (simp add: append_children_def clear_line_children)
  moreover have "filter (has_tag ''String'' ns) ?tail = []"
    using tail_no_string by (simp add: filter_empty_conv)
  moreover have "filter (has_tag ''String'' ns) (filter (\<lambda>c. \<not> line_child ns c) (el_children el)) = []"
    by (auto simp: filter_empty_conv line_child_def)
  ultimately have "string_ids ns (el_children el') = string_ids ns ?cs" by (simp add: string_ids_def)
  then show thesis by (rule that)
qed

text \<open>C13: A rebuild gives every word an identity of its own. Whatever the token alignment recycles
  and however many identifiers have to be generated, the \<open>String\<close>s of a rebuilt line carry pairwise
  distinct identifiers when those of the source line did, and the line keeps its own attributes, its
  tag and every child that is not text.\<close>

theorem rebuilt_line_identities:
  assumes "rebuild_line u ns lm sb t el = Inr (el', ls, mv)"
    and "distinct (List.map_filter get_id (get_string_children ns el))"
  shows "distinct (string_ids ns (el_children el')) \<and> same_frame ns el el'"
proof -
  obtain box where "string_ids ns (el_children el') = string_ids ns (fst (emitted u ns lm sb (py_strip t) el box))"
    using rebuilt_string_ids [OF assms(1)] .
  then show ?thesis using emitted_distinct [OF assms(2)] rebuild_frame [OF assms(1)] by simp
qed

theorem rebuilt_line_identities_witness:
  "\<exists>el' ls mv. rebuild_line ascii_unicode [] demo_lm False (tx ''Le petit chat'') (demo_line_el ''l1'' demo_words)
       = Inr (el', ls, mv) \<and> distinct (string_ids [] (el_children el'))"
proof -
  have box: "line_box (demo_line_el ''l1'' demo_words) = Inr (10, 20, 100, 12)" by code_simp
  from rebuild_children [OF this] obtain el' ls mv where
    r: "rebuild_line ascii_unicode [] demo_lm False (tx ''Le petit chat'') (demo_line_el ''l1'' demo_words) =
      Inr (el', ls, mv)" by blast
  have "distinct (List.map_filter get_id (get_string_children [] (demo_line_el ''l1'' demo_words)))" by code_simp
  from rebuilt_line_identities [OF r this] r show ?thesis by blast
qed

text \<open>C14: The writer of the hyphen markers and the predicate that asks for it agree. Where
  \<open>_subs_need_update\<close> answers no, \<open>_apply_subs\<close> changes nothing; after \<open>_apply_subs\<close> it answers no,
  unless a marker is wanted on a line that has no \<open>String\<close> to carry it. So a line that was written is
  untouched by the next pass.\<close>

theorem subs_writer_agrees_with_predicate:
  assumes "dict_like el"
  shows "(\<not> subs_need_update ns lm el \<longrightarrow> apply_subs ns lm el = el) \<and>
    (subs_need_update ns lm (apply_subs ns lm el) \<longleftrightarrow>
       hyphen_role lm \<noteq> NONE \<and> subs_target ns lm el = None \<and> fst (desired_subs lm) \<noteq> None)"
  using apply_subs_idle [OF _ assms] apply_subs_settles by blast

text \<open>A line of the middle of a hyphen chain: it closes an explicit break and ends on a dash of its
  own, without markup.\<close>

definition chain_lm :: line_manifest where
  "chain_lm = (plain_line ''p1'' ''l1'' 0 (tx ''dorf W-''))
     \<lparr>hyphen_role := BOTH, hyphen_source_explicit := True, hyphen_subs_content := Some (tx ''Altdorf''),
      hyphen_forward_explicit := False, corrected_text := Some (tx ''dorfW-'')\<rparr>"

definition chain_el :: xml where
  "chain_el = demo_line_el ''l1''
     [set_attr ''SUBS_CONTENT'' (tx ''Altdorf'') (set_attr ''SUBS_TYPE'' (tx ''HypPart2'')
        (demo_string ''s1'' (tx ''dorf''))),
      Element (Some ''SP'') [] [] None [], demo_string ''s2'' (tx ''W-'')]"

theorem subs_writer_agrees_with_predicate_witness:
  "apply_subs [] (chain_lm\<lparr>hyphen_subs_content := Some (tx ''Neudorf'')\<rparr>) chain_el \<noteq> chain_el \<and>
   apply_subs [] chain_lm chain_el = chain_el"
proof -
  have "dict_like chain_el" "\<not> subs_need_update [] chain_lm chain_el" by code_simp+
  with subs_writer_agrees_with_predicate [of chain_el "[]" chain_lm] have "apply_subs [] chain_lm chain_el = chain_el"
    by blast
  moreover have "get_attr ''SUBS_CONTENT'' (el_children (apply_subs []
      (chain_lm\<lparr>hyphen_subs_content := Some (tx ''Neudorf'')\<rparr>) chain_el) ! 0) = Some (tx ''Neudorf'')" by code_simp
  moreover have "get_attr ''SUBS_CONTENT'' (el_children chain_el ! 0) = Some (tx ''Altdorf'')" by code_simp
  moreover have "tx ''Neudorf'' \<noteq> tx ''Altdorf''" by code_simp
  ultimately show ?thesis by (metis option.inject)
qed

lemma written_tags: "map (has_tag l ns) (el_children (write_subs t want el)) = map (has_tag l ns) (el_children el)"
  by (rule nth_equalityI) (simp_all add: has_tag_written)

lemma filter_length_cong: "map P xs = map Q ys \<Longrightarrow> length (filter P xs) = length (filter Q ys)"
proof (induction xs arbitrary: ys)
  case (Cons x xs)
  then show ?case by (cases ys) auto
qed simp

lemma apply_subs_hyps: "length (get_hyp_children ns (apply_subs ns lm el)) = length (get_hyp_children ns el)"
  unfolding get_hyp_children_def children_tagged_def
  by (rule filter_length_cong) (simp add: apply_subs_def Let_def written_tags)

lemma emitted_no_hyp: "c \<in> set (fst (emit_tokens u ns line strings sps al y h geo m n used lw)) \<Longrightarrow>
    has_tag ''String'' ns c \<or> has_tag ''SP'' ns c"
proof (induction geo arbitrary: m n used lw)
  case (Cons b geo)
  obtain t x w where b: "b = (t, x, w)" by (cases b)
  show ?case
  proof (cases "is_space_token t")
    case True
    with Cons.prems Cons.IH [of m "n + 1" used lw] show ?thesis by (auto simp: b emit_tokens_space)
  next
    case False
    let ?used = "snd (emit_string u ns (recycled_string strings al m) m line t x w y h used)"
    from False Cons.prems Cons.IH [of "m + 1" n ?used "(x, w)"] show ?thesis
      by (auto simp: b emit_tokens_word Let_def)
  qed
qed simp

text \<open>A line the rebuild takes for one with an explicit break ends up with exactly one mark element.\<close>

lemma rebuild_one_hyp:
  assumes "rebuild_line u ns lm sb t el = Inr (el', ls, mv)" "is_part1_like lm"
  shows "length (get_hyp_children ns el') = 1"
proof (rule rebuild_childrenE [OF assms(1)])
  fix box
  let ?em = "emitted u ns lm sb (py_strip t) el box" and ?tail = "line_tail u ns lm sb (py_strip t) el box"
  assume el': "el' = append_children (fst ?em @ ?tail) (clear_line ns el)"
  obtain x y w h where box: "box = (x, y, w, h)" by (cases box)
  obtain cs n lx lw where em: "?em = (cs, n, lx, lw)" by (cases ?em)
  obtain sp bx bw where sp: "reserve_break_space ns (get_sp_children ns el) n (lx + lw)
      (fst (break_slot ns lm sb w el)) y sb = (sp, bx, bw)" by (metis prod_cases3)
  have "\<forall>c \<in> set (fst ?em). \<not> has_tag ''HYP'' ns c"
    using emitted_no_hyp by (fastforce simp: box emitted_def Let_def dest: has_tag_unique)
  then have "filter (has_tag ''HYP'' ns) (fst ?em) = []" by (simp add: filter_empty_conv)
  moreover have "filter (has_tag ''HYP'' ns) (filter (\<lambda>c. \<not> line_child ns c) (el_children el)) = []"
    by (auto simp: filter_empty_conv line_child_def)
  moreover have "length (filter (has_tag ''HYP'' ns) ?tail) = 1"
  proof -
    have "filter (has_tag ''HYP'' ns) sp = []"
      using sp by (auto simp: reserve_break_space_def Let_def split: if_splits)
    then show ?thesis using assms(2) em [unfolded box] sp by (simp add: box line_tail_def)
  qed
  ultimately show ?thesis
    by (simp add: el' get_hyp_children_def children_tagged_def append_children_def clear_line_children)
qed

text \<open>C35: The rebuild invents break markup. Take any line in the middle of a chain that continues an
  explicitly marked word while its own forward break is no markup, only a dash in its text, and that has no
  \<open>HYP\<close>. \<open>_write_text_for\<close> keeps the dash in the words, because the forward break is not explicit, but
  \<open>_rebuild_line\<close> decides by the flag of the backward break: whenever the line is rebuilt it ends up with a
  \<open>HYP\<close> the source never had.\<close>

theorem rebuild_invents_break_markup:
  assumes "hyphen_role lm = BOTH" "hyphen_source_explicit lm" "\<not> hyphen_forward_explicit lm"
    and "get_hyp_children ns el = []"
    and "rewrite_line u ns lm el = Inr res" "lw_path res = ''slow_path''"
  shows "write_text_for lm (or_else (corrected_text lm) (ocr_text lm)) = (or_else (corrected_text lm) (ocr_text lm), False) \<and>
    length (get_hyp_children ns (lw_element res)) = 1"
proof
  show "write_text_for lm (or_else (corrected_text lm) (ocr_text lm)) = (or_else (corrected_text lm) (ocr_text lm), False)"
    using assms(1,3) by (simp add: write_text_for_def forward_break_is_explicit_def)
  have "is_part1_like lm" using assms(1,2) by (simp add: is_part1_like_def)
  from assms(5) show "length (get_hyp_children ns (lw_element res)) = 1"
  proof (cases rule: rewrite_line_cases)
    case (slow t b el1 ls mv)
    then show ?thesis using rebuild_one_hyp [OF slow(5) \<open>is_part1_like lm\<close>] by (simp add: apply_subs_hyps)
  qed (use assms(6) in auto)
qed

text \<open>Such a line reads the same after the rebuild, so no check of texts sees the mark.\<close>

lemma rebuild_invents_break_markup_unseen:
  "get_hyp_children [] chain_el = [] \<and> \<not> forward_break_is_explicit chain_lm \<and>
   write_text_for chain_lm (tx ''dorfW-'') = (tx ''dorfW-'', False) \<and>
   (\<exists>res. rewrite_line ascii_unicode [] chain_lm chain_el = Inr res \<and> lw_path res = ''slow_path'' \<and>
      length (get_hyp_children [] (lw_element res)) = 1 \<and>
      canonical_line_text ascii_unicode [] (lw_element res) = tx ''dorfW-'')"
proof -
  let ?u = ascii_unicode and ?t = "tx ''dorfW-''"
  have none: "get_hyp_children [] chain_el = []" by code_simp
  have w: "write_text_for chain_lm ?t = (?t, False)" by code_simp
  have changed: "\<not> line_text_unchanged ?u [] chain_el ?t" by code_simp
  have refused: "update_content_in_place ?u [] ?t chain_el = None" by code_simp
  have c: "or_else (corrected_text chain_lm) (ocr_text chain_lm) = ?t" by code_simp
  have part1: "is_part1_like chain_lm" by code_simp
  have box: "line_box chain_el = Inr (10, 20, 100, 12)" by code_simp
  from rebuild_children [OF this] obtain el' ls mv where
    r: "rebuild_line ?u [] chain_lm False ?t chain_el = Inr (el', ls, mv)" by blast
  obtain res where res: "rewrite_line ?u [] chain_lm chain_el = Inr res" "lw_path res = ''slow_path''"
    "lw_element res = apply_subs [] chain_lm el'"
    using changed refused r by (simp add: rewrite_line_def Let_def c w)
  have "length (get_hyp_children [] (lw_element res)) = 1"
    using rebuild_one_hyp [OF r part1] by (simp add: res(3) apply_subs_hyps)
  moreover have "canonical_line_text ?u [] (lw_element res) = ?t"
  proof (rule rebuild_read [OF r, where v = False])
    fix box'
    assume b: "line_box chain_el = Inr box'" and read: "reconstruct_textline ?u [] False el' =
        nfc ?u (read_children [] False (concat (map (token_text ?u) (tokenize (py_strip ?t))))
          (line_tail ?u [] chain_lm False (py_strip ?t) chain_el box'))"
    have b: "box' = (10, 20, 100, 12)" using b box by simp
    have n: "nfc ?u s = s" for s by (simp add: nfc_def ascii_unicode_def)
    have toks: "concat (map (token_text ?u) (tokenize (py_strip ?t))) = ?t" by code_simp
    have mark: "py_strip ?t \<noteq> []" "ends_in (set DEDUP_MARKS) ?t" by code_simp+
    have "reconstruct_textline ?u [] False el' = ?t"
      unfolding read b toks n break_tail [OF part1 mark(1)] using mark(2) by (simp add: Let_def)
    moreover have "py_strip (filter (\<lambda>c. c \<noteq> 13) ?t) = ?t" by code_simp
    ultimately show ?thesis by (simp add: res(3) canonical_line_text_def)
  qed
  moreover have "\<not> forward_break_is_explicit chain_lm" by code_simp
  ultimately show ?thesis using none w res(1,2) by blast
qed

lemma rebuild_invents_break_markup_witness:
  "\<exists>res. rewrite_line ascii_unicode [] chain_lm chain_el = Inr res \<and> length (get_hyp_children [] (lw_element res)) = 1 \<and>
     get_hyp_children [] chain_el = []"
proof -
  obtain res where res: "rewrite_line ascii_unicode [] chain_lm chain_el = Inr res" "lw_path res = ''slow_path''"
    using rebuild_invents_break_markup_unseen by blast
  have "hyphen_role chain_lm = BOTH" "hyphen_source_explicit chain_lm" "\<not> hyphen_forward_explicit chain_lm"
    "get_hyp_children [] chain_el = []" by code_simp+
  from rebuild_invents_break_markup [OF this res] res(1) this(4) show ?thesis by blast
qed

end
