(* ===== verification/Alto_Parser.thy ===== *)
theory Alto_Parser
  imports Alto_Text Parsing
begin

text \<open>
  \<open>formats/alto/parser.py\<close>, and the format dispatch of \<open>formats/loader.py\<close>: from the tree of an ALTO
  file to the manifests the engine works on. Reading and decoding a file is outside; a file is the
  element at its root and its name.

  The hyphenation scan and the reading order of blocks are written as in the source; the loops over
  blocks and lines thread the counters they increment. A \<open>ValueError\<close> inside the parser becomes a
  \<open>ParseError\<close> (\<open>classify\<close>).
\<close>

section \<open>Hyphenation of a line\<close>

definition is_element :: "xml \<Rightarrow> bool" where
  "is_element el \<longleftrightarrow> el_tag el \<noteq> None"

record hyphen_scan =
  sc_part2 :: bool
  sc_backward_subs :: "ptext option"
  sc_part1 :: bool
  sc_forward_subs :: "ptext option"
  sc_forward_explicit :: bool

text \<open>\<open>if x: target = x\<close>\<close>

definition if_truthy :: "ptext option \<Rightarrow> ptext option" where
  "if_truthy x = (if truthy x then x else None)"

definition scan_textline :: "unicode \<Rightarrow> string \<Rightarrow> xml list \<Rightarrow> ptext \<Rightarrow> hyphen_scan" where
  "scan_textline u ns children ocr =
     (let strings = filter (has_tag ''String'' ns) children;
          part2 = (strings \<noteq> [] \<and> get_attr ''SUBS_TYPE'' (hd strings) = Some (tx ''HypPart2''));
          backward = (if part2 then get_attr ''SUBS_CONTENT'' (hd strings) else None);
          last_child = last children;
          by_hyp = (local_name last_child = ''HYP'');
          by_subs = (\<not> by_hyp \<and> strings \<noteq> [] \<and>
                     get_attr ''SUBS_TYPE'' (last strings) = Some (tx ''HypPart1''));
          forward = (if (by_hyp \<or> by_subs) \<and> strings \<noteq> []
                     then if_truthy (get_attr ''SUBS_CONTENT'' (last strings)) else None);
          by_dash = (\<not> by_hyp \<and> \<not> by_subs \<and> trailing_hyphen_char u ocr HYPHEN_CHARS \<noteq> None)
      in \<lparr>sc_part2 = part2, sc_backward_subs = backward, sc_part1 = (by_hyp \<or> by_subs \<or> by_dash),
          sc_forward_subs = forward, sc_forward_explicit = (by_hyp \<or> by_subs)\<rparr>)"

definition parse_textline_hyphen_info :: "unicode \<Rightarrow> string \<Rightarrow> xml \<Rightarrow> line_manifest \<Rightarrow> line_manifest" where
  "parse_textline_hyphen_info u ns textline line =
     (let children = filter is_element (el_children textline)
      in if children = [] then line
         else
           (let s = scan_textline u ns children (ocr_text line);
                subs = (\<lambda>x old. if truthy x then x else old)
            in if sc_part2 s \<and> sc_part1 s then
                 line\<lparr>hyphen_role := BOTH, hyphen_source_explicit := True,
                      hyphen_subs_content := subs (sc_backward_subs s) (hyphen_subs_content line),
                      hyphen_forward_explicit := sc_forward_explicit s,
                      hyphen_forward_subs_content :=
                        subs (sc_forward_subs s) (hyphen_forward_subs_content line)\<rparr>
               else if sc_part2 s then
                 line\<lparr>hyphen_role := PART2, hyphen_source_explicit := True,
                      hyphen_subs_content := subs (sc_backward_subs s) (hyphen_subs_content line)\<rparr>
               else if sc_part1 s then
                 line\<lparr>hyphen_role := PART1, hyphen_source_explicit := sc_forward_explicit s,
                      hyphen_subs_content := subs (sc_forward_subs s) (hyphen_subs_content line)\<rparr>
               else line))"

section \<open>Blocks and their reading order\<close>

definition MARGIN_LOCALNAMES :: "string list" where
  "MARGIN_LOCALNAMES = [''TopMargin'', ''BottomMargin'', ''LeftMargin'', ''RightMargin'']"

definition is_margin :: "string \<Rightarrow> xml \<Rightarrow> bool" where
  "is_margin ns el \<longleftrightarrow> list_ex (\<lambda>l. has_tag l ns el) MARGIN_LOCALNAMES"

text \<open>What one child contributes: \<open>walk\<close> of the source, on the child.\<close>

fun blocks_under :: "string \<Rightarrow> xml \<Rightarrow> xml list" where
  "blocks_under ns (Element t i as x cs) =
     (if t = None \<or> is_margin ns (Element t i as x cs) then []
      else if t = Some (qtag ''TextBlock'' ns) then [Element t i as x cs]
      else concat (map (blocks_under ns) cs))"

definition collect_blocks_skipping_margins :: "string \<Rightarrow> xml \<Rightarrow> xml list" where
  "collect_blocks_skipping_margins ns container = concat (map (blocks_under ns) (el_children container))"

definition block_id_of :: "xml \<Rightarrow> ident option" where
  "block_id_of b = (if truthy (get_id b) then get_id b else None)"

definition next_id_of :: "xml \<Rightarrow> ident option" where
  "next_id_of b =
     (case map_of (el_ids b) ''IDNEXT'' of
        None \<Rightarrow> None
      | Some nxt \<Rightarrow> if char_strip nxt = [] then None else Some (char_strip nxt))"

text \<open>\<open>None\<close>: duplicate block ids.\<close>

fun blocks_by_id :: "xml list \<Rightarrow> (ident, xml) dict \<Rightarrow> (ident, xml) dict option" where
  "blocks_by_id [] d = Some d"
| "blocks_by_id (b # bs) d =
     (case block_id_of b of
        None \<Rightarrow> blocks_by_id bs d
      | Some i \<Rightarrow> if i \<in> fst ` set d then None else blocks_by_id bs (dict_set i b d))"

text \<open>The declared successors and the blocks they name. \<open>None\<close>: a self-reference or two blocks with
  the same successor.\<close>

fun successors ::
  "(ident, xml) dict \<Rightarrow> xml list \<Rightarrow> (ident, ident) dict \<Rightarrow> ident set \<Rightarrow> ((ident, ident) dict \<times> ident set) option" where
  "successors by_id [] succ referenced = Some (succ, referenced)"
| "successors by_id (b # bs) succ referenced =
     (case next_id_of b of
        None \<Rightarrow> successors by_id bs succ referenced
      | Some nxt \<Rightarrow>
          (case block_id_of b of
             None \<Rightarrow> successors by_id bs succ referenced
           | Some i \<Rightarrow>
               if nxt \<notin> fst ` set by_id then successors by_id bs succ referenced
               else if nxt = i \<or> nxt \<in> referenced then None
               else successors by_id bs (dict_set i nxt succ) (insert nxt referenced)))"

text \<open>The inner loop: a chain from its head to its end. It ends because every turn visits a new
  block.\<close>

function read_chain ::
  "(ident, xml) dict \<Rightarrow> (ident, ident) dict \<Rightarrow> ident \<Rightarrow> ident list \<Rightarrow> ident list" where
  "read_chain by_id succ cur visited =
     (if cur \<in> set visited \<or> cur \<notin> fst ` set by_id then visited
      else (case map_of succ cur of
              None \<Rightarrow> visited @ [cur]
            | Some nxt \<Rightarrow> read_chain by_id succ nxt (visited @ [cur])))"
  by pat_completeness auto
termination
proof (relation "measure (\<lambda>(by_id, succ, cur, visited). card (fst ` set by_id - set visited))")
  fix by_id :: "(ident, xml) dict" and succ :: "(ident, ident) dict" and cur nxt visited
  assume new: "\<not> (cur \<in> set visited \<or> cur \<notin> fst ` set by_id)"
  have "fst ` set by_id - set (visited @ [cur]) \<subset> fst ` set by_id - set visited" using new by auto
  then show "((by_id, succ, nxt, visited @ [cur]), by_id, succ, cur, visited)
      \<in> measure (\<lambda>(by_id, succ, cur, visited). card (fst ` set by_id - set visited))"
    by (simp add: psubset_card_mono)
qed simp

declare read_chain.simps [simp del]

text \<open>The outer loop: heads in document order. The ordered blocks grow with what a chain visits.\<close>

fun order_blocks ::
  "(ident, xml) dict \<Rightarrow> (ident, ident) dict \<Rightarrow> ident set \<Rightarrow> xml list \<Rightarrow> ident list \<Rightarrow> xml list" where
  "order_blocks by_id succ referenced [] visited = []"
| "order_blocks by_id succ referenced (b # bs) visited =
     (case block_id_of b of
        None \<Rightarrow> b # order_blocks by_id succ referenced bs visited
      | Some i \<Rightarrow>
          if i \<in> set visited \<or> i \<in> referenced then order_blocks by_id succ referenced bs visited
          else
            (let visited' = read_chain by_id succ i visited
             in map (\<lambda>k. the (map_of by_id k)) (drop (length visited) visited') @
                order_blocks by_id succ referenced bs visited'))"

definition blocks_in_reading_order :: "string \<Rightarrow> xml \<Rightarrow> xml list" where
  "blocks_in_reading_order ns container =
     (let blocks = collect_blocks_skipping_margins ns container
      in if length blocks < 2 then blocks
         else (case blocks_by_id blocks [] of
                 None \<Rightarrow> blocks
               | Some by_id \<Rightarrow>
                   (case successors by_id blocks [] {} of
                      None \<Rightarrow> blocks
                    | Some (succ, referenced) \<Rightarrow>
                        if succ = [] then blocks
                        else (let ordered = order_blocks by_id succ referenced blocks []
                              in if length ordered \<noteq> length blocks then blocks else ordered))))"

section \<open>Lines, pages and files\<close>

text \<open>The engine's own confidence in a line: the mean of the word confidences in range.\<close>

definition word_confidence :: "xml \<Rightarrow> rat option" where
  "word_confidence s =
     (case get_attr ''WC'' s of
        None \<Rightarrow> None
      | Some raw \<Rightarrow>
          (case py_float raw of
             Some (Finite r) \<Rightarrow> if 0 \<le> r \<and> r \<le> 1 then Some r else None
           | _ \<Rightarrow> None))"

definition line_confidence :: "string \<Rightarrow> xml \<Rightarrow> rat option" where
  "line_confidence ns tl_el =
     (let wc = List.map_filter word_confidence (children_tagged ''String'' ns tl_el)
      in if wc = [] then None else Some (sum_list wc / of_nat (length wc)))"

definition read_coords :: "xml \<Rightarrow> exn + coords" where
  "read_coords el =
     res_bind (int_attr el ''HPOS'') (\<lambda>x. res_bind (int_attr el ''VPOS'') (\<lambda>y.
     res_bind (int_attr el ''WIDTH'') (\<lambda>w. res_bind (int_attr el ''HEIGHT'') (\<lambda>h.
       Inr \<lparr>hpos = x, vpos = y, width = w, height = h, polygon = None\<rparr>))))"

definition parse_line ::
  "unicode \<Rightarrow> string \<Rightarrow> ident \<Rightarrow> ident \<Rightarrow> int \<Rightarrow> nat \<Rightarrow> xml \<Rightarrow> exn + line_manifest" where
  "parse_line u ns page block global_idx n tl_el =
     (let l = or_else (get_id tl_el) (''TL_'' @ block @ ''_'' @ dec n)
      in res_bind (read_coords tl_el) (\<lambda>c.
           Inr (parse_textline_hyphen_info u ns tl_el
             \<lparr>line_id = l, page_id = page, block_id = block, line_order_global = global_idx,
              line_order_in_block = int n, coords_of = c, ocr_text = build_ocr_text u ns tl_el,
              word_count = None, ocr_confidence = line_confidence ns tl_el, prev_line_id = None,
              next_line_id = None, corrected_text = None, status = PENDING, hyphen_role = NONE,
              hyphen_pair_line_id = None, hyphen_pair_page_id = None, hyphen_subs_content = None,
              hyphen_source_explicit = False, hyphen_forward_pair_id = None,
              hyphen_forward_pair_page_id = None, hyphen_forward_subs_content = None,
              hyphen_forward_explicit = False\<rparr>)))"

definition block_name :: "ident \<Rightarrow> nat \<Rightarrow> xml \<Rightarrow> ident" where
  "block_name page order b = or_else (get_id b) (''TB_'' @ page @ ''_'' @ dec order)"

definition parse_blocks ::
  "unicode \<Rightarrow> string \<Rightarrow> ident \<Rightarrow> int \<Rightarrow> nat \<Rightarrow> xml list \<Rightarrow> exn + (block_manifest list \<times> line_manifest list)" where
  "parse_blocks u ns page = read_blocks (block_name page) read_coords (parse_line u ns page) ns page"

definition page_blocks :: "string \<Rightarrow> xml \<Rightarrow> xml list" where
  "page_blocks ns page_el = blocks_in_reading_order ns (or_else (find_child ''PrintSpace'' ns page_el) page_el)"

definition parse_page ::
  "unicode \<Rightarrow> string \<Rightarrow> ident \<Rightarrow> pairing_policy \<Rightarrow> nat \<Rightarrow> int \<Rightarrow> xml \<Rightarrow> exn + page_manifest" where
  "parse_page u ns source pol index global_idx page_el =
     (let page = or_else (get_id page_el) (''PAGE_'' @ dec index)
      in res_bind (int_attr page_el ''WIDTH'') (\<lambda>w. res_bind (int_attr page_el ''HEIGHT'') (\<lambda>h.
           res_bind (parse_blocks u ns page global_idx 0 (page_blocks ns page_el)) (\<lambda>(blocks, lines).
             Inr \<lparr>pg_id = page, pg_source_file = source, pg_index = int index, pg_width = w, pg_height = h,
                  pg_blocks = blocks, pg_lines = link_hyphen_pairs pol (link_neighbours lines)\<rparr>))))"

definition parse_alto_tree ::
  "unicode \<Rightarrow> ident \<Rightarrow> nat \<Rightarrow> int \<Rightarrow> pairing_policy \<Rightarrow> xml \<Rightarrow> exn + page_manifest list" where
  "parse_alto_tree u source page_offset line_offset pol el =
     (let ns = detect_namespace el
      in case find_child ''Layout'' ns el of
           None \<Rightarrow> Inr []
         | Some layout \<Rightarrow>
             res_bind (read_pages (parse_page u ns source pol) page_offset line_offset
                         (children_tagged ''Page'' ns layout))
               (gate_pages ''TextLine ID(s)'' (map get_id (iter_tagged ''TextLine'' ns el))))"

definition parse_alto_file ::
  "unicode \<Rightarrow> ident \<Rightarrow> nat \<Rightarrow> int \<Rightarrow> pairing_policy \<Rightarrow> xml \<Rightarrow> exn + page_manifest list" where
  "parse_alto_file u source page_offset line_offset pol el =
     classify (parse_alto_tree u source page_offset line_offset pol el)"

section \<open>The format of a document\<close>

definition ALTO_MARKER :: string where
  "ALTO_MARKER = ''loc.gov/standards/alto''"

definition PAGE_MARKER :: string where
  "PAGE_MARKER = ''primaresearch.org/PAGE''"

definition ROOT_LOCAL_NAME :: "(string, string) dict" where
  "ROOT_LOCAL_NAME = [(''alto'', ''alto''), (''PcGts'', ''page'')]"

definition MANDATORY_CHILD :: "(string, string) dict" where
  "MANDATORY_CHILD = [(''alto'', ''Layout''), (''page'', ''Page'')]"

definition occurs_in :: "string \<Rightarrow> string \<Rightarrow> bool" where
  "occurs_in pat s \<longleftrightarrow> list_ex (\<lambda>i. take (length pat) (drop i s) = pat) [0 ..< Suc (length s)]"

fun has_local_below :: "string \<Rightarrow> xml \<Rightarrow> bool" where
  "has_local_below name (Element t i as x cs) \<longleftrightarrow>
     list_ex (\<lambda>c. local_name c = name \<or> has_local_below name c) cs"

definition sniff_format :: "xml \<Rightarrow> exn + string" where
  "sniff_format el =
     (let ns = detect_namespace el
      in if occurs_in ALTO_MARKER ns then Inr ''alto''
         else if occurs_in PAGE_MARKER ns then Inr ''page''
         else (case map_of ROOT_LOCAL_NAME (local_name el) of
                 None \<Rightarrow> Inl (Exn C_ParseError ''neither ALTO nor PAGE'')
               | Some fmt \<Rightarrow>
                   if has_local_below (the (map_of MANDATORY_CHILD fmt)) el then Inr fmt
                   else Inl (Exn C_ParseError ''neither ALTO nor PAGE'')))"

fun require_alto :: "source_file list \<Rightarrow> exn + unit" where
  "require_alto [] = Inr ()"
| "require_alto (f # fs) =
     res_bind (sniff_format (sf_root f)) (\<lambda>fmt.
       if fmt \<noteq> ''alto'' then Inl (Exn C_ParseError ''not ALTO'') else require_alto fs)"

definition build_document_manifest ::
  "unicode \<Rightarrow> ident \<Rightarrow> pairing_policy \<Rightarrow> source_file list \<Rightarrow> exn + document_manifest" where
  "build_document_manifest u did pol files =
     res_bind (require_alto files) (\<lambda>_.
       res_bind (read_files (\<lambda>source po lo. parse_alto_file u source po lo pol) 0 0 files) (\<lambda>parsed.
         Inr (assemble_document did pol ''alto'' files parsed)))"

section \<open>Facts: the reading order\<close>

lemma blocks_by_id_spec:
  "blocks_by_id bs d = Some d' \<Longrightarrow> distinct (map fst d) \<Longrightarrow>
   distinct (map fst d') \<and>
   mset (map snd d') = mset (map snd d) + mset (filter (\<lambda>b. block_id_of b \<noteq> None) bs)"
proof (induction bs arbitrary: d)
  case (Cons b bs)
  show ?case
  proof (cases "block_id_of b")
    case None
    with Cons show ?thesis by auto
  next
    case (Some i)
    with Cons.prems(1) have new: "i \<notin> fst ` set d" and rest: "blocks_by_id bs (dict_set i b d) = Some d'"
      by (auto split: if_splits)
    have app: "dict_set i b d = d @ [(i, b)]" using new by (rule dict_set_new)
    from Cons.IH [OF rest] Cons.prems(2) Some new show ?thesis by (simp add: app)
  qed
qed simp

lemma read_chain_spec:
  "distinct visited \<Longrightarrow> set visited \<subseteq> fst ` set by_id \<Longrightarrow>
   \<exists>new. read_chain by_id succ cur visited = visited @ new \<and> distinct (visited @ new) \<and>
     set (visited @ new) \<subseteq> fst ` set by_id"
proof (induction by_id succ cur visited rule: read_chain.induct)
  case (1 by_id succ cur visited)
  show ?case
  proof (cases "cur \<in> set visited \<or> cur \<notin> fst ` set by_id")
    case True
    then show ?thesis using 1(2,3) by (simp add: read_chain.simps [of by_id succ cur])
  next
    case False
    have step: "distinct (visited @ [cur])" "set (visited @ [cur]) \<subseteq> fst ` set by_id" using False 1(2,3) by auto
    show ?thesis
    proof (cases "map_of succ cur")
      case None
      then show ?thesis using False step by (simp add: read_chain.simps [of by_id succ cur])
    next
      case (Some nxt)
      from 1(1) [OF False Some step] obtain new where
        "read_chain by_id succ nxt (visited @ [cur]) = (visited @ [cur]) @ new"
        "distinct ((visited @ [cur]) @ new)" "set ((visited @ [cur]) @ new) \<subseteq> fst ` set by_id" by blast
      then show ?thesis using False Some
        by (intro exI [of _ "cur # new"]) (simp add: read_chain.simps [of by_id succ cur])
    qed
  qed
qed

text \<open>What the walk emits: blocks without an identifier in their place, and every named block at most
  once.\<close>

lemma order_blocks_spec:
  "distinct visited \<Longrightarrow> set visited \<subseteq> fst ` set by_id \<Longrightarrow>
   \<exists>new. mset (order_blocks by_id succ referenced bs visited) =
       mset (filter (\<lambda>b. block_id_of b = None) bs) + mset (map (\<lambda>k. the (map_of by_id k)) new) \<and>
     distinct (visited @ new) \<and> set (visited @ new) \<subseteq> fst ` set by_id"
proof (induction bs arbitrary: visited)
  case (Cons b bs)
  show ?case
  proof (cases "block_id_of b")
    case None
    with Cons.IH [OF Cons.prems] show ?thesis by fastforce
  next
    case (Some i)
    show ?thesis
    proof (cases "i \<in> set visited \<or> i \<in> referenced")
      case True
      with Cons.IH [OF Cons.prems] Some show ?thesis by simp
    next
      case False
      from read_chain_spec [OF Cons.prems] obtain new1 where
        f: "read_chain by_id succ i visited = visited @ new1" "distinct (visited @ new1)"
          "set (visited @ new1) \<subseteq> fst ` set by_id" by blast
      from Cons.IH [OF f(2,3)] obtain new2 where
        "mset (order_blocks by_id succ referenced bs (visited @ new1)) =
           mset (filter (\<lambda>b. block_id_of b = None) bs) + mset (map (\<lambda>k. the (map_of by_id k)) new2)"
        "distinct ((visited @ new1) @ new2)" "set ((visited @ new1) @ new2) \<subseteq> fst ` set by_id" by blast
      with False Some f(1) show ?thesis by (intro exI [of _ "new1 @ new2"]) (simp add: Let_def)
    qed
  qed
qed simp

lemma looked_up_submset:
  assumes "distinct (map fst d)" "distinct ks" "set ks \<subseteq> fst ` set d"
  shows "mset (map (\<lambda>k. the (map_of d k)) ks) \<subseteq># mset (map snd d)"
proof -
  have "mset ks \<subseteq># mset (map fst d)"
  proof (rule mset_subset_eqI)
    fix a
    have "count (mset ks) a = (if a \<in> set ks then 1 else 0)"
      "count (mset (map fst d)) a = (if a \<in> set (map fst d) then 1 else 0)"
      using assms(1,2) by (simp_all only: distinct_count_atmost_1)
    then show "count (mset ks) a \<le> count (mset (map fst d)) a" using assms(3) by auto
  qed
  then have "image_mset (\<lambda>k. the (map_of d k)) (mset ks) \<subseteq># image_mset (\<lambda>k. the (map_of d k)) (mset (map fst d))"
    by (rule image_mset_subseteq_mono)
  moreover have "map (\<lambda>k. the (map_of d k)) (map fst d) = map snd d"
    using assms(1) by (auto simp: map_of_eq_Some_iff intro!: map_cong)
  ultimately show ?thesis by (metis mset_map)
qed

lemma submset_full:
  assumes "mset xs \<subseteq># mset ys" "length xs = length ys" shows "mset xs = mset ys"
proof (rule ccontr)
  assume "mset xs \<noteq> mset ys"
  with assms(1) have "mset xs \<subset># mset ys" by (simp add: subset_mset.less_le)
  then have "size (mset xs) < size (mset ys)" by (rule mset_subset_size)
  with assms(2) show False by simp
qed

text \<open>No declaration of successors, consistent or not, loses a block or reads one twice.\<close>

lemma reading_order_perm:
  "mset (blocks_in_reading_order ns container) = mset (collect_blocks_skipping_margins ns container)"
proof -
  let ?bs = "collect_blocks_skipping_margins ns container"
  have "mset (order_blocks by_id succ ref ?bs []) = mset ?bs"
    if by_id: "blocks_by_id ?bs [] = Some by_id" and len: "length (order_blocks by_id succ ref ?bs []) = length ?bs"
    for by_id succ ref
  proof -
    from blocks_by_id_spec [OF by_id] have d: "distinct (map fst by_id)"
      "mset (map snd by_id) = mset (filter (\<lambda>b. block_id_of b \<noteq> None) ?bs)" by auto
    obtain new where new: "mset (order_blocks by_id succ ref ?bs []) =
        mset (filter (\<lambda>b. block_id_of b = None) ?bs) + mset (map (\<lambda>k. the (map_of by_id k)) new)"
      "distinct new" "set new \<subseteq> fst ` set by_id"
      using order_blocks_spec [of "[]" by_id succ ref ?bs] by auto
    have split: "mset ?bs = mset (filter (\<lambda>b. block_id_of b = None) ?bs) +
        mset (filter (\<lambda>b. block_id_of b \<noteq> None) ?bs)"
      using multiset_partition [of "mset ?bs" "\<lambda>b. block_id_of b = None"] by (simp add: mset_filter)
    have "mset (map (\<lambda>k. the (map_of by_id k)) new) \<subseteq># mset (filter (\<lambda>b. block_id_of b \<noteq> None) ?bs)"
      using looked_up_submset [OF d(1) new(2,3)] by (simp only: d(2))
    then have "mset (filter (\<lambda>b. block_id_of b = None) ?bs) + mset (map (\<lambda>k. the (map_of by_id k)) new) \<subseteq>#
        mset (filter (\<lambda>b. block_id_of b = None) ?bs) + mset (filter (\<lambda>b. block_id_of b \<noteq> None) ?bs)"
      by (rule subset_mset.add_left_mono)
    then have "mset (order_blocks by_id succ ref ?bs []) \<subseteq># mset ?bs" by (simp only: new(1) flip: split)
    then show ?thesis using len by (rule submset_full)
  qed
  then show ?thesis
    by (auto simp: blocks_in_reading_order_def Let_def split: option.split prod.split)
qed

text \<open>The declared successors: every block is declared by at most one other, and is one of the page.\<close>

definition sound_links :: "(ident, xml) dict \<Rightarrow> (ident, ident) dict \<Rightarrow> ident set \<Rightarrow> bool" where
  "sound_links by_id succ referenced \<longleftrightarrow>
     (\<forall>a b. map_of succ a = Some b \<longrightarrow> b \<in> referenced \<and> b \<in> fst ` set by_id) \<and>
     (\<forall>a a' b. map_of succ a = Some b \<longrightarrow> map_of succ a' = Some b \<longrightarrow> a = a')"

lemma successors_sound:
  "successors by_id bs succ referenced = Some (succ', referenced') \<Longrightarrow> sound_links by_id succ referenced \<Longrightarrow>
   sound_links by_id succ' referenced'"
proof (induction bs arbitrary: succ referenced)
  case (Cons b bs)
  show ?case
  proof (cases "next_id_of b = None \<or> block_id_of b = None \<or> the (next_id_of b) \<notin> fst ` set by_id")
    case True
    with Cons show ?thesis by (auto split: option.splits)
  next
    case False
    then obtain nxt i where n: "next_id_of b = Some nxt" "block_id_of b = Some i" by auto
    with False have known: "nxt \<in> fst ` set by_id" by simp
    from Cons.prems(1) n known have fresh: "nxt \<notin> referenced"
      and rest: "successors by_id bs (dict_set i nxt succ) (insert nxt referenced) = Some (succ', referenced')"
      by (auto split: if_splits)
    have "sound_links by_id (dict_set i nxt succ) (insert nxt referenced)"
      using Cons.prems(2) known fresh unfolding sound_links_def by (auto split: if_splits)
    from Cons.IH [OF rest this] show ?thesis .
  qed
qed simp

definition preds_first :: "(ident, ident) dict \<Rightarrow> ident list \<Rightarrow> bool" where
  "preds_first succ visited \<longleftrightarrow> (\<forall>v \<in> set visited. \<forall>a. map_of succ a = Some v \<longrightarrow> a \<in> set visited)"

text \<open>Next to each other in a list.\<close>

definition adjacent :: "'a \<Rightarrow> 'a \<Rightarrow> 'a list \<Rightarrow> bool" where
  "adjacent a b xs \<longleftrightarrow> (\<exists>ys zs. xs = ys @ [a, b] @ zs)"

lemma adjacent_append: "adjacent a b xs \<Longrightarrow> adjacent a b (us @ xs @ vs)"
  unfolding adjacent_def by (metis append.assoc)

lemma adjacent_members: "adjacent a b xs \<Longrightarrow> a \<in> set xs \<and> b \<in> set xs"
  by (auto simp: adjacent_def)

lemma adjacent_map: "adjacent a b xs \<Longrightarrow> adjacent (f a) (f b) (map f xs)"
  unfolding adjacent_def by force

text \<open>A chain is visited to its end: what it adds holds every successor right after its block.\<close>

lemma read_chain_adjacent:
  assumes "sound_links by_id succ referenced"
  shows "preds_first succ visited \<Longrightarrow> \<forall>a. map_of succ a = Some cur \<longrightarrow> a \<in> set visited \<Longrightarrow>
    cur \<notin> set visited \<Longrightarrow> cur \<in> fst ` set by_id \<Longrightarrow>
    \<exists>new. read_chain by_id succ cur visited = visited @ cur # new \<and> preds_first succ (visited @ cur # new) \<and>
      set (cur # new) \<subseteq> fst ` set by_id \<and>
      (\<forall>a b. a \<in> set (cur # new) \<longrightarrow> map_of succ a = Some b \<longrightarrow> adjacent a b (cur # new))"
  using assms
proof (induction by_id succ cur visited rule: read_chain.induct)
  case (1 by_id succ cur visited)
  have closed: "preds_first succ (visited @ [cur])" using 1(2,3) by (auto simp: preds_first_def)
  have go: "\<not> (cur \<in> set visited \<or> cur \<notin> fst ` set by_id)" using 1(4,5) by simp
  show ?case
  proof (cases "map_of succ cur")
    case None
    with go have "read_chain by_id succ cur visited = visited @ cur # []"
      by (simp add: read_chain.simps [of by_id succ cur])
    then show ?thesis using closed None 1(5) by (intro exI [of _ "[]"]) auto
  next
    case (Some nxt)
    have nxt: "nxt \<in> fst ` set by_id" "\<forall>a. map_of succ a = Some nxt \<longrightarrow> a = cur"
      using 1(6) Some unfolding sound_links_def by blast+
    have new: "nxt \<notin> set (visited @ [cur])"
    proof
      assume "nxt \<in> set (visited @ [cur])"
      then consider "nxt \<in> set visited" | "nxt = cur" by auto
      then show False
      proof cases
        case 1
        then show False using \<open>preds_first succ visited\<close> Some go by (auto simp: preds_first_def)
      next
        case 2
        then show False using 1(3) Some go by blast
      qed
    qed
    have pre: "\<forall>a. map_of succ a = Some nxt \<longrightarrow> a \<in> set (visited @ [cur])" using nxt(2) by simp
    from 1(1) [OF go Some closed pre new nxt(1) 1(6)] obtain rest where
      rest: "read_chain by_id succ nxt (visited @ [cur]) = (visited @ [cur]) @ nxt # rest"
        "preds_first succ ((visited @ [cur]) @ nxt # rest)" "set (nxt # rest) \<subseteq> fst ` set by_id"
        "\<forall>a b. a \<in> set (nxt # rest) \<longrightarrow> map_of succ a = Some b \<longrightarrow> adjacent a b (nxt # rest)" by blast
    have "adjacent a b (cur # nxt # rest)" if "a \<in> set (cur # nxt # rest)" "map_of succ a = Some b" for a b
    proof (cases "a = cur")
      case True
      then have "b = nxt" using that(2) Some by simp
      with True show ?thesis unfolding adjacent_def by (metis append_Cons append_Nil)
    next
      case False
      then have "a \<in> set (nxt # rest)" using that(1) by simp
      with rest(4) that(2) have "adjacent a b (nxt # rest)" by blast
      from adjacent_append [OF this, of "[cur]" "[]"] show ?thesis by simp
    qed
    with rest(1-3) go Some show ?thesis
      by (intro exI [of _ "nxt # rest"]) (auto simp: read_chain.simps [of by_id succ cur])
  qed
qed

text \<open>What the outer loop visits: every head, every chain to its end, no block twice.\<close>

definition walked ::
  "(ident, xml) dict \<Rightarrow> (ident, ident) dict \<Rightarrow> ident set \<Rightarrow> xml list \<Rightarrow> ident list \<Rightarrow> ident list \<Rightarrow> bool" where
  "walked by_id succ referenced bs visited new \<longleftrightarrow>
     set new \<subseteq> fst ` set by_id \<and> distinct (visited @ new) \<and>
     mset (order_blocks by_id succ referenced bs visited) =
       mset (filter (\<lambda>b. block_id_of b = None) bs) + mset (map (\<lambda>k. the (map_of by_id k)) new) \<and>
     (\<forall>b \<in> set bs. \<forall>i. block_id_of b = Some i \<longrightarrow> i \<notin> referenced \<longrightarrow> i \<in> set (visited @ new)) \<and>
     (\<forall>a b. a \<in> set new \<longrightarrow> map_of succ a = Some b \<longrightarrow> b \<in> set new \<and>
        adjacent (the (map_of by_id a)) (the (map_of by_id b)) (order_blocks by_id succ referenced bs visited))"

lemma order_blocks_walk:
  assumes "sound_links by_id succ referenced"
  shows "preds_first succ visited \<Longrightarrow> distinct visited \<Longrightarrow> set visited \<subseteq> fst ` set by_id \<Longrightarrow>
    \<forall>b \<in> set bs. \<forall>i. block_id_of b = Some i \<longrightarrow> i \<in> fst ` set by_id \<Longrightarrow>
    \<exists>new. walked by_id succ referenced bs visited new"
proof (induction bs arbitrary: visited)
  case Nil
  then show ?case by (intro exI [of _ "[]"]) (simp add: walked_def)
next
  case (Cons b bs)
  show ?case
  proof (cases "block_id_of b")
    case None
    from Cons.IH [OF Cons.prems(1-3)] Cons.prems(4) obtain new where
      new: "walked by_id succ referenced bs visited new" by auto
    then have "walked by_id succ referenced (b # bs) visited new"
      using None adjacent_append [of _ _ "order_blocks by_id succ referenced bs visited" "[b]" "[]"]
      by (simp add: walked_def)
    then show ?thesis by blast
  next
    case (Some i)
    show ?thesis
    proof (cases "i \<in> set visited \<or> i \<in> referenced")
      case True
      from Cons.IH [OF Cons.prems(1-3)] Cons.prems(4) obtain new where
        "walked by_id succ referenced bs visited new" by auto
      then have "walked by_id succ referenced (b # bs) visited new" using Some True by (auto simp: walked_def)
      then show ?thesis by blast
    next
      case False
      have heads: "\<forall>a. map_of succ a = Some i \<longrightarrow> a \<in> set visited"
        using assms False unfolding sound_links_def by blast
      have "i \<in> fst ` set by_id" using Cons.prems(4) Some by auto
      from read_chain_adjacent [OF assms Cons.prems(1) heads _ this] False obtain chain where
        c: "read_chain by_id succ i visited = visited @ i # chain" "preds_first succ (visited @ i # chain)"
          "set (i # chain) \<subseteq> fst ` set by_id"
          "\<forall>a b. a \<in> set (i # chain) \<longrightarrow> map_of succ a = Some b \<longrightarrow> adjacent a b (i # chain)" by auto
      have d: "distinct (visited @ i # chain)" "set (visited @ i # chain) \<subseteq> fst ` set by_id"
        using read_chain_spec [OF Cons.prems(2,3), of succ i] c(1) by auto
      let ?rest = "order_blocks by_id succ referenced bs (visited @ i # chain)"
      let ?f = "\<lambda>k. the (map_of by_id k)"
      from Cons.IH [OF c(2) d] Cons.prems(4) obtain new where
        new: "walked by_id succ referenced bs (visited @ i # chain) new" by auto
      have ord: "order_blocks by_id succ referenced (b # bs) visited = map ?f (i # chain) @ ?rest"
        using False Some c(1) by (simp add: Let_def)
      have "walked by_id succ referenced (b # bs) visited ((i # chain) @ new)"
        unfolding walked_def ord
      proof (intro conjI allI impI)
        fix a d assume a: "a \<in> set ((i # chain) @ new)" "map_of succ a = Some d"
        have *: "d \<in> set ((i # chain) @ new) \<and> adjacent (?f a) (?f d) (map ?f (i # chain) @ ?rest)"
        proof (cases "a \<in> set (i # chain)")
          case True
          with c(4) a(2) have adj: "adjacent a d (i # chain)" by blast
          then have "d \<in> set (i # chain)" using adjacent_members by metis
          with adjacent_append [OF adjacent_map [OF adj, of ?f], of "[]" ?rest] show ?thesis by auto
        next
          case False
          with a(1) have "a \<in> set new" by auto
          with a(2) new have "d \<in> set new \<and> adjacent (?f a) (?f d) ?rest" unfolding walked_def by blast
          with adjacent_append [of "?f a" "?f d" ?rest "map ?f (i # chain)" "[]"] show ?thesis by simp
        qed
        then show "d \<in> set ((i # chain) @ new)" "adjacent (?f a) (?f d) (map ?f (i # chain) @ ?rest)" by blast+
      next
        show "set ((i # chain) @ new) \<subseteq> fst ` set by_id" using new c(3) by (simp add: walked_def)
        show "distinct (visited @ (i # chain) @ new)" using new by (simp add: walked_def)
        show "mset (map ?f (i # chain) @ ?rest) =
            mset (filter (\<lambda>b. block_id_of b = None) (b # bs)) + mset (map ?f ((i # chain) @ new))"
          using new Some by (simp add: walked_def)
        have "\<forall>e \<in> set bs. \<forall>k. block_id_of e = Some k \<longrightarrow> k \<notin> referenced \<longrightarrow>
            k \<in> set ((visited @ i # chain) @ new)"
          using new unfolding walked_def by blast
        then show "\<forall>e \<in> set (b # bs). \<forall>k. block_id_of e = Some k \<longrightarrow> k \<notin> referenced \<longrightarrow>
            k \<in> set (visited @ (i # chain) @ new)"
          using Some by simp
      qed
      then show ?thesis by blast
    qed
  qed
qed

text \<open>The identifiers of the named blocks, and which declares which as its successor on the page.\<close>

definition block_names :: "xml list \<Rightarrow> ident list" where
  "block_names bs = List.map_filter block_id_of bs"

definition linked :: "xml list \<Rightarrow> xml list \<Rightarrow> ident \<Rightarrow> ident \<Rightarrow> bool" where
  "linked bs cs i n \<longleftrightarrow>
     (\<exists>b \<in> set cs. block_id_of b = Some i \<and> next_id_of b = Some n) \<and> n \<in> set (block_names bs)"

abbreviation declares :: "xml list \<Rightarrow> ident \<Rightarrow> ident \<Rightarrow> bool" where
  "declares bs \<equiv> linked bs bs"

lemma linked_simps [simp]:
  "\<not> linked bs [] i n"
  "linked bs (c # cs) i n \<longleftrightarrow>
     (block_id_of c = Some i \<and> next_id_of c = Some n \<and> n \<in> set (block_names bs)) \<or> linked bs cs i n"
  by (auto simp: linked_def)

lemma block_names_simps [simp]:
  "block_names [] = []" "block_names (b # bs) = (case block_id_of b of None \<Rightarrow> block_names bs | Some i \<Rightarrow> i # block_names bs)"
  by (simp_all add: block_names_def map_filter_simps split: option.split)

lemma block_names_set: "i \<in> set (block_names bs) \<longleftrightarrow> (\<exists>b \<in> set bs. block_id_of b = Some i)"
  by (induction bs) (auto split: option.split)

lemma block_names_length: "length (filter (\<lambda>b. block_id_of b = None) bs) + length (block_names bs) = length bs"
  by (induction bs) (auto split: option.split)

lemma blocks_by_id_some:
  "distinct (map fst d @ block_names bs) \<Longrightarrow> \<exists>d'. blocks_by_id bs d = Some d' \<and>
     map fst d' = map fst d @ block_names bs \<and>
     (\<forall>i. map_of d' i = (if i \<in> fst ` set d then map_of d i else List.find (\<lambda>b. block_id_of b = Some i) bs))"
proof (induction bs arbitrary: d)
  case Nil
  then show ?case by (simp add: map_of_eq_None_iff)
next
  case (Cons b bs)
  show ?case
  proof (cases "block_id_of b")
    case None
    then have "distinct (map fst d @ block_names bs)" using Cons.prems by simp
    from Cons.IH [OF this] obtain d' where "blocks_by_id bs d = Some d'" "map fst d' = map fst d @ block_names bs"
      "\<forall>i. map_of d' i = (if i \<in> fst ` set d then map_of d i else List.find (\<lambda>b. block_id_of b = Some i) bs)"
      by blast
    with None show ?thesis by (intro exI [of _ d']) simp
  next
    case (Some i)
    with Cons.prems have new: "i \<notin> fst ` set d" by auto
    then have keys: "map fst (dict_set i b d) = map fst d @ [i]" by (simp add: keys_dict_set)
    with Cons.IH [of "dict_set i b d"] Cons.prems Some obtain d' where d':
      "blocks_by_id bs (dict_set i b d) = Some d'" "map fst d' = (map fst d @ [i]) @ block_names bs"
      "\<forall>k. map_of d' k = (if k \<in> fst ` set (dict_set i b d) then map_of (dict_set i b d) k
         else List.find (\<lambda>c. block_id_of c = Some k) bs)" by auto
    with Some new show ?thesis by (intro exI [of _ d']) auto
  qed
qed

lemma successors_some:
  assumes keys: "fst ` set by_id = set (block_names all_blocks)"
    and irrefl: "\<And>i n. declares all_blocks i n \<Longrightarrow> i \<noteq> n"
    and unique: "\<And>a b n. declares all_blocks a n \<Longrightarrow> declares all_blocks b n \<Longrightarrow> a = b"
  shows "set bs \<subseteq> set all_blocks \<Longrightarrow> distinct (block_names bs) \<Longrightarrow>
    fst ` set succ \<inter> set (block_names bs) = {} \<Longrightarrow>
    \<forall>i n. linked all_blocks bs i n \<longrightarrow> n \<notin> referenced \<Longrightarrow>
    \<exists>succ' referenced'. successors by_id bs succ referenced = Some (succ', referenced') \<and>
      (\<forall>i n. map_of succ' i = Some n \<longleftrightarrow> map_of succ i = Some n \<or> linked all_blocks bs i n) \<and>
      (\<forall>n. n \<in> referenced' \<longleftrightarrow> n \<in> referenced \<or> (\<exists>i. linked all_blocks bs i n))"
proof (induction bs arbitrary: succ referenced)
  case (Cons b bs)
  have sub: "set bs \<subseteq> set all_blocks" using Cons.prems(1) by simp
  have dist: "distinct (block_names bs)" using Cons.prems(2) by (auto split: option.splits)
  show ?case
  proof (cases "next_id_of b = None \<or> block_id_of b = None \<or> the (next_id_of b) \<notin> set (block_names all_blocks)")
    case True
    then have skip: "linked all_blocks (b # bs) i n \<longleftrightarrow> linked all_blocks bs i n" for i n by auto
    have "fst ` set succ \<inter> set (block_names bs) = {}" using Cons.prems(3) by (auto split: option.splits)
    moreover have "\<forall>i n. linked all_blocks bs i n \<longrightarrow> n \<notin> referenced" using Cons.prems(4) by (simp only: skip)
    moreover have "successors by_id (b # bs) succ referenced = successors by_id bs succ referenced"
      using True keys by (auto split: option.split)
    ultimately show ?thesis using Cons.IH [OF sub dist] by (simp only: skip)
  next
    case False
    then obtain nxt i where n: "next_id_of b = Some nxt" "block_id_of b = Some i" by auto
    with False have known: "nxt \<in> set (block_names all_blocks)" by simp
    have decl: "declares all_blocks i nxt" using Cons.prems(1) n known by (auto simp: linked_def)
    then have "nxt \<noteq> i" using irrefl by blast
    moreover have "nxt \<notin> referenced" using Cons.prems(4) n known by auto
    ultimately have go: "successors by_id (b # bs) succ referenced =
        successors by_id bs (dict_set i nxt succ) (insert nxt referenced)"
      using n known keys by simp
    have other: "\<not> linked all_blocks bs k nxt" for k
    proof
      assume l: "linked all_blocks bs k nxt"
      with sub have "declares all_blocks k nxt" by (auto simp: linked_def)
      with decl unique have "k = i" by blast
      moreover have "k \<in> set (block_names bs)" using l by (auto simp: linked_def block_names_set)
      ultimately show False using Cons.prems(2) n by simp
    qed
    have apart: "fst ` set (dict_set i nxt succ) \<inter> set (block_names bs) = {}" using Cons.prems(2,3) n by auto
    have unseen: "\<forall>i n. linked all_blocks bs i n \<longrightarrow> n \<notin> insert nxt referenced"
      using Cons.prems(4) other by auto
    from Cons.IH [OF sub dist apart unseen] obtain succ' referenced' where
      r: "successors by_id bs (dict_set i nxt succ) (insert nxt referenced) = Some (succ', referenced')"
      "\<forall>k m. map_of succ' k = Some m \<longleftrightarrow> map_of (dict_set i nxt succ) k = Some m \<or> linked all_blocks bs k m"
      "\<forall>m. m \<in> referenced' \<longleftrightarrow> m \<in> insert nxt referenced \<or> (\<exists>k. linked all_blocks bs k m)"
      by (elim exE conjE)
    have "map_of succ i = None" using Cons.prems(3) n by (auto simp: map_of_eq_None_iff)
    then have upd: "map_of (dict_set i nxt succ) k = Some m \<longleftrightarrow> map_of succ k = Some m \<or> (k = i \<and> m = nxt)" for k m
      by auto
    have "map_of succ' k = Some m \<longleftrightarrow> map_of succ k = Some m \<or> linked all_blocks (b # bs) k m" for k m
      unfolding linked_simps using r(2) [rule_format, of k m] upd [of k m] n known
      by (simp only: option.inject) blast
    moreover have "m \<in> referenced' \<longleftrightarrow> m \<in> referenced \<or> (\<exists>k. linked all_blocks (b # bs) k m)" for m
      unfolding linked_simps using r(3) [rule_format, of m] n known
      by (simp only: option.inject insert_iff) blast
    ultimately show ?thesis unfolding go using r(1) by blast
  qed
qed simp

text \<open>Declarations that give every block at most one predecessor and close no cycle (every successor
  has a higher rank) are honoured: each declared successor stands right after its block.\<close>

lemma declared_order_honoured:
  assumes ids: "distinct (block_names bs)"
    and rank: "\<And>i n. declares bs i n \<Longrightarrow> rank i < (rank n :: nat)"
    and unique: "\<And>a b n. declares bs a n \<Longrightarrow> declares bs b n \<Longrightarrow> a = b"
    and bs: "bs = collect_blocks_skipping_margins ns container"
    and pair: "x \<in> set bs" "y \<in> set bs" "block_id_of x \<noteq> None" "block_id_of y \<noteq> None"
      "next_id_of x = block_id_of y"
  shows "adjacent x y (blocks_in_reading_order ns container)"
proof -
  obtain by_id where by_id: "blocks_by_id bs [] = Some by_id" "map fst by_id = block_names bs"
    "\<And>i. map_of by_id i = List.find (\<lambda>b. block_id_of b = Some i) bs"
    using blocks_by_id_some [of "[]" bs] ids by auto
  have keys: "fst ` set by_id = set (block_names bs)" by (metis by_id(2) set_map)
  have irrefl: "i \<noteq> n" if "declares bs i n" for i n using rank [OF that] by blast
  have "\<exists>succ referenced. successors by_id bs [] {} = Some (succ, referenced) \<and>
      (\<forall>i n. map_of succ i = Some n \<longleftrightarrow> map_of [] i = Some n \<or> declares bs i n) \<and>
      (\<forall>n. n \<in> referenced \<longleftrightarrow> n \<in> {} \<or> (\<exists>i. declares bs i n))"
    by (rule successors_some [OF keys]) (use ids irrefl unique in simp_all)
  then obtain succ referenced where
    succ: "successors by_id bs [] {} = Some (succ, referenced)"
      "\<And>i n. map_of succ i = Some n \<longleftrightarrow> declares bs i n"
      "\<And>n. n \<in> referenced \<longleftrightarrow> (\<exists>i. declares bs i n)"
    by auto
  obtain i j where i: "block_id_of x = Some i" "block_id_of y = Some j" using pair by auto
  have j: "j \<in> set (block_names bs)" using i pair by (auto simp: block_names_set)
  then have ij: "declares bs i j" using i pair by (auto simp: linked_def)
  then have "i \<noteq> j" using rank by blast
  then have "x \<noteq> y" using i by auto
  then have many: "\<not> length bs < 2" using pair(1,2) by (cases bs; cases "tl bs") auto
  have "sound_links by_id [] {}" by (simp add: sound_links_def)
  from successors_sound [OF succ(1) this] have sound: "sound_links by_id succ referenced" .
  have all_keys: "\<forall>b \<in> set bs. \<forall>i. block_id_of b = Some i \<longrightarrow> i \<in> fst ` set by_id"
    by (auto simp: keys block_names_set)
  have "preds_first succ []" by (simp add: preds_first_def)
  from order_blocks_walk [OF sound this _ _ all_keys] obtain new where
    new: "walked by_id succ referenced bs [] new" by auto
  have reached: "i \<in> set (block_names bs) \<Longrightarrow> i \<in> set new" for i
  proof (induction "rank i" arbitrary: i rule: less_induct)
    case less
    show ?case
    proof (cases "i \<in> referenced")
      case True
      then obtain a where a: "declares bs a i" using succ(3) by blast
      then have "a \<in> set (block_names bs)" by (auto simp: linked_def block_names_set)
      with less rank [OF a] have "a \<in> set new" by blast
      with a new succ(2) show ?thesis unfolding walked_def by blast
    next
      case False
      with less(2) new show ?thesis unfolding walked_def block_names_set by auto
    qed
  qed
  then have "set new = set (block_names bs)" using new keys by (auto simp: walked_def)
  moreover have "distinct new" using new by (simp add: walked_def)
  ultimately have "length new = length (block_names bs)" using ids by (metis distinct_card)
  moreover have "length (order_blocks by_id succ referenced bs []) =
      length (filter (\<lambda>b. block_id_of b = None) bs) + length new"
    using new unfolding walked_def by (metis length_map size_mset size_union)
  ultimately have full: "length (order_blocks by_id succ referenced bs []) = length bs"
    using block_names_length [of bs] by simp
  have "i \<in> set (block_names bs)" using i pair by (auto simp: block_names_set)
  with reached new succ(2) ij have adj: "adjacent (the (map_of by_id i)) (the (map_of by_id j))
      (order_blocks by_id succ referenced bs [])" unfolding walked_def by blast
  have found: "the (map_of by_id k) = z" if "z \<in> set bs" "block_id_of z = Some k" for z k
    using that ids unfolding by_id(3) by (induction bs) (auto simp: block_names_set split: option.splits)
  have "succ \<noteq> []" using succ(2) ij by (metis map_of.simps(1) option.distinct(1))
  then have "blocks_in_reading_order ns container = order_blocks by_id succ referenced bs []"
    using many full by (simp add: blocks_in_reading_order_def Let_def by_id(1) succ(1) flip: bs)
  with adj found i pair show ?thesis by simp
qed

text \<open>What a consistent declaration of successors is: distinct names, at most one predecessor for a block,
  no cycle.\<close>

definition consistent_successors :: "xml list \<Rightarrow> bool" where
  "consistent_successors bs \<longleftrightarrow>
     distinct (block_names bs) \<and> (\<exists>rank :: ident \<Rightarrow> nat. \<forall>i n. declares bs i n \<longrightarrow> rank i < rank n) \<and>
     (\<forall>a b n. declares bs a n \<longrightarrow> declares bs b n \<longrightarrow> a = b)"

definition declared_pair :: "xml \<Rightarrow> xml \<Rightarrow> bool" where
  "declared_pair x y \<longleftrightarrow> block_id_of x \<noteq> None \<and> block_id_of y \<noteq> None \<and> next_id_of x = block_id_of y"

section \<open>The property\<close>

text \<open>C15: The reading order of the text blocks of a page loses no block and repeats none, whatever the
  file declares. If its declarations are consistent (names distinct, no block with two predecessors, no
  cycle) they are all honoured: the declared successor of a block stands right after it.\<close>

theorem blocks_read_in_declared_order:
  "mset (blocks_in_reading_order ns container) = mset (collect_blocks_skipping_margins ns container) \<and>
   (consistent_successors (collect_blocks_skipping_margins ns container) \<longrightarrow>
    (\<forall>x \<in> set (collect_blocks_skipping_margins ns container).
      \<forall>y \<in> set (collect_blocks_skipping_margins ns container).
        declared_pair x y \<longrightarrow> adjacent x y (blocks_in_reading_order ns container)))"
  using reading_order_perm declared_order_honoured
  unfolding consistent_successors_def declared_pair_def by blast

definition demo_block :: "ident \<Rightarrow> (string \<times> ident) list \<Rightarrow> xml" where
  "demo_block i nxt = Element (Some ''TextBlock'') ((''ID'', i) # nxt) [] None []"

definition demo_container :: xml where
  "demo_container = Element (Some ''PrintSpace'') [] [] None
     [demo_block ''a'' [(''IDNEXT'', ''c'')], demo_block ''b'' [], demo_block ''c'' []]"

lemma demo_blocks:
  "collect_blocks_skipping_margins '''' demo_container =
     [demo_block ''a'' [(''IDNEXT'', ''c'')], demo_block ''b'' [], demo_block ''c'' []]"
  by code_simp

lemma demo_consistent: "consistent_successors (collect_blocks_skipping_margins '''' demo_container)"
proof -
  let ?bs = "collect_blocks_skipping_margins '''' demo_container"
  have names: "block_names ?bs = [''a'', ''b'', ''c'']" by code_simp
  have ids: "block_id_of (demo_block ''a'' [(''IDNEXT'', ''c'')]) = Some ''a''"
    "next_id_of (demo_block ''a'' [(''IDNEXT'', ''c'')]) = Some ''c''"
    "next_id_of (demo_block ''b'' []) = None" "next_id_of (demo_block ''c'' []) = None"
    by code_simp+
  have "declares ?bs i n \<Longrightarrow> i = ''a'' \<and> n = ''c''" for i n
    unfolding demo_blocks by (auto simp: ids)
  then show ?thesis
    unfolding consistent_successors_def names
    by (intro conjI exI [of _ "\<lambda>i. if i = ''c'' then 1 else 0"]) auto
qed

theorem blocks_read_in_declared_order_witness:
  "adjacent (demo_block ''a'' [(''IDNEXT'', ''c'')]) (demo_block ''c'' [])
     (blocks_in_reading_order '''' demo_container)"
proof -
  have "declared_pair (demo_block ''a'' [(''IDNEXT'', ''c'')]) (demo_block ''c'' [])"
    unfolding declared_pair_def by code_simp
  with blocks_read_in_declared_order [of "''''" demo_container] demo_consistent show ?thesis
    by (simp add: demo_blocks)
qed

end
