(* ===== verification/Alto_Roundtrip.thy ===== *)
theory Alto_Roundtrip
  imports Alto_Files Alto_Parser
begin

text \<open>
  The ALTO parser against the ALTO writer. What a parsed file looks like: its lines in reading order,
  undecided, numbered, filed under their block and page, each the text of the \<open>TextLine\<close> that has its
  identifier. What the writer does with pages nobody corrected: it finds every line, changes no text
  and charges no loss.
\<close>

section \<open>Where a parsed line comes from\<close>

lemma hyphen_info_strip: "strip_links (parse_textline_hyphen_info u ns t lm) = strip_links lm"
  by (simp add: parse_textline_hyphen_info_def Let_def strip_links_def)

lemma parse_line_origin:
  assumes "parse_line u ns page block g n t = Inr lm"
  shows "origin get_id (build_ocr_text u ns) t lm" "page_id lm = page" "line_order_global lm = g"
    "prev_line_id lm = None" "next_line_id lm = None"
proof -
  from assms obtain c where c: "lm = parse_textline_hyphen_info u ns t
      \<lparr>line_id = or_else (get_id t) (''TL_'' @ block @ ''_'' @ dec n), page_id = page, block_id = block,
       line_order_global = g, line_order_in_block = int n, coords_of = c, ocr_text = build_ocr_text u ns t,
       word_count = None, ocr_confidence = line_confidence ns t, prev_line_id = None, next_line_id = None,
       corrected_text = None, status = PENDING, hyphen_role = NONE, hyphen_pair_line_id = None,
       hyphen_pair_page_id = None, hyphen_subs_content = None, hyphen_source_explicit = False,
       hyphen_forward_pair_id = None, hyphen_forward_pair_page_id = None, hyphen_forward_subs_content = None,
       hyphen_forward_explicit = False\<rparr>" (is "_ = parse_textline_hyphen_info u ns t ?raw")
    by (auto simp: parse_line_def res_bind_Inr Let_def)
  have same: "strip_links lm = strip_links ?raw" unfolding c by (rule hyphen_info_strip)
  have "origin get_id (build_ocr_text u ns) t ?raw" by (auto simp: origin_def)
  with origin_strip [OF same] show "origin get_id (build_ocr_text u ns) t lm" by simp
  from strip_links_fields [OF same]
  show "page_id lm = page" "line_order_global lm = g" by simp_all
  from strip_neighbour_fields [OF same] show "prev_line_id lm = None" "next_line_id lm = None" by simp_all
qed

text \<open>The elements a page takes its lines from stand in the tree.\<close>

lemma blocks_under_iter: "b \<in> set (blocks_under ns c) \<Longrightarrow> set (iter_tagged l ns b) \<subseteq> set (iter_tagged l ns c)"
proof (induction c)
  case (Element t i as x cs)
  then show ?case using iter_child [of _ "Element t i as x cs" l ns]
    by (fastforce split: if_splits)
qed

lemma page_blocks_iter:
  assumes "b \<in> set (page_blocks ns p)" shows "set (iter_tagged l ns b) \<subseteq> set (iter_tagged l ns p)"
proof -
  let ?c = "or_else (find_child ''PrintSpace'' ns p) p"
  have "set (page_blocks ns p) = set (collect_blocks_skipping_margins ns ?c)"
    unfolding page_blocks_def using reading_order_perm by (rule mset_eq_setD)
  with assms obtain d where d: "d \<in> set (el_children ?c)" "b \<in> set (blocks_under ns d)"
    by (auto simp: collect_blocks_skipping_margins_def)
  have "set (iter_tagged l ns b) \<subseteq> set (iter_tagged l ns ?c)"
    by (rule subset_trans [OF blocks_under_iter [OF d(2)] iter_child [OF d(1)]])
  moreover have "set (iter_tagged l ns ?c) \<subseteq> set (iter_tagged l ns p)"
    using find_child_iter by (cases "find_child ''PrintSpace'' ns p") auto
  ultimately show ?thesis by blast
qed

interpretation alto_reader: page_reader get_id "build_ocr_text u ns" "parse_line u ns" ns source
    "page_blocks ns" block_name read_coords "parse_page u ns source pol" for u ns source pol
proof unfold_locales
  show "origin get_id (build_ocr_text u ns) t lm \<and> page_id lm = page \<and> line_order_global lm = g \<and>
      prev_line_id lm = None \<and> next_line_id lm = None"
    if "parse_line u ns page block g n t = Inr lm" for page block g n t lm
    using parse_line_origin [OF that] by blast
  show "\<exists>lms. read_blocks (block_name (pg_id p)) read_coords (parse_line u ns (pg_id p)) ns (pg_id p) g 0
        (page_blocks ns el) = Inr (pg_blocks p, lms) \<and>
      map strip_links (pg_lines p) = map strip_links (link_neighbours lms) \<and>
      pg_index p = int index \<and> pg_source_file p = source"
    if "parse_page u ns source pol index g el = Inr p" for index g el p
    using that link_hyphen_pairs_frame
    by (auto simp: parse_page_def parse_blocks_def res_bind_Inr Let_def split: prod.splits)
qed (rule page_blocks_iter)

section \<open>What a parsed file guarantees\<close>

lemma parsed_file:
  assumes "parse_alto_file u source po lo pol el = Inr pages"
  shows "read_from get_id (build_ocr_text u (detect_namespace el)) source po lo (textlines el) pages"
proof -
  let ?ns = "detect_namespace el"
  note tree = assms [unfolded parse_alto_file_def classify_Inr parse_alto_tree_def Let_def]
  show ?thesis
  proof (cases "find_child ''Layout'' ?ns el")
    case None
    with tree show ?thesis by (auto simp: read_from_def unique_identities_iff lines_of_def)
  next
    case (Some layout)
    let ?ps = "children_tagged ''Page'' ?ns layout"
    from tree Some obtain ps where parse: "read_pages (parse_page u ?ns source pol) po lo ?ps = Inr ps"
      and gate: "gate_pages ''TextLine ID(s)'' (map get_id (textlines el)) ps = Inr pages"
      by (auto simp: res_bind_Inr textlines_def)
    show ?thesis
    proof (rule alto_reader.gated_file [OF parse gate])
      fix p assume "p \<in> set ?ps"
      then have "p \<in> set (el_children layout)" by (simp add: children_tagged_def)
      from iter_child [OF this] find_child_iter [OF Some]
      show "set (iter_tagged ''TextLine'' ?ns p) \<subseteq> set (textlines el)" unfolding textlines_def by blast
    qed
  qed
qed

section \<open>Writing what was read\<close>

text \<open>The markers of a hyphenation are no confidence: writing them charges nothing.\<close>

definition confidence_names :: "xml \<Rightarrow> string list" where
  "confidence_names c = filter (\<lambda>a. upper_name (key_local a) \<in> set INVALIDATED_ATTRIBUTES) (attr_names c)"

lemma marker_names:
  "upper_name (key_local ''SUBS_TYPE'') \<notin> set INVALIDATED_ATTRIBUTES"
  "upper_name (key_local ''SUBS_CONTENT'') \<notin> set INVALIDATED_ATTRIBUTES"
  by code_simp+

lemma filter_keys_update: "\<not> P k \<Longrightarrow> filter P (map fst (dict_set k v d)) = filter P (map fst d)"
  by (simp add: keys_dict_set)

lemma filter_keys_delete: "\<not> P k \<Longrightarrow> filter P (map fst (AList.delete k d)) = filter P (map fst d)"
  by (induction d) (auto simp: AList.delete_eq)

lemma confidence_names_subs [simp]: "confidence_names (set_subs_on_element want c) = confidence_names c"
  using marker_names
  by (auto simp: set_subs_on_element_def confidence_names_def attr_names_def
      filter_keys_update filter_keys_delete split: prod.split)

lemma sum_filter_cong:
  assumes "map P xs = map P ys" "map f xs = map f ys"
  shows "sum_list (map f (filter P xs)) = sum_list (map f (filter P ys))"
proof -
  have "length xs = length ys" using arg_cong [OF assms(1), of length] by simp
  then show ?thesis using assms by (induction xs ys rule: list_induct2) auto
qed

lemma map_update_same: "f y = f (xs ! i) \<Longrightarrow> map f (xs[i := y]) = map f xs"
  by (metis list_update_id map_update)

lemma confidence_write_subs: "confidence_attr_count ns (write_subs t want el) = confidence_attr_count ns el"
proof (cases t)
  case (Some i)
  let ?cs = "el_children el"
  have eq: "el_children (write_subs t want el) = ?cs[i := set_subs_on_element want (?cs ! i)]"
    by (simp add: Some write_subs_def update_child_def)
  have "sum_list (map (\<lambda>s. length (confidence_names s)) (filter (has_tag ''String'' ns) (?cs[i := set_subs_on_element want (?cs ! i)]))) =
      sum_list (map (\<lambda>s. length (confidence_names s)) (filter (has_tag ''String'' ns) ?cs))"
    by (rule sum_filter_cong) (rule map_update_same; simp)+
  then show ?thesis
    by (simp only: confidence_attr_count_def get_string_children_def children_tagged_def eq confidence_names_def)
qed (simp add: write_subs_def)

lemma confidence_apply_subs [simp]: "confidence_attr_count ns (apply_subs ns lm el) = confidence_attr_count ns el"
  by (simp add: apply_subs_def Let_def confidence_write_subs)

text \<open>A line nobody corrected: only its markers may be written, and nothing is lost.\<close>

definition left_alone :: "unicode \<Rightarrow> string \<Rightarrow> line_manifest \<Rightarrow> xml \<Rightarrow> bool" where
  "left_alone u ns lm t \<longleftrightarrow>
     (\<exists>res. rewrite_line u ns lm t = Inr res \<and> lw_path res \<in> {''untouched'', ''subs_only''} \<and>
        lw_losses res = [] \<and> \<not> lw_move res \<and>
        reconstruct_textline u ns False (lw_element res) = reconstruct_textline u ns False t)"

lemma undecided_left_alone:
  assumes "origin get_id (build_ocr_text u ns) t lm" "nfc u (ocr_text lm) = ocr_text lm"
  shows "left_alone u ns lm t"
proof -
  have "line_text_unchanged u ns t (or_else (corrected_text lm) (ocr_text lm))"
    using assms strip_clean_idem
    by (simp add: origin_def line_text_unchanged_def canonical_line_text_def build_ocr_text_def)
  then show ?thesis
    by (auto simp: left_alone_def rewrite_line_def Let_def confidence_loss_def)
qed

text \<open>What a loop that touches no text leaves as it was.\<close>

definition charged :: "rewrite_state \<Rightarrow> losses \<times> (ident, losses) dict \<times> ident set \<times> nat \<times> nat" where
  "charged st = (rw_losses st, rw_losses_by_line st, rw_moves st, fast_path (rw_metrics st), slow_path (rw_metrics st))"

lemma step_left_alone:
  assumes "\<And>l lm. get_id e = Some l \<Longrightarrow> map_of by_id l = Some lm \<Longrightarrow> l \<notin> rw_seen st \<and> left_alone u ns lm e"
  shows "\<exists>st'. rewrite_step u ns by_id st e = Inr st' \<and> charged st' = charged st \<and>
    rw_seen st' \<subseteq> insert (the (get_id e)) (rw_seen st)"
proof (cases "addressed get_id by_id e")
  case False
  then show ?thesis by (auto simp: addressed_def rewrite_step_def split: option.splits)
next
  case True
  then obtain l lm where l: "get_id e = Some l" "map_of by_id l = Some lm"
    by (auto simp: addressed_def split: option.splits)
  from assms [OF l] obtain res where res: "l \<notin> rw_seen st" "rewrite_line u ns lm e = Inr res"
    "lw_path res \<in> {''untouched'', ''subs_only''}" "lw_losses res = []" "\<not> lw_move res"
    by (auto simp: left_alone_def)
  then show ?thesis by (auto simp: rewrite_step_def l Let_def record_losses_def count_path_def charged_def)
qed

lemma uncorrected_file_written:
  assumes parse: "parse_alto_file u source po lo pol el = Inr pages" and some: "pages \<noteq> []"
    and flat: "flat_lines (detect_namespace el) el" "\<not> has_tag ''TextLine'' (detect_namespace el) el"
    and normal: "\<forall>lm \<in> set (lines_of pages). nfc u (ocr_text lm) = ocr_text lm"
  shows "\<exists>out st. rewrite_alto_file u pages provider model v f el = Inr out \<and>
    res_losses out = rw_losses st \<and> res_losses_by_line out = rw_losses_by_line st \<and> res_moves out = rw_moves st \<and>
    res_metrics out = rw_metrics st \<and> res_paths out = rw_paths st \<and> charged st = charged fresh_rewrite \<and>
    fst ` set (rw_paths st) = line_id ` set (lines_of pages)"
proof -
  let ?ns = "detect_namespace el" and ?by_id = "dict_of line_id (lines_of pages)" and ?es = "textlines el"
  note read = parsed_file [OF parse]
  then have ids: "distinct (map get_id ?es)" "None \<notin> get_id ` set ?es" using some by (simp_all add: read_from_def)
  have alone: "left_alone u ?ns lm e"
    if "e \<in> set ?es" "get_id e = Some l" "map_of ?by_id l = Some lm" for e l lm
    using addressed_origin [OF read that] normal undecided_left_alone by blast
  have "\<exists>st'. rewrite_step u ?ns ?by_id st e = Inr st' \<and> charged st' = charged st \<and>
      rw_seen st' \<subseteq> insert (the (get_id e)) (rw_seen st)"
    if "e \<in> set ?es" "the (get_id e) \<notin> rw_seen st" for e st
    by (rule step_left_alone) (use that alone in auto)
  then have "\<exists>st. each_line (rewrite_step u ?ns ?by_id) ?es fresh_rewrite = Inr st \<and> charged st = charged fresh_rewrite"
    by (rule each_line_quiet [OF _ ids]) (simp_all add: fresh_rewrite_def)
  then obtain st where
    st: "each_line (rewrite_step u ?ns ?by_id) ?es fresh_rewrite = Inr st" "charged st = charged fresh_rewrite"
    by blast
  let ?tree = "add_processing_entry ?ns provider model v f (map_elements (rewritten u ?ns ?by_id) el)"
  have tree: "iter_tagged ''TextLine'' ?ns ?tree =
      iter_tagged ''TextLine'' ?ns (map_elements (on_lines get_id ?ns (written_line u ?ns) ?by_id) el)"
    using iter_processing [OF alto.written.no_line_kept [OF flat(2)]] by (simp only: rewritten_def)
  have "\<exists>d. extract_texts u ?ns vb (fst ` set ?by_id) (iter_tagged ''TextLine'' ?ns ?tree) [] = Inr d" for vb
    unfolding extract_texts_def by (rule alto.texts_exist [OF flat(1) tree ids [unfolded textlines_def]])
  then obtain d d' where
    "extract_texts u ?ns False (fst ` set ?by_id) (iter_tagged ''TextLine'' ?ns ?tree) [] = Inr d"
    "extract_texts u ?ns True (fst ` set ?by_id) (iter_tagged ''TextLine'' ?ns ?tree) [] = Inr d'"
    by blast
  moreover have "ensure_unique_identities pages = Inr ()" using read by (simp add: read_from_def)
  ultimately have "rewrite_alto_file u pages provider model v f el =
      Inr \<lparr>res_tree = ?tree, res_metrics = rw_metrics st, res_paths = rw_paths st, res_texts = d,
        res_texts_verbatim = d', res_losses = rw_losses st, res_losses_by_line = rw_losses_by_line st,
        res_moves = rw_moves st\<rparr>"
    using st(1)
    by (simp only: rewrite_alto_file_def rewrite_lines_def Let_def lines_of_def textlines_def duplicates_Inr
        res_bind_simps duplicates_as_exn_def sum.case)
  moreover have "map fst (rw_paths st) = map (\<lambda>e. the (get_id e)) (filter (addressed get_id ?by_id) ?es)"
    using alto_loop.loop_spec [OF st(1) fresh_inv] by (simp add: fresh_rewrite_def)
  then have "fst ` set (rw_paths st) = line_id ` set (lines_of pages)"
    using addressed_lines [OF read] by (metis set_map)
  ultimately show ?thesis using st(2) by auto
qed

lemma uncorrected_text:
  assumes parse: "parse_alto_file u source po lo pol el = Inr pages"
    and flat: "flat_lines (detect_namespace el) el" "\<not> has_tag ''TextLine'' (detect_namespace el) el"
    and normal: "nfc u (ocr_text lm) = ocr_text lm"
    and out: "rewrite_alto_file u pages provider model v f el = Inr out" and lm: "lm \<in> set (lines_of pages)"
  shows "\<exists>t. map_of (res_texts out) (line_id lm) = Some t \<and> py_strip (filter (\<lambda>c. c \<noteq> 13) t) = ocr_text lm"
proof -
  let ?ns = "detect_namespace el"
  from line_in_file [OF parsed_file [OF parse] lm] obtain t where t: "t \<in> set (textlines el)"
    "get_id t = Some (line_id lm)" "origin get_id (build_ocr_text u ?ns) t lm" by blast
  from file_text [OF out refl flat t(1) [unfolded textlines_def] t(2)] lm obtain res where
    res: "rewrite_line u ?ns lm t = Inr res"
      "map_of (res_texts out) (line_id lm) = Some (reconstruct_textline u ?ns False (lw_element res))"
    by (auto simp: lines_of_def)
  have "left_alone u ?ns lm t" by (rule undecided_left_alone [OF t(3) normal])
  with res t(3) show ?thesis by (auto simp: left_alone_def origin_def build_ocr_text_def)
qed

section \<open>Properties of reading and writing a file\<close>

text \<open>C17: What the parser accepts is a well-formed document. Every line is pending and uncorrected, knows the
  line before and after it on its page, and is filed under its page; the blocks of a page are numbered
  and list exactly its lines, in order; the lines of the file carry consecutive numbers from the offset
  given, its pages consecutive indices; pages, blocks of a page and lines have pairwise distinct
  identifiers; and every line is the text of the \<open>TextLine\<close> that bears its identifier.\<close>

theorem parsed_file_is_well_formed:
  assumes "parse_alto_file u source po lo pol el = Inr pages"
  shows "(\<forall>p \<in> set pages. fresh_page p \<and> pg_source_file p = source \<and> distinct (map blk_id (pg_blocks p))) \<and>
    numbered lo (lines_of pages) \<and> map pg_index pages = map (\<lambda>i. int (po + i)) [0 ..< length pages] \<and>
    distinct (map pg_id pages) \<and> distinct (map line_id (lines_of pages)) \<and>
    (\<forall>lm \<in> set (lines_of pages). \<exists>t \<in> set (textlines el).
       get_id t = Some (line_id lm) \<and> ocr_text lm = build_ocr_text u (detect_namespace el) t)"
  using read_from_well_formed [OF parsed_file [OF assms]] unfolding well_formed_document_def .

text \<open>C16: Reading a file and writing it back changes no text. Rewriting the pages the parser returned, with
  no line corrected, succeeds, finds every line, takes no path but the two that keep the text, charges
  no loss and suspects no reordering; the text it reads back for each line is the text that was parsed.
  The texts are taken in the normal form of the reader.\<close>

theorem uncorrected_file_roundtrip:
  assumes parse: "parse_alto_file u source po lo pol el = Inr pages" and some: "pages \<noteq> []"
    and flat: "flat_lines (detect_namespace el) el" "\<not> has_tag ''TextLine'' (detect_namespace el) el"
    and normal: "\<forall>lm \<in> set (lines_of pages). nfc u (ocr_text lm) = ocr_text lm"
  shows "\<exists>out. rewrite_alto_file u pages provider model v f el = Inr out \<and>
    res_losses out = [] \<and> res_losses_by_line out = [] \<and> res_moves out = {} \<and>
    fast_path (res_metrics out) = 0 \<and> slow_path (res_metrics out) = 0 \<and>
    fst ` set (res_paths out) = line_id ` set (lines_of pages) \<and>
    (\<forall>lm \<in> set (lines_of pages). \<exists>t. map_of (res_texts out) (line_id lm) = Some t \<and>
       py_strip (filter (\<lambda>c. c \<noteq> 13) t) = ocr_text lm)"
proof -
  obtain out st where out: "rewrite_alto_file u pages provider model v f el = Inr out"
    "res_losses out = rw_losses st" "res_losses_by_line out = rw_losses_by_line st" "res_moves out = rw_moves st"
    "res_metrics out = rw_metrics st" "res_paths out = rw_paths st" "charged st = charged fresh_rewrite"
    "fst ` set (rw_paths st) = line_id ` set (lines_of pages)"
    using uncorrected_file_written [OF assms] by blast
  have "\<exists>t. map_of (res_texts out) (line_id lm) = Some t \<and> py_strip (filter (\<lambda>c. c \<noteq> 13) t) = ocr_text lm"
    if lm: "lm \<in> set (lines_of pages)" for lm
    by (rule uncorrected_text [OF parse flat _ out(1) lm]) (use normal lm in blast)
  with out show ?thesis unfolding charged_def fresh_rewrite_def by simp
qed

text \<open>A file of one page, for the witnesses.\<close>

definition demo_document :: xml where
  "demo_document =
     Element (Some ''alto'') [] [] None
       [Element (Some ''Layout'') [] [] None
         [Element (Some ''Page'') [(''ID'', ''p1'')] [] None
           [Element (Some ''PrintSpace'') [] [] None
             [Element (Some ''TextBlock'') [(''ID'', ''b1'')] [] None [demo_line_el ''l1'' demo_words]]]]]"

definition demo_policy :: pairing_policy where
  "demo_policy = DEFAULT_PAIRING_POLICY"

definition demo_parse :: "exn + page_manifest list" where
  "demo_parse = parse_alto_file ascii_unicode ''f'' 0 0 demo_policy demo_document"

lemma demo_parse_lines:
  "case demo_parse of Inl _ \<Rightarrow> False | Inr pages \<Rightarrow> map ocr_text (lines_of pages) = [tx ''Le chut'']"
  by code_simp

lemma demo_parsed:
  obtains pages where "demo_parse = Inr pages" "map ocr_text (lines_of pages) = [tx ''Le chut'']"
  using demo_parse_lines by (simp only: split: sum.split_asm)

theorem parsed_file_is_well_formed_witness:
  "\<exists>pages. demo_parse = Inr pages \<and> length (lines_of pages) = 1 \<and> numbered 0 (lines_of pages)"
proof -
  obtain pages where p: "demo_parse = Inr pages" "map ocr_text (lines_of pages) = [tx ''Le chut'']"
    by (rule demo_parsed)
  from arg_cong [OF p(2), of length] have "length (lines_of pages) = 1" by simp
  moreover have "numbered 0 (lines_of pages)"
    using parsed_file_is_well_formed [OF p(1) [unfolded demo_parse_def]] by (elim conjE)
  ultimately show ?thesis using p(1) by (intro exI [of _ pages] conjI)
qed

theorem uncorrected_file_roundtrip_witness:
  "\<exists>pages out. demo_parse = Inr pages \<and>
     rewrite_alto_file ascii_unicode pages [] [] None None demo_document = Inr out \<and> res_losses out = [] \<and>
     line_id ` set (lines_of pages) = fst ` set (res_paths out)"
proof -
  obtain pages where p: "demo_parse = Inr pages" "map ocr_text (lines_of pages) = [tx ''Le chut'']"
    by (rule demo_parsed)
  have some: "pages \<noteq> []" using p(2) by (auto simp: lines_of_def)
  have flat: "flat_lines (detect_namespace demo_document) demo_document"
    "\<not> has_tag ''TextLine'' (detect_namespace demo_document) demo_document"
    by code_simp+
  have normal: "\<forall>lm \<in> set (lines_of pages). nfc ascii_unicode (ocr_text lm) = ocr_text lm"
    by (simp add: ascii_unicode_def nfc_def)
  from uncorrected_file_roundtrip [OF p(1) [unfolded demo_parse_def] some flat normal, of "[]" "[]" None None]
  obtain out where "rewrite_alto_file ascii_unicode pages [] [] None None demo_document = Inr out"
    "res_losses out = []" "fst ` set (res_paths out) = line_id ` set (lines_of pages)" by blast
  with p(1) show ?thesis by (intro exI [of _ pages] exI [of _ out]) simp
qed

end
