(* ===== verification/Page_Text.thy ===== *)
theory Page_Text
  imports Rewriting
begin

text \<open>
  What the PAGE parser and the PAGE rewriter share: \<open>formats/page/_ns.py\<close> (schema year, polygons),
  \<open>formats/page/_text.py\<close> (the canonical text of a line) and \<open>formats/page/_custom.py\<close> (annotations of
  the \<open>custom\<close> attribute). A PAGE element is identified by its attribute \<open>id\<close>.
\<close>

section \<open>Elements of PAGE\<close>

definition page_key :: "xml \<Rightarrow> ident option" where
  "page_key el = map_of (el_ids el) ''id''"

definition lenient_int :: "ptext option \<Rightarrow> int \<Rightarrow> int" where
  "lenient_int raw d = (case parse_int_tolerant raw d False of Inl _ \<Rightarrow> d | Inr n \<Rightarrow> n)"

text \<open>\<open>min(xs, key=f)\<close>: the first of the least, \<open>xs\<close> not empty.\<close>

fun min_by :: "('a \<Rightarrow> int) \<Rightarrow> 'a list \<Rightarrow> 'a" where
  "min_by f [] = undefined"
| "min_by f [x] = x"
| "min_by f (x # y # ys) = (let m = min_by f (y # ys) in if f x \<le> f m then x else m)"

section \<open>Schema year\<close>

definition METADATA_ITEM_MIN_YEAR :: int where
  "METADATA_ITEM_MIN_YEAR = 2019"

definition after_last_slash :: "string \<Rightarrow> string" where
  "after_last_slash s = rev (takeWhile (\<lambda>c. c \<noteq> CHR ''/'') (rev s))"

definition namespace_year :: "string \<Rightarrow> int option" where
  "namespace_year ns =
     (let stripped = rev (dropWhile (\<lambda>c. c = CHR ''/'') (rev ns));
          head = tx (takeWhile (\<lambda>c. c \<noteq> CHR ''-'') (after_last_slash stripped))
      in if length head = 4 \<and> list_all ascii_digit head then Some (digits_value head) else None)"

definition supports_metadata_item :: "string \<Rightarrow> bool" where
  "supports_metadata_item ns =
     (case namespace_year ns of None \<Rightarrow> False | Some year \<Rightarrow> year \<ge> METADATA_ITEM_MIN_YEAR)"

section \<open>Polygons\<close>

definition strict_int :: "ptext \<Rightarrow> int option" where
  "strict_int s = (case parse_int_tolerant (Some s) 0 True of Inl _ \<Rightarrow> None | Inr n \<Rightarrow> Some n)"

text \<open>One pair \<open>x,y\<close> of a polygon; \<open>None\<close> if it is malformed and skipped.\<close>

definition read_point :: "ptext \<Rightarrow> (int \<times> int) option" where
  "read_point pair =
     (let x = takeWhile (\<lambda>c. c \<noteq> 44) pair; y = drop 1 (dropWhile (\<lambda>c. c \<noteq> 44) pair)
      in if 44 \<notin> set pair \<or> x = [] \<or> y = [] then None
         else (case (strict_int x, strict_int y) of (Some i, Some j) \<Rightarrow> Some (i, j) | _ \<Rightarrow> None))"

definition polygon_points :: "ptext \<Rightarrow> (int \<times> int) list" where
  "polygon_points points = List.map_filter read_point (py_split points)"

definition polygon_to_bbox :: "ptext \<Rightarrow> int \<times> int \<times> int \<times> int" where
  "polygon_to_bbox points =
     (let ps = polygon_points points; xs = map fst ps; ys = map snd ps
      in if ps = [] then (0, 0, 0, 0)
         else (Min (set xs), Min (set ys), Max (set xs) - Min (set xs), Max (set ys) - Min (set ys)))"

section \<open>The text of a line\<close>

definition index_of :: "xml \<Rightarrow> int" where
  "index_of te = lenient_int (get_attr ''index'' te) 0"

text \<open>Where the canonical \<open>TextEquiv\<close> stands among the children.\<close>

definition equiv_positions :: "string \<Rightarrow> xml \<Rightarrow> nat list" where
  "equiv_positions ns el =
     filter (\<lambda>i. has_tag ''TextEquiv'' ns (el_children el ! i)) [0 ..< length (el_children el)]"

definition canonical_position :: "string \<Rightarrow> xml \<Rightarrow> nat option" where
  "canonical_position ns el =
     (if equiv_positions ns el = [] then None
      else Some (min_by (\<lambda>i. index_of (el_children el ! i)) (equiv_positions ns el)))"

definition canonical_textequiv :: "string \<Rightarrow> xml \<Rightarrow> xml option" where
  "canonical_textequiv ns el = map_option (\<lambda>i. el_children el ! i) (canonical_position ns el)"

definition unicode_text :: "unicode \<Rightarrow> string \<Rightarrow> bool \<Rightarrow> xml option \<Rightarrow> ptext" where
  "unicode_text u ns verbatim te =
     (case te of
        None \<Rightarrow> []
      | Some e \<Rightarrow>
          (case find_child ''Unicode'' ns e of
             None \<Rightarrow> []
           | Some uni \<Rightarrow>
               (case el_text uni of None \<Rightarrow> [] | Some t \<Rightarrow> if verbatim then t else nfc u t)))"

definition word_text :: "unicode \<Rightarrow> string \<Rightarrow> bool \<Rightarrow> xml \<Rightarrow> ptext" where
  "word_text u ns verbatim word = unicode_text u ns verbatim (canonical_textequiv ns word)"

definition word_texts :: "unicode \<Rightarrow> string \<Rightarrow> bool \<Rightarrow> xml \<Rightarrow> ptext list" where
  "word_texts u ns verbatim tl_el = map (word_text u ns verbatim) (children_tagged ''Word'' ns tl_el)"

fun join_words :: "ptext list \<Rightarrow> ptext" where
  "join_words [] = []"
| "join_words [w] = w"
| "join_words (w # v # ws) = w @ [32] @ join_words (v # ws)"

definition clean_line :: "ptext \<Rightarrow> ptext" where
  "clean_line t = py_strip (filter (\<lambda>c. c \<noteq> 13) t)"

definition page_line_text :: "unicode \<Rightarrow> string \<Rightarrow> bool \<Rightarrow> xml \<Rightarrow> ptext" where
  "page_line_text u ns verbatim tl_el =
     (case canonical_textequiv ns tl_el of
        Some te \<Rightarrow> clean_line (unicode_text u ns verbatim (Some te))
      | None \<Rightarrow>
          (let joined = join_words (filter (\<lambda>w. w \<noteq> []) (word_texts u ns verbatim tl_el))
           in clean_line (if verbatim then joined else nfc u joined)))"

section \<open>Annotations of the custom attribute\<close>

text \<open>The groups \<open>name {body}\<close> of the microformat: what the expression
  \<open>(\w+)\s*\{([^}]*)\}\<close> matches at the start of a text, as the body and the length of the match.\<close>

definition word_char :: "unicode \<Rightarrow> cp \<Rightarrow> bool" where
  "word_char u c \<longleftrightarrow> uc_isalnum u c \<or> c = 95"

definition group_at :: "unicode \<Rightarrow> ptext \<Rightarrow> (ptext \<times> nat) option" where
  "group_at u s =
     (let name = takeWhile (word_char u) s;
          gap = takeWhile is_space (drop (length name) s);
          rest = drop (length name + length gap) s;
          body = takeWhile (\<lambda>c. c \<noteq> 125) (tl rest)
      in if name \<noteq> [] \<and> rest \<noteq> [] \<and> hd rest = 123 \<and> 125 \<in> set rest
         then Some (body, length name + length gap + length body + 2) else None)"

lemma group_at_pos: "group_at u s = Some (body, n) \<Longrightarrow> 2 \<le> n \<and> n \<le> length s"
proof -
  let ?name = "takeWhile (word_char u) s"
  let ?gap = "takeWhile is_space (drop (length ?name) s)"
  let ?rest = "drop (length ?name + length ?gap) s"
  assume g: "group_at u s = Some (body, n)"
  then have b: "body = takeWhile (\<lambda>c. c \<noteq> 125) (tl ?rest)" "n = length ?name + length ?gap + length body + 2"
    "?rest \<noteq> []" "hd ?rest = 123" "125 \<in> set ?rest"
    by (auto simp: group_at_def Let_def split: if_splits)
  have "125 \<in> set (tl ?rest)" using b(3-5) by (cases ?rest) auto
  then have "takeWhile (\<lambda>c. c \<noteq> 125) (tl ?rest) \<noteq> tl ?rest" by (auto simp: takeWhile_eq_all_conv)
  moreover have "length (takeWhile (\<lambda>c. c \<noteq> 125) (tl ?rest)) \<le> length (tl ?rest)" by (rule length_takeWhile_le)
  ultimately have "length body < length (tl ?rest)"
    unfolding b(1) by (metis le_neq_implies_less takeWhile_eq_take take_all)
  then have "n \<le> length s" using b(2,3) by simp
  then show ?thesis using b(2) by simp
qed

text \<open>\<open>finditer\<close>: the matches from left to right, as (start, end, body).\<close>

function find_groups :: "unicode \<Rightarrow> nat \<Rightarrow> ptext \<Rightarrow> (nat \<times> nat \<times> ptext) list" where
  "find_groups u pos s =
     (if s = [] then []
      else (case group_at u s of
              None \<Rightarrow> find_groups u (pos + 1) (tl s)
            | Some (body, n) \<Rightarrow> (pos, pos + n, body) # find_groups u (pos + n) (drop n s)))"
  by pat_completeness auto
termination
  by (relation "measure (\<lambda>(u, pos, s). length s)") (auto dest: group_at_pos)

declare find_groups.simps [simp del]

definition OFFSET_KEYS :: "ptext list" where
  "OFFSET_KEYS = [tx ''offset'', tx ''length'']"

text \<open>\<open>s.split(c)\<close> for one character.\<close>

fun split_at :: "cp \<Rightarrow> ptext \<Rightarrow> ptext list" where
  "split_at c [] = [[]]"
| "split_at c (x # xs) = (if x = c then [] # split_at c xs else (x # hd (split_at c xs)) # tl (split_at c xs))"

definition body_has_offset :: "ptext \<Rightarrow> bool" where
  "body_has_offset body \<longleftrightarrow> list_ex (\<lambda>pair. py_strip (hd (split_at 58 pair)) \<in> set OFFSET_KEYS) (split_at 59 body)"

text \<open>The kept groups joined: verbatim what stood between two of them, unless a group was cut out
  there.\<close>

fun join_groups :: "ptext \<Rightarrow> nat option \<Rightarrow> (nat \<times> nat) list \<Rightarrow> ptext" where
  "join_groups custom prev_end [] = []"
| "join_groups custom prev_end ((s, e) # spans) =
     (case prev_end of
        None \<Rightarrow> []
      | Some p \<Rightarrow> (let between = slice p s custom in if 123 \<notin> set between then between else [32])) @
     slice s e custom @ join_groups custom (Some e) spans"

definition strip_offset_groups :: "unicode \<Rightarrow> ptext \<Rightarrow> ptext \<times> nat" where
  "strip_offset_groups u custom =
     (let groups = find_groups u 0 custom;
          kept = filter (\<lambda>(s, e, body). \<not> body_has_offset body) groups;
          removed = length (filter (\<lambda>(s, e, body). body_has_offset body) groups)
      in if removed = 0 then (custom, 0)
         else (join_groups custom None (map (\<lambda>(s, e, body). (s, e)) kept), removed))"

end
