(* ===== verification/Page_Rewriter.thy ===== *)
theory Page_Rewriter
  imports Page_Text
begin

text \<open>
  \<open>formats/page/rewriter.py\<close>: a modified line of a PAGE file gets its text in the canonical
  \<open>TextEquiv\<close>; its \<open>Word\<close> children are updated in place when the number of words is kept, and dropped
  otherwise. Polygons are never written.

  The counters are threaded through the operations as the source mutates them. Text that XML cannot
  hold makes \<open>lxml\<close> raise a \<open>ValueError\<close> at the first assignment; since the whole rewrite fails with it,
  the check stands once, before the line is changed.
\<close>

section \<open>Counters\<close>

record page_metrics = rewriter_metrics +
  words_dropped :: nat
  confidence_invalidated :: nat
  conf_occurrences :: nat
  alt_textequiv_dropped :: nat
  custom_offset_stripped :: nat
  hyphen_preserved :: nat
  line_word_disagreement :: nat

definition loss_counters :: "page_metrics \<Rightarrow> losses" where
  "loss_counters m =
     [(''words_dropped'', words_dropped m),
      (INVALIDATION_COUNTER, confidence_invalidated m),
      (''alt_textequiv_dropped'', alt_textequiv_dropped m),
      (''custom_offset_stripped'', custom_offset_stripped m),
      (''hyphen_preserved'', hyphen_preserved m),
      (''line_word_disagreement'', line_word_disagreement m)]"

definition as_losses :: "page_metrics \<Rightarrow> losses" where
  "as_losses m = filter (\<lambda>(k, v). v \<noteq> 0) (loss_counters m)"

definition promote_confidence_to_line :: "nat \<Rightarrow> page_metrics \<Rightarrow> page_metrics" where
  "promote_confidence_to_line occurrences_before m =
     (if COUNTS_INVALIDATION \<and> conf_occurrences m > occurrences_before
      then m\<lparr>confidence_invalidated := confidence_invalidated m + 1\<rparr> else m)"

definition loss_delta :: "losses \<Rightarrow> losses \<Rightarrow> losses" where
  "loss_delta before after =
     map (\<lambda>(k, v). (k, v - lost k before)) (filter (\<lambda>(k, v). v > lost k before) after)"

section \<open>Elements\<close>

fun set_text :: "ptext \<Rightarrow> xml \<Rightarrow> xml" where
  "set_text t (Element tg i as x cs) = Element tg i as (Some t) cs"

definition new_element :: "string \<Rightarrow> string \<Rightarrow> xml" where
  "new_element local_part ns = Element (Some (qtag local_part ns)) [] [] None []"

definition set_textequiv_text :: "string \<Rightarrow> ptext \<Rightarrow> xml \<Rightarrow> xml" where
  "set_textequiv_text ns t te =
     (let cs = el_children te;
          with_unicode =
            (if find_child ''Unicode'' ns te = None then cs @ [set_text t (new_element ''Unicode'' ns)]
             else update_first (has_tag ''Unicode'' ns) (set_text t) cs)
      in set_children (update_first (has_tag ''PlainText'' ns) (set_text t) with_unicode) te)"

definition insertion_index :: "string \<Rightarrow> xml \<Rightarrow> nat" where
  "insertion_index ns tl_el = length (takeWhile (\<lambda>c. \<not> has_tag ''TextStyle'' ns c) (el_children tl_el))"

text \<open>The canonical \<open>TextEquiv\<close> takes the text and loses its \<open>conf\<close>; the alternatives go.\<close>

definition settle_textequivs :: "string \<Rightarrow> ptext \<Rightarrow> nat \<Rightarrow> xml \<Rightarrow> page_metrics \<Rightarrow> xml \<times> page_metrics" where
  "settle_textequivs ns t pos el m =
     (let cs = el_children el;
          settled = del_attr ''conf'' (set_textequiv_text ns t (cs ! pos));
          kept = filter (\<lambda>(i, c). i = pos \<or> \<not> has_tag ''TextEquiv'' ns c) (enumerate 0 (cs[pos := settled]))
      in (set_children (map snd kept) el,
          m\<lparr>conf_occurrences := conf_occurrences m + (if get_attr ''conf'' (cs ! pos) \<noteq> None then 1 else 0),
            alt_textequiv_dropped := alt_textequiv_dropped m + (length (equiv_positions ns el) - 1)\<rparr>))"

definition update_line_textequiv :: "string \<Rightarrow> ptext \<Rightarrow> xml \<Rightarrow> page_metrics \<Rightarrow> xml \<times> page_metrics" where
  "update_line_textequiv ns t tl_el m =
     (case canonical_position ns tl_el of
        None \<Rightarrow>
          (let te = set_textequiv_text ns t (new_element ''TextEquiv'' ns);
               i = insertion_index ns tl_el; cs = el_children tl_el
           in (set_children (take i cs @ te # drop i cs) tl_el, m))
      | Some pos \<Rightarrow> settle_textequivs ns t pos tl_el m)"

definition update_word :: "string \<Rightarrow> ptext \<Rightarrow> xml \<Rightarrow> page_metrics \<Rightarrow> xml \<times> page_metrics" where
  "update_word ns token w m =
     (case canonical_position ns w of
        None \<Rightarrow> (append_children [set_textequiv_text ns token (new_element ''TextEquiv'' ns)] w, m)
      | Some pos \<Rightarrow> settle_textequivs ns token pos w m)"

text \<open>The \<open>Word\<close> children, in order, with a state threaded through.\<close>

fun each_word :: "string \<Rightarrow> (xml \<Rightarrow> 's \<Rightarrow> xml \<times> 's) \<Rightarrow> xml list \<Rightarrow> 's \<Rightarrow> xml list \<times> 's" where
  "each_word ns f [] st = ([], st)"
| "each_word ns f (c # cs) st =
     (if has_tag ''Word'' ns c
      then (let (c', st1) = f c st; (cs', st2) = each_word ns f cs st1 in (c' # cs', st2))
      else (let (cs', st2) = each_word ns f cs st in (c # cs', st2)))"

text \<open>\<open>zip(word_els, words)\<close>: the tokens left are part of the state.\<close>

definition next_word :: "string \<Rightarrow> xml \<Rightarrow> ptext list \<times> page_metrics \<Rightarrow> xml \<times> ptext list \<times> page_metrics" where
  "next_word ns w st =
     (case st of
        ([], m) \<Rightarrow> (w, [], m)
      | (token # tokens, m) \<Rightarrow> (let (w', m') = update_word ns token w m in (w', tokens, m')))"

definition update_words_fast :: "string \<Rightarrow> ptext list \<Rightarrow> xml \<Rightarrow> page_metrics \<Rightarrow> xml \<times> page_metrics" where
  "update_words_fast ns tokens tl_el m =
     (let (cs, _, m') = each_word ns (next_word ns) (el_children tl_el) (tokens, m)
      in (set_children cs tl_el, m'))"

definition remove_words :: "string \<Rightarrow> xml \<Rightarrow> page_metrics \<Rightarrow> xml \<times> page_metrics" where
  "remove_words ns tl_el m =
     (set_children (filter (\<lambda>c. \<not> has_tag ''Word'' ns c) (el_children tl_el)) tl_el,
      m\<lparr>words_dropped := words_dropped m + length (children_tagged ''Word'' ns tl_el)\<rparr>)"

definition strip_custom_offsets :: "unicode \<Rightarrow> xml \<Rightarrow> page_metrics \<Rightarrow> xml \<times> page_metrics" where
  "strip_custom_offsets u el m =
     (if \<not> truthy (get_attr ''custom'' el) then (el, m)
      else
        (let (new_custom, removed) = strip_offset_groups u (the (get_attr ''custom'' el))
         in if removed = 0 then (el, m)
            else (if new_custom \<noteq> [] then set_attr ''custom'' new_custom el else del_attr ''custom'' el,
                  m\<lparr>custom_offset_stripped := custom_offset_stripped m + removed\<rparr>)))"

definition strip_words :: "unicode \<Rightarrow> string \<Rightarrow> xml \<Rightarrow> page_metrics \<Rightarrow> xml \<times> page_metrics" where
  "strip_words u ns tl_el m =
     (let (cs, m') = each_word ns (strip_custom_offsets u) (el_children tl_el) m in (set_children cs tl_el, m'))"

section \<open>One line\<close>

definition xml_char :: "cp \<Rightarrow> bool" where
  "xml_char c \<longleftrightarrow>
     c = 9 \<or> c = 10 \<or> c = 13 \<or> 32 \<le> c \<and> c \<le> 55295 \<or> 57344 \<le> c \<and> c \<le> 65533 \<or> 65536 \<le> c \<and> c \<le> 1114111"

text \<open>The text a line gets.\<close>

definition page_corrected :: "unicode \<Rightarrow> string \<Rightarrow> line_manifest \<Rightarrow> xml \<Rightarrow> ptext" where
  "page_corrected u ns lm tl_el =
     clean_line (preserve_break_char u (page_line_text u ns False tl_el)
       (nfc u (or_else (corrected_text lm) (ocr_text lm))))"

definition words_disagree :: "unicode \<Rightarrow> string \<Rightarrow> xml \<Rightarrow> bool" where
  "words_disagree u ns tl_el \<longleftrightarrow>
     (let words = children_tagged ''Word'' ns tl_el;
          joined = py_strip (nfc u (join_words (filter (\<lambda>t. t \<noteq> []) (map (word_text u ns False) words))))
      in words \<noteq> [] \<and> children_tagged ''TextEquiv'' ns tl_el \<noteq> [] \<and> joined \<noteq> [] \<and>
         joined \<noteq> page_line_text u ns False tl_el)"

text \<open>The words of the line, and the path it took.\<close>

definition write_words ::
  "unicode \<Rightarrow> string \<Rightarrow> ptext list \<Rightarrow> xml \<Rightarrow> page_metrics \<Rightarrow> xml \<times> string \<times> page_metrics" where
  "write_words u ns tokens tl_el m =
     (let words = children_tagged ''Word'' ns tl_el
      in if words \<noteq> [] \<and> length tokens \<noteq> length words
         then (let (el1, m1) = remove_words ns tl_el m in (el1, ''slow_path'', m1))
         else if words \<noteq> []
         then (let (el1, m1) = update_words_fast ns tokens tl_el m; (el2, m2) = strip_words u ns el1 m1
               in (el2, ''fast_path'', m2))
         else (tl_el, ''fast_path'', m))"

definition write_line ::
  "unicode \<Rightarrow> string \<Rightarrow> ptext \<Rightarrow> ptext \<Rightarrow> xml \<Rightarrow> page_metrics \<Rightarrow> xml \<times> string \<times> page_metrics" where
  "write_line u ns source corrected tl_el m =
     (let m1 = (if trailing_hyphen_char u source HYPHEN_CHARS \<noteq> None
                then m\<lparr>hyphen_preserved := hyphen_preserved m + 1\<rparr> else m);
          (el1, path, m2) = write_words u ns (py_split corrected) tl_el m1;
          (el2, m3) = update_line_textequiv ns corrected el1 m2;
          (el3, m4) = strip_custom_offsets u el2 m3
      in (el3, path, m4))"

text \<open>lxml refuses a text with a character XML cannot carry: \<open>uni.text = value\<close> raises \<open>ValueError\<close>. The
  source has no test of its own there; the refusal is rendered as a branch before the line is written
  (the exception leaves the file, so what was written of the line before it is not observable). The
  same refusal of a provenance text (a model name with such a character) is not modelled.\<close>

definition rewrite_page_line ::
  "unicode \<Rightarrow> string \<Rightarrow> line_manifest \<Rightarrow> xml \<Rightarrow> page_metrics \<Rightarrow> exn + (xml \<times> string \<times> page_metrics)" where
  "rewrite_page_line u ns lm tl_el m =
     (let source = page_line_text u ns False tl_el;
          corrected = page_corrected u ns lm tl_el;
          m1 = (if words_disagree u ns tl_el
                then m\<lparr>line_word_disagreement := line_word_disagreement m + 1\<rparr> else m);
          close = (\<lambda>path m'. promote_confidence_to_line (conf_occurrences m) (count_path path m'))
      in if corrected = source then Inr (tl_el, ''untouched'', close ''untouched'' m1)
         else if \<not> list_all xml_char corrected then Inl (Exn C_ValueError ''text must be XML compatible'')
         else (let (el, path, m2) = write_line u ns source corrected tl_el m1 in Inr (el, path, close path m2)))"

section \<open>The file\<close>

record page_rewrite =
  pr_metrics :: page_metrics
  pr_paths :: "(ident, string) dict"
  pr_losses_by_line :: "(ident, losses) dict"
  pr_seen :: "ident set"

definition no_metrics :: page_metrics where
  "no_metrics =
     \<lparr>untouched = 0, subs_only = 0, fast_path = 0, slow_path = 0, words_dropped = 0,
      confidence_invalidated = 0, conf_occurrences = 0, alt_textequiv_dropped = 0,
      custom_offset_stripped = 0, hyphen_preserved = 0, line_word_disagreement = 0\<rparr>"

definition fresh_page_rewrite :: page_rewrite where
  "fresh_page_rewrite = \<lparr>pr_metrics = no_metrics, pr_paths = [], pr_losses_by_line = [], pr_seen = {}\<rparr>"

definition record_line_losses ::
  "ident \<Rightarrow> losses \<Rightarrow> page_metrics \<Rightarrow> (ident, losses) dict \<Rightarrow> (ident, losses) dict" where
  "record_line_losses l counters_before m by_line =
     (let delta = loss_delta counters_before (loss_counters m)
      in if delta \<noteq> [] then dict_set l delta by_line else by_line)"

definition page_step ::
  "unicode \<Rightarrow> string \<Rightarrow> (ident, line_manifest) dict \<Rightarrow> page_rewrite \<Rightarrow> xml \<Rightarrow> exn + page_rewrite" where
  "page_step u ns by_id st tl_el =
     (case page_key tl_el of
        None \<Rightarrow> Inr st
      | Some l \<Rightarrow>
          (case map_of by_id l of
             None \<Rightarrow> Inr st
           | Some lm \<Rightarrow>
               if l \<in> pr_seen st then Inl (Exn C_DuplicateIdError ''duplicate TextLine id'')
               else
                 res_bind (rewrite_page_line u ns lm tl_el (pr_metrics st)) (\<lambda>(el, path, m).
                   Inr \<lparr>pr_metrics = m, pr_paths = dict_set l path (pr_paths st),
                        pr_losses_by_line =
                          record_line_losses l (loss_counters (pr_metrics st)) m (pr_losses_by_line st),
                        pr_seen = insert l (pr_seen st)\<rparr>)))"

definition page_lines ::
  "unicode \<Rightarrow> string \<Rightarrow> (ident, line_manifest) dict \<Rightarrow> xml list \<Rightarrow> page_rewrite \<Rightarrow> exn + page_rewrite" where
  "page_lines u ns by_id = each_line (page_step u ns by_id)"

text \<open>What the loop leaves in the tree. What is written does not depend on the counters.\<close>

definition page_written :: "unicode \<Rightarrow> string \<Rightarrow> line_manifest \<Rightarrow> xml \<Rightarrow> xml" where
  "page_written u ns lm el = (case rewrite_page_line u ns lm el no_metrics of Inl _ \<Rightarrow> el | Inr (el', _, _) \<Rightarrow> el')"

definition provenance_text :: "ptext \<Rightarrow> ptext \<Rightarrow> ptext option \<Rightarrow> ptext option \<Rightarrow> ptext" where
  "provenance_text provider model lib_version fingerprint =
     (let provenance = tx ''saknussemm'' @ (if truthy lib_version then tx '' '' @ the lib_version else []) @
            (if truthy fingerprint then tx ''; config '' @ the fingerprint else [])
      in tx ''Post-OCR correction via '' @ provider @ tx ''/'' @ model @ tx '' ('' @ provenance @ tx '')'')"

text \<open>The comment a schema older than 2019 gets.\<close>

definition comment_text :: "ptext option \<Rightarrow> ptext \<Rightarrow> ptext" where
  "comment_text existing desc =
     (let old = or_else existing [] in if py_strip old \<noteq> [] then old @ [10] @ desc else desc)"

definition add_provenance ::
  "string \<Rightarrow> ptext \<Rightarrow> ptext \<Rightarrow> ptext option \<Rightarrow> ptext option \<Rightarrow> xml \<Rightarrow> xml" where
  "add_provenance ns provider model lib_version fingerprint el =
     (let desc = provenance_text provider model lib_version fingerprint;
          note_pass = (\<lambda>metadata.
            if supports_metadata_item ns then
              append_children
                [Element (Some (qtag ''MetadataItem'' ns)) []
                   [(''type'', tx ''processingStep''), (''name'', tx ''saknussemm''), (''value'', desc)] None []]
                metadata
            else if find_child ''Comments'' ns metadata = None then
              append_children [set_text desc (new_element ''Comments'' ns)] metadata
            else
              set_children (update_first (has_tag ''Comments'' ns)
                (\<lambda>c. set_text (comment_text (el_text c) desc) c) (el_children metadata)) metadata)
      in set_children (update_first (has_tag ''Metadata'' ns) note_pass (el_children el)) el)"

definition page_texts ::
  "unicode \<Rightarrow> string \<Rightarrow> bool \<Rightarrow> ident set \<Rightarrow> xml list \<Rightarrow> exn + (ident, ptext) dict" where
  "page_texts u ns verbatim ids es = collect_texts page_key (page_line_text u ns verbatim) ids es []"

definition rewrite_page_file ::
  "unicode \<Rightarrow> page_manifest list \<Rightarrow> ptext \<Rightarrow> ptext \<Rightarrow> ptext option \<Rightarrow> ptext option \<Rightarrow> xml \<Rightarrow>
   exn + rewrite_result" where
  "rewrite_page_file u pages provider model lib_version fingerprint el =
     (let ns = detect_namespace el
      in res_bind (duplicates_as_exn (ensure_unique_identities pages)) (\<lambda>_.
           let by_id = dict_of line_id (lines_of pages); ids = fst ` set by_id
           in res_bind (page_lines u ns by_id (textlines el) fresh_page_rewrite) (\<lambda>st.
                let out = add_provenance ns provider model lib_version fingerprint
                            (map_elements (on_lines page_key ns (page_written u ns) by_id) el);
                    lines = iter_tagged ''TextLine'' ns out
                in res_bind (page_texts u ns False ids lines) (\<lambda>texts.
                   res_bind (page_texts u ns True ids lines) (\<lambda>verbatim.
                     Inr \<lparr>res_tree = out, res_metrics = rewriter_metrics.truncate (pr_metrics st),
                          res_paths = pr_paths st, res_texts = texts, res_texts_verbatim = verbatim,
                          res_losses = as_losses (pr_metrics st),
                          res_losses_by_line = pr_losses_by_line st, res_moves = {}\<rparr>)))))"

end
