(* ===== verification/Page_Lines.thy ===== *)
theory Page_Lines
  imports Page_Rewriter
begin

text \<open>
  Facts about one line of a PAGE file: what it reads as after it was written, what writing leaves alone
  (polygons, styles, the words' own elements), and that the counters only grow and never decide what is
  written.
\<close>

section \<open>The canonical text of an element\<close>

lemma min_by_mem: "xs \<noteq> [] \<Longrightarrow> min_by f xs \<in> set xs"
  by (induction f xs rule: min_by.induct) (auto simp: Let_def)

text \<open>The canonical reading is the first of those with the least index.\<close>

lemma min_by_least: "x \<in> set xs \<Longrightarrow> f (min_by f xs) \<le> f x"
  by (induction f xs rule: min_by.induct) (fastforce simp: Let_def)+

lemma nth_positions: "map ((!) cs) (filter (\<lambda>i. P (cs ! i)) [0 ..< length cs]) = filter P cs"
proof -
  have "map ((!) cs) (filter (P \<circ> (!) cs) [0 ..< length cs]) = filter P (map ((!) cs) [0 ..< length cs])"
    by (simp only: filter_map)
  then show ?thesis by (simp add: map_nth comp_def)
qed

lemma equivs_at: "map ((!) (el_children el)) (equiv_positions ns el) = children_tagged ''TextEquiv'' ns el"
  by (simp add: equiv_positions_def children_tagged_def nth_positions)

lemma canonical_position_equiv:
  "canonical_position ns el = Some pos \<Longrightarrow> pos < length (el_children el) \<and> has_tag ''TextEquiv'' ns (el_children el ! pos)"
proof -
  assume "canonical_position ns el = Some pos"
  then have "pos \<in> set (equiv_positions ns el)"
    using min_by_mem [of "equiv_positions ns el"] by (auto simp: canonical_position_def split: if_splits)
  then show ?thesis by (simp add: equiv_positions_def)
qed

lemma no_canonical: "canonical_position ns el = None \<longleftrightarrow> children_tagged ''TextEquiv'' ns el = []"
  by (simp add: canonical_position_def flip: equivs_at)

lemma canonical_single:
  assumes "children_tagged ''TextEquiv'' ns el = [te]" shows "canonical_textequiv ns el = Some te"
proof -
  obtain pos where pos: "canonical_position ns el = Some pos"
    using assms no_canonical [of ns el] by (cases "canonical_position ns el") auto
  from canonical_position_equiv [OF this] have "el_children el ! pos \<in> set (children_tagged ''TextEquiv'' ns el)"
    by (simp add: children_tagged_def)
  then show ?thesis using assms pos by (simp add: canonical_textequiv_def)
qed

section \<open>Writing a TextEquiv\<close>

lemma el_set_text [simp]:
  "el_tag (set_text t el) = el_tag el" "el_ids (set_text t el) = el_ids el" "el_attrs (set_text t el) = el_attrs el"
  "el_text (set_text t el) = Some t" "el_children (set_text t el) = el_children el"
  by (cases el; simp)+

lemma has_tag_set_text [simp]: "has_tag l ns (set_text t el) = has_tag l ns el"
  by (simp add: has_tag_def)

lemma el_new_element [simp]:
  "has_tag l ns (new_element k ns) \<longleftrightarrow> k = l" "el_children (new_element k ns) = []"
  "get_attr a (new_element k ns) = None" "el_ids (new_element k ns) = []"
  by (simp_all add: new_element_def get_attr_def)

lemma find_update_other:
  "(\<And>c. P c \<Longrightarrow> \<not> Q c \<and> \<not> Q (f c)) \<Longrightarrow> List.find Q (update_first P f cs) = List.find Q cs"
  by (induction cs) auto

lemma find_append_none: "\<forall>c \<in> set cs. \<not> P c \<Longrightarrow> List.find P (cs @ [d]) = (if P d then Some d else None)"
  by (induction cs) auto

lemma unicode_text_set [simp]:
  "unicode_text u ns v (Some (set_textequiv_text ns t te)) = (if v then t else nfc u t)"
proof -
  let ?U = "has_tag ''Unicode'' ns" and ?P = "has_tag ''PlainText'' ns"
  let ?with = "if find_child ''Unicode'' ns te = None then el_children te @ [set_text t (new_element ''Unicode'' ns)]
             else update_first ?U (set_text t) (el_children te)"
  have "List.find ?U (update_first ?P (set_text t) ?with) = List.find ?U ?with"
    by (rule find_update_other) (auto dest: has_tag_unique)
  moreover have "\<exists>c. List.find ?U ?with = Some (set_text t c)"
  proof (cases "find_child ''Unicode'' ns te")
    case None
    then have "\<forall>c \<in> set (el_children te). \<not> ?U c" by (simp add: find_child_def find_None_iff)
    then have "List.find ?U (el_children te @ [d]) = (if ?U d then Some d else None)" for d
      by (simp add: find_append_none)
    then show ?thesis using None by auto
  next
    case (Some c)
    then have "List.find ?U (update_first ?U (set_text t) cs) = Some (set_text t c)"
      if "List.find ?U cs = Some c" for cs
      using that by (induction cs) (auto split: if_splits)
    with Some show ?thesis by (auto simp: find_child_def)
  qed
  ultimately show ?thesis
    by (auto simp: unicode_text_def find_child_def set_textequiv_text_def Let_def)
qed

lemma textequiv_tag [simp]:
  "el_tag (set_textequiv_text ns t te) = el_tag te" "el_ids (set_textequiv_text ns t te) = el_ids te"
  "el_attrs (set_textequiv_text ns t te) = el_attrs te" "get_attr k (set_textequiv_text ns t te) = get_attr k te"
  "has_tag l ns (set_textequiv_text ns t te) = has_tag l ns te"
  by (simp_all add: set_textequiv_text_def Let_def has_tag_def get_attr_def)

lemma unicode_text_del [simp]: "unicode_text u ns v (Some (del_attr k te)) = unicode_text u ns v (Some te)"
  by (simp add: unicode_text_def find_child_def)

section \<open>The one TextEquiv that is left\<close>

lemma kept_split:
  assumes "pos < length cs"
  shows "map snd (filter (\<lambda>(i, c). i = pos \<or> \<not> P c) (enumerate 0 (cs[pos := d]))) =
    filter (\<lambda>c. \<not> P c) (take pos cs) @ d # filter (\<lambda>c. \<not> P c) (drop (Suc pos) cs)"
proof -
  have other: "map snd (filter (\<lambda>(i, c). i = pos \<or> \<not> P c) (enumerate n xs)) = filter (\<lambda>c. \<not> P c) xs"
    if "pos < n \<or> n + length xs \<le> pos" for n xs
    using that by (induction xs arbitrary: n) auto
  have cs: "cs[pos := d] = take pos cs @ d # drop (Suc pos) cs" by (rule upd_conv_take_nth_drop [OF assms])
  show ?thesis
    unfolding cs enumerate_append_eq using assms other [of 0 "take pos cs"] other [of "Suc pos" "drop (Suc pos) cs"]
    by simp
qed

lemma settle_children:
  assumes "canonical_position ns el = Some pos"
  shows "el_children (fst (settle_textequivs ns t pos el m)) =
    filter (\<lambda>c. \<not> has_tag ''TextEquiv'' ns c) (take pos (el_children el)) @
    del_attr ''conf'' (set_textequiv_text ns t (el_children el ! pos)) #
    filter (\<lambda>c. \<not> has_tag ''TextEquiv'' ns c) (drop (Suc pos) (el_children el))"
  using canonical_position_equiv [OF assms] by (simp add: settle_textequivs_def Let_def kept_split)

lemma filter_at: "pos < length cs \<Longrightarrow> filter Q cs = filter Q (take pos cs) @ (if Q (cs ! pos) then [cs ! pos] else []) @ filter Q (drop (Suc pos) cs)"
  by (subst id_take_nth_drop [of pos cs]) auto

text \<open>What writing the text of a line or of a word leaves: one \<open>TextEquiv\<close> with the text, the other
  children as they were.\<close>

definition texted :: "unicode \<Rightarrow> string \<Rightarrow> ptext \<Rightarrow> xml \<Rightarrow> xml \<Rightarrow> bool" where
  "texted u ns t el el' \<longleftrightarrow>
     el_tag el' = el_tag el \<and> el_ids el' = el_ids el \<and> el_attrs el' = el_attrs el \<and> el_text el' = el_text el \<and>
     (\<exists>te. children_tagged ''TextEquiv'' ns el' = [te] \<and> get_attr ''conf'' te = None \<and>
        (lineless_children ns el \<longrightarrow> lineless ns te) \<and>
        (\<forall>v. unicode_text u ns v (Some te) = (if v then t else nfc u t))) \<and>
     filter (\<lambda>c. \<not> has_tag ''TextEquiv'' ns c) (el_children el') =
       filter (\<lambda>c. \<not> has_tag ''TextEquiv'' ns c) (el_children el)"

lemma lineless_set_text [simp]: "lineless ns (set_text t el) = lineless ns el"
  by (rule lineless_cong) simp_all

lemma lineless_del_attr [simp]: "lineless ns (del_attr k el) = lineless ns el"
  by (rule lineless_cong) simp_all

lemma lineless_new [simp]: "k \<noteq> ''TextLine'' \<Longrightarrow> lineless ns (new_element k ns)"
  by (simp add: lineless_iff)

lemma update_first_lineless:
  "(\<And>c. lineless ns c \<Longrightarrow> lineless ns (f c)) \<Longrightarrow> list_all (lineless ns) cs \<Longrightarrow>
   list_all (lineless ns) (update_first P f cs)"
  by (induction cs) auto

lemma lineless_textequiv [simp]: "lineless ns te \<Longrightarrow> lineless ns (set_textequiv_text ns t te)"
proof -
  assume "lineless ns te"
  then have "\<not> has_tag ''TextLine'' ns te" "list_all (lineless ns) (el_children te)" by (simp_all add: lineless_iff)
  moreover from this(2) have "list_all (lineless ns) (el_children (set_textequiv_text ns t te))"
    by (auto simp: set_textequiv_text_def Let_def intro!: update_first_lineless)
  ultimately show ?thesis by (simp add: lineless_iff [of ns "set_textequiv_text ns t te"])
qed

lemma settle_texted:
  assumes "canonical_position ns el = Some pos" shows "texted u ns t el (fst (settle_textequivs ns t pos el m))"
proof -
  note pos = canonical_position_equiv [OF assms]
  let ?el = "fst (settle_textequivs ns t pos el m)"
  let ?te = "del_attr ''conf'' (set_textequiv_text ns t (el_children el ! pos))"
  have "children_tagged ''TextEquiv'' ns ?el = [?te]"
    unfolding children_tagged_def settle_children [OF assms] using pos by simp
  moreover have "filter (\<lambda>c. \<not> has_tag ''TextEquiv'' ns c) (el_children ?el) =
      filter (\<lambda>c. \<not> has_tag ''TextEquiv'' ns c) (el_children el)"
    unfolding settle_children [OF assms]
    by (subst (3) filter_at [of pos]) (use pos in simp_all)
  moreover have "lineless ns ?te" if "lineless_children ns el"
    using that pos by (simp add: lineless_children_def list_all_iff)
  ultimately show ?thesis
    by (auto simp: texted_def settle_textequivs_def Let_def)
qed

lemma update_word_texted: "texted u ns t w (fst (update_word ns t w m))"
proof (cases "canonical_position ns w")
  case None
  then have "children_tagged ''TextEquiv'' ns w = []" by (simp add: no_canonical)
  with None show ?thesis
    by (simp add: update_word_def texted_def append_children_def children_tagged_def)
next
  case (Some pos)
  then show ?thesis by (simp add: update_word_def settle_texted)
qed

lemma update_line_texted: "texted u ns t el (fst (update_line_textequiv ns t el m))"
proof (cases "canonical_position ns el")
  case None
  then have none: "filter (has_tag ''TextEquiv'' ns) (el_children el) = []"
    by (simp add: no_canonical children_tagged_def)
  let ?i = "insertion_index ns el" and ?cs = "el_children el"
  have split: "filter Q ?cs = filter Q (take ?i ?cs) @ filter Q (drop ?i ?cs)" for Q
    by (metis append_take_drop_id filter_append)
  then have "filter (has_tag ''TextEquiv'' ns) (take ?i ?cs) = []" "filter (has_tag ''TextEquiv'' ns) (drop ?i ?cs) = []"
    using none by simp_all
  with None split [of "\<lambda>c. \<not> has_tag ''TextEquiv'' ns c"] show ?thesis
    by (simp add: update_line_textequiv_def Let_def texted_def children_tagged_def)
next
  case (Some pos)
  then show ?thesis by (simp add: update_line_textequiv_def settle_texted)
qed

lemma texted_reads: "texted u ns t el el' \<Longrightarrow> unicode_text u ns v (canonical_textequiv ns el') = (if v then t else nfc u t)"
  by (auto simp: texted_def canonical_single)

lemma texted_line: "texted u ns t el el' \<Longrightarrow> page_line_text u ns v el' = clean_line (if v then t else nfc u t)"
  by (auto simp: texted_def page_line_text_def canonical_single)

lemma page_line_text_children:
  "el_children a = el_children b \<Longrightarrow> page_line_text u ns v a = page_line_text u ns v b"
  by (simp only: page_line_text_def canonical_textequiv_def canonical_position_def equiv_positions_def
      word_texts_def children_tagged_def)

lemma texted_other_children:
  assumes "texted u ns t el el'" "\<And>c. Q c \<Longrightarrow> \<not> has_tag ''TextEquiv'' ns c"
  shows "filter Q (el_children el') = filter Q (el_children el)"
proof -
  have "filter Q xs = filter Q (filter (\<lambda>c. \<not> has_tag ''TextEquiv'' ns c) xs)" for xs
    using assms(2) by (induction xs) auto
  then show ?thesis using assms(1) unfolding texted_def by metis
qed

section \<open>The words of a line\<close>

lemma each_word_step [simp]:
  "fst (each_word ns f (c # cs) st) =
     (if has_tag ''Word'' ns c then fst (f c st) # fst (each_word ns f cs (snd (f c st)))
      else c # fst (each_word ns f cs st))"
  "snd (each_word ns f (c # cs) st) =
     (if has_tag ''Word'' ns c then snd (each_word ns f cs (snd (f c st))) else snd (each_word ns f cs st))"
  by (simp_all add: case_prod_beta)

declare each_word.simps(2) [simp del]

lemma each_word_words:
  assumes "\<And>c st. has_tag ''Word'' ns c \<Longrightarrow> has_tag ''Word'' ns (fst (f c st))"
  shows "filter (has_tag ''Word'' ns) (fst (each_word ns f cs st)) = fst (each_word ns f (filter (has_tag ''Word'' ns) cs) st)"
  using assms by (induction cs arbitrary: st) simp_all

lemma each_word_other:
  assumes "\<And>c st. has_tag ''Word'' ns c \<Longrightarrow> has_tag ''Word'' ns (fst (f c st))" "\<And>c. Q c \<Longrightarrow> \<not> has_tag ''Word'' ns c"
  shows "filter Q (fst (each_word ns f cs st)) = filter Q cs"
proof (induction cs arbitrary: st)
  case (Cons c cs)
  have "\<not> Q (fst (f c st))" "\<not> Q c" if "has_tag ''Word'' ns c" using assms that by blast+
  with Cons show ?case by simp
qed simp

lemma each_word_all2:
  assumes "\<And>w st. has_tag ''Word'' ns w \<Longrightarrow> R w (fst (f w st))"
  shows "\<forall>w \<in> set ws. has_tag ''Word'' ns w \<Longrightarrow> list_all2 R ws (fst (each_word ns f ws st))"
  using assms by (induction ws arbitrary: st) simp_all

text \<open>What becomes of a word that stays: its own elements but the reading, and its attributes but the
  annotations, are as they were.\<close>

definition same_word :: "string \<Rightarrow> xml \<Rightarrow> xml \<Rightarrow> bool" where
  "same_word ns w w' \<longleftrightarrow>
     el_tag w' = el_tag w \<and> el_ids w' = el_ids w \<and> el_text w' = el_text w \<and>
     (\<forall>k. k \<noteq> ''custom'' \<longrightarrow> get_attr k w' = get_attr k w) \<and>
     filter (\<lambda>c. \<not> has_tag ''TextEquiv'' ns c) (el_children w') =
       filter (\<lambda>c. \<not> has_tag ''TextEquiv'' ns c) (el_children w)"

lemma strip_custom_keeps [simp]:
  "el_tag (fst (strip_custom_offsets u el m)) = el_tag el" "el_ids (fst (strip_custom_offsets u el m)) = el_ids el"
  "el_text (fst (strip_custom_offsets u el m)) = el_text el"
  "el_children (fst (strip_custom_offsets u el m)) = el_children el"
  "k \<noteq> ''custom'' \<Longrightarrow> get_attr k (fst (strip_custom_offsets u el m)) = get_attr k el"
  by (simp_all add: strip_custom_offsets_def split: prod.split)

lemma strip_custom_tag [simp]: "has_tag l ns (fst (strip_custom_offsets u el m)) = has_tag l ns el"
  by (simp add: has_tag_def)

lemma next_word_texted:
  "fst (next_word ns w st) = w \<or> (\<exists>t. texted (u :: unicode) ns t w (fst (next_word ns w st)))"
  using update_word_texted [of u ns _ w]
  by (cases st; cases "fst st") (auto simp: next_word_def case_prod_beta)

lemma next_word_tag: "has_tag l ns (fst (next_word ns w st)) = has_tag l ns w"
proof -
  from next_word_texted [of ns w st undefined] have "el_tag (fst (next_word ns w st)) = el_tag w"
    unfolding texted_def by (elim disjE exE conjE) simp_all
  then show ?thesis by (simp add: has_tag_def)
qed

lemma tokens_texted:
  "\<forall>w \<in> set ws. has_tag ''Word'' ns w \<Longrightarrow> length tokens = length ws \<Longrightarrow>
   list_all2 (\<lambda>(w, t) w'. texted u ns t w w') (zip ws tokens) (fst (each_word ns (next_word ns) ws (tokens, m)))"
proof (induction ws arbitrary: tokens m)
  case (Cons w ws)
  then obtain t ts where t: "tokens = t # ts" by (cases tokens) auto
  have step: "next_word ns w (t # ts, m) = (fst (update_word ns t w m), ts, snd (update_word ns t w m))"
    by (simp add: next_word_def case_prod_beta)
  show ?case using Cons.IH [of ts] Cons.prems update_word_texted [of u ns t w m] by (simp add: step t)
qed simp

lemma texted_same_word: "texted u ns t w w' \<Longrightarrow> same_word ns w (fst (strip_custom_offsets u' w' m))"
  by (simp add: texted_def same_word_def get_attr_def [of _ w'] get_attr_def [of _ w])

lemma texted_word: "texted u ns t w w' \<Longrightarrow> word_text u ns True (fst (strip_custom_offsets u2 w' m)) = t"
proof -
  assume "texted u ns t w w'"
  then obtain te where te: "children_tagged ''TextEquiv'' ns w' = [te]" "unicode_text u ns True (Some te) = t"
    by (auto simp: texted_def)
  then have "children_tagged ''TextEquiv'' ns (fst (strip_custom_offsets u2 w' m)) = [te]"
    by (simp add: children_tagged_def)
  from canonical_single [OF this] te(2) show ?thesis by (simp add: word_text_def unicode_text_def)
qed

lemma words_updated:
  assumes "length tokens = length (children_tagged ''Word'' ns el)"
    and el': "el' = fst (strip_words u ns (fst (update_words_fast ns tokens el m)) m')"
  shows "list_all2 (same_word ns) (children_tagged ''Word'' ns el) (children_tagged ''Word'' ns el')"
    and "word_texts u ns True el' = tokens"
    and "filter (\<lambda>c. \<not> has_tag ''Word'' ns c) (el_children el') = filter (\<lambda>c. \<not> has_tag ''Word'' ns c) (el_children el)"
    and "el_tag el' = el_tag el" "el_ids el' = el_ids el" "el_attrs el' = el_attrs el" "el_text el' = el_text el"
proof -
  let ?ws = "children_tagged ''Word'' ns el"
  let ?mid = "fst (each_word ns (next_word ns) (el_children el) (tokens, m))"
  let ?mid_ws = "fst (each_word ns (next_word ns) ?ws (tokens, m))"
  have ch: "el_children el' = fst (each_word ns (strip_custom_offsets u) ?mid m')"
    by (simp add: el' strip_words_def update_words_fast_def case_prod_beta)
  have words: "\<forall>w \<in> set ?ws. has_tag ''Word'' ns w" by (simp add: children_tagged_def)
  have mid: "filter (has_tag ''Word'' ns) ?mid = ?mid_ws"
    unfolding children_tagged_def by (rule each_word_words) (simp add: next_word_tag)
  have mid_words: "\<forall>w \<in> set ?mid_ws. has_tag ''Word'' ns w" unfolding mid [symmetric] by simp
  have out: "children_tagged ''Word'' ns el' = fst (each_word ns (strip_custom_offsets u) ?mid_ws m')"
    unfolding children_tagged_def ch mid [symmetric, unfolded children_tagged_def] by (rule each_word_words) simp
  note first = tokens_texted [OF words assms(1), of u m]
  have len: "length ?mid_ws = length ?ws" using list_all2_lengthD [OF first] assms(1) by simp
  have second: "list_all2 (\<lambda>w' w''. \<exists>m. w'' = fst (strip_custom_offsets u w' m)) ?mid_ws (children_tagged ''Word'' ns el')"
    unfolding out by (rule each_word_all2 [OF _ mid_words]) blast
  have both: "same_word ns (?ws ! i) (children_tagged ''Word'' ns el' ! i) \<and>
      word_text u ns True (children_tagged ''Word'' ns el' ! i) = tokens ! i" if i: "i < length ?ws" for i
  proof -
    have "texted u ns (tokens ! i) (?ws ! i) (?mid_ws ! i)"
      using list_all2_nthD [OF first, of i] i assms(1) by simp
    moreover obtain n where "children_tagged ''Word'' ns el' ! i = fst (strip_custom_offsets u (?mid_ws ! i) n)"
      using list_all2_nthD [OF second, of i] i len by auto
    moreover note texted_same_word [OF calculation(1), of u n] texted_word [OF calculation(1), of u n]
    ultimately show ?thesis by simp
  qed
  have n: "length (children_tagged ''Word'' ns el') = length ?ws" using list_all2_lengthD [OF second] len by simp
  show "list_all2 (same_word ns) ?ws (children_tagged ''Word'' ns el')"
    using both n by (simp add: list_all2_conv_all_nth)
  show "word_texts u ns True el' = tokens"
    unfolding word_texts_def by (rule nth_equalityI) (use both n assms(1) in simp_all)
  show "filter (\<lambda>c. \<not> has_tag ''Word'' ns c) (el_children el') = filter (\<lambda>c. \<not> has_tag ''Word'' ns c) (el_children el)"
    unfolding ch by (subst each_word_other, simp, simp) (rule each_word_other; simp add: next_word_tag)
  show "el_tag el' = el_tag el" "el_ids el' = el_ids el" "el_attrs el' = el_attrs el" "el_text el' = el_text el"
    by (simp_all add: el' strip_words_def update_words_fast_def case_prod_beta)
qed

section \<open>One line\<close>

text \<open>What writing leaves of a line: its element, its polygon and whatever else is neither a reading nor a
  word.\<close>

definition same_line :: "string \<Rightarrow> xml \<Rightarrow> xml \<Rightarrow> bool" where
  "same_line ns el el' \<longleftrightarrow>
     el_tag el' = el_tag el \<and> el_ids el' = el_ids el \<and> el_text el' = el_text el \<and>
     (\<forall>k. k \<noteq> ''custom'' \<longrightarrow> get_attr k el' = get_attr k el) \<and>
     filter (\<lambda>c. \<not> has_tag ''TextEquiv'' ns c \<and> \<not> has_tag ''Word'' ns c) (el_children el') =
       filter (\<lambda>c. \<not> has_tag ''TextEquiv'' ns c \<and> \<not> has_tag ''Word'' ns c) (el_children el)"

definition words_written :: "unicode \<Rightarrow> string \<Rightarrow> string \<Rightarrow> ptext \<Rightarrow> xml \<Rightarrow> xml \<Rightarrow> bool" where
  "words_written u ns path corrected el el' \<longleftrightarrow>
     (if path = ''slow_path'' then children_tagged ''Word'' ns el' = []
      else list_all2 (same_word ns) (children_tagged ''Word'' ns el) (children_tagged ''Word'' ns el') \<and>
        (children_tagged ''Word'' ns el \<noteq> [] \<longrightarrow> word_texts u ns True el' = py_split corrected))"

lemma same_word_refl [simp]: "same_word ns w w"
  by (simp add: same_word_def)

lemma filter_both: "filter (\<lambda>c. \<not> P c \<and> \<not> Q c) cs = filter (\<lambda>c. \<not> P c) (filter (\<lambda>c. \<not> Q c) cs)"
  by (induction cs) auto

lemma write_words_spec:
  assumes "write_words u ns (py_split corrected) el m = (el', path, m')"
  shows "same_line ns el el' \<and> words_written u ns path corrected el el' \<and> path \<in> {''fast_path'', ''slow_path''} \<and>
    children_tagged ''TextEquiv'' ns el' = children_tagged ''TextEquiv'' ns el"
proof -
  let ?ws = "children_tagged ''Word'' ns el"
  have equivs: "children_tagged ''TextEquiv'' ns b = children_tagged ''TextEquiv'' ns a"
    if "filter (\<lambda>c. \<not> has_tag ''Word'' ns c) (el_children b) = filter (\<lambda>c. \<not> has_tag ''Word'' ns c) (el_children a)" for a b
  proof -
    have "filter (has_tag ''TextEquiv'' ns) cs = filter (has_tag ''TextEquiv'' ns) (filter (\<lambda>c. \<not> has_tag ''Word'' ns c) cs)" for cs
      by (induction cs) (auto dest: has_tag_unique)
    then show ?thesis using that unfolding children_tagged_def by metis
  qed
  consider (slow) "?ws \<noteq> []" "length (py_split corrected) \<noteq> length ?ws"
    | (fast) "?ws \<noteq> []" "length (py_split corrected) = length ?ws" | (none) "?ws = []" by blast
  then show ?thesis
  proof cases
    case slow
    then have out: "el' = set_children (filter (\<lambda>c. \<not> has_tag ''Word'' ns c) (el_children el)) el" "path = ''slow_path''"
      using assms by (simp_all add: write_words_def remove_words_def)
    then have "filter (\<lambda>c. \<not> has_tag ''Word'' ns c) (el_children el') = filter (\<lambda>c. \<not> has_tag ''Word'' ns c) (el_children el)"
      by simp
    from equivs [OF this] this show ?thesis using out
      by (simp only: same_line_def words_written_def children_tagged_def get_attr_def filter_both) simp
  next
    case fast
    then obtain m1 m2 where "el' = fst (strip_words u ns (fst (update_words_fast ns (py_split corrected) el m1)) m2)"
      and path: "path = ''fast_path''"
      using assms by (auto simp: write_words_def case_prod_beta)
    note up = words_updated [OF fast(2) this(1)]
    from equivs [OF up(3)] up path show ?thesis
      by (simp only: same_line_def words_written_def get_attr_def filter_both) simp
  next
    case none
    then show ?thesis using assms
      by (simp add: write_words_def same_line_def words_written_def)
  qed
qed

lemma write_lineE:
  assumes "write_line u ns source corrected el m = (el', path, m')"
  obtains el1 m1 m2 where "write_words u ns (py_split corrected) el m1 = (el1, path, m2)"
    "el' = fst (strip_custom_offsets u (fst (update_line_textequiv ns corrected el1 m2))
      (snd (update_line_textequiv ns corrected el1 m2)))"
  using assms by (auto simp: write_line_def Let_def case_prod_beta split: if_splits)
    (metis fst_conv snd_conv prod.collapse)+

lemma write_line_spec:
  assumes "write_line u ns source corrected el m = (el', path, m')"
  shows "same_line ns el el' \<and> words_written u ns path corrected el el' \<and> path \<in> {''fast_path'', ''slow_path''} \<and>
    page_line_text u ns v el' = clean_line (if v then corrected else nfc u corrected) \<and>
    (\<exists>te. children_tagged ''TextEquiv'' ns el' = [te] \<and> get_attr ''conf'' te = None)"
proof -
  obtain el1 m1 m2 where w: "write_words u ns (py_split corrected) el m1 = (el1, path, m2)"
    and el': "el' = fst (strip_custom_offsets u (fst (update_line_textequiv ns corrected el1 m2))
      (snd (update_line_textequiv ns corrected el1 m2)))"
    by (rule write_lineE [OF assms])
  let ?el2 = "fst (update_line_textequiv ns corrected el1 m2)"
  have t: "texted u ns corrected el1 ?el2" by (rule update_line_texted)
  have ch: "el_children el' = el_children ?el2" by (simp add: el')
  have "has_tag ''Word'' ns c \<Longrightarrow> \<not> has_tag ''TextEquiv'' ns c" for c by (auto dest: has_tag_unique)
  then have "children_tagged ''Word'' ns el' = children_tagged ''Word'' ns el1"
    unfolding children_tagged_def ch by (rule texted_other_children [OF t])
  then have "word_texts u ns True el' = word_texts u ns True el1" "children_tagged ''Word'' ns el' = children_tagged ''Word'' ns el1"
    by (simp_all add: word_texts_def)
  moreover have "page_line_text u ns v el' = clean_line (if v then corrected else nfc u corrected)"
    using texted_line [OF t, of v] page_line_text_children [OF ch] by simp
  moreover have "\<exists>te. children_tagged ''TextEquiv'' ns el' = [te] \<and> get_attr ''conf'' te = None"
    using t by (auto simp: texted_def children_tagged_def ch)
  moreover have "same_line ns el1 el'"
    using t texted_other_children [OF t, of "\<lambda>c. \<not> has_tag ''TextEquiv'' ns c \<and> \<not> has_tag ''Word'' ns c"]
    by (simp add: same_line_def el' texted_def get_attr_def [of _ "?el2"] get_attr_def [of _ el1])
  ultimately show ?thesis
    using write_words_spec [OF w] by (auto simp: words_written_def same_line_def)
qed

section \<open>The counters\<close>

text \<open>The counters of losses grow; those of the paths are not touched by what writes a line.\<close>

definition grows :: "page_metrics \<Rightarrow> page_metrics \<Rightarrow> bool" where
  "grows a b \<longleftrightarrow>
     words_dropped a \<le> words_dropped b \<and> confidence_invalidated a \<le> confidence_invalidated b \<and>
     conf_occurrences a \<le> conf_occurrences b \<and> alt_textequiv_dropped a \<le> alt_textequiv_dropped b \<and>
     custom_offset_stripped a \<le> custom_offset_stripped b \<and> hyphen_preserved a \<le> hyphen_preserved b \<and>
     line_word_disagreement a \<le> line_word_disagreement b"

lemma grows_refl [simp]: "grows a a"
  by (simp add: grows_def)

lemma grows_trans [trans]: "grows a b \<Longrightarrow> grows b c \<Longrightarrow> grows a c"
  by (simp add: grows_def)

lemma lost_counters:
  "lost k (loss_counters m) =
     (if k = ''words_dropped'' then words_dropped m
      else if k = INVALIDATION_COUNTER then confidence_invalidated m
      else if k = ''alt_textequiv_dropped'' then alt_textequiv_dropped m
      else if k = ''custom_offset_stripped'' then custom_offset_stripped m
      else if k = ''hyphen_preserved'' then hyphen_preserved m
      else if k = ''line_word_disagreement'' then line_word_disagreement m else 0)"
  by (simp add: lost_def loss_counters_def)

lemma grows_lost: "grows a b \<Longrightarrow> lost k (loss_counters a) \<le> lost k (loss_counters b)"
  by (simp add: grows_def lost_counters)

text \<open>An operation that counts: its result does not depend on the counters, which grow.\<close>

definition counted :: "(page_metrics \<Rightarrow> 'a \<times> page_metrics) \<Rightarrow> bool" where
  "counted f \<longleftrightarrow>
     (\<forall>m m'. fst (f m) = fst (f m')) \<and>
     (\<forall>m. grows m (snd (f m)) \<and> metrics_total_lines (snd (f m)) = metrics_total_lines m)"

lemma counted_return [intro]: "counted (\<lambda>m. (x, m))"
  by (simp add: counted_def)

lemma counted_if [intro]: "counted f \<Longrightarrow> counted g \<Longrightarrow> counted (\<lambda>m. if b then f m else g m)"
  by (cases b) simp_all

lemma counted_then:
  assumes "counted f" "\<And>x. counted (g x)"
  shows "counted (\<lambda>m. case f m of (x, m') \<Rightarrow> g x m')"
proof -
  obtain x where x: "\<And>m. fst (f m) = x" using assms(1) unfolding counted_def by blast
  have f: "case f m of (y, m') \<Rightarrow> h y m' = h x (snd (f m))" for h :: "'a \<Rightarrow> page_metrics \<Rightarrow> 'b \<times> page_metrics" and m
    using x [of m] by (simp add: case_prod_beta)
  show ?thesis
    using assms unfolding counted_def case_prod_beta x by (auto intro: grows_trans)
qed

lemma counted_map: "counted f \<Longrightarrow> counted (\<lambda>m. case f m of (x, m') \<Rightarrow> (h x, m'))"
  by (rule counted_then) auto

lemma counted_settle [intro]: "counted (settle_textequivs ns t pos el)"
  by (simp add: counted_def settle_textequivs_def grows_def Let_def metrics_total_lines_def)

lemma counted_update_line [intro]: "counted (update_line_textequiv ns t el)"
  by (cases "canonical_position ns el")
    (auto simp: update_line_textequiv_def [abs_def] Let_def)

lemma counted_update_word [intro]: "counted (update_word ns t w)"
  by (cases "canonical_position ns w") (auto simp: update_word_def [abs_def])

lemma counted_strip_custom [intro]: "counted (strip_custom_offsets u el)"
  by (auto simp: counted_def strip_custom_offsets_def grows_def metrics_total_lines_def split: prod.split)

lemma counted_remove [intro]: "counted (remove_words ns el)"
  by (simp add: counted_def remove_words_def grows_def metrics_total_lines_def)

lemma counted_each_word: "(\<And>c. counted (f c)) \<Longrightarrow> counted (each_word ns f cs)"
proof (induction cs)
  case Nil
  then show ?case by (simp add: counted_def)
next
  case (Cons c cs)
  note all = Cons.IH [OF Cons.prems] and one = Cons.prems [of c]
  have "counted (\<lambda>m. case f c m of (c', m1) \<Rightarrow> case each_word ns f cs m1 of (cs', m2) \<Rightarrow> (c' # cs', m2))"
    by (intro counted_then counted_map one all)
  moreover have "counted (\<lambda>m. case each_word ns f cs m of (cs', m2) \<Rightarrow> (c # cs', m2))"
    by (rule counted_map [OF all])
  ultimately show ?case
    by (cases "has_tag ''Word'' ns c") (simp_all add: each_word.simps(2) [abs_def])
qed

definition regroup :: "'a \<times> 'b \<times> 'c \<Rightarrow> ('a \<times> 'b) \<times> 'c" where
  "regroup p = (case p of (a, b, c) \<Rightarrow> ((a, b), c))"

lemma regroup_simps [simp]:
  "fst (regroup p) = (fst p, fst (snd p))" "snd (regroup p) = snd (snd p)"
  by (simp_all add: regroup_def case_prod_beta)

lemma counted_tokens: "counted (\<lambda>m. regroup (each_word ns (next_word ns) cs (tokens, m)))"
proof (induction cs arbitrary: tokens)
  case Nil
  show ?case by (simp add: counted_def)
next
  case (Cons c cs)
  show ?case
  proof (cases "has_tag ''Word'' ns c \<and> tokens \<noteq> []")
    case True
    then obtain t ts where t: "tokens = t # ts" by (cases tokens) auto
    have "counted (\<lambda>m. case update_word ns t c m of (c', m1) \<Rightarrow>
        case regroup (each_word ns (next_word ns) cs (ts, m1)) of ((cs', ts'), m2) \<Rightarrow> ((c' # cs', ts'), m2))"
    proof (rule counted_then)
      fix c'
      have "counted (\<lambda>m1. case regroup (each_word ns (next_word ns) cs (ts, m1)) of
          (p, m2) \<Rightarrow> ((c' # fst p, snd p), m2))"
        by (rule counted_map [OF Cons.IH])
      then show "counted (\<lambda>m1. case regroup (each_word ns (next_word ns) cs (ts, m1)) of
          ((cs', ts'), m2) \<Rightarrow> ((c' # cs', ts'), m2))" by (simp add: case_prod_beta)
    qed auto
    moreover have "regroup (each_word ns (next_word ns) (c # cs) (tokens, m)) =
        (case update_word ns t c m of (c', m1) \<Rightarrow>
          case regroup (each_word ns (next_word ns) cs (ts, m1)) of ((cs', ts'), m2) \<Rightarrow> ((c' # cs', ts'), m2))" for m
      using True by (simp add: t each_word.simps(2) next_word_def regroup_def case_prod_beta)
    ultimately show ?thesis by simp
  next
    case False
    have "counted (\<lambda>m. case regroup (each_word ns (next_word ns) cs (tokens, m)) of (p, m2) \<Rightarrow> ((c # fst p, snd p), m2))"
      by (rule counted_map [OF Cons.IH])
    moreover have "regroup (each_word ns (next_word ns) (c # cs) (tokens, m)) =
        (case regroup (each_word ns (next_word ns) cs (tokens, m)) of (p, m2) \<Rightarrow> ((c # fst p, snd p), m2))" for m
      using False by (cases tokens) (auto simp: each_word.simps(2) next_word_def regroup_def case_prod_beta)
    ultimately show ?thesis by simp
  qed
qed

lemma counted_update_words [intro]: "counted (update_words_fast ns tokens el)"
proof -
  have "counted (\<lambda>m. case regroup (each_word ns (next_word ns) (el_children el) (tokens, m)) of
      (p, m') \<Rightarrow> (set_children (fst p) el, m'))" by (rule counted_map [OF counted_tokens])
  then show ?thesis by (simp add: update_words_fast_def [abs_def] case_prod_beta)
qed

lemma counted_strip_words [intro]: "counted (strip_words u ns el)"
  unfolding strip_words_def [abs_def] Let_def by (rule counted_map [OF counted_each_word]) (rule counted_strip_custom)

lemma counted_write_words: "counted (\<lambda>m. regroup (write_words u ns tokens el m))"
proof -
  have "counted (\<lambda>m. case remove_words ns el m of (el1, m1) \<Rightarrow> ((el1, ''slow_path''), m1))"
    "counted (\<lambda>m. case update_words_fast ns tokens el m of (el1, m1) \<Rightarrow>
       case strip_words u ns el1 m1 of (el2, m2) \<Rightarrow> ((el2, ''fast_path''), m2))"
    "counted (\<lambda>m. ((el, ''fast_path''), m))"
    by (intro counted_map counted_then counted_remove counted_update_words counted_strip_words counted_return)+
  then show ?thesis
    by (cases "children_tagged ''Word'' ns el = []"; cases "length tokens = length (children_tagged ''Word'' ns el)")
      (simp_all add: write_words_def [abs_def] regroup_def case_prod_beta)
qed

lemma counted_write_line: "counted (\<lambda>m. regroup (write_line u ns source corrected el m))"
proof -
  define start where "start m = (if trailing_hyphen_char u source HYPHEN_CHARS \<noteq> None
      then m\<lparr>hyphen_preserved := hyphen_preserved m + 1\<rparr> else m)" for m :: page_metrics
  have "counted (\<lambda>m. ((), start m))"
    by (simp add: counted_def start_def grows_def metrics_total_lines_def)
  then have "counted (\<lambda>m. case ((), start m) of (_, m1) \<Rightarrow>
      case regroup (write_words u ns (py_split corrected) el m1) of ((el1, path), m2) \<Rightarrow>
      case update_line_textequiv ns corrected el1 m2 of (el2, m3) \<Rightarrow>
      case strip_custom_offsets u el2 m3 of (el3, m4) \<Rightarrow> ((el3, path), m4))"
  proof (rule counted_then)
    have "counted (\<lambda>m1. case regroup (write_words u ns (py_split corrected) el m1) of (p, m2) \<Rightarrow>
        case update_line_textequiv ns corrected (fst p) m2 of (el2, m3) \<Rightarrow>
        case strip_custom_offsets u el2 m3 of (el3, m4) \<Rightarrow> ((el3, snd p), m4))"
      by (intro counted_then counted_map counted_write_words counted_update_line counted_strip_custom)
    then show "counted (\<lambda>m1. case regroup (write_words u ns (py_split corrected) el m1) of ((el1, path), m2) \<Rightarrow>
        case update_line_textequiv ns corrected el1 m2 of (el2, m3) \<Rightarrow>
        case strip_custom_offsets u el2 m3 of (el3, m4) \<Rightarrow> ((el3, path), m4))"
      by (simp add: case_prod_beta)
  qed
  then show ?thesis
    by (simp add: write_line_def [abs_def] Let_def start_def [abs_def] regroup_def case_prod_beta)
qed

lemma close_line:
  "grows m m' \<Longrightarrow> grows m (promote_confidence_to_line n (count_path path m'))"
  "metrics_total_lines (promote_confidence_to_line n (count_path path m')) = metrics_total_lines m' + 1"
proof -
  have "grows a (count_path path a)" for a by (simp add: grows_def count_path_def)
  moreover have "grows a (promote_confidence_to_line n a)" for a
    by (simp add: grows_def promote_confidence_to_line_def)
  ultimately show "grows m m' \<Longrightarrow> grows m (promote_confidence_to_line n (count_path path m'))"
    by (blast intro: grows_trans)
  show "metrics_total_lines (promote_confidence_to_line n (count_path path m')) = metrics_total_lines m' + 1"
    by (simp add: metrics_total_lines_def promote_confidence_to_line_def count_path_def)
qed

text \<open>The three ways a line is written.\<close>

lemma rewrite_page_line_cases:
  assumes "rewrite_page_line u ns lm el m = Inr (el', path, m')"
  obtains (untouched) "path = ''untouched''" "el' = el" "page_corrected u ns lm el = page_line_text u ns False el"
  | (written) m1 m2 where "write_line u ns (page_line_text u ns False el) (page_corrected u ns lm el) el m1 = (el', path, m2)"
      "page_corrected u ns lm el \<noteq> page_line_text u ns False el" "list_all xml_char (page_corrected u ns lm el)"
  using assms by (auto simp: rewrite_page_line_def Let_def split: if_splits prod.splits)

lemma rewrite_page_line_counts:
  assumes "rewrite_page_line u ns lm el m = Inr (el', path, m')"
  shows "grows m m' \<and> metrics_total_lines m' = metrics_total_lines m + 1 \<and> page_written u ns lm el = el'"
proof -
  let ?source = "page_line_text u ns False el" and ?corrected = "page_corrected u ns lm el"
  define start where "start m = (if words_disagree u ns el
      then m\<lparr>line_word_disagreement := line_word_disagreement m + 1\<rparr> else m)" for m :: page_metrics
  have start: "grows m (start m)" "metrics_total_lines (start m) = metrics_total_lines m" for m
    by (simp_all add: start_def grows_def metrics_total_lines_def)
  define w where "w n = write_line u ns ?source ?corrected el (start n)" for n
  have rw: "rewrite_page_line u ns lm el n =
      (if ?corrected = ?source then Inr (el, ''untouched'', promote_confidence_to_line (conf_occurrences n)
         (count_path ''untouched'' (start n)))
       else if \<not> list_all xml_char ?corrected then Inl (Exn C_ValueError ''text must be XML compatible'')
       else Inr (fst (w n), fst (snd (w n)), promote_confidence_to_line (conf_occurrences n)
              (count_path (fst (snd (w n))) (snd (snd (w n))))))" for n
    by (simp add: rewrite_page_line_def Let_def start_def w_def case_prod_beta)
  note c = counted_write_line [of u ns ?source ?corrected el, unfolded counted_def]
  have same: "fst (w n) = fst (w n')" for n n' using c unfolding w_def by simp
  have wg: "grows (start n) (snd (snd (w n)))" "metrics_total_lines (snd (snd (w n))) = metrics_total_lines (start n)" for n
    using c unfolding w_def by simp_all
  show ?thesis
  proof (cases "?corrected = ?source")
    case True
    then have out: "el' = el"
      "m' = promote_confidence_to_line (conf_occurrences m) (count_path ''untouched'' (start m))"
      using assms by (auto simp: rw)
    have "page_written u ns lm el = el" using True by (simp add: page_written_def rw)
    then show ?thesis using close_line(1) [OF start(1) [of m]] start(2) by (simp add: out close_line(2))
  next
    case False
    then have out: "list_all xml_char ?corrected" "el' = fst (w m)"
      "m' = promote_confidence_to_line (conf_occurrences m) (count_path (fst (snd (w m))) (snd (snd (w m))))"
      using assms by (auto simp: rw split: if_splits)
    have "grows m m'" unfolding out(3) by (rule close_line(1)) (rule grows_trans [OF start(1) wg(1)])
    moreover have "metrics_total_lines m' = metrics_total_lines m + 1" by (simp add: out(3) close_line(2) wg(2) start(2))
    moreover have "page_written u ns lm el = el'"
      using False out same [of no_metrics m] by (simp add: page_written_def rw)
    ultimately show ?thesis by blast
  qed
qed

section \<open>No line inside a line\<close>

lemma texted_lineless:
  assumes "texted u ns t el el'" "lineless_children ns el" shows "lineless_children ns el'"
proof -
  obtain te where te: "children_tagged ''TextEquiv'' ns el' = [te]" "lineless ns te"
    "filter (\<lambda>c. \<not> has_tag ''TextEquiv'' ns c) (el_children el') =
       filter (\<lambda>c. \<not> has_tag ''TextEquiv'' ns c) (el_children el)"
    using assms by (auto simp: texted_def)
  have "lineless ns c" if c: "c \<in> set (el_children el')" for c
  proof (cases "has_tag ''TextEquiv'' ns c")
    case True
    with c have "c \<in> set (children_tagged ''TextEquiv'' ns el')" by (simp add: children_tagged_def)
    with te show ?thesis by simp
  next
    case False
    with c have "c \<in> set (filter (\<lambda>c. \<not> has_tag ''TextEquiv'' ns c) (el_children el'))" by simp
    then show ?thesis using assms(2) unfolding te(3) by (simp add: lineless_children_def list_all_iff)
  qed
  then show ?thesis by (simp add: lineless_children_def list_all_iff)
qed

lemma texted_lineless_word:
  assumes "texted u ns t w w'" "lineless ns w" shows "lineless ns w'"
proof -
  have "lineless_children ns w" "\<not> has_tag ''TextLine'' ns w"
    using assms(2) by (simp_all add: lineless_iff [of ns w] lineless_children_def)
  moreover have "has_tag ''TextLine'' ns w' = has_tag ''TextLine'' ns w"
    using assms(1) by (simp add: texted_def has_tag_def)
  ultimately show ?thesis using texted_lineless [OF assms(1)]
    by (simp add: lineless_iff [of ns w'] lineless_children_def)
qed

lemma lineless_strip_custom [simp]: "lineless ns (fst (strip_custom_offsets u el m)) = lineless ns el"
  by (rule lineless_cong) simp_all

lemma each_word_lineless:
  "(\<And>c st. lineless ns c \<Longrightarrow> lineless ns (fst (f c st))) \<Longrightarrow> list_all (lineless ns) cs \<Longrightarrow>
   list_all (lineless ns) (fst (each_word ns f cs st))"
  by (induction cs arbitrary: st) simp_all

lemma next_word_lineless: "lineless ns c \<Longrightarrow> lineless ns (fst (next_word ns c st))"
  using next_word_texted [of ns c st undefined] texted_lineless_word by auto

lemma write_words_lineless:
  assumes "write_words u ns tokens el m = (el', path, m')" "lineless_children ns el"
  shows "lineless_children ns el'"
proof -
  have "lineless_children ns (fst (remove_words ns el m))"
    using assms(2) by (simp add: remove_words_def lineless_children_def list_all_iff)
  moreover have "lineless_children ns (fst (update_words_fast ns tokens a n))"
    "lineless_children ns (fst (strip_words u ns a n))" if "lineless_children ns a" for a n
    using that by (simp_all add: update_words_fast_def strip_words_def lineless_children_def case_prod_beta
        each_word_lineless next_word_lineless)
  ultimately show ?thesis
    using assms by (auto simp: write_words_def Let_def case_prod_beta split: if_splits)
qed

lemma write_line_lineless:
  assumes "write_line u ns source corrected el m = (el', path, m')" "lineless_children ns el"
  shows "lineless_children ns el'"
proof -
  obtain el1 m1 m2 where w: "write_words u ns (py_split corrected) el m1 = (el1, path, m2)"
    and el': "el' = fst (strip_custom_offsets u (fst (update_line_textequiv ns corrected el1 m2))
      (snd (update_line_textequiv ns corrected el1 m2)))"
    by (rule write_lineE [OF assms(1)])
  have "lineless_children ns (fst (update_line_textequiv ns corrected el1 m2))"
    by (rule texted_lineless [OF update_line_texted write_words_lineless [OF w assms(2)]])
  then show ?thesis by (simp add: el' lineless_children_def)
qed

end
