(* ===== verification/Page_Files.thy ===== *)
theory Page_Files
  imports Page_Lines
begin

text \<open>
  Facts about a whole PAGE file: the loop over its lines, its ledger of losses and the texts of the tree
  it writes. \<open>line_loop\<close> and \<open>line_writer\<close> are interpreted on the PAGE writer. The properties of the PAGE
  writer stand at the end.
\<close>

section \<open>The loop over the lines of a file\<close>

lemma lost_delta:
  assumes "dict_keys_distinct after"
  shows "lost k (loss_delta before after) = lost k after - lost k before"
  using assms
proof (induction after)
  case (Cons p after)
  obtain j v where p: "p = (j, v)" by (cases p)
  have absent: "lost j after = 0" "j \<notin> fst ` set (loss_delta before after)"
    using Cons.prems by (force simp: p loss_delta_def intro!: lost_absent)+
  have cons: "lost i ((j, w) # d) = (if i = j then w else lost i d)" for i w d by (simp add: lost_def)
  have delta: "loss_delta before ((j, v) # after) =
      (if v > lost j before then (j, v - lost j before) # loss_delta before after else loss_delta before after)"
    by (simp add: loss_delta_def)
  show ?case
  proof (cases "k = j")
    case True
    then show ?thesis using absent lost_absent [OF absent(2)] by (simp add: delta p cons)
  next
    case False
    then show ?thesis using Cons by (simp add: delta p cons)
  qed
qed (simp add: loss_delta_def)

lemma counters_distinct: "dict_keys_distinct (loss_counters m)"
  by (simp add: loss_counters_def INVALIDATION_COUNTER_def)

lemma lost_as_losses: "lost k (as_losses m) = lost k (loss_counters m)"
proof -
  have "lost k (filter (\<lambda>(k, v). v \<noteq> 0) d) = lost k d" if "dict_keys_distinct d" for d
    using that
  proof (induction d)
    case (Cons p d)
    obtain j v where p: "p = (j, v)" by (cases p)
    have cons: "lost i ((j, w) # d) = (if i = j then w else lost i d)" for i w d by (simp add: lost_def)
    have "j \<notin> fst ` set (filter (\<lambda>(k, v). v \<noteq> 0) d)" using Cons.prems by (auto simp: p)
    from lost_absent [OF this] show ?case using Cons by (auto simp: p cons)
  qed simp
  then show ?thesis by (simp add: as_losses_def counters_distinct)
qed

definition page_inv :: "page_rewrite \<Rightarrow> bool" where
  "page_inv st \<longleftrightarrow>
     distinct (map fst (pr_paths st)) \<and> pr_seen st = fst ` set (pr_paths st) \<and>
     fst ` set (pr_losses_by_line st) \<subseteq> pr_seen st \<and>
     ledger (\<lambda>k. lost k (loss_counters (pr_metrics st))) (pr_losses_by_line st) \<and>
     metrics_total_lines (pr_metrics st) = length (pr_paths st)"

lemma fresh_page_inv: "page_inv fresh_page_rewrite"
  by (simp add: page_inv_def fresh_page_rewrite_def no_metrics_def ledger_def lost_counters metrics_total_lines_def)

lemma record_line_ledger:
  assumes "ledger (\<lambda>k. lost k (loss_counters m)) by_line" "l \<notin> fst ` set by_line" "grows m m'"
  shows "ledger (\<lambda>k. lost k (loss_counters m')) (record_line_losses l (loss_counters m) m' by_line) \<and>
    fst ` set (record_line_losses l (loss_counters m) m' by_line) \<subseteq> insert l (fst ` set by_line)"
proof -
  let ?delta = "loss_delta (loss_counters m) (loss_counters m')"
  have delta: "lost k ?delta = lost k (loss_counters m') - lost k (loss_counters m)" for k
    by (rule lost_delta [OF counters_distinct])
  have more: "lost k (loss_counters m) \<le> lost k (loss_counters m')" for k by (rule grows_lost [OF assms(3)])
  show ?thesis
  proof (cases "?delta = []")
    case True
    have "lost k (loss_counters m') = lost k (loss_counters m)" for k
      using delta [of k] more [of k] by (simp add: True)
    then show ?thesis using assms(1) True by (simp add: record_line_losses_def ledger_def subset_insertI)
  next
    case False
    have "record_line_losses l (loss_counters m) m' by_line = by_line @ [(l, ?delta)]"
      using False assms(2) by (simp add: record_line_losses_def Let_def dict_set_new)
    moreover have "lost k (loss_counters m') = lost k (loss_counters m) + lost k ?delta" for k
      using more [of k] by (simp add: delta)
    ultimately show ?thesis using assms(1) by (auto simp: ledger_def)
  qed
qed

lemma page_step_hit:
  assumes l: "page_key e = Some l" "map_of by_id l = Some lm" and inv: "page_inv st"
    and step: "page_step u ns by_id st e = Inr st'"
  shows "page_inv st' \<and> map fst (pr_paths st') = map fst (pr_paths st) @ [l] \<and>
    (\<exists>el path m m'. rewrite_page_line u ns lm e m = Inr (el, path, m'))"
proof -
  from step l obtain el path m where new: "l \<notin> pr_seen st"
    and res: "rewrite_page_line u ns lm e (pr_metrics st) = Inr (el, path, m)"
    and st': "st' = \<lparr>pr_metrics = m, pr_paths = dict_set l path (pr_paths st),
      pr_losses_by_line = record_line_losses l (loss_counters (pr_metrics st)) m (pr_losses_by_line st),
      pr_seen = insert l (pr_seen st)\<rparr>"
    by (auto simp: page_step_def res_bind_Inr split: if_splits)
  note counts = rewrite_page_line_counts [OF res]
  have fresh: "l \<notin> fst ` set (pr_paths st)" "l \<notin> fst ` set (pr_losses_by_line st)"
    using new inv by (auto simp: page_inv_def)
  have paths: "pr_paths st' = pr_paths st @ [(l, path)]" using fresh(1) by (simp add: st' dict_set_new)
  have "ledger (\<lambda>k. lost k (loss_counters (pr_metrics st))) (pr_losses_by_line st)" using inv by (simp add: page_inv_def)
  note led = record_line_ledger [OF this fresh(2) conjunct1 [OF counts]]
  have "fst ` set (pr_losses_by_line st) \<subseteq> pr_seen st" using inv unfolding page_inv_def by blast
  then have "fst ` set (pr_losses_by_line st') \<subseteq> pr_seen st'"
    using led by (simp add: st') blast
  moreover have "pr_seen st' = fst ` set (pr_paths st')" using inv by (simp add: paths) (simp add: st' page_inv_def)
  ultimately have "page_inv st'"
    using led counts inv fresh(1) by (simp add: page_inv_def paths) (simp add: st')
  then show ?thesis using res paths by auto
qed

interpretation page_loop: line_loop page_key by_id "page_step u ns by_id" "\<lambda>st. map fst (pr_paths st)" page_inv
    "\<lambda>lm e. \<exists>el path m m'. rewrite_page_line u ns lm e m = Inr (el, path, m')" for u ns by_id
proof unfold_locales
  show "page_step u ns by_id st e = Inr st" if "\<not> addressed page_key by_id e" for st e
    using that by (auto simp: addressed_def page_step_def split: option.splits)
qed (rule page_step_hit)

section \<open>The tree\<close>

lemma page_written_cases:
  obtains "page_written u ns lm el = el"
  | source corrected m path m' where
      "write_line u ns source corrected el m = (page_written u ns lm el, path, m')"
proof (cases "rewrite_page_line u ns lm el no_metrics")
  case (Inl e)
  then show thesis using that(1) by (simp add: page_written_def)
next
  case (Inr p)
  obtain el' path m' where p: "p = (el', path, m')" by (cases p)
  then have w: "page_written u ns lm el = el'" using Inr by (simp add: page_written_def)
  from Inr [unfolded p] show thesis
  proof (cases rule: rewrite_page_line_cases)
    case untouched
    with w that(1) show thesis by simp
  next
    case (written m1 m2)
    with w that(2) show thesis by metis
  qed
qed

interpretation page: line_writer page_key ns "page_written u ns" for u ns
proof unfold_locales
  fix lm el
  show "page_key (page_written u ns lm el) = page_key el \<and> has_tag ''TextLine'' ns (page_written u ns lm el)"
    if "has_tag ''TextLine'' ns el"
  proof (rule page_written_cases [of u ns lm el])
    fix source corrected m path m'
    assume "write_line u ns source corrected el m = (page_written u ns lm el, path, m')"
    from write_line_spec [OF this] that show ?thesis by (simp add: same_line_def page_key_def has_tag_def)
  qed (use that in simp)
  show "lineless_children ns (page_written u ns lm el)" if "lineless_children ns el"
    by (rule page_written_cases [of u ns lm el]) (use that write_line_lineless in auto)
qed

text \<open>Recording the pass leaves the lines alone.\<close>

lemma iter_provenance:
  assumes "\<not> has_tag ''TextLine'' ns el"
  shows "iter_tagged ''TextLine'' ns (add_provenance ns p m v f el) = iter_tagged ''TextLine'' ns el"
proof -
  let ?desc = "provenance_text p m v f"
  define note_pass where "note_pass metadata =
     (if supports_metadata_item ns then
        append_children
          [Element (Some (qtag ''MetadataItem'' ns)) []
             [(''type'', tx ''processingStep''), (''name'', tx ''saknussemm''), (''value'', ?desc)] None []] metadata
      else if find_child ''Comments'' ns metadata = None then
        append_children [set_text ?desc (new_element ''Comments'' ns)] metadata
      else
        set_children (update_first (has_tag ''Comments'' ns)
          (\<lambda>c. set_text (comment_text (el_text c) ?desc) c) (el_children metadata)) metadata)" for metadata
  have kept: "iter_tagged ''TextLine'' ns (note_pass c) = iter_tagged ''TextLine'' ns c"
    if c: "has_tag ''Metadata'' ns c" for c
  proof -
    have no: "\<not> has_tag ''TextLine'' ns c" using c has_tag_unique by blast
    have "iter_tagged ''TextLine'' ns (set_text t d) = iter_tagged ''TextLine'' ns d" if "has_tag ''Comments'' ns d" for t d
      using that by (subst (1 2) iter_children) (auto dest: has_tag_unique)
    then have "iter_tagged ''TextLine'' ns (set_children (update_first (has_tag ''Comments'' ns)
        (\<lambda>d. set_text (comment_text (el_text d) ?desc) d) (el_children c)) c) = iter_tagged ''TextLine'' ns c"
      using iter_own_children [OF no] by (simp add: iter_set_children [OF no] iter_update_first)
    moreover have "iter_tagged ''TextLine'' ns (set_text ?desc (new_element ''Comments'' ns)) = []"
      by (subst iter_children) simp
    ultimately show ?thesis
      using iter_append [OF c, of "''TextLine''"] by (simp add: note_pass_def)
  qed
  have "add_provenance ns p m v f el =
      set_children (update_first (has_tag ''Metadata'' ns) note_pass (el_children el)) el"
    by (simp add: add_provenance_def Let_def note_pass_def [abs_def])
  then show ?thesis
    using iter_own_children [OF assms] by (simp only: iter_set_children [OF assms] iter_update_first [OF kept])
qed

section \<open>The texts of the written file\<close>

lemma rewrite_page_file_cases:
  assumes "rewrite_page_file u pages provider model v f el = Inr out"
  obtains st by_id where "by_id = dict_of line_id (lines_of pages)"
    "ensure_unique_identities pages = Inr ()"
    "each_line (page_step u (detect_namespace el) by_id) (textlines el) fresh_page_rewrite = Inr st"
    "res_tree out = add_provenance (detect_namespace el) provider model v f
       (map_elements (on_lines page_key (detect_namespace el) (page_written u (detect_namespace el)) by_id) el)"
    "collect_texts page_key (page_line_text u (detect_namespace el) False) (fst ` set by_id)
       (iter_tagged ''TextLine'' (detect_namespace el) (res_tree out)) [] = Inr (res_texts out)"
    "collect_texts page_key (page_line_text u (detect_namespace el) True) (fst ` set by_id)
       (iter_tagged ''TextLine'' (detect_namespace el) (res_tree out)) [] = Inr (res_texts_verbatim out)"
    "res_metrics out = rewriter_metrics.truncate (pr_metrics st)" "res_paths out = pr_paths st"
    "res_losses out = as_losses (pr_metrics st)" "res_losses_by_line out = pr_losses_by_line st"
  using assms by (auto simp: rewrite_page_file_def page_lines_def page_texts_def Let_def res_bind_Inr)

text \<open>What a rewritten file returns and holds for a line.\<close>

lemma page_file_text:
  assumes "rewrite_page_file u pages provider model v f el = Inr out" "ns = detect_namespace el"
    and "flat_lines ns el" "\<not> has_tag ''TextLine'' ns el"
    and "tl_el \<in> set (textlines el)" "page_key tl_el = Some l"
    and "lm \<in> set (lines_of pages)" "line_id lm = l"
  shows "page_written u ns lm tl_el \<in> set (iter_tagged ''TextLine'' ns (res_tree out)) \<and>
    map_of (res_texts out) l = Some (page_line_text u ns False (page_written u ns lm tl_el)) \<and>
    map_of (res_texts_verbatim out) l = Some (page_line_text u ns True (page_written u ns lm tl_el)) \<and>
    (\<exists>el' path m m'. rewrite_page_line u ns lm tl_el m = Inr (el', path, m'))"
proof -
  obtain st by_id where by_id: "by_id = dict_of line_id (lines_of pages)"
    and uniq: "ensure_unique_identities pages = Inr ()"
    and lines: "each_line (page_step u ns by_id) (textlines el) fresh_page_rewrite = Inr st"
    and tree: "res_tree out = add_provenance ns provider model v f
       (map_elements (on_lines page_key ns (page_written u ns) by_id) el)"
    and texts: "collect_texts page_key (page_line_text u ns False) (fst ` set by_id)
       (iter_tagged ''TextLine'' ns (res_tree out)) [] = Inr (res_texts out)"
    and verbatim: "collect_texts page_key (page_line_text u ns True) (fst ` set by_id)
       (iter_tagged ''TextLine'' ns (res_tree out)) [] = Inr (res_texts_verbatim out)"
    using rewrite_page_file_cases [OF assms(1)] assms(2) by metis
  have "distinct (map line_id (lines_of pages))"
    using uniq unique_identities_iff [of pages] by (simp add: lines_of_def map_concat comp_def)
  from map_of_dict_of_distinct [OF this assms(7)] assms(8) have lm: "map_of by_id l = Some lm"
    by (simp add: by_id)
  have es: "tl_el \<in> set (iter_tagged ''TextLine'' ns el)" using assms(2,5) by (simp add: textlines_def)
  have iters: "iter_tagged ''TextLine'' ns (res_tree out) =
      iter_tagged ''TextLine'' ns (map_elements (on_lines page_key ns (page_written u ns) by_id) el)"
    unfolding tree by (rule iter_provenance) (rule page.written.no_line_kept [OF assms(4)])
  have ids: "l \<in> fst ` set by_id" using lm by (rule map_of_key)
  have "on_lines page_key ns (page_written u ns) by_id tl_el = page_written u ns lm tl_el"
    using iter_has_tag [OF es] assms(6) lm by (simp add: on_lines_def)
  then have "page_written u ns lm tl_el \<in> set (iter_tagged ''TextLine'' ns (res_tree out))"
    using es unfolding iters page.written.iter_mapped [OF assms(3)] by force
  moreover note page.text_read [OF assms(3) iters texts es assms(6) ids lm]
    page.text_read [OF assms(3) iters verbatim es assms(6) ids lm]
  moreover have "\<exists>el' path m m'. rewrite_page_line u ns lm tl_el m = Inr (el', path, m')"
    using page_loop.loop_spec [OF lines fresh_page_inv] assms(5,6) lm by blast
  ultimately show ?thesis by blast
qed

lemma clean_line_idem: "clean_line (clean_line t) = clean_line t"
  unfolding clean_line_def by (rule strip_clean_idem)

lemma page_corrected_clean: "clean_line (page_corrected u ns lm el) = page_corrected u ns lm el"
  by (simp add: page_corrected_def clean_line_idem)

text \<open>What a line is written as.\<close>

lemma page_line_written:
  assumes "rewrite_page_line u ns lm el m = Inr (el', path, m')"
  shows "same_line ns el el' \<and>
    (if page_corrected u ns lm el = page_line_text u ns False el then el' = el \<and> path = ''untouched''
     else page_line_text u ns True el' = page_corrected u ns lm el \<and>
       words_written u ns path (page_corrected u ns lm el) el el' \<and>
       page_line_text u ns False el' = clean_line (nfc u (page_corrected u ns lm el)))"
  using assms
proof (cases rule: rewrite_page_line_cases)
  case untouched
  then show ?thesis by (simp add: same_line_def)
next
  case (written m1 m2)
  note spec = write_line_spec [OF written(1)]
  from spec [of True] spec [of False] written(2) show ?thesis by (simp add: page_corrected_clean)
qed

section \<open>Properties of the PAGE writer\<close>

text \<open>A line with a text of its own and two words, for the witnesses.\<close>

definition demo_equiv :: "(string \<times> ptext) list \<Rightarrow> ptext \<Rightarrow> xml" where
  "demo_equiv as t =
     Element (Some ''TextEquiv'') [] as None [Element (Some ''Unicode'') [] [] (Some t) []]"

definition demo_word :: "ident \<Rightarrow> ptext \<Rightarrow> xml" where
  "demo_word i t =
     Element (Some ''Word'') [(''id'', i)] [] None
       [Element (Some ''Coords'') [] [(''points'', tx ''0,0 9,0 9,9'')] None [], demo_equiv [(''conf'', tx ''0.9'')] t]"

definition demo_page_line :: xml where
  "demo_page_line =
     Element (Some ''TextLine'') [(''id'', ''l1'')] [(''custom'', tx ''readingOrder {index:0;} textStyle {offset:3;}'')] None
       [Element (Some ''Coords'') [] [(''points'', tx ''0,0 100,0 100,12'')] None [],
        demo_word ''w1'' (tx ''Le''), demo_word ''w2'' (tx ''chut''),
        demo_equiv [(''conf'', tx ''0.8'')] (tx ''Le chut''), demo_equiv [(''index'', tx ''1'')] (tx ''Le chot'')]"

definition demo_page_file :: xml where
  "demo_page_file =
     Element (Some ''PcGts'') [] [] None
       [Element (Some ''Metadata'') [] [] None [],
        Element (Some ''Page'') [] [] None
          [Element (Some ''TextRegion'') [(''id'', ''r1'')] [] None [demo_page_line]]]"

definition demo_page_lm :: "ptext \<Rightarrow> line_manifest" where
  "demo_page_lm t = (plain_line ''p1'' ''l1'' 0 (tx ''Le chut''))\<lparr>corrected_text := Some t\<rparr>"

definition demo_page_pages :: "ptext \<Rightarrow> page_manifest list" where
  "demo_page_pages t =
     [\<lparr>pg_id = ''p1'', pg_source_file = ''f'', pg_index = 0, pg_width = 0, pg_height = 0, pg_blocks = [],
       pg_lines = [demo_page_lm t]\<rparr>]"

text \<open>C18: The projection of a PAGE file reaches the artefact, whatever was decided. The text to write is the
  decided one in NFC, its break mark respelt as the one the source line ends on, without carriage returns and
  outer white space. For every line of the file that a manifest addresses, the written tree holds an element
  with that identifier: the source's own element if the text to write is the text the source reads as; else
  an element that holds the text to write code point for code point, and that the parser reads as the NFC of
  it (again without outer white space). In a changed line nothing moves but readings, words and stale
  annotations, the polygon included; either no word is left, or the words are the source's words, each with
  its polygon, and spell the words of the text in order. The file's lines are not nested in one another.\<close>

theorem page_file_reads_back:
  assumes out: "rewrite_page_file u pages provider model v f el = Inr out"
    and flat: "flat_lines (detect_namespace el) el" "\<not> has_tag ''TextLine'' (detect_namespace el) el"
    and line: "tl_el \<in> set (textlines el)" "page_key tl_el = Some (line_id lm)" "lm \<in> set (lines_of pages)"
  shows "let source = page_line_text u (detect_namespace el) False tl_el;
             t = clean_line (preserve_break_char u source (nfc u (or_else (corrected_text lm) (ocr_text lm))))
    in \<exists>el' path. el' \<in> set (iter_tagged ''TextLine'' (detect_namespace el) (res_tree out)) \<and>
      page_key el' = Some (line_id lm) \<and> same_line (detect_namespace el) tl_el el' \<and>
      (if t = source then el' = tl_el \<and> map_of (res_texts out) (line_id lm) = Some source
       else map_of (res_texts_verbatim out) (line_id lm) = Some t \<and>
         map_of (res_texts out) (line_id lm) = Some (clean_line (nfc u t)) \<and>
         words_written u (detect_namespace el) path t tl_el el')"
proof -
  let ?ns = "detect_namespace el"
  note held = page_file_text [OF out refl flat line refl]
  then obtain m p m' where rw: "rewrite_page_line u ?ns lm tl_el m = Inr (page_written u ?ns lm tl_el, p, m')"
    using rewrite_page_line_counts by metis
  note written = page_line_written [OF rw, unfolded page_corrected_def]
  have "page_key (page_written u ?ns lm tl_el) = Some (line_id lm)"
    using written line(2) by (simp add: same_line_def page_key_def)
  then show ?thesis unfolding Let_def
    using held written by (intro exI [of _ "page_written u ?ns lm tl_el"] exI [of _ p]) (auto split: if_splits)
qed

definition demo_page_out :: "exn + rewrite_result" where
  "demo_page_out = rewrite_page_file ascii_unicode (demo_page_pages (tx ''Le chat'')) (tx ''p'') (tx ''m'') None None demo_page_file"

lemma demo_page_out_texts:
  "case demo_page_out of Inl _ \<Rightarrow> False | Inr out \<Rightarrow> res_losses out =
     [(''confidence_invalidated'', 1), (''alt_textequiv_dropped'', 1), (''custom_offset_stripped'', 1)]"
  by code_simp

lemma demo_page_flat:
  "flat_lines (detect_namespace demo_page_file) demo_page_file"
  "\<not> has_tag ''TextLine'' (detect_namespace demo_page_file) demo_page_file"
  "textlines demo_page_file = [demo_page_line]" "page_key demo_page_line = Some ''l1''"
  "detect_namespace demo_page_file = []"
  by code_simp+

lemma page_file_reads_back_witness:
  "\<exists>out el'. demo_page_out = Inr out \<and> el' \<in> set (iter_tagged ''TextLine'' [] (res_tree out)) \<and>
     page_key el' = Some ''l1'' \<and> map_of (res_texts out) ''l1'' = Some (tx ''Le chat'') \<and>
     same_line [] demo_page_line el'"
proof -
  let ?lm = "demo_page_lm (tx ''Le chat'')"
  obtain out where out: "demo_page_out = Inr out"
    using demo_page_out_texts by (simp only: split: sum.split_asm)
  have lm: "?lm \<in> set (lines_of (demo_page_pages (tx ''Le chat'')))" "line_id ?lm = ''l1''"
    by (simp_all add: demo_page_pages_def lines_of_def demo_page_lm_def plain_line_def)
  have t: "clean_line (preserve_break_char ascii_unicode (page_line_text ascii_unicode [] False demo_page_line)
      (nfc ascii_unicode (or_else (corrected_text ?lm) (ocr_text ?lm)))) = tx ''Le chat''"
    "tx ''Le chat'' \<noteq> page_line_text ascii_unicode [] False demo_page_line"
    "clean_line (nfc ascii_unicode (tx ''Le chat'')) = tx ''Le chat''"
    by code_simp+
  have line: "demo_page_line \<in> set (textlines demo_page_file)" "page_key demo_page_line = Some (line_id ?lm)"
    using demo_page_flat lm by simp_all
  from page_file_reads_back [OF out [unfolded demo_page_out_def] demo_page_flat(1,2) line lm(1)]
  show ?thesis unfolding demo_page_flat(5) lm(2) Let_def t(1) t(3) if_not_P [OF t(2)] using out by blast
qed

text \<open>C19: The ledger of a rewritten PAGE file. Every line a manifest addresses is counted once, on one path;
  every counter of the file is the sum of what its lines were charged, and only lines of the file are
  charged.\<close>

theorem page_file_ledger:
  assumes "rewrite_page_file u pages provider model v f el = Inr out"
  shows "distinct (map fst (res_paths out)) \<and>
    map fst (res_paths out) = map (\<lambda>e. the (page_key e))
      (filter (addressed page_key (dict_of line_id (lines_of pages))) (textlines el)) \<and>
    metrics_total_lines (res_metrics out) = length (res_paths out) \<and>
    (\<forall>k. lost k (res_losses out) = sum_list (map (\<lambda>(l, ls). lost k ls) (res_losses_by_line out))) \<and>
    fst ` set (res_losses_by_line out) \<subseteq> fst ` set (res_paths out)"
proof (rule rewrite_page_file_cases [OF assms])
  fix st by_id
  assume by_id: "by_id = dict_of line_id (lines_of pages)"
    and lines: "each_line (page_step u (detect_namespace el) by_id) (textlines el) fresh_page_rewrite = Inr st"
    and out: "res_metrics out = rewriter_metrics.truncate (pr_metrics st)" "res_paths out = pr_paths st"
      "res_losses out = as_losses (pr_metrics st)" "res_losses_by_line out = pr_losses_by_line st"
  have "metrics_total_lines (rewriter_metrics.truncate m) = metrics_total_lines m" for m :: page_metrics
    by (simp add: metrics_total_lines_def rewriter_metrics.truncate_def)
  moreover have st: "page_inv st" "map fst (pr_paths st) = map (\<lambda>e. the (page_key e))
      (filter (addressed page_key by_id) (textlines el))"
    using page_loop.loop_spec [OF lines fresh_page_inv] by (simp_all add: fresh_page_rewrite_def)
  moreover have "pr_seen st = fst ` set (pr_paths st)" "fst ` set (pr_losses_by_line st) \<subseteq> pr_seen st"
    using st(1) unfolding page_inv_def by blast+
  then have "fst ` set (pr_losses_by_line st) \<subseteq> fst ` set (pr_paths st)" by blast
  ultimately show ?thesis unfolding out by_id page_inv_def ledger_def lost_as_losses by metis
qed

theorem page_file_ledger_witness:
  "\<exists>out. demo_page_out = Inr out \<and> metrics_total_lines (res_metrics out) = length (res_paths out) \<and>
     lost ''alt_textequiv_dropped'' (res_losses out) = 1"
proof -
  obtain out where out: "demo_page_out = Inr out" "res_losses out =
     [(''confidence_invalidated'', 1), (''alt_textequiv_dropped'', 1), (''custom_offset_stripped'', 1)]"
    using demo_page_out_texts by (simp only: split: sum.split_asm)
  from page_file_ledger [OF out(1) [unfolded demo_page_out_def]] out show ?thesis
    by (intro exI [of _ out]) (simp add: lost_def)
qed

text \<open>A decision that XML cannot hold stops the file. \<open>lxml\<close> refuses a text with a character outside XML's
  when it is assigned; the model states that refusal as \<open>xml_char\<close>, before the line is touched. If the text
  to write on a changed line has such a character, the rewrite of the whole PAGE file raises.\<close>

lemma page_writer_stops_at_control_characters:
  assumes flat: "flat_lines (detect_namespace el) el" "\<not> has_tag ''TextLine'' (detect_namespace el) el"
    and line: "tl_el \<in> set (textlines el)" "page_key tl_el = Some (line_id lm)" "lm \<in> set (lines_of pages)"
    and bad: "page_corrected u (detect_namespace el) lm tl_el \<noteq> page_line_text u (detect_namespace el) False tl_el"
      "\<exists>c \<in> set (page_corrected u (detect_namespace el) lm tl_el). \<not> xml_char c"
  shows "\<exists>e. rewrite_page_file u pages provider model v f el = Inl e"
proof (rule ccontr)
  assume "\<not> (\<exists>e. rewrite_page_file u pages provider model v f el = Inl e)"
  then obtain out where "rewrite_page_file u pages provider model v f el = Inr out"
    by (cases "rewrite_page_file u pages provider model v f el") auto
  from page_file_text [OF this refl flat line refl] obtain el' path m m' where
    "rewrite_page_line u (detect_namespace el) lm tl_el m = Inr (el', path, m')" by blast
  then show False by (cases rule: rewrite_page_line_cases) (use bad in \<open>auto simp: list_all_iff\<close>)
qed

lemma demo_control_character:
  "page_corrected ascii_unicode [] (demo_page_lm (tx ''Le chat'' @ [1])) demo_page_line = tx ''Le chat'' @ [1]"
  "page_line_text ascii_unicode [] False demo_page_line = tx ''Le chut''"
  "tx ''Le chat'' @ [1] \<noteq> tx ''Le chut''" "\<not> has_line_separator (tx ''Le chat'' @ [1])"
  by code_simp+

lemma page_writer_stops_at_control_characters_witness:
  "\<not> has_line_separator (tx ''Le chat'' @ [1]) \<and>
   (\<exists>e. rewrite_page_file ascii_unicode (demo_page_pages (tx ''Le chat'' @ [1])) [] [] None None demo_page_file = Inl e)"
proof -
  let ?lm = "demo_page_lm (tx ''Le chat'' @ [1])"
  have lm: "?lm \<in> set (lines_of (demo_page_pages (tx ''Le chat'' @ [1])))" "line_id ?lm = ''l1''"
    by (simp_all add: demo_page_pages_def lines_of_def demo_page_lm_def plain_line_def)
  have line: "demo_page_line \<in> set (textlines demo_page_file)" "page_key demo_page_line = Some (line_id ?lm)"
    using demo_page_flat lm by simp_all
  have "page_corrected ascii_unicode (detect_namespace demo_page_file) ?lm demo_page_line \<noteq>
      page_line_text ascii_unicode (detect_namespace demo_page_file) False demo_page_line"
    "\<exists>c \<in> set (page_corrected ascii_unicode (detect_namespace demo_page_file) ?lm demo_page_line). \<not> xml_char c"
    unfolding demo_page_flat(5) demo_control_character(1,2) using demo_control_character(3) by (simp_all add: xml_char_def)
  from page_writer_stops_at_control_characters [OF demo_page_flat(1,2) line lm(1) this]
  show ?thesis using demo_control_character(4) by blast
qed

end
