(* ===== verification/Page_Parser.thy ===== *)
theory Page_Parser
  imports Page_Text
begin

text \<open>
  \<open>formats/page/parser.py\<close>: from the tree of a PAGE file to the manifests the engine works on, through
  the loops of \<open>Parsing\<close>. The declared reading order is a tree of groups; it is followed when it covers
  every region of the page, and ignored otherwise.
\<close>

section \<open>Boxes and hyphens\<close>

definition page_coords :: "string \<Rightarrow> xml \<Rightarrow> coords" where
  "page_coords ns el =
     (let points = (case find_child ''Coords'' ns el of None \<Rightarrow> [] | Some c \<Rightarrow> or_else (get_attr ''points'' c) []);
          (x, y, w, h) = polygon_to_bbox points
      in \<lparr>hpos = x, vpos = y, width = w, height = h, polygon = if points \<noteq> [] then Some points else None\<rparr>)"

definition assign_hyphen_roles :: "unicode \<Rightarrow> line_manifest list \<Rightarrow> line_manifest list" where
  "assign_hyphen_roles u lines =
     (let broken = map (\<lambda>lm. trailing_hyphen_char u (ocr_text lm) HYPHEN_CHARS \<noteq> None) lines
      in map (\<lambda>(i, lm).
           if \<not> broken ! i then lm
           else if i > 0 \<and> broken ! (i - 1) then lm\<lparr>hyphen_role := BOTH\<rparr>
           else lm\<lparr>hyphen_role := PART1\<rparr>) (enumerate 0 lines))"

section \<open>Regions and their reading order\<close>

definition LAST_INDEX :: int where
  "LAST_INDEX = 1000000000"

definition REF_NAMES :: "string list" where
  "REF_NAMES = [''RegionRefIndexed'', ''RegionRef'']"

definition GROUP_NAMES :: "string list" where
  "GROUP_NAMES = [''OrderedGroup'', ''OrderedGroupIndexed'', ''UnorderedGroup'', ''UnorderedGroupIndexed'']"

definition index_key :: "xml \<Rightarrow> int" where
  "index_key el =
     (case get_attr ''index'' el of None \<Rightarrow> LAST_INDEX | Some raw \<Rightarrow> lenient_int (Some raw) LAST_INDEX)"

text \<open>What one child of a group contributes, with its key; the sort is stable, so document order breaks
  ties.\<close>

definition in_key_order :: "(int \<times> ident list) list \<Rightarrow> ident list" where
  "in_key_order entries = concat (map snd (sort_key fst entries))"

fun group_entry :: "xml \<Rightarrow> (int \<times> ident list) list" where
  "group_entry (Element t i as x cs) =
     (let el = Element t i as x cs
      in if t = None then []
         else if local_name el \<in> set REF_NAMES then
           [(index_key el,
             case map_of i ''regionRef'' of None \<Rightarrow> [] | Some ref \<Rightarrow> if ref = [] then [] else [ref])]
         else if local_name el \<in> set GROUP_NAMES then
           [(index_key el, in_key_order (concat (map group_entry cs)))]
         else [])"

definition group_refs :: "xml \<Rightarrow> ident list" where
  "group_refs el = in_key_order (concat (map group_entry (el_children el)))"

definition reading_order_refs :: "string \<Rightarrow> xml \<Rightarrow> ident list" where
  "reading_order_refs ns page_el =
     (case find_child ''ReadingOrder'' ns page_el of None \<Rightarrow> [] | Some ro \<Rightarrow> group_refs ro)"

text \<open>Where an identifier is first referenced.\<close>

definition first_ref :: "ident list \<Rightarrow> ident \<Rightarrow> nat" where
  "first_ref refs rid = length (takeWhile (\<lambda>r. r \<noteq> rid) refs)"

definition regions_in_reading_order :: "string \<Rightarrow> xml \<Rightarrow> xml list" where
  "regions_in_reading_order ns page_el =
     (let regions = iter_tagged ''TextRegion'' ns page_el; refs = reading_order_refs ns page_el
      in if refs = [] \<or> length regions < 2 then regions
         else if list_ex (\<lambda>r. \<not> truthy (page_key r) \<or> the (page_key r) \<notin> set refs) regions then regions
         else sort_key (\<lambda>r. first_ref refs (or_else (page_key r) [])) regions)"

section \<open>Lines, pages and files\<close>

definition equiv_confidence :: "string \<Rightarrow> xml \<Rightarrow> rat option" where
  "equiv_confidence ns tl_el =
     (case find_child ''TextEquiv'' ns tl_el of
        None \<Rightarrow> None
      | Some te \<Rightarrow>
          if \<not> truthy (get_attr ''conf'' te) then None
          else (case py_float (the (get_attr ''conf'' te)) of
                  Some (Finite r) \<Rightarrow> if 0 \<le> r \<and> r \<le> 1 then Some r else None
                | _ \<Rightarrow> None))"

definition parse_page_line ::
  "unicode \<Rightarrow> string \<Rightarrow> ident \<Rightarrow> ident \<Rightarrow> int \<Rightarrow> nat \<Rightarrow> xml \<Rightarrow> exn + line_manifest" where
  "parse_page_line u ns page block global_idx n tl_el =
     (let n_words = length (children_tagged ''Word'' ns tl_el)
      in Inr
        \<lparr>line_id = or_else (page_key tl_el) (''TL_'' @ block @ ''_'' @ dec n), page_id = page, block_id = block,
         line_order_global = global_idx, line_order_in_block = int n, coords_of = page_coords ns tl_el,
         ocr_text = page_line_text u ns False tl_el,
         word_count = if n_words \<noteq> 0 then Some (int n_words) else None,
         ocr_confidence = equiv_confidence ns tl_el, prev_line_id = None, next_line_id = None,
         corrected_text = None, status = PENDING, hyphen_role = NONE, hyphen_pair_line_id = None,
         hyphen_pair_page_id = None, hyphen_subs_content = None, hyphen_source_explicit = False,
         hyphen_forward_pair_id = None, hyphen_forward_pair_page_id = None,
         hyphen_forward_subs_content = None, hyphen_forward_explicit = False\<rparr>)"

definition region_name :: "ident \<Rightarrow> nat \<Rightarrow> xml \<Rightarrow> ident" where
  "region_name page order region = or_else (page_key region) (''TR_'' @ page @ ''_'' @ dec order)"

definition parse_regions ::
  "unicode \<Rightarrow> string \<Rightarrow> ident \<Rightarrow> int \<Rightarrow> nat \<Rightarrow> xml list \<Rightarrow> exn + (block_manifest list \<times> line_manifest list)" where
  "parse_regions u ns page =
     read_blocks (region_name page) (\<lambda>el. Inr (page_coords ns el)) (parse_page_line u ns page) ns page"

definition page_name :: "nat \<Rightarrow> xml \<Rightarrow> ident" where
  "page_name index page_el =
     (let raw = map_of (el_ids page_el) ''imageFilename''
      in if truthy raw then the raw else ''PAGE_'' @ dec index)"

definition parse_page_page ::
  "unicode \<Rightarrow> string \<Rightarrow> ident \<Rightarrow> pairing_policy \<Rightarrow> nat \<Rightarrow> int \<Rightarrow> xml \<Rightarrow> exn + page_manifest" where
  "parse_page_page u ns source pol index global_idx page_el =
     (let page = page_name index page_el
      in res_bind (parse_regions u ns page global_idx 0 (regions_in_reading_order ns page_el)) (\<lambda>(blocks, lines).
           Inr \<lparr>pg_id = page, pg_source_file = source, pg_index = int index,
                pg_width = lenient_int (get_attr ''imageWidth'' page_el) 0,
                pg_height = lenient_int (get_attr ''imageHeight'' page_el) 0, pg_blocks = blocks,
                pg_lines = link_hyphen_pairs pol (assign_hyphen_roles u (link_neighbours lines))\<rparr>))"

definition parse_page_tree ::
  "unicode \<Rightarrow> ident \<Rightarrow> nat \<Rightarrow> int \<Rightarrow> pairing_policy \<Rightarrow> xml \<Rightarrow> exn + page_manifest list" where
  "parse_page_tree u source page_offset line_offset pol el =
     (let ns = detect_namespace el
      in res_bind (read_pages (parse_page_page u ns source pol) page_offset line_offset (children_tagged ''Page'' ns el))
           (gate_pages ''TextLine id(s)'' (map page_key (textlines el))))"

definition parse_page_file ::
  "unicode \<Rightarrow> ident \<Rightarrow> nat \<Rightarrow> int \<Rightarrow> pairing_policy \<Rightarrow> xml \<Rightarrow> exn + page_manifest list" where
  "parse_page_file u source page_offset line_offset pol el =
     classify (parse_page_tree u source page_offset line_offset pol el)"

definition page_document_manifest ::
  "unicode \<Rightarrow> ident \<Rightarrow> pairing_policy \<Rightarrow> source_file list \<Rightarrow> exn + document_manifest" where
  "page_document_manifest u did pol files =
     res_bind (read_files (\<lambda>source po lo. parse_page_file u source po lo pol) 0 0 files) (\<lambda>parsed.
       Inr (assemble_document did pol ''page'' files parsed))"

section \<open>Facts: the reading order\<close>

text \<open>No declaration loses a region or reads one twice.\<close>

lemma regions_perm: "mset (regions_in_reading_order ns page_el) = mset (iter_tagged ''TextRegion'' ns page_el)"
  by (simp add: regions_in_reading_order_def Let_def)

lemma iter_iter: "e \<in> set (iter_tagged k ns el) \<Longrightarrow> set (iter_tagged l ns e) \<subseteq> set (iter_tagged l ns el)"
proof (induction el)
  case (Element t i as x cs)
  show ?case
  proof (cases "e = Element t i as x cs")
    case False
    then obtain c where c: "c \<in> set cs" "e \<in> set (iter_tagged k ns c)" using Element.prems by (auto split: if_splits)
    from Element.IH [OF this] iter_child [of c "Element t i as x cs" l ns] c(1) show ?thesis by auto
  qed simp
qed

lemma regions_below:
  assumes "b \<in> set (regions_in_reading_order ns el)"
  shows "set (iter_tagged ''TextLine'' ns b) \<subseteq> set (iter_tagged ''TextLine'' ns el)"
proof -
  have "b \<in> set (iter_tagged ''TextRegion'' ns el)" using assms regions_perm by (metis set_mset_mset)
  then show ?thesis by (rule iter_iter)
qed

section \<open>Facts: parsing\<close>

lemma roles_strip: "map strip_links (assign_hyphen_roles u lms) = map strip_links lms"
proof (rule nth_equalityI)
  fix i assume "i < length (map strip_links (assign_hyphen_roles u lms))"
  then have i: "i < length lms" by (simp add: assign_hyphen_roles_def Let_def)
  have "strip_links (lm\<lparr>hyphen_role := r\<rparr>) = strip_links lm" for lm r by (simp add: strip_links_def)
  then show "map strip_links (assign_hyphen_roles u lms) ! i = map strip_links lms ! i"
    using i by (simp add: assign_hyphen_roles_def Let_def nth_enumerate_eq)
qed (simp add: assign_hyphen_roles_def Let_def)

interpretation page_reader: page_reader page_key "page_line_text u ns False" "parse_page_line u ns" ns source
    "regions_in_reading_order ns" region_name "\<lambda>el. Inr (page_coords ns el)" "parse_page_page u ns source pol"
    for u ns source pol
proof unfold_locales
  show "origin page_key (page_line_text u ns False) t lm \<and> page_id lm = page \<and> line_order_global lm = g \<and>
      prev_line_id lm = None \<and> next_line_id lm = None"
    if "parse_page_line u ns page block g n t = Inr lm" for page block g n t lm
    using that by (auto simp: parse_page_line_def Let_def origin_def)
  show "\<exists>lms. read_blocks (region_name (pg_id p)) (\<lambda>el. Inr (page_coords ns el)) (parse_page_line u ns (pg_id p)) ns
        (pg_id p) g 0 (regions_in_reading_order ns el) = Inr (pg_blocks p, lms) \<and>
      map strip_links (pg_lines p) = map strip_links (link_neighbours lms) \<and>
      pg_index p = int index \<and> pg_source_file p = source"
    if "parse_page_page u ns source pol index g el = Inr p" for index g el p
    using that
    by (auto simp: parse_page_page_def parse_regions_def res_bind_Inr Let_def link_hyphen_pairs_frame roles_strip
        split: prod.splits)
qed (rule regions_below)

lemma page_file_read:
  assumes "parse_page_file u source po lo pol el = Inr pages"
  shows "read_from page_key (page_line_text u (detect_namespace el) False) source po lo (textlines el) pages"
proof -
  let ?ns = "detect_namespace el"
  obtain ps where parse: "read_pages (parse_page_page u ?ns source pol) po lo (children_tagged ''Page'' ?ns el) = Inr ps"
    and gate: "gate_pages ''TextLine id(s)'' (map page_key (textlines el)) ps = Inr pages"
    using assms by (auto simp: parse_page_file_def parse_page_tree_def Let_def res_bind_Inr)
  show ?thesis
  proof (rule page_reader.gated_file [OF parse gate])
    fix p assume "p \<in> set (children_tagged ''Page'' ?ns el)"
    then have "p \<in> set (el_children el)" by (simp add: children_tagged_def)
    from iter_child [OF this] show "set (iter_tagged ''TextLine'' ?ns p) \<subseteq> set (textlines el)"
      unfolding textlines_def by blast
  qed
qed

section \<open>Properties\<close>

text \<open>C20: The reading order of the regions of a PAGE page. No region, nested or not, is lost or repeated,
  whatever the file declares. A declaration that names every region is followed: of two regions the one
  whose first reference comes first stands first. A declaration that misses a region, or a page with a
  region that has no identifier, changes nothing: the regions stay in document order.\<close>

theorem regions_read_in_declared_order:
  "mset (regions_in_reading_order ns page_el) = mset (iter_tagged ''TextRegion'' ns page_el) \<and>
   (if \<forall>r \<in> set (iter_tagged ''TextRegion'' ns page_el). \<exists>i. page_key r = Some i \<and> i \<noteq> [] \<and> i \<in> set (reading_order_refs ns page_el)
    then sorted (map (\<lambda>r. first_ref (reading_order_refs ns page_el) (the (page_key r))) (regions_in_reading_order ns page_el))
    else regions_in_reading_order ns page_el = iter_tagged ''TextRegion'' ns page_el)"
proof -
  let ?rs = "iter_tagged ''TextRegion'' ns page_el" and ?refs = "reading_order_refs ns page_el"
  let ?key = "\<lambda>r. first_ref ?refs (or_else (page_key r) [])"
  have covers: "list_ex (\<lambda>r. \<not> truthy (page_key r) \<or> the (page_key r) \<notin> set ?refs) ?rs \<longleftrightarrow>
      \<not> (\<forall>r \<in> set ?rs. \<exists>i. page_key r = Some i \<and> i \<noteq> [] \<and> i \<in> set ?refs)"
  proof -
    have "(truthy (page_key r) \<and> the (page_key r) \<in> set ?refs) = (\<exists>i. page_key r = Some i \<and> i \<noteq> [] \<and> i \<in> set ?refs)" for r
      by (cases "page_key r") (auto simp: truthy_iff)
    then show ?thesis unfolding list_ex_iff by blast
  qed
  show ?thesis
  proof (cases "\<forall>r \<in> set ?rs. \<exists>i. page_key r = Some i \<and> i \<noteq> [] \<and> i \<in> set ?refs")
    case False
    then have "regions_in_reading_order ns page_el = ?rs"
      unfolding regions_in_reading_order_def Let_def covers by auto
    with False show ?thesis by auto
  next
    case True
    have "sorted (map (\<lambda>r. first_ref ?refs (the (page_key r))) (regions_in_reading_order ns page_el))"
    proof (cases "?refs = [] \<or> length ?rs < 2")
      case True
      then have out: "regions_in_reading_order ns page_el = ?rs" by (auto simp: regions_in_reading_order_def)
      have "length ?rs < 2"
      proof (cases "?refs = []")
        case True
        with \<open>\<forall>r \<in> set ?rs. _ r\<close> have "?rs = []" by (cases ?rs) auto
        then show ?thesis by simp
      qed (use True in simp)
      then have "?rs = [] \<or> (\<exists>r. ?rs = [r])" by (cases ?rs) auto
      then show ?thesis unfolding out by auto
    next
      case False
      have keys: "map (\<lambda>r. first_ref ?refs (the (page_key r))) rs = map ?key rs" if "set rs \<subseteq> set ?rs" for rs
      proof (rule map_cong [OF refl])
        fix r assume "r \<in> set rs"
        with that \<open>\<forall>r \<in> set ?rs. _ r\<close> obtain i where "page_key r = Some i" by blast
        then show "first_ref ?refs (the (page_key r)) = ?key r" by simp
      qed
      have out: "regions_in_reading_order ns page_el = sort_key ?key ?rs"
        using True False unfolding regions_in_reading_order_def Let_def covers by simp
      show ?thesis unfolding out by (subst keys) simp_all
    qed
    with True regions_perm show ?thesis by simp
  qed
qed

definition demo_region :: "ident \<Rightarrow> xml" where
  "demo_region i = Element (Some ''TextRegion'') [(''id'', i)] [] None []"

definition demo_ordered_page :: xml where
  "demo_ordered_page = Element (Some ''Page'') [] [] None
     [Element (Some ''ReadingOrder'') [] [] None
       [Element (Some ''OrderedGroup'') [] [] None
         [Element (Some ''RegionRefIndexed'') [(''regionRef'', ''a'')] [(''index'', tx ''1'')] None [],
          Element (Some ''RegionRefIndexed'') [(''regionRef'', ''b'')] [(''index'', tx ''0'')] None []]],
      demo_region ''a'', demo_region ''b'']"

theorem regions_read_in_declared_order_witness:
  "regions_in_reading_order [] demo_ordered_page = [demo_region ''b'', demo_region ''a''] \<and>
   sorted (map (\<lambda>r. first_ref (reading_order_refs [] demo_ordered_page) (the (page_key r)))
     (regions_in_reading_order [] demo_ordered_page))"
proof -
  have "regions_in_reading_order [] demo_ordered_page = [demo_region ''b'', demo_region ''a'']" by code_simp
  moreover have "iter_tagged ''TextRegion'' [] demo_ordered_page = [demo_region ''a'', demo_region ''b'']"
    "reading_order_refs [] demo_ordered_page = [''b'', ''a'']"
    "page_key (demo_region ''a'') = Some ''a''" "page_key (demo_region ''b'') = Some ''b''"
    by code_simp+
  ultimately show ?thesis using regions_read_in_declared_order [of "[]" demo_ordered_page] by simp
qed

text \<open>The box of a line encloses its polygon: every point of the polygon that can be read lies in the box,
  and each side of the box carries one; a polygon without a readable point has the empty box.\<close>

theorem bbox_is_tight:
  "case polygon_to_bbox points of (x, y, w, h) \<Rightarrow>
     w \<ge> 0 \<and> h \<ge> 0 \<and>
     (if polygon_points points = [] then x = 0 \<and> y = 0 \<and> w = 0 \<and> h = 0
      else {x, x + w} \<subseteq> fst ` set (polygon_points points) \<and> {y, y + h} \<subseteq> snd ` set (polygon_points points) \<and>
        fst ` set (polygon_points points) \<subseteq> {x..x + w} \<and> snd ` set (polygon_points points) \<subseteq> {y..y + h})"
proof (cases "polygon_points points = []")
  case True
  then show ?thesis by (simp add: polygon_to_bbox_def)
next
  case False
  let ?xs = "fst ` set (polygon_points points)" and ?ys = "snd ` set (polygon_points points)"
  have fin: "finite ?xs" "?xs \<noteq> {}" "finite ?ys" "?ys \<noteq> {}" using False by simp_all
  have box: "polygon_to_bbox points = (Min ?xs, Min ?ys, Max ?xs - Min ?xs, Max ?ys - Min ?ys)"
    using False by (simp add: polygon_to_bbox_def Let_def)
  have "Min ?xs \<le> Max ?xs" "Min ?ys \<le> Max ?ys"
    using Min_le [OF fin(1) Max_in [OF fin(1,2)]] Min_le [OF fin(3) Max_in [OF fin(3,4)]] by simp_all
  moreover have "?xs \<subseteq> {Min ?xs..Max ?xs}" "?ys \<subseteq> {Min ?ys..Max ?ys}"
    unfolding subset_eq atLeastAtMost_iff
    using Min_le [OF fin(1)] Max_ge [OF fin(1)] Min_le [OF fin(3)] Max_ge [OF fin(3)] by blast+
  moreover have "{Min ?xs, Max ?xs} \<subseteq> ?xs" "{Min ?ys, Max ?ys} \<subseteq> ?ys"
    using Min_in [OF fin(1,2)] Max_in [OF fin(1,2)] Min_in [OF fin(3,4)] Max_in [OF fin(3,4)]
    by (simp_all only: insert_subset empty_subsetI simp_thms)
  ultimately show ?thesis using False unfolding box prod.case by simp
qed

end
