(* ===== verification/Page_Roundtrip.thy ===== *)
theory Page_Roundtrip
  imports Page_Files Page_Parser
begin

text \<open>
  The PAGE parser against the PAGE writer: what a parsed file guarantees, and that writing back what
  nobody corrected changes no element.
\<close>

section \<open>The break mark of a line is its own\<close>

lemma last_filter: "xs \<noteq> [] \<Longrightarrow> P (last xs) \<Longrightarrow> filter P xs \<noteq> [] \<and> last (filter P xs) = last xs"
  by (induction xs rule: rev_induct) auto

lemma last_concat: "xss \<noteq> [] \<Longrightarrow> last xss \<noteq> [] \<Longrightarrow> concat xss \<noteq> [] \<and> last (concat xss) = last (last xss)"
  by (induction xss rule: rev_induct) auto

lemma trailing_hyphen_last:
  assumes "trailing_hyphen_char u s chs = Some h"
  shows "py_rstrip s \<noteq> [] \<and> last (py_rstrip s) = h"
proof -
  from assms have ne: "py_split s \<noteq> []" and h: "first_break u (last (py_split s)) chs = Some h"
    by (auto simp: trailing_hyphen_char_def Let_def split: if_splits)
  have "last (py_split s) \<noteq> [] \<and> last (last (py_split s)) = h"
    using h by (induction chs) (auto simp: ends_in_def split: if_splits)
  then have "last (concat (py_split s)) = h" "concat (py_split s) \<noteq> []"
    using ne last_concat [of "py_split s"] by simp_all
  then have visible: "last (filter (\<lambda>c. \<not> is_space c) s) = h" "filter (\<lambda>c. \<not> is_space c) s \<noteq> []"
    by (simp_all add: concat_py_split)
  obtain ws where s: "s = py_rstrip s @ ws" "\<forall>c \<in> set ws. is_space c"
    unfolding py_rstrip_def using rstrip_of_decomp by blast
  have none: "filter (\<lambda>c. \<not> is_space c) ws = []" using s(2) by (simp add: filter_empty_conv)
  have "filter (\<lambda>c. \<not> is_space c) s = filter (\<lambda>c. \<not> is_space c) (py_rstrip s)"
    by (subst s(1)) (simp add: none)
  with visible have v: "last (filter (\<lambda>c. \<not> is_space c) (py_rstrip s)) = h" "py_rstrip s \<noteq> []" by auto
  have "\<not> is_space (last (py_rstrip s))" using v(2) unfolding py_rstrip_def by (rule rstrip_of_last)
  from last_filter [of "py_rstrip s" "\<lambda>c. \<not> is_space c", OF v(2) this] v show ?thesis by simp
qed

lemma preserve_own_break: "preserve_break_char u s s = s"
proof (cases "trailing_hyphen_char u s HYPHEN_CHARS")
  case (Some h)
  from trailing_hyphen_last [OF this] have "butlast (py_rstrip s) @ [h] = py_rstrip s"
    using append_butlast_last_id by metis
  then have "butlast (py_rstrip s) @ [h] @ drop (length (py_rstrip s)) s = s"
    using py_rstrip_split [of s] by (metis append.assoc)
  with Some show ?thesis by (simp add: preserve_break_char_eq)
qed (simp add: preserve_break_char_eq)

lemma page_line_text_clean: "clean_line (page_line_text u ns v el) = page_line_text u ns v el"
  by (simp add: page_line_text_def Let_def clean_line_idem split: option.split)

section \<open>Writing what was read\<close>

lemma uncorrected_line:
  assumes "origin page_key (page_line_text u ns False) t lm" "nfc u (ocr_text lm) = ocr_text lm"
  shows "page_corrected u ns lm t = page_line_text u ns False t"
proof -
  have "or_else (corrected_text lm) (ocr_text lm) = page_line_text u ns False t" "ocr_text lm = page_line_text u ns False t"
    using assms(1) by (simp_all add: origin_def)
  then show ?thesis using assms(2) by (simp add: page_corrected_def preserve_own_break page_line_text_clean)
qed

text \<open>What a loop that changes no line leaves as it was: every counter but that of the untouched lines
  and the one that reports lines whose words disagree with their text.\<close>

definition changed :: "page_rewrite \<Rightarrow> nat list" where
  "changed st = (let m = pr_metrics st in
     [fast_path m, slow_path m, subs_only m, words_dropped m, confidence_invalidated m, alt_textequiv_dropped m,
      custom_offset_stripped m, hyphen_preserved m])"

lemma uncorrected_step:
  assumes "\<And>l lm. page_key e = Some l \<Longrightarrow> map_of by_id l = Some lm \<Longrightarrow>
    l \<notin> pr_seen st \<and> page_corrected u ns lm e = page_line_text u ns False e"
  shows "\<exists>st'. page_step u ns by_id st e = Inr st' \<and> changed st' = changed st \<and>
    pr_seen st' \<subseteq> insert (the (page_key e)) (pr_seen st)"
proof (cases "addressed page_key by_id e")
  case False
  then show ?thesis by (auto simp: addressed_def page_step_def split: option.splits)
next
  case True
  then obtain l lm where l: "page_key e = Some l" "map_of by_id l = Some lm"
    by (auto simp: addressed_def split: option.splits)
  from assms [OF l] have new: "l \<notin> pr_seen st" "page_corrected u ns lm e = page_line_text u ns False e" by auto
  let ?m = "pr_metrics st"
  have "\<exists>m'. rewrite_page_line u ns lm e ?m = Inr (e, ''untouched'', m') \<and>
      [fast_path m', slow_path m', subs_only m', words_dropped m', confidence_invalidated m', alt_textequiv_dropped m',
       custom_offset_stripped m', hyphen_preserved m'] =
      [fast_path ?m, slow_path ?m, subs_only ?m, words_dropped ?m, confidence_invalidated ?m, alt_textequiv_dropped ?m,
       custom_offset_stripped ?m, hyphen_preserved ?m]"
    using new(2) by (simp add: rewrite_page_line_def Let_def promote_confidence_to_line_def count_path_def)
  then obtain m' where "rewrite_page_line u ns lm e ?m = Inr (e, ''untouched'', m')"
    "[fast_path m', slow_path m', subs_only m', words_dropped m', confidence_invalidated m', alt_textequiv_dropped m',
       custom_offset_stripped m', hyphen_preserved m'] = changed st"
    by (auto simp: changed_def Let_def)
  with new(1) show ?thesis by (simp add: page_step_def l changed_def Let_def)
qed

lemma map_elements_same: "(\<And>e. e \<in> set (iter_tagged ''TextLine'' ns el) \<Longrightarrow> f e = e) \<Longrightarrow>
  (\<And>e. \<not> has_tag ''TextLine'' ns e \<Longrightarrow> f e = e) \<Longrightarrow> map_elements f el = el"
proof (induction el)
  case (Element t i as x cs)
  have "map (map_elements f) cs = cs"
  proof (intro map_idI Element.IH)
    fix c e assume c: "c \<in> set cs" and e: "e \<in> set (iter_tagged ''TextLine'' ns c)"
    have "e \<in> set (iter_tagged ''TextLine'' ns (Element t i as x cs))"
      using iter_child [of c "Element t i as x cs"] c e by auto
    then show "f e = e" by (rule Element.prems(1))
  qed (use Element.prems(2) in auto)
  moreover have "f (Element t i as x cs) = Element t i as x cs"
    by (cases "has_tag ''TextLine'' ns (Element t i as x cs)")
      (use Element.prems in \<open>auto simp: has_tag_def\<close>)
  ultimately show ?case by simp
qed

lemma uncorrected_page_file:
  assumes parse: "parse_page_file u source po lo pol el = Inr pages" and some: "pages \<noteq> []"
    and flat: "flat_lines (detect_namespace el) el" "\<not> has_tag ''TextLine'' (detect_namespace el) el"
    and normal: "\<forall>lm \<in> set (lines_of pages). nfc u (ocr_text lm) = ocr_text lm"
  shows "\<exists>out st. rewrite_page_file u pages provider model v f el = Inr out \<and>
    res_tree out = add_provenance (detect_namespace el) provider model v f el \<and>
    res_metrics out = rewriter_metrics.truncate (pr_metrics st) \<and> res_losses out = as_losses (pr_metrics st) \<and>
    res_paths out = pr_paths st \<and> changed st = changed fresh_page_rewrite \<and>
    fst ` set (pr_paths st) = line_id ` set (lines_of pages)"
proof -
  let ?ns = "detect_namespace el" and ?by_id = "dict_of line_id (lines_of pages)" and ?es = "textlines el"
  note read = page_file_read [OF parse]
  then have ids: "distinct (map page_key ?es)" "None \<notin> page_key ` set ?es" using some by (simp_all add: read_from_def)
  have alone: "page_corrected u ?ns lm e = page_line_text u ?ns False e"
    if "e \<in> set ?es" "page_key e = Some l" "map_of ?by_id l = Some lm" for e l lm
    using addressed_origin [OF read that] normal uncorrected_line by blast
  have "\<exists>st'. page_step u ?ns ?by_id st e = Inr st' \<and> changed st' = changed st \<and>
      pr_seen st' \<subseteq> insert (the (page_key e)) (pr_seen st)"
    if "e \<in> set ?es" "the (page_key e) \<notin> pr_seen st" for e st
    by (rule uncorrected_step) (use that alone in auto)
  then have "\<exists>st. each_line (page_step u ?ns ?by_id) ?es fresh_page_rewrite = Inr st \<and> changed st = changed fresh_page_rewrite"
    by (rule each_line_quiet [OF _ ids]) (simp_all add: fresh_page_rewrite_def)
  then obtain st where
    st: "each_line (page_step u ?ns ?by_id) ?es fresh_page_rewrite = Inr st" "changed st = changed fresh_page_rewrite"
    by blast
  let ?written = "map_elements (on_lines page_key ?ns (page_written u ?ns) ?by_id) el"
  let ?tree = "add_provenance ?ns provider model v f ?written"
  have "?written = el"
  proof (rule map_elements_same [of ?ns])
    fix e assume "e \<in> set (iter_tagged ''TextLine'' ?ns el)"
    then have "page_written u ?ns lm e = e" if "page_key e = Some l" "map_of ?by_id l = Some lm" for l lm
      using alone [OF _ that] by (simp add: textlines_def page_written_def rewrite_page_line_def)
    then show "on_lines page_key ?ns (page_written u ?ns) ?by_id e = e"
      by (auto simp: on_lines_def split: option.split)
  qed (simp add: on_lines_def)
  then have tree: "?tree = add_provenance ?ns provider model v f el" by simp
  have iters: "iter_tagged ''TextLine'' ?ns ?tree = iter_tagged ''TextLine'' ?ns ?written"
    by (rule iter_provenance [OF page.written.no_line_kept [OF flat(2)]])
  have "\<exists>d. page_texts u ?ns vb (fst ` set ?by_id) (iter_tagged ''TextLine'' ?ns ?tree) = Inr d" for vb
    unfolding page_texts_def by (rule page.texts_exist [OF flat(1) iters ids [unfolded textlines_def]])
  then obtain d d' where
    "page_texts u ?ns False (fst ` set ?by_id) (iter_tagged ''TextLine'' ?ns ?tree) = Inr d"
    "page_texts u ?ns True (fst ` set ?by_id) (iter_tagged ''TextLine'' ?ns ?tree) = Inr d'"
    by blast
  moreover have "ensure_unique_identities pages = Inr ()" using read by (simp add: read_from_def)
  ultimately have "rewrite_page_file u pages provider model v f el =
      Inr \<lparr>res_tree = ?tree, res_metrics = rewriter_metrics.truncate (pr_metrics st),
           res_paths = pr_paths st, res_texts = d, res_texts_verbatim = d',
           res_losses = as_losses (pr_metrics st), res_losses_by_line = pr_losses_by_line st, res_moves = {}\<rparr>"
    using st(1)
    by (simp only: rewrite_page_file_def page_lines_def Let_def duplicates_Inr res_bind_simps
        duplicates_as_exn_def sum.case)
  moreover have "map fst (pr_paths st) = map (\<lambda>e. the (page_key e)) (filter (addressed page_key ?by_id) ?es)"
    using page_loop.loop_spec [OF st(1) fresh_page_inv] by (simp add: fresh_page_rewrite_def)
  then have "fst ` set (pr_paths st) = line_id ` set (lines_of pages)"
    using addressed_lines [OF read] by (metis set_map)
  ultimately show ?thesis using st(2) tree by auto
qed

section \<open>Properties of reading and writing a PAGE file\<close>

text \<open>C21: What the PAGE parser accepts is a well-formed document. Every line is pending and uncorrected, knows
  its neighbours and is filed under its page; the regions of a page are numbered and list exactly its
  lines, in order; lines and pages are numbered on from the offsets given; identifiers are pairwise
  distinct; and every line is the text of the \<open>TextLine\<close> that bears its identifier.\<close>

theorem parsed_page_file_is_well_formed:
  assumes "parse_page_file u source po lo pol el = Inr pages"
  shows "(\<forall>p \<in> set pages. fresh_page p \<and> pg_source_file p = source \<and> distinct (map blk_id (pg_blocks p))) \<and>
    numbered lo (lines_of pages) \<and> map pg_index pages = map (\<lambda>i. int (po + i)) [0 ..< length pages] \<and>
    distinct (map pg_id pages) \<and> distinct (map line_id (lines_of pages)) \<and>
    (\<forall>lm \<in> set (lines_of pages). \<exists>t \<in> set (textlines el).
       page_key t = Some (line_id lm) \<and> ocr_text lm = page_line_text u (detect_namespace el) False t)"
  using read_from_well_formed [OF page_file_read [OF assms]] unfolding well_formed_document_def .

text \<open>C22: Reading a PAGE file and writing it back changes no element of it but the record of the pass. Rewriting
  the pages the parser returned, with no line corrected, succeeds and finds every line; each takes the
  untouched path; nothing is dropped, stripped or respelt. The texts are taken in the normal form of
  the reader.\<close>

theorem uncorrected_page_file_roundtrip:
  assumes parse: "parse_page_file u source po lo pol el = Inr pages" and some: "pages \<noteq> []"
    and flat: "flat_lines (detect_namespace el) el" "\<not> has_tag ''TextLine'' (detect_namespace el) el"
    and normal: "\<forall>lm \<in> set (lines_of pages). nfc u (ocr_text lm) = ocr_text lm"
  shows "\<exists>out. rewrite_page_file u pages provider model v f el = Inr out \<and>
    res_tree out = add_provenance (detect_namespace el) provider model v f el \<and>
    fst ` set (res_paths out) = line_id ` set (lines_of pages) \<and>
    fast_path (res_metrics out) = 0 \<and> slow_path (res_metrics out) = 0 \<and>
    untouched (res_metrics out) = length (res_paths out) \<and>
    (\<forall>k. k \<noteq> ''line_word_disagreement'' \<longrightarrow> lost k (res_losses out) = 0)"
proof -
  obtain out st where out: "rewrite_page_file u pages provider model v f el = Inr out"
    "res_tree out = add_provenance (detect_namespace el) provider model v f el"
    "res_metrics out = rewriter_metrics.truncate (pr_metrics st)" "res_losses out = as_losses (pr_metrics st)"
    "res_paths out = pr_paths st" "changed st = changed fresh_page_rewrite"
    "fst ` set (pr_paths st) = line_id ` set (lines_of pages)"
    using uncorrected_page_file [OF assms] by blast
  have zero: "fast_path (res_metrics out) = 0" "slow_path (res_metrics out) = 0" "subs_only (res_metrics out) = 0"
    using out(6) by (simp_all add: out(3) changed_def Let_def fresh_page_rewrite_def no_metrics_def rewriter_metrics.truncate_def)
  have "lost k (res_losses out) = 0" if "k \<noteq> ''line_word_disagreement''" for k
    using out(6) that
    by (simp add: out(4) lost_as_losses lost_counters changed_def Let_def fresh_page_rewrite_def no_metrics_def)
  moreover obtain st' by_id where
    st': "each_line (page_step u (detect_namespace el) by_id) (textlines el) fresh_page_rewrite = Inr st'"
      "res_metrics out = rewriter_metrics.truncate (pr_metrics st')" "res_paths out = pr_paths st'"
    using rewrite_page_file_cases [OF out(1)] by metis
  have "page_inv st'" using page_loop.loop_spec [OF st'(1) fresh_page_inv] by blast
  then have "metrics_total_lines (pr_metrics st') = length (pr_paths st')" by (simp add: page_inv_def)
  then have "untouched (res_metrics out) = length (res_paths out)"
    using zero unfolding st'(2,3) by (simp add: metrics_total_lines_def rewriter_metrics.truncate_def)
  ultimately show ?thesis using out zero by simp
qed

text \<open>The file of the witnesses, parsed.\<close>

definition demo_page_parse :: "exn + page_manifest list" where
  "demo_page_parse = parse_page_file ascii_unicode ''f'' 0 0 DEFAULT_PAIRING_POLICY demo_page_file"

lemma demo_page_parse_lines:
  "case demo_page_parse of Inl _ \<Rightarrow> False | Inr pages \<Rightarrow> map ocr_text (lines_of pages) = [tx ''Le chut'']"
  by code_simp

lemma demo_page_parsed:
  obtains pages where "demo_page_parse = Inr pages" "map ocr_text (lines_of pages) = [tx ''Le chut'']"
  using demo_page_parse_lines by (simp only: split: sum.split_asm)

theorem parsed_page_file_is_well_formed_witness:
  "\<exists>pages. demo_page_parse = Inr pages \<and> length (lines_of pages) = 1 \<and> numbered 0 (lines_of pages)"
proof -
  obtain pages where p: "demo_page_parse = Inr pages" "map ocr_text (lines_of pages) = [tx ''Le chut'']"
    by (rule demo_page_parsed)
  from arg_cong [OF p(2), of length] have "length (lines_of pages) = 1" by simp
  moreover have "numbered 0 (lines_of pages)"
    using parsed_page_file_is_well_formed [OF p(1) [unfolded demo_page_parse_def]] by (elim conjE)
  ultimately show ?thesis using p(1) by (intro exI [of _ pages] conjI)
qed

theorem uncorrected_page_file_roundtrip_witness:
  "\<exists>pages out. demo_page_parse = Inr pages \<and>
     rewrite_page_file ascii_unicode pages [] [] None None demo_page_file = Inr out \<and>
     lost ''alt_textequiv_dropped'' (res_losses out) = 0 \<and>
     line_id ` set (lines_of pages) = fst ` set (res_paths out)"
proof -
  obtain pages where p: "demo_page_parse = Inr pages" "map ocr_text (lines_of pages) = [tx ''Le chut'']"
    by (rule demo_page_parsed)
  have some: "pages \<noteq> []" using p(2) by (auto simp: lines_of_def)
  have normal: "\<forall>lm \<in> set (lines_of pages). nfc ascii_unicode (ocr_text lm) = ocr_text lm"
    by (simp add: ascii_unicode_def nfc_def)
  from uncorrected_page_file_roundtrip [OF p(1) [unfolded demo_page_parse_def] some demo_page_flat(1,2) normal,
      of "[]" "[]" None None]
  obtain out where "rewrite_page_file ascii_unicode pages [] [] None None demo_page_file = Inr out"
    "\<forall>k. k \<noteq> ''line_word_disagreement'' \<longrightarrow> lost k (res_losses out) = 0"
    "fst ` set (res_paths out) = line_id ` set (lines_of pages)" by blast
  with p(1) show ?thesis by (intro exI [of _ pages] exI [of _ out]) simp
qed

end
