(* ===== verification/Encoding.thy ===== *)
theory Encoding
  imports Py_Text "HOL-Library.Word"
begin

text \<open>
  The bytes of a source file: the test of \<open>formats/_xml.py\<close> for a file that declares a Latin encoding and
  holds UTF-8. Bytes are words of eight bits; UTF-8 is the codec of Python's standard library, strict:
  no overlong form, no surrogate, nothing past U+10FFFF.

  Facts: the codec's round trips, hence that an override reads exactly the bytes of the file, and that
  an accented Latin-1 letter before an ASCII character is never taken for UTF-8.
\<close>

section \<open>UTF-8\<close>

type_synonym bytes = "8 word list"

definition scalar :: "cp \<Rightarrow> bool" where
  "scalar c \<longleftrightarrow> 0 \<le> c \<and> c \<le> 1114111 \<and> \<not> (55296 \<le> c \<and> c \<le> 57343)"

definition octet :: "int \<Rightarrow> 8 word" where
  "octet n = word_of_int n"

definition utf8_char :: "cp \<Rightarrow> bytes" where
  "utf8_char c = map octet
     (if c < 128 then [c]
      else if c < 2048 then [192 + c div 64, 128 + c mod 64]
      else if c < 65536 then [224 + c div 4096, 128 + c div 64 mod 64, 128 + c mod 64]
      else [240 + c div 262144, 128 + c div 4096 mod 64, 128 + c div 64 mod 64, 128 + c mod 64])"

definition utf8_encode :: "ptext \<Rightarrow> bytes" where
  "utf8_encode t = concat (map utf8_char t)"

definition continuation :: "8 word \<Rightarrow> bool" where
  "continuation b \<longleftrightarrow> 128 \<le> uint b \<and> uint b < 192"

text \<open>The first character of the bytes and the bytes after it; \<open>None\<close> where the codec raises.\<close>

fun utf8_next :: "bytes \<Rightarrow> (cp \<times> bytes) option" where
  "utf8_next [] = None"
| "utf8_next (a # r) =
     (if uint a < 128 then Some (uint a, r)
      else if 194 \<le> uint a \<and> uint a < 224 then
        (case r of
           b # r' \<Rightarrow> if continuation b then Some ((uint a - 192) * 64 + (uint b - 128), r') else None
         | _ \<Rightarrow> None)
      else if 224 \<le> uint a \<and> uint a < 240 then
        (case r of
           b # c # r' \<Rightarrow>
             (let v = (uint a - 224) * 4096 + (uint b - 128) * 64 + (uint c - 128)
              in if continuation b \<and> continuation c \<and> 2048 \<le> v \<and> scalar v then Some (v, r') else None)
         | _ \<Rightarrow> None)
      else if 240 \<le> uint a \<and> uint a < 245 then
        (case r of
           b # c # d # r' \<Rightarrow>
             (let v = (uint a - 240) * 262144 + (uint b - 128) * 4096 + (uint c - 128) * 64 + (uint d - 128)
              in if continuation b \<and> continuation c \<and> continuation d \<and> 65536 \<le> v \<and> scalar v
                 then Some (v, r') else None)
         | _ \<Rightarrow> None)
      else None)"

lemma utf8_next_shorter: "utf8_next s = Some (c, r) \<Longrightarrow> length r < length s"
  by (cases s) (auto simp: Let_def split: if_splits list.splits)

function utf8_decode :: "bytes \<Rightarrow> ptext option" where
  "utf8_decode s =
     (if s = [] then Some []
      else (case utf8_next s of
              None \<Rightarrow> None
            | Some (c, r) \<Rightarrow> map_option (Cons c) (utf8_decode r)))"
  by auto
termination by (relation "measure length") (auto dest: utf8_next_shorter)

declare utf8_decode.simps [simp del]

section \<open>The declaration\<close>

definition OVERRIDABLE_DECLARATIONS :: "ptext list" where
  "OVERRIDABLE_DECLARATIONS =
     map tx [''iso-8859'', ''iso8859'', ''windows-125'', ''latin-1'', ''latin1'', ''cp125'']"

definition DECLARATION_HEAD :: nat where
  "DECLARATION_HEAD = 200"

definition byte_space :: "8 word \<Rightarrow> bool" where
  "byte_space b \<longleftrightarrow> b = 32 \<or> 9 \<le> uint b \<and> uint b \<le> 13"

definition quote_mark :: "8 word \<Rightarrow> bool" where
  "quote_mark b \<longleftrightarrow> b = 34 \<or> b = 39"

text \<open>What \<open>encoding\s*=\s*["']([^"']+)["']\<close> matches at the head of the bytes: its group.\<close>

definition declaration_at :: "bytes \<Rightarrow> bytes option" where
  "declaration_at s =
     (let key = utf8_encode (tx ''encoding''); after_key = dropWhile byte_space (drop (length key) s);
          value = dropWhile byte_space (tl after_key); name = takeWhile (\<lambda>b. \<not> quote_mark b) (tl value)
      in if take (length key) s = key \<and> after_key \<noteq> [] \<and> hd after_key = 61 \<and> value \<noteq> [] \<and> quote_mark (hd value) \<and>
            name \<noteq> [] \<and> length name < length (tl value)
         then Some name else None)"

fun declared_encoding :: "bytes \<Rightarrow> bytes option" where
  "declared_encoding [] = None"
| "declared_encoding (b # s) =
     (case declaration_at (b # s) of None \<Rightarrow> declared_encoding s | Some name \<Rightarrow> Some name)"

text \<open>\<open>decode("ascii", "replace")\<close>, and the lower case of what it gives.\<close>

definition ascii_replace :: "bytes \<Rightarrow> ptext" where
  "ascii_replace = map (\<lambda>b. if uint b < 128 then uint b else 65533)"

definition lower_ascii :: "ptext \<Rightarrow> ptext" where
  "lower_ascii = map (\<lambda>c. if 65 \<le> c \<and> c \<le> 90 then c + 32 else c)"

definition contains_text :: "ptext \<Rightarrow> ptext \<Rightarrow> bool" where
  "contains_text pat s \<longleftrightarrow> list_ex (\<lambda>i. take (length pat) (drop i s) = pat) [0 ..< Suc (length s)]"

definition mislabelled_utf8 :: "bytes \<Rightarrow> ptext option" where
  "mislabelled_utf8 raw =
     (case declared_encoding (take DECLARATION_HEAD raw) of
        None \<Rightarrow> None
      | Some name \<Rightarrow>
          (let declared = ascii_replace name
           in if \<not> list_ex (\<lambda>f. contains_text f (lower_ascii declared)) OVERRIDABLE_DECLARATIONS then None
              else if list_all (\<lambda>b. uint b < 128) raw then None
              else if utf8_decode raw = None then None
              else Some declared))"

section \<open>Facts\<close>

lemma uint_octet [simp]: "0 \<le> x \<Longrightarrow> x < 256 \<Longrightarrow> uint (octet x) = x"
  by (simp add: octet_def uint_word_of_int)

lemma octet_uint [simp]: "octet (uint b) = b"
  by (simp add: octet_def)

lemma uint_range: "0 \<le> uint (b :: 8 word)" "uint b < 256"
  using uint_bounded [of b] by simp_all

lemma octet_shift: "octet (n + (uint b - n)) = b"
  by simp

text \<open>The digits of a character in base 64.\<close>

lemma digits64:
  assumes "0 \<le> y" "y < (64 :: int)" shows "(x * 64 + y) div 64 = x" "(x * 64 + y) mod 64 = y"
  using assms by auto

lemma two_digits: "c div 64 * 64 + c mod 64 = (c :: int)"
  by simp

lemma div_4096: "c div 4096 = c div 64 div (64 :: int)"
  using zdiv_zmult2_eq [of 64 c 64] by simp

lemma div_262144: "c div 262144 = c div 64 div 64 div (64 :: int)"
  using zdiv_zmult2_eq [of 4096 c 64] by (simp add: div_4096)

lemma three_digits: "c div 4096 * 4096 + c div 64 mod 64 * 64 + c mod 64 = (c :: int)"
  using two_digits [of c] two_digits [of "c div 64"] unfolding div_4096 by linarith

lemma four_digits: "c div 262144 * 262144 + c div 4096 mod 64 * 4096 + c div 64 mod 64 * 64 + c mod 64 = (c :: int)"
  using two_digits [of c] two_digits [of "c div 64"] two_digits [of "c div 64 div 64"]
  unfolding div_262144 div_4096 by linarith

lemma digit_range: "0 \<le> c mod 64" "c mod 64 < (64 :: int)"
  by simp_all

lemma continuation_octet: "0 \<le> x \<Longrightarrow> x < 64 \<Longrightarrow> continuation (octet (128 + x))"
  by (simp add: continuation_def)

text \<open>Decoding and encoding one character.\<close>

lemma utf8_next_char:
  assumes "scalar c" shows "utf8_next (utf8_char c @ r) = Some (c, r)"
proof -
  have c: "0 \<le> c" "c \<le> 1114111" using assms by (simp_all add: scalar_def)
  note digits = continuation_octet [OF digit_range] digit_range
  consider "c < 128" | "128 \<le> c" "c < 2048" | "2048 \<le> c" "c < 65536" | "65536 \<le> c" by linarith
  then show ?thesis
  proof cases
    case 1
    then show ?thesis using c by (simp add: utf8_char_def)
  next
    case 2
    define h where "h = c div 64"
    have h: "2 \<le> h" "h < 32" using 2 by (simp_all add: h_def)
    have "utf8_char c = [octet (192 + h), octet (128 + c mod 64)]" using 2 by (simp add: utf8_char_def h_def)
    moreover have "h * 64 + c mod 64 = c" by (simp add: h_def)
    ultimately show ?thesis using h digits [of c] by simp
  next
    case 3
    define h m where "h = c div 4096" and "m = c div 64 mod 64"
    have "0 \<le> h" "h < 16" using 3 by (simp_all add: h_def)
    then have h: "\<not> uint (octet (224 + h)) < 224" "uint (octet (224 + h)) < 240" "uint (octet (224 + h)) = 224 + h" by simp_all
    have m: "0 \<le> m" "m < 64" "continuation (octet (128 + m))" by (simp_all add: m_def continuation_octet)
    have "utf8_char c = [octet (224 + h), octet (128 + m), octet (128 + c mod 64)]"
      using 3 by (simp add: utf8_char_def h_def m_def)
    then have "utf8_next (utf8_char c @ r) = (let v = h * 4096 + m * 64 + c mod 64 in
        if 2048 \<le> v \<and> scalar v then Some (v, r) else None)"
      using h m digits [of c] by (simp add: Let_def)
    moreover have "h * 4096 + m * 64 + c mod 64 = c" using three_digits [of c] by (simp add: h_def m_def)
    ultimately show ?thesis using 3(1) assms by (simp only: Let_def simp_thms if_True)
  next
    case 4
    define h k m where "h = c div 262144" and "k = c div 4096 mod 64" and "m = c div 64 mod 64"
    have "0 \<le> h" "h < 5" using 4 c by (simp_all add: h_def)
    then have h: "\<not> uint (octet (240 + h)) < 240" "uint (octet (240 + h)) < 245" "uint (octet (240 + h)) = 240 + h" by simp_all
    have k: "0 \<le> k" "k < 64" "continuation (octet (128 + k))" by (simp_all add: k_def continuation_octet)
    have m: "0 \<le> m" "m < 64" "continuation (octet (128 + m))" by (simp_all add: m_def continuation_octet)
    have "utf8_char c = [octet (240 + h), octet (128 + k), octet (128 + m), octet (128 + c mod 64)]"
      using 4 by (simp add: utf8_char_def h_def k_def m_def)
    then have "utf8_next (utf8_char c @ r) = (let v = h * 262144 + (k * 4096 + (m * 64 + c mod 64)) in
        if 65536 \<le> v \<and> scalar v then Some (v, r) else None)"
      using h k m digits [of c] by (simp add: Let_def)
    moreover have "h * 262144 + (k * 4096 + (m * 64 + c mod 64)) = c"
      using four_digits [of c] by (simp add: h_def k_def m_def)
    ultimately show ?thesis using 4 assms by (simp only: Let_def simp_thms if_True)
  qed
qed

lemma utf8_next_sound:
  assumes "utf8_next s = Some (c, r)" shows "s = utf8_char c @ r \<and> scalar c"
proof (cases s)
  case Nil
  with assms show ?thesis by simp
next
  case (Cons a t)
  consider "uint a < 128" | "194 \<le> uint a" "uint a < 224" | "224 \<le> uint a" "uint a < 240" | "240 \<le> uint a" "uint a < 245"
    using assms Cons by (auto split: if_splits)
  then show ?thesis
  proof cases
    case 1
    then have "t = r" "c = uint a" using assms Cons by simp_all
    then show ?thesis using 1 Cons uint_range [of a] by (simp add: utf8_char_def scalar_def)
  next
    case 2
    then obtain b where b: "t = b # r" "continuation b" "c = (uint a - 192) * 64 + (uint b - 128)"
      using assms Cons by (auto split: list.splits if_splits)
    have low: "0 \<le> uint b - 128" "uint b - 128 < 64" using b(2) by (simp_all add: continuation_def)
    have "c div 64 = uint a - 192" "c mod 64 = uint b - 128" unfolding b(3) by (rule digits64 [OF low])+
    moreover have "128 \<le> c \<and> c < 2048" unfolding b(3) using 2 low by auto
    ultimately show ?thesis using b(1) Cons by (simp add: utf8_char_def scalar_def)
  next
    case 3
    then obtain b d where b: "t = b # d # r" "continuation b" "continuation d"
      "c = (uint a - 224) * 4096 + (uint b - 128) * 64 + (uint d - 128)" "2048 \<le> c" "scalar c"
      using assms Cons by (auto simp: Let_def split: list.splits if_splits)
    have low: "0 \<le> uint b - 128" "uint b - 128 < 64" "0 \<le> uint d - 128" "uint d - 128 < 64"
      using b(2,3) by (simp_all add: continuation_def)
    have c: "c = ((uint a - 224) * 64 + (uint b - 128)) * 64 + (uint d - 128)" by (simp add: b(4) algebra_simps)
    have "c div 64 = (uint a - 224) * 64 + (uint b - 128)" "c mod 64 = uint d - 128"
      unfolding c by (rule digits64 [OF low(3,4)])+
    then have "c div 4096 = uint a - 224" "c div 64 mod 64 = uint b - 128" "c mod 64 = uint d - 128"
      unfolding div_4096 by (simp_all only: digits64 [OF low(1,2)])
    moreover have "c < 65536" unfolding c using 3 low by auto
    ultimately show ?thesis using b(1,5,6) Cons by (simp add: utf8_char_def)
  next
    case 4
    then obtain b d e where b: "t = b # d # e # r" "continuation b" "continuation d" "continuation e"
      "c = (uint a - 240) * 262144 + (uint b - 128) * 4096 + (uint d - 128) * 64 + (uint e - 128)" "65536 \<le> c" "scalar c"
      using assms Cons by (auto simp: Let_def split: list.splits if_splits)
    have low: "0 \<le> uint b - 128" "uint b - 128 < 64" "0 \<le> uint d - 128" "uint d - 128 < 64"
      "0 \<le> uint e - 128" "uint e - 128 < 64"
      using b(2-4) by (simp_all add: continuation_def)
    have c: "c = (((uint a - 240) * 64 + (uint b - 128)) * 64 + (uint d - 128)) * 64 + (uint e - 128)"
      by (simp add: b(5) algebra_simps)
    have "c div 64 = ((uint a - 240) * 64 + (uint b - 128)) * 64 + (uint d - 128)" "c mod 64 = uint e - 128"
      unfolding c by (rule digits64 [OF low(5,6)])+
    then have "c div 262144 = uint a - 240" "c div 4096 mod 64 = uint b - 128" "c div 64 mod 64 = uint d - 128"
      "c mod 64 = uint e - 128"
      unfolding div_4096 div_262144 by (simp_all only: digits64 [OF low(1,2)] digits64 [OF low(3,4)])
    then have "octet (240 + c div 262144) = a" "octet (128 + c div 4096 mod 64) = b"
      "octet (128 + c div 64 mod 64) = d" "octet (128 + c mod 64) = e"
      by (simp_all only: octet_shift)
    then have "utf8_char c = [a, b, d, e]"
      using b(6) unfolding utf8_char_def by (simp only: list.map if_False linorder_not_le [symmetric]) simp
    then show ?thesis using b(1,7) Cons by simp
  qed
qed

lemma utf8_encode_Cons [simp]: "utf8_encode (c # t) = utf8_char c @ utf8_encode t"
  by (simp add: utf8_encode_def)

lemma utf8_char_nonempty: "utf8_char c \<noteq> []"
  by (simp add: utf8_char_def)

lemma utf8_decode_encode: "list_all scalar t \<Longrightarrow> utf8_decode (utf8_encode t) = Some t"
  by (induction t)
    (simp_all add: utf8_decode.simps [of "[]"] utf8_decode.simps [of "utf8_char _ @ _"] utf8_next_char utf8_char_nonempty,
     simp add: utf8_encode_def utf8_decode.simps)

lemma utf8_decode_sound: "utf8_decode s = Some t \<Longrightarrow> s = utf8_encode t \<and> list_all scalar t"
proof (induction s arbitrary: t rule: utf8_decode.induct)
  case (1 s)
  show ?case
  proof (cases "s = []")
    case True
    with 1(2) show ?thesis by (simp add: utf8_decode.simps [of "[]"] utf8_encode_def)
  next
    case False
    with 1(2) obtain c r t' where n: "utf8_next s = Some (c, r)" "utf8_decode r = Some t'" "t = c # t'"
      by (subst (asm) utf8_decode.simps) (auto split: option.splits)
    from 1(1) [OF False n(1) refl n(2)] utf8_next_sound [OF n(1)] n(3) show ?thesis by simp
  qed
qed

text \<open>A byte that opens a character of several bytes is followed by a continuation, wherever the decoder
  meets it; and a byte from 192 up is met only there, since no character continues with one.\<close>

lemma utf8_char_leads:
  assumes "scalar c" "utf8_char c = pre @ a # rest" "192 \<le> uint a"
  shows "pre = [] \<and> (\<exists>b rest'. rest = b # rest' \<and> 128 \<le> uint b)"
proof -
  have c: "0 \<le> c" "c \<le> 1114111" using assms(1) by (simp_all add: scalar_def)
  have tail: "uint b < 192 \<and> 128 \<le> uint b" if "b \<in> set (tl (utf8_char c))" for b
    using that by (auto simp: utf8_char_def split: if_splits)
  have "pre = []"
  proof (rule ccontr)
    assume "pre \<noteq> []"
    then have "a \<in> set (tl (utf8_char c))" using assms(2) by (cases pre) auto
    with tail assms(3) show False by force
  qed
  moreover have "rest \<noteq> []" using assms(2,3) c \<open>pre = []\<close> by (auto simp: utf8_char_def split: if_splits)
  ultimately show ?thesis using tail assms(2) by (cases rest) auto
qed

lemma lead_before_ascii:
  assumes "192 \<le> uint a" "uint b < 128"
  shows "utf8_decode (pre @ a # b # post) = None"
proof (rule ccontr)
  assume "utf8_decode (pre @ a # b # post) \<noteq> None"
  then obtain t where "utf8_decode (pre @ a # b # post) = Some t" by blast
  from utf8_decode_sound [OF this] have "pre @ a # b # post = utf8_encode t" "list_all scalar t" by auto
  then show False
  proof (induction t arbitrary: pre)
    case Nil
    then show ?case by (simp add: utf8_encode_def)
  next
    case (Cons c t)
    then have c: "scalar c" and t: "list_all scalar t" by auto
    from Cons.prems(1) have "pre @ a # b # post = utf8_char c @ utf8_encode t" by simp
    then consider (tail) pre' where "pre = utf8_char c @ pre'" "pre' @ a # b # post = utf8_encode t"
      | (head) x us where "utf8_char c = pre @ x # us" "a # b # post = (x # us) @ utf8_encode t"
      unfolding append_eq_append_conv2 by (metis append.right_neutral append_Nil neq_Nil_conv)
    then show ?case
    proof cases
      case tail
      then show ?thesis using Cons.IH t by blast
    next
      case head
      then have "x = a" "b # post = us @ utf8_encode t" by simp_all
      with utf8_char_leads [OF c, of pre a us] head(1) assms show ?thesis by auto
    qed
  qed
qed

section \<open>Properties\<close>

lemma mislabelled_cases:
  assumes "mislabelled_utf8 raw = Some d"
  shows "\<exists>name. declared_encoding (take DECLARATION_HEAD raw) = Some name \<and> d = ascii_replace name"
    "\<exists>f \<in> set OVERRIDABLE_DECLARATIONS. contains_text f (lower_ascii d)"
    "\<exists>b \<in> set raw. 128 \<le> uint b" "\<exists>t. utf8_decode raw = Some t"
  using assms by (auto simp: mislabelled_utf8_def Let_def list_ex_iff list_all_iff not_less split: option.splits if_splits)

lemma utf8_encode_ascii: "list_all (\<lambda>c. 0 \<le> c \<and> c < 128) t \<Longrightarrow> list_all (\<lambda>b. uint b < 128) (utf8_encode t)"
  by (induction t) (simp_all add: utf8_encode_def utf8_char_def)

text \<open>C39: A file read against its declaration loses nothing. When the reader overrides the encoding a file
  declares, the declaration names a Latin encoding, the whole file is UTF-8, and the text read from it
  has a character outside ASCII, where the two readings differ; writing the text in UTF-8 gives back
  the file, byte for byte. A file in which a byte from 192 up stands before an ASCII byte, as every
  accented letter inside a Latin-1 word does, is never overridden.\<close>

theorem override_is_lossless:
  "(\<forall>d. mislabelled_utf8 raw = Some d \<longrightarrow>
      (\<exists>f \<in> set OVERRIDABLE_DECLARATIONS. contains_text f (lower_ascii d)) \<and>
      (\<exists>t. utf8_decode raw = Some t \<and> utf8_encode t = raw \<and> list_all scalar t \<and> (\<exists>c \<in> set t. 128 \<le> c))) \<and>
   ((\<exists>pre a b post. raw = pre @ a # b # post \<and> 192 \<le> uint a \<and> uint b < 128) \<longrightarrow> mislabelled_utf8 raw = None)"
proof (intro conjI allI impI)
  fix d assume d: "mislabelled_utf8 raw = Some d"
  note facts = mislabelled_cases [OF d]
  from facts(2) show "\<exists>f \<in> set OVERRIDABLE_DECLARATIONS. contains_text f (lower_ascii d)" .
  from facts(4) obtain t where t: "utf8_decode raw = Some t" by blast
  note sound = utf8_decode_sound [OF t]
  have "\<not> list_all (\<lambda>c. 0 \<le> c \<and> c < 128) t"
    using utf8_encode_ascii [of t] facts(3) conjunct1 [OF sound] unfolding list_all_iff by (metis not_less)
  moreover have "0 \<le> c" if "c \<in> set t" for c using conjunct2 [OF sound] that by (simp add: list_all_iff scalar_def)
  ultimately have "\<exists>c \<in> set t. 128 \<le> c" unfolding list_all_iff by (metis not_less)
  with t sound show "\<exists>t. utf8_decode raw = Some t \<and> utf8_encode t = raw \<and> list_all scalar t \<and> (\<exists>c \<in> set t. 128 \<le> c)"
    by blast
next
  assume "\<exists>pre a b post. raw = pre @ a # b # post \<and> 192 \<le> uint a \<and> uint b < 128"
  then obtain pre a b post where raw: "raw = pre @ a # b # post" "192 \<le> uint a" "uint b < 128" by blast
  have "utf8_decode raw = None"
    using lead_before_ascii [OF raw(2,3)] by (simp add: raw(1))
  then show "mislabelled_utf8 raw = None"
    by (auto simp: mislabelled_utf8_def Let_def split: option.splits)
qed

definition demo_mislabelled :: bytes where
  "demo_mislabelled = map octet (tx ''encoding=\"ISO-8859-1\"?>caf'') @ [195, 169, 116]"

lemma override_is_lossless_witness:
  "mislabelled_utf8 demo_mislabelled = Some (tx ''ISO-8859-1'') \<and>
   (\<exists>t. utf8_decode demo_mislabelled = Some t \<and> utf8_encode t = demo_mislabelled) \<and>
   mislabelled_utf8 (map octet (tx ''encoding=\"ISO-8859-1\"?>'') @ [233, 116]) = None"
proof (intro conjI)
  show d: "mislabelled_utf8 demo_mislabelled = Some (tx ''ISO-8859-1'')" by code_simp
  from override_is_lossless [of demo_mislabelled] d
  show "\<exists>t. utf8_decode demo_mislabelled = Some t \<and> utf8_encode t = demo_mislabelled" by blast
  from override_is_lossless [of "map octet (tx ''encoding=\"ISO-8859-1\"?>'') @ [233, 116]"]
  show "mislabelled_utf8 (map octet (tx ''encoding=\"ISO-8859-1\"?>'') @ [233, 116]) = None" by force
qed

end
