(* ===== verification/Documents.thy ===== *)
theory Documents
  imports Pipeline Alto_Roundtrip Page_Roundtrip Encoding
begin

text \<open>
  \<open>formats/loader.py\<close>: a document from its files, whatever their format, and what the engine may rely on
  in a document a parser built. The bytes of a file are what \<open>bytes_of\<close> gives for it.

  Facts: a loaded document is undecided, its lines are filed under their pages and its blocks list them,
  so that a run of the engine on it decides every line.
\<close>

section \<open>Definitions\<close>

fun sniff_files :: "source_file list \<Rightarrow> (ident, string) dict \<Rightarrow> exn + (ident, string) dict" where
  "sniff_files [] formats = Inr formats"
| "sniff_files (f # fs) formats =
     res_bind (sniff_format (sf_root f)) (\<lambda>fmt. sniff_files fs (dict_set (sf_name f) fmt formats))"

text \<open>The files read as UTF-8 although they declare something else, with what they declare.\<close>

definition overridden :: "(source_file \<Rightarrow> bytes) \<Rightarrow> source_file list \<Rightarrow> (ident, ptext) dict" where
  "overridden bytes_of files =
     foldl (\<lambda>d f. case mislabelled_utf8 (bytes_of f) of
                    None \<Rightarrow> d
                  | Some declared \<Rightarrow> dict_set (sf_name f) declared d) [] files"

definition build_by_format ::
  "string set \<Rightarrow> unicode \<Rightarrow> ident \<Rightarrow> pairing_policy \<Rightarrow> source_file list \<Rightarrow> exn + document_manifest" where
  "build_by_format formats =
     (if formats = {''page''} then page_document_manifest else Alto_Parser.build_document_manifest)"

definition load_document ::
  "unicode \<Rightarrow> ident \<Rightarrow> pairing_policy \<Rightarrow> (source_file \<Rightarrow> bytes) \<Rightarrow> source_file list \<Rightarrow> exn + document_manifest" where
  "load_document u did pol bytes_of files =
     (if files = [] then Inl (Exn C_ParseError ''needs at least one file'')
      else
        res_bind (sniff_files files []) (\<lambda>formats.
          if card (snd ` set formats) > 1 then Inl (Exn C_ParseError ''one document, one format'')
          else
            res_bind (build_by_format (snd ` set formats) u did pol files) (\<lambda>d.
              Inr (if overridden bytes_of files \<noteq> []
                   then d\<lparr>doc_source_encodings := overridden bytes_of files\<rparr> else d))))"

section \<open>Facts\<close>

lemma read_files_names: "read_files parse po lo files = Inr parsed \<Longrightarrow> map fst parsed = map sf_name files"
  by (induction files arbitrary: po lo parsed) (auto simp: res_bind_Inr)

lemma filed_document:
  assumes "\<And>p. p \<in> set (doc_pages d) \<Longrightarrow> filed_page p"
  shows "fresh_document d" "well_filed d" "list_all blocks_partition (doc_pages d)"
proof -
  show "fresh_document d" "well_filed d"
    using assms by (auto simp: fresh_document_def well_filed_def document_lines_def filed_page_def list_all_iff)
  have "mset (concat (map blk_line_ids (pg_blocks p))) = mset (map line_id (pg_lines p))"
    if "p \<in> set (doc_pages d)" for p
    using assms [OF that] by (simp only: filed_page_def)
  then show "list_all blocks_partition (doc_pages d)"
    using assms by (simp add: blocks_partition_def filed_page_def list_all_iff)
qed

lemma built_document:
  assumes "build_by_format formats u did pol files = Inr d"
  shows "p \<in> set (doc_pages d) \<Longrightarrow> filed_page p"
    "doc_source_files d = map sf_name files"
    "doc_source_format d = Some (if formats = {''page''} then ''page'' else ''alto'')"
proof -
  define parse where "parse = (\<lambda>source po lo. (if formats = {''page''} then parse_page_file else parse_alto_file) u source po lo pol)"
  define fmt where "fmt = (if formats = {''page''} then ''page'' else ''alto'')"
  obtain parsed where parsed: "read_files parse 0 0 files = Inr parsed" "d = assemble_document did pol fmt files parsed"
    using assms
    by (auto simp: build_by_format_def page_document_manifest_def Alto_Parser.build_document_manifest_def
        parse_def fmt_def res_bind_Inr split: if_splits)
  have filed: "filed_page p" if "parse source po lo el = Inr pages" "p \<in> set pages" for source po lo el pages p
    using that read_from_filed [OF page_file_read] read_from_filed [OF parsed_file]
    by (auto simp: parse_def split: if_splits)
  show "filed_page p" if "p \<in> set (doc_pages d)"
    by (rule assembled_filed [OF read_files_pages [OF parsed(1) filed] that [unfolded parsed(2)]])
  show "doc_source_files d = map sf_name files" "doc_source_format d = Some fmt"
    by (simp_all add: parsed(2) assemble_document_def Let_def)
qed

lemma loaded_document:
  assumes "load_document u did pol bytes_of files = Inr d"
  shows "fresh_document d" "well_filed d" "list_all blocks_partition (doc_pages d)"
    "doc_source_files d = map sf_name files" "doc_source_format d \<in> {Some ''alto'', Some ''page''}"
proof -
  obtain formats d0 where built: "build_by_format formats u did pol files = Inr d0"
    and d: "d = d0 \<or> d = d0\<lparr>doc_source_encodings := overridden bytes_of files\<rparr>"
    using assms by (auto simp: load_document_def res_bind_Inr split: if_splits)
  have same: "doc_pages d = doc_pages d0" "doc_source_files d = doc_source_files d0"
    "doc_source_format d = doc_source_format d0"
    using d by auto
  note b = built_document [OF built]
  show "fresh_document d" "well_filed d" "list_all blocks_partition (doc_pages d)"
    by (rule filed_document, simp add: same, erule b(1))+
  show "doc_source_files d = map sf_name files" "doc_source_format d \<in> {Some ''alto'', Some ''page''}"
    using b(2,3) by (simp_all add: same)
qed

end
