(* ===== verification/Rendering.thy ===== *)
theory Rendering
  imports Documents
begin

text \<open>
  \<open>core/rendering.py\<close>, \<open>core/projection.py\<close>: rewriting the files of a document, the check that a rewritten
  file says what the run decided, and what the rewrite leaves on the traces; and the run up to its files.
  An adapter is a function from the name of a file and its pages to the rewritten file; the two adapters
  of the library are the writers of ALTO and PAGE on the tree the file holds when it is read again.

  Facts: each file with pages is either delivered or refused; a delivered file says, line by line, what
  was decided; only a refused projection is absorbed; the traces change in the five fields of the
  projection and the decisions do not.
\<close>

section \<open>The projection check\<close>

fun verify_lines ::
  "line_decision list \<Rightarrow> (ident, ptext) dict \<Rightarrow> (ident, ptext) dict \<Rightarrow> line_manifest list \<Rightarrow>
   (ident, projection_fidelity) dict \<Rightarrow> exn + (ident, projection_fidelity) dict" where
  "verify_lines ds texts verbatim [] levels = Inr levels"
| "verify_lines ds texts verbatim (lm # lms) levels =
     (case map_of (decision_by_ref ds) (line_ref lm) of
        None \<Rightarrow> Inl (Exn C_OtherException ''KeyError'')
      | Some choice \<Rightarrow>
          (case map_of texts (line_id lm) of
             None \<Rightarrow> Inl (Exn C_ProjectionError ''missing from the rewritten XML'')
           | Some extracted \<Rightarrow>
               res_bind (classify_projection_fidelity (dec_final_text choice) extracted (map_of verbatim (line_id lm)))
                 (\<lambda>level. case level of
                    None \<Rightarrow> Inl (Exn C_ProjectionError ''diverges from the decision of the run'')
                  | Some l \<Rightarrow> verify_lines ds texts verbatim lms (dict_set (line_id lm) l levels))))"

definition verify_projection ::
  "page_manifest list \<Rightarrow> (ident, ptext) dict \<Rightarrow> line_decision list \<Rightarrow> (ident, ptext) dict \<Rightarrow>
   exn + (ident, projection_fidelity) dict" where
  "verify_projection pages texts ds verbatim = verify_lines ds texts verbatim (lines_of pages) []"

fun fidelity_value :: "projection_fidelity \<Rightarrow> string" where
  "fidelity_value EXACT = ''exact''"
| "fidelity_value SOURCE_SPELLING = ''source_spelling''"
| "fidelity_value TOKEN_EQUIVALENT = ''token_equivalent''"
| "fidelity_value NORMALIZED = ''normalized''"

definition fidelity_counts :: "line_trace list \<Rightarrow> (string, nat) dict" where
  "fidelity_counts traces =
     foldl (\<lambda>counts t. case tr_projection_fidelity t of
         None \<Rightarrow> counts
       | Some l \<Rightarrow> dict_set (fidelity_value l) (dict_get counts (fidelity_value l) 0 + 1) counts) [] traces"

section \<open>Adapters\<close>

type_synonym adapter = "ident \<Rightarrow> page_manifest list \<Rightarrow> exn + rewrite_result"

record provenance =
  pv_provider :: ptext
  pv_model :: ptext
  pv_lib_version :: "ptext option"
  pv_fingerprint :: "ptext option"

definition alto_adapter :: "unicode \<Rightarrow> provenance \<Rightarrow> (ident \<Rightarrow> exn + xml) \<Rightarrow> adapter" where
  "alto_adapter u pv tree_of name pages =
     res_bind (tree_of name)
       (rewrite_alto_file u pages (pv_provider pv) (pv_model pv) (pv_lib_version pv) (pv_fingerprint pv))"

definition page_adapter :: "unicode \<Rightarrow> provenance \<Rightarrow> (ident \<Rightarrow> exn + xml) \<Rightarrow> adapter" where
  "page_adapter u pv tree_of name pages =
     res_bind (tree_of name)
       (rewrite_page_file u pages (pv_provider pv) (pv_model pv) (pv_lib_version pv) (pv_fingerprint pv))"

definition adapter_for_format ::
  "unicode \<Rightarrow> provenance \<Rightarrow> (ident \<Rightarrow> exn + xml) \<Rightarrow> ident option \<Rightarrow> exn + adapter" where
  "adapter_for_format u pv tree_of fmt =
     (if fmt = Some ''alto'' then Inr (alto_adapter u pv tree_of)
      else if fmt = Some ''page'' then Inr (page_adapter u pv tree_of)
      else Inl (Exn C_ConfigurationError ''the manifest declares no derivable format''))"

section \<open>Rendering\<close>

record render_outcome =
  oc_losses :: losses
  oc_corrected :: "(ident, xml) dict"
  oc_undeliverable :: "(ident, string) dict"

definition add_losses :: "losses \<Rightarrow> losses \<Rightarrow> losses" where
  "add_losses a b = foldl (\<lambda>d (k, n). dict_set k (dict_get d k 0 + n) d) a b"

definition rewrite_and_verify ::
  "adapter \<Rightarrow> ident \<Rightarrow> page_manifest list \<Rightarrow> line_decision list \<Rightarrow>
   exn + (rewrite_result \<times> (ident, projection_fidelity) dict)" where
  "rewrite_and_verify adapter name pages ds =
     res_bind (adapter name pages) (\<lambda>res.
       res_bind (verify_projection pages (res_texts res) ds (res_texts_verbatim res)) (\<lambda>levels. Inr (res, levels)))"

text \<open>One value per line, put on the traces of the lines of this file.\<close>

definition put_traces ::
  "(ident, lref) dict \<Rightarrow> ('v \<Rightarrow> line_trace \<Rightarrow> line_trace) \<Rightarrow> (ident, 'v) dict \<Rightarrow> run \<Rightarrow> run" where
  "put_traces refs f vals r =
     foldl (\<lambda>r (lid, v). case map_of refs lid of None \<Rightarrow> r | Some ref \<Rightarrow> set_trace (f v) ref r) r vals"

definition record_rewrite_on_traces ::
  "rewrite_result \<Rightarrow> (ident, projection_fidelity) dict \<Rightarrow> page_manifest list \<Rightarrow> run \<Rightarrow> run" where
  "record_rewrite_on_traces res levels pages r =
     (let refs = map (\<lambda>(lid, lm). (lid, line_ref lm)) (dict_of line_id (lines_of pages));
          suspected = map (\<lambda>(lid, ref). (lid, True)) (filter (\<lambda>(lid, ref). lid \<in> res_moves res) refs)
      in put_traces refs (\<lambda>v t. t\<lparr>tr_word_order_suspected := Some v\<rparr>) suspected
        (put_traces refs (\<lambda>v t. t\<lparr>tr_projection_losses := Some (map (\<lambda>(k, n). (k, int n)) v)\<rparr>) (res_losses_by_line res)
        (put_traces refs (\<lambda>v t. t\<lparr>tr_projection_fidelity := Some v\<rparr>) levels
        (put_traces refs (\<lambda>v t. t\<lparr>tr_output_alto_text := Some v\<rparr>) (res_texts res)
        (put_traces refs (\<lambda>v t. t\<lparr>tr_rewriter_path := Some v\<rparr>) (res_paths res) r)))))"

definition pages_of_file :: "page_manifest list \<Rightarrow> ident \<Rightarrow> page_manifest list" where
  "pages_of_file pages name = filter (\<lambda>p. pg_source_file p = name) pages"

text \<open>The adapter is resolved at the first file with pages, so a document without output needs none. An
  adapter here is a function of the file's name and its pages: one that changed the manifests it is
  handed (none of the repository does) is outside the model.\<close>

fun render_files ::
  "(exn + adapter) \<Rightarrow> line_decision list \<Rightarrow> page_manifest list \<Rightarrow> ident list \<Rightarrow> render_outcome \<Rightarrow> run \<Rightarrow>
   (exn + render_outcome) \<times> run" where
  "render_files resolved ds pages [] out r = (Inr out, r)"
| "render_files resolved ds pages (name # names) out r =
     (let mine = pages_of_file pages name
      in if mine = [] then render_files resolved ds pages names out r
         else
           (case res_bind resolved (\<lambda>adapter. rewrite_and_verify adapter name mine ds) of
              Inl e \<Rightarrow>
                if exn_class e = C_ProjectionError
                then render_files resolved ds pages names
                       (out\<lparr>oc_undeliverable := dict_set name (exn_msg e) (oc_undeliverable out)\<rparr>) r
                else (Inl e, r)
            | Inr (res, levels) \<Rightarrow>
                render_files resolved ds pages names
                  (out\<lparr>oc_losses := add_losses (oc_losses out) (res_losses res),
                       oc_corrected := dict_set name (res_tree res) (oc_corrected out)\<rparr>)
                  (record_rewrite_on_traces res levels mine r)))"

definition render_outputs ::
  "(exn + adapter) \<Rightarrow> document_manifest \<Rightarrow> (ident, string option) dict \<Rightarrow> line_decision list \<Rightarrow> run \<Rightarrow>
   (exn + render_outcome) \<times> run" where
  "render_outputs resolved d sources ds r =
     render_files resolved ds (doc_pages (document_now r d)) (map fst sources)
       \<lparr>oc_losses = [], oc_corrected = [], oc_undeliverable = []\<rparr> r"

section \<open>The run up to its files\<close>

record corrected_document =
  cd_result :: run_result
  cd_outcome :: render_outcome
  cd_run :: run

definition correct_document ::
  "engine \<Rightarrow> loss_policy \<Rightarrow> ident option \<Rightarrow> (exn + adapter) \<Rightarrow> document_manifest \<Rightarrow>
   (ident, string option) dict \<Rightarrow> (ident, page_image) dict option \<Rightarrow> exn + corrected_document" where
  "correct_document eng loss fmt resolved d sources images =
     res_bind (run_decisions eng loss fmt d sources images) (\<lambda>res.
       case render_outputs resolved d sources (rr_decisions res) (rr_run res) of
         (Inl e, r) \<Rightarrow> Inl e
       | (Inr out, r) \<Rightarrow> Inr \<lparr>cd_result = res, cd_outcome = out, cd_run = r\<rparr>)"

section \<open>Facts: the projection check\<close>

text \<open>What the check establishes for a line: the file says the decided words, or the decided text without its
  invisible characters.\<close>

definition says :: "line_decision list \<Rightarrow> (ident, ptext) dict \<Rightarrow> line_manifest \<Rightarrow> bool" where
  "says ds texts lm \<longleftrightarrow>
     (\<exists>choice said. map_of (decision_by_ref ds) (line_ref lm) = Some choice \<and> map_of texts (line_id lm) = Some said \<and>
        (py_split (dec_final_text choice) = py_split said \<or> strip_invisibles (dec_final_text choice) = said))"

lemma verify_lines_ok:
  "verify_lines ds texts verbatim lms levels = Inr levels' \<Longrightarrow>
   (\<forall>lm \<in> set lms. says ds texts lm) \<and> fst ` set levels' = fst ` set levels \<union> line_id ` set lms"
proof (induction lms arbitrary: levels)
  case (Cons lm lms)
  from Cons.prems obtain choice said l where
    c: "map_of (decision_by_ref ds) (line_ref lm) = Some choice" "map_of texts (line_id lm) = Some said"
    and g: "classify_projection_fidelity (dec_final_text choice) said (map_of verbatim (line_id lm)) = Inr (Some l)"
    and rest: "verify_lines ds texts verbatim lms (dict_set (line_id lm) l levels) = Inr levels'"
    by (auto simp: res_bind_Inr split: option.splits)
  have "py_split (dec_final_text choice) = py_split said \<or> strip_invisibles (dec_final_text choice) = said"
    using classify_projection_fidelity_spec [of "dec_final_text choice" said "map_of verbatim (line_id lm)"] g by auto
  with c have "says ds texts lm" unfolding says_def by blast
  with Cons.IH [OF rest] show ?case by simp
qed simp

lemma rewrite_and_verify_ok:
  assumes "rewrite_and_verify adapter name pages ds = Inr (res, levels)"
  shows "adapter name pages = Inr res" "\<forall>lm \<in> set (lines_of pages). says ds (res_texts res) lm"
    "fst ` set levels = line_id ` set (lines_of pages)"
  using assms verify_lines_ok [of ds "res_texts res" "res_texts_verbatim res" "lines_of pages" "[]" levels]
  by (auto simp: rewrite_and_verify_def verify_projection_def res_bind_Inr)

section \<open>Facts: what rendering leaves of a run\<close>

definition strip_projection :: "line_trace \<Rightarrow> line_trace" where
  "strip_projection t =
     t\<lparr>tr_output_alto_text := None, tr_rewriter_path := None, tr_projection_losses := None,
       tr_projection_fidelity := None, tr_word_order_suspected := None\<rparr>"

definition same_run :: "run \<Rightarrow> run \<Rightarrow> bool" where
  "same_run r r' \<longleftrightarrow> rn_lines r' = rn_lines r \<and> rn_ctx r' = rn_ctx r \<and>
     map_option (map (apsnd strip_projection)) (rn_traces r') = map_option (map (apsnd strip_projection)) (rn_traces r)"

lemma same_run_refl [simp]: "same_run r r"
  by (simp add: same_run_def)

lemma same_run_trans: "same_run a b \<Longrightarrow> same_run b c \<Longrightarrow> same_run a c"
  by (simp add: same_run_def)

lemma dict_set_stripped:
  "map_of ts k = Some t \<Longrightarrow> f t' = f t \<Longrightarrow> map (apsnd f) (dict_set k t' ts) = map (apsnd f) ts"
  by (induction ts) (auto simp: dict_set_def split: if_splits)

lemma set_trace_same:
  assumes "\<And>t. strip_projection (f t) = strip_projection t" shows "same_run r (set_trace f ref r)"
  using dict_set_stripped [of _ ref _ strip_projection] assms
  by (auto simp: set_trace_def same_run_def split: option.splits)

lemma put_traces_same:
  assumes "\<And>v t. strip_projection (f v t) = strip_projection t" shows "same_run r (put_traces refs f vals r)"
  unfolding put_traces_def
proof (induction vals arbitrary: r)
  case (Cons x vals)
  obtain lid v where x: "x = (lid, v)" by fastforce
  have "same_run r (case map_of refs lid of None \<Rightarrow> r | Some ref \<Rightarrow> set_trace (f v) ref r)"
    using set_trace_same assms by (auto split: option.splits)
  from same_run_trans [OF this Cons.IH] show ?case by (simp add: x)
qed simp

lemma record_rewrite_same: "same_run r (record_rewrite_on_traces res levels pages r)"
  unfolding record_rewrite_on_traces_def Let_def
  by (intro put_traces_same same_run_trans [OF put_traces_same put_traces_same] same_run_trans [OF _ put_traces_same])
    (simp_all add: strip_projection_def)

lemma trace_at_stripped:
  assumes "same_run r r'"
  shows "map_option strip_projection (trace_at r' ref) = map_option strip_projection (trace_at r ref)"
proof -
  have look: "map_option strip_projection (map_of ts ref) = map_of (map (apsnd strip_projection) ts) ref" for ts
    by (induction ts) auto
  show ?thesis using assms look
    by (cases "rn_traces r"; cases "rn_traces r'") (simp_all add: same_run_def trace_at_def)
qed

lemma same_run_decisions:
  assumes "same_run r r'" shows "derive_decision_set d r' = derive_decision_set d r"
proof -
  have reason: "map_option tr_fallback_reason (trace_at r' ref) = map_option tr_fallback_reason (trace_at r ref)" for ref
    using arg_cong [OF trace_at_stripped [OF assms, of ref], of "map_option tr_fallback_reason"]
    by (simp add: option.map_comp comp_def strip_projection_def)
  have "decision_of r' = decision_of r"
  proof
    fix lm
    show "decision_of r' lm = decision_of r lm"
      using reason [of "line_ref lm"] by (auto simp: decision_of_def split: option.splits)
  qed
  moreover have "rn_lines r' = rn_lines r" using assms by (simp add: same_run_def)
  then have "line_at r' = line_at r" by (simp add: line_at_def fun_eq_iff)
  then have "document_now r' d = document_now r d"
    by (simp add: document_now_def page_now_def lines_at_def)
  ultimately show ?thesis by (simp only: derive_decision_set_def)
qed

section \<open>Facts: the files\<close>

definition delivered :: "(exn + adapter) \<Rightarrow> line_decision list \<Rightarrow> page_manifest list \<Rightarrow> ident \<Rightarrow> xml \<Rightarrow> bool" where
  "delivered resolved ds pages name tree \<longleftrightarrow>
     (\<exists>adapter res. resolved = Inr adapter \<and> adapter name pages = Inr res \<and> tree = res_tree res \<and>
        (\<forall>lm \<in> set (lines_of pages). says ds (res_texts res) lm))"

definition refused :: "(exn + adapter) \<Rightarrow> line_decision list \<Rightarrow> page_manifest list \<Rightarrow> ident \<Rightarrow> bool" where
  "refused resolved ds pages name \<longleftrightarrow>
     (\<exists>e. res_bind resolved (\<lambda>adapter. rewrite_and_verify adapter name pages ds) = Inl e \<and>
        exn_class e = C_ProjectionError)"

definition accounts :: "(exn + adapter) \<Rightarrow> line_decision list \<Rightarrow> page_manifest list \<Rightarrow> ident set \<Rightarrow> render_outcome \<Rightarrow> bool" where
  "accounts resolved ds pages names out \<longleftrightarrow>
     fst ` set (oc_corrected out) \<inter> fst ` set (oc_undeliverable out) = {} \<and>
     fst ` set (oc_corrected out) \<union> fst ` set (oc_undeliverable out) = {n \<in> names. pages_of_file pages n \<noteq> []} \<and>
     (\<forall>n t. map_of (oc_corrected out) n = Some t \<longrightarrow> delivered resolved ds (pages_of_file pages n) n t) \<and>
     (\<forall>n \<in> fst ` set (oc_undeliverable out). refused resolved ds (pages_of_file pages n) n)"

lemma accounts_skip:
  "accounts resolved ds pages names out \<Longrightarrow> pages_of_file pages n = [] \<Longrightarrow> accounts resolved ds pages (insert n names) out"
  unfolding accounts_def by (metis (mono_tags, lifting) Collect_cong insert_iff)

lemma accounts_refused:
  assumes "accounts resolved ds pages names out" "n \<notin> names" "pages_of_file pages n \<noteq> []"
    "refused resolved ds (pages_of_file pages n) n"
  shows "accounts resolved ds pages (insert n names)
    (out\<lparr>oc_undeliverable := dict_set n why (oc_undeliverable out)\<rparr>)"
  using assms unfolding accounts_def by auto

lemma accounts_delivered:
  assumes "accounts resolved ds pages names out" "n \<notin> names" "pages_of_file pages n \<noteq> []"
    "delivered resolved ds (pages_of_file pages n) n t"
  shows "accounts resolved ds pages (insert n names)
    (out\<lparr>oc_losses := ls, oc_corrected := dict_set n t (oc_corrected out)\<rparr>)"
  using assms unfolding accounts_def by (auto split: if_splits)

lemma render_files_ok:
  "render_files resolved ds pages names out r = (Inr out', r') \<Longrightarrow> distinct names \<Longrightarrow>
   accounts resolved ds pages seen out \<Longrightarrow> set names \<inter> seen = {} \<Longrightarrow>
   accounts resolved ds pages (set names \<union> seen) out' \<and> same_run r r'"
proof (induction names arbitrary: out r seen)
  case (Cons n names)
  let ?mine = "pages_of_file pages n"
  have disj: "set names \<inter> insert n seen = {}" and fresh: "n \<notin> seen" and names: "distinct names"
    and eq: "set names \<union> insert n seen = set (n # names) \<union> seen"
    using Cons.prems(2,4) by auto
  show ?case
  proof (cases "?mine = []")
    case True
    with Cons.prems(1) have "render_files resolved ds pages names out r = (Inr out', r')" by simp
    from Cons.IH [OF this names accounts_skip [OF Cons.prems(3) True] disj] show ?thesis unfolding eq .
  next
    case False
    show ?thesis
    proof (cases "res_bind resolved (\<lambda>adapter. rewrite_and_verify adapter n ?mine ds)")
      case (Inl e)
      with Cons.prems(1) False have e: "exn_class e = C_ProjectionError"
        and rest: "render_files resolved ds pages names
          (out\<lparr>oc_undeliverable := dict_set n (exn_msg e) (oc_undeliverable out)\<rparr>) r = (Inr out', r')"
        by (auto split: if_splits)
      have "refused resolved ds ?mine n" using Inl e by (simp add: refused_def)
      from Cons.IH [OF rest names accounts_refused [OF Cons.prems(3) fresh False this] disj]
      show ?thesis unfolding eq .
    next
      case (Inr out1)
      obtain res levels where out1: "out1 = (res, levels)" by fastforce
      from Inr [unfolded out1] obtain adapter where a: "resolved = Inr adapter"
        "rewrite_and_verify adapter n ?mine ds = Inr (res, levels)" by (auto simp: res_bind_Inr)
      have "delivered resolved ds ?mine n (res_tree res)"
        unfolding delivered_def using a(1) rewrite_and_verify_ok [OF a(2)] by blast
      note now = accounts_delivered [OF Cons.prems(3) fresh False this]
      from Cons.prems(1) False Inr out1 have rest: "render_files resolved ds pages names
          (out\<lparr>oc_losses := add_losses (oc_losses out) (res_losses res),
               oc_corrected := dict_set n (res_tree res) (oc_corrected out)\<rparr>)
          (record_rewrite_on_traces res levels ?mine r) = (Inr out', r')"
        by (simp add: Let_def)
      from Cons.IH [OF rest names now disj] same_run_trans [OF record_rewrite_same]
      show ?thesis unfolding eq by blast
    qed
  qed
qed simp

lemma render_outputs_ok:
  assumes "render_outputs resolved d sources ds r = (Inr out, r')" "distinct (map fst sources)"
  shows "accounts resolved ds (doc_pages (document_now r d)) (fst ` set sources) out" "same_run r r'"
proof -
  have none: "accounts resolved ds (doc_pages (document_now r d)) {} \<lparr>oc_losses = [], oc_corrected = [], oc_undeliverable = []\<rparr>"
    by (simp add: accounts_def)
  from render_files_ok [OF assms(1) [unfolded render_outputs_def] assms(2) none]
  show "accounts resolved ds (doc_pages (document_now r d)) (fst ` set sources) out" "same_run r r'" by simp_all
qed

lemma run_decisions_derived:
  assumes "run_decisions eng loss fmt d sources images = Inr res"
  shows "derive_decision_set d (rr_run res) = Inr (rr_decisions res)"
proof -
  from assms obtain u cfg r ds sidecar r' where
    "finalize_document u cfg loss d r = Inr (ds, sidecar, r')" "rr_decisions res = ds" "rr_run res = r'"
    by (auto simp: run_decisions_def split: sum.splits prod.splits)
  then show ?thesis by (auto simp: finalize_document_def Let_def split: sum.splits prod.splits)
qed

lemma correct_document_cases:
  assumes "correct_document eng loss fmt resolved d sources images = Inr out"
  shows "run_decisions eng loss fmt d sources images = Inr (cd_result out) \<and>
    render_outputs resolved d sources (rr_decisions (cd_result out)) (rr_run (cd_result out)) = (Inr (cd_outcome out), cd_run out)"
proof -
  from assms obtain res where res: "run_decisions eng loss fmt d sources images = Inr res"
    "(case render_outputs resolved d sources (rr_decisions res) (rr_run res) of
        (Inl e, r) \<Rightarrow> Inl e
      | (Inr oc, r) \<Rightarrow> Inr \<lparr>cd_result = res, cd_outcome = oc, cd_run = r\<rparr>) = Inr out"
    by (auto simp: correct_document_def res_bind_Inr)
  obtain x r where x: "render_outputs resolved d sources (rr_decisions res) (rr_run res) = (x, r)" by fastforce
  with res(2) obtain oc where "x = Inr oc" "out = \<lparr>cd_result = res, cd_outcome = oc, cd_run = r\<rparr>"
    by (auto split: sum.splits)
  with res(1) x show ?thesis by simp
qed

section \<open>Properties\<close>

text \<open>A document of one file, for the witnesses.\<close>

definition sample_file :: source_file where
  "sample_file =
     \<lparr>sf_name = ''f.xml'',
      sf_root = Element (Some ''alto'') [] [] None
       [Element (Some ''Layout'') [] [] None
         [Element (Some ''Page'') [(''ID'', ''P'')] [] None
           [Element (Some ''PrintSpace'') [] [] None
             [Element (Some ''TextBlock'') [(''ID'', ''b'')] []  None
               [demo_line_el ''a'' [demo_string ''s1'' (tx ''mat'')]]]]]],
      sf_digest = ''d''\<rparr>"

definition sample_provenance :: provenance where
  "sample_provenance = \<lparr>pv_provider = tx ''p'', pv_model = tx ''m'', pv_lib_version = None, pv_fingerprint = None\<rparr>"

definition sample_load :: "exn + document_manifest" where
  "sample_load = load_document ascii_unicode ''D'' DEFAULT_PAIRING_POLICY (\<lambda>f. []) [sample_file]"

definition sample_adapter :: "exn + adapter" where
  "sample_adapter = adapter_for_format ascii_unicode sample_provenance (\<lambda>n. Inr (sf_root sample_file)) (Some ''alto'')"

definition sample_run :: "exn + corrected_document" where
  "sample_run = res_bind sample_load (\<lambda>d.
     correct_document (demo_engine mot_producer) DEFAULT_LOSS_POLICY (Some ''alto'') sample_adapter d
       [(''f.xml'', Some ''d'')] None)"

lemma sample_load_lines:
  "case sample_load of Inl _ \<Rightarrow> False | Inr d \<Rightarrow> map line_ref (document_lines d) = [LineRef ''P'' ''a'']"
  by code_simp

lemma sample_run_files:
  "case sample_run of Inl _ \<Rightarrow> False | Inr out \<Rightarrow>
     map fst (oc_corrected (cd_outcome out)) = [''f.xml''] \<and>
     map dec_final_text (rr_decisions (cd_result out)) = [tx ''mot'']"
  by code_simp

lemma sample_loaded:
  obtains d where "sample_load = Inr d" "map line_ref (document_lines d) = [LineRef ''P'' ''a'']"
  using sample_load_lines by (simp only: split: sum.split_asm)

lemma sample_ran:
  obtains d out where "sample_load = Inr d"
    "correct_document (demo_engine mot_producer) DEFAULT_LOSS_POLICY (Some ''alto'') sample_adapter d
       [(''f.xml'', Some ''d'')] None = Inr out"
    "map fst (oc_corrected (cd_outcome out)) = [''f.xml'']" "map dec_final_text (rr_decisions (cd_result out)) = [tx ''mot'']"
proof -
  obtain out where out: "sample_run = Inr out" "map fst (oc_corrected (cd_outcome out)) = [''f.xml''] \<and>
      map dec_final_text (rr_decisions (cd_result out)) = [tx ''mot'']"
    using sample_run_files by (simp only: split: sum.split_asm)
  from out(1) obtain d where "sample_load = Inr d" "correct_document (demo_engine mot_producer) DEFAULT_LOSS_POLICY
      (Some ''alto'') sample_adapter d [(''f.xml'', Some ''d'')] None = Inr out"
    unfolding sample_run_def by (auto simp: res_bind_Inr)
  from that [OF this conjunct1 [OF out(2)] conjunct2 [OF out(2)]] show thesis .
qed

text \<open>C1: The whole engine, from files to decisions. A document loaded from files of either format is one the
  engine can finish: under a valid planner configuration (overlap smaller than the window), if the run passes
  its gates and its pages return, every line of the document has one decision, in reading order, each
  terminal, a fallen line's final text being its source; and the run it leaves is coherent and has kept every
  line's source text and identity. With quality routing switched on this is claimed for a document of one
  page, and for a longer one in the runs where no line has fallen back before its own page's turn comes
  (\<open>routing_safe\<close>): the router accepts a line it finds clean without looking whether an earlier page put it
  back with its unit. Without routing there is no such condition.\<close>

theorem loaded_document_is_decided:
  assumes load: "load_document u did pol bytes_of files = Inr d"
    and config: "valid_planner_config (en_planner eng)" "routing_safe eng' d"
    and gates: "preflight eng fmt d sources images = Inr eng'"
    and pages: "process_pages eng' (doc_id d) 0 0 (doc_pages d) (new_run d) = (Inr (n_chunks, n_pairs), r)"
  shows "\<exists>res. run_decisions eng loss fmt d sources images = Inr res \<and>
    map dec_ref (rr_decisions res) = map line_ref (document_lines d) \<and> list_all terminal (rr_decisions res) \<and>
    coherent_run (rr_run res) \<and> progress (new_run d) (rr_run res)"
  by (rule run_decides_every_line [OF loaded_document(1-3) [OF load] config gates pages])

text \<open>C2: Every file is accounted for. When a run returns, each source with pages is delivered or named as
  undeliverable, never both, and no other source is. A delivered file is what the adapter wrote for its
  pages, and for every line of them the file says the words of the run's decision, or exactly the decided
  text without its invisible characters; a file is undeliverable only when this check, or the adapter,
  refused the projection.\<close>

theorem every_file_accounted_for:
  assumes run: "correct_document eng loss fmt resolved d sources images = Inr out"
    and names: "distinct (map fst sources)"
  defines "pages \<equiv> \<lambda>name. pages_of_file (doc_pages (document_now (rr_run (cd_result out)) d)) name"
    and "ds \<equiv> rr_decisions (cd_result out)" and "oc \<equiv> cd_outcome out"
  shows "fst ` set (oc_corrected oc) \<inter> fst ` set (oc_undeliverable oc) = {} \<and>
    fst ` set (oc_corrected oc) \<union> fst ` set (oc_undeliverable oc) = {n \<in> fst ` set sources. pages n \<noteq> []} \<and>
    (\<forall>name tree. map_of (oc_corrected oc) name = Some tree \<longrightarrow>
       (\<exists>adapter res. resolved = Inr adapter \<and> adapter name (pages name) = Inr res \<and> tree = res_tree res \<and>
          (\<forall>lm \<in> set (lines_of (pages name)). \<exists>choice said.
             map_of (decision_by_ref ds) (line_ref lm) = Some choice \<and> map_of (res_texts res) (line_id lm) = Some said \<and>
             (py_split (dec_final_text choice) = py_split said \<or> strip_invisibles (dec_final_text choice) = said)))) \<and>
    (\<forall>name \<in> fst ` set (oc_undeliverable oc). \<exists>e.
       res_bind resolved (\<lambda>adapter. rewrite_and_verify adapter name (pages name) ds) = Inl e \<and>
       exn_class e = C_ProjectionError)"
  using render_outputs_ok(1) [OF conjunct2 [OF correct_document_cases [OF run]] names]
  unfolding accounts_def delivered_def refused_def says_def pages_def ds_def oc_def .

text \<open>C3: Rendering decides nothing. After the files are written every line is as the decisions left it, the
  counters of the run too, the traces differ in their five fields of the projection at most, and the
  decisions derived again from the run are the ones it returned.\<close>

theorem rendering_changes_no_decision:
  assumes run: "correct_document eng loss fmt resolved d sources images = Inr out"
    and names: "distinct (map fst sources)"
  shows "derive_decision_set d (cd_run out) = Inr (rr_decisions (cd_result out)) \<and>
    rn_lines (cd_run out) = rn_lines (rr_run (cd_result out)) \<and> rn_ctx (cd_run out) = rn_ctx (rr_run (cd_result out)) \<and>
    (\<forall>ref. map_option strip_projection (trace_at (cd_run out) ref) =
       map_option strip_projection (trace_at (rr_run (cd_result out)) ref))"
proof -
  have same: "same_run (rr_run (cd_result out)) (cd_run out)"
    by (rule render_outputs_ok(2) [OF conjunct2 [OF correct_document_cases [OF run]] names])
  moreover have "derive_decision_set d (rr_run (cd_result out)) = Inr (rr_decisions (cd_result out))"
    using correct_document_cases [OF run] run_decisions_derived by blast
  ultimately show ?thesis using same_run_decisions [OF same] trace_at_stripped [OF same] by (simp add: same_run_def)
qed

lemma every_file_accounted_for_witness:
  "\<exists>(out :: corrected_document) tree. map_of (oc_corrected (cd_outcome out)) ''f.xml'' = Some tree \<and>
     map dec_final_text (rr_decisions (cd_result out)) = [tx ''mot''] \<and> ''f.xml'' \<notin> fst ` set (oc_undeliverable (cd_outcome out))"
proof -
  obtain d out where out: "correct_document (demo_engine mot_producer) DEFAULT_LOSS_POLICY (Some ''alto'') sample_adapter d
       [(''f.xml'', Some ''d'')] None = Inr out"
    "map fst (oc_corrected (cd_outcome out)) = [''f.xml'']" "map dec_final_text (rr_decisions (cd_result out)) = [tx ''mot'']"
    by (rule sample_ran)
  from out(2) have "''f.xml'' \<in> fst ` set (oc_corrected (cd_outcome out))"
    unfolding set_map [symmetric] out(2) by simp
  moreover from this obtain tree where tree: "map_of (oc_corrected (cd_outcome out)) ''f.xml'' = Some tree"
    by (metis map_of_eq_None_iff not_None_eq)
  moreover have "distinct (map fst [(''f.xml'', Some ''d'')])" by simp
  note conjunct1 [OF every_file_accounted_for [OF out(1) this]]
  ultimately have "''f.xml'' \<notin> fst ` set (oc_undeliverable (cd_outcome out))" by blast
  then show ?thesis using out(3) tree by (intro exI [of _ out] exI [of _ tree] conjI)
qed

lemma rendering_changes_no_decision_witness:
  "\<exists>d (out :: corrected_document). sample_load = Inr d \<and> derive_decision_set d (cd_run out) = Inr (rr_decisions (cd_result out)) \<and>
     map dec_final_text (rr_decisions (cd_result out)) = [tx ''mot'']"
proof -
  obtain d out where load: "sample_load = Inr d" and out:
    "correct_document (demo_engine mot_producer) DEFAULT_LOSS_POLICY (Some ''alto'') sample_adapter d
       [(''f.xml'', Some ''d'')] None = Inr out" "map dec_final_text (rr_decisions (cd_result out)) = [tx ''mot'']"
    by (rule sample_ran)
  have "distinct (map fst [(''f.xml'', Some ''d'')])" by simp
  note derived = conjunct1 [OF rendering_changes_no_decision [OF out(1) this]]
  show ?thesis by (rule exI [of _ d], rule exI [of _ out], intro conjI; fact load derived out(2))
qed

lemma loaded_document_is_decided_witness:
  "\<exists>d (res :: run_result). sample_load = Inr d \<and> list_all terminal (rr_decisions res) \<and>
     map dec_ref (rr_decisions res) = [LineRef ''P'' ''a'']"
proof -
  let ?eng = "demo_engine mot_producer" and ?src = "[(''f.xml'', Some ''d'')]"
  obtain d out where load: "sample_load = Inr d"
    and out: "correct_document ?eng DEFAULT_LOSS_POLICY (Some ''alto'') sample_adapter d ?src None = Inr out"
    by (rule sample_ran)
  have refs: "map line_ref (document_lines d) = [LineRef ''P'' ''a'']"
    using sample_loaded load by (metis sum.inject(2))
  from correct_document_cases [OF out] obtain eng' n_chunks n_pairs r where
    e: "preflight ?eng (Some ''alto'') d ?src None = Inr eng'"
    and p: "process_pages eng' (doc_id d) 0 0 (doc_pages d) (new_run d) = (Inr (n_chunks, n_pairs), r)"
    by (auto simp: run_decisions_def split: sum.splits prod.splits)
  have "\<not> routing_enabled (en_qe ?eng) (en_routing ?eng)" by (simp add: demo_engine_def routing_enabled_def)
  then have "routing_safe eng' d" using preflight_facts [OF e] by (simp add: routing_safe_def)
  from loaded_document_is_decided [OF load [unfolded sample_load_def] one_line_ready(5) this e p, of DEFAULT_LOSS_POLICY]
  obtain res :: run_result where res: "map dec_ref (rr_decisions res) = map line_ref (document_lines d)"
    "list_all terminal (rr_decisions res)" by blast
  show ?thesis
    by (rule exI [of _ d], rule exI [of _ res], intro conjI load res(2)) (simp only: res(1) refs)
qed

section \<open>A file whose decisions are in normal form\<close>

lemma page_file_says:
  assumes out: "rewrite_page_file u pages provider model v f el = Inr out"
    and flat: "flat_lines (detect_namespace el) el" "\<not> has_tag ''TextLine'' (detect_namespace el) el"
    and line: "tl_el \<in> set (textlines el)" "page_key tl_el = Some (line_id lm)" "lm \<in> set (lines_of pages)"
    and decided: "t = or_else (corrected_text lm) (ocr_text lm)" "nfc u t = t" "clean_line t = t"
      "preserve_break_char u (page_line_text u (detect_namespace el) False tl_el) t = t"
  shows "map_of (res_texts out) (line_id lm) = Some t"
proof -
  let ?ns = "detect_namespace el"
  note held = page_file_text [OF out refl flat line refl]
  then obtain m p m' where rw: "rewrite_page_line u ?ns lm tl_el m = Inr (page_written u ?ns lm tl_el, p, m')"
    using rewrite_page_line_counts by metis
  have t: "page_corrected u ?ns lm tl_el = t" using decided by (simp add: page_corrected_def)
  have "page_line_text u ?ns False (page_written u ?ns lm tl_el) = t"
    using page_line_written [OF rw, unfolded t] decided(2,3) by (auto split: if_splits)
  moreover have "map_of (res_texts out) (line_id lm) = Some (page_line_text u ?ns False (page_written u ?ns lm tl_el))"
    using held by (elim conjE)
  ultimately show ?thesis by simp
qed

lemma verify_lines_exact:
  assumes "\<forall>lm \<in> set lms. \<exists>choice. map_of (decision_by_ref ds) (line_ref lm) = Some choice \<and>
      map_of texts (line_id lm) = Some (dec_final_text choice)"
  shows "\<exists>levels'. verify_lines ds texts verbatim lms levels = Inr levels' \<and>
    snd ` set levels' \<subseteq> snd ` set levels \<union> {EXACT, SOURCE_SPELLING}"
  using assms
proof (induction lms arbitrary: levels)
  case (Cons lm lms)
  from Cons.prems obtain choice where c: "map_of (decision_by_ref ds) (line_ref lm) = Some choice"
    "map_of texts (line_id lm) = Some (dec_final_text choice)" by (auto simp only: list.set ball_simps)
  define l where "l = (if map_of verbatim (line_id lm) \<noteq> None \<and>
      map_of verbatim (line_id lm) \<noteq> Some (dec_final_text choice) then SOURCE_SPELLING else EXACT)"
  then have l: "classify_projection_fidelity (dec_final_text choice) (dec_final_text choice)
      (map_of verbatim (line_id lm)) = Inr (Some l)" "l \<in> {EXACT, SOURCE_SPELLING}"
    by (simp_all add: classify_projection_fidelity_def)
  have "\<forall>lm \<in> set lms. \<exists>choice. map_of (decision_by_ref ds) (line_ref lm) = Some choice \<and>
      map_of texts (line_id lm) = Some (dec_final_text choice)"
    using Cons.prems by (blast intro: list.set_intros(2))
  from Cons.IH [OF this] obtain levels' where
    rest: "verify_lines ds texts verbatim lms (dict_set (line_id lm) l levels) = Inr levels'"
    "snd ` set levels' \<subseteq> snd ` set (dict_set (line_id lm) l levels) \<union> {EXACT, SOURCE_SPELLING}" by blast
  have "snd ` set (dict_set (line_id lm) l levels) \<subseteq> insert l (snd ` set levels)"
    by (induction levels) (auto simp: dict_set_def split: if_splits)
  with rest l(2) have "snd ` set levels' \<subseteq> snd ` set levels \<union> {EXACT, SOURCE_SPELLING}" by blast
  moreover have "verify_lines ds texts verbatim (lm # lms) levels = Inr levels'"
    using rest(1) by (simp only: verify_lines.simps c l(1) option.case sum.case res_bind_simps)
  ultimately show ?case by blast
qed auto

text \<open>C4: Nothing stands between a decision in normal form and its PAGE file. If the decided text of every line of
  a file is normalised, clean, and spells its break as the source does, then a file that is rewritten at
  all passes the projection check: every line is graded, none below the source's own spelling.\<close>

theorem normal_page_file_is_delivered:
  assumes tree: "tree_of name = Inr el"
    and out: "rewrite_page_file u pages (pv_provider pv) (pv_model pv) (pv_lib_version pv) (pv_fingerprint pv) el = Inr res"
    and flat: "flat_lines (detect_namespace el) el" "\<not> has_tag ''TextLine'' (detect_namespace el) el"
    and lines: "\<forall>lm \<in> set (lines_of pages). \<exists>t \<in> set (textlines el).
      page_key t = Some (line_id lm) \<and> page_line_text u (detect_namespace el) False t = ocr_text lm"
    and normal: "\<forall>lm \<in> set (lines_of pages). \<exists>choice.
      map_of (decision_by_ref ds) (line_ref lm) = Some choice \<and>
      dec_final_text choice = or_else (corrected_text lm) (ocr_text lm) \<and>
      nfc u (dec_final_text choice) = dec_final_text choice \<and> clean_line (dec_final_text choice) = dec_final_text choice \<and>
      preserve_break_char u (ocr_text lm) (dec_final_text choice) = dec_final_text choice"
  shows "\<exists>levels. rewrite_and_verify (page_adapter u pv tree_of) name pages ds = Inr (res, levels) \<and>
    fst ` set levels = line_id ` set (lines_of pages) \<and> snd ` set levels \<subseteq> {EXACT, SOURCE_SPELLING}"
proof -
  have "\<exists>choice. map_of (decision_by_ref ds) (line_ref lm) = Some choice \<and>
      map_of (res_texts res) (line_id lm) = Some (dec_final_text choice)" if lm: "lm \<in> set (lines_of pages)" for lm
  proof -
    from lines lm obtain t where t: "t \<in> set (textlines el)" "page_key t = Some (line_id lm)"
      "page_line_text u (detect_namespace el) False t = ocr_text lm" by blast
    from normal lm obtain choice where c: "map_of (decision_by_ref ds) (line_ref lm) = Some choice"
      "dec_final_text choice = or_else (corrected_text lm) (ocr_text lm)"
      "nfc u (dec_final_text choice) = dec_final_text choice" "clean_line (dec_final_text choice) = dec_final_text choice"
      "preserve_break_char u (ocr_text lm) (dec_final_text choice) = dec_final_text choice" by blast
    from page_file_says [OF out flat t(1,2) lm c(2-4)] c(1,5) t(3) show ?thesis by simp
  qed
  from verify_lines_exact [of "lines_of pages" ds "res_texts res" "res_texts_verbatim res" "[]"] this obtain levels where
    v: "verify_lines ds (res_texts res) (res_texts_verbatim res) (lines_of pages) [] = Inr levels"
    "snd ` set levels \<subseteq> {EXACT, SOURCE_SPELLING}" by auto
  then have ok: "rewrite_and_verify (page_adapter u pv tree_of) name pages ds = Inr (res, levels)"
    using tree out by (simp add: rewrite_and_verify_def verify_projection_def page_adapter_def)
  from ok rewrite_and_verify_ok(3) [OF ok] v(2) show ?thesis by blast
qed

lemma normal_page_file_is_delivered_witness:
  "\<exists>res levels. demo_page_out = Inr res \<and>
     rewrite_and_verify (page_adapter ascii_unicode sample_provenance (\<lambda>n. Inr demo_page_file)) ''f''
       (demo_page_pages (tx ''Le chat'')) [decision_of (new_run one_line_document) (demo_page_lm (tx ''Le chat''))] =
       Inr (res, levels)"
proof -
  let ?lm = "demo_page_lm (tx ''Le chat'')" and ?pages = "demo_page_pages (tx ''Le chat'')"
    and ?d = "decision_of (new_run one_line_document) (demo_page_lm (tx ''Le chat''))"
  obtain res where out: "demo_page_out = Inr res"
    using demo_page_out_texts by (simp only: split: sum.split_asm)
  then have rw: "rewrite_page_file ascii_unicode ?pages (pv_provider sample_provenance) (pv_model sample_provenance)
      (pv_lib_version sample_provenance) (pv_fingerprint sample_provenance) demo_page_file = Inr res"
    by (simp add: demo_page_out_def sample_provenance_def)
  have lms: "lines_of ?pages = [?lm]" by (simp add: demo_page_pages_def lines_of_def)
  have texts: "line_id ?lm = ''l1''" "dec_final_text ?d = tx ''Le chat''" "or_else (corrected_text ?lm) (ocr_text ?lm) = tx ''Le chat''"
    "ocr_text ?lm = tx ''Le chut''" "map_of (decision_by_ref [?d]) (line_ref ?lm) = Some ?d"
    by (simp_all add: demo_page_lm_def plain_line_def decision_of_def decision_by_ref_def dict_of_def dict_set_def or_else_def)
  have normal: "nfc ascii_unicode (tx ''Le chat'') = tx ''Le chat''" "clean_line (tx ''Le chat'') = tx ''Le chat''"
    "preserve_break_char ascii_unicode (tx ''Le chut'') (tx ''Le chat'') = tx ''Le chat''"
    "page_line_text ascii_unicode (detect_namespace demo_page_file) False demo_page_line = tx ''Le chut''"
    by code_simp+
  have "\<exists>levels. rewrite_and_verify (page_adapter ascii_unicode sample_provenance (\<lambda>n. Inr demo_page_file)) ''f''
      ?pages [?d] = Inr (res, levels) \<and>
      fst ` set levels = line_id ` set (lines_of ?pages) \<and> snd ` set levels \<subseteq> {EXACT, SOURCE_SPELLING}"
  proof (rule normal_page_file_is_delivered [OF refl rw demo_page_flat(1,2)])
    show "\<forall>lm \<in> set (lines_of ?pages). \<exists>t \<in> set (textlines demo_page_file).
        page_key t = Some (line_id lm) \<and> page_line_text ascii_unicode (detect_namespace demo_page_file) False t = ocr_text lm"
      unfolding lms demo_page_flat(3) using texts(1,4) normal(4) demo_page_flat(4) by simp
    show "\<forall>lm \<in> set (lines_of ?pages). \<exists>choice. map_of (decision_by_ref [?d]) (line_ref lm) = Some choice \<and>
        dec_final_text choice = or_else (corrected_text lm) (ocr_text lm) \<and>
        nfc ascii_unicode (dec_final_text choice) = dec_final_text choice \<and>
        clean_line (dec_final_text choice) = dec_final_text choice \<and>
        preserve_break_char ascii_unicode (ocr_text lm) (dec_final_text choice) = dec_final_text choice"
      unfolding lms using texts normal(1-3) by simp
  qed
  with out show ?thesis by blast
qed

end
