(* ===== verification/Confidence.thy ===== *)
theory Confidence
  imports Alignment
begin

text \<open>
  \<open>core/confidence.py\<close>: how sure a run is of what it decided. Every component keeps its name; the aggregate
  is the least of those present. Values in \<open>[0, 1]\<close> are exact rationals. A scorer is a name and a
  function; the heuristic scorer and the verification of a producer's claims are the library's own.

  Facts: the table of confusions is searched at every position; the aggregate is the weakest evidence; a
  full heuristic score means that no word changed; a claim that fails its check scores below any
  honest answer.
\<close>

section \<open>Confusions\<close>

definition DEFAULT_CONFUSIONS :: "(ptext \<times> ptext) list" where
  "DEFAULT_CONFUSIONS =
     [([383], tx ''s''), ([64257], tx ''fi''), ([64258], tx ''fl''), (tx ''rn'', tx ''m''), (tx ''m'', tx ''rn''),
      (tx ''u'', tx ''n''), (tx ''n'', tx ''u''), (tx ''1'', tx ''l''), (tx ''l'', tx ''1''), (tx ''0'', tx ''o''),
      ([230], tx ''ae''), ([339], tx ''oe'')]"

definition CONFUSION_SCORE :: rat where "CONFUSION_SCORE = 19 / 20"
definition LEXICON_SCORE :: rat where "LEXICON_SCORE = 9 / 10"
definition INSERTION_SCORE :: rat where "INSERTION_SCORE = 3 / 10"
definition DELETION_SCORE :: rat where "DELETION_SCORE = 4 / 10"
definition FAILED_CLAIM_SCORE :: rat where "FAILED_CLAIM_SCORE = 2 / 10"
definition CONTEXT_CLAIM_SCORE :: rat where "CONTEXT_CLAIM_SCORE = 6 / 10"
definition CONJECTURE_SCORE :: rat where "CONJECTURE_SCORE = 3 / 10"
definition UNCERTAIN_STATUS_SCORE :: rat where "UNCERTAIN_STATUS_SCORE = 3 / 10"
definition BARE_CERTAIN_SCORE :: rat where "BARE_CERTAIN_SCORE = 75 / 100"

lemmas score_defs = CONFUSION_SCORE_def LEXICON_SCORE_def INSERTION_SCORE_def DELETION_SCORE_def
  FAILED_CLAIM_SCORE_def CONTEXT_CLAIM_SCORE_def CONJECTURE_SCORE_def UNCERTAIN_STATUS_SCORE_def BARE_CERTAIN_SCORE_def

definition replace_at :: "ptext \<Rightarrow> ptext \<Rightarrow> ptext \<Rightarrow> nat \<Rightarrow> ptext" where
  "replace_at old new source i = take i source @ new @ drop (i + length old) source"

function confused_from :: "ptext \<Rightarrow> ptext \<Rightarrow> ptext \<Rightarrow> ptext \<Rightarrow> nat \<Rightarrow> bool" where
  "confused_from old new source target start =
     (case py_find old source start of
        None \<Rightarrow> False
      | Some i \<Rightarrow>
          (if replace_at old new source i = target then True else confused_from old new source target (i + 1)))"
  by auto
termination
  by (relation "measure (\<lambda>(old, new, source, target, start). Suc (length source) - start)")
    (auto dest: py_find_range)

declare confused_from.simps [simp del]

definition is_known_confusion :: "ptext \<Rightarrow> ptext \<Rightarrow> (ptext \<times> ptext) list \<Rightarrow> bool" where
  "is_known_confusion source target confusions \<longleftrightarrow>
     list_ex (\<lambda>(old, new). confused_from old new source target 0) confusions"

section \<open>Scorers\<close>

record confidence_scorer =
  cs_name :: string
  cs_score_line :: "ptext \<Rightarrow> ptext \<Rightarrow> token_alignment \<Rightarrow> rat"

record heuristic_scorer =
  hs_confusions :: "(ptext \<times> ptext) list"
  hs_lexicon :: "ptext list"

definition new_heuristic_scorer :: "unicode \<Rightarrow> (ptext \<times> ptext) list \<Rightarrow> ptext list \<Rightarrow> heuristic_scorer" where
  "new_heuristic_scorer u confusions lexicon =
     \<lparr>hs_confusions = confusions, hs_lexicon = map (uc_casefold u) lexicon\<rparr>"

definition token_score :: "unicode \<Rightarrow> heuristic_scorer \<Rightarrow> ptext \<Rightarrow> ptext \<Rightarrow> rat" where
  "token_score u hs source target =
     (let sim = char_similarity source target;
          confused = (if is_known_confusion source target (hs_confusions hs) then max sim CONFUSION_SCORE else sim)
      in if hs_lexicon hs \<noteq> [] \<and> uc_casefold u target \<in> set (hs_lexicon hs) \<and> confused \<ge> 1 / 2
         then max confused LEXICON_SCORE else confused)"

text \<open>What one pair of the alignment counts for; a word that did not change counts for nothing.\<close>

definition token_event :: "unicode \<Rightarrow> heuristic_scorer \<Rightarrow> ptext list \<Rightarrow> ptext list \<Rightarrow> aligned_pair \<Rightarrow> rat option" where
  "token_event u hs source_tokens target_tokens p =
     (case source_index p of
        None \<Rightarrow> Some INSERTION_SCORE
      | Some i \<Rightarrow>
          (case target_index p of
             None \<Rightarrow> Some DELETION_SCORE
           | Some j \<Rightarrow>
               if source_tokens ! i \<noteq> target_tokens ! j
               then Some (token_score u hs (source_tokens ! i) (target_tokens ! j)) else None))"

definition heuristic_score_line :: "unicode \<Rightarrow> heuristic_scorer \<Rightarrow> ptext \<Rightarrow> ptext \<Rightarrow> token_alignment \<Rightarrow> rat" where
  "heuristic_score_line u hs source_text final_text al =
     (if source_text = final_text then 1
      else
        (let events = List.map_filter (token_event u hs (py_split source_text) (py_split final_text)) (pairs al)
         in if events = [] then 1 else sum_list events / of_nat (length events)))"

definition heuristic_as_scorer :: "unicode \<Rightarrow> heuristic_scorer \<Rightarrow> confidence_scorer" where
  "heuristic_as_scorer u hs = \<lparr>cs_name = ''heuristic'', cs_score_line = heuristic_score_line u hs\<rparr>"

section \<open>Claims\<close>

text \<open>A claim is a dict of texts; a status is \<open>None\<close> when the model declared nothing.\<close>

definition claim_field :: "string \<Rightarrow> (string, ptext) dict \<Rightarrow> ptext" where
  "claim_field k claim = (case map_of claim k of None \<Rightarrow> [] | Some v \<Rightarrow> v)"

definition fabricated :: "ptext \<Rightarrow> ptext \<Rightarrow> (string, ptext) dict \<Rightarrow> bool" where
  "fabricated source_text corrected_text claim \<longleftrightarrow>
     claim_field ''source'' claim \<notin> set (py_split source_text) \<or>
     claim_field ''corrected'' claim \<notin> set (py_split corrected_text)"

definition claim_score ::
  "unicode \<Rightarrow> ptext \<Rightarrow> ptext \<Rightarrow> (ptext \<times> ptext) list \<Rightarrow> ptext list \<Rightarrow> (string, ptext) dict \<Rightarrow> rat" where
  "claim_score u source_text corrected_text confusions lexicon claim =
     (let src = claim_field ''source'' claim; tgt = claim_field ''corrected'' claim; reason = claim_field ''reason'' claim
      in if fabricated source_text corrected_text claim then FAILED_CLAIM_SCORE
         else if reason = tx ''confusion_connue'' then
           (if is_known_confusion src tgt confusions then CONFUSION_SCORE else FAILED_CLAIM_SCORE)
         else if reason = tx ''mot_du_lexique'' then
           (if uc_casefold u tgt \<in> uc_casefold u ` set lexicon then LEXICON_SCORE else FAILED_CLAIM_SCORE)
         else if reason = tx ''infere_du_contexte'' then CONTEXT_CLAIM_SCORE
         else if reason = tx ''conjecture'' then CONJECTURE_SCORE
         else FAILED_CLAIM_SCORE)"

definition score_producer_claims ::
  "unicode \<Rightarrow> ptext \<Rightarrow> ptext \<Rightarrow> string option \<Rightarrow> (string, ptext) dict list \<Rightarrow> (ptext \<times> ptext) list \<Rightarrow> ptext list \<Rightarrow>
   rat option" where
  "score_producer_claims u source_text corrected_text status claims confusions lexicon =
     (if status = None then None
      else if status = Some ''uncertain'' then Some UNCERTAIN_STATUS_SCORE
      else if claims = [] then Some BARE_CERTAIN_SCORE
      else Some (Min (set (map (claim_score u source_text corrected_text confusions lexicon) claims))))"

section \<open>The confidence of a line\<close>

record confidence_of_line =
  lc_ocr :: "rat option"
  lc_producer :: "rat option"
  lc_alignment :: rat
  lc_scorers :: "(string, rat) dict"
  lc_decision :: rat
  lc_formula :: string

definition present_components :: "confidence_of_line \<Rightarrow> rat list" where
  "present_components lc =
     lc_alignment lc # map snd (lc_scorers lc) @
     (case lc_ocr lc of None \<Rightarrow> [] | Some x \<Rightarrow> [x]) @ (case lc_producer lc of None \<Rightarrow> [] | Some x \<Rightarrow> [x])"

text \<open>\<open>None\<close> if the alignment leaves its table, which it never does.\<close>

definition build_line_confidence ::
  "ptext \<Rightarrow> ptext \<Rightarrow> rat option \<Rightarrow> rat option \<Rightarrow> confidence_scorer list \<Rightarrow> confidence_of_line option" where
  "build_line_confidence source_text final_text ocr producer scorers =
     (case align_tokens char_similarity None (py_split source_text) (py_split final_text) of
        None \<Rightarrow> None
      | Some al \<Rightarrow>
          (let alignment_score = (if source_text = final_text then 1 else score al);
               vals = foldl (\<lambda>d s. dict_set (cs_name s) (cs_score_line s source_text final_text al) d) [] scorers;
               present = alignment_score # map snd vals @
                 (case ocr of None \<Rightarrow> [] | Some x \<Rightarrow> [x]) @ (case producer of None \<Rightarrow> [] | Some x \<Rightarrow> [x])
           in Some \<lparr>lc_ocr = ocr, lc_producer = producer, lc_alignment = alignment_score, lc_scorers = vals,
                    lc_decision = Min (set present), lc_formula = ''min''\<rparr>))"

section \<open>Facts: confusions\<close>

lemma py_find_None: "py_find sub s i = None \<Longrightarrow> i \<le> j \<Longrightarrow> \<not> starts_at sub s j"
  by (auto simp: py_find_def find_None_iff starts_at_def simp del: upt_Suc)

lemma py_find_first: "py_find sub s i = Some k \<Longrightarrow> i \<le> j \<Longrightarrow> starts_at sub s j \<Longrightarrow> k \<le> j"
proof -
  assume f: "py_find sub s i = Some k" and j: "i \<le> j" "starts_at sub s j"
  then obtain n where n: "n < length [i ..< Suc (length s)]" "k = [i ..< Suc (length s)] ! n"
    "\<forall>m < n. \<not> starts_at sub s ([i ..< Suc (length s)] ! m)"
    unfolding py_find_def find_Some_iff by blast
  have k: "k = i + n" using n(1,2) by (simp del: upt_Suc)
  show "k \<le> j"
  proof (rule ccontr)
    assume "\<not> k \<le> j"
    then have "j - i < n" "i + (j - i) = j" using j(1) k by simp_all
    moreover from this n(1) have "[i ..< Suc (length s)] ! (j - i) = j" by (simp del: upt_Suc)
    ultimately show False using n(3) j(2) by force
  qed
qed

lemma confused_from_iff:
  "confused_from old new source target start \<longleftrightarrow>
     (\<exists>i \<ge> start. starts_at old source i \<and> replace_at old new source i = target)"
proof (induction old new source target start rule: confused_from.induct)
  case (1 old new source target start)
  show ?case
  proof (cases "py_find old source start")
    case None
    then show ?thesis using py_find_None [OF None] by (auto simp: confused_from.simps [of old new source target start])
  next
    case (Some k)
    note k = py_find_range [OF Some] py_find_first [OF Some]
    show ?thesis
    proof (cases "replace_at old new source k = target")
      case True
      then show ?thesis using Some k(1) by (auto simp: confused_from.simps [of old new source target start])
    next
      case False
      have "(\<exists>i \<ge> k + 1. starts_at old source i \<and> replace_at old new source i = target) \<longleftrightarrow>
          (\<exists>i \<ge> start. starts_at old source i \<and> replace_at old new source i = target)"
      proof
        assume "\<exists>i \<ge> start. starts_at old source i \<and> replace_at old new source i = target"
        then obtain i where i: "start \<le> i" "starts_at old source i" "replace_at old new source i = target" by blast
        have "k \<le> i" by (rule k(2) [OF i(1,2)])
        with False i(3) have "k + 1 \<le> i" by (cases "i = k") auto
        with i show "\<exists>i \<ge> k + 1. starts_at old source i \<and> replace_at old new source i = target" by blast
      qed (use k(1) in \<open>auto intro: Suc_leD le_trans\<close>)
      with 1 [OF Some False] Some False show ?thesis by (simp add: confused_from.simps [of old new source target start])
    qed
  qed
qed

section \<open>Facts: the heuristic score\<close>

lemma char_similarity_one: "char_similarity a b = 1 \<longleftrightarrow> a = b"
  by (auto simp: char_similarity_eq ed_0_iff divide_eq_0_iff max_def split: if_splits)

lemma token_score_range:
  "0 \<le> token_score u hs a b" "token_score u hs a b \<le> 1" "a \<noteq> b \<Longrightarrow> token_score u hs a b < 1"
proof -
  note r = char_similarity_range [of a b] char_similarity_one [of a b]
  show "0 \<le> token_score u hs a b" "token_score u hs a b \<le> 1"
    using r(1) by (auto simp: token_score_def Let_def score_defs max_def)
  assume "a \<noteq> b"
  with r have "char_similarity a b < 1" by (simp add: less_le)
  then show "token_score u hs a b < 1" by (auto simp: token_score_def Let_def score_defs max_def)
qed

lemma event_range:
  assumes "token_event u hs ss ts p = Some x" shows "0 \<le> x \<and> x < 1"
  using assms token_score_range
  by (auto simp: token_event_def score_defs split: option.splits if_splits)

lemma mean_range:
  assumes "xs \<noteq> []" "\<forall>x \<in> set xs. 0 \<le> x \<and> x < (1 :: rat)"
  shows "0 \<le> sum_list xs / of_nat (length xs)" "sum_list xs / of_nat (length xs) < 1"
proof -
  have "0 \<le> sum_list xs" using assms(2) by (intro sum_list_nonneg) auto
  then show "0 \<le> sum_list xs / of_nat (length xs)" by simp
  have "sum_list xs < of_nat (length xs)"
    using assms by (induction xs rule: list_nonempty_induct) (auto intro: add_strict_mono)
  then show "sum_list xs / of_nat (length xs) < 1" using assms(1) by simp
qed

text \<open>An alignment without an event pairs every word with the same word.\<close>

lemma no_event_same:
  assumes "\<forall>p \<in> set ps. token_event u hs ss ts p = None"
  shows "map ((!) ss) (source_walk ps) = map ((!) ts) (target_walk ps)"
  using assms
  by (induction ps) (auto simp: source_walk_def target_walk_def List.map_filter_def token_event_def split: option.splits if_splits)

lemma map_filter_Nil: "List.map_filter f xs = [] \<longleftrightarrow> (\<forall>x \<in> set xs. f x = None)"
  by (induction xs) (auto simp: List.map_filter_def)

lemma set_map_filter: "x \<in> set (List.map_filter f xs) \<longleftrightarrow> (\<exists>y \<in> set xs. f y = Some x)"
  by (force simp: List.map_filter_def)

section \<open>Properties\<close>

text \<open>C38: The heuristic score of a line, under the alignment of its words that the confidence of a line is
  built with (no band). It lies in the unit interval, whatever the lexicon and the table of
  confusions, and it is full only where no word changed: every word deleted, inserted or replaced,
  even by a tabled confusion, costs something.\<close>

theorem heuristic_full_score_same_words:
  assumes "align_tokens char_similarity None (py_split source_text) (py_split final_text) = Some al"
  shows "0 \<le> heuristic_score_line u hs source_text final_text al \<and>
    heuristic_score_line u hs source_text final_text al \<le> 1 \<and>
    (heuristic_score_line u hs source_text final_text al = 1 \<longrightarrow> py_split source_text = py_split final_text)"
proof (cases "source_text = final_text")
  case True
  then show ?thesis by (simp add: heuristic_score_line_def)
next
  case False
  let ?ss = "py_split source_text" and ?ts = "py_split final_text"
  let ?events = "List.map_filter (token_event u hs ?ss ?ts) (pairs al)"
  have walks: "source_walk (pairs al) = [0 ..< length ?ss]" "target_walk (pairs al) = [0 ..< length ?ts]"
    using characters.align_arrives [of None ?ss ?ts] assms by (auto simp: reads_once_def)
  show ?thesis
  proof (cases "?events = []")
    case True
    then have "\<forall>p \<in> set (pairs al). token_event u hs ?ss ?ts p = None" by (simp only: map_filter_Nil)
    from no_event_same [OF this] have "?ss = ?ts" unfolding walks map_nth .
    then show ?thesis using True by (simp add: heuristic_score_line_def)
  next
    case events: False
    have "\<forall>x \<in> set ?events. 0 \<le> x \<and> x < 1" using event_range by (fastforce simp: set_map_filter)
    from mean_range [OF events this] show ?thesis
      using False events by (simp add: heuristic_score_line_def Let_def)
  qed
qed

text \<open>The confidence of a line always exists and is its weakest evidence: it is one of the components that
  are present, and none of them is below it; for a line that was not changed the alignment counts as
  full. If the scorers and the declared confidences stay in the unit interval, so does it.\<close>

theorem confidence_is_weakest_evidence:
  assumes "\<forall>s \<in> set scorers. \<forall>al. 0 \<le> cs_score_line s source_text final_text al \<and> cs_score_line s source_text final_text al \<le> 1"
    and "\<forall>x \<in> set_option ocr \<union> set_option producer. 0 \<le> x \<and> x \<le> 1"
  shows "\<exists>lc. build_line_confidence source_text final_text ocr producer scorers = Some lc \<and>
    lc_ocr lc = ocr \<and> lc_producer lc = producer \<and> fst ` set (lc_scorers lc) = cs_name ` set scorers \<and>
    lc_decision lc \<in> set (present_components lc) \<and> (\<forall>x \<in> set (present_components lc). lc_decision lc \<le> x) \<and>
    0 \<le> lc_decision lc \<and> lc_decision lc \<le> 1 \<and> (source_text = final_text \<longrightarrow> lc_alignment lc = 1)"
proof -
  obtain al where al: "align_tokens char_similarity None (py_split source_text) (py_split final_text) = Some al"
    using characters.align_arrives by blast
  let ?vals = "foldl (\<lambda>d s. dict_set (cs_name s) (cs_score_line s source_text final_text al) d) [] scorers"
  let ?a = "if source_text = final_text then 1 else score al"
  let ?present = "?a # map snd ?vals @ (case ocr of None \<Rightarrow> [] | Some x \<Rightarrow> [x]) @ (case producer of None \<Rightarrow> [] | Some x \<Rightarrow> [x])"
  have vals: "fst ` set ?vals = cs_name ` set scorers"
    "snd ` set ?vals \<subseteq> (\<lambda>s. cs_score_line s source_text final_text al) ` set scorers"
    by (rule fold_dict_set)+
  have unit: "0 \<le> x \<and> x \<le> 1" if "x \<in> set ?present" for x
  proof -
    from that consider "x = ?a" | "x \<in> snd ` set ?vals" | "ocr = Some x" | "producer = Some x"
      by (cases ocr; cases producer) auto
    then show ?thesis
    proof cases
      case 1
      then show ?thesis using characters.align_score [OF al] by simp
    next
      case 2
      then obtain s where "s \<in> set scorers" "x = cs_score_line s source_text final_text al" using vals by blast
      then show ?thesis using assms(1) by blast
    qed (use assms(2) in simp_all)
  qed
  have least: "Min (set ?present) \<in> set ?present" "\<forall>x \<in> set ?present. Min (set ?present) \<le> x"
    using Min_in [of "set ?present"] Min_le [of "set ?present"] by blast+
  define lc where "lc = \<lparr>lc_ocr = ocr, lc_producer = producer, lc_alignment = ?a, lc_scorers = ?vals,
    lc_decision = Min (set ?present), lc_formula = ''min''\<rparr>"
  have "build_line_confidence source_text final_text ocr producer scorers = Some lc"
    by (simp add: build_line_confidence_def al lc_def Let_def)
  moreover have "present_components lc = ?present" "lc_decision lc = Min (set ?present)" "lc_scorers lc = ?vals"
    by (simp_all only: present_components_def lc_def confidence_of_line.simps)
  ultimately show ?thesis using least unit [OF least(1)] vals(1) by (intro exI [of _ lc] conjI) (simp_all add: lc_def)
qed

text \<open>A justification that fails its check is the worst evidence. Whatever else a model claims for a line
  whose status it declares and does not call uncertain, one claim naming a word that is not in the
  line, or a confusion that is not tabled, takes the score to 0.2, below an admitted doubt (0.3), which
  no claim can raise.\<close>

theorem failed_claim_sinks_the_score:
  assumes "status \<noteq> None" "status \<noteq> Some ''uncertain''" "claim \<in> set claims"
    and "fabricated source_text corrected_text claim \<or>
      claim_field ''reason'' claim = tx ''confusion_connue'' \<and>
      \<not> (\<exists>(old, new) \<in> set confusions. \<exists>i. starts_at old (claim_field ''source'' claim) i \<and>
           replace_at old new (claim_field ''source'' claim) i = claim_field ''corrected'' claim)"
  shows "score_producer_claims u source_text corrected_text status claims confusions lexicon = Some (1 / 5) \<and>
    score_producer_claims u source_text corrected_text (Some ''uncertain'') claims confusions lexicon = Some (3 / 10)"
proof -
  let ?score = "claim_score u source_text corrected_text confusions lexicon"
  have low: "1 / 5 \<le> ?score c" for c
    by (simp add: claim_score_def Let_def score_defs)
  have "\<not> is_known_confusion (claim_field ''source'' claim) (claim_field ''corrected'' claim) confusions"
    if "\<not> fabricated source_text corrected_text claim"
    using assms(4) that by (auto simp: is_known_confusion_def list_ex_iff confused_from_iff)
  then have "?score claim = 1 / 5"
    using assms(4) by (auto simp: claim_score_def Let_def score_defs)
  then have "Min (set (map ?score claims)) = 1 / 5"
    using assms(3) low by (intro Min_eqI) auto
  then show ?thesis using assms(1-3) by (auto simp: score_producer_claims_def score_defs)
qed

section \<open>Witnesses\<close>

lemma heuristic_range: "0 \<le> heuristic_score_line u hs a b al \<and> heuristic_score_line u hs a b al \<le> 1"
proof -
  let ?events = "List.map_filter (token_event u hs (py_split a) (py_split b)) (pairs al)"
  have "\<forall>x \<in> set ?events. 0 \<le> x \<and> x < 1" using event_range by (fastforce simp: set_map_filter)
  from mean_range [OF _ this] show ?thesis by (auto simp: heuristic_score_line_def Let_def intro: less_imp_le)
qed

lemma heuristic_full_score_same_words_witness:
  "\<exists>al. align_tokens char_similarity None (py_split (tx ''Le chat'')) (py_split (tx ''Le  chat'')) = Some al \<and>
     0 \<le> heuristic_score_line ascii_unicode (new_heuristic_scorer ascii_unicode DEFAULT_CONFUSIONS []) (tx ''Le chat'')
       (tx ''Le  chat'') al"
proof -
  obtain al where al: "align_tokens char_similarity None (py_split (tx ''Le chat'')) (py_split (tx ''Le  chat'')) = Some al"
    using characters.align_arrives by blast
  from conjunct1 [OF heuristic_full_score_same_words [OF al]] al show ?thesis by blast
qed

lemma confidence_is_weakest_evidence_witness:
  "\<exists>lc. build_line_confidence (tx ''modeme'') (tx ''moderne'') (Some (4 / 5)) None
       [heuristic_as_scorer ascii_unicode (new_heuristic_scorer ascii_unicode DEFAULT_CONFUSIONS [])] = Some lc \<and>
     lc_decision lc \<in> set (present_components lc) \<and> lc_decision lc \<le> 1"
proof -
  have "\<forall>s \<in> set [heuristic_as_scorer ascii_unicode (new_heuristic_scorer ascii_unicode DEFAULT_CONFUSIONS [])].
      \<forall>al. 0 \<le> cs_score_line s (tx ''modeme'') (tx ''moderne'') al \<and> cs_score_line s (tx ''modeme'') (tx ''moderne'') al \<le> 1"
    using heuristic_range by (simp add: heuristic_as_scorer_def)
  moreover have "\<forall>x \<in> set_option (Some (4 / 5 :: rat)) \<union> set_option None. 0 \<le> x \<and> x \<le> 1" by simp
  ultimately show ?thesis using confidence_is_weakest_evidence by blast
qed

lemma failed_claim_sinks_the_score_witness:
  "score_producer_claims ascii_unicode (tx ''Le chut'') (tx ''Le chat'') (Some ''certain'')
     [[(''source'', tx ''chut''), (''corrected'', tx ''chat''), (''reason'', tx ''infere_du_contexte'')],
      [(''source'', tx ''chien''), (''corrected'', tx ''chat''), (''reason'', tx ''conjecture'')]]
     DEFAULT_CONFUSIONS [] = Some (1 / 5)"
proof -
  have "fabricated (tx ''Le chut'') (tx ''Le chat'')
      [(''source'', tx ''chien''), (''corrected'', tx ''chat''), (''reason'', tx ''conjecture'')]" by code_simp
  then show ?thesis
    by (intro conjunct1 [OF failed_claim_sinks_the_score
        [where claim = "[(''source'', tx ''chien''), (''corrected'', tx ''chat''), (''reason'', tx ''conjecture'')]"]]) simp_all
qed

end
