(* ===== verification/Spec2Isabelle.thy ===== *)
theory Spec2Isabelle
  imports Decision_Spec Page_Alignment Edit_Distance Rendering Confidence
begin

text \<open>
  Verification of the correction engine of \<open>saknussemm\<close> (sources under \<open>src/src/saknussemm\<close>).

  \<^bold>\<open>The program.\<close> A document is pages of OCR lines read from ALTO or PAGE XML. The engine plans each
  page into chunks, asks an injected producer (a language model, a rule engine) for an edit script
  per chunk, checks what came back, reconciles words hyphenated across lines, decides every line
  (accepted, or back to its source) and hands the decisions to a renderer that writes the XML. Its
  promises are about decisions: every line ends with exactly one, a line that falls back carries
  its source text, words hyphenated over lines travel together, and no work is lost or done twice.

  \<^bold>\<open>Theories and sources.\<close> In the order of the imports:
  \<^item> \<open>Prelude\<close>, \<open>Py_Text\<close>, \<open>Difflib\<close>, \<open>Union_Find\<close>, \<open>Edit_Distance\<close>: what the components share: dicts
    as association lists in insertion order, Python's text operations (\<open>core/_norm.py\<close>),
    \<open>difflib\<close>'s documented ratio, the union-find both users interpret, the edit distance.
  \<^item> \<open>Manifest\<close> (\<open>core/schemas/manifest.py\<close>, \<open>core/identity.py\<close>, \<open>errors.py\<close>), \<open>Policies\<close>
    (\<open>core/schemas/policies.py\<close>): the records, the enums, the exception classes, the configurations.
  \<^item> \<open>Pairing\<close>, \<open>Units\<close> (\<open>core/pairing.py\<close>, \<open>core/units.py\<close>): linking the two halves of a word, and
    the hyphen units as the components of the links.
  \<^item> \<open>Planner\<close> (\<open>core/planner.py\<close>): chunks of a page at four granularities.
  \<^item> \<open>Guards\<close>, \<open>Hyphenation\<close>, \<open>Editing\<close>, \<open>Validator\<close>: what an answer must satisfy.
  \<^item> \<open>Run_State\<close> (\<open>core/decide.py\<close>, \<open>context.py\<close>, \<open>traces.py\<close>, \<open>indexing.py\<close>, \<open>workspace.py\<close>): the
    state of a run and the three verbs that change a decision.
  \<^item> \<open>Reconcile\<close>, \<open>Acceptance\<close>, \<open>Finalize\<close>: deciding the lines of a chunk, the passes over the
    document, the decision set.
  \<^item> \<open>Alignment\<close>, \<open>Page_Alignment\<close>, \<open>Fidelity\<close>: token and line alignment, projection fidelity.
  \<^item> \<open>Producers\<close>, \<open>Routing\<close> (\<open>quality.py\<close>, \<open>routing.py\<close>, \<open>batching.py\<close>), \<open>Attempt\<close> (\<open>retry.py\<close>,
    \<open>attempt.py\<close>), \<open>Driver\<close> (\<open>outcome.py\<close>, \<open>driver.py\<close>), \<open>Pipeline\<close> (\<open>preflight.py\<close>, \<open>pipeline.py\<close>):
    from one call of a producer up to the whole run.
  \<^item> \<open>Decision_Spec\<close>: the machine a line's decision obeys, and the refinement of it by the engine.
  \<^item> \<open>Xml_Tree\<close> (\<open>formats/_xml.py\<close>), \<open>Rewriting\<close>, \<open>Parsing\<close>: the tree of elements, its tolerant numbers
    and its walks, and what the two formats share of writing and of reading a file.
  \<^item> \<open>Alto_Text\<close>, \<open>Alto_Geometry\<close>, \<open>Alto_Rewriter\<close> (\<open>formats/alto/{rewriter,losses,_geometry}.py\<close>,
    \<open>core/losses.py\<close>): the text of an ALTO line, the boxes of its words, its losses and the three
    ways a line is written; \<open>Alto_Lines\<close>, \<open>Alto_Files\<close> hold the facts about a line and about a file.
  \<^item> \<open>Alto_Parser\<close> (\<open>formats/alto/parser.py\<close>): from a tree to pages of lines; \<open>Alto_Roundtrip\<close> composes it
    with the rewriter.
  \<^item> \<open>Page_Text\<close>, \<open>Page_Rewriter\<close> (\<open>formats/page/{_text,_custom,rewriter}.py\<close>): the text of a PAGE line, its
    \<open>custom\<close> groups, and the rewriting of a file; \<open>Page_Lines\<close>, \<open>Page_Files\<close> hold the facts about a line
    and about a file; \<open>Page_Parser\<close> (\<open>formats/page/parser.py\<close>) reads a file, \<open>Page_Roundtrip\<close> composes both.
  \<^item> \<open>Encoding\<close> (\<open>formats/_xml.py\<close>): a file labelled Latin-1 that is UTF-8; \<open>Documents\<close>
    (\<open>formats/loader.py\<close>): the format of a file and the document of several files.
  \<^item> \<open>Rendering\<close> (\<open>core/rendering.py\<close>, \<open>core/projection.py\<close>): every decided file written, read back and checked, delivered or
    refused; here the engine is one function from files to files.
  \<^item> \<open>Confidence\<close> (\<open>core/confidence.py\<close>): how sure the run is of a line, for the report.

  \<^bold>\<open>How the code is rendered.\<close> Text is a list of code points; the Unicode tables, SHA-256, uuid4, the
  redaction of messages, the producer, the abort probe and reading a file are parameters. An XML
  element is a tag, its identifier attribute apart (identifiers are compared, texts are
  normalised), its other attributes in document order, its text and its children; comments and tails
  have no place in it. Numbers in attributes are ASCII digits. Floats are exact rationals (\<open>float("inf")\<close> is \<open>None\<close>). The source shares mutable line objects between
  indices; here they live in one store from line references to lines (\<open>run\<close>), threaded through
  every operation; the planner's mutation of a page is written back by \<open>sync_links\<close>. An exception is
  a class and a message in \<open>Inl\<close>, with the run it leaves behind where a handler goes on from it.
  Async calls run one after the other, as in the source. The wording of messages is kept only where
  code reads it back; events, warnings and sleeping change no decision and are left out. Lookups
  that would raise \<open>KeyError\<close> in Python on data the callers never build are made total.

  \<^bold>\<open>Recursion and bounds.\<close> The recursion of \<open>run_chunk\<close> through a failed chunk's finer plan is a
  \<open>function\<close>; it ends because a forced plan is strictly finer. The window loop, the union-find walks
  and the attempt loop are total with their own measures, and the backtrack of the alignment, which
  in Python might leave its table, is proved never to do so. Only \<open>find_root\<close> of \<open>Union_Find\<close> counts
  steps: its loop over parents takes the number of nodes as its bound, which is proved enough for every
  forest the operations build (the walk ends at a root before the bound is reached).

  \<^bold>\<open>What is proved.\<close> \<open>Pipeline\<close>: a run that passes its gates and whose pages return gives a terminal
  decision for every line, in reading order. \<open>Driver\<close>: a page that returns has decided every line,
  an ending never breaks the run's invariant, and a chunk's calls stay within its budget.
  \<open>Decision_Spec\<close>: decisions only move along the machine. \<open>Planner\<close> and \<open>Routing\<close>: every line is a target of
  exactly one call, and units stay whole. \<open>Units\<close>, \<open>Pairing\<close>: the groups are the components of the
  links, and links are symmetric. \<open>Editing\<close>, \<open>Validator\<close>, \<open>Guards\<close>, \<open>Hyphenation\<close>, \<open>Reconcile\<close>,
  \<open>Acceptance\<close>, \<open>Finalize\<close>: each operation on every branch. \<open>Alignment\<close>: the cost table equals its
  reference recursion, the similarity is the edit distance. \<open>Alto_Files\<close>: a rewritten line read back
  gives the corrected text and its words tile the line's box; the ledger counts every line once.
  \<open>Alto_Parser\<close>: blocks come in the declared order, none lost; \<open>Alto_Roundtrip\<close>: a file parsed and
  written without a correction keeps every text, every line is left untouched and nothing is lost.
  \<open>Page_Files\<close>, \<open>Page_Parser\<close>, \<open>Page_Roundtrip\<close>: the same for PAGE, where the tree written without a
  correction is the tree read, with provenance added. \<open>Documents\<close>: what the loader builds is what the engine
  assumes. \<open>Rendering\<close>: from files to decisions every line is decided; every file is delivered with the decided
  words or named; rendering changes no decision. \<open>Confidence\<close>: the aggregate is the weakest evidence, a
  full score means no word changed. Where the code does not do what it says (a chain left half
  corrected, a link over pages severed by the line walk or by the second pass of pairing, break markup the
  source never had, a kept break that overlaps its line's words) the behaviour is proved for every input of
  the shape described.

  \<^bold>\<open>Interfaces.\<close> \<open>run_pass\<close> (in \<open>Run_State\<close>) is the law every step of a run obeys: it keeps the run
  coherent and only moves decisions forward. Each verb and each pass interprets it; clients fold
  over it. \<open>similarity_measure\<close> is the interface between the alignment and its two similarities. The
  union-find's interface has the group derivation and the block planner as its two providers.
  \<open>ordered_map\<close> is a Python dict, \<open>seam_pass\<close> a guard over neighbouring lines.
  \<open>line_map\<close> is what a rewrite needs of its line function for the tree around the lines to be kept,
  \<open>line_writer\<close> (a \<open>line_map\<close> for every manifest) that writing keeps a line a line, \<open>line_loop\<close> the ledger
  of a loop over lines: both formats interpret them. \<open>line_reader\<close> and \<open>page_reader\<close> are the contracts of a parser's loops, from which the
  well-formedness of a parsed file follows; ALTO and PAGE are their two providers.

  \<^bold>\<open>Assumed.\<close> A page's blocks list each of its lines once and a line names its own page (what the parsers
  build, proved in \<open>Documents\<close>); a planner's overlap is smaller than its window (what its class validates).
  With quality routing on, the theorems about decisions are for pages none of whose lines fell back
  before their turn (\<open>routable\<close>, \<open>routing_safe\<close>): \<open>confirm_skipped_lines\<close> would accept such a line again.
  Of lxml: a text with a character XML cannot carry is refused with \<open>ValueError\<close> (rendered for a PAGE
  line; for ALTO attributes and provenance texts it is left out). An adapter is a function of a file's name
  and pages.

  \<^bold>\<open>Not modelled.\<close> Parsing and serialising bytes (lxml), schema validation, the JSON report and its
  provenance and fingerprints (they follow the decisions and change none); the vendor integrations, the
  prompts of the bundled producers; the observers.
\<close>

end
